(* ===== verification/CenPrelude.thy ===== *)
theory CenPrelude
  imports Main "HOL-Library.Word"
begin

text \<open>
  Shared vocabulary of the development: the widths of the engine's machine integers, the
  outcome of a fallible Rust function (\<open>Result\<close> plus panic), little-endian byte
  strings and the arithmetic of Rust's shift and min/max operators, with the lemmas on them
  that every component uses.
  Conventions. \<open>usize\<close> lengths and indices are \<open>nat\<close>: every such value
  the code computes is bounded by the length of a buffer in memory. Fixed-width values
  (\<open>u8\<close>, \<open>u32\<close>, \<open>i64\<close>, \<open>u64\<close>) are words of their width,
  with the wrapping arithmetic of the release build; an \<open>i64\<close> is a 64-bit word
  read through \<open>sint\<close>.
\<close>

unbundle bit_operations_syntax

named_theorems codec_rt \<open>round trips of encoders and decoders\<close>
named_theorems inv_intro \<open>operations keep the invariant of their component\<close>
named_theorems len_simps \<open>lengths of encoded byte strings\<close>

type_synonym u8 = "8 word"
type_synonym u16 = "16 word"
type_synonym u32 = "32 word"
type_synonym u64 = "64 word"
type_synonym i64 = "64 word"
type_synonym bytes = "u8 list"

section \<open>Outcomes\<close>

text \<open>A Rust \<open>Result\<close> together with the possibility of a panic.\<close>

datatype ('a, 'e) outcome = Ok 'a | Err 'e | Panic

fun and_then :: "('a, 'e) outcome \<Rightarrow> ('a \<Rightarrow> ('b, 'e) outcome) \<Rightarrow> ('b, 'e) outcome" where
  "and_then (Ok x) f = f x"
| "and_then (Err e) f = Err e"
| "and_then Panic f = Panic"

fun is_ok :: "('a, 'e) outcome \<Rightarrow> bool" where
  "is_ok (Ok _) = True"
| "is_ok _ = False"

fun is_err :: "('a, 'e) outcome \<Rightarrow> bool" where
  "is_err (Err _) = True"
| "is_err _ = False"

lemma and_then_eq_Ok [simp]:
  "and_then m f = Ok y \<longleftrightarrow> (\<exists>x. m = Ok x \<and> f x = Ok y)"
  by (cases m) auto

lemma and_then_eq_Panic [simp]:
  "and_then m f = Panic \<longleftrightarrow> m = Panic \<or> (\<exists>x. m = Ok x \<and> f x = Panic)"
  by (cases m) auto

lemma and_then_cong [fundef_cong]:
  "m = m' \<Longrightarrow> (\<And>x. m' = Ok x \<Longrightarrow> f x = g x) \<Longrightarrow> and_then m f = and_then m' g"
  by (cases m') auto

text \<open>\<open>ok_or\<close>: an absent value becomes an error.\<close>

fun ok_or :: "'a option \<Rightarrow> 'e \<Rightarrow> ('a, 'e) outcome" where
  "ok_or (Some x) e = Ok x"
| "ok_or None e = Err e"

text \<open>Indexing and slicing panic out of range, as \<open>buf[i]\<close> and \<open>buf[a..b]\<close> do.\<close>

definition index_at :: "'a list \<Rightarrow> nat \<Rightarrow> ('a, 'e) outcome" where
  "index_at xs i = (if i < length xs then Ok (xs ! i) else Panic)"

definition slice :: "'a list \<Rightarrow> nat \<Rightarrow> nat \<Rightarrow> 'a list" where
  "slice xs a b = take (b - a) (drop a xs)"

definition slice_at :: "'a list \<Rightarrow> nat \<Rightarrow> nat \<Rightarrow> ('a list, 'e) outcome" where
  "slice_at xs a b = (if a \<le> b \<and> b \<le> length xs then Ok (slice xs a b) else Panic)"

lemma length_slice [simp]: "length (slice xs a b) = min (b - a) (length xs - a)"
  by (auto simp: slice_def)

lemma slice_append_eq:
  "length xs = a \<Longrightarrow> a + length ys = b \<Longrightarrow> slice (xs @ ys @ zs) a b = ys"
  by (auto simp: slice_def)

lemma slice_0_append: "length xs = b \<Longrightarrow> slice (xs @ ys) 0 b = xs"
  by (auto simp: slice_def)

lemma slice_at_ok [simp]:
  "a \<le> b \<Longrightarrow> b \<le> length xs \<Longrightarrow> slice_at xs a b = Ok (slice xs a b)"
  by (simp add: slice_at_def)

section \<open>Decimal output of \<open>format!\<close>\<close>

fun show_nat :: "nat \<Rightarrow> string" where
  "show_nat n = (if n < 10 then [char_of (48 + n)]
     else show_nat (n div 10) @ [char_of (48 + n mod 10)])"

declare show_nat.simps [simp del]

definition show_int :: "int \<Rightarrow> string" where
  "show_int x = (if x < 0 then CHR ''-'' # show_nat (nat (- x)) else show_nat (nat x))"

section \<open>Little-endian byte strings\<close>

definition le_bytes :: "nat \<Rightarrow> 'a::len word \<Rightarrow> bytes" where
  "le_bytes n w = map (\<lambda>i. ucast (drop_bit (8 * i) w)) [0..<n]"

fun from_le :: "bytes \<Rightarrow> 'a::len word" where
  "from_le [] = 0"
| "from_le (b # bs) = ucast b OR push_bit 8 (from_le bs)"

lemma length_le_bytes [simp, len_simps]: "length (le_bytes n w) = n"
  by (simp add: le_bytes_def)

lemma le_bytes_Suc: "le_bytes (Suc n) w = ucast w # le_bytes n (drop_bit 8 w)"
proof -
  have "[0..<Suc n] = 0 # map Suc [0..<n]"
    by (simp add: map_Suc_upt upt_conv_Cons)
  then show ?thesis
    by (simp add: le_bytes_def comp_def add.commute del: upt_Suc)
qed

lemma le_bytes_0 [simp]: "le_bytes 0 w = []"
  by (simp add: le_bytes_def)

lemma from_le_le_bytes: "from_le (le_bytes n w) = (take_bit (8 * n) w :: 'a::len word)"
proof (induction n arbitrary: w)
  case 0
  then show ?case by simp
next
  case (Suc n)
  have split_low: "ucast (ucast w :: u8) OR push_bit 8 (take_bit (8 * n) (drop_bit 8 w))
      = take_bit (8 * Suc n) (w :: 'a word)"
    by (rule bit_word_eqI) (auto simp: bit_simps)
  show ?case
    by (simp only: le_bytes_Suc from_le.simps Suc.IH split_low)
qed

lemma from_le_le_bytes_u64 [simp, codec_rt]: "from_le (le_bytes 8 (w :: u64)) = w"
  by (simp add: from_le_le_bytes take_bit_word_eq_self)

lemma from_le_le_bytes_u32 [simp, codec_rt]: "from_le (le_bytes 4 (w :: u32)) = w"
  by (simp add: from_le_le_bytes take_bit_word_eq_self)

lemma from_le_le_bytes_u16 [simp, codec_rt]: "from_le (le_bytes 2 (w :: u16)) = w"
  by (simp add: from_le_le_bytes take_bit_word_eq_self)

lemma bit_word_ge [simp]: "LENGTH('a) \<le> n \<Longrightarrow> \<not> bit (w :: 'a::len word) n"
  by (meson bit_imp_le_length not_le)

lemma bit_of_small: "unat (w :: 'a::len word) < 2 ^ k \<Longrightarrow> k \<le> n \<Longrightarrow> \<not> bit w n"
  by (metis bit_take_bit_iff not_le take_bit_nat_eq_self_iff unsigned_take_bit_eq
      word_eq_iff_unsigned)

lemma bit_small_lt: "bit (w :: 'a::len word) n \<Longrightarrow> unat w < 2 ^ k \<Longrightarrow> n < k"
  by (meson bit_of_small not_le)

lemma unat_of_nat_small:
  "n < 2 ^ LENGTH('a) \<Longrightarrow> unat (of_nat n :: 'a::len word) = n"
  by (simp add: unsigned_of_nat take_bit_nat_eq_self)

lemma unat_two_power [simp]: "k < LENGTH('a) \<Longrightarrow> unat (2 ^ k :: 'a::len word) = 2 ^ k"
  using unat_of_nat_small [where 'a = 'a, of "2 ^ k"] by simp

lemma unat_lt2p: "unat (x :: 'a::len word) < 2 ^ LENGTH('a)"
  by (rule unsigned_less)

lemma unat_ucast_up [simp]:
  fixes w :: "'s::len word"
  assumes wide: "LENGTH('t) \<ge> LENGTH('s)"
  shows "unat (ucast w :: 't::len word) = unat w"
proof -
  have "unat w < 2 ^ LENGTH('s)" by (rule unat_lt2p)
  also have "(2::nat) ^ LENGTH('s) \<le> 2 ^ LENGTH('t)"
    using wide by (rule power_increasing) simp
  finally show ?thesis by (simp add: unsigned_ucast_eq take_bit_nat_eq_self)
qed

text \<open>\<open>leading_zeros\<close> and the width of the smallest field that holds a value.\<close>

definition leading_zeros :: "'a::len word \<Rightarrow> nat" where
  "leading_zeros w = length (takeWhile (\<lambda>i. \<not> bit w i) (rev [0..<LENGTH('a)]))"

definition trailing_zeros :: "'a::len word \<Rightarrow> nat" where
  "trailing_zeros w = length (takeWhile (\<lambda>i. \<not> bit w i) [0..<LENGTH('a)])"

lemma leading_zeros_le: "leading_zeros (w :: 'a::len word) \<le> LENGTH('a)"
  using length_takeWhile_le [of _ "rev [0..<LENGTH('a)]"] by (simp add: leading_zeros_def)

lemma trailing_zeros_le: "trailing_zeros (w :: 'a::len word) \<le> LENGTH('a)"
  using length_takeWhile_le [of _ "[0..<LENGTH('a)]"] by (simp add: trailing_zeros_def)

lemma takeWhile_nth_false:
  "i < length (takeWhile P xs) \<Longrightarrow> P (xs ! i)"
  by (metis nth_mem set_takeWhileD takeWhile_nth)

lemma bit_above_leading_zeros:
  fixes w :: "'a::len word"
  assumes "LENGTH('a) - leading_zeros w \<le> i"
  shows "\<not> bit w i"
proof (cases "i < LENGTH('a)")
  case True
  let ?k = "LENGTH('a) - Suc i"
  have "?k < leading_zeros w" using assms True by simp
  then have "\<not> bit w (rev [0..<LENGTH('a)] ! ?k)"
    unfolding leading_zeros_def by (rule takeWhile_nth_false)
  then show ?thesis using True by (simp add: rev_nth)
next
  case False
  then show ?thesis by simp
qed

lemma bit_less_leading_zeros:
  "bit (w :: 'a::len word) i \<Longrightarrow> i < LENGTH('a) - leading_zeros w"
  by (meson bit_above_leading_zeros not_le)

lemma bit_below_trailing_zeros:
  fixes w :: "'a::len word"
  assumes "i < trailing_zeros w"
  shows "\<not> bit w i"
proof -
  have "\<not> bit w ([0..<LENGTH('a)] ! i)"
    using assms unfolding trailing_zeros_def by (rule takeWhile_nth_false)
  moreover have "i < LENGTH('a)" using assms trailing_zeros_le [of w] by simp
  ultimately show ?thesis by simp
qed

lemma bit_int_128: "bit (128 :: int) n \<longleftrightarrow> n = 7"
proof -
  have "(128 :: int) = 2 ^ 7" by simp
  then show ?thesis by (simp only: bit_exp_iff) auto
qed

lemma bit_int_127: "bit (127 :: int) n \<longleftrightarrow> n < 7"
proof -
  have "(127 :: int) = mask 7" by (simp add: mask_eq_exp_minus_1)
  then show ?thesis by (simp only: bit_mask_iff) auto
qed

lemmas septet_bits = bit_int_128 bit_int_127

text \<open>Rust's shifts in the release build: the amount is reduced modulo the width.\<close>

definition shl :: "'a::len word \<Rightarrow> nat \<Rightarrow> 'a word" where
  "shl w n = push_bit (n mod LENGTH('a)) w"

definition shr :: "'a::len word \<Rightarrow> nat \<Rightarrow> 'a word" where
  "shr w n = drop_bit (n mod LENGTH('a)) w"

lemma shl_small: "n < LENGTH('a) \<Longrightarrow> shl (w :: 'a::len word) n = push_bit n w"
  by (simp add: shl_def)

lemma shr_small: "n < LENGTH('a) \<Longrightarrow> shr (w :: 'a::len word) n = drop_bit n w"
  by (simp add: shr_def)

text \<open>\<open>count_ones\<close> and \<open>is_power_of_two\<close> of the standard library.\<close>

definition count_ones :: "'a::len word \<Rightarrow> nat" where
  "count_ones w = length (filter (bit w) [0..<LENGTH('a)])"

definition is_power_of_two :: "'a::len word \<Rightarrow> bool" where
  "is_power_of_two w \<longleftrightarrow> count_ones w = 1"

lemma is_power_of_two_iff:
  fixes w :: "'a::len word"
  shows "is_power_of_two w \<longleftrightarrow> (\<exists>k < LENGTH('a). w = 2 ^ k)"
proof
  assume "is_power_of_two w"
  then obtain k where k: "filter (bit w) [0..<LENGTH('a)] = [k]"
    by (auto simp: is_power_of_two_def count_ones_def length_Suc_conv)
  have only: "i < LENGTH('a) \<and> bit w i \<longleftrightarrow> i = k" for i
    using arg_cong [OF k, of set] by (auto simp: set_eq_iff)
  have "k < LENGTH('a)" using only by blast
  moreover have "w = 2 ^ k"
  proof (rule bit_word_eqI)
    fix n assume "n < LENGTH('a)"
    then show "bit w n = bit (2 ^ k :: 'a word) n"
      using only [of n] by (auto simp: bit_exp_iff)
  qed
  ultimately show "\<exists>k < LENGTH('a). w = 2 ^ k" by blast
next
  assume "\<exists>k < LENGTH('a). w = 2 ^ k"
  then obtain k where k: "k < LENGTH('a)" and w: "w = 2 ^ k" by blast
  have "filter (bit w) [0..<LENGTH('a)] = filter (\<lambda>i. i = k) [0..<LENGTH('a)]"
    by (rule filter_cong) (auto simp: w bit_exp_iff)
  also have "length \<dots> = card {i. i < LENGTH('a) \<and> i = k}"
    by (subst distinct_card [symmetric]) (auto intro!: arg_cong [where f = card])
  also have "{i. i < LENGTH('a) \<and> i = k} = {k}" using k by auto
  also have "card {k} = 1" by simp
  finally show "is_power_of_two w"
    by (simp add: is_power_of_two_def count_ones_def)
qed

section \<open>Fields of byte buffers, counters and positions\<close>

definition read_u64 :: "bytes \<Rightarrow> nat \<Rightarrow> (u64, 'e) outcome" where
  "read_u64 bs i = and_then (slice_at bs i (i + 8)) (\<lambda>w. Ok (from_le w))"

definition read_u32 :: "bytes \<Rightarrow> nat \<Rightarrow> (u32, 'e) outcome" where
  "read_u32 bs i = and_then (slice_at bs i (i + 4)) (\<lambda>w. Ok (from_le w))"

lemma read_u64_ok [simp]: "i + 8 \<le> length bs \<Longrightarrow> read_u64 bs i = Ok (from_le (slice bs i (i + 8)))"
  by (simp add: read_u64_def)

lemma read_u32_ok [simp]: "i + 4 \<le> length bs \<Longrightarrow> read_u32 bs i = Ok (from_le (slice bs i (i + 4)))"
  by (simp add: read_u32_def)

lemma index_at_ok [simp]: "i < length xs \<Longrightarrow> index_at xs i = Ok (xs ! i)"
  by (simp add: index_at_def)

lemma slice_join: 
  assumes "a \<le> b" "b \<le> c" 
  shows "slice xs a b @ slice xs b c = slice xs a c"
proof -
  have "take (c - a) (drop a xs) = take ((b - a) + (c - b)) (drop a xs)" using assms by simp
  also have "\<dots> = take (b - a) (drop a xs) @ take (c - b) (drop (b - a) (drop a xs))"
    by (rule take_add)
  finally show ?thesis using assms by (simp add: slice_def)
qed

lemma slice_single: "i < length xs \<Longrightarrow> slice xs i (Suc i) = [xs ! i]"
  by (simp add: slice_def take_Suc_conv_app_nth hd_drop_conv_nth take_Suc)

lemma bit_from_le:
  "bit (from_le bs :: 'a::len word) n \<longleftrightarrow>
     n < LENGTH('a) \<and> n < 8 * length bs \<and> bit (bs ! (n div 8)) (n mod 8)"
proof (induction bs arbitrary: n)
  case Nil
  then show ?case by simp
next
  case (Cons b bs)
  show ?case
  proof (cases "n < 8")
    case True
    then show ?thesis by (auto simp: bit_simps)
  next
    case False
    then obtain m where "n = m + 8" by (metis le_add_diff_inverse2 not_le)
    moreover have "(m + 8) div 8 = Suc (m div 8)" by simp
    ultimately show ?thesis by (auto simp: bit_simps Cons.IH simp del: div_add_self2)
  qed
qed

lemma le_bytes_from_le:
  assumes "length bs = n" "8 * n \<le> LENGTH('a)"
  shows "le_bytes n (from_le bs :: 'a::len word) = bs"
proof (rule nth_equalityI)
  show "length (le_bytes n (from_le bs :: 'a word)) = length bs" using assms by simp
next
  fix i assume "i < length (le_bytes n (from_le bs :: 'a word))"
  then have i: "i < n" by simp
  show "le_bytes n (from_le bs :: 'a word) ! i = bs ! i"
  proof (rule bit_word_eqI)
    fix j assume "j < LENGTH(8)"
    then have j: "j < 8" by simp
    then have "8 * i + j < LENGTH('a)" "8 * i + j < 8 * length bs" using i assms by simp_all
    then show "bit (le_bytes n (from_le bs :: 'a word) ! i) j = bit (bs ! i) j"
      using i j by (simp add: le_bytes_def bit_simps bit_from_le)
  qed
qed

lemma xor_cancel_right: "(a :: 'a::len word) XOR c = b XOR c \<longleftrightarrow> a = b"
proof
  assume "a XOR c = b XOR c"
  then have "(a XOR c) XOR c = (b XOR c) XOR c" by simp
  then show "a = b" by (simp add: xor.assoc)
qed simp

lemma xor_cancel_left: "(c :: 'a::len word) XOR a = c XOR b \<longleftrightarrow> a = b"
  by (metis xor.commute xor_cancel_right)

lemma nth_list_update_slice:
  "i < a \<or> b \<le> i \<Longrightarrow> slice (xs[i := x]) a b = slice xs a b"
  by (rule nth_equalityI) (auto simp: slice_def nth_list_update)

lemma slice_list_update_in:
  "a \<le> i \<Longrightarrow> i < b \<Longrightarrow> slice (xs[i := x]) a b = (slice xs a b)[i - a := x]"
  by (simp add: slice_def drop_update_swap take_update_swap)

definition saturating_add :: "'a::len word \<Rightarrow> 'a word \<Rightarrow> 'a word" where
  "saturating_add x y = (if x + y < x then - 1 else x + y)"

fun rposition :: "('a \<Rightarrow> bool) \<Rightarrow> 'a list \<Rightarrow> nat option" where
  "rposition P [] = None"
| "rposition P (x # xs) = (case rposition P xs of Some i \<Rightarrow> Some (Suc i)
     | None \<Rightarrow> if P x then Some 0 else None)"

lemma foldl_max_ge: "m \<le> foldl max m xs" for m :: "'a::linorder"
proof (induction xs arbitrary: m)
  case (Cons x xs)
  then show ?case by (simp, metis max.cobounded1 order_trans)
qed simp

lemma foldl_max_upper: "x \<in> set xs \<Longrightarrow> x \<le> foldl max m xs" for m :: "'a::linorder"
  by (induction xs arbitrary: m) (auto intro: order_trans [OF _ foldl_max_ge])

lemma unat_plus_one: "(x :: 'a::len word) + 1 \<noteq> 0 \<Longrightarrow> unat (x + 1) = Suc (unat x)"
  using unatSuc [of x] by (simp add: add.commute)

lemma unat_not_max: "unat (x :: u64) + 1 < 2 ^ 64 \<Longrightarrow> x \<noteq> - 1"
  by (auto simp: unsigned_minus_1_eq_mask mask_eq_exp_minus_1)

lemma word_less_Suc: "(x :: 'a::len word) \<noteq> - 1 \<Longrightarrow> x < x + 1"
  by (simp add: word_less_nat_alt unat_plus_one add_eq_0_iff2)

lemma rposition_None: "rposition P xs = None \<longleftrightarrow> (\<forall>x\<in>set xs. \<not> P x)"
  by (induction xs) (auto split: option.splits)

lemma rposition_append_last:
  "P c \<Longrightarrow> \<forall>x\<in>set post. \<not> P x \<Longrightarrow> rposition P (pre @ c # post) = Some (length pre)"
  by (induction pre) (auto simp: rposition_None split: option.splits)

text \<open>The index of the first element that satisfies a test.\<close>

fun position :: "('a \<Rightarrow> bool) \<Rightarrow> 'a list \<Rightarrow> nat option" where
  "position P [] = None"
| "position P (x # xs) = (if P x then Some 0 else map_option Suc (position P xs))"

lemma position_Some:
  "position P xs = Some i \<longleftrightarrow> i < length xs \<and> P (xs ! i) \<and> (\<forall>j<i. \<not> P (xs ! j))"
proof (induction xs arbitrary: i)
  case (Cons x xs)
  show ?case by (cases i) (auto simp: Cons less_Suc_eq_0_disj)
qed simp

lemma position_None: "position P xs = None \<longleftrightarrow> (\<forall>x\<in>set xs. \<not> P x)"
  by (induction xs) auto

end
