(* ===== verification/Core.thy ===== *)
theory Core
  imports CenPrelude
begin

text \<open>
  The crate \<open>cendb-core\<close> (\<open>cendb-core/src/lib.rs\<close>): the packed page
  identifier, the error model, the engine configuration and its validation, and the tags of
  value kinds. \<open>PageId\<close> packs a segment, a block and a page index into one
  \<open>u64\<close>; the lemmas give the exact conditions under which each part is read back.
\<close>

section \<open>Identifiers\<close>

datatype segment_id = SegmentId (segment_no: u64)
datatype block_id = BlockId (block_no: u32)
datatype page_id = PageId (page_raw: u64)
datatype slot_id = SlotId (slot_no: u32)
type_synonym frame_id = nat

definition pack :: "segment_id \<Rightarrow> block_id \<Rightarrow> u16 \<Rightarrow> page_id" where
  "pack seg blk sub =
     (let high = shl (segment_no seg) 32;
          low = shl (ucast (block_no blk) :: u64) 16 OR (ucast sub AND 0xFFFF)
      in PageId (high OR low))"

definition segment :: "page_id \<Rightarrow> segment_id" where
  "segment p = SegmentId (shr (page_raw p) 32 AND 0xFFFFFFFF)"

definition block :: "page_id \<Rightarrow> block_id" where
  "block p = BlockId (ucast (shr (page_raw p) 16 AND 0xFFFFFFFF))"

definition sub_index :: "page_id \<Rightarrow> u16" where
  "sub_index p = ucast (page_raw p AND 0xFFFF)"

record row_locator =
  rl_segment :: segment_id
  rl_block :: block_id
  rl_slot :: slot_id

definition row_locator_new :: "segment_id \<Rightarrow> block_id \<Rightarrow> slot_id \<Rightarrow> row_locator" where
  "row_locator_new s b l = \<lparr>rl_segment = s, rl_block = b, rl_slot = l\<rparr>"

section \<open>Geometry constants\<close>

definition DEFAULT_PAGE_SIZE :: u32 where "DEFAULT_PAGE_SIZE = 4096"
definition DEFAULT_BLOCK_SIZE :: u32 where "DEFAULT_BLOCK_SIZE = 256 * 1024"
definition DEFAULT_SEGMENT_SIZE :: u64 where "DEFAULT_SEGMENT_SIZE = 64 * 1024 * 1024"
definition MINIPAGE_ALIGN :: nat where "MINIPAGE_ALIGN = 64"
definition SEGMENT_MAGIC :: bytes where
  "SEGMENT_MAGIC = [0x43, 0x45, 0x4E, 0x44, 0x42, 0x30, 0x30, 0x31]"
definition FORMAT_VERSION :: u16 where "FORMAT_VERSION = 1"

section \<open>Errors\<close>

datatype cen_status = StOk | ErrNotFound | ErrConstraint | ErrConflict | ErrIo | ErrCorrupt
  | ErrSyntax | ErrInternal

fun status_code :: "cen_status \<Rightarrow> int" where
  "status_code StOk = 0"
| "status_code ErrNotFound = 1"
| "status_code ErrConstraint = 2"
| "status_code ErrConflict = 3"
| "status_code ErrIo = 4"
| "status_code ErrCorrupt = 5"
| "status_code ErrSyntax = 6"
| "status_code ErrInternal = 99"

definition status_is_ok :: "cen_status \<Rightarrow> bool" where
  "status_is_ok s \<longleftrightarrow> s = StOk"

record cen_error =
  status :: cen_status
  message :: string

definition cen_error_new :: "cen_status \<Rightarrow> string \<Rightarrow> cen_error" where
  "cen_error_new s msg = \<lparr>status = s, message = msg\<rparr>"

definition not_found :: "string \<Rightarrow> cen_error" where "not_found = cen_error_new ErrNotFound"
definition io_error :: "string \<Rightarrow> cen_error" where "io_error = cen_error_new ErrIo"
definition corrupt :: "string \<Rightarrow> cen_error" where "corrupt = cen_error_new ErrCorrupt"
definition constraint :: "string \<Rightarrow> cen_error" where "constraint = cen_error_new ErrConstraint"
definition internal :: "string \<Rightarrow> cen_error" where "internal = cen_error_new ErrInternal"

type_synonym 'a cen_result = "('a, cen_error) outcome"

section \<open>Configuration\<close>

datatype storage_mode = Buffered | Mmap | Hybrid

definition storage_mode_from_u8 :: "u8 \<Rightarrow> storage_mode" where
  "storage_mode_from_u8 v = (if v = 1 then Mmap else if v = 2 then Hybrid else Buffered)"

fun storage_mode_to_u8 :: "storage_mode \<Rightarrow> u8" where
  "storage_mode_to_u8 Buffered = 0"
| "storage_mode_to_u8 Mmap = 1"
| "storage_mode_to_u8 Hybrid = 2"

record cendb_config =
  cfg_page_size :: u32
  cfg_block_size :: u32
  cfg_pool_frames :: u32
  cfg_group_commit_ms :: u32
  cfg_flags :: u64
  cfg_storage_mode :: u8
  cfg_use_io_uring :: u8
  cfg_use_jit :: u8

definition default_config :: cendb_config where
  "default_config = \<lparr>cfg_page_size = DEFAULT_PAGE_SIZE, cfg_block_size = DEFAULT_BLOCK_SIZE,
     cfg_pool_frames = 1024, cfg_group_commit_ms = 10, cfg_flags = 0,
     cfg_storage_mode = storage_mode_to_u8 Buffered, cfg_use_io_uring = 0, cfg_use_jit = 0\<rparr>"

definition validate :: "cendb_config \<Rightarrow> unit cen_result" where
  "validate c =
     (if cfg_page_size c < 4096 \<or> \<not> is_power_of_two (cfg_page_size c)
      then Err (constraint (''page_size '' @ show_nat (unat (cfg_page_size c))
             @ '' must be a power of two >= 4096''))
      else if cfg_block_size c < cfg_page_size c
           \<or> cfg_block_size c mod cfg_page_size c \<noteq> 0
      then Err (constraint (''block_size '' @ show_nat (unat (cfg_block_size c))
             @ '' must be a multiple of page_size '' @ show_nat (unat (cfg_page_size c))))
      else if cfg_pool_frames c = 0 then Err (constraint ''pool_frames must be > 0'')
      else Ok ())"

section \<open>Value kinds\<close>

datatype value_kind = KNull | KBool | KI64 | KU64 | KF64 | KBytes | KTimestamp

fun value_kind_u8 :: "value_kind \<Rightarrow> u8" where
  "value_kind_u8 KNull = 0"
| "value_kind_u8 KBool = 1"
| "value_kind_u8 KI64 = 2"
| "value_kind_u8 KU64 = 3"
| "value_kind_u8 KF64 = 4"
| "value_kind_u8 KBytes = 5"
| "value_kind_u8 KTimestamp = 6"

definition value_kind_from_u8 :: "u8 \<Rightarrow> value_kind" where
  "value_kind_from_u8 b =
     (if b = 0 then KNull else if b = 1 then KBool else if b = 2 then KI64
      else if b = 3 then KU64 else if b = 4 then KF64 else if b = 5 then KBytes
      else if b = 6 then KTimestamp else KNull)"

fun fixed_width :: "value_kind \<Rightarrow> nat" where
  "fixed_width KNull = 0"
| "fixed_width KBool = 1"
| "fixed_width KI64 = 8"
| "fixed_width KU64 = 8"
| "fixed_width KF64 = 8"
| "fixed_width KTimestamp = 8"
| "fixed_width KBytes = 0"

text \<open>A float is its bit pattern.\<close>

datatype cen_value = VNull | VBool bool | VI64 i64 | VU64 u64 | VF64 u64 | VBytes bytes
  | VTimestamp i64

fun kind :: "cen_value \<Rightarrow> value_kind" where
  "kind VNull = KNull"
| "kind (VBool _) = KBool"
| "kind (VI64 _) = KI64"
| "kind (VU64 _) = KU64"
| "kind (VF64 _) = KF64"
| "kind (VBytes _) = KBytes"
| "kind (VTimestamp _) = KTimestamp"

datatype model = Relational | Columnar | Document | KeyValue | TimeSeries | Graph

section \<open>Lemmas\<close>

lemma value_kind_roundtrip [simp, codec_rt]: "value_kind_from_u8 (value_kind_u8 k) = k"
  by (cases k) (simp_all add: value_kind_from_u8_def)

lemma storage_mode_roundtrip [simp, codec_rt]: "storage_mode_from_u8 (storage_mode_to_u8 m) = m"
  by (cases m) (simp_all add: storage_mode_from_u8_def)

lemma mask_32_u64: "(0xFFFFFFFF :: u64) = mask 32"
  by (simp add: mask_eq_exp_minus_1)

lemma mask_16_u64: "(0xFFFF :: u64) = mask 16"
  by (simp add: mask_eq_exp_minus_1)

lemmas page_id_bits = pack_def segment_def block_def sub_index_def shl_def shr_def
  mask_32_u64 mask_16_u64

text \<open>
  What the accessors return for any packed identifier. Block numbers of more than 16 bits
  reach into the segment field, and \<open>block\<close> also reads the low 16 bits of the segment.
\<close>

lemma segment_pack:
  "segment (pack s b sub)
     = SegmentId (take_bit 32 (segment_no s) OR ucast (drop_bit 16 (block_no b)))"
  by (simp add: page_id_bits) (rule bit_word_eqI, auto simp: bit_simps dest: bit_imp_le_length)

lemma block_pack:
  "block (pack s b sub) = BlockId (block_no b OR push_bit 16 (ucast (segment_no s)))"
  by (simp add: page_id_bits) (rule bit_word_eqI, auto simp: bit_simps dest: bit_imp_le_length)

lemma sub_index_pack: "sub_index (pack s b sub) = sub"
  by (rule bit_word_eqI) (auto simp: page_id_bits bit_simps)

lemmas pack_reads = segment_pack block_pack sub_index_pack

lemma segment_pack_small:
  assumes "unat (segment_no s) < 2 ^ 32" and "unat (block_no b) < 2 ^ 16"
  shows "segment (pack s b sub) = s"
proof -
  have "take_bit 32 (segment_no s) OR ucast (drop_bit 16 (block_no b)) = segment_no s"
    by (rule bit_word_eqI)
      (use bit_of_small [OF assms(2)] in \<open>auto simp: bit_simps dest: bit_small_lt [OF _ assms(1)]\<close>)
  then show ?thesis by (simp add: segment_pack)
qed

lemma block_pack_small:
  assumes "unat (block_no b) < 2 ^ 16"
  shows "block_no b = take_bit 16 (block_no (block (pack s b sub)))"
  by (rule bit_word_eqI)
    (use bit_of_small [OF assms] in \<open>auto simp: block_pack bit_simps not_less\<close>)

text \<open>
  Page identifiers are unique as long as segments have 32-bit numbers and blocks 16-bit
  numbers: two packed identifiers are equal exactly when segment, block and page index are.
\<close>

lemma pack_injective:
  assumes "unat (segment_no s) < 2 ^ 32" and "unat (block_no b) < 2 ^ 16"
    and "unat (segment_no s') < 2 ^ 32" and "unat (block_no b') < 2 ^ 16"
  shows "pack s b sub = pack s' b' sub' \<longleftrightarrow> s = s' \<and> b = b' \<and> sub = sub'"
  by (metis assms block_id.expand block_pack_small segment_pack_small sub_index_pack)

lemma pack_injective_witness:
  "pack (SegmentId 1) (BlockId 2) 3 \<noteq> pack (SegmentId 2) (BlockId 1) 3"
  using pack_injective [of "SegmentId 1" "BlockId 2" "SegmentId 2" "BlockId 1" 3 3] by simp

text \<open>
  Outside that range identifiers collide: the first page of segment 1 has the identifier of
  block 65536 of segment 0, although block numbers are 32-bit values, and \<open>block\<close>
  does not read back the block number 0 of segment 1.
\<close>

lemma pack_collides:
  "pack (SegmentId 1) (BlockId 0) sub = pack (SegmentId 0) (BlockId 65536) sub
   \<and> block (pack (SegmentId 1) (BlockId 0) sub) \<noteq> BlockId 0"
  by (simp add: block_pack) (simp add: pack_def shl_def)

text \<open>
  \<open>CenDbConfig::validate\<close> accepts exactly the configurations whose page size is a power
  of two of at least 4096, whose block size is a positive multiple of the page size, and
  whose pool has a frame; every refusal is a constraint error.
\<close>

lemma validate_accepts_iff:
  "validate c = Ok () \<longleftrightarrow>
     (\<exists>k. 12 \<le> k \<and> k < 32 \<and> unat (cfg_page_size c) = 2 ^ k)
     \<and> cfg_block_size c \<noteq> 0 \<and> unat (cfg_page_size c) dvd unat (cfg_block_size c)
     \<and> cfg_pool_frames c \<noteq> 0"
proof -
  have pow: "cfg_page_size c \<ge> 4096 \<and> is_power_of_two (cfg_page_size c)
      \<longleftrightarrow> (\<exists>k. 12 \<le> k \<and> k < 32 \<and> unat (cfg_page_size c) = 2 ^ k)" (is "?l = ?r")
  proof
    assume ?l
    then obtain k where k: "k < 32" "cfg_page_size c = 2 ^ k"
      by (auto simp: is_power_of_two_iff)
    then have p: "unat (cfg_page_size c) = 2 ^ k" by simp
    with \<open>?l\<close> have "(2::nat) ^ 12 \<le> 2 ^ k" by (simp add: word_le_nat_alt)
    then have "12 \<le> k" by (rule power_le_imp_le_exp [rotated]) simp
    with k p show ?r by blast
  next
    assume ?r
    then obtain k where k: "12 \<le> k" "k < 32" "unat (cfg_page_size c) = 2 ^ k" by blast
    then have "cfg_page_size c = 2 ^ k" by (simp add: word_unat_eq_iff)
    moreover have "(2::nat) ^ 12 \<le> 2 ^ k" using k(1) by (rule power_increasing) simp
    ultimately show ?l using k by (auto simp: is_power_of_two_iff word_le_nat_alt)
  qed
  have "cfg_block_size c mod cfg_page_size c = 0
      \<longleftrightarrow> unat (cfg_page_size c) dvd unat (cfg_block_size c)"
    by (simp add: word_unat_eq_iff unat_mod_distrib dvd_eq_mod_eq_0)
  moreover have "unat (cfg_page_size c) dvd unat (cfg_block_size c) \<Longrightarrow>
      \<not> cfg_block_size c < cfg_page_size c \<longleftrightarrow> cfg_block_size c \<noteq> 0 \<or> cfg_page_size c = 0"
    by (cases "cfg_block_size c = 0")
      (auto simp: word_less_nat_alt not_less unat_gt_0 unat_0_iff dest: dvd_imp_le)
  ultimately show ?thesis
    using pow unfolding validate_def by (auto simp: not_less)
qed

end
