(* ===== verification/PackedInts.thy ===== *)
theory PackedInts
  imports Core
begin

text \<open>
  The bit packer of \<open>cendb-storage/src/encoding.rs\<close> that \<open>BitPackedCodec\<close> and
  \<open>FrameOfReferenceCodec\<close> share: values of \<open>bits\<close> bits are shifted into a 64-bit
  buffer from which whole bytes are emitted, and the decoder refills a 64-bit buffer byte by
  byte. The lemmas read both sides as one natural number in base \<open>2 ^ bits\<close> and in
  base 256; they need \<open>bits \<le> 57\<close> for the encoder and \<open>bits \<le> 56\<close> for the decoder,
  where the buffer does not overflow.
\<close>

definition required_bits :: "u64 \<Rightarrow> nat" where
  "required_bits max_val = (if max_val = 0 then 1 else 64 - leading_zeros max_val)"

text \<open>\<open>((1u64 << bits) - 1).max(1)\<close> of the encoders.\<close>

definition enc_mask :: "nat \<Rightarrow> u64" where
  "enc_mask bits = max (shl 1 bits - 1) 1"

fun flush_bytes :: "u64 \<Rightarrow> nat \<Rightarrow> bytes \<times> u64 \<times> nat" where
  "flush_bytes buf n =
     (if 8 \<le> n
      then let (out, b, k) = flush_bytes (drop_bit 8 buf) (n - 8)
           in (ucast (buf AND 0xFF) # out, b, k)
      else ([], buf, n))"

declare flush_bytes.simps [simp del]

fun pack_loop :: "nat \<Rightarrow> u64 list \<Rightarrow> u64 \<Rightarrow> nat \<Rightarrow> bytes" where
  "pack_loop bits [] buf n = (if 0 < n then [ucast (buf AND 0xFF)] else [])"
| "pack_loop bits (v # vs) buf n =
     (let (out, b, k) = flush_bytes (buf OR shl v n) (n + bits)
      in out @ pack_loop bits vs b k)"

definition dec_mask :: "nat \<Rightarrow> u64" where
  "dec_mask bits = (if 64 \<le> bits then -1 else shl 1 bits - 1)"

fun fill_buf :: "nat \<Rightarrow> u64 \<Rightarrow> nat \<Rightarrow> bytes \<Rightarrow> u64 \<times> nat \<times> bytes" where
  "fill_buf bits buf n [] = (buf, n, [])"
| "fill_buf bits buf n (b # bs) =
     (if n < bits \<and> n < 56 then fill_buf bits (buf OR shl (ucast b) n) (n + 8) bs
      else (buf, n, b # bs))"

fun unpack_loop :: "nat \<Rightarrow> nat \<Rightarrow> u64 \<Rightarrow> nat \<Rightarrow> bytes \<Rightarrow> u64 list" where
  "unpack_loop bits 0 buf n body = []"
| "unpack_loop bits (Suc count) buf n body =
     (let (b, k, rest) = fill_buf bits buf n body
      in (b AND dec_mask bits)
         # unpack_loop bits count (if 64 \<le> bits then 0 else drop_bit bits b) (k - bits) rest)"

section \<open>The stream as a number\<close>

fun digits_nat :: "nat \<Rightarrow> 'a::len word list \<Rightarrow> nat" where
  "digits_nat w [] = 0"
| "digits_nat w (v # vs) = unat v + 2 ^ w * digits_nat w vs"

lemma digits_nat_append:
  "digits_nat w (xs @ ys) = digits_nat w xs + 2 ^ (w * length xs) * digits_nat w ys"
  by (induction xs) (simp_all add: algebra_simps power_add)

lemma unat_low_byte: "unat (ucast (x AND 0xFF :: u64) :: u8) = unat x mod 256"
proof -
  have "(ucast (x AND mask 8) :: u8) = ucast x"
    by (rule bit_word_eqI) (auto simp: bit_simps)
  then have "(ucast (x AND 0xFF) :: u8) = ucast x"
    by (simp add: mask_eq_exp_minus_1)
  then show ?thesis
    by (simp add: unsigned_ucast_eq take_bit_eq_mod)
qed

lemma unat_drop_bit: "unat (drop_bit k (x :: 'a::len word)) = unat x div 2 ^ k"
  by (simp only: unat_drop_bit_eq) (simp only: drop_bit_eq_div)

lemma unat_or_shifted:
  fixes buf v :: u64
  assumes "unat buf < 2 ^ n" and "unat v < 2 ^ w" and "n + w \<le> 64" and "n < 64"
  shows "unat (buf OR shl v n) = unat buf + 2 ^ n * unat v"
    and "unat (buf OR shl v n) < 2 ^ (n + w)"
proof -
  have v_lt: "2 ^ n * unat v < 2 ^ (n + w)"
    using assms(2) by (simp add: power_add)
  also have "(2::nat) ^ (n + w) \<le> 2 ^ 64"
    using assms(3) by (rule power_increasing) simp
  finally have small: "2 ^ n * unat v < 2 ^ LENGTH(64)" by simp
  have push: "unat (push_bit n v) = 2 ^ n * unat v"
    by (simp only: unsigned_push_bit_eq push_bit_eq_mult [where 'a = nat] mult.commute [of "unat v"]
        take_bit_nat_eq_self [OF small])
  have "buf AND push_bit n v = 0"
    by (rule bit_word_eqI) (use bit_of_small [OF assms(1)] in \<open>auto simp: bit_simps\<close>)
  then have "buf OR push_bit n v = buf + push_bit n v"
    by (simp add: disjunctive_add_eq_or)
  moreover have sum_lt: "unat buf + 2 ^ n * unat v < 2 ^ (n + w)"
  proof -
    have "unat buf + 2 ^ n * unat v < 2 ^ n * (1 + unat v)" using assms(1) by simp
    also have "\<dots> \<le> 2 ^ n * 2 ^ w" using assms(2) by (intro mult_left_mono) auto
    finally show ?thesis by (simp add: power_add)
  qed
  moreover have "unat buf + unat (push_bit n v) < 2 ^ 64"
    using sum_lt push \<open>(2::nat) ^ (n + w) \<le> 2 ^ 64\<close> by linarith
  ultimately have eq: "unat (buf OR push_bit n v) = unat buf + 2 ^ n * unat v"
    using push by (simp add: unat_add_lem [THEN iffD1])
  with sum_lt assms(4) show "unat (buf OR shl v n) = unat buf + 2 ^ n * unat v"
    and "unat (buf OR shl v n) < 2 ^ (n + w)" by (simp_all add: shl_small)
qed

section \<open>The encoder\<close>

lemma flush_bytes_spec:
  assumes "flush_bytes buf n = (out, b, k)" and "unat buf < 2 ^ n"
  shows "unat buf = digits_nat 8 out + 2 ^ (8 * length out) * unat b
     \<and> unat b < 2 ^ k \<and> k < 8 \<and> n = 8 * length out + k"
  using assms
proof (induction buf n arbitrary: out b k rule: flush_bytes.induct)
  case (1 buf n)
  show ?case
  proof (cases "8 \<le> n")
    case False
    with "1.prems" show ?thesis by (simp add: flush_bytes.simps [of buf n])
  next
    case True
    obtain out' where rec: "flush_bytes (drop_bit 8 buf) (n - 8) = (out', b, k)"
      and out: "out = ucast (buf AND 0xFF) # out'"
      using "1.prems"(1) True
      by (auto simp: flush_bytes.simps [of buf n] split: prod.splits)
    have "unat (drop_bit 8 buf) < 2 ^ (n - 8)"
      using "1.prems"(2) True
      by (simp only: unat_drop_bit)
        (metis le_add_diff_inverse less_mult_imp_div_less mult.commute power_add)
    from "1.IH" [OF True rec this]
    have "unat buf div 256 = digits_nat 8 out' + 2 ^ (8 * length out') * unat b"
      and rest: "unat b < 2 ^ k" "k < 8" "n - 8 = 8 * length out' + k"
      by (simp_all add: unat_drop_bit)
    then have "unat buf = digits_nat 8 out + 2 ^ (8 * length out) * unat b"
      using mod_mult_div_eq [of "unat buf" 256]
      by (simp add: out unat_low_byte power_add algebra_simps)
    with rest True show ?thesis by (simp add: out)
  qed
qed

lemma pack_loop_spec:
  assumes "\<forall>v \<in> set vs. unat v < 2 ^ bits" and "bits \<le> 57"
    and "unat buf < 2 ^ n" and "n < 8"
  shows "digits_nat 8 (pack_loop bits vs buf n) = unat buf + 2 ^ n * digits_nat bits vs
     \<and> length (pack_loop bits vs buf n) = (n + bits * length vs + 7) div 8"
  using assms
proof (induction vs arbitrary: buf n)
  case Nil
  have "unat buf < 256"
    using Nil.prems(3,4) power_increasing [of n 8 "2::nat"] by simp
  with Nil.prems show ?case by (auto simp: unat_low_byte)
next
  case (Cons v vs)
  obtain out b k where fl: "flush_bytes (buf OR shl v n) (n + bits) = (out, b, k)"
    by (metis prod_cases3)
  have v: "unat v < 2 ^ bits" using Cons.prems(1) by simp
  have ord: "unat (buf OR shl v n) = unat buf + 2 ^ n * unat v"
    and lt: "unat (buf OR shl v n) < 2 ^ (n + bits)"
    using unat_or_shifted [OF Cons.prems(3) v] Cons.prems(2,4) by simp_all
  note fls = flush_bytes_spec [OF fl lt]
  then have b: "unat b < 2 ^ k" and k: "k < 8" and n: "n + bits = 8 * length out + k" by auto
  have IH: "digits_nat 8 (pack_loop bits vs b k) = unat b + 2 ^ k * digits_nat bits vs"
    "length (pack_loop bits vs b k) = (k + bits * length vs + 7) div 8"
    using Cons.IH [OF _ Cons.prems(2) b k] Cons.prems(1) by auto
  have step: "pack_loop bits (v # vs) buf n = out @ pack_loop bits vs b k"
    by (simp add: fl)
  have shift: "2 ^ (8 * length out) * (2 ^ k * digits_nat bits vs)
      = 2 ^ n * (2 ^ bits * digits_nat bits vs)"
    by (metis n mult.assoc power_add)
  have low: "unat buf + 2 ^ n * unat v = digits_nat 8 out + 2 ^ (8 * length out) * unat b"
    using fls ord by simp
  have "digits_nat 8 (pack_loop bits (v # vs) buf n)
      = unat buf + 2 ^ n * digits_nat bits (v # vs)"
    by (simp only: step digits_nat_append IH(1) digits_nat.simps distrib_left shift)
      (use low in linarith)
  moreover have "length (pack_loop bits (v # vs) buf n)
      = (n + bits * length (v # vs) + 7) div 8"
    using n by (simp add: step IH(2) del: pack_loop.simps(2))
  ultimately show ?case by blast
qed

section \<open>The decoder\<close>

lemma fill_buf_spec:
  assumes "fill_buf bits buf n body = (b, k, rest)" and "unat buf < 2 ^ n" and "n < 64"
    and "bits \<le> 56"
  shows "unat b + 2 ^ k * digits_nat 8 rest = unat buf + 2 ^ n * digits_nat 8 body
     \<and> unat b < 2 ^ k \<and> k < 64 \<and> k + 8 * length rest = n + 8 * length body
     \<and> (bits \<le> k \<or> rest = [])"
  using assms
proof (induction bits buf n body rule: fill_buf.induct)
  case (1 bits buf n)
  then show ?case by auto
next
  case (2 bits buf n x xs)
  show ?case
  proof (cases "n < bits \<and> n < 56")
    case False
    with 2 show ?thesis by auto
  next
    case True
    have x: "unat (ucast x :: u64) < 2 ^ 8"
      using unat_lt2p [of x] by simp
    have ord: "unat (buf OR shl (ucast x) n) = unat buf + 2 ^ n * unat x"
      and lt: "unat (buf OR shl (ucast x) n) < 2 ^ (n + 8)"
      using unat_or_shifted [OF "2.prems"(2) x] True by simp_all
    have "fill_buf bits (buf OR shl (ucast x) n) (n + 8) xs = (b, k, rest)"
      using "2.prems"(1) True by simp
    from "2.IH" [OF True this lt] True "2.prems"(4) ord
    show ?thesis by (simp add: power_add algebra_simps)
  qed
qed

lemma and_dec_mask:
  assumes "bits < 64"
  shows "buf AND dec_mask bits = take_bit bits buf"
  using assms by (simp add: dec_mask_def shl_small take_bit_eq_mask mask_eq_exp_minus_1)

lemma unat_take_bit: "unat (take_bit k (x :: 'a::len word)) = unat x mod 2 ^ k"
  by (simp only: unsigned_take_bit_eq) (simp only: take_bit_eq_mod)

lemma unpack_loop_spec:
  assumes "\<forall>v \<in> set vs. unat v < 2 ^ bits" and "bits \<le> 56"
    and "unat buf < 2 ^ n" and "n < 64"
    and "unat buf + 2 ^ n * digits_nat 8 body = digits_nat bits vs"
    and "bits * length vs \<le> n + 8 * length body"
  shows "unpack_loop bits (length vs) buf n body = vs"
  using assms
proof (induction vs arbitrary: buf n body)
  case Nil
  then show ?case by simp
next
  case (Cons v vs)
  obtain b k rest where fl: "fill_buf bits buf n body = (b, k, rest)"
    by (metis prod_cases3)
  note fls = fill_buf_spec [OF fl Cons.prems(3,4,2)]
  then have b: "unat b < 2 ^ k" and k: "k < 64" and bk: "bits \<le> k"
    using Cons.prems(6) by auto
  have v: "unat v < 2 ^ bits" using Cons.prems(1) by simp
  let ?N = "unat b + 2 ^ k * digits_nat 8 rest"
  have N: "?N = unat v + 2 ^ bits * digits_nat bits vs"
    using fls Cons.prems(5) by simp
  have pk: "(2::nat) ^ k = 2 ^ bits * 2 ^ (k - bits)"
    using bk by (metis le_add_diff_inverse power_add)
  have "unat b mod 2 ^ bits = ?N mod 2 ^ bits"
    by (simp add: pk mult.assoc)
  also have "\<dots> = unat v" using v by (simp only: N) simp
  finally have "b AND dec_mask bits = v"
    using Cons.prems(2) by (simp add: and_dec_mask word_unat_eq_iff unat_take_bit)
  moreover have "unat (drop_bit bits b) + 2 ^ (k - bits) * digits_nat 8 rest
      = digits_nat bits vs"
  proof -
    have "unat b div 2 ^ bits + 2 ^ (k - bits) * digits_nat 8 rest = ?N div 2 ^ bits"
      by (simp add: pk mult.assoc)
    also have "\<dots> = digits_nat bits vs" using v by (simp only: N) simp
    finally show ?thesis by (simp only: unat_drop_bit)
  qed
  moreover have "unat (drop_bit bits b) < 2 ^ (k - bits)"
    using b pk by (simp only: unat_drop_bit) (simp add: less_mult_imp_div_less mult.commute)
  moreover have "bits * length vs \<le> (k - bits) + 8 * length rest"
    using fls Cons.prems(6) bk by simp
  ultimately show ?case
    using Cons.IH [of "drop_bit bits b" "k - bits" rest] Cons.prems(1,2) k
    by (simp add: fl)
qed

lemma unpack_pack:
  assumes "\<forall>v \<in> set vs. unat v < 2 ^ bits" and "bits \<le> 56"
  shows "unpack_loop bits (length vs) 0 0 (pack_loop bits vs 0 0) = vs"
proof (rule unpack_loop_spec [OF assms])
  have spec: "digits_nat 8 (pack_loop bits vs 0 0) = digits_nat bits vs"
    "length (pack_loop bits vs 0 0) = (bits * length vs + 7) div 8"
    using pack_loop_spec [OF assms(1), of 0 0] assms(2) by simp_all
  then show "unat (0 :: u64) + 2 ^ 0 * digits_nat 8 (pack_loop bits vs 0 0)
      = digits_nat bits vs" by simp
  from spec(2) show "bits * length vs \<le> 0 + 8 * length (pack_loop bits vs 0 0)" by simp
qed simp_all

end
