(* ===== verification/Encoding.thy ===== *)
theory Encoding
  imports PackedInts
begin

text \<open>
  Minipage encodings of integer columns (\<open>cendb-storage/src/encoding.rs\<close>): the tag
  stored in the column directory, and the codecs Raw, BitPacked, FrameOfReference,
  DeltaOfDelta and RunLength. A codec is a pair of functions, as in the trait
  \<open>EncodingCodec\<close>; the locale \<open>minipage_codec\<close> states what a minipage needs of it
  (the body decodes to the encoded values, whatever the leading tag byte is) and each codec
  is an instance on the columns it supports.
\<close>

section \<open>The encoding tag\<close>

datatype encoding = Raw | BitPacked (bp_bits: u8) | FrameOfReference (for_base: i64) (for_bits: u8)
  | DeltaOfDelta | Gorilla | Chimp128 | Dictionary (dict_id: u32) | RunLength | Fsst

definition discriminant :: "encoding \<Rightarrow> u8" where
  "discriminant e =
     (let tag = (case e of Raw \<Rightarrow> 0 | BitPacked _ \<Rightarrow> 1 | FrameOfReference _ _ \<Rightarrow> 2
                 | DeltaOfDelta \<Rightarrow> 3 | Gorilla \<Rightarrow> 4 | Chimp128 \<Rightarrow> 5 | Dictionary _ \<Rightarrow> 6
                 | RunLength \<Rightarrow> 7 | Fsst \<Rightarrow> 8);
          param = (case e of BitPacked bits \<Rightarrow> bits AND 0x0F
                   | FrameOfReference _ bits \<Rightarrow> bits AND 0x0F
                   | Dictionary i \<Rightarrow> ucast i AND 0x0F
                   | _ \<Rightarrow> 0)
      in tag OR shl param 4)"

definition from_discriminant :: "u8 \<Rightarrow> encoding" where
  "from_discriminant b =
     (let tag = b AND 0x0F; param = shr b 4 AND 0x0F
      in if tag = 0 then Raw
         else if tag = 1 then BitPacked param
         else if tag = 2 then FrameOfReference 0 param
         else if tag = 3 then DeltaOfDelta
         else if tag = 4 then Gorilla
         else if tag = 5 then Chimp128
         else if tag = 6 then Dictionary (ucast param)
         else if tag = 7 then RunLength
         else if tag = 8 then Fsst
         else Raw)"

section \<open>Raw\<close>

definition raw_encode :: "i64 list \<Rightarrow> bytes cen_result" where
  "raw_encode vals = Ok (discriminant Raw # concat (map (le_bytes 8) vals))"

definition raw_decode :: "bytes \<Rightarrow> nat \<Rightarrow> i64 list cen_result" where
  "raw_decode bs count =
     (if bs = [] then Ok []
      else let body = drop 1 bs; need = count * 8
           in if length body < need
              then Err (corrupt (''Raw decode: need '' @ show_nat need @ '' bytes, got ''
                     @ show_nat (length body)))
              else Ok (map (\<lambda>i. from_le (slice body (i * 8) (i * 8 + 8))) [0..<count]))"

section \<open>BitPacked\<close>

fun bitpacked_max :: "i64 list \<Rightarrow> u64 \<Rightarrow> u64 cen_result" where
  "bitpacked_max [] max_val = Ok max_val"
| "bitpacked_max (v # vs) max_val =
     (if v <s 0 then Err (constraint ''BitPacked does not support negative values'')
      else bitpacked_max vs (if max_val < v then v else max_val))"

definition bitpacked_encode :: "i64 list \<Rightarrow> bytes cen_result" where
  "bitpacked_encode vals =
     and_then (bitpacked_max vals 0) (\<lambda>max_val.
       let bits = max (required_bits max_val) 1
       in Ok (discriminant (BitPacked (of_nat bits)) # of_nat bits
              # pack_loop bits (map (\<lambda>v. v AND enc_mask bits) vals) 0 0))"

definition bitpacked_decode :: "bytes \<Rightarrow> nat \<Rightarrow> i64 list cen_result" where
  "bitpacked_decode bs count =
     (if length bs < 2 then Err (corrupt ''BitPacked decode: short header'')
      else let bits = min (unat (bs ! 1)) 64
           in Ok (unpack_loop bits count 0 0 (drop 2 bs)))"

section \<open>FrameOfReference\<close>

definition min_i64 :: "i64 list \<Rightarrow> i64" where
  "min_i64 vals = foldl (\<lambda>m v. if v <s m then v else m) (hd vals) vals"

definition max_i64 :: "i64 list \<Rightarrow> i64" where
  "max_i64 vals = foldl (\<lambda>m v. if m <s v then v else m) (hd vals) vals"

definition for_range :: "i64 list \<Rightarrow> u64" where
  "for_range vals = word_of_int (sint (max_i64 vals) - sint (min_i64 vals))"

definition for_encode :: "i64 list \<Rightarrow> bytes cen_result" where
  "for_encode vals =
     (if vals = [] then Ok [discriminant (FrameOfReference 0 0)]
      else let base = min_i64 vals;
               bits = max (required_bits (for_range vals)) 1
           in Ok (discriminant (FrameOfReference base (of_nat bits))
                  # le_bytes 8 base @ of_nat bits
                  # pack_loop bits (map (\<lambda>v. (v - base) AND enc_mask bits) vals) 0 0))"

definition for_decode :: "bytes \<Rightarrow> nat \<Rightarrow> i64 list cen_result" where
  "for_decode bs count =
     (if length bs < 10 then Err (corrupt ''FoR decode: short header'')
      else let base = from_le (slice bs 1 9);
               bits = min (unat (bs ! 9)) 64
           in Ok (map (\<lambda>d. base + d) (unpack_loop bits count 0 0 (drop 10 bs))))"

section \<open>DeltaOfDelta\<close>

function varint_encode :: "u64 \<Rightarrow> bytes" where
  "varint_encode v =
     (if 0x80 \<le> v then (ucast v OR 0x80) # varint_encode (drop_bit 7 v) else [ucast v])"
  by pat_completeness auto
termination
proof (relation "measure unat")
  fix v :: u64
  assume "0x80 \<le> v"
  then have "0 < unat v" by (simp add: word_le_nat_alt)
  then show "(drop_bit 7 v, v) \<in> measure unat" by (simp add: unat_drop_bit del: drop_bit_numeral_bit1)
qed simp

declare varint_encode.simps [simp del]

fun varint_scan :: "u64 \<Rightarrow> nat \<Rightarrow> nat \<Rightarrow> bytes \<Rightarrow> (u64 \<times> nat) option" where
  "varint_scan v shift i [] = None"
| "varint_scan v shift i (b # bs) =
     (let v' = v OR shl (ucast (b AND 0x7F)) shift
      in if b AND 0x80 = 0 then Some (v', i + 1)
         else if 64 \<le> shift + 7 then None
         else varint_scan v' (shift + 7) (i + 1) bs)"

definition varint_decode :: "bytes \<Rightarrow> (u64 \<times> nat) option" where
  "varint_decode bs = varint_scan 0 0 0 bs"

definition zigzag :: "i64 \<Rightarrow> u64" where
  "zigzag dod = push_bit 1 dod XOR signed_drop_bit 63 dod"

definition unzigzag :: "u64 \<Rightarrow> i64" where
  "unzigzag zz = drop_bit 1 zz XOR - (zz AND 1)"

fun dod_tail_encode :: "i64 \<Rightarrow> i64 \<Rightarrow> i64 list \<Rightarrow> bytes" where
  "dod_tail_encode prev prev_delta [] = []"
| "dod_tail_encode prev prev_delta (v # vs) =
     (let delta = v - prev
      in varint_encode (zigzag (delta - prev_delta)) @ dod_tail_encode v delta vs)"

fun dod_encode :: "i64 list \<Rightarrow> bytes cen_result" where
  "dod_encode [] = Ok [discriminant DeltaOfDelta]"
| "dod_encode [v] = Ok (discriminant DeltaOfDelta # le_bytes 8 v)"
| "dod_encode (v0 # v1 # vs) =
     Ok (discriminant DeltaOfDelta # le_bytes 8 v0 @ le_bytes 8 (v1 - v0)
         @ dod_tail_encode v1 (v1 - v0) vs)"

fun dod_tail_decode :: "nat \<Rightarrow> i64 \<Rightarrow> i64 \<Rightarrow> bytes \<Rightarrow> i64 list cen_result" where
  "dod_tail_decode 0 prev prev_delta bs = Ok []"
| "dod_tail_decode (Suc k) prev prev_delta bs =
     and_then (ok_or (varint_decode bs) (corrupt ''DoD decode: truncated varint''))
       (\<lambda>(zz, used).
          let delta = prev_delta + unzigzag zz; v = prev + delta
          in and_then (dod_tail_decode k v delta (drop used bs)) (\<lambda>vs. Ok (v # vs)))"

definition dod_decode :: "bytes \<Rightarrow> nat \<Rightarrow> i64 list cen_result" where
  "dod_decode bs count =
     (if bs = [] then Ok []
      else if count = 0 then Ok []
      else if length bs < 9 then Err (corrupt ''DoD decode: short first value'')
      else let first = from_le (slice bs 1 9)
           in if count = 1 then Ok [first]
              else if length bs < 17 then Err (corrupt ''DoD decode: short first delta'')
              else let prev_delta = from_le (slice bs 9 17); second = first + prev_delta
                   in and_then (dod_tail_decode (count - 2) second prev_delta (drop 17 bs))
                        (\<lambda>vs. Ok (first # second # vs)))"

section \<open>RunLength\<close>

fun rle_runs :: "i64 \<Rightarrow> u32 \<Rightarrow> i64 list \<Rightarrow> bytes" where
  "rle_runs current run [] = le_bytes 4 run @ le_bytes 8 current"
| "rle_runs current run (v # vs) =
     (if v = current then rle_runs current (run + 1) vs
      else le_bytes 4 run @ le_bytes 8 current @ rle_runs v 1 vs)"

fun rle_encode :: "i64 list \<Rightarrow> bytes cen_result" where
  "rle_encode [] = Ok [discriminant RunLength]"
| "rle_encode (v # vs) = Ok (discriminant RunLength # rle_runs v 1 vs)"

text \<open>Each run gives \<open>run\<close> copies of its value, cut when enough values have been produced.\<close>

fun rle_decode_runs :: "nat \<Rightarrow> bytes \<Rightarrow> i64 list" where
  "rle_decode_runs need body =
     (if need = 0 \<or> length body < 12 then []
      else let run = unat (from_le (slice body 0 4) :: u32);
               val = from_le (slice body 4 12);
               k = min run need
           in replicate k val @ rle_decode_runs (need - k) (drop 12 body))"

declare rle_decode_runs.simps [simp del]

definition rle_decode :: "bytes \<Rightarrow> nat \<Rightarrow> i64 list cen_result" where
  "rle_decode bs count =
     (if bs = [] then Ok [] else Ok (rle_decode_runs count (drop 1 bs)))"

end
