(* ===== verification/Codecs.thy ===== *)
theory Codecs
  imports Encoding
begin

text \<open>
  Correctness of the minipage codecs: the interface \<open>minipage_codec\<close>, the lemmas each
  codec needs to be an instance of it, and the round trips of encoded columns.
\<close>

section \<open>The interface of a codec\<close>

locale minipage_codec =
  fixes enc :: "i64 list \<Rightarrow> bytes cen_result"
    and dec :: "bytes \<Rightarrow> nat \<Rightarrow> i64 list cen_result"
    and supports :: "i64 list \<Rightarrow> bool"
  assumes encodes: "supports vals \<Longrightarrow>
    \<exists>tag body. enc vals = Ok (tag # body) \<and> (\<forall>t. dec (t # body) (length vals) = Ok vals)"
begin

lemma stream_roundtrip:
  "supports vals \<Longrightarrow> and_then (enc vals) (\<lambda>bs. dec bs (length vals)) = Ok vals"
  using encodes [of vals] by auto

lemma encode_nonempty: "supports vals \<Longrightarrow> enc vals = Ok bs \<Longrightarrow> bs \<noteq> []"
  using encodes [of vals] by auto

lemma retagged_roundtrip:
  "supports vals \<Longrightarrow> enc vals = Ok bs \<Longrightarrow> dec (t # drop 1 bs) (length vals) = Ok vals"
  using encodes [of vals] by auto

end

section \<open>Generic lemmas\<close>

lemma length_concat_const: "\<forall>x \<in> set xss. length x = k \<Longrightarrow> length (concat xss) = k * length xss"
  by (induction xss) auto

lemma slice_concat:
  assumes "\<forall>x \<in> set xss. length x = k" and "i < length xss"
  shows "slice (concat xss) (i * k) (i * k + k) = xss ! i"
  using assms
proof (induction xss arbitrary: i)
  case Nil
  then show ?case by simp
next
  case (Cons x xss)
  then show ?case
    by (cases i) (auto simp: slice_def add.commute)
qed

lemma takeWhile_length_ge:
  assumes "\<forall>i < n. P (xs ! i)" and "n \<le> length xs"
  shows "n \<le> length (takeWhile P xs)"
  using assms
proof (induction xs arbitrary: n)
  case Nil
  then show ?case by simp
next
  case (Cons x xs)
  show ?case
  proof (cases n)
    case 0
    then show ?thesis by simp
  next
    case (Suc m)
    with Cons.prems have "P x" and "\<forall>i < m. P (xs ! i)" and "m \<le> length xs"
      by auto
    with Cons.IH [of m] Suc show ?thesis by simp
  qed
qed

lemma leading_zeros_ge:
  fixes w :: u64
  assumes "unat w < 2 ^ k" and "k \<le> 64"
  shows "64 - k \<le> leading_zeros w"
proof -
  have "\<not> bit w (rev [0..<64] ! i)" if "i < 64 - k" for i
    using that bit_of_small [OF assms(1)] by (simp add: rev_nth)
  then show ?thesis
    unfolding leading_zeros_def by (intro takeWhile_length_ge) auto
qed

lemma less_two_power_iff_take_bit: "unat (w :: 'a::len word) < 2 ^ k \<longleftrightarrow> take_bit k w = w"
  by (metis take_bit_nat_eq_self_iff unsigned_take_bit_eq unsigned_word_eqI)

lemma unat_less_required_bits: "unat w < 2 ^ required_bits w"
proof (cases "w = 0")
  case False
  have "take_bit (64 - leading_zeros w) w = w"
    by (rule bit_word_eqI) (use bit_less_leading_zeros [of w] in \<open>auto simp: bit_simps\<close>)
  with False show ?thesis by (simp add: required_bits_def less_two_power_iff_take_bit)
qed (simp add: required_bits_def)

lemma required_bits_le:
  assumes "unat w < 2 ^ k" and "1 \<le> k" and "k \<le> 64"
  shows "required_bits w \<le> k"
  using leading_zeros_ge [OF assms(1,3)] assms(2) by (auto simp: required_bits_def)

lemma required_bits_range: "1 \<le> required_bits w \<and> required_bits w \<le> 64"
proof -
  have "leading_zeros w < 64" if "w \<noteq> 0"
  proof (rule ccontr)
    assume "\<not> leading_zeros w < 64"
    then have "\<not> bit w i" for i using bit_above_leading_zeros [of w i] by simp
    then have "w = 0" by (intro bit_word_eqI) simp
    with that show False by simp
  qed
  then show ?thesis by (auto simp: required_bits_def)
qed

lemma enc_mask_eq: "1 \<le> bits \<Longrightarrow> bits < 64 \<Longrightarrow> enc_mask bits = mask bits"
proof -
  assume b: "1 \<le> bits" "bits < 64"
  have "bit (mask bits :: u64) 0" using b by (simp add: bit_mask_iff)
  then have "(mask bits :: u64) \<noteq> 0" by force
  then have "(1 :: u64) \<le> mask bits" by (simp add: word_le_nat_alt Suc_le_eq unat_gt_0)
  with b show ?thesis
    by (simp add: enc_mask_def shl_small mask_eq_exp_minus_1 max_def)
qed

lemma and_enc_mask:
  assumes "unat v < 2 ^ bits" and "1 \<le> bits" and "bits < 64"
  shows "v AND enc_mask bits = v"
  using assms by (simp add: enc_mask_eq less_two_power_iff_take_bit take_bit_eq_mask)

section \<open>Raw\<close>

lemma raw_roundtrip: "raw_decode (t # concat (map (le_bytes 8) vals)) (length vals) = Ok vals"
proof -
  let ?xss = "map (le_bytes 8) vals :: bytes list"
  have k: "\<forall>x \<in> set ?xss. length x = 8" by simp
  have "map (\<lambda>i. from_le (slice (concat ?xss) (i * 8) (i * 8 + 8))) [0..<length vals] = vals"
    by (rule nth_equalityI) (simp_all add: slice_concat [OF k])
  then show ?thesis
    by (simp add: raw_decode_def length_concat_const [OF k])
qed

interpretation raw: minipage_codec raw_encode raw_decode "\<lambda>_. True"
  by unfold_locales (auto simp: raw_encode_def raw_roundtrip)

section \<open>BitPacked\<close>

lemma bitpacked_max_bound:
  assumes "\<forall>v \<in> set vals. unat v < 2 ^ k" and "unat m < 2 ^ k" and "k \<le> 63"
  shows "\<exists>M. bitpacked_max vals m = Ok M \<and> unat M < 2 ^ k \<and> m \<le> M \<and> (\<forall>v \<in> set vals. v \<le> M)"
  using assms(1,2)
proof (induction vals arbitrary: m)
  case Nil
  then show ?case by simp
next
  case (Cons v vals)
  have "unat v < 2 ^ 63"
    using Cons.prems(1) power_increasing [OF assms(3), of "2::nat"] by auto
  then have "\<not> v <s 0"
    using bit_of_small [of v 63 63] bit_last_iff [of v] by (simp add: word_sless_alt)
  moreover have "unat (if m < v then v else m) < 2 ^ k" using Cons.prems by simp
  then obtain M where "bitpacked_max vals (if m < v then v else m) = Ok M" "unat M < 2 ^ k"
    "(if m < v then v else m) \<le> M" "\<forall>v \<in> set vals. v \<le> M"
    using Cons.IH [of "if m < v then v else m"] Cons.prems by auto
  ultimately show ?case by (auto split: if_splits)
qed

lemma bitpacked_roundtrip:
  assumes small: "\<forall>v \<in> set vals. unat v < 2 ^ 56"
  shows "\<exists>tag body. bitpacked_encode vals = Ok (tag # body)
     \<and> (\<forall>t. bitpacked_decode (t # body) (length vals) = Ok vals)"
proof -
  obtain M where M: "bitpacked_max vals 0 = Ok M" "unat M < 2 ^ 56" "\<forall>v \<in> set vals. v \<le> M"
    using bitpacked_max_bound [OF small, of 0] by auto
  define bits where "bits = max (required_bits M) 1"
  have b: "1 \<le> bits" "bits \<le> 56" "unat M < 2 ^ bits"
    using required_bits_range [of M] required_bits_le [OF M(2)] unat_less_required_bits [of M]
    by (simp_all add: bits_def max_def)
  have lt: "\<forall>v \<in> set vals. unat v < 2 ^ bits"
    using M(3) b(3) by (auto simp: word_le_nat_alt intro: le_less_trans)
  then have "map (\<lambda>v. v AND enc_mask bits) vals = vals"
    using b by (intro map_idI) (simp add: and_enc_mask)
  then have "bitpacked_encode vals
      = Ok (discriminant (BitPacked (of_nat bits)) # of_nat bits # pack_loop bits vals 0 0)"
    unfolding bitpacked_encode_def M(1) and_then.simps Let_def bits_def [symmetric] by simp
  moreover have "min (unat (of_nat bits :: u8)) 64 = bits"
    using b by (simp add: unat_of_nat_small)
  ultimately show ?thesis
    using unpack_pack [OF lt b(2)] by (simp add: bitpacked_decode_def)
qed

interpretation bitpacked: minipage_codec bitpacked_encode bitpacked_decode
  "\<lambda>vals. \<forall>v \<in> set vals. unat v < 2 ^ 56"
  by unfold_locales (rule bitpacked_roundtrip)

section \<open>FrameOfReference\<close>

lemma foldl_min_i64:
  "sint (foldl (\<lambda>m v. if v <s m then v else m) a vals) \<le> sint a
   \<and> (\<forall>v \<in> set vals. sint (foldl (\<lambda>m v. if v <s m then v else m) a vals) \<le> sint v)"
  by (induction vals arbitrary: a) (auto simp: word_sless_alt, force+)

lemma foldl_max_i64:
  "sint a \<le> sint (foldl (\<lambda>m v. if m <s v then v else m) a vals)
   \<and> (\<forall>v \<in> set vals. sint v \<le> sint (foldl (\<lambda>m v. if m <s v then v else m) a vals))"
  by (induction vals arbitrary: a) (auto simp: word_sless_alt, force+)

lemma min_i64_le: "v \<in> set vals \<Longrightarrow> sint (min_i64 vals) \<le> sint v"
  using foldl_min_i64 [of "hd vals" vals] by (simp add: min_i64_def)

lemma max_i64_ge: "v \<in> set vals \<Longrightarrow> sint v \<le> sint (max_i64 vals)"
  using foldl_max_i64 [of "hd vals" vals] by (simp add: max_i64_def)

lemma uint_word_of_int_small: "0 \<le> x \<Longrightarrow> x < 2 ^ 64 \<Longrightarrow> uint (word_of_int x :: u64) = x"
  by (simp add: unsigned_of_int take_bit_int_eq_self)

lemma unat_residual:
  assumes "sint base \<le> sint v" and "sint v - sint base \<le> r" and "r < 2 ^ 56"
  shows "unat (v - base :: i64) \<le> nat r"
proof -
  have "v - base = word_of_int (sint v - sint base)" by simp
  then have "uint (v - base) = sint v - sint base"
    using assms uint_word_of_int_small [of "sint v - sint base"] by simp
  with assms(2) show ?thesis by (simp add: unat_eq_nat_uint)
qed

lemma for_roundtrip:
  assumes "vals \<noteq> []" and range: "sint (max_i64 vals) - sint (min_i64 vals) < 2 ^ 56"
  shows "\<exists>tag body. for_encode vals = Ok (tag # body)
     \<and> (\<forall>t. for_decode (t # body) (length vals) = Ok vals)"
proof -
  define base where "base = min_i64 vals"
  define bits where "bits = max (required_bits (for_range vals)) 1"
  have ge0: "0 \<le> sint (max_i64 vals) - sint (min_i64 vals)"
    using min_i64_le [of "hd vals" vals] max_i64_ge [of "hd vals" vals] assms(1) by simp
  have rng: "unat (for_range vals) = nat (sint (max_i64 vals) - sint (min_i64 vals))"
    using uint_word_of_int_small [OF ge0] range by (simp add: for_range_def unat_eq_nat_uint)
  have b: "1 \<le> bits" "bits \<le> 56" "unat (for_range vals) < 2 ^ bits"
    using required_bits_range [of "for_range vals"] required_bits_le [of "for_range vals" 56]
      unat_less_required_bits [of "for_range vals"] rng range ge0
    by (simp_all add: bits_def max_def nat_less_iff)
  have lt: "unat (v - base) < 2 ^ bits" if "v \<in> set vals" for v
  proof -
    have "unat (v - base) \<le> unat (for_range vals)"
      using unat_residual [of base v "sint (max_i64 vals) - sint (min_i64 vals)"]
        min_i64_le [OF that] max_i64_ge [OF that] range by (simp add: base_def rng)
    with b(3) show ?thesis by (rule le_less_trans [rotated])
  qed
  let ?rs = "map (\<lambda>v. v - base) vals"
  have masked: "map (\<lambda>v. (v - base) AND enc_mask bits) vals = ?rs"
    using lt b by (intro map_cong refl and_enc_mask) auto
  have enc: "for_encode vals = Ok (discriminant (FrameOfReference base (of_nat bits))
      # le_bytes 8 base @ of_nat bits # pack_loop bits ?rs 0 0)"
    unfolding for_encode_def Let_def bits_def [symmetric] base_def [symmetric] masked
    using assms(1) by simp
  have bits8: "min (unat (of_nat bits :: u8)) 64 = bits"
    using b by (simp add: unat_of_nat_small)
  have len: "unpack_loop bits (length vals) 0 0 (pack_loop bits ?rs 0 0) = ?rs"
    using unpack_pack [of ?rs bits] lt b(2) by simp
  have "for_decode (t # le_bytes 8 base @ of_nat bits # pack_loop bits ?rs 0 0) (length vals)
      = Ok vals" for t
  proof -
    let ?bs = "t # le_bytes 8 base @ of_nat bits # pack_loop bits ?rs 0 0"
    have "?bs ! 9 = of_nat bits" and "slice ?bs 1 9 = le_bytes 8 base"
      and "drop 10 ?bs = pack_loop bits ?rs 0 0"
      by (simp_all add: nth_append slice_def)
    with bits8 len show ?thesis
      unfolding for_decode_def by (simp add: comp_def)
  qed
  with enc show ?thesis by blast
qed

interpretation frame_of_reference: minipage_codec for_encode for_decode
  "\<lambda>vals. vals \<noteq> [] \<and> sint (max_i64 vals) - sint (min_i64 vals) < 2 ^ 56"
  by unfold_locales (rule for_roundtrip, auto)

section \<open>DeltaOfDelta\<close>

lemma low_septet:
  "ucast ((ucast v OR 0x80 :: u8) AND 0x7F) = (take_bit 7 v :: u64)"
  "ucast ((ucast v :: u8) AND 0x7F) = (take_bit 7 v :: u64)"
  by (rule bit_word_eqI, auto simp: bit_simps septet_bits)+

lemma continuation_bit:
  "(ucast (v :: u64) OR 0x80 :: u8) AND 0x80 \<noteq> 0"
  "v < 0x80 \<Longrightarrow> (ucast v :: u8) AND 0x80 = 0"
proof -
  have "bit ((ucast v OR 0x80 :: u8) AND 0x80) 7"
    by (simp add: bit_simps septet_bits)
  then show "(ucast v OR 0x80 :: u8) AND 0x80 \<noteq> 0" by force
  assume "v < 0x80"
  then have "unat v < 2 ^ 7" by (simp add: word_less_nat_alt)
  then have "\<not> bit v 7" by (rule bit_of_small) simp
  then show "(ucast v :: u8) AND 0x80 = 0"
    by (intro bit_word_eqI) (auto simp: bit_simps septet_bits)
qed

lemma or_take_push:
  "(acc OR push_bit s (take_bit 7 v)) OR push_bit (s + 7) (drop_bit 7 v)
     = acc OR push_bit s (v :: u64)"
proof (rule bit_word_eqI)
  fix n assume "n < LENGTH(64)"
  moreover have "7 + (n - (s + 7)) = n - s" if "s + 7 \<le> n" using that by simp
  ultimately show "bit ((acc OR push_bit s (take_bit 7 v)) OR push_bit (s + 7) (drop_bit 7 v)) n
      = bit (acc OR push_bit s v) n"
    by (cases "s + 7 \<le> n") (auto simp: bit_simps)
qed

lemma varint_scan_encode:
  assumes "unat v < 2 ^ (64 - shift)" and "shift < 64"
  shows "varint_scan acc shift i (varint_encode v @ rest)
     = Some (acc OR push_bit shift v, i + length (varint_encode v))"
  using assms
proof (induction v arbitrary: acc shift i rule: varint_encode.induct)
  case (1 v)
  show ?case
  proof (cases "0x80 \<le> v")
    case True
    then have big: "(2::nat) ^ 7 \<le> unat v" by (simp add: word_le_nat_alt)
    then have "(2::nat) ^ 7 < 2 ^ (64 - shift)" using "1.prems"(1) by (rule le_less_trans)
    then have s: "shift + 7 < 64" by (simp only: power_strict_increasing_iff)
    have "unat (drop_bit 7 v) < 2 ^ (64 - (shift + 7))"
    proof -
      have "64 - shift = (64 - (shift + 7)) + 7" using s by simp
      then have "(2::nat) ^ (64 - shift) = 2 ^ (64 - (shift + 7)) * 2 ^ 7"
        by (metis power_add)
      with "1.prems"(1) show ?thesis
        by (simp only: unat_drop_bit less_mult_imp_div_less)
    qed
    from "1.IH" [OF True this s] s True show ?thesis
      by (simp add: varint_encode.simps [of v] Let_def continuation_bit low_septet shl_small
          or_take_push add.assoc)
  next
    case False
    then have "take_bit 7 v = v"
      using less_two_power_iff_take_bit [of v 7] by (simp add: word_less_nat_alt not_le)
    with False "1.prems"(2) show ?thesis
      by (simp add: varint_encode.simps [of v] continuation_bit low_septet shl_small)
  qed
qed

lemma varint_roundtrip:
  "varint_decode (varint_encode v @ rest) = Some (v, length (varint_encode v))"
  using varint_scan_encode [of v 0 0 0 rest] unat_lt2p [of v] by (simp add: varint_decode_def)

lemma bit_zigzag:
  "bit (zigzag d) n \<longleftrightarrow> n < 64 \<and> ((1 \<le> n \<and> bit d (n - 1)) \<noteq> bit d 63)"
  unfolding zigzag_def
  by (simp only: bit_xor_iff bit_push_bit_iff bit_signed_drop_bit_iff) (cases n, auto)

lemma unzigzag_zigzag [simp]: "unzigzag (zigzag d) = d"
proof -
  have odd: "zigzag d AND 1 = (if bit d 63 then 1 else 0)"
    by (rule bit_word_eqI) (auto simp: bit_simps bit_zigzag)
  have half: "drop_bit 1 (zigzag d) = (if bit d 63 then NOT d else d)"
  proof (rule bit_word_eqI)
    fix n assume "n < LENGTH(64)"
    then show "bit (drop_bit 1 (zigzag d)) n = bit (if bit d 63 then NOT d else d) n"
      by (cases "n = 63") (auto simp: bit_drop_bit_eq bit_zigzag bit_not_iff)
  qed
  show ?thesis
    unfolding unzigzag_def odd half by (rule bit_word_eqI) (auto simp: bit_simps)
qed

lemma dod_tail_roundtrip:
  "dod_tail_decode (length vs) prev prev_delta (dod_tail_encode prev prev_delta vs) = Ok vs"
  by (induction vs arbitrary: prev prev_delta)
    (simp_all add: varint_roundtrip Let_def)

lemma dod_roundtrip:
  "\<exists>tag body. dod_encode vals = Ok (tag # body)
     \<and> (\<forall>t. dod_decode (t # body) (length vals) = Ok vals)"
proof (cases vals rule: dod_encode.cases)
  case (3 v0 v1 vs)
  have "slice (t # le_bytes 8 v0 @ le_bytes 8 (v1 - v0) @ rest) 1 9 = le_bytes 8 v0"
    "slice (t # le_bytes 8 v0 @ le_bytes 8 (v1 - v0) @ rest) 9 17 = le_bytes 8 (v1 - v0)"
    for t rest by (simp_all add: slice_def)
  with 3 show ?thesis by (simp add: dod_decode_def dod_tail_roundtrip Let_def)
qed (simp_all add: dod_decode_def slice_def)

interpretation delta_of_delta: minipage_codec dod_encode dod_decode "\<lambda>_. True"
  by unfold_locales (rule dod_roundtrip)

section \<open>RunLength\<close>

lemma rle_runs_roundtrip:
  assumes "0 < unat run" and "unat run + length vs < 2 ^ 32"
  shows "rle_decode_runs (unat run + length vs) (rle_runs current run vs)
     = replicate (unat run) current @ vs"
  using assms
proof (induction current run vs rule: rle_runs.induct)
  case (1 current run)
  have "rle_decode_runs (unat run) (le_bytes 4 run @ le_bytes 8 current)
      = replicate (unat run) current"
    using "1.prems"(1)
    by (simp add: rle_decode_runs.simps [of "unat run"] slice_def rle_decode_runs.simps [of 0])
  then show ?case by simp
next
  case (2 current run v vs)
  show ?case
  proof (cases "v = current")
    case True
    have run: "unat (run + 1) = unat run + 1"
      using "2.prems"(2) unat_add_lem [of run 1] by simp
    have "rle_decode_runs (unat (run + 1) + length vs) (rle_runs current (run + 1) vs)
        = replicate (unat (run + 1)) current @ vs"
      using "2.IH"(1) [OF True] "2.prems" run by simp
    with True run show ?thesis
      by (simp add: replicate_app_Cons_same)
  next
    case False
    have IH: "rle_decode_runs (1 + length vs) (rle_runs v 1 vs) = v # vs"
      using "2.IH"(2) [OF False] "2.prems" by simp
    have "rle_decode_runs (unat run + length (v # vs))
        (le_bytes 4 run @ le_bytes 8 current @ rle_runs v 1 vs)
        = replicate (unat run) current
          @ rle_decode_runs (1 + length vs) (rle_runs v 1 vs)"
      using "2.prems"(1)
      by (simp add: rle_decode_runs.simps [of "Suc (unat run + length vs)"] slice_def)
    with IH False show ?thesis by simp
  qed
qed

lemma rle_roundtrip:
  assumes "length vals < 2 ^ 32"
  shows "\<exists>tag body. rle_encode vals = Ok (tag # body)
     \<and> (\<forall>t. rle_decode (t # body) (length vals) = Ok vals)"
proof (cases vals)
  case Nil
  then show ?thesis by (simp add: rle_decode_def rle_decode_runs.simps)
next
  case (Cons v vs)
  have "rle_decode_runs (1 + length vs) (rle_runs v 1 vs) = v # vs"
    using rle_runs_roundtrip [of 1 vs v] assms Cons by simp
  with Cons show ?thesis by (simp add: rle_decode_def)
qed

interpretation run_length: minipage_codec rle_encode rle_decode "\<lambda>vals. length vals < 2 ^ 32"
  by unfold_locales (rule rle_roundtrip)

end
