(* ===== verification/Bitstream.thy ===== *)
theory Bitstream
  imports Codecs
begin

text \<open>
  \<open>BitWriter\<close> and \<open>BitReader\<close> of \<open>cendb-storage/src/encoding.rs\<close>: a stream of bits,
  most significant bit first, collected in 64-bit words and written big-endian. The lemmas
  relate both to the list of bits they stand for: writing appends bits, reading at a position
  returns the bits from there, and a field of \<open>count\<close> bits reads back as written.
\<close>

section \<open>Writer and reader\<close>

record bit_writer =
  bw_bytes :: bytes
  bw_current :: u64
  bw_n_bits :: nat

definition bw_new :: bit_writer where
  "bw_new = \<lparr>bw_bytes = [], bw_current = 0, bw_n_bits = 0\<rparr>"

definition to_be_bytes :: "u64 \<Rightarrow> bytes" where
  "to_be_bytes w = rev (le_bytes 8 w)"

definition write_bit :: "bool \<Rightarrow> bit_writer \<Rightarrow> bit_writer" where
  "write_bit b w =
     (let cur = (if b then bw_current w OR shl 1 (63 - bw_n_bits w) else bw_current w);
          n = bw_n_bits w + 1
      in if n = 64
         then \<lparr>bw_bytes = bw_bytes w @ to_be_bytes cur, bw_current = 0, bw_n_bits = 0\<rparr>
         else \<lparr>bw_bytes = bw_bytes w, bw_current = cur, bw_n_bits = n\<rparr>)"

fun write_bits :: "u64 \<Rightarrow> nat \<Rightarrow> bit_writer \<Rightarrow> bit_writer" where
  "write_bits v 0 w = w"
| "write_bits v (Suc i) w = write_bits v i (write_bit (shr v i AND 1 \<noteq> 0) w)"

definition into_bytes :: "bit_writer \<Rightarrow> bytes" where
  "into_bytes w = (if 0 < bw_n_bits w then bw_bytes w @ to_be_bytes (bw_current w) else bw_bytes w)"

record bit_reader =
  br_bytes :: bytes
  br_pos :: nat

definition br_new :: "bytes \<Rightarrow> bit_reader" where
  "br_new bs = \<lparr>br_bytes = bs, br_pos = 0\<rparr>"

definition read_bit :: "bit_reader \<Rightarrow> (bool \<times> bit_reader) option" where
  "read_bit r =
     (let byte_idx = br_pos r div 8; bit_idx = 7 - br_pos r mod 8
      in if length (br_bytes r) \<le> byte_idx then None
         else Some (shr (br_bytes r ! byte_idx) bit_idx AND 1 \<noteq> 0, r\<lparr>br_pos := br_pos r + 1\<rparr>))"

fun read_bits_acc :: "nat \<Rightarrow> u64 \<Rightarrow> bit_reader \<Rightarrow> (u64 \<times> bit_reader) option" where
  "read_bits_acc 0 v r = Some (v, r)"
| "read_bits_acc (Suc k) v r =
     (case read_bit r of None \<Rightarrow> None
      | Some (b, r') \<Rightarrow> read_bits_acc k (shl v 1 OR (if b then 1 else 0)) r')"

definition read_bits :: "nat \<Rightarrow> bit_reader \<Rightarrow> (u64 \<times> bit_reader) option" where
  "read_bits count r = read_bits_acc count 0 r"

section \<open>Streams as lists of bits\<close>

definition byte_bits :: "u8 \<Rightarrow> bool list" where
  "byte_bits b = map (\<lambda>i. bit b (7 - i)) [0..<8]"

definition bytes_bits :: "bytes \<Rightarrow> bool list" where
  "bytes_bits bs = concat (map byte_bits bs)"

definition word_bits :: "u64 \<Rightarrow> nat \<Rightarrow> bool list" where
  "word_bits w n = map (\<lambda>i. bit w (63 - i)) [0..<n]"

text \<open>The \<open>count\<close> low bits of a value, most significant first.\<close>

definition field_bits :: "u64 \<Rightarrow> nat \<Rightarrow> bool list" where
  "field_bits v count = map (bit v) (rev [0..<count])"

definition writer_ok :: "bit_writer \<Rightarrow> bool" where
  "writer_ok w \<longleftrightarrow> bw_n_bits w < 64 \<and> (\<forall>i < 64 - bw_n_bits w. \<not> bit (bw_current w) i)"

definition writer_bits :: "bit_writer \<Rightarrow> bool list" where
  "writer_bits w = bytes_bits (bw_bytes w) @ word_bits (bw_current w) (bw_n_bits w)"

lemma length_byte_bits [simp]: "length (byte_bits b) = 8"
  by (simp add: byte_bits_def)

lemma length_bytes_bits [simp]: "length (bytes_bits bs) = 8 * length bs"
  by (induction bs) (simp_all add: bytes_bits_def)

lemma bytes_bits_append [simp]: "bytes_bits (xs @ ys) = bytes_bits xs @ bytes_bits ys"
  by (simp add: bytes_bits_def)

lemma length_word_bits [simp]: "length (word_bits w n) = n"
  by (simp add: word_bits_def)

lemma length_field_bits [simp]: "length (field_bits v n) = n"
  by (simp add: field_bits_def)

lemma nth_bytes_bits:
  assumes "p < 8 * length bs"
  shows "bytes_bits bs ! p = bit (bs ! (p div 8)) (7 - p mod 8)"
  using assms
proof (induction bs arbitrary: p)
  case Nil
  then show ?case by simp
next
  case (Cons b bs)
  show ?case
  proof (cases "p < 8")
    case True
    then show ?thesis by (simp add: bytes_bits_def nth_append) (simp add: byte_bits_def)
  next
    case False
    then obtain q where q: "p = q + 8" by (metis le_add_diff_inverse2 not_less)
    moreover have "(q + 8) div 8 = Suc (q div 8)" by simp
    ultimately show ?thesis using Cons by (simp add: bytes_bits_def nth_append)
  qed
qed

lemma bytes_bits_to_be_bytes: "bytes_bits (to_be_bytes w) = word_bits w 64"
proof (rule nth_equalityI)
  fix p assume "p < length (bytes_bits (to_be_bytes w))"
  then have p: "p < 64" by (simp add: to_be_bytes_def)
  then have q: "p div 8 < 8" by simp
  have "to_be_bytes w ! (p div 8) = ucast (drop_bit (8 * (7 - p div 8)) w)"
    using q nth_upt [of 0 "7 - p div 8" 8] by (simp add: to_be_bytes_def le_bytes_def rev_nth)
  moreover have "8 * (7 - p div 8) + (7 - p mod 8) = 63 - p"
  proof -
    have "p = 8 * (p div 8) + p mod 8" and "p mod 8 < 8" by simp_all
    with q show ?thesis by arith
  qed
  moreover have "7 - p mod 8 < 8" by simp
  ultimately show "bytes_bits (to_be_bytes w) ! p = word_bits w 64 ! p"
    using p by (simp add: nth_bytes_bits to_be_bytes_def word_bits_def bit_simps)
qed (simp add: to_be_bytes_def)

section \<open>Writing appends\<close>

lemma writer_ok_new [simp]: "writer_ok bw_new" and writer_bits_new [simp]: "writer_bits bw_new = []"
  by (simp_all add: writer_ok_def writer_bits_def bw_new_def bytes_bits_def word_bits_def)

lemma write_bit_spec:
  assumes "writer_ok w"
  shows "writer_ok (write_bit b w) \<and> writer_bits (write_bit b w) = writer_bits w @ [b]"
proof -
  let ?n = "bw_n_bits w"
  let ?cur = "if b then bw_current w OR shl 1 (63 - ?n) else bw_current w"
  have n: "?n < 64" and low: "\<And>i. i < 64 - ?n \<Longrightarrow> \<not> bit (bw_current w) i"
    using assms by (auto simp: writer_ok_def)
  have bits: "bit ?cur i \<longleftrightarrow> bit (bw_current w) i \<or> (b \<and> i = 63 - ?n)" for i
    using n by (auto simp: shl_def bit_simps)
  have "word_bits ?cur (?n + 1) = word_bits (bw_current w) ?n @ [b]"
  proof -
    have "word_bits ?cur ?n = word_bits (bw_current w) ?n"
      using n by (auto simp: word_bits_def bits)
    moreover have "bit ?cur (63 - ?n) = b" using n low by (simp add: bits)
    ultimately show ?thesis by (simp add: word_bits_def)
  qed
  then show ?thesis
    using n low
    by (auto simp: write_bit_def Let_def writer_ok_def writer_bits_def bytes_bits_to_be_bytes bits
        word_bits_def [of _ 0])
qed

lemma write_bits_spec:
  "writer_ok w \<Longrightarrow> n \<le> 64 \<Longrightarrow>
     writer_ok (write_bits v n w) \<and> writer_bits (write_bits v n w) = writer_bits w @ field_bits v n"
proof (induction n arbitrary: w)
  case 0
  then show ?case by (simp add: field_bits_def)
next
  case (Suc n)
  have bit: "shr v n AND 1 \<noteq> 0 \<longleftrightarrow> bit v n"
    using Suc.prems(2) by (simp add: shr_def and_one_eq mod2_eq_if bit_iff_odd_drop_bit)
  from Suc show ?case
    using write_bit_spec [OF Suc.prems(1), of "bit v n"]
    by (simp add: bit field_bits_def)
qed

lemma into_bytes_spec:
  assumes "writer_ok w"
  shows "\<exists>k. bytes_bits (into_bytes w) = writer_bits w @ replicate k False"
proof (cases "0 < bw_n_bits w")
  case True
  let ?n = "bw_n_bits w"
  have "word_bits (bw_current w) 64 = word_bits (bw_current w) ?n @ replicate (64 - ?n) False"
    using assms True
    by (intro nth_equalityI) (auto simp: writer_ok_def word_bits_def nth_append)
  with True show ?thesis
    by (auto simp: into_bytes_def writer_bits_def bytes_bits_to_be_bytes)
next
  case False
  then show ?thesis by (auto simp: into_bytes_def writer_bits_def word_bits_def)
qed

section \<open>Reading\<close>

lemma read_bit_spec:
  "read_bit r =
     (if br_pos r < 8 * length (br_bytes r)
      then Some (bytes_bits (br_bytes r) ! br_pos r, r\<lparr>br_pos := br_pos r + 1\<rparr>) else None)"
proof -
  have "length (br_bytes r) \<le> br_pos r div 8 \<longleftrightarrow> \<not> br_pos r < 8 * length (br_bytes r)"
    by (metis div_less_iff_less_mult mult.commute not_less zero_less_numeral)
  moreover have "shr b i AND 1 \<noteq> 0 \<longleftrightarrow> bit b i" if "i < 8" for b :: u8 and i
    using that by (simp add: shr_def and_one_eq mod2_eq_if bit_iff_odd_drop_bit)
  moreover have "7 - br_pos r mod 8 < 8" by simp
  ultimately show ?thesis
    by (simp add: read_bit_def Let_def nth_bytes_bits)
qed

definition shift_in :: "u64 \<Rightarrow> bool \<Rightarrow> u64" where
  "shift_in v b = (shl v 1 OR (if b then 1 else 0))"

lemma bit_shift_in: "bit (shift_in v b) i \<longleftrightarrow> i < 64 \<and> (if i = 0 then b else bit v (i - 1))"
  unfolding shift_in_def shl_def
  by (cases i) (auto simp only: bit_or_iff bit_push_bit_iff bit_1_iff bit_0_eq split: if_splits, auto)

text \<open>A field written at a position is read back from there.\<close>

lemma read_bits_acc_spec:
  "br_pos r + k \<le> 8 * length (br_bytes r) \<Longrightarrow>
     read_bits_acc k acc r
       = Some (foldl shift_in acc (take k (drop (br_pos r) (bytes_bits (br_bytes r)))),
               r\<lparr>br_pos := br_pos r + k\<rparr>)"
proof (induction k arbitrary: acc r)
  case 0
  then show ?case by simp
next
  case (Suc k)
  let ?bits = "bytes_bits (br_bytes r)"
  have "take (Suc k) (drop (br_pos r) ?bits)
      = ?bits ! br_pos r # take k (drop (Suc (br_pos r)) ?bits)"
    using Suc.prems by (simp add: Cons_nth_drop_Suc [symmetric])
  with Suc show ?case
    by (simp add: read_bit_spec shift_in_def)
qed

lemma read_bits_acc_short:
  "br_pos r \<le> 8 * length (br_bytes r) \<Longrightarrow> 8 * length (br_bytes r) < br_pos r + k \<Longrightarrow> read_bits_acc k acc r = None"
  by (induction k arbitrary: acc r) (auto simp: read_bit_spec)

lemma foldl_shift_in_field:
  "foldl shift_in acc (field_bits v k) = push_bit k acc OR take_bit k v"
proof (induction k arbitrary: acc)
  case 0
  then show ?case by (simp add: field_bits_def)
next
  case (Suc k)
  have "push_bit k (shift_in acc (bit v k)) OR take_bit k v
      = push_bit (Suc k) acc OR take_bit (Suc k) v"
    by (rule bit_word_eqI)
      (auto simp: bit_or_iff bit_push_bit_iff bit_take_bit_iff bit_shift_in less_Suc_eq
        simp del: push_bit_Suc take_bit_Suc)
  then show ?case using Suc.IH by (simp add: field_bits_def)
qed

lemma read_bits_field:
  assumes "drop (br_pos r) (bytes_bits (br_bytes r)) = field_bits v k @ rest"
  shows "read_bits k r = Some (take_bit k v, r\<lparr>br_pos := br_pos r + k\<rparr>)
     \<and> drop (br_pos r + k) (bytes_bits (br_bytes r)) = rest"
proof -
  have "length (field_bits v k @ rest) = 8 * length (br_bytes r) - br_pos r"
    using arg_cong [OF assms, of length] by simp
  then have "k = 0 \<or> br_pos r + k \<le> 8 * length (br_bytes r)" by auto
  moreover have "take k (drop (br_pos r) (bytes_bits (br_bytes r))) = field_bits v k"
    by (simp add: assms)
  moreover have "drop (br_pos r + k) (bytes_bits (br_bytes r)) = rest"
    using arg_cong [OF assms, of "drop k"] by (simp add: add.commute)
  ultimately show ?thesis
    using read_bits_acc_spec [of r k 0]
    by (auto simp: read_bits_def foldl_shift_in_field)
qed

lemma read_bit_cons:
  assumes "drop (br_pos r) (bytes_bits (br_bytes r)) = b # rest"
  shows "read_bit r = Some (b, r\<lparr>br_pos := br_pos r + 1\<rparr>)
     \<and> drop (br_pos r + 1) (bytes_bits (br_bytes r)) = rest"
proof -
  have "br_pos r < 8 * length (br_bytes r)"
    using arg_cong [OF assms, of length] by (cases "br_pos r < 8 * length (br_bytes r)") auto
  then have "b = bytes_bits (br_bytes r) ! br_pos r"
    using arg_cong [OF assms, of hd] by (simp add: hd_drop_conv_nth)
  moreover have "drop (br_pos r + 1) (bytes_bits (br_bytes r)) = rest"
    using arg_cong [OF assms, of tl] by (simp add: drop_Suc tl_drop)
  ultimately show ?thesis
    using \<open>br_pos r < 8 * length (br_bytes r)\<close> by (simp add: read_bit_spec)
qed

end
