(* ===== verification/DictCodec.thy ===== *)
theory DictCodec
  imports Bitstream
begin

text \<open>
  \<open>DictionaryCodec\<close> of \<open>cendb-storage/src/encoding.rs\<close>: a sorted dictionary of the
  distinct values followed by one code per value, stored as whole bytes when the code width
  is 8, 16 or 32 bits and through the bit writer otherwise.
\<close>

section \<open>Definitions\<close>

definition build_dict :: "i64 list \<Rightarrow> i64 list" where
  "build_dict vals = remdups_adj (sort_key sint vals)"

text \<open>The \<open>HashMap\<close> filled in dictionary order: a later insertion of a key wins.\<close>

definition code_map :: "i64 list \<Rightarrow> i64 \<Rightarrow> u64 option" where
  "code_map dict = map_of (rev (zip dict (map of_nat [0..<length dict])))"

definition code_of :: "i64 list \<Rightarrow> i64 \<Rightarrow> u64" where
  "code_of dict v = (case code_map dict v of None \<Rightarrow> 0 | Some c \<Rightarrow> c)"

definition write_codes :: "nat \<Rightarrow> u64 list \<Rightarrow> bytes" where
  "write_codes bits codes = into_bytes (foldl (\<lambda>w c. write_bits c bits w) bw_new codes)"

definition pack_codes :: "nat \<Rightarrow> u64 list \<Rightarrow> bytes" where
  "pack_codes bits codes =
     (if bits mod 8 = 0
      then (if bits div 8 = 1 then map ucast codes
            else if bits div 8 = 2 then concat (map (\<lambda>c. le_bytes 2 (ucast c :: u16)) codes)
            else if bits div 8 = 4 then concat (map (\<lambda>c. le_bytes 4 (ucast c :: u32)) codes)
            else if bits div 8 = 8 then concat (map (le_bytes 8) codes)
            else write_codes bits codes)
      else write_codes bits codes)"

definition dict_encode :: "i64 list \<Rightarrow> bytes cen_result" where
  "dict_encode vals =
     (if vals = [] then Ok (discriminant (Dictionary 0) # le_bytes 4 (0 :: u32) @ [0])
      else let dict = build_dict vals;
               bits = required_bits (of_nat (length dict))
           in Ok (discriminant (Dictionary 0) # le_bytes 4 (of_nat (length dict) :: u32)
                  @ concat (map (le_bytes 8) dict)
                  @ of_nat bits # pack_codes bits (map (code_of dict) vals)))"

fun lookup_codes :: "i64 list \<Rightarrow> nat list \<Rightarrow> i64 list cen_result" where
  "lookup_codes dict [] = Ok []"
| "lookup_codes dict (c # cs) =
     (if c < length dict then and_then (lookup_codes dict cs) (\<lambda>vs. Ok (dict ! c # vs))
      else Err (corrupt ''dictionary: code out of range''))"

fun read_codes :: "i64 list \<Rightarrow> nat \<Rightarrow> nat \<Rightarrow> bit_reader \<Rightarrow> i64 list cen_result" where
  "read_codes dict bits 0 r = Ok []"
| "read_codes dict bits (Suc k) r =
     (case read_bits bits r of
        None \<Rightarrow> Err (corrupt ''dictionary: truncated codes'')
      | Some (c, r') \<Rightarrow>
          (if unat c < length dict
           then and_then (read_codes dict bits k r') (\<lambda>vs. Ok (dict ! unat c # vs))
           else Err (corrupt ''dictionary: code out of range'')))"

definition decode_codes :: "nat \<Rightarrow> i64 list \<Rightarrow> bytes \<Rightarrow> nat \<Rightarrow> i64 list cen_result" where
  "decode_codes bits dict packed count =
     (if bits mod 8 = 0
      then (if bits div 8 = 0
            then (if count = 0 then Ok []
                  else and_then (index_at dict 0) (\<lambda>v. Ok (replicate count v)))
            else if bits div 8 = 1
            then (if length packed < count
                  then Err (corrupt ''dictionary: truncated 1-byte codes'')
                  else lookup_codes dict (map (\<lambda>i. unat (packed ! i)) [0..<count]))
            else if bits div 8 = 2
            then (if length packed < count * 2
                  then Err (corrupt ''dictionary: truncated 2-byte codes'')
                  else lookup_codes dict
                    (map (\<lambda>i. unat (from_le (slice packed (i * 2) (i * 2 + 2)) :: u16)) [0..<count]))
            else if bits div 8 = 4
            then (if length packed < count * 4
                  then Err (corrupt ''dictionary: truncated 4-byte codes'')
                  else lookup_codes dict
                    (map (\<lambda>i. unat (from_le (slice packed (i * 4) (i * 4 + 4)) :: u32)) [0..<count]))
            else if bits div 8 = 8
            then (if length packed < count * 8
                  then Err (corrupt ''dictionary: truncated 8-byte codes'')
                  else lookup_codes dict
                    (map (\<lambda>i. unat (from_le (slice packed (i * 8) (i * 8 + 8)) :: u64)) [0..<count]))
            else read_codes dict bits count (br_new packed))
      else read_codes dict bits count (br_new packed))"

definition dict_decode :: "bytes \<Rightarrow> nat \<Rightarrow> i64 list cen_result" where
  "dict_decode bs count =
     (if bs = [] then Ok []
      else let body = drop 1 bs in
        if length body < 5 then Err (corrupt ''dictionary: truncated header'')
        else let dict_len = unat (from_le (slice body 0 4) :: u32);
                 bits_offset = 4 + dict_len * 8 in
          if length body < bits_offset + 1
          then Err (corrupt ''dictionary: truncated (missing bits byte)'')
          else let bits = unat (body ! bits_offset);
                   dict = map (\<lambda>i. from_le (slice body (4 + i * 8) (4 + i * 8 + 8))) [0..<dict_len]
               in decode_codes bits dict (drop (bits_offset + 1) body) count)"

section \<open>The dictionary and its codes\<close>

lemma strict_sorted_remdups_adj: "sorted xs \<Longrightarrow> sorted_wrt (<) (remdups_adj (xs :: 'a::linorder list))"
  by (induction xs rule: remdups_adj.induct) (auto simp: order_less_le)

lemma inj_sint: "inj (sint :: i64 \<Rightarrow> int)"
  by (rule injI) (simp add: signed_word_eqI)

lemma distinct_build_dict: "distinct (build_dict vals)"
proof -
  have "distinct (remdups_adj (map sint (sort_key sint vals)))"
    using strict_sorted_remdups_adj [of "map sint (sort_key sint vals)"]
    by (simp add: strict_sorted_iff)
  then have "distinct (map sint (build_dict vals))"
    by (simp add: build_dict_def remdups_adj_map_injective [OF inj_sint, symmetric])
  then show ?thesis by (simp add: distinct_map)
qed

lemma set_build_dict: "set (build_dict vals) = set vals"
  by (simp add: build_dict_def)

lemma length_build_dict: "length (build_dict vals) \<le> length vals"
  using remdups_adj_length [of "sort_key sint vals"] by (simp add: build_dict_def)

lemma code_map_nth:
  assumes "distinct dict" and "i < length dict"
  shows "code_map dict (dict ! i) = Some (of_nat i)"
proof -
  let ?zs = "zip dict (map of_nat [0..<length dict]) :: (i64 \<times> u64) list"
  have d: "distinct (map fst (rev ?zs))" using assms(1) by (simp add: rev_map [symmetric])
  have "(dict ! i, of_nat i) \<in> set (rev ?zs)"
    using assms(2) by (auto simp: set_zip)
  with d show ?thesis unfolding code_map_def by (simp add: map_of_is_SomeI)
qed

lemma code_of_in_dict:
  assumes "distinct dict" and "v \<in> set dict" and "length dict < 2 ^ 32"
  shows "unat (code_of dict v) < length dict \<and> dict ! unat (code_of dict v) = v"
proof -
  obtain i where i: "i < length dict" "dict ! i = v"
    using assms(2) by (auto simp: in_set_conv_nth)
  then have "code_of dict v = of_nat i"
    using code_map_nth [OF assms(1) i(1)] by (simp add: code_of_def)
  moreover have "unat (of_nat i :: u64) = i"
    using i(1) assms(3) by (intro unat_of_nat_small) simp
  ultimately show ?thesis using i by simp
qed

lemma lookup_codes_ok:
  "\<forall>v \<in> set vals. f v < length dict \<and> dict ! f v = v \<Longrightarrow> lookup_codes dict (map f vals) = Ok vals"
  by (induction vals) auto

section \<open>Bit-packed codes\<close>

lemma foldl_write_bits_spec:
  "writer_ok w \<Longrightarrow> bits \<le> 64 \<Longrightarrow>
     writer_ok (foldl (\<lambda>w c. write_bits c bits w) w codes)
     \<and> writer_bits (foldl (\<lambda>w c. write_bits c bits w) w codes)
       = writer_bits w @ concat (map (\<lambda>c. field_bits c bits) codes)"
proof (induction codes arbitrary: w)
  case Nil
  then show ?case by simp
next
  case (Cons c codes)
  then show ?case using write_bits_spec [of w bits c] by simp
qed

lemma bits_write_codes:
  assumes "bits \<le> 64"
  shows "\<exists>k. bytes_bits (write_codes bits codes)
    = concat (map (\<lambda>c. field_bits c bits) codes) @ replicate k False"
  using foldl_write_bits_spec [OF writer_ok_new assms, of codes]
    into_bytes_spec [of "foldl (\<lambda>w c. write_bits c bits w) bw_new codes"]
  by (auto simp: write_codes_def)

lemma read_codes_ok:
  assumes "drop (br_pos r) (bytes_bits (br_bytes r))
      = concat (map (\<lambda>v. field_bits (code v) bits) vals) @ rest"
    and "\<forall>v \<in> set vals. unat (code v) < 2 ^ bits \<and> unat (code v) < length dict
      \<and> dict ! unat (code v) = v"
  shows "read_codes dict bits (length vals) r = Ok vals"
  using assms
proof (induction vals arbitrary: r)
  case Nil
  then show ?case by simp
next
  case (Cons v vals)
  have "take_bit bits (code v) = code v"
    using Cons.prems(2) by (simp add: less_two_power_iff_take_bit [symmetric])
  with read_bits_field [of r "code v" bits] Cons.prems(1)
  have rd: "read_bits bits r = Some (code v, r\<lparr>br_pos := br_pos r + bits\<rparr>)"
    and rest: "drop (br_pos r + bits) (bytes_bits (br_bytes r))
        = concat (map (\<lambda>v. field_bits (code v) bits) vals) @ rest"
    by (simp_all add: append_assoc)
  then have "read_codes dict bits (length vals) (r\<lparr>br_pos := br_pos r + bits\<rparr>) = Ok vals"
    using Cons.IH [of "r\<lparr>br_pos := br_pos r + bits\<rparr>"] Cons.prems(2) by simp
  with rd Cons.prems(2) show ?case by simp
qed

section \<open>Round trip\<close>

lemma unat_ucast_down:
  "unat (w :: 'a::len word) < 2 ^ LENGTH('b) \<Longrightarrow> unat (ucast w :: 'b::len word) = unat w"
  by (simp add: unsigned_ucast_eq take_bit_nat_eq_self)

lemma aligned_codes:
  fixes code :: "i64 \<Rightarrow> u64"
  assumes "\<forall>v \<in> set vals. unat (code v) < 2 ^ LENGTH('b)" and "LENGTH('b) = 8 * k"
  shows "map (\<lambda>i. unat (from_le (slice (concat (map (\<lambda>c. le_bytes k (ucast c :: 'b::len word))
        (map code vals))) (i * k) (i * k + k)) :: 'b word)) [0..<length vals]
      = map (\<lambda>v. unat (code v)) vals"
    and "length (concat (map (\<lambda>c. le_bytes k (ucast c :: 'b::len word)) (map code vals)))
      = k * length vals"
proof -
  let ?xss = "map (\<lambda>c. le_bytes k (ucast c :: 'b word)) (map code vals)"
  have k: "\<forall>x \<in> set ?xss. length x = k" by auto
  show "map (\<lambda>i. unat (from_le (slice (concat ?xss) (i * k) (i * k + k)) :: 'b word)) [0..<length vals]
      = map (\<lambda>v. unat (code v)) vals"
    using assms(1)
    by (intro nth_equalityI)
      (simp_all add: slice_concat [OF k] from_le_le_bytes assms(2) [symmetric]
        take_bit_word_eq_self unat_ucast_down del: map_map)
  show "length (concat ?xss) = k * length vals"
    using length_concat_const [OF k] by simp
qed

lemma decode_pack_codes:
  assumes codes: "\<forall>v \<in> set vals. unat (code v) < length dict \<and> dict ! unat (code v) = v"
    and bits: "length dict \<le> 2 ^ bits" "1 \<le> bits" "bits \<le> 64"
  shows "decode_codes bits dict (pack_codes bits (map code vals)) (length vals) = Ok vals"
proof -
  have lt: "\<forall>v \<in> set vals. unat (code v) < 2 ^ bits"
    using codes bits(1) by (auto intro: less_le_trans)
  have nths: "map (\<lambda>i. f (vals ! i)) [0..<length vals] = map f vals" for f :: "i64 \<Rightarrow> nat"
    by (rule nth_equalityI) simp_all
  have slow: "read_codes dict bits (length vals) (br_new (write_codes bits (map code vals))) = Ok vals"
  proof -
    obtain j where "bytes_bits (write_codes bits (map code vals))
        = concat (map (\<lambda>c. field_bits c bits) (map code vals)) @ replicate j False"
      using bits_write_codes [OF bits(3)] by blast
    then show ?thesis
      using codes lt by (intro read_codes_ok [where code = code and rest = "replicate j False"])
        (simp_all add: br_new_def comp_def)
  qed
  note look = lookup_codes_ok [of vals "\<lambda>v. unat (code v)" dict, OF codes]
  consider "bits = 8" | "bits = 16" | "bits = 32" | "bits = 64"
    | "bits mod 8 \<noteq> 0 \<or> bits div 8 \<notin> {0, 1, 2, 4, 8}"
    using bits(2) by fastforce
  then show ?thesis
  proof cases
    case 1
    have "map (\<lambda>i. unat (map ucast (map code vals) ! i :: u8)) [0..<length vals]
        = map (\<lambda>v. unat (code v)) vals"
      using lt 1 by (intro nth_equalityI) (simp_all add: unat_ucast_down)
    with 1 look show ?thesis by (simp add: decode_codes_def pack_codes_def)
  next
    case 2
    with lt look aligned_codes [where 'b = 16 and vals = vals and code = code and k = 2]
    show ?thesis by (simp add: decode_codes_def pack_codes_def)
  next
    case 3
    with lt look aligned_codes [where 'b = 32 and vals = vals and code = code and k = 4]
    show ?thesis by (simp add: decode_codes_def pack_codes_def)
  next
    case 4
    with lt look aligned_codes [where 'b = 64 and vals = vals and code = code and k = 8]
    show ?thesis by (simp add: decode_codes_def pack_codes_def)
  next
    case 5
    then have "pack_codes bits (map code vals) = write_codes bits (map code vals)"
      and "decode_codes bits dict packed n = read_codes dict bits n (br_new packed)" for packed n
      by (auto simp: decode_codes_def pack_codes_def)
    with slow show ?thesis by simp
  qed
qed

lemma dict_decode_layout:
  assumes "length dict < 2 ^ 32"
  shows "dict_decode (t # le_bytes 4 (of_nat (length dict) :: u32)
      @ concat (map (le_bytes 8) dict) @ b # packed) count
    = decode_codes (unat b) dict packed count"
proof -
  let ?ds = "concat (map (le_bytes 8) dict) :: bytes"
  let ?body = "le_bytes 4 (of_nat (length dict) :: u32) @ ?ds @ b # packed"
  have k: "\<forall>x \<in> set (map (le_bytes 8) dict :: bytes list). length x = 8" by simp
  have ds: "length ?ds = 8 * length dict"
    using length_concat_const [OF k] by simp
  have n: "unat (of_nat (length dict) :: u32) = length dict"
    using assms by (intro unat_of_nat_small) simp
  have s0: "slice ?body 0 4 = le_bytes 4 (of_nat (length dict) :: u32)"
    by (simp add: slice_def)
  have "slice ?body (4 + i * 8) (4 + i * 8 + 8) = le_bytes 8 (dict ! i)" if "i < length dict" for i
  proof -
    have "slice ?body (4 + i * 8) (4 + i * 8 + 8) = slice ?ds (i * 8) (i * 8 + 8)"
      using that ds by (simp add: slice_def)
    with slice_concat [OF k, of i] that show ?thesis by simp
  qed
  then have dict: "map (\<lambda>i. from_le (slice ?body (4 + i * 8) (4 + i * 8 + 8))) [0..<length dict] = dict"
    by (intro nth_equalityI) (simp_all del: append_assoc)
  have "?body ! (4 + length dict * 8) = b" and "drop (4 + length dict * 8 + 1) ?body = packed"
    and "4 + length dict * 8 + 1 \<le> length ?body"
    using ds by (simp_all add: nth_append mult.commute)
  with dict s0 n show ?thesis
    unfolding dict_decode_def Let_def by (simp del: append_assoc)
qed

lemma dict_roundtrip:
  assumes "length vals < 2 ^ 32"
  shows "\<exists>tag body. dict_encode vals = Ok (tag # body)
     \<and> (\<forall>t. dict_decode (t # body) (length vals) = Ok vals)"
proof (cases "vals = []")
  case True
  have "dict_decode (t # le_bytes 4 (0 :: u32) @ [0]) 0 = Ok []" for t
    using dict_decode_layout [of "[]" t 0 "[]" 0] by (simp add: decode_codes_def)
  with True show ?thesis by (simp add: dict_encode_def)
next
  case False
  let ?dict = "build_dict vals"
  let ?bits = "required_bits (of_nat (length ?dict))"
  have n: "length ?dict < 2 ^ 32" using length_build_dict [of vals] assms by simp
  then have un: "unat (of_nat (length ?dict) :: u64) = length ?dict"
    by (intro unat_of_nat_small) simp
  have bits: "length ?dict \<le> 2 ^ ?bits" "1 \<le> ?bits" "?bits \<le> 32"
    using unat_less_required_bits [of "of_nat (length ?dict)"] un
      required_bits_range [of "of_nat (length ?dict)"]
      required_bits_le [of "of_nat (length ?dict)" 32] n
    by simp_all
  then have b8: "unat (of_nat ?bits :: u8) = ?bits" by (intro unat_of_nat_small) simp
  have "\<forall>v \<in> set vals. unat (code_of ?dict v) < length ?dict \<and> ?dict ! unat (code_of ?dict v) = v"
    using code_of_in_dict [OF distinct_build_dict _ n] by (simp add: set_build_dict)
  from decode_pack_codes [OF this bits(1,2)] bits(3)
  have "decode_codes ?bits ?dict (pack_codes ?bits (map (code_of ?dict) vals)) (length vals) = Ok vals"
    by simp
  with False b8 show ?thesis
    by (simp add: dict_encode_def Let_def dict_decode_layout [OF n])
qed

interpretation dictionary: minipage_codec dict_encode dict_decode "\<lambda>vals. length vals < 2 ^ 32"
  by unfold_locales (rule dict_roundtrip)

end
