(* ===== verification/GorillaCodec.thy ===== *)
theory GorillaCodec
  imports DictCodec
begin

text \<open>
  Gorilla XOR compression of float bit patterns (\<open>gorilla_encode\<close> and
  \<open>gorilla_decode\<close> of \<open>cendb-storage/src/encoding.rs\<close>). The round trip holds when every
  non-zero XOR of neighbours has at most 30 leading zeros; beyond that the five-bit field is
  clamped while the number of meaningful bits is not, and the decoder rebuilds the value at
  the wrong position.
\<close>

section \<open>Encoder\<close>

fun gorilla_encode_tail :: "u64 \<Rightarrow> nat \<Rightarrow> nat \<Rightarrow> u64 list \<Rightarrow> bit_writer \<Rightarrow> bit_writer" where
  "gorilla_encode_tail prev prev_leading prev_trailing [] w = w"
| "gorilla_encode_tail prev prev_leading prev_trailing (cur # vs) w =
     (let x = prev XOR cur in
      if x = 0
      then gorilla_encode_tail cur prev_leading prev_trailing vs (write_bit False w)
      else
        let w1 = write_bit True w; leading = leading_zeros x; trailing = trailing_zeros x in
        if prev_leading \<le> leading \<and> prev_trailing \<le> trailing
        then gorilla_encode_tail cur prev_leading prev_trailing vs
               (write_bits (shr x prev_trailing) (64 - prev_leading - prev_trailing)
                 (write_bit False w1))
        else
          let w2 = write_bit True w1;
              w3 = (if 32 \<le> leading then write_bits 31 5 w2 else write_bits (of_nat leading) 5 w2);
              meaningful = 64 - leading - trailing;
              w4 = (if 0 < meaningful
                    then write_bits (shr x trailing) meaningful (write_bits (of_nat meaningful) 6 w3)
                    else write_bits 0 1 (write_bits 1 6 w3))
          in gorilla_encode_tail cur leading trailing vs w4)"

text \<open>\<open>i64::MAX as u32\<close> marks that no range has been written yet.\<close>

definition no_range :: nat where "no_range = 0xFFFFFFFF"

fun gorilla_encode :: "i64 list \<Rightarrow> bytes" where
  "gorilla_encode [] = into_bytes bw_new"
| "gorilla_encode (v # vs) =
     into_bytes (gorilla_encode_tail v no_range 0 vs (write_bits v 64 bw_new))"

section \<open>Decoder\<close>

text \<open>
  The range of the next value: reused, or read from the stream. The result is the number of
  meaningful bits, the trailing zeros, and the range to remember.
\<close>

definition gorilla_range ::
  "bool \<Rightarrow> u32 \<Rightarrow> u32 \<Rightarrow> bit_reader \<Rightarrow> (u32 \<times> u32 \<times> u32 \<times> u32 \<times> bit_reader) cen_result" where
  "gorilla_range fresh prev_leading prev_trailing r =
     (if \<not> fresh
      then Ok (64 - prev_leading - prev_trailing, prev_trailing, prev_leading, prev_trailing, r)
      else and_then (ok_or (read_bits 5 r) (corrupt ''Gorilla: short leading'')) (\<lambda>(l, r1).
        let leading = (if ucast l = (31 :: u32) then 32 else ucast l) in
        and_then (ok_or (read_bits 6 r1) (corrupt ''Gorilla: short meaningful'')) (\<lambda>(m, r2).
          let meaningful = (if ucast m = (0 :: u32) then 64 - leading - leading else ucast m);
              trailing = 64 - leading - meaningful
          in Ok (meaningful, trailing, leading, trailing, r2))))"

fun gorilla_decode_tail :: "nat \<Rightarrow> u64 \<Rightarrow> u32 \<Rightarrow> u32 \<Rightarrow> bit_reader \<Rightarrow> i64 list cen_result" where
  "gorilla_decode_tail 0 prev prev_leading prev_trailing r = Ok []"
| "gorilla_decode_tail (Suc k) prev prev_leading prev_trailing r =
     and_then (ok_or (read_bit r) (corrupt ''Gorilla: truncated'')) (\<lambda>(changed, r1).
       if \<not> changed
       then and_then (gorilla_decode_tail k prev prev_leading prev_trailing r1) (\<lambda>vs. Ok (prev # vs))
       else and_then (ok_or (read_bit r1) (corrupt ''Gorilla: truncated'')) (\<lambda>(fresh, r2).
         and_then (gorilla_range fresh prev_leading prev_trailing r2)
           (\<lambda>(meaningful, trailing, pl, pt, r3).
             if meaningful = 0 \<or> 64 < meaningful
             then and_then (gorilla_decode_tail k prev pl pt r3) (\<lambda>vs. Ok (prev # vs))
             else and_then (ok_or (read_bits (unat meaningful) r3) (corrupt ''Gorilla: short xor''))
               (\<lambda>(xm, r4).
                 let x = (if trailing < 64 then shl xm (unat trailing) else 0); cur = prev XOR x
                 in and_then (gorilla_decode_tail k cur pl pt r4) (\<lambda>vs. Ok (cur # vs))))))"

definition gorilla_decode :: "bytes \<Rightarrow> nat \<Rightarrow> i64 list cen_result" where
  "gorilla_decode bs count =
     (if count = 0 then Ok []
      else and_then (ok_or (read_bits 64 (br_new bs)) (corrupt ''Gorilla: short first value''))
        (\<lambda>(first, r).
           and_then (gorilla_decode_tail (count - 1) first (of_nat no_range) 0 r)
             (\<lambda>vs. Ok (first # vs))))"

section \<open>Ranges\<close>

lemma leading_trailing_le:
  assumes "(x :: u64) \<noteq> 0"
  shows "leading_zeros x + trailing_zeros x \<le> 63"
proof (rule ccontr)
  assume "\<not> leading_zeros x + trailing_zeros x \<le> 63"
  then have "\<not> bit x i" for i
    using bit_less_leading_zeros [of x i] bit_below_trailing_zeros [of i x] by fastforce
  then have "x = 0" by (intro bit_word_eqI) simp
  with assms show False by simp
qed

lemma range_restores:
  assumes "l \<le> leading_zeros (x :: u64)" and "t \<le> trailing_zeros x" and "t < 64"
  shows "push_bit t (take_bit (64 - l - t) (drop_bit t x)) = x"
proof (rule bit_word_eqI)
  fix n assume "n < LENGTH(64)"
  show "bit (push_bit t (take_bit (64 - l - t) (drop_bit t x))) n = bit x n"
  proof (cases "bit x n")
    case True
    then have "n < 64 - l" and "t \<le> n"
      using bit_less_leading_zeros [of x n] bit_below_trailing_zeros [of n x] assms(1,2)
      by (auto simp: not_less [symmetric])
    with True show ?thesis using assms(3) by (auto simp: bit_simps)
  next
    case False
    then show ?thesis by (auto simp: bit_simps)
  qed
qed

lemma unat_u64_word: "n < 2 ^ 32 \<Longrightarrow> unat (of_nat n :: u32) = n"
  by (intro unat_of_nat_small) simp

lemma ucast_take_small: "n < 2 ^ k \<Longrightarrow> k < 32 \<Longrightarrow>
   ucast (take_bit k (of_nat n :: u64)) = (of_nat n :: u32)"
proof -
  assume n: "n < 2 ^ k" "k < 32"
  then have "n < 2 ^ 32" using power_increasing [of k 32 "2::nat"] by simp
  then show ?thesis
    using n by (simp add: word_unat_eq_iff unsigned_ucast_eq unat_take_bit unsigned_of_nat
        take_bit_nat_eq_self)
qed

section \<open>Round trip\<close>

lemma gorilla_range_fresh:
  assumes "l \<le> 30" and "l + t \<le> 63" and m: "m = 64 - l - t"
    and bits: "drop (br_pos r) (bytes_bits (br_bytes r))
      = field_bits (of_nat l) 5 @ field_bits (of_nat m) 6 @ rest"
  shows "gorilla_range True pl pt r
      = Ok (of_nat m, of_nat t, of_nat l, of_nat t, r\<lparr>br_pos := br_pos r + 11\<rparr>)"
    and "drop (br_pos r + 11) (bytes_bits (br_bytes r)) = rest"
proof -
  note rd1 = read_bits_field [OF bits]
  have rd2: "read_bits 6 (r\<lparr>br_pos := br_pos r + 5\<rparr>)
      = Some (take_bit 6 (of_nat m), r\<lparr>br_pos := br_pos r + 11\<rparr>)
      \<and> drop (br_pos r + 11) (bytes_bits (br_bytes r)) = rest"
    using read_bits_field [of "r\<lparr>br_pos := br_pos r + 5\<rparr>" "of_nat m" 6 rest] rd1 by (simp add: add.commute)
  then show "drop (br_pos r + 11) (bytes_bits (br_bytes r)) = rest" by (simp add: add.commute)
  have leading: "ucast (take_bit 5 (of_nat l :: u64)) = (of_nat l :: u32)"
    using assms(1) by (intro ucast_take_small) simp_all
  have not31: "(of_nat l :: u32) \<noteq> 31"
    using assms(1) by (simp add: word_unat_eq_iff unat_u64_word)
  have trail: "(64 :: u32) - of_nat l - of_nat m = of_nat t"
  proof -
    have "(of_nat (l + m + t) :: u32) - of_nat l - of_nat m = of_nat t" by simp
    moreover have "(64 :: u32) = of_nat (l + m + t)" using m assms(2) by simp
    ultimately show ?thesis by (simp only:)
  qed
  show "gorilla_range True pl pt r
      = Ok (of_nat m, of_nat t, of_nat l, of_nat t, r\<lparr>br_pos := br_pos r + 11\<rparr>)"
  proof (cases "m = 64")
    case True
    with m have "l = 0" and "t = 0" by simp_all
    with True rd1 rd2 show ?thesis by (simp add: gorilla_range_def)
  next
    case False
    then have "m < 2 ^ 6" and "0 < m" using m assms(2) by simp_all
    then have "ucast (take_bit 6 (of_nat m :: u64)) = (of_nat m :: u32)"
      and "(of_nat m :: u32) \<noteq> 0"
      by (simp_all only: ucast_take_small) (simp_all add: word_unat_eq_iff unat_u64_word)
    with rd1 rd2 show ?thesis by (simp add: gorilla_range_def leading not31 trail Let_def)
  qed
qed

lemma gorilla_range_reused:
  assumes "l + t \<le> 63" and "m = 64 - l - t"
  shows "gorilla_range False (of_nat l) (of_nat t) r
     = Ok (of_nat m, of_nat t, of_nat l, of_nat t, r)"
proof -
  have "(of_nat (l + m + t) :: u32) - of_nat l - of_nat t = of_nat m" by simp
  moreover have "(64 :: u32) = of_nat (l + m + t)" using assms by simp
  ultimately show ?thesis by (simp only: gorilla_range_def) simp
qed

text \<open>With a range that covers the XOR, the value is rebuilt.\<close>

lemma gorilla_decode_value:
  assumes "l \<le> leading_zeros (prev XOR cur)" and "t \<le> trailing_zeros (prev XOR cur)"
    and "l + t \<le> 63" and m: "m = 64 - l - t"
    and hd: "read_bit r = Some (True, r1)" "read_bit r1 = Some (fresh, r2)"
    and rng: "gorilla_range fresh pl pt r2 = Ok (of_nat m, of_nat t, of_nat l, of_nat t, r3)"
    and bits: "drop (br_pos r3) (bytes_bits (br_bytes r3))
      = field_bits (shr (prev XOR cur) t) m @ rest"
  shows "gorilla_decode_tail (Suc k) prev pl pt r
    = and_then (gorilla_decode_tail k cur (of_nat l) (of_nat t) (r3\<lparr>br_pos := br_pos r3 + m\<rparr>))
        (\<lambda>vs. Ok (cur # vs))"
proof -
  let ?x = "prev XOR cur"
  have um: "unat (of_nat m :: u32) = m" and ut: "unat (of_nat t :: u32) = t"
    by (rule unat_u64_word, use assms(3) m in simp)+
  have "(of_nat m :: u32) \<noteq> 0" and "\<not> (64 :: u32) < of_nat m" and "(of_nat t :: u32) < 64"
    using assms(3) m um ut by (auto simp: word_less_nat_alt word_unat_eq_iff)
  moreover have "shl (take_bit m (shr ?x t)) t = ?x"
    using range_restores [OF assms(1,2)] assms(3) m by (simp add: shl_def shr_def)
  then have "prev XOR shl (take_bit m (shr ?x t)) t = cur" by (simp add: xor.assoc [symmetric])
  ultimately show ?thesis
    using read_bits_field [OF bits] by (simp add: hd rng um ut Let_def)
qed

text \<open>Neighbours whose XOR is zero or has at most 30 leading zeros.\<close>

fun gentle :: "u64 \<Rightarrow> u64 list \<Rightarrow> bool" where
  "gentle prev [] = True"
| "gentle prev (cur # vs) =
     ((prev XOR cur = 0 \<or> leading_zeros (prev XOR cur) \<le> 30) \<and> gentle cur vs)"

definition range_ok :: "nat \<Rightarrow> nat \<Rightarrow> bool" where
  "range_ok l t \<longleftrightarrow> l = no_range \<and> t = 0 \<or> l \<le> 30 \<and> l + t \<le> 63"

lemma write_fields:
  assumes "writer_ok w" and "n1 \<le> 64" and "n2 \<le> 64" and "n3 \<le> 64"
  shows "writer_ok (write_bits x3 n3 (write_bits x2 n2 (write_bits x1 n1 w)))
    \<and> writer_bits (write_bits x3 n3 (write_bits x2 n2 (write_bits x1 n1 w)))
      = writer_bits w @ field_bits x1 n1 @ field_bits x2 n2 @ field_bits x3 n3"
  using assms by (simp add: write_bits_spec)

lemma xor_zero_eq: "(x :: u64) XOR y = 0 \<Longrightarrow> y = x"
  by (metis xor.assoc xor.left_neutral xor.right_neutral xor_self_eq)

lemma gorilla_tail_roundtrip:
  assumes "writer_ok w" and "gentle prev vs" and "range_ok l t"
  shows "\<exists>stream. writer_ok (gorilla_encode_tail prev l t vs w)
     \<and> writer_bits (gorilla_encode_tail prev l t vs w) = writer_bits w @ stream
     \<and> (\<forall>r rest. drop (br_pos r) (bytes_bits (br_bytes r)) = stream @ rest \<longrightarrow>
          gorilla_decode_tail (length vs) prev (of_nat l) (of_nat t) r = Ok vs)"
  using assms
proof (induction vs arbitrary: prev l t w)
  case Nil
  then show ?case by simp
next
  case (Cons cur vs)
  let ?x = "prev XOR cur"
  have g: "gentle cur vs" using Cons.prems(2) by simp
  consider (same) "?x = 0"
    | (reuse) "?x \<noteq> 0" "l \<le> leading_zeros ?x" "t \<le> trailing_zeros ?x"
    | (fresh) "?x \<noteq> 0" "\<not> (l \<le> leading_zeros ?x \<and> t \<le> trailing_zeros ?x)" by blast
  then show ?case
  proof cases
    case same
    then have eq: "cur = prev" by (rule xor_zero_eq)
    let ?w = "write_bit False w"
    have w: "writer_ok ?w" "writer_bits ?w = writer_bits w @ [False]"
      using write_bit_spec [OF Cons.prems(1)] by simp_all
    obtain st where st: "writer_ok (gorilla_encode_tail cur l t vs ?w)"
      "writer_bits (gorilla_encode_tail cur l t vs ?w) = writer_bits ?w @ st"
      "\<And>r rest. drop (br_pos r) (bytes_bits (br_bytes r)) = st @ rest \<Longrightarrow>
         gorilla_decode_tail (length vs) cur (of_nat l) (of_nat t) r = Ok vs"
      using Cons.IH [OF w(1) g Cons.prems(3)] by blast
    have "gorilla_decode_tail (length (cur # vs)) prev (of_nat l) (of_nat t) r = Ok (cur # vs)"
      if "drop (br_pos r) (bytes_bits (br_bytes r)) = (False # st) @ rest" for r rest
      using read_bit_cons [of r False "st @ rest"] that st(3) [of "r\<lparr>br_pos := br_pos r + 1\<rparr>"] eq
      by simp
    with st w same show ?thesis by (intro exI [of _ "False # st"]) simp
  next
    case reuse
    have lt: "l + t \<le> 63"
      using Cons.prems(2,3) reuse leading_trailing_le [OF reuse(1)]
      by (auto simp: range_ok_def no_range_def)
    let ?m = "64 - l - t"
    let ?w = "write_bits (shr ?x t) ?m (write_bit False (write_bit True w))"
    have w: "writer_ok ?w"
      "writer_bits ?w = writer_bits w @ [True, False] @ field_bits (shr ?x t) ?m"
      using write_bit_spec [OF Cons.prems(1), of True]
        write_bit_spec [of "write_bit True w" False]
        write_bits_spec [of "write_bit False (write_bit True w)" ?m "shr ?x t"] by simp_all
    obtain st where st: "writer_ok (gorilla_encode_tail cur l t vs ?w)"
      "writer_bits (gorilla_encode_tail cur l t vs ?w) = writer_bits ?w @ st"
      "\<And>r rest. drop (br_pos r) (bytes_bits (br_bytes r)) = st @ rest \<Longrightarrow>
         gorilla_decode_tail (length vs) cur (of_nat l) (of_nat t) r = Ok vs"
      using Cons.IH [OF w(1) g Cons.prems(3)] by blast
    have "gorilla_decode_tail (length (cur # vs)) prev (of_nat l) (of_nat t) r = Ok (cur # vs)"
      if d: "drop (br_pos r) (bytes_bits (br_bytes r))
        = ([True, False] @ field_bits (shr ?x t) ?m @ st) @ rest" for r rest
    proof -
      let ?r1 = "r\<lparr>br_pos := br_pos r + 1\<rparr>" and ?r2 = "r\<lparr>br_pos := br_pos r + 2\<rparr>"
      have b1: "read_bit r = Some (True, ?r1)"
        "drop (br_pos r + 1) (bytes_bits (br_bytes r))
          = False # field_bits (shr ?x t) ?m @ st @ rest"
        using read_bit_cons [of r True] d by simp_all
      have b2: "read_bit ?r1 = Some (False, ?r2)"
        "drop (br_pos r + 2) (bytes_bits (br_bytes r)) = field_bits (shr ?x t) ?m @ st @ rest"
        using read_bit_cons [of ?r1 False] b1(2) by simp_all
      have "drop (br_pos ?r2 + ?m) (bytes_bits (br_bytes r)) = st @ rest"
        using read_bits_field [of ?r2] b2(2) by simp
      then show ?thesis
        using gorilla_decode_value [OF reuse(2,3) lt refl b1(1) b2(1) gorilla_range_reused [OF lt refl],
            of "st @ rest" "length vs"] b2(2) st(3) by simp
    qed
    with st(1,2) w(2) reuse show ?thesis
      by (intro exI [of _ "[True, False] @ field_bits (shr ?x t) ?m @ st"]) (simp add: Let_def)
  next
    case fresh
    let ?l = "leading_zeros ?x" and ?t = "trailing_zeros ?x"
    let ?m = "64 - ?l - ?t"
    have l30: "?l \<le> 30" using Cons.prems(2) fresh(1) by simp
    have lt: "?l + ?t \<le> 63" by (rule leading_trailing_le [OF fresh(1)])
    let ?start = "write_bit True (write_bit True w)"
    let ?w = "write_bits (shr ?x ?t) ?m (write_bits (of_nat ?m) 6 (write_bits (of_nat ?l) 5 ?start))"
    let ?hdr = "field_bits (of_nat ?l) 5 @ field_bits (of_nat ?m) 6"
    have w0: "writer_ok ?start" "writer_bits ?start = writer_bits w @ [True, True]"
      using write_bit_spec [OF Cons.prems(1), of True] write_bit_spec [of "write_bit True w" True]
      by simp_all
    have w: "writer_ok ?w"
      "writer_bits ?w = writer_bits w @ [True, True] @ ?hdr @ field_bits (shr ?x ?t) ?m"
      using w0(2) write_fields [OF w0(1), of 5 6 ?m "shr ?x ?t" "of_nat ?m" "of_nat ?l"]
      by simp_all
    have rng: "range_ok ?l ?t" using l30 lt by (simp add: range_ok_def)
    obtain st where st: "writer_ok (gorilla_encode_tail cur ?l ?t vs ?w)"
      "writer_bits (gorilla_encode_tail cur ?l ?t vs ?w) = writer_bits ?w @ st"
      "\<And>r rest. drop (br_pos r) (bytes_bits (br_bytes r)) = st @ rest \<Longrightarrow>
         gorilla_decode_tail (length vs) cur (of_nat ?l) (of_nat ?t) r = Ok vs"
      using Cons.IH [OF w(1) g rng] by blast
    have "gorilla_decode_tail (length (cur # vs)) prev (of_nat l) (of_nat t) r = Ok (cur # vs)"
      if d: "drop (br_pos r) (bytes_bits (br_bytes r))
        = ([True, True] @ ?hdr @ field_bits (shr ?x ?t) ?m @ st) @ rest" for r rest
    proof -
      let ?r1 = "r\<lparr>br_pos := br_pos r + 1\<rparr>" and ?r2 = "r\<lparr>br_pos := br_pos r + 2\<rparr>"
      have b1: "read_bit r = Some (True, ?r1)"
        "drop (br_pos r + 1) (bytes_bits (br_bytes r))
          = True # ?hdr @ field_bits (shr ?x ?t) ?m @ st @ rest"
        using read_bit_cons [of r True] d by simp_all
      have b2: "read_bit ?r1 = Some (True, ?r2)"
        "drop (br_pos r + 2) (bytes_bits (br_bytes r)) = ?hdr @ field_bits (shr ?x ?t) ?m @ st @ rest"
        using read_bit_cons [of ?r1 True] b1(2) by simp_all
      note rg = gorilla_range_fresh [OF l30 lt refl, of ?r2 "field_bits (shr ?x ?t) ?m @ st @ rest"]
      let ?r3 = "?r2\<lparr>br_pos := br_pos ?r2 + 11\<rparr>"
      have d3: "drop (br_pos ?r3) (bytes_bits (br_bytes ?r3))
          = field_bits (shr ?x ?t) ?m @ st @ rest"
        using rg(2) b2(2) by simp
      have rgo: "gorilla_range True (of_nat l) (of_nat t) ?r2
          = Ok (of_nat ?m, of_nat ?t, of_nat ?l, of_nat ?t, ?r3)"
        using rg(1) b2(2) by simp
      have "drop (br_pos ?r3 + ?m) (bytes_bits (br_bytes r)) = st @ rest"
        using read_bits_field [OF d3] by simp
      then show ?thesis
        using gorilla_decode_value [OF order_refl order_refl lt refl b1(1) b2(1) rgo d3,
            of "length vs"] st(3) by simp
    qed
    moreover have "gorilla_encode_tail prev l t (cur # vs) w = gorilla_encode_tail cur ?l ?t vs ?w"
      using fresh l30 lt by (auto simp: Let_def simp del: of_nat_diff)
    ultimately show ?thesis
      using st(1,2) w(2)
      by (intro exI [of _ "[True, True] @ ?hdr @ field_bits (shr ?x ?t) ?m @ st"])
        (simp del: gorilla_encode_tail.simps)
  qed
qed

end
