(* ===== verification/Minipage.thy ===== *)
theory Minipage
  imports GorillaCodec
begin

text \<open>
  The entry points of \<open>cendb-storage/src/encoding.rs\<close>: choosing a codec for a tag,
  encoding and decoding a minipage without its tag byte, and the heuristic that picks an
  encoding for an integer column. The two comparisons of \<open>f64\<close> ratios of the heuristic
  (\<open>c / n <= 0.01\<close> and \<open>p / t >= 0.80\<close>) are the comparisons of the exact fractions: the
  correctly rounded quotients of integers below \<open>2 ^ 50\<close> cannot cross these constants.
\<close>

section \<open>Definitions\<close>

record codec =
  codec_encode :: "i64 list \<Rightarrow> bytes cen_result"
  codec_decode :: "bytes \<Rightarrow> nat \<Rightarrow> i64 list cen_result"

definition raw_codec :: codec where
  "raw_codec = \<lparr>codec_encode = raw_encode, codec_decode = raw_decode\<rparr>"

fun codec_for :: "encoding \<Rightarrow> codec" where
  "codec_for Raw = raw_codec"
| "codec_for (BitPacked _) = \<lparr>codec_encode = bitpacked_encode, codec_decode = bitpacked_decode\<rparr>"
| "codec_for (FrameOfReference _ _) = \<lparr>codec_encode = for_encode, codec_decode = for_decode\<rparr>"
| "codec_for DeltaOfDelta = \<lparr>codec_encode = dod_encode, codec_decode = dod_decode\<rparr>"
| "codec_for RunLength = \<lparr>codec_encode = rle_encode, codec_decode = rle_decode\<rparr>"
| "codec_for (Dictionary _) = \<lparr>codec_encode = dict_encode, codec_decode = dict_decode\<rparr>"
| "codec_for Gorilla = raw_codec"
| "codec_for Chimp128 = raw_codec"
| "codec_for Fsst = raw_codec"

definition encode_minipage :: "encoding \<Rightarrow> i64 list \<Rightarrow> bytes cen_result" where
  "encode_minipage enc vals =
     and_then (codec_encode (codec_for enc) vals) (\<lambda>bs. Ok (if bs = [] then [] else drop 1 bs))"

definition decode_minipage :: "encoding \<Rightarrow> bytes \<Rightarrow> nat \<Rightarrow> i64 list cen_result" where
  "decode_minipage enc bs count = codec_decode (codec_for enc) (discriminant enc # bs) count"

fun step_by :: "nat \<Rightarrow> 'a list \<Rightarrow> 'a list" where
  "step_by k [] = []"
| "step_by k (x # xs) = x # step_by k (drop (k - 1) xs)"

definition estimate_cardinality :: "i64 list \<Rightarrow> nat" where
  "estimate_cardinality vals =
     (let n = length vals;
          sample_size = min n 10000;
          sample = (if n \<le> 10000 then vals else step_by (n div 10000) vals);
          sampled = length (remdups_adj (sort_key sint sample))
      in if n \<le> 10000 then sampled else min (sampled * n div sample_size) n)"

definition count_pairs :: "(i64 \<Rightarrow> i64 \<Rightarrow> bool) \<Rightarrow> i64 list \<Rightarrow> nat" where
  "count_pairs p vals = length (filter (\<lambda>(a, b). p a b) (zip vals (drop 1 vals)))"

definition all_same_delta :: "i64 list \<Rightarrow> bool" where
  "all_same_delta vals \<longleftrightarrow>
     (\<forall>i \<in> set [2..<length vals]. vals ! i - vals ! (i - 1) = vals ! 1 - vals ! 0)"

definition picks_dod :: "i64 list \<Rightarrow> bool" where
  "picks_dod vals \<longleftrightarrow>
     (let non_dec = count_pairs (\<lambda>a b. a \<le>s b) vals;
          non_inc = count_pairs (\<lambda>a b. b \<le>s a) vals;
          total = length vals - 1;
          strictly_monotonic = (non_dec = total \<or> non_inc = total);
          net_trend = last vals - vals ! 0;
          range = for_range vals;
          range_bits = (if range = 0 then 0 else 64 - leading_zeros range);
          mostly_monotonic = (4 * total \<le> 5 * max non_dec non_inc \<and> net_trend \<noteq> 0 \<and> 16 < range_bits)
      in (strictly_monotonic \<or> mostly_monotonic)
         \<and> (all_same_delta vals \<or> vals ! 1 - vals ! 0 \<noteq> 0))"

definition auto_select_encoding_i64 :: "i64 list \<Rightarrow> encoding" where
  "auto_select_encoding_i64 vals =
     (if length vals < 2 then Raw
      else
        let cardinality = estimate_cardinality vals; min_v = min_i64 vals; max_v = max_i64 vals in
        if cardinality \<le> 4096 \<and> 100 * cardinality \<le> length vals
           \<and> required_bits (of_nat cardinality) \<le> 12
        then Dictionary 0
        else if picks_dod vals then DeltaOfDelta
        else if 0 \<le>s min_v \<and> required_bits max_v \<le> 16
        then BitPacked (of_nat (required_bits max_v))
        else if (0 \<le>s min_v \<or> max_v <s 0 \<or> sint max_v - sint min_v < 2 ^ 32)
             \<and> 0 < for_range vals \<and> for_range vals < 2 ^ 32
             \<and> required_bits (for_range vals) \<le> 32
        then FrameOfReference min_v (of_nat (required_bits (for_range vals)))
        else Raw)"

section \<open>Round trips of minipages\<close>

text \<open>The columns each encoding represents without loss.\<close>

fun supported :: "encoding \<Rightarrow> i64 list \<Rightarrow> bool" where
  "supported (BitPacked _) vals = (\<forall>v \<in> set vals. unat v < 2 ^ 56)"
| "supported (FrameOfReference _ _) vals =
     (vals \<noteq> [] \<and> sint (max_i64 vals) - sint (min_i64 vals) < 2 ^ 56)"
| "supported RunLength vals = (length vals < 2 ^ 32)"
| "supported (Dictionary _) vals = (length vals < 2 ^ 32)"
| "supported _ vals = True"

lemma codec_for_encodes:
  "supported e vals \<Longrightarrow>
     \<exists>tag body. codec_encode (codec_for e) vals = Ok (tag # body)
       \<and> (\<forall>t. codec_decode (codec_for e) (t # body) (length vals) = Ok vals)"
  using raw.encodes [of vals] bitpacked.encodes [of vals] frame_of_reference.encodes [of vals]
    delta_of_delta.encodes [of vals] run_length.encodes [of vals] dictionary.encodes [of vals]
  by (cases e) (simp_all add: raw_codec_def)

interpretation column: minipage_codec "codec_encode (codec_for e)" "codec_decode (codec_for e)"
  "supported e" for e
  by unfold_locales (rule codec_for_encodes)

lemma bit_int_15: "bit (15 :: int) n \<longleftrightarrow> n < 4"
proof -
  have "(15 :: int) = mask 4" by (simp add: mask_eq_exp_minus_1)
  then show ?thesis by (simp only: bit_mask_iff) auto
qed

lemma uint_eq_sint_nonneg: "0 \<le> sint (v :: i64) \<Longrightarrow> uint v = sint v"
  using uint_word_of_int_small [of "sint v"] sint_lt [of v] by simp

lemma supports_bitpacked:
  assumes "0 \<le>s min_i64 vals" and "required_bits (max_i64 vals) \<le> 16" and v: "v \<in> set vals"
  shows "unat v < 2 ^ 56"
proof -
  have "0 \<le> sint v" and "sint v \<le> sint (max_i64 vals)"
    using assms(1) min_i64_le [OF v] max_i64_ge [OF v] by (auto simp: word_sle_eq)
  then have "uint v \<le> uint (max_i64 vals)"
    using uint_eq_sint_nonneg [of v] uint_eq_sint_nonneg [of "max_i64 vals"] by linarith
  then have "unat v \<le> unat (max_i64 vals)"
    by (simp only: word_le_def [symmetric] word_le_nat_alt)
  also have "\<dots> < 2 ^ required_bits (max_i64 vals)" by (rule unat_less_required_bits)
  also have "(2::nat) ^ required_bits (max_i64 vals) \<le> 2 ^ 56"
    using assms(2) by (intro power_increasing) simp_all
  finally show ?thesis .
qed

lemma supports_for:
  assumes "vals \<noteq> []" and "for_range vals < 2 ^ 32"
  shows "sint (max_i64 vals) - sint (min_i64 vals) < 2 ^ 56"
proof -
  have ge: "0 \<le> sint (max_i64 vals) - sint (min_i64 vals)"
    using min_i64_le [of "hd vals" vals] max_i64_ge [of "hd vals" vals] assms(1) by simp
  have "sint (max_i64 vals) - sint (min_i64 vals) < 2 ^ 64"
    using sint_lt [of "max_i64 vals"] sint_ge [of "min_i64 vals"] by simp
  with ge have "uint (for_range vals) = sint (max_i64 vals) - sint (min_i64 vals)"
    unfolding for_range_def by (rule uint_word_of_int_small)
  with assms(2) show ?thesis by (simp add: word_less_def)
qed

lemma auto_select_bitpacked:
  "auto_select_encoding_i64 vals = BitPacked b \<Longrightarrow>
     0 \<le>s min_i64 vals \<and> required_bits (max_i64 vals) \<le> 16"
  by (simp add: auto_select_encoding_i64_def Let_def split: if_splits)

lemma auto_select_for:
  "auto_select_encoding_i64 vals = FrameOfReference m b \<Longrightarrow> vals \<noteq> [] \<and> for_range vals < 2 ^ 32"
  by (cases vals) (simp_all add: auto_select_encoding_i64_def Let_def split: if_splits)

lemma auto_select_supported:
  assumes "length vals < 2 ^ 32"
  shows "supported (auto_select_encoding_i64 vals) vals"
proof (cases "auto_select_encoding_i64 vals")
  case (BitPacked b)
  with auto_select_bitpacked [OF this] supports_bitpacked [of vals] show ?thesis by simp
next
  case (FrameOfReference m b)
  with auto_select_for [OF this] supports_for [of vals] show ?thesis by simp
qed (use assms in simp_all)

section \<open>Properties\<close>

text \<open>C15:
  Minipage round trip. For every encoding tag and every column the tag's codec supports
  (all columns for Raw, DeltaOfDelta and the stubbed tags; values below \<open>2 ^ 56\<close> for
  BitPacked; a non-empty column with a range below \<open>2 ^ 56\<close> for FrameOfReference; fewer than
  \<open>2 ^ 32\<close> rows for RunLength and Dictionary), encoding succeeds and the stored bytes
  decode to the column.
\<close>

theorem minipage_roundtrip:
  assumes "supported e vals"
  shows "\<exists>bs. encode_minipage e vals = Ok bs \<and> decode_minipage e bs (length vals) = Ok vals"
  using column.encodes [OF assms] by (auto simp: encode_minipage_def decode_minipage_def)

theorem minipage_roundtrip_witness:
  "\<exists>bs. encode_minipage (FrameOfReference 0 0) [5, 1000, 7] = Ok bs
     \<and> decode_minipage (FrameOfReference 0 0) bs 3 = Ok [5, 1000, 7]"
  using minipage_roundtrip [of "FrameOfReference 0 0" "[5, 1000, 7]"]
  by (simp add: max_i64_def min_i64_def word_sless_alt numeral_3_eq_3)

text \<open>
  Whatever encoding the heuristic selects for an integer column of fewer than \<open>2 ^ 32\<close> rows,
  the column is stored without loss.
\<close>

lemma auto_select_lossless:
  assumes "length vals < 2 ^ 32"
  shows "\<exists>bs. encode_minipage (auto_select_encoding_i64 vals) vals = Ok bs
     \<and> decode_minipage (auto_select_encoding_i64 vals) bs (length vals) = Ok vals"
  using column.encodes [OF auto_select_supported [OF assms]]
  by (auto simp: encode_minipage_def decode_minipage_def)

lemma auto_select_lossless_witness:
  "\<exists>bs. encode_minipage (auto_select_encoding_i64 [3, 1, 2]) [3, 1, 2] = Ok bs
     \<and> decode_minipage (auto_select_encoding_i64 [3, 1, 2]) bs 3 = Ok [3, 1, 2]"
  using auto_select_lossless [of "[3, 1, 2]"] by (simp add: numeral_3_eq_3)

text \<open>
  The tag stored in the column directory selects the same codec as the encoding it was
  written for, although it keeps only four bits of the parameters.
\<close>

lemma stored_tag_selects_codec:
  "codec_for (from_discriminant (discriminant e)) = codec_for e"
proof -
  have high: "shl p 4 AND 0x0F = 0" for p :: u8
    by (rule bit_word_eqI) (auto simp: shl_def bit_simps bit_int_15)
  have low: "(t OR shl p 4) AND 0x0F = t" if "t AND 0x0F = t" for t p :: u8
    using that high [of p] by (simp add: bit.conj_disj_distrib2)
  show ?thesis
    by (cases e) (simp_all add: discriminant_def from_discriminant_def Let_def low high)
qed

text \<open>
  The limits of the packed codecs. BitPacked accepts \<open>2 ^ 56\<close> and decodes it to 0;
  FrameOfReference, in the release build, accepts a column of range \<open>2 ^ 63\<close> and decodes its
  upper end to the base; and the empty column it encodes is refused by its decoder.
\<close>

lemma packed_codecs_lose_wide_values:
  "and_then (encode_minipage (BitPacked 0) [2 ^ 56])
     (\<lambda>bs. decode_minipage (BitPacked 0) bs 1) = Ok [0]
   \<and> and_then (encode_minipage (FrameOfReference 0 0) [- (2 ^ 63), 0])
     (\<lambda>bs. decode_minipage (FrameOfReference 0 0) bs 2) = Ok [- (2 ^ 63), - (2 ^ 63)]
   \<and> and_then (encode_minipage (FrameOfReference 0 0) [])
     (\<lambda>bs. decode_minipage (FrameOfReference 0 0) bs 0)
     = Err (corrupt ''FoR decode: short header'')"
  by (intro conjI) code_simp+

text \<open>
  Gorilla round trip. Float bit patterns of which every two neighbours are equal or differ in
  one of their 34 high bits (at most 30 leading zeros of the XOR) decode to themselves.
\<close>

lemma gorilla_roundtrip:
  assumes "gentle v vs"
  shows "gorilla_decode (gorilla_encode (v # vs)) (length (v # vs)) = Ok (v # vs)"
proof -
  let ?w = "write_bits v 64 bw_new"
  let ?fin = "gorilla_encode_tail v no_range 0 vs ?w"
  let ?r = "br_new (into_bytes ?fin)"
  have w: "writer_ok ?w" "writer_bits ?w = field_bits v 64"
    using write_bits_spec [OF writer_ok_new, of 64 v] by simp_all
  have "range_ok no_range 0" by (simp add: range_ok_def)
  from gorilla_tail_roundtrip [OF w(1) assms this] obtain st where st: "writer_ok ?fin"
    "writer_bits ?fin = field_bits v 64 @ st"
    "\<And>r rest. drop (br_pos r) (bytes_bits (br_bytes r)) = st @ rest \<Longrightarrow>
       gorilla_decode_tail (length vs) v (of_nat no_range) (of_nat 0) r = Ok vs"
    unfolding w(2) by blast
  obtain k where "bytes_bits (into_bytes ?fin) = field_bits v 64 @ st @ replicate k False"
    using into_bytes_spec [OF st(1)] st(2) by auto
  then have "drop (br_pos ?r) (bytes_bits (br_bytes ?r)) = field_bits v 64 @ st @ replicate k False"
    by (simp add: br_new_def)
  note rd = read_bits_field [OF this]
  have "gorilla_decode_tail (length vs) v (of_nat no_range) 0 (?r\<lparr>br_pos := br_pos ?r + 64\<rparr>) = Ok vs"
    using st(3) [of "?r\<lparr>br_pos := br_pos ?r + 64\<rparr>" "replicate k False"] rd by simp
  with rd show ?thesis
    by (simp add: gorilla_decode_def take_bit_word_eq_self)
qed

lemma gorilla_roundtrip_witness:
  "gorilla_decode (gorilla_encode [0x4024000000000000, 0x4034000000000000, 0x4034000000000000]) 3
     = Ok [0x4024000000000000, 0x4034000000000000, 0x4034000000000000]"
proof -
  have "gentle 0x4024000000000000 [0x4034000000000000, 0x4034000000000000]" by code_simp
  from gorilla_roundtrip [OF this] show ?thesis by (simp add: numeral_3_eq_3)
qed

lemma gorilla_range_clamped:
  assumes "0 < m" and "m \<le> 31"
    and bits: "drop (br_pos r) (bytes_bits (br_bytes r)) = field_bits 31 5 @ field_bits (of_nat m) 6 @ rest"
  shows "gorilla_range True pl pt r
      = Ok (of_nat m, of_nat (32 - m), 32, of_nat (32 - m), r\<lparr>br_pos := br_pos r + 11\<rparr>)
    \<and> drop (br_pos r + 11) (bytes_bits (br_bytes r)) = rest"
proof -
  note rd1 = read_bits_field [OF bits]
  have rd2: "read_bits 6 (r\<lparr>br_pos := br_pos r + 5\<rparr>)
      = Some (take_bit 6 (of_nat m), r\<lparr>br_pos := br_pos r + 11\<rparr>)
      \<and> drop (br_pos r + 11) (bytes_bits (br_bytes r)) = rest"
    using read_bits_field [of "r\<lparr>br_pos := br_pos r + 5\<rparr>" "of_nat m" 6 rest] rd1
    by (simp add: add.commute)
  have mean: "ucast (take_bit 6 (of_nat m :: u64)) = (of_nat m :: u32)"
    using assms(2) by (intro ucast_take_small) simp_all
  have "(of_nat m :: u32) \<noteq> 0" using assms by (simp add: word_unat_eq_iff unat_u64_word)
  moreover have "ucast (take_bit 5 (31 :: u64)) = (31 :: u32)" by code_simp
  moreover have "(64 :: u32) - 32 - of_nat m = of_nat (32 - m)" using assms(2) by simp
  ultimately show ?thesis
    using rd1 rd2 by (simp add: gorilla_range_def mean Let_def)
qed

lemma clamped_value:
  assumes "32 \<le> leading_zeros (x :: u64)" and "x \<noteq> 0"
  shows "shl (take_bit (64 - leading_zeros x - trailing_zeros x) (shr x (trailing_zeros x)))
      (leading_zeros x + trailing_zeros x - 32) = push_bit (leading_zeros x - 32) x"
proof -
  let ?l = "leading_zeros x" and ?t = "trailing_zeros x"
  let ?y = "take_bit (64 - ?l - ?t) (drop_bit ?t x)"
  have lt: "?l + ?t \<le> 63" by (rule leading_trailing_le [OF assms(2)])
  have "push_bit (?l + ?t - 32) ?y = push_bit (?l - 32) (push_bit ?t ?y)"
    using assms(1) by (simp add: push_bit_push_bit add.commute)
  also have "push_bit ?t ?y = x" using lt by (intro range_restores) simp_all
  finally show ?thesis using lt by (simp add: shl_def shr_def)
qed

lemma push_bit_moves:
  assumes "0 < k" and "k \<le> leading_zeros (x :: u64)" and "x \<noteq> 0"
  shows "push_bit k x \<noteq> x"
proof
  assume eq: "push_bit k x = x"
  have "\<not> bit x n" for n
  proof (induction n rule: less_induct)
    case (less n)
    have "bit (push_bit k x) n \<longleftrightarrow> n < 64 \<and> k \<le> n \<and> bit x (n - k)"
      by (auto simp: bit_push_bit_iff)
    with less [of "n - k"] assms(1) eq show ?case by auto
  qed
  then have "x = 0" by (intro bit_word_eqI) simp
  with assms(3) show False by simp
qed

text \<open>
  Gorilla loses small changes. If the XOR of two neighbours has more than 32 leading zeros, the
  encoder clamps the count in the stream but not the number of meaningful bits, and the
  decoder returns the difference shifted left, which is never the value that was written.
\<close>

lemma gorilla_loses_small_changes:
  assumes "32 < leading_zeros (prev XOR cur)" and "prev \<noteq> cur"
  shows "\<exists>wrong. gorilla_decode (gorilla_encode [prev, cur]) 2 = Ok [prev, wrong]
     \<and> wrong = prev XOR push_bit (leading_zeros (prev XOR cur) - 32) (prev XOR cur)
     \<and> wrong \<noteq> cur"
proof -
  let ?x = "prev XOR cur"
  let ?l = "leading_zeros ?x" and ?t = "trailing_zeros ?x"
  let ?m = "64 - ?l - ?t"
  have x: "?x \<noteq> 0" using assms(2) by (metis xor_zero_eq)
  have lt: "?l + ?t \<le> 63" by (rule leading_trailing_le [OF x])
  have m: "0 < ?m" "?m \<le> 31" "32 - ?m = ?l + ?t - 32" using lt assms(1) by simp_all
  let ?w = "write_bits prev 64 bw_new"
  let ?start = "write_bit True (write_bit True ?w)"
  let ?fin = "write_bits (shr ?x ?t) ?m (write_bits (of_nat ?m) 6 (write_bits 31 5 ?start))"
  have w: "writer_ok ?w" "writer_bits ?w = field_bits prev 64"
    using write_bits_spec [OF writer_ok_new, of 64 prev] by simp_all
  have start: "writer_ok ?start" "writer_bits ?start = field_bits prev 64 @ [True, True]"
    using write_bit_spec [OF w(1), of True] write_bit_spec [of "write_bit True ?w" True] w(2)
    by simp_all
  have "\<not> no_range \<le> ?l" using lt by (simp add: no_range_def)
  then have enc: "gorilla_encode [prev, cur] = into_bytes ?fin"
    using x assms(1) m(1) by (simp add: Let_def del: of_nat_diff)
  obtain k where "bytes_bits (into_bytes ?fin) = field_bits prev 64 @ [True, True]
      @ field_bits 31 5 @ field_bits (of_nat ?m) 6 @ field_bits (shr ?x ?t) ?m @ replicate k False"
    using into_bytes_spec [of ?fin] start
      write_fields [OF start(1), of 5 6 ?m "shr ?x ?t" "of_nat ?m" 31] by auto
  then have d0: "drop (br_pos (br_new (into_bytes ?fin))) (bytes_bits (br_bytes (br_new (into_bytes ?fin))))
      = field_bits prev 64 @ True # True # field_bits 31 5 @ field_bits (of_nat ?m) 6
        @ field_bits (shr ?x ?t) ?m @ replicate k False"
    by (simp add: br_new_def)
  define r where "r = br_new (into_bytes ?fin)"
  let ?ra = "r\<lparr>br_pos := br_pos r + 64\<rparr>" and ?rb = "r\<lparr>br_pos := br_pos r + 65\<rparr>"
  let ?rc = "r\<lparr>br_pos := br_pos r + 66\<rparr>"
  note rd = read_bits_field [OF d0 [folded r_def]]
  have b1: "read_bit ?ra = Some (True, ?rb)"
    "drop (br_pos r + 65) (bytes_bits (br_bytes r)) = True # field_bits 31 5
      @ field_bits (of_nat ?m) 6 @ field_bits (shr ?x ?t) ?m @ replicate k False"
    using read_bit_cons [of ?ra True] rd by (simp_all add: add.commute)
  have b2: "read_bit ?rb = Some (True, ?rc)"
    "drop (br_pos r + 66) (bytes_bits (br_bytes r)) = field_bits 31 5
      @ field_bits (of_nat ?m) 6 @ field_bits (shr ?x ?t) ?m @ replicate k False"
    using read_bit_cons [of ?rb True] b1(2) by (simp_all add: add.commute)
  have rng: "gorilla_range True (of_nat no_range) 0 ?rc
      = Ok (of_nat ?m, of_nat (32 - ?m), 32, of_nat (32 - ?m), ?rc\<lparr>br_pos := br_pos ?rc + 11\<rparr>)"
    and d3: "drop (br_pos ?rc + 11) (bytes_bits (br_bytes ?rc))
      = field_bits (shr ?x ?t) ?m @ replicate k False"
    using gorilla_range_clamped [OF m(1,2), of ?rc] b2(2) by simp_all
  have val: "read_bits ?m (?rc\<lparr>br_pos := br_pos ?rc + 11\<rparr>)
      = Some (take_bit ?m (shr ?x ?t), r\<lparr>br_pos := br_pos ?rc + 11 + ?m\<rparr>)"
    using read_bits_field [of "?rc\<lparr>br_pos := br_pos ?rc + 11\<rparr>"] d3 by simp
  have um: "unat (of_nat ?m :: u32) = ?m" and ut: "unat (of_nat (32 - ?m) :: u32) = 32 - ?m"
    by (rule unat_u64_word, use m(2) in simp)+
  have conds: "(of_nat ?m :: u32) \<noteq> 0" "\<not> (64 :: u32) < of_nat ?m" "(of_nat (32 - ?m) :: u32) < 64"
    using m um ut by (auto simp: word_less_nat_alt word_unat_eq_iff)
  let ?wrong = "prev XOR push_bit (?l - 32) ?x"
  have shifted: "shl (take_bit ?m (shr ?x ?t)) (32 - ?m) = push_bit (?l - 32) ?x"
    using clamped_value [OF _ x] assms(1) m(3) by simp
  have "gorilla_decode_tail (Suc 0) prev (of_nat no_range) 0 ?ra = Ok [?wrong]"
    using b1(1) b2(1) rng val um ut conds shifted
    by (simp only: gorilla_decode_tail.simps ok_or.simps and_then.simps prod.case if_True if_False
        not_True_eq_False not_False_eq_True Let_def simp_thms)
  then have "gorilla_decode (gorilla_encode [prev, cur]) 2 = Ok [prev, ?wrong]"
    using rd unfolding gorilla_decode_def enc r_def [symmetric]
    by (simp add: take_bit_word_eq_self del: gorilla_decode_tail.simps)
  moreover have "?wrong \<noteq> cur"
  proof
    assume "?wrong = cur"
    then have "push_bit (?l - 32) ?x = ?x"
      by (metis xor.assoc xor.left_neutral xor_self_eq)
    with push_bit_moves [of "?l - 32" ?x] x assms(1) show False by simp
  qed
  ultimately show ?thesis by blast
qed

lemma gorilla_loses_small_changes_witness:
  "\<exists>wrong. gorilla_decode (gorilla_encode [0, 1]) 2 = Ok [0, wrong] \<and> wrong \<noteq> 1"
proof -
  have "32 < leading_zeros ((0 :: u64) XOR 1)" by code_simp
  from gorilla_loses_small_changes [OF this] show ?thesis by auto
qed

text \<open>
  A dictionary minipage whose header declares no entries and no code bits makes the decoder
  index an empty dictionary: it panics instead of reporting corruption.
\<close>

lemma empty_dictionary_panics:
  "0 < count \<Longrightarrow> decode_minipage (Dictionary d) [0, 0, 0, 0, 0] count = Panic"
  by (simp add: decode_minipage_def dict_decode_def decode_codes_def index_at_def slice_def)

lemma empty_dictionary_panics_witness:
  "decode_minipage (Dictionary 0) [0, 0, 0, 0, 0] 7 = Panic"
  using empty_dictionary_panics [of 7 0] by simp

end
