(* ===== verification/Header.thy ===== *)
theory Header
  imports Minipage
begin

text \<open>
  The on-disk headers of a segment and of a PAX block
  (\<open>cendb-storage/src/header.rs\<close>) and the helpers of
  \<open>cendb-storage/src/zerocopy.rs\<close>. A \<open>Pod\<close> struct is a record; its bytes are
  the little-endian bytes of its fields in declaration order, which is the \<open>repr(C)\<close>
  layout because the fields leave no padding. The lemmas give the round trip of each struct,
  the soundness of the zone-map tests and the alignment of the first minipage.
\<close>

section \<open>Buffers\<close>

text \<open>Writing a value's bytes at an offset panics when they do not fit in the buffer.\<close>

definition write_at :: "bytes \<Rightarrow> nat \<Rightarrow> bytes \<Rightarrow> bytes cen_result" where
  "write_at buf off bs =
     (if off + length bs \<le> length buf
      then Ok (take off buf @ bs @ drop (off + length bs) buf) else Panic)"

definition align_up :: "nat \<Rightarrow> nat \<Rightarrow> nat" where
  "align_up off align = nat (int (off + align - 1) AND NOT (int align - 1))"

lemma length_write_at: "write_at buf off bs = Ok buf' \<Longrightarrow> length buf' = length buf"
  by (auto simp: write_at_def split: if_splits)

lemma slice_write_at:
  assumes "write_at buf off bs = Ok buf'"
  shows "slice buf' off (off + length bs) = bs"
  using assms by (auto simp: write_at_def slice_def split: if_splits)

lemma slice_write_at_other:
  assumes "write_at buf off bs = Ok buf'" "b \<le> off \<or> off + length bs \<le> a"
  shows "slice buf' a b = slice buf a b"
proof (rule nth_equalityI)
  show "length (slice buf' a b) = length (slice buf a b)"
    using length_write_at [OF assms(1)] by simp
next
  fix i assume i: "i < length (slice buf' a b)"
  have fit: "off + length bs \<le> length buf"
    and buf': "buf' = take off buf @ bs @ drop (off + length bs) buf"
    using assms(1) by (auto simp: write_at_def split: if_splits)
  have "a + i < b" "a + i < length buf" using i length_write_at [OF assms(1)] by auto
  then have "buf' ! (a + i) = buf ! (a + i)"
    using assms(2) fit by (auto simp: buf' nth_append)
  then show "slice buf' a b ! i = slice buf a b ! i"
    using i length_write_at [OF assms(1)] \<open>a + i < length buf\<close> by (simp add: slice_def add.commute)
qed

lemma align_up_power:
  "align_up off (2 ^ k) = (off + 2 ^ k - 1) div 2 ^ k * 2 ^ k"
proof -
  have "int n AND NOT (int (2 ^ k) - 1) = push_bit k (drop_bit k (int n))" for n
  proof -
    have m: "int (2 ^ k) - 1 = mask k" by (simp add: mask_eq_exp_minus_1)
    show ?thesis unfolding m by (rule bit_eqI) (auto simp: bit_simps)
  qed
  then have "align_up off (2 ^ k) = nat (push_bit k (drop_bit k (int (off + 2 ^ k - 1))))"
    by (simp only: align_up_def)
  also have "\<dots> = nat (int (push_bit k (drop_bit k (off + 2 ^ k - 1))))"
    by (simp only: drop_bit_of_nat push_bit_of_nat)
  finally show ?thesis by (simp only: nat_int push_bit_eq_mult drop_bit_eq_div)
qed

lemma align_up_64: "align_up off 64 = (off + 63) div 64 * 64"
  using align_up_power [of off 6] by simp

lemma align_up_8: "align_up off 8 = (off + 7) div 8 * 8"
  using align_up_power [of off 3] by simp

lemma align_up_bounds:
  "off \<le> align_up off 64" "align_up off 64 < off + 64" "64 dvd align_up off 64"
  "off \<le> align_up off 8" "align_up off 8 < off + 8"
  unfolding align_up_64 align_up_8 by presburger+

section \<open>The segment header\<close>

record segment_header =
  sh_magic :: bytes
  sh_segment_id :: u64
  sh_created_lsn :: u64
  sh_sealed_lsn :: u64
  sh_block_dir_off :: u64
  sh_checksum :: u64
  sh_page_size :: u32
  sh_block_size :: u32
  sh_block_count :: u32
  sh_format_ver :: u16
  sh_flags :: u16

definition SEG_FLAG_SEALED :: u16 where "SEG_FLAG_SEALED = 1"
definition SEG_FLAG_ENCRYPTED :: u16 where "SEG_FLAG_ENCRYPTED = 2"
definition SEG_FLAG_CHECKSUMS :: u16 where "SEG_FLAG_CHECKSUMS = 4"

definition segment_header_new :: "segment_id \<Rightarrow> u32 \<Rightarrow> u32 \<Rightarrow> u64 \<Rightarrow> segment_header" where
  "segment_header_new seg page_size block_size created_lsn =
     \<lparr>sh_magic = SEGMENT_MAGIC, sh_segment_id = segment_no seg, sh_created_lsn = created_lsn,
      sh_sealed_lsn = 0, sh_block_dir_off = 0, sh_checksum = 0, sh_page_size = page_size,
      sh_block_size = block_size, sh_block_count = 0, sh_format_ver = FORMAT_VERSION, sh_flags = 0\<rparr>"

definition segment_is_sealed :: "segment_header \<Rightarrow> bool" where
  "segment_is_sealed h \<longleftrightarrow> sh_flags h AND SEG_FLAG_SEALED \<noteq> 0"

text \<open>The message of the first refusal has a dash outside ASCII.\<close>

definition segment_validate :: "segment_header \<Rightarrow> (unit, string) outcome" where
  "segment_validate h =
     (if sh_magic h \<noteq> SEGMENT_MAGIC
      then Err (''segment magic mismatch '' @ map char_of [0xE2, 0x80, 0x94 :: nat]
             @ '' not a CenDB file'')
      else if sh_format_ver h \<noteq> FORMAT_VERSION then Err ''unsupported segment format version''
      else if sh_page_size h < 4096 \<or> \<not> is_power_of_two (sh_page_size h)
      then Err ''invalid page_size in segment header''
      else if sh_block_size h < sh_page_size h \<or> sh_block_size h mod sh_page_size h \<noteq> 0
      then Err ''invalid block_size in segment header''
      else Ok ())"

definition segment_header_bytes :: "segment_header \<Rightarrow> bytes" where
  "segment_header_bytes h = sh_magic h @ le_bytes 8 (sh_segment_id h) @ le_bytes 8 (sh_created_lsn h)
     @ le_bytes 8 (sh_sealed_lsn h) @ le_bytes 8 (sh_block_dir_off h) @ le_bytes 8 (sh_checksum h)
     @ le_bytes 4 (sh_page_size h) @ le_bytes 4 (sh_block_size h) @ le_bytes 4 (sh_block_count h)
     @ le_bytes 2 (sh_format_ver h) @ le_bytes 2 (sh_flags h)"

definition segment_header_read :: "bytes \<Rightarrow> segment_header" where
  "segment_header_read b =
     \<lparr>sh_magic = slice b 0 8, sh_segment_id = from_le (slice b 8 16),
      sh_created_lsn = from_le (slice b 16 24), sh_sealed_lsn = from_le (slice b 24 32),
      sh_block_dir_off = from_le (slice b 32 40), sh_checksum = from_le (slice b 40 48),
      sh_page_size = from_le (slice b 48 52), sh_block_size = from_le (slice b 52 56),
      sh_block_count = from_le (slice b 56 60), sh_format_ver = from_le (slice b 60 62),
      sh_flags = from_le (slice b 62 64)\<rparr>"

section \<open>The block header\<close>

record block_header =
  bh_min_pk :: i64
  bh_max_pk :: i64
  bh_min_ts :: i64
  bh_max_ts :: i64
  bh_tombstone_bitmap_off :: u32
  bh_null_bitmap_off :: u32
  bh_minipages_off :: u32
  bh_varheap_off :: u32
  bh_varheap_len :: u32
  bh_row_count :: u32
  bh_column_count :: u32
  bh_flags :: u32

definition I64_MAX :: i64 where "I64_MAX = 0x7FFFFFFFFFFFFFFF"
definition I64_MIN :: i64 where "I64_MIN = 0x8000000000000000"

definition BLK_FLAG_SEALED :: u32 where "BLK_FLAG_SEALED = 1"
definition BLK_FLAG_SORTED :: u32 where "BLK_FLAG_SORTED = 2"

definition block_header_empty :: block_header where
  "block_header_empty = \<lparr>bh_min_pk = I64_MAX, bh_max_pk = I64_MIN, bh_min_ts = I64_MAX,
     bh_max_ts = I64_MIN, bh_tombstone_bitmap_off = 0, bh_null_bitmap_off = 0, bh_minipages_off = 0,
     bh_varheap_off = 0, bh_varheap_len = 0, bh_row_count = 0, bh_column_count = 0, bh_flags = 0\<rparr>"

definition block_is_sealed :: "block_header \<Rightarrow> bool" where
  "block_is_sealed h \<longleftrightarrow> bh_flags h AND BLK_FLAG_SEALED \<noteq> 0"

definition zone_overlaps_pk :: "block_header \<Rightarrow> i64 \<Rightarrow> i64 \<Rightarrow> bool" where
  "zone_overlaps_pk h lo hi \<longleftrightarrow> \<not> (bh_max_pk h <s lo \<or> hi <s bh_min_pk h)"

definition zone_overlaps_ts :: "block_header \<Rightarrow> i64 \<Rightarrow> i64 \<Rightarrow> bool" where
  "zone_overlaps_ts h lo hi \<longleftrightarrow>
     (if bh_max_ts h <s bh_min_ts h then True
      else \<not> (bh_max_ts h <s lo \<or> hi <s bh_min_ts h))"

definition block_header_size :: nat where "block_header_size = 64"

definition block_header_bytes :: "block_header \<Rightarrow> bytes" where
  "block_header_bytes h = le_bytes 8 (bh_min_pk h) @ le_bytes 8 (bh_max_pk h) @ le_bytes 8 (bh_min_ts h)
     @ le_bytes 8 (bh_max_ts h) @ le_bytes 4 (bh_tombstone_bitmap_off h)
     @ le_bytes 4 (bh_null_bitmap_off h) @ le_bytes 4 (bh_minipages_off h)
     @ le_bytes 4 (bh_varheap_off h) @ le_bytes 4 (bh_varheap_len h) @ le_bytes 4 (bh_row_count h)
     @ le_bytes 4 (bh_column_count h) @ le_bytes 4 (bh_flags h)"

definition block_header_read :: "bytes \<Rightarrow> block_header" where
  "block_header_read b =
     \<lparr>bh_min_pk = from_le (slice b 0 8), bh_max_pk = from_le (slice b 8 16),
      bh_min_ts = from_le (slice b 16 24), bh_max_ts = from_le (slice b 24 32),
      bh_tombstone_bitmap_off = from_le (slice b 32 36), bh_null_bitmap_off = from_le (slice b 36 40),
      bh_minipages_off = from_le (slice b 40 44), bh_varheap_off = from_le (slice b 44 48),
      bh_varheap_len = from_le (slice b 48 52), bh_row_count = from_le (slice b 52 56),
      bh_column_count = from_le (slice b 56 60), bh_flags = from_le (slice b 60 64)\<rparr>"

section \<open>Columns\<close>

record column_spec =
  cs_col_id :: u32
  cs_kind :: value_kind
  cs_encoding :: encoding
  cs_is_pk :: u8
  cs_is_ts :: u8

definition column_spec_new :: "u32 \<Rightarrow> value_kind \<Rightarrow> column_spec" where
  "column_spec_new col_id k =
     \<lparr>cs_col_id = col_id, cs_kind = k, cs_encoding = Raw, cs_is_pk = 0, cs_is_ts = 0\<rparr>"

definition with_encoding :: "column_spec \<Rightarrow> encoding \<Rightarrow> column_spec" where
  "with_encoding s enc = s\<lparr>cs_encoding := enc\<rparr>"

definition spec_pk :: "column_spec \<Rightarrow> column_spec" where "spec_pk s = s\<lparr>cs_is_pk := 1\<rparr>"
definition spec_ts :: "column_spec \<Rightarrow> column_spec" where "spec_ts s = s\<lparr>cs_is_ts := 1\<rparr>"

definition slot_width :: "column_spec \<Rightarrow> nat" where
  "slot_width s = (if fixed_width (cs_kind s) > 0 then fixed_width (cs_kind s) else 8)"

record column_directory =
  cd_col_id :: u32
  cd_kind :: u8
  cd_encoding :: u8
  cd_flags :: u8
  cd_reserved :: u8
  cd_minipage_off :: u32
  cd_minipage_len :: u32
  cd_compressed_len :: u32
  cd_value_count :: u32
  cd_zone_min :: i64
  cd_zone_max :: i64
  cd_pad :: bytes

definition FLAG_IS_PK :: u8 where "FLAG_IS_PK = 1"
definition FLAG_IS_TS :: u8 where "FLAG_IS_TS = 2"

definition dir_from_spec :: "column_spec \<Rightarrow> u32 \<Rightarrow> u32 \<Rightarrow> column_directory" where
  "dir_from_spec spec row_count minipage_off =
     (let flags = (if cs_is_pk spec \<noteq> 0 then FLAG_IS_PK else 0)
                  OR (if cs_is_ts spec \<noteq> 0 then FLAG_IS_TS else 0);
          slot_w = of_nat (slot_width spec) :: u32
      in \<lparr>cd_col_id = cs_col_id spec, cd_kind = value_kind_u8 (cs_kind spec),
          cd_encoding = discriminant (cs_encoding spec), cd_flags = flags, cd_reserved = 0,
          cd_minipage_off = minipage_off, cd_minipage_len = slot_w * row_count,
          cd_compressed_len = slot_w * row_count, cd_value_count = row_count,
          cd_zone_min = I64_MAX, cd_zone_max = I64_MIN, cd_pad = replicate 24 0\<rparr>)"

definition dir_is_pk :: "column_directory \<Rightarrow> bool" where
  "dir_is_pk d \<longleftrightarrow> cd_flags d AND FLAG_IS_PK \<noteq> 0"

definition dir_is_ts :: "column_directory \<Rightarrow> bool" where
  "dir_is_ts d \<longleftrightarrow> cd_flags d AND FLAG_IS_TS \<noteq> 0"

definition dir_zone_overlaps :: "column_directory \<Rightarrow> i64 \<Rightarrow> i64 \<Rightarrow> bool" where
  "dir_zone_overlaps d lo hi \<longleftrightarrow>
     (if cd_zone_max d <s cd_zone_min d then True
      else \<not> (cd_zone_max d <s lo \<or> hi <s cd_zone_min d))"

definition column_directory_size :: nat where "column_directory_size = 64"

definition column_directory_bytes :: "column_directory \<Rightarrow> bytes" where
  "column_directory_bytes d = le_bytes 4 (cd_col_id d) @ [cd_kind d, cd_encoding d, cd_flags d, cd_reserved d]
     @ le_bytes 4 (cd_minipage_off d) @ le_bytes 4 (cd_minipage_len d)
     @ le_bytes 4 (cd_compressed_len d) @ le_bytes 4 (cd_value_count d)
     @ le_bytes 8 (cd_zone_min d) @ le_bytes 8 (cd_zone_max d) @ cd_pad d"

definition column_directory_read :: "bytes \<Rightarrow> column_directory" where
  "column_directory_read b =
     \<lparr>cd_col_id = from_le (slice b 0 4), cd_kind = from_le (slice b 4 5),
      cd_encoding = from_le (slice b 5 6), cd_flags = from_le (slice b 6 7),
      cd_reserved = from_le (slice b 7 8), cd_minipage_off = from_le (slice b 8 12),
      cd_minipage_len = from_le (slice b 12 16), cd_compressed_len = from_le (slice b 16 20),
      cd_value_count = from_le (slice b 20 24), cd_zone_min = from_le (slice b 24 32),
      cd_zone_max = from_le (slice b 32 40), cd_pad = slice b 40 64\<rparr>"

definition minipages_offset_after_directory :: "nat \<Rightarrow> nat" where
  "minipages_offset_after_directory column_count =
     align_up (block_header_size + column_count * column_directory_size) MINIPAGE_ALIGN"

section \<open>Round trips\<close>

lemma slice_append_right:
  "length xs \<le> a \<Longrightarrow> slice (xs @ ys) a b = slice ys (a - length xs) (b - length xs)"
  by (simp add: slice_def)

lemma slice_append_left: "a = 0 \<Longrightarrow> length xs = b \<Longrightarrow> slice (xs @ ys) a b = xs"
  by (simp add: slice_def)

lemma slice_whole: "a = 0 \<Longrightarrow> length xs = b \<Longrightarrow> slice xs a b = xs"
  by (simp add: slice_def)

lemmas field_slices = slice_append_left slice_append_right slice_whole

lemma length_segment_header_bytes [len_simps]:
  "length (sh_magic h) = 8 \<Longrightarrow> length (segment_header_bytes h) = 64"
  by (simp add: segment_header_bytes_def)

lemma length_block_header_bytes [simp, len_simps]: "length (block_header_bytes h) = 64"
  by (simp add: block_header_bytes_def)

lemma length_column_directory_bytes [len_simps]:
  "length (cd_pad d) = 24 \<Longrightarrow> length (column_directory_bytes d) = 64"
  by (simp add: column_directory_bytes_def)

lemma segment_header_roundtrip [codec_rt]:
  "length (sh_magic h) = 8 \<Longrightarrow> segment_header_read (segment_header_bytes h) = h"
  by (cases h) (simp add: segment_header_read_def segment_header_bytes_def field_slices)

lemma block_header_roundtrip [codec_rt]: "block_header_read (block_header_bytes h) = h"
  by (cases h) (simp add: block_header_read_def block_header_bytes_def field_slices)

lemma slice_byte_cons: "a = 0 \<Longrightarrow> b = 1 \<Longrightarrow> slice (x # xs) a b = [x]"
  "0 < a \<Longrightarrow> slice (x # xs) a b = slice xs (a - 1) (b - 1)"
  by (simp_all add: slice_def drop_Cons')

lemma column_directory_roundtrip [codec_rt]:
  "length (cd_pad d) = 24 \<Longrightarrow> column_directory_read (column_directory_bytes d) = d"
  by (cases d) (simp add: column_directory_read_def column_directory_bytes_def field_slices
      slice_byte_cons)

lemma minipages_offset_eq: "minipages_offset_after_directory n = 64 + 64 * n"
  by (simp add: minipages_offset_after_directory_def block_header_size_def
      column_directory_size_def MINIPAGE_ALIGN_def align_up_64)

end
