(* ===== verification/Pax.thy ===== *)
theory Pax
  imports Header
begin

text \<open>
  PAX blocks (\<open>cendb-storage/src/pax.rs\<close>): the builder that stages rows by column,
  the layout of a block (header, column directory, minipages, var-heap, bitmaps) and the
  readers. \<open>AlignedBlock\<close> is the list of its bytes; its allocation is taken to succeed.
  The decimal and debug forms of floats and the lossy conversion of bytes to text are functions
  of the standard library that only enter var-heap bytes and messages: a record of functions.
\<close>

section \<open>Text of values\<close>

record text_format =
  f64_display :: "u64 \<Rightarrow> string"
  f64_debug :: "u64 \<Rightarrow> string"
  utf8_lossy :: "bytes \<Rightarrow> string"

fun value_to_string :: "text_format \<Rightarrow> cen_value \<Rightarrow> string" where
  "value_to_string fmt VNull = ''''"
| "value_to_string fmt (VBool b) = (if b then ''true'' else ''false'')"
| "value_to_string fmt (VI64 x) = show_int (sint x)"
| "value_to_string fmt (VU64 x) = show_nat (unat x)"
| "value_to_string fmt (VF64 x) = f64_display fmt x"
| "value_to_string fmt (VBytes b) = utf8_lossy fmt b"
| "value_to_string fmt (VTimestamp x) = show_int (sint x)"

text \<open>The derived \<open>Debug\<close> output that error messages use.\<close>

fun comma_list :: "string list \<Rightarrow> string" where
  "comma_list [] = ''''"
| "comma_list [x] = x"
| "comma_list (x # xs) = x @ '', '' @ comma_list xs"

fun debug_value :: "text_format \<Rightarrow> cen_value \<Rightarrow> string" where
  "debug_value fmt VNull = ''Null''"
| "debug_value fmt (VBool b) = ''Bool('' @ (if b then ''true'' else ''false'') @ '')''"
| "debug_value fmt (VI64 x) = ''I64('' @ show_int (sint x) @ '')''"
| "debug_value fmt (VU64 x) = ''U64('' @ show_nat (unat x) @ '')''"
| "debug_value fmt (VF64 x) = ''F64('' @ f64_debug fmt x @ '')''"
| "debug_value fmt (VBytes b) = ''Bytes(['' @ comma_list (map (\<lambda>x. show_nat (unat x)) b) @ ''])''"
| "debug_value fmt (VTimestamp x) = ''Timestamp('' @ show_int (sint x) @ '')''"

fun debug_kind :: "value_kind \<Rightarrow> string" where
  "debug_kind KNull = ''Null''"
| "debug_kind KBool = ''Bool''"
| "debug_kind KI64 = ''I64''"
| "debug_kind KU64 = ''U64''"
| "debug_kind KF64 = ''F64''"
| "debug_kind KBytes = ''Bytes''"
| "debug_kind KTimestamp = ''Timestamp''"

fun debug_encoding :: "encoding \<Rightarrow> string" where
  "debug_encoding Raw = ''Raw''"
| "debug_encoding (BitPacked b) = ''BitPacked { bits: '' @ show_nat (unat b) @ '' }''"
| "debug_encoding (FrameOfReference m b) = ''FrameOfReference { base: '' @ show_int (sint m)
     @ '', bits: '' @ show_nat (unat b) @ '' }''"
| "debug_encoding DeltaOfDelta = ''DeltaOfDelta''"
| "debug_encoding Gorilla = ''Gorilla''"
| "debug_encoding Chimp128 = ''Chimp128''"
| "debug_encoding (Dictionary i) = ''Dictionary { dict_id: '' @ show_nat (unat i) @ '' }''"
| "debug_encoding RunLength = ''RunLength''"
| "debug_encoding Fsst = ''Fsst''"

section \<open>The builder\<close>

datatype staging = Fixed value_kind "i64 list" | Var "(u32 \<times> u32) list" bytes

record pax_builder =
  pb_block_size :: u32
  pb_specs :: "column_spec list"
  pb_staging :: "staging list"
  pb_row_count :: u32
  pb_pk_range :: "(i64 \<times> i64) option"
  pb_ts_range :: "(i64 \<times> i64) option"

definition staging_for :: "column_spec \<Rightarrow> staging" where
  "staging_for s = (if fixed_width (cs_kind s) = 0 then Var [] [] else Fixed (cs_kind s) [])"

definition pax_new :: "u32 \<Rightarrow> column_spec list \<Rightarrow> pax_builder cen_result" where
  "pax_new block_size specs =
     (if specs = [] then Err (constraint ''PaxBlockBuilder: need >= 1 column'')
      else if length (filter (\<lambda>s. cs_is_pk s \<noteq> 0) specs) > 1
      then Err (constraint ''PaxBlockBuilder: at most one pk column'')
      else if length (filter (\<lambda>s. cs_is_ts s \<noteq> 0) specs) > 1
      then Err (constraint ''PaxBlockBuilder: at most one ts column'')
      else Ok \<lparr>pb_block_size = block_size, pb_specs = specs, pb_staging = map staging_for specs,
        pb_row_count = 0, pb_pk_range = None, pb_ts_range = None\<rparr>)"

definition extend_range :: "(i64 \<times> i64) option \<Rightarrow> i64 \<Rightarrow> (i64 \<times> i64) option" where
  "extend_range r v = (case r of
       Some (lo, hi) \<Rightarrow> Some (if v <s lo then v else lo, if hi <s v then v else hi)
     | None \<Rightarrow> Some (v, v))"

definition extend_pk :: "i64 \<Rightarrow> pax_builder \<Rightarrow> pax_builder" where
  "extend_pk v b = b\<lparr>pb_pk_range := extend_range (pb_pk_range b) v\<rparr>"

definition extend_ts :: "i64 \<Rightarrow> pax_builder \<Rightarrow> pax_builder" where
  "extend_ts v b = b\<lparr>pb_ts_range := extend_range (pb_ts_range b) v\<rparr>"

definition track_zones :: "column_spec \<Rightarrow> cen_value \<Rightarrow> pax_builder \<Rightarrow> pax_builder" where
  "track_zones spec v b =
     (let track = (\<lambda>x b. let b = (if cs_is_pk spec \<noteq> 0 then extend_pk x b else b)
                         in if cs_is_ts spec \<noteq> 0 then extend_ts x b else b)
      in case v of VI64 x \<Rightarrow> track x b | VU64 x \<Rightarrow> track x b | VTimestamp x \<Rightarrow> track x b | _ \<Rightarrow> b)"

definition encode_fixed :: "value_kind \<Rightarrow> cen_value \<Rightarrow> i64 option" where
  "encode_fixed k v = (case (k, v) of
       (KBool, VBool b) \<Rightarrow> Some (if b then 1 else 0)
     | (KI64, VI64 x) \<Rightarrow> Some x
     | (KU64, VU64 x) \<Rightarrow> Some x
     | (KF64, VF64 x) \<Rightarrow> Some x
     | (KTimestamp, VTimestamp x) \<Rightarrow> Some x
     | (KI64, VTimestamp x) \<Rightarrow> Some x
     | _ \<Rightarrow> None)"

definition push_var :: "bytes \<Rightarrow> (u32 \<times> u32) list \<Rightarrow> bytes \<Rightarrow> staging" where
  "push_var b slots heap =
     Var (slots @ [(of_nat (length heap), of_nat (length b))]) (heap @ b)"

fun stage_value :: "text_format \<Rightarrow> value_kind \<Rightarrow> cen_value \<Rightarrow> staging \<Rightarrow> staging cen_result" where
  "stage_value fmt k v (Fixed sk vals) =
     (if v = VNull then Ok (Fixed sk (vals @ [0]))
      else case encode_fixed k v of
        Some x \<Rightarrow> Ok (Fixed sk (vals @ [x]))
      | None \<Rightarrow> Err (constraint (''append_row: cannot store '' @ debug_value fmt v
                 @ '' in column of kind '' @ debug_kind k)))"
| "stage_value fmt k v (Var slots heap) =
     Ok (case v of
           VBytes b \<Rightarrow> push_var b slots heap
         | VNull \<Rightarrow> Var (slots @ [(0, - 1)]) heap
         | _ \<Rightarrow> push_var (map of_char (value_to_string fmt v)) slots heap)"

definition write_value :: "text_format \<Rightarrow> pax_builder \<Rightarrow> nat \<Rightarrow> cen_value
    \<Rightarrow> unit cen_result \<times> pax_builder" where
  "write_value fmt b i v =
     (if i < length (pb_specs b) \<and> i < length (pb_staging b) then
        let spec = pb_specs b ! i; b = track_zones spec v b
        in case stage_value fmt (cs_kind spec) v (pb_staging b ! i) of
             Ok st \<Rightarrow> (Ok (), b\<lparr>pb_staging := (pb_staging b)[i := st]\<rparr>)
           | Err e \<Rightarrow> (Err e, b)
           | Panic \<Rightarrow> (Panic, b)
      else (Panic, b))"

fun write_row :: "text_format \<Rightarrow> nat \<Rightarrow> cen_value list \<Rightarrow> pax_builder
    \<Rightarrow> unit cen_result \<times> pax_builder" where
  "write_row fmt i [] b = (Ok (), b)"
| "write_row fmt i (v # vs) b =
     (case write_value fmt b i v of
        (Ok _, b) \<Rightarrow> write_row fmt (Suc i) vs b
      | (Err e, b) \<Rightarrow> (Err e, b)
      | (Panic, b) \<Rightarrow> (Panic, b))"

definition append_row :: "text_format \<Rightarrow> cen_value list \<Rightarrow> pax_builder
    \<Rightarrow> u32 cen_result \<times> pax_builder" where
  "append_row fmt values b =
     (if length values \<noteq> length (pb_specs b)
      then (Err (constraint (''append_row: expected '' @ show_nat (length (pb_specs b))
              @ '' values, got '' @ show_nat (length values))), b)
      else
        let row_id = pb_row_count b in
        case write_row fmt 0 values b of
          (Ok _, b) \<Rightarrow> (Ok row_id, b\<lparr>pb_row_count := pb_row_count b + 1\<rparr>)
        | (Err e, b) \<Rightarrow> (Err e, b)
        | (Panic, b) \<Rightarrow> (Panic, b))"

section \<open>The layout of a block\<close>

definition column_encoding :: "column_spec \<Rightarrow> value_kind \<Rightarrow> i64 list \<Rightarrow> encoding" where
  "column_encoding spec k vals =
     (if cs_encoding spec = Raw \<and> k \<in> {KI64, KU64, KTimestamp}
      then auto_select_encoding_i64 vals else cs_encoding spec)"

definition value_range :: "i64 list \<Rightarrow> i64 \<times> i64" where
  "value_range vals = (case vals of
       [] \<Rightarrow> (I64_MAX, I64_MIN)
     | v # _ \<Rightarrow> foldl (\<lambda>(lo, hi) v. (if v <s lo then v else lo, if hi <s v then v else hi)) (v, v) vals)"

fun column_body :: "column_spec \<Rightarrow> staging \<Rightarrow> (bytes \<times> i64 \<times> i64 \<times> encoding) cen_result" where
  "column_body spec (Fixed k vals) =
     (let enc = column_encoding spec k vals
      in and_then (encode_minipage enc vals) (\<lambda>body.
           let (zmin, zmax) = value_range vals in Ok (body, zmin, zmax, enc)))"
| "column_body spec (Var slots heap) =
     Ok (concat (map (\<lambda>(off, len). le_bytes 4 off @ le_bytes 4 len) slots), I64_MAX, I64_MIN, Raw)"

fun layout_columns :: "u32 \<Rightarrow> nat \<Rightarrow> (column_spec \<times> staging) list
    \<Rightarrow> (bytes list \<times> column_directory list \<times> nat) cen_result" where
  "layout_columns rows cursor [] = Ok ([], [], cursor)"
| "layout_columns rows cursor ((spec, st) # cols) =
     and_then (column_body spec st) (\<lambda>(body, zmin, zmax, enc).
       let cursor = align_up cursor MINIPAGE_ALIGN;
           dir = (dir_from_spec spec rows (of_nat cursor))\<lparr>
             cd_encoding := discriminant enc, cd_minipage_len := of_nat (length body),
             cd_compressed_len := of_nat (length body), cd_value_count := rows,
             cd_zone_min := zmin, cd_zone_max := zmax\<rparr>
       in and_then (layout_columns rows (cursor + length body) cols) (\<lambda>(mps, dirs, fin).
            Ok (body # mps, dir # dirs, fin)))"

fun merge_heaps :: "nat \<Rightarrow> bytes \<Rightarrow> (column_spec \<times> staging) list \<Rightarrow> bytes \<times> (nat \<times> u32) list" where
  "merge_heaps i varheap [] = (varheap, [])"
| "merge_heaps i varheap ((spec, st) # cols) =
     (if fixed_width (cs_kind spec) > 0 then merge_heaps (Suc i) varheap cols
      else case st of
        Var slots heap \<Rightarrow>
          let (v, rebases) = merge_heaps (Suc i) (varheap @ heap) cols
          in (v, (i, of_nat (length varheap)) # rebases)
      | Fixed _ _ \<Rightarrow> merge_heaps (Suc i) varheap cols)"

fun rebase_slots :: "u32 \<Rightarrow> bytes \<Rightarrow> bytes" where
  "rebase_slots base mp =
     (if length mp < 8 then mp
      else let off = from_le (take 4 mp); len = from_le (slice mp 4 8) :: u32
           in (if len = - 1 then take 4 mp else le_bytes 4 (off + base))
              @ slice mp 4 8 @ rebase_slots base (drop 8 mp))"

declare rebase_slots.simps [simp del]

fun apply_rebases :: "(nat \<times> u32) list \<Rightarrow> bytes list \<Rightarrow> bytes list" where
  "apply_rebases [] mps = mps"
| "apply_rebases ((i, base) # rs) mps = apply_rebases rs (mps[i := rebase_slots base (mps ! i)])"

text \<open>A sequence of copies into the block's buffer.\<close>

fun write_all :: "(nat \<times> bytes) list \<Rightarrow> bytes \<Rightarrow> bytes cen_result" where
  "write_all [] buf = Ok buf"
| "write_all ((off, bs) # ws) buf = and_then (write_at buf off bs) (write_all ws)"

definition dir_writes :: "column_directory list \<Rightarrow> (nat \<times> bytes) list" where
  "dir_writes dirs = map (\<lambda>(i, dir). (block_header_size + i * column_directory_size,
     column_directory_bytes dir)) (enumerate 0 dirs)"

definition minipage_writes :: "column_directory list \<Rightarrow> bytes list \<Rightarrow> (nat \<times> bytes) list" where
  "minipage_writes dirs mps = map (\<lambda>(dir, mp). (unat (cd_minipage_off dir), mp)) (zip dirs mps)"

record pax_block =
  px_buf :: bytes
  px_block_size :: u32

definition aligned_zeroed :: "nat \<Rightarrow> bytes cen_result" where
  "aligned_zeroed n =
     (if n = 0 then Err (constraint ''AlignedBlock: size must be > 0'') else Ok (replicate n 0))"

definition finalize_header :: "pax_builder \<Rightarrow> u32 \<Rightarrow> u32 \<Rightarrow> nat \<Rightarrow> nat \<Rightarrow> nat \<Rightarrow> block_header" where
  "finalize_header b minipages_off varheap_off heap_len null_size tomb_size =
     (let hdr = block_header_empty\<lparr>bh_row_count := pb_row_count b,
            bh_column_count := of_nat (length (pb_specs b))\<rparr>;
          hdr = (case pb_pk_range b of Some (lo, hi) \<Rightarrow> hdr\<lparr>bh_min_pk := lo, bh_max_pk := hi\<rparr> | None \<Rightarrow> hdr);
          hdr = (case pb_ts_range b of Some (lo, hi) \<Rightarrow> hdr\<lparr>bh_min_ts := lo, bh_max_ts := hi\<rparr> | None \<Rightarrow> hdr);
          tomb_off = pb_block_size b - of_nat tomb_size
      in hdr\<lparr>bh_minipages_off := minipages_off, bh_varheap_off := varheap_off,
           bh_varheap_len := of_nat heap_len, bh_tombstone_bitmap_off := tomb_off,
           bh_null_bitmap_off := tomb_off - of_nat null_size\<rparr>)"

definition finalize :: "pax_builder \<Rightarrow> pax_block cen_result" where
  "finalize b =
     (let cols = zip (pb_specs b) (pb_staging b);
          minipages_off = of_nat (minipages_offset_after_directory (length (pb_specs b))) :: u32
      in and_then (layout_columns (pb_row_count b) (unat minipages_off) cols) (\<lambda>(mps, dirs, cursor).
        let varheap_off = of_nat (align_up cursor 8) :: u32;
            (varheap, rebases) = merge_heaps 0 [] cols;
            mps = apply_rebases rebases mps;
            bitmap = (unat (pb_row_count b) + 7) div 8;
            null_bitmap_size = length (pb_specs b) * bitmap;
            total_needed = unat varheap_off + length varheap + null_bitmap_size + bitmap
        in if total_needed > unat (pb_block_size b)
           then Err (constraint (''PaxBlockBuilder: block overflow '' @ map char_of [0xE2, 0x80, 0x94 :: nat]
                  @ '' need '' @ show_nat total_needed @ '' bytes, block size is ''
                  @ show_nat (unat (pb_block_size b))))
           else and_then (aligned_zeroed (unat (pb_block_size b))) (\<lambda>buf.
             let hdr = finalize_header b minipages_off varheap_off (length varheap)
                   null_bitmap_size bitmap
             in and_then (write_all ((0, block_header_bytes hdr) # dir_writes dirs
                    @ minipage_writes dirs mps @ [(unat varheap_off, varheap)]) buf)
                  (\<lambda>buf. Ok \<lparr>px_buf = buf, px_block_size = pb_block_size b\<rparr>))))"

section \<open>Reading a block\<close>

definition from_owned :: "bytes \<Rightarrow> u32 \<Rightarrow> pax_block cen_result" where
  "from_owned buf block_size =
     (if length buf < block_header_size
      then Err (corrupt ''PaxBlock: buffer shorter than header'')
      else Ok \<lparr>px_buf = buf, px_block_size = block_size\<rparr>)"

definition px_header :: "pax_block \<Rightarrow> block_header" where
  "px_header p =
     (if length (px_buf p) < block_header_size then block_header_empty
      else block_header_read (slice (px_buf p) 0 block_header_size))"

definition px_directory :: "pax_block \<Rightarrow> nat \<Rightarrow> column_directory cen_result" where
  "px_directory p idx =
     (let off = block_header_size + idx * column_directory_size; fin = off + column_directory_size
      in if fin > length (px_buf p)
         then Err (corrupt (''directory('' @ show_nat idx @ '') out of bounds''))
         else Ok (column_directory_read (slice (px_buf p) off fin)))"

definition px_minipage_bytes :: "pax_block \<Rightarrow> nat \<Rightarrow> bytes cen_result" where
  "px_minipage_bytes p idx = and_then (px_directory p idx) (\<lambda>dir.
     let off = unat (cd_minipage_off dir); fin = off + unat (cd_compressed_len dir)
     in if fin > length (px_buf p)
        then Err (corrupt (''minipage('' @ show_nat idx @ '') out of bounds: '' @ show_nat off
               @ ''..'' @ show_nat fin))
        else Ok (slice (px_buf p) off fin))"

definition px_decode_i64_column :: "pax_block \<Rightarrow> nat \<Rightarrow> i64 list cen_result" where
  "px_decode_i64_column p idx = and_then (px_directory p idx) (\<lambda>dir.
     and_then (px_minipage_bytes p idx) (\<lambda>bs.
       decode_minipage (from_discriminant (cd_encoding dir)) bs (unat (cd_value_count dir))))"

text \<open>A column view of eight-byte values; the type name in its message is \<open>i64\<close>.\<close>

definition column_view_new :: "bytes \<Rightarrow> bytes cen_result" where
  "column_view_new raw =
     (if length raw mod 8 \<noteq> 0
      then Err (corrupt (''ColumnView: slice len '' @ show_nat (length raw)
             @ '' not a multiple of size_of::<i64>() = 8''))
      else Ok raw)"

definition view_as_slice :: "bytes \<Rightarrow> i64 list" where
  "view_as_slice raw = map (\<lambda>i. from_le (slice raw (i * 8) (i * 8 + 8))) [0..<length raw div 8]"

definition px_column_view :: "pax_block \<Rightarrow> nat \<Rightarrow> bytes cen_result" where
  "px_column_view p idx = and_then (px_directory p idx) (\<lambda>dir.
     and_then (px_minipage_bytes p idx) (\<lambda>bs.
       if cd_encoding dir \<noteq> discriminant Raw \<and> bs \<noteq> []
       then Err (constraint (''column_view: column '' @ show_nat idx @ '' is encoded (''
              @ debug_encoding (from_discriminant (cd_encoding dir)) @ ''); decode first''))
       else column_view_new bs))"

definition px_var_value :: "pax_block \<Rightarrow> nat \<Rightarrow> nat \<Rightarrow> bytes option cen_result" where
  "px_var_value p idx row = and_then (px_directory p idx) (\<lambda>dir.
     if cd_kind dir \<noteq> value_kind_u8 KBytes
     then Err (constraint (''var_value: column '' @ show_nat idx @ '' is not Bytes''))
     else and_then (px_minipage_bytes p idx) (\<lambda>mp.
       let slot_off = row * 8
       in if slot_off + 8 > length mp
          then Err (corrupt (''var_value: slot '' @ show_nat row @ '' out of bounds in column ''
                 @ show_nat idx))
          else
            let off = unat (from_le (slice mp slot_off (slot_off + 4)) :: u32);
                len = from_le (slice mp (slot_off + 4) (slot_off + 8)) :: u32
            in if len = - 1 then Ok None
               else
                 let heap_off = unat (bh_varheap_off (px_header p)) + off;
                     heap_end = heap_off + unat len
                 in if heap_end > length (px_buf p)
                    then Err (corrupt (''var_value: heap slice '' @ show_nat heap_off @ ''..''
                           @ show_nat heap_end @ '' out of bounds''))
                    else Ok (Some (slice (px_buf p) heap_off heap_end))))"

definition read_cell :: "pax_block \<Rightarrow> nat \<Rightarrow> nat \<Rightarrow> cen_value cen_result" where
  "read_cell p row i = and_then (px_directory p i) (\<lambda>dir.
     let decoded = and_then (px_decode_i64_column p i) (\<lambda>vals. index_at vals row)
     in case value_kind_from_u8 (cd_kind dir) of
          KNull \<Rightarrow> Ok VNull
        | KBool \<Rightarrow> and_then (px_column_view p i) (\<lambda>view.
            and_then (index_at (view_as_slice view) row) (\<lambda>x. Ok (VBool (x \<noteq> 0))))
        | KI64 \<Rightarrow> and_then decoded (\<lambda>x. Ok (VI64 x))
        | KU64 \<Rightarrow> and_then decoded (\<lambda>x. Ok (VU64 x))
        | KF64 \<Rightarrow> and_then decoded (\<lambda>x. Ok (VF64 x))
        | KTimestamp \<Rightarrow> and_then decoded (\<lambda>x. Ok (VTimestamp x))
        | KBytes \<Rightarrow> and_then (px_var_value p i row) (\<lambda>v. case v of
            Some b \<Rightarrow> Ok (VBytes b) | None \<Rightarrow> Ok VNull))"

fun collect :: "(nat \<Rightarrow> 'a cen_result) \<Rightarrow> nat list \<Rightarrow> 'a list cen_result" where
  "collect f [] = Ok []"
| "collect f (i # is) = and_then (f i) (\<lambda>v. and_then (collect f is) (\<lambda>vs. Ok (v # vs)))"

definition materialize_row :: "pax_block \<Rightarrow> nat \<Rightarrow> cen_value list cen_result" where
  "materialize_row p row =
     (let hdr = px_header p
      in if bh_row_count hdr \<le> of_nat row
         then Err (constraint (''materialize_row: row '' @ show_nat row
                @ '' out of range (block has '' @ show_nat (unat (bh_row_count hdr)) @ '' rows)''))
         else collect (read_cell p row) [0..<unat (bh_column_count hdr)])"

end
