(* ===== verification/PaxLayout.thy ===== *)
theory PaxLayout
  imports Pax
begin

text \<open>
  The layout of a finished block. The copies made by \<open>finalize\<close> form a sequence of regions
  in increasing order, so each of them is read back; the lemmas give the position of every
  column's minipage and of every slice of the var-heap in terms of the staged columns.
\<close>

section \<open>Sequences of regions\<close>

fun regions :: "nat \<Rightarrow> (nat \<times> bytes) list \<Rightarrow> nat \<Rightarrow> bool" where
  "regions k [] n \<longleftrightarrow> k \<le> n"
| "regions k ((off, bs) # ws) n \<longleftrightarrow> k \<le> off \<and> regions (off + length bs) ws n"

lemma regions_le: "regions k ws n \<Longrightarrow> k \<le> n"
  by (induction k ws n rule: regions.induct) auto

lemma regions_append: "regions k (us @ ws) n \<longleftrightarrow> (\<exists>m. regions k us m \<and> regions m ws n)"
proof (induction k us n rule: regions.induct)
  case (1 k n)
  have "regions m ws n \<Longrightarrow> k \<le> m \<Longrightarrow> regions k ws n" for m
    by (cases ws) auto
  then show ?case by auto
qed simp

lemma write_all_regions:
  assumes "regions k ws (length buf)"
  shows "\<exists>buf'. write_all ws buf = Ok buf' \<and> length buf' = length buf
    \<and> (\<forall>(off, bs) \<in> set ws. slice buf' off (off + length bs) = bs)
    \<and> (\<forall>a b. b \<le> k \<longrightarrow> slice buf' a b = slice buf a b)"
  using assms
proof (induction ws arbitrary: k buf)
  case (Cons w ws)
  obtain off bs where w: "w = (off, bs)" by (cases w)
  have r: "k \<le> off" "regions (off + length bs) ws (length buf)" using Cons.prems by (simp_all add: w)
  have "off + length bs \<le> length buf" by (rule regions_le [OF r(2)])
  then obtain mid where mid: "write_at buf off bs = Ok mid" by (simp add: write_at_def)
  have len: "length mid = length buf" by (rule length_write_at [OF mid])
  have "regions (off + length bs) ws (length mid)" using r(2) by (simp add: len)
  then obtain buf' where b: "write_all ws mid = Ok buf'" "length buf' = length mid"
    "\<forall>(off, bs) \<in> set ws. slice buf' off (off + length bs) = bs"
    "\<And>a c. c \<le> off + length bs \<Longrightarrow> slice buf' a c = slice mid a c"
    using Cons.IH by blast
  have "slice buf' off (off + length bs) = bs"
    using b(4) slice_write_at [OF mid] by simp
  moreover have "slice buf' a c = slice buf a c" if "c \<le> k" for a c
    using b(4) slice_write_at_other [OF mid, of c a] that r(1) by simp
  ultimately show ?case using b(1-3) mid by (simp add: w len)
qed simp

lemma write_all_in_bounds:
  "write_all ws buf = Ok buf' \<Longrightarrow> (off, bs) \<in> set ws \<Longrightarrow> off + length bs \<le> length buf"
proof (induction ws arbitrary: buf)
  case (Cons w ws)
  obtain o2 b2 mid where w: "w = (o2, b2)" and mid: "write_at buf o2 b2 = Ok mid"
    "write_all ws mid = Ok buf'"
    using Cons.prems(1) by (cases w) auto
  show ?case
  proof (cases "(off, bs) = w")
    case True
    then show ?thesis using mid(1) w by (auto simp: write_at_def split: if_splits)
  next
    case False
    then show ?thesis using Cons.IH [OF mid(2)] Cons.prems(2) length_write_at [OF mid(1)] by simp
  qed
qed simp

lemma slice_slice: "a + d \<le> b \<Longrightarrow> slice (slice xs a b) c d = slice xs (a + c) (a + d)"
  by (simp add: slice_def drop_take add.commute)

lemma slice_chunk:
  assumes "\<forall>x \<in> set xs. length x = n" "r < length xs"
  shows "slice (concat xs) (r * n) (r * n + n) = xs ! r"
  using assms
proof (induction xs arbitrary: r)
  case (Cons x xs)
  then show ?case by (cases r) (simp_all add: slice_def)
qed simp

lemma length_concat_chunks: "\<forall>x \<in> set xs. length x = n \<Longrightarrow> length (concat xs) = length xs * n"
  by (induction xs) auto

section \<open>Minipages\<close>

lemma layout_columns_spec:
  assumes "layout_columns rows cursor cols = Ok (mps, dirs, fin)" "fin < 2 ^ 32"
  shows "length mps = length cols \<and> length dirs = length cols
    \<and> regions cursor (minipage_writes dirs mps) fin
    \<and> (\<forall>i<length cols. \<exists>zmin zmax enc. column_body (fst (cols ! i)) (snd (cols ! i)) = Ok (mps ! i, zmin, zmax, enc)
        \<and> cd_encoding (dirs ! i) = discriminant enc \<and> cd_kind (dirs ! i) = value_kind_u8 (cs_kind (fst (cols ! i)))
        \<and> unat (cd_compressed_len (dirs ! i)) = length (mps ! i) \<and> cd_value_count (dirs ! i) = rows
        \<and> cd_zone_min (dirs ! i) = zmin \<and> cd_zone_max (dirs ! i) = zmax \<and> length (cd_pad (dirs ! i)) = 24
        \<and> 64 dvd unat (cd_minipage_off (dirs ! i)))"
  using assms(1)
proof (induction cols arbitrary: cursor mps dirs)
  case Nil
  then show ?case by (simp add: minipage_writes_def)
next
  case (Cons col cols)
  obtain spec st where col: "col = (spec, st)" by (cases col)
  obtain body zmin zmax enc mps' dirs' where body: "column_body spec st = Ok (body, zmin, zmax, enc)"
    and rest: "layout_columns rows (align_up cursor MINIPAGE_ALIGN + length body) cols = Ok (mps', dirs', fin)"
    and mps: "mps = body # mps'"
    and dirs: "dirs = (dir_from_spec spec rows (of_nat (align_up cursor MINIPAGE_ALIGN)))\<lparr>
             cd_encoding := discriminant enc, cd_minipage_len := of_nat (length body),
             cd_compressed_len := of_nat (length body), cd_value_count := rows,
             cd_zone_min := zmin, cd_zone_max := zmax\<rparr> # dirs'"
    using Cons.prems by (auto simp: col Let_def)
  let ?c = "align_up cursor 64"
  have c: "align_up cursor MINIPAGE_ALIGN = ?c" by (simp add: MINIPAGE_ALIGN_def)
  note ih = Cons.IH [OF rest]
  have fin: "?c + length body \<le> fin" using ih regions_le unfolding c by blast
  then have off: "unat (of_nat ?c :: u32) = ?c" and len: "unat (of_nat (length body) :: u32) = length body"
    using assms(2) by (simp_all add: unat_of_nat_small)
  have bounds: "cursor \<le> ?c" "64 dvd ?c" using align_up_bounds by auto
  show ?case
  proof (intro conjI allI impI)
    show "length mps = length (col # cols)" "length dirs = length (col # cols)"
      using ih by (simp_all add: mps dirs)
    show "regions cursor (minipage_writes dirs mps) fin"
      using ih bounds off c by (simp add: minipage_writes_def mps dirs dir_from_spec_def Let_def)
    fix i assume i: "i < length (col # cols)"
    show "\<exists>zmin zmax enc. column_body (fst ((col # cols) ! i)) (snd ((col # cols) ! i)) = Ok (mps ! i, zmin, zmax, enc)
        \<and> cd_encoding (dirs ! i) = discriminant enc \<and> cd_kind (dirs ! i) = value_kind_u8 (cs_kind (fst ((col # cols) ! i)))
        \<and> unat (cd_compressed_len (dirs ! i)) = length (mps ! i) \<and> cd_value_count (dirs ! i) = rows
        \<and> cd_zone_min (dirs ! i) = zmin \<and> cd_zone_max (dirs ! i) = zmax \<and> length (cd_pad (dirs ! i)) = 24
        \<and> 64 dvd unat (cd_minipage_off (dirs ! i))"
    proof (cases i)
      case 0
      then show ?thesis
        using body len off bounds(2) c by (simp add: col mps dirs dir_from_spec_def Let_def)
    next
      case (Suc j)
      then show ?thesis using ih i by (simp add: mps dirs)
    qed
  qed
qed


section \<open>The var-heap\<close>

definition is_var :: "column_spec \<times> staging \<Rightarrow> bool" where
  "is_var col \<longleftrightarrow> fixed_width (cs_kind (fst col)) = 0
     \<and> (case snd col of Var _ _ \<Rightarrow> True | Fixed _ _ \<Rightarrow> False)"

lemma is_var_iff:
  "is_var col \<longleftrightarrow> fixed_width (cs_kind (fst col)) = 0 \<and> (\<exists>slots heap. snd col = Var slots heap)"
  by (auto simp: is_var_def split: staging.splits)

definition col_heap :: "column_spec \<times> staging \<Rightarrow> bytes" where
  "col_heap col = (if is_var col then (case snd col of Var slots heap \<Rightarrow> heap | _ \<Rightarrow> []) else [])"

definition heap_base :: "(column_spec \<times> staging) list \<Rightarrow> nat \<Rightarrow> nat" where
  "heap_base cols i = length (concat (map col_heap (take i cols)))"

lemma heap_base_Cons: "heap_base (c # cols) (Suc i) = length (col_heap c) + heap_base cols i"
  by (simp add: heap_base_def)

lemma merge_heaps_bytes: "fst (merge_heaps i acc cols) = acc @ concat (map col_heap cols)"
  by (induction i acc cols rule: merge_heaps.induct)
    (auto simp: col_heap_def is_var_iff Let_def split: staging.splits prod.splits)

lemma length_apply_rebases [simp]: "length (apply_rebases rs mps) = length mps"
  by (induction rs mps rule: apply_rebases.induct) simp_all

lemma apply_merge_heaps:
  "apply_rebases (snd (merge_heaps k acc cols)) mps ! j =
     (if k \<le> j \<and> j < k + length cols \<and> j < length mps \<and> is_var (cols ! (j - k))
      then rebase_slots (of_nat (length acc + heap_base cols (j - k))) (mps ! j) else mps ! j)"
proof (induction k acc cols arbitrary: mps rule: merge_heaps.induct)
  case (1 k acc)
  have none: "\<not> (k \<le> j \<and> j < k + length ([] :: (column_spec \<times> staging) list))" by simp
  show ?case using none by (simp only: merge_heaps.simps snd_conv apply_rebases.simps) auto
next
  case (2 k acc spec st cols)
  have shift: "Suc k \<le> j \<Longrightarrow> (x # cols) ! (j - k) = cols ! (j - Suc k)
      \<and> heap_base (x # cols) (j - k) = length (col_heap x) + heap_base cols (j - Suc k)" for x
  proof -
    assume "Suc k \<le> j"
    then have "j - k = Suc (j - Suc k)" by simp
    then show ?thesis by (simp only: nth_Cons_Suc heap_base_Cons simp_thms)
  qed
  have here: "heap_base cs 0 = 0" for cs by (simp add: heap_base_def)
  show ?case
  proof (cases "is_var (spec, st)")
    case True
    then obtain slots heap where st: "st = Var slots heap" "\<not> 0 < fixed_width (cs_kind spec)"
      by (auto simp: is_var_iff)
    have m: "snd (merge_heaps k acc ((spec, st) # cols))
        = (k, of_nat (length acc)) # snd (merge_heaps (Suc k) (acc @ heap) cols)"
      using st by (simp add: Let_def split: prod.splits)
    have ih: "apply_rebases (snd (merge_heaps (Suc k) (acc @ heap) cols)) ms ! j =
       (if Suc k \<le> j \<and> j < Suc k + length cols \<and> j < length ms \<and> is_var (cols ! (j - Suc k))
        then rebase_slots (of_nat (length (acc @ heap) + heap_base cols (j - Suc k))) (ms ! j) else ms ! j)" for ms
      using "2.IH"(3) [OF st(2) st(1)] by simp
    have h: "col_heap (spec, st) = heap" using True st(1) by (simp add: col_heap_def)
    consider "j = k" | "j < k" | "Suc k \<le> j" by linarith
    then show ?thesis
    proof cases
      case 1
      then show ?thesis
        using True unfolding m apply_rebases.simps ih [unfolded 1] by (simp add: 1 ih [unfolded 1] here not_less list_update_beyond)
    next
      case 2
      then show ?thesis unfolding m by (simp add: ih)
    next
      case 3
      then show ?thesis using shift [OF 3, of "(spec, st)"] unfolding m by (auto simp: ih h add.assoc)
    qed
  next
    case False
    have h: "col_heap (spec, st) = []" using False by (simp add: col_heap_def)
    have m: "snd (merge_heaps k acc ((spec, st) # cols)) = snd (merge_heaps (Suc k) acc cols)"
      using False by (auto simp: is_var_iff split: staging.splits)
    have ih: "apply_rebases (snd (merge_heaps (Suc k) acc cols)) mps ! j =
       (if Suc k \<le> j \<and> j < Suc k + length cols \<and> j < length mps \<and> is_var (cols ! (j - Suc k))
        then rebase_slots (of_nat (length acc + heap_base cols (j - Suc k))) (mps ! j) else mps ! j)"
      using "2.IH"(1,2) False by (cases "0 < fixed_width (cs_kind spec)"; cases st) (auto simp: is_var_iff)
    consider "j = k" | "j < k" | "Suc k \<le> j" by linarith
    then show ?thesis
    proof cases
      case 1
      then show ?thesis using False unfolding m ih by simp
    next
      case 2
      then show ?thesis unfolding m ih by simp
    next
      case 3
      then show ?thesis using shift [OF 3, of "(spec, st)"] unfolding m ih h by auto
    qed
  qed
qed

text \<open>Rebasing changes the offset of every slot that is not null and keeps the length.\<close>

definition slot_bytes :: "u32 \<times> u32 \<Rightarrow> bytes" where
  "slot_bytes s = le_bytes 4 (fst s) @ le_bytes 4 (snd s)"

definition rebased :: "u32 \<Rightarrow> u32 \<times> u32 \<Rightarrow> u32 \<times> u32" where
  "rebased base s = (if snd s = - 1 then s else (fst s + base, snd s))"

lemma length_slot_bytes [simp]: "length (slot_bytes s) = 8"
  by (simp add: slot_bytes_def)

lemma length_rebase_slots [simp]: "length (rebase_slots base mp) = length mp"
  by (induction base mp rule: rebase_slots.induct) (subst rebase_slots.simps, simp add: Let_def)

lemma rebase_slots_concat:
  "rebase_slots base (concat (map slot_bytes slots)) = concat (map (slot_bytes \<circ> rebased base) slots)"
proof (induction slots)
  case Nil
  show ?case by (subst rebase_slots.simps) simp
next
  case (Cons s slots)
  have "take 4 (slot_bytes s @ r) = le_bytes 4 (fst s)" "slice (slot_bytes s @ r) 4 8 = le_bytes 4 (snd s)"
    "drop 8 (slot_bytes s @ r) = r" for r
    by (simp_all add: slot_bytes_def slice_def)
  moreover have "slot_bytes (rebased base s)
      = (if snd s = - 1 then le_bytes 4 (fst s) else le_bytes 4 (fst s + base)) @ le_bytes 4 (snd s)"
    by (simp add: rebased_def slot_bytes_def)
  ultimately show ?case
    using Cons.IH by (subst rebase_slots.simps) (simp add: Let_def comp_def)
qed

lemma read_slot:
  assumes "r < length slots" "mp = concat (map slot_bytes slots)"
  shows "from_le (slice mp (r * 8) (r * 8 + 4)) = fst (slots ! r)"
    "from_le (slice mp (r * 8 + 4) (r * 8 + 8)) = snd (slots ! r)"
proof -
  have chunk: "slice mp (r * 8) (r * 8 + 8) = slot_bytes (slots ! r)"
    using slice_chunk [of "map slot_bytes slots" 8 r] assms by simp
  have "slice mp (r * 8) (r * 8 + 4) = slice (slot_bytes (slots ! r)) 0 4"
    "slice mp (r * 8 + 4) (r * 8 + 8) = slice (slot_bytes (slots ! r)) 4 8"
    unfolding chunk [symmetric] by (simp_all add: slice_slice)
  then show "from_le (slice mp (r * 8) (r * 8 + 4)) = fst (slots ! r)"
    "from_le (slice mp (r * 8 + 4) (r * 8 + 8)) = snd (slots ! r)"
    by (simp_all add: slot_bytes_def slice_def)
qed


section \<open>The finished block\<close>

abbreviation block_cols :: "pax_builder \<Rightarrow> (column_spec \<times> staging) list" where
  "block_cols b \<equiv> zip (pb_specs b) (pb_staging b)"

text \<open>Where the minipages end, before any truncation to 32 bits.\<close>

definition layout_end :: "pax_builder \<Rightarrow> nat" where
  "layout_end b = (let start = minipages_offset_after_directory (length (pb_specs b))
     in case layout_columns (pb_row_count b) start (block_cols b) of
          Ok (mps, dirs, fin) \<Rightarrow> fin | _ \<Rightarrow> start)"

definition block_heap :: "pax_builder \<Rightarrow> bytes" where
  "block_heap b = concat (map col_heap (block_cols b))"

definition heap_offset :: "pax_builder \<Rightarrow> nat" where
  "heap_offset b = align_up (layout_end b) 8"

definition stored_minipage :: "pax_builder \<Rightarrow> nat \<Rightarrow> bytes \<Rightarrow> bytes" where
  "stored_minipage b i mp = (if is_var (block_cols b ! i)
     then rebase_slots (of_nat (heap_base (block_cols b) i)) mp else mp)"

definition bitmap_bytes :: "pax_builder \<Rightarrow> nat" where
  "bitmap_bytes b = (unat (pb_row_count b) + 7) div 8"

definition bytes_needed :: "pax_builder \<Rightarrow> nat" where
  "bytes_needed b = heap_offset b + length (block_heap b)
     + length (pb_specs b) * bitmap_bytes b + bitmap_bytes b"

definition stored_header :: "pax_builder \<Rightarrow> block_header" where
  "stored_header b = finalize_header b (of_nat (64 + 64 * length (pb_specs b))) (of_nat (heap_offset b))
     (length (block_heap b)) (length (pb_specs b) * bitmap_bytes b) (bitmap_bytes b)"

lemma dir_writes_regions:
  assumes "\<forall>d \<in> set dirs. length (cd_pad d) = 24"
  shows "regions (64 + k * 64) (map (\<lambda>(i, dir). (block_header_size + i * column_directory_size,
     column_directory_bytes dir)) (enumerate k dirs)) (64 + (k + length dirs) * 64)"
  using assms
proof (induction dirs arbitrary: k)
  case (Cons d dirs)
  then show ?case
    using Cons.IH [of "Suc k"]
    by (simp add: block_header_size_def column_directory_size_def len_simps algebra_simps)
qed simp

lemma minipage_writes_cong:
  assumes "list_all2 (\<lambda>x y. length x = length y) mps mps'" "regions k (minipage_writes dirs mps) n"
  shows "regions k (minipage_writes dirs mps') n"
  using assms
proof (induction mps mps' arbitrary: dirs k rule: list_all2_induct)
  case (Cons x xs y ys)
  then show ?case by (cases dirs) (auto simp: minipage_writes_def)
qed simp

lemma list_all2_nthI:
  "length xs = length ys \<Longrightarrow> (\<And>i. i < length xs \<Longrightarrow> P (xs ! i) (ys ! i)) \<Longrightarrow> list_all2 P xs ys"
  by (rule list_all2_all_nthI)

lemma length_stored_minipage [simp]: "length (stored_minipage b i mp) = length mp"
  by (simp add: stored_minipage_def)

lemma layout_facts:
  assumes "layout_columns (pb_row_count b) (64 + 64 * length (pb_specs b)) (block_cols b) = Ok (mps, dirs, fin)"
    "fin < 2 ^ 32" "length (pb_staging b) = length (pb_specs b)"
    "mps' = apply_rebases (snd (merge_heaps 0 [] (block_cols b))) mps"
  shows "\<forall>i<length (pb_specs b). mps' ! i = stored_minipage b i (mps ! i)"
    "length mps' = length (pb_specs b)" "length dirs = length (pb_specs b)"
    "regions 64 (dir_writes dirs @ minipage_writes dirs mps') fin"
proof -
  note ls = layout_columns_spec [OF assms(1,2)]
  show each: "\<forall>i<length (pb_specs b). mps' ! i = stored_minipage b i (mps ! i)"
    using ls assms(3) by (simp add: assms(4) apply_merge_heaps stored_minipage_def)
  show len: "length mps' = length (pb_specs b)" "length dirs = length (pb_specs b)"
    using ls assms(3) by (simp_all add: assms(4))
  have "\<forall>d \<in> set dirs. length (cd_pad d) = 24"
    using ls by (auto simp: in_set_conv_nth)
  then have "regions 64 (dir_writes dirs) (64 + 64 * length (pb_specs b))"
    using dir_writes_regions [of dirs 0] len(2) by (simp add: dir_writes_def mult.commute)
  moreover have "regions (64 + 64 * length (pb_specs b)) (minipage_writes dirs mps') fin"
    using ls len assms(3) each by (intro minipage_writes_cong [of mps mps'] list_all2_nthI) auto
  ultimately show "regions 64 (dir_writes dirs @ minipage_writes dirs mps') fin"
    unfolding regions_append by blast
qed

lemma finalize_layout:
  assumes "layout_end b + 7 < 2 ^ 32" "length (pb_staging b) = length (pb_specs b)"
    "layout_columns (pb_row_count b) (64 + 64 * length (pb_specs b)) (block_cols b) = Ok (mps, dirs, fin)"
    "mps' = apply_rebases (snd (merge_heaps 0 [] (block_cols b))) mps"
  shows "fin = layout_end b" "unat (of_nat (heap_offset b) :: u32) = heap_offset b"
    "finalize b = (if bytes_needed b > unat (pb_block_size b)
       then Err (constraint (''PaxBlockBuilder: block overflow '' @ map char_of [0xE2, 0x80, 0x94 :: nat]
              @ '' need '' @ show_nat (bytes_needed b) @ '' bytes, block size is ''
              @ show_nat (unat (pb_block_size b))))
       else and_then (write_all ((0, block_header_bytes (stored_header b)) # dir_writes dirs
           @ minipage_writes dirs mps' @ [(heap_offset b, block_heap b)])
           (replicate (unat (pb_block_size b)) 0))
         (\<lambda>buf. Ok \<lparr>px_buf = buf, px_block_size = pb_block_size b\<rparr>))"
proof -
  let ?n = "length (pb_specs b)"
  show fin: "fin = layout_end b"
    using assms(3) by (simp add: layout_end_def minipages_offset_eq)
  have "64 + 64 * ?n \<le> fin"
    using layout_columns_spec [OF assms(3)] regions_le fin assms(1) by force
  then have start: "unat (of_nat (64 + 64 * ?n) :: u32) = 64 + 64 * ?n"
    using fin assms(1) by (intro unat_of_nat_small) simp
  have "heap_offset b < layout_end b + 8" unfolding heap_offset_def by (rule align_up_bounds)
  then show off: "unat (of_nat (heap_offset b) :: u32) = heap_offset b"
    using assms(1) by (intro unat_of_nat_small) simp
  obtain heap rb where m: "merge_heaps 0 [] (block_cols b) = (heap, rb)" by (cases "merge_heaps 0 [] (block_cols b)")
  have heap: "heap = block_heap b" and rb: "apply_rebases rb mps = mps'"
    using merge_heaps_bytes [of 0 "[]" "block_cols b"] assms(4) by (simp_all add: m block_heap_def)
  have ho: "align_up fin 8 = heap_offset b" by (simp add: heap_offset_def fin)
  have body: "finalize b = (let bitmap = (unat (pb_row_count b) + 7) div 8; null_bitmap_size = ?n * bitmap;
       total_needed = heap_offset b + length heap + null_bitmap_size + bitmap
     in if total_needed > unat (pb_block_size b)
        then Err (constraint (''PaxBlockBuilder: block overflow '' @ map char_of [0xE2, 0x80, 0x94 :: nat]
              @ '' need '' @ show_nat total_needed @ '' bytes, block size is ''
              @ show_nat (unat (pb_block_size b))))
        else and_then (aligned_zeroed (unat (pb_block_size b))) (\<lambda>buf.
          let hdr = finalize_header b (of_nat (64 + 64 * ?n)) (of_nat (heap_offset b)) (length heap)
                null_bitmap_size bitmap
          in and_then (write_all ((0, block_header_bytes hdr) # dir_writes dirs
               @ minipage_writes dirs mps' @ [(heap_offset b, heap)]) buf)
               (\<lambda>buf. Ok \<lparr>px_buf = buf, px_block_size = pb_block_size b\<rparr>)))"
    unfolding finalize_def Let_def minipages_offset_eq start assms(3)
    by (simp only: and_then.simps prod.case m rb ho off)
  show "finalize b = (if bytes_needed b > unat (pb_block_size b)
       then Err (constraint (''PaxBlockBuilder: block overflow '' @ map char_of [0xE2, 0x80, 0x94 :: nat]
              @ '' need '' @ show_nat (bytes_needed b) @ '' bytes, block size is ''
              @ show_nat (unat (pb_block_size b))))
       else and_then (write_all ((0, block_header_bytes (stored_header b)) # dir_writes dirs
           @ minipage_writes dirs mps' @ [(heap_offset b, block_heap b)])
           (replicate (unat (pb_block_size b)) 0))
         (\<lambda>buf. Ok \<lparr>px_buf = buf, px_block_size = pb_block_size b\<rparr>))"
  proof (cases "bytes_needed b > unat (pb_block_size b)")
    case True
    then show ?thesis unfolding body by (simp add: bytes_needed_def bitmap_bytes_def heap Let_def)
  next
    case False
    then have "unat (pb_block_size b) \<noteq> 0"
      using \<open>64 + 64 * ?n \<le> fin\<close> align_up_bounds(4) [of fin] by (simp add: bytes_needed_def ho)
    then show ?thesis
      using False unfolding body
      by (simp add: bytes_needed_def bitmap_bytes_def heap Let_def stored_header_def aligned_zeroed_def)
  qed
qed


lemma layout_start:
  assumes "layout_end b + 7 < 2 ^ 32"
  shows "64 + 64 * length (pb_specs b) \<le> layout_end b"
proof (cases "layout_columns (pb_row_count b) (64 + 64 * length (pb_specs b)) (block_cols b)")
  case (Ok r)
  obtain mps dirs fin where r: "r = (mps, dirs, fin)" by (cases r)
  have "fin = layout_end b" using Ok r by (simp add: layout_end_def minipages_offset_eq)
  then show ?thesis
    using layout_columns_spec [OF Ok [unfolded r]] regions_le assms by force
qed (simp_all add: layout_end_def minipages_offset_eq)

lemma finalize_ok:
  assumes "finalize b = Ok blk" "layout_end b + 7 < 2 ^ 32" "length (pb_staging b) = length (pb_specs b)"
  obtains mps dirs where
    "layout_columns (pb_row_count b) (64 + 64 * length (pb_specs b)) (block_cols b) = Ok (mps, dirs, layout_end b)"
    "regions 64 (dir_writes dirs @ minipage_writes dirs (map (\<lambda>i. stored_minipage b i (mps ! i)) [0..<length (pb_specs b)])) (layout_end b)"
    "bytes_needed b \<le> unat (pb_block_size b)" "length (px_buf blk) = unat (pb_block_size b)"
    "px_header blk = stored_header b"
    "\<And>i. i < length (pb_specs b) \<Longrightarrow> px_directory blk i = Ok (dirs ! i)"
    "\<And>i. i < length (pb_specs b) \<Longrightarrow> px_minipage_bytes blk i = Ok (stored_minipage b i (mps ! i))"
    "slice (px_buf blk) (heap_offset b) (heap_offset b + length (block_heap b)) = block_heap b"
proof -
  let ?n = "length (pb_specs b)"
  have start: "unat (of_nat (64 + 64 * ?n) :: u32) = 64 + 64 * ?n"
    using layout_start [OF assms(2)] assms(2) by (intro unat_of_nat_small) simp
  obtain mps dirs fin where lay: "layout_columns (pb_row_count b) (64 + 64 * ?n) (block_cols b) = Ok (mps, dirs, fin)"
    using assms(1) unfolding finalize_def Let_def minipages_offset_eq start by auto
  let ?mps' = "apply_rebases (snd (merge_heaps 0 [] (block_cols b))) mps"
  note fl = finalize_layout [OF assms(2,3) lay refl]
  have small: "fin < 2 ^ 32" using fl(1) assms(2) by simp
  note lf = layout_facts [OF lay small assms(3) refl]
  note ls = layout_columns_spec [OF lay small]
  have mps': "?mps' = map (\<lambda>i. stored_minipage b i (mps ! i)) [0..<?n]"
    using lf(1,2) by (intro nth_equalityI) simp_all
  have fits: "bytes_needed b \<le> unat (pb_block_size b)"
    using assms(1) unfolding fl(3) by (simp split: if_splits)
  have ho: "layout_end b \<le> heap_offset b" unfolding heap_offset_def by (rule align_up_bounds)
  let ?ws = "(0, block_header_bytes (stored_header b)) # dir_writes dirs @ minipage_writes dirs ?mps'
    @ [(heap_offset b, block_heap b)]"
  let ?buf = "replicate (unat (pb_block_size b)) (0 :: u8)"
  have "heap_offset b + length (block_heap b) \<le> unat (pb_block_size b)"
    using fits by (simp add: bytes_needed_def)
  then have "regions (layout_end b) [(heap_offset b, block_heap b)] (length ?buf)" using ho by simp
  then have "regions 64 ((dir_writes dirs @ minipage_writes dirs ?mps') @ [(heap_offset b, block_heap b)]) (length ?buf)"
    unfolding regions_append using lf(4) fl(1) regions_append by blast
  then have "regions 0 ?ws (length ?buf)" by simp
  from write_all_regions [OF this] obtain buf where buf: "write_all ?ws ?buf = Ok buf" "length buf = length ?buf"
    "\<forall>(off, bs) \<in> set ?ws. slice buf off (off + length bs) = bs" by blast
  have blk: "blk = \<lparr>px_buf = buf, px_block_size = pb_block_size b\<rparr>"
    using assms(1) fits unfolding fl(3) buf(1) by simp
  have read: "(off, bs) \<in> set ?ws \<Longrightarrow> slice buf off (off + length bs) = bs" for off bs
    using buf(3) by blast
  have len: "length (px_buf blk) = unat (pb_block_size b)" using buf(2) by (simp add: blk)
  have room: "64 + 64 * ?n \<le> unat (pb_block_size b)" "heap_offset b + length (block_heap b) \<le> unat (pb_block_size b)"
    using layout_start [OF assms(2)] ho fits by (simp_all add: bytes_needed_def)
  have hdr: "px_header blk = stored_header b"
    using read [of 0 "block_header_bytes (stored_header b)"] len room(1)
    by (simp add: px_header_def block_header_size_def blk block_header_roundtrip)
  have dir: "px_directory blk i = Ok (dirs ! i)" if i: "i < ?n" for i
  proof -
    have "length (cd_pad (dirs ! i)) = 24" using ls i assms(3) by auto
    note dl = length_column_directory_bytes [OF this] column_directory_roundtrip [OF this]
    have "(64 + i * 64, column_directory_bytes (dirs ! i)) \<in> set (dir_writes dirs)"
      using i lf(3) by (auto simp: dir_writes_def block_header_size_def column_directory_size_def
          in_set_enumerate_eq intro!: image_eqI [of _ _ "(i, dirs ! i)"])
    then have w: "(64 + i * 64, column_directory_bytes (dirs ! i)) \<in> set ?ws" by simp
    have "slice buf (64 + i * 64) (64 + i * 64 + 64) = column_directory_bytes (dirs ! i)"
      using read [OF w] unfolding dl(1) .
    moreover have "64 + i * 64 + 64 \<le> length buf" using i room(1) len by (simp add: blk)
    ultimately show ?thesis
      by (simp add: px_directory_def block_header_size_def column_directory_size_def blk dl(2))
  qed
  have page: "px_minipage_bytes blk i = Ok (stored_minipage b i (mps ! i))" if i: "i < ?n" for i
  proof -
    let ?off = "unat (cd_minipage_off (dirs ! i))"
    have "(?off, ?mps' ! i) \<in> set (minipage_writes dirs ?mps')"
      using i lf(2,3) by (auto simp: minipage_writes_def in_set_zip intro!: image_eqI [of _ _ "(dirs ! i, ?mps' ! i)"])
    then have w: "(?off, ?mps' ! i) \<in> set ?ws" by simp
    have "unat (cd_compressed_len (dirs ! i)) = length (?mps' ! i)"
      using ls i assms(3) lf(1) by auto
    then show ?thesis
      using read [OF w] write_all_in_bounds [OF buf(1) w] buf(2) dir [OF i] lf(1) i
      by (simp add: px_minipage_bytes_def Let_def blk)
  qed
  have "(heap_offset b, block_heap b) \<in> set ?ws" by simp
  from read [OF this] have heap: "slice (px_buf blk) (heap_offset b) (heap_offset b + length (block_heap b)) = block_heap b"
    by (simp add: blk)
  show ?thesis
    using that [of mps dirs] lay lf(4) fits len hdr dir page heap by (simp add: fl(1) mps')
qed

end
