(* ===== verification/PaxBlocks.thy ===== *)
theory PaxBlocks
  imports PaxLayout
begin

text \<open>
  Correctness of PAX blocks: what the staged columns hold after a sequence of rows, that the
  block built from them reads every row back, that the zone maps never exclude a stored row,
  and what a failed append leaves behind.
\<close>

section \<open>Rows and columns\<close>

fun append_rows :: "text_format \<Rightarrow> cen_value list list \<Rightarrow> pax_builder \<Rightarrow> unit cen_result \<times> pax_builder" where
  "append_rows fmt [] b = (Ok (), b)"
| "append_rows fmt (r # rs) b =
     (case append_row fmt r b of
        (Ok _, b) \<Rightarrow> append_rows fmt rs b
      | (Err e, b) \<Rightarrow> (Err e, b)
      | (Panic, b) \<Rightarrow> (Panic, b))"

fun stage_all :: "text_format \<Rightarrow> value_kind \<Rightarrow> cen_value list \<Rightarrow> staging \<Rightarrow> staging cen_result" where
  "stage_all fmt k [] st = Ok st"
| "stage_all fmt k (v # vs) st = and_then (stage_value fmt k v st) (stage_all fmt k vs)"

lemma track_zones_fields [simp]:
  "pb_block_size (track_zones s v b) = pb_block_size b"
  "pb_specs (track_zones s v b) = pb_specs b" "pb_staging (track_zones s v b) = pb_staging b"
  "pb_row_count (track_zones s v b) = pb_row_count b"
  by (cases v; simp add: track_zones_def Let_def extend_pk_def extend_ts_def)+

lemma write_value_ok:
  assumes "write_value fmt b i v = (Ok (), b')"
  shows "i < length (pb_staging b) \<and> pb_specs b' = pb_specs b \<and> pb_block_size b' = pb_block_size b
    \<and> pb_row_count b' = pb_row_count b
    \<and> (\<exists>st. stage_value fmt (cs_kind (pb_specs b ! i)) v (pb_staging b ! i) = Ok st
          \<and> pb_staging b' = (pb_staging b)[i := st])
    \<and> pb_pk_range b' = pb_pk_range (track_zones (pb_specs b ! i) v b)
    \<and> pb_ts_range b' = pb_ts_range (track_zones (pb_specs b ! i) v b)"
  using assms
  by (auto simp: write_value_def Let_def split: if_splits outcome.splits)

lemma write_row_ok:
  assumes "write_row fmt i vs b = (Ok (), b')"
  shows "pb_specs b' = pb_specs b \<and> pb_block_size b' = pb_block_size b \<and> pb_row_count b' = pb_row_count b
    \<and> length (pb_staging b') = length (pb_staging b)
    \<and> (\<forall>j<length (pb_staging b). if i \<le> j \<and> j < i + length vs
         then stage_value fmt (cs_kind (pb_specs b ! j)) (vs ! (j - i)) (pb_staging b ! j) = Ok (pb_staging b' ! j)
         else pb_staging b' ! j = pb_staging b ! j)"
  using assms
proof (induction vs arbitrary: i b)
  case (Cons v vs)
  obtain b1 where b1: "write_value fmt b i v = (Ok (), b1)" "write_row fmt (Suc i) vs b1 = (Ok (), b')"
    using Cons.prems by (auto split: prod.splits outcome.splits)
  note wv = write_value_ok [OF b1(1)] and ih = Cons.IH [OF b1(2)]
  obtain st where st: "stage_value fmt (cs_kind (pb_specs b ! i)) v (pb_staging b ! i) = Ok st"
    "pb_staging b1 = (pb_staging b)[i := st]"
    using wv by blast
  show ?case
  proof (intro conjI allI impI)
    fix j assume j: "j < length (pb_staging b)"
    have "j < length (pb_staging b1)" using j st(2) by simp
    note ihj = ih [THEN conjunct2, THEN conjunct2, THEN conjunct2, THEN conjunct2, THEN spec, THEN mp, OF this]
    consider "j < i" | "j = i" | "Suc i \<le> j" by linarith
    then show "if i \<le> j \<and> j < i + length (v # vs)
         then stage_value fmt (cs_kind (pb_specs b ! j)) ((v # vs) ! (j - i)) (pb_staging b ! j) = Ok (pb_staging b' ! j)
         else pb_staging b' ! j = pb_staging b ! j"
    proof cases
      case 1
      then show ?thesis using ihj st(2) by simp
    next
      case 2
      then show ?thesis using ihj st j by simp
    next
      case 3
      then have "j - i = Suc (j - Suc i)" by simp
      moreover have "pb_specs b1 = pb_specs b" "pb_staging b1 ! j = pb_staging b ! j"
        using wv 3 st(2) by simp_all
      ultimately show ?thesis using 3 ihj by (simp split: if_splits)
    qed
  qed (use wv ih st in simp_all)
qed auto

lemma append_row_ok:
  assumes "append_row fmt r b = (Ok rid, b')" "length (pb_staging b) = length (pb_specs b)"
  shows "length r = length (pb_specs b) \<and> pb_specs b' = pb_specs b \<and> pb_block_size b' = pb_block_size b
    \<and> pb_row_count b' = pb_row_count b + 1 \<and> length (pb_staging b') = length (pb_specs b)
    \<and> (\<forall>j<length (pb_specs b).
         stage_value fmt (cs_kind (pb_specs b ! j)) (r ! j) (pb_staging b ! j) = Ok (pb_staging b' ! j))"
proof -
  obtain b1 where len: "length r = length (pb_specs b)" and b1: "write_row fmt 0 r b = (Ok (), b1)"
    and b': "b' = b1\<lparr>pb_row_count := pb_row_count b1 + 1\<rparr>"
    using assms(1) by (auto simp: append_row_def Let_def split: if_splits prod.splits outcome.splits)
  show ?thesis using write_row_ok [OF b1] assms(2) len by (auto simp: b')
qed

lemma append_rows_ok:
  assumes "append_rows fmt rows b = (Ok (), b')" "length (pb_staging b) = length (pb_specs b)"
  shows "(\<forall>r \<in> set rows. length r = length (pb_specs b)) \<and> pb_specs b' = pb_specs b
    \<and> pb_block_size b' = pb_block_size b \<and> length (pb_staging b') = length (pb_specs b)
    \<and> pb_row_count b' = pb_row_count b + of_nat (length rows)
    \<and> (\<forall>j<length (pb_specs b). stage_all fmt (cs_kind (pb_specs b ! j)) (map (\<lambda>r. r ! j) rows) (pb_staging b ! j)
         = Ok (pb_staging b' ! j))"
  using assms
proof (induction rows arbitrary: b)
  case (Cons r rows)
  obtain rid b1 where b1: "append_row fmt r b = (Ok rid, b1)" "append_rows fmt rows b1 = (Ok (), b')"
    using Cons.prems(1) by (auto split: prod.splits outcome.splits)
  note ar = append_row_ok [OF b1(1) Cons.prems(2)]
  have "length (pb_staging b1) = length (pb_specs b1)" using ar by simp
  note ih = Cons.IH [OF b1(2) this]
  show ?case using ar ih by (auto simp: add.assoc)
qed simp

section \<open>What a column holds\<close>

definition fixed_cell :: "value_kind \<Rightarrow> cen_value \<Rightarrow> i64" where
  "fixed_cell k v = (if v = VNull then 0 else case encode_fixed k v of Some x \<Rightarrow> x | None \<Rightarrow> 0)"

definition var_bytes :: "text_format \<Rightarrow> cen_value \<Rightarrow> bytes option" where
  "var_bytes fmt v = (case v of VNull \<Rightarrow> None | VBytes b \<Rightarrow> Some b
     | _ \<Rightarrow> Some (map of_char (value_to_string fmt v)))"

definition heap_of :: "bytes option list \<Rightarrow> bytes" where
  "heap_of xs = concat (map (\<lambda>x. case x of Some b \<Rightarrow> b | None \<Rightarrow> []) xs)"

fun var_slots :: "nat \<Rightarrow> bytes option list \<Rightarrow> (u32 \<times> u32) list" where
  "var_slots n [] = []"
| "var_slots n (None # xs) = (0, - 1) # var_slots n xs"
| "var_slots n (Some b # xs) = (of_nat n, of_nat (length b)) # var_slots (n + length b) xs"

lemma heap_of_simps [simp]:
  "heap_of [] = []" "heap_of (None # xs) = heap_of xs" "heap_of (Some b # xs) = b @ heap_of xs"
  by (simp_all add: heap_of_def)

lemma length_var_slots [simp]: "length (var_slots n xs) = length xs"
  by (induction n xs rule: var_slots.induct) simp_all

lemma stage_all_fixed:
  "stage_all fmt k vs (Fixed sk vals) = Ok st \<Longrightarrow> st = Fixed sk (vals @ map (fixed_cell k) vs)"
proof (induction vs arbitrary: vals)
  case (Cons v vs)
  have "stage_value fmt k v (Fixed sk vals) = Ok (Fixed sk (vals @ [fixed_cell k v]))"
    using Cons.prems by (auto simp: fixed_cell_def split: if_splits option.splits)
  then have "stage_all fmt k vs (Fixed sk (vals @ [fixed_cell k v])) = Ok st"
    using Cons.prems by (simp del: stage_value.simps)
  from Cons.IH [OF this] show ?case by simp
qed simp

lemma stage_value_var:
  "stage_value fmt k v (Var slots heap) = Ok (case var_bytes fmt v of
       None \<Rightarrow> Var (slots @ [(0, - 1)]) heap | Some b \<Rightarrow> push_var b slots heap)"
  by (cases v) (simp_all add: var_bytes_def)

lemma stage_all_var:
  "stage_all fmt k vs (Var slots heap) = Ok (Var (slots @ var_slots (length heap) (map (var_bytes fmt) vs))
     (heap @ heap_of (map (var_bytes fmt) vs)))"
proof (induction vs arbitrary: slots heap)
  case (Cons v vs)
  show ?case
    by (cases "var_bytes fmt v")
      (simp_all add: stage_value_var push_var_def Cons.IH del: stage_value.simps)
qed simp

lemma var_slots_nth:
  assumes "r < length xs"
  shows "var_slots n xs ! r = (case xs ! r of None \<Rightarrow> (0, - 1)
     | Some b \<Rightarrow> (of_nat (n + length (heap_of (take r xs))), of_nat (length b)))"
  using assms
proof (induction n xs arbitrary: r rule: var_slots.induct)
  case (2 n xs)
  then show ?case by (cases r) (simp_all cong: option.case_cong)
next
  case (3 n b xs)
  then show ?case by (cases r) (simp_all add: add.assoc cong: option.case_cong)
qed simp

lemma heap_of_slice:
  assumes "r < length xs" "xs ! r = Some b"
  shows "slice (heap_of xs) (length (heap_of (take r xs))) (length (heap_of (take r xs)) + length b) = b"
    "length (heap_of (take r xs)) + length b \<le> length (heap_of xs)"
proof -
  have split: "xs = take r xs @ Some b # drop (Suc r) xs"
    using assms by (metis id_take_nth_drop)
  have app: "heap_of (us @ ws) = heap_of us @ heap_of ws" for us ws by (simp add: heap_of_def)
  have h: "heap_of xs = heap_of (take r xs) @ b @ heap_of (drop (Suc r) xs)"
    by (subst split) (simp add: app)
  show "slice (heap_of xs) (length (heap_of (take r xs))) (length (heap_of (take r xs)) + length b) = b"
    "length (heap_of (take r xs)) + length b \<le> length (heap_of xs)"
    unfolding h by (simp_all add: slice_append_eq)
qed


section \<open>Reading a stored cell\<close>

text \<open>What a cell reads back as: nulls of fixed columns become the zero of the kind, and values
  stored in a column of bytes become bytes.\<close>

definition stored_value :: "text_format \<Rightarrow> value_kind \<Rightarrow> cen_value \<Rightarrow> cen_value" where
  "stored_value fmt k v = (case k of
       KNull \<Rightarrow> VNull
     | KBool \<Rightarrow> VBool (v = VBool True)
     | KI64 \<Rightarrow> VI64 (fixed_cell k v)
     | KU64 \<Rightarrow> VU64 (fixed_cell k v)
     | KF64 \<Rightarrow> VF64 (fixed_cell k v)
     | KTimestamp \<Rightarrow> VTimestamp (fixed_cell k v)
     | KBytes \<Rightarrow> (case var_bytes fmt v of Some b \<Rightarrow> VBytes b | None \<Rightarrow> VNull))"

lemma stored_value_same: "kind v = k \<Longrightarrow> stored_value fmt k v = v"
  by (cases v) (auto simp: stored_value_def fixed_cell_def encode_fixed_def var_bytes_def)

text \<open>The columns the requested encodings store without loss.\<close>

definition lossless_spec :: "column_spec \<Rightarrow> i64 list \<Rightarrow> bool" where
  "lossless_spec spec vals \<longleftrightarrow> fixed_width (cs_kind spec) = 0 \<or> cs_encoding spec = Raw
     \<or> (cs_kind spec \<noteq> KBool \<and> supported (cs_encoding spec) vals)"

definition lossless :: "cen_value list list \<Rightarrow> pax_builder \<Rightarrow> bool" where
  "lossless rows b \<longleftrightarrow> (\<forall>i<length (pb_specs b).
     lossless_spec (pb_specs b ! i) (map (\<lambda>r. fixed_cell (cs_kind (pb_specs b ! i)) (r ! i)) rows))"

lemma pax_new_fields:
  assumes "pax_new bs specs = Ok b"
  shows "pb_block_size b = bs" "pb_specs b = specs" "pb_staging b = map staging_for specs"
    "pb_row_count b = 0" "pb_pk_range b = None" "pb_ts_range b = None"
  using assms by (auto simp: pax_new_def split: if_splits)

lemma built_staging:
  assumes "pax_new bs specs = Ok b0" "append_rows fmt rows b0 = (Ok (), b)" "i < length specs"
  shows "pb_staging b ! i = (let vs = map (\<lambda>r. r ! i) rows; k = cs_kind (specs ! i) in
    if fixed_width k = 0 then Var (var_slots 0 (map (var_bytes fmt) vs)) (heap_of (map (var_bytes fmt) vs))
    else Fixed k (map (fixed_cell k) vs))"
proof -
  note new = pax_new_fields [OF assms(1)]
  have "length (pb_staging b0) = length (pb_specs b0)" by (simp add: new)
  from append_rows_ok [OF assms(2) this]
  have "stage_all fmt (cs_kind (specs ! i)) (map (\<lambda>r. r ! i) rows) (staging_for (specs ! i)) = Ok (pb_staging b ! i)"
    using assms(3) by (simp add: new)
  then show ?thesis
    by (auto simp: staging_for_def stage_all_var Let_def dest: stage_all_fixed split: if_splits)
qed

lemma encode_minipage_raw: "encode_minipage Raw vals = Ok (concat (map (le_bytes 8) vals))"
  by (simp add: encode_minipage_def raw_codec_def raw_encode_def)

lemma view_raw:
  "view_as_slice (concat (map (le_bytes 8) vals)) = vals" for vals :: "i64 list"
proof (rule nth_equalityI)
  let ?b = "concat (map (le_bytes 8) vals)"
  have len: "length ?b = length vals * 8"
    using length_concat_chunks [of "map (le_bytes 8) vals" 8] by simp
  then show l: "length (view_as_slice ?b) = length vals" by (simp add: view_as_slice_def)
  fix i assume "i < length (view_as_slice ?b)"
  then have i: "i < length vals" by (simp add: l)
  have "slice ?b (i * 8) (i * 8 + 8) = le_bytes 8 (vals ! i)"
    using slice_chunk [of "map (le_bytes 8) vals" 8 i] i by simp
  then show "view_as_slice ?b ! i = vals ! i"
    using i len by (simp add: view_as_slice_def)
qed

text \<open>The column of a fixed kind is decoded from its minipage.\<close>

lemma column_decodes:
  assumes "column_body spec (Fixed k vals) = Ok (body, zmin, zmax, enc)"
    "cs_kind spec = k" "lossless_spec spec vals" "fixed_width k > 0" "length vals < 2 ^ 32"
  shows "decode_minipage (from_discriminant (discriminant enc)) body (length vals) = Ok vals
    \<and> (k = KBool \<longrightarrow> enc = Raw \<and> body = concat (map (le_bytes 8) vals))"
proof -
  have enc: "enc = column_encoding spec k vals" and body: "encode_minipage enc vals = Ok body"
    using assms(1) by (cases "value_range vals"; auto simp: Let_def)+
  have sup: "supported enc vals"
  proof (cases "cs_encoding spec = Raw \<and> k \<in> {KI64, KU64, KTimestamp}")
    case True
    then show ?thesis
      unfolding enc column_encoding_def using auto_select_supported [OF assms(5)] by simp
  next
    case False
    then have "enc = cs_encoding spec" unfolding enc column_encoding_def by (rule if_not_P)
    then show ?thesis using assms(2-4) by (auto simp: lossless_spec_def)
  qed
  obtain tag bd where c: "codec_encode (codec_for enc) vals = Ok (tag # bd)"
    "\<And>t. codec_decode (codec_for enc) (t # bd) (length vals) = Ok vals"
    using codec_for_encodes [OF sup] by blast
  have "decode_minipage (from_discriminant (discriminant enc)) body (length vals) = Ok vals"
    using body c by (simp add: encode_minipage_def decode_minipage_def stored_tag_selects_codec)
  moreover have "enc = Raw" if "k = KBool"
    using that assms(2-4) by (auto simp: enc column_encoding_def lossless_spec_def)
  ultimately show ?thesis using body encode_minipage_raw by auto
qed


lemma fixed_cell_bool: "fixed_cell KBool v \<noteq> 0 \<longleftrightarrow> v = VBool True"
  by (cases v) (auto simp: fixed_cell_def encode_fixed_def)

text \<open>A block built without an error, with the facts all its readers share.\<close>

definition built :: "text_format \<Rightarrow> u32 \<Rightarrow> column_spec list \<Rightarrow> cen_value list list \<Rightarrow> pax_builder
    \<Rightarrow> pax_block \<Rightarrow> bool" where
  "built fmt bs specs rows b blk \<longleftrightarrow> (\<exists>b0. pax_new bs specs = Ok b0 \<and> append_rows fmt rows b0 = (Ok (), b))
     \<and> finalize b = Ok blk \<and> length rows < 2 ^ 32 \<and> layout_end b + 7 < 2 ^ 32"

lemma built_fields:
  assumes "built fmt bs specs rows b blk"
  shows "pb_specs b = specs" "length (pb_staging b) = length specs" "finalize b = Ok blk"
    "unat (pb_row_count b) = length rows" "layout_end b + 7 < 2 ^ 32" "pb_block_size b = bs"
    "\<forall>r \<in> set rows. length r = length specs" "unat (of_nat (length specs) :: u32) = length specs"
proof -
  obtain b0 where b0: "pax_new bs specs = Ok b0" "append_rows fmt rows b0 = (Ok (), b)"
    and fin: "finalize b = Ok blk" "length rows < 2 ^ 32" "layout_end b + 7 < 2 ^ 32"
    using assms unfolding built_def by blast
  note new = pax_new_fields [OF b0(1)]
  have "length (pb_staging b0) = length (pb_specs b0)" by (simp add: new)
  note ar = append_rows_ok [OF b0(2) this]
  show sp: "pb_specs b = specs" and "length (pb_staging b) = length specs" "finalize b = Ok blk"
    "layout_end b + 7 < 2 ^ 32" "\<forall>r \<in> set rows. length r = length specs" "pb_block_size b = bs"
    using ar fin by (simp_all add: new)
  show "unat (pb_row_count b) = length rows" using ar fin(2) by (simp add: new unat_of_nat_small)
  have "64 + 64 * length specs < 2 ^ 32" using layout_start [OF fin(3)] fin(3) unfolding sp by linarith
  then show "unat (of_nat (length specs) :: u32) = length specs" by (intro unat_of_nat_small) simp
qed

lemma header_of_block:
  "bh_row_count (stored_header b) = pb_row_count b"
  "bh_column_count (stored_header b) = of_nat (length (pb_specs b))"
  "bh_varheap_off (stored_header b) = of_nat (heap_offset b)"
  "bh_min_pk (stored_header b) = (case pb_pk_range b of Some (lo, hi) \<Rightarrow> lo | None \<Rightarrow> I64_MAX)"
  "bh_max_pk (stored_header b) = (case pb_pk_range b of Some (lo, hi) \<Rightarrow> hi | None \<Rightarrow> I64_MIN)"
  "bh_min_ts (stored_header b) = (case pb_ts_range b of Some (lo, hi) \<Rightarrow> lo | None \<Rightarrow> I64_MAX)"
  "bh_max_ts (stored_header b) = (case pb_ts_range b of Some (lo, hi) \<Rightarrow> hi | None \<Rightarrow> I64_MIN)"
  by (auto simp: stored_header_def finalize_header_def block_header_empty_def Let_def
      split: option.splits prod.splits)

lemma read_fixed_cell:
  assumes b: "built fmt bs specs rows b blk" "lossless rows b"
    and i: "i < length specs" "fixed_width (cs_kind (specs ! i)) > 0" and r: "r < length rows"
  shows "read_cell blk r i = Ok (stored_value fmt (cs_kind (specs ! i)) (rows ! r ! i))"
proof -
  note bf = built_fields [OF b(1)]
  obtain b0 where b0: "pax_new bs specs = Ok b0" "append_rows fmt rows b0 = (Ok (), b)"
    and short: "length rows < 2 ^ 32"
    using b(1) unfolding built_def by blast
  have len: "length (pb_staging b) = length (pb_specs b)" using bf by simp
  obtain mps dirs where lay: "layout_columns (pb_row_count b) (64 + 64 * length (pb_specs b)) (block_cols b)
      = Ok (mps, dirs, layout_end b)"
    and dirs: "\<And>i. i < length (pb_specs b) \<Longrightarrow> px_directory blk i = Ok (dirs ! i)"
    and pages: "\<And>i. i < length (pb_specs b) \<Longrightarrow> px_minipage_bytes blk i = Ok (stored_minipage b i (mps ! i))"
    by (rule finalize_ok [OF bf(3,5) len]) (rule that)
  have dir: "px_directory blk i = Ok (dirs ! i)"
    and page: "px_minipage_bytes blk i = Ok (stored_minipage b i (mps ! i))"
    using dirs pages i(1) bf(1) by simp_all
  let ?k = "cs_kind (specs ! i)"
  let ?vals = "map (\<lambda>r. fixed_cell ?k (r ! i)) rows"
  have col: "block_cols b ! i = (specs ! i, Fixed ?k ?vals)"
    using built_staging [OF b0 i(1)] i bf(1,2) by (simp add: Let_def comp_def)
  have stored: "stored_minipage b i m = m" for m
    using i(2) col by (simp add: stored_minipage_def is_var_iff)
  have small: "layout_end b < 2 ^ 32" using bf(5) by simp
  have "i < length (block_cols b)" using i(1) bf(1,2) by simp
  then obtain zmin zmax enc where body: "column_body (specs ! i) (Fixed ?k ?vals) = Ok (mps ! i, zmin, zmax, enc)"
    and d: "cd_encoding (dirs ! i) = discriminant enc" "cd_kind (dirs ! i) = value_kind_u8 ?k"
      "cd_value_count (dirs ! i) = pb_row_count b"
    using layout_columns_spec [OF lay small, THEN conjunct2, THEN conjunct2, THEN conjunct2, THEN spec, THEN mp, of i]
    unfolding col fst_conv snd_conv by blast
  have "lossless_spec (specs ! i) ?vals" using b(2) i(1) bf(1) by (auto simp: lossless_def)
  from column_decodes [OF body refl this i(2)] short
  have dec: "decode_minipage (from_discriminant (discriminant enc)) (mps ! i) (length rows) = Ok ?vals"
    "?k = KBool \<Longrightarrow> enc = Raw \<and> mps ! i = concat (map (le_bytes 8) ?vals)"
    by simp_all
  have decoded: "px_decode_i64_column blk i = Ok ?vals"
    using dec(1) by (simp add: px_decode_i64_column_def dir page stored d bf(4))
  have kd: "value_kind_from_u8 (cd_kind (dirs ! i)) = ?k" unfolding d(2) by (rule value_kind_roundtrip)
  show ?thesis
  proof (cases "?k = KBool")
    case True
    have "length (mps ! i) = length rows * 8"
      using dec(2) [OF True] length_concat_chunks [of "map (le_bytes 8) ?vals" 8] by (simp add: comp_def)
    then have "px_column_view blk i = Ok (mps ! i)"
      using dec(2) [OF True] by (simp add: px_column_view_def dir page stored d column_view_new_def)
    then show ?thesis
      using True r dec(2) [OF True] view_raw [of ?vals] fixed_cell_bool
      by (simp add: read_cell_def dir kd Let_def stored_value_def)
  next
    case False
    then show ?thesis
      using i(2) r decoded by (cases ?k) (simp_all add: read_cell_def dir kd stored_value_def Let_def)
  qed
qed


lemma unat_plus_small: "unat x + unat y < 2 ^ 32 \<Longrightarrow> unat (x + y) = unat x + unat y" for x y :: u32
  by (simp add: unat_word_ariths)

lemma heap_base_slice:
  assumes "i < length cols"
  shows "slice (concat (map col_heap cols)) (heap_base cols i) (heap_base cols i + length (col_heap (cols ! i)))
      = col_heap (cols ! i)"
    "heap_base cols i + length (col_heap (cols ! i)) \<le> length (concat (map col_heap cols))"
proof -
  have split: "concat (map col_heap cols)
      = concat (map col_heap (take i cols)) @ col_heap (cols ! i) @ concat (map col_heap (drop (Suc i) cols))"
    by (subst id_take_nth_drop [OF assms]) simp
  show "slice (concat (map col_heap cols)) (heap_base cols i) (heap_base cols i + length (col_heap (cols ! i)))
      = col_heap (cols ! i)"
    "heap_base cols i + length (col_heap (cols ! i)) \<le> length (concat (map col_heap cols))"
    unfolding split heap_base_def by (simp_all add: slice_append_eq)
qed

lemma read_var_cell:
  assumes b: "built fmt bs specs rows b blk"
    and i: "i < length specs" "fixed_width (cs_kind (specs ! i)) = 0" and r: "r < length rows"
  shows "cs_kind (specs ! i) = KBytes \<Longrightarrow> px_var_value blk i r = Ok (var_bytes fmt (rows ! r ! i))"
proof -
  assume k: "cs_kind (specs ! i) = KBytes"
  note bf = built_fields [OF b]
  obtain b0 where b0: "pax_new bs specs = Ok b0" "append_rows fmt rows b0 = (Ok (), b)"
    using b unfolding built_def by blast
  have len: "length (pb_staging b) = length (pb_specs b)" using bf by simp
  obtain mps dirs where lay: "layout_columns (pb_row_count b) (64 + 64 * length (pb_specs b)) (block_cols b)
      = Ok (mps, dirs, layout_end b)"
    and fits: "bytes_needed b \<le> unat (pb_block_size b)" and buflen: "length (px_buf blk) = unat (pb_block_size b)"
    and hdr: "px_header blk = stored_header b"
    and dirs: "\<And>i. i < length (pb_specs b) \<Longrightarrow> px_directory blk i = Ok (dirs ! i)"
    and pages: "\<And>i. i < length (pb_specs b) \<Longrightarrow> px_minipage_bytes blk i = Ok (stored_minipage b i (mps ! i))"
    and heap: "slice (px_buf blk) (heap_offset b) (heap_offset b + length (block_heap b)) = block_heap b"
    by (rule finalize_ok [OF bf(3,5) len]) (rule that)
  have dir: "px_directory blk i = Ok (dirs ! i)"
    and page: "px_minipage_bytes blk i = Ok (stored_minipage b i (mps ! i))"
    using dirs pages i(1) bf(1) by simp_all
  let ?xs = "map (\<lambda>r. var_bytes fmt (r ! i)) rows"
  let ?base = "heap_base (block_cols b) i"
  have col: "block_cols b ! i = (specs ! i, Var (var_slots 0 ?xs) (heap_of ?xs))"
    using built_staging [OF b0 i(1)] i bf(1,2) by (simp add: Let_def comp_def)
  have var: "is_var (block_cols b ! i)" "col_heap (block_cols b ! i) = heap_of ?xs"
    using i(2) by (simp_all add: col is_var_iff col_heap_def)
  have small: "layout_end b < 2 ^ 32" using bf(5) by simp
  have ic: "i < length (block_cols b)" using i(1) bf(1,2) by simp
  have cell: "column_body (fst (block_cols b ! i)) (snd (block_cols b ! i))
       = Ok (concat (map slot_bytes (var_slots 0 ?xs)), I64_MAX, I64_MIN, Raw)"
    by (simp add: col slot_bytes_def [abs_def] case_prod_beta')
  have mp: "mps ! i = concat (map slot_bytes (var_slots 0 ?xs))"
    and kd: "cd_kind (dirs ! i) = value_kind_u8 KBytes"
    using layout_columns_spec [OF lay small, THEN conjunct2, THEN conjunct2, THEN conjunct2, THEN spec, THEN mp, of i]
      ic cell k col by auto
  let ?slots = "map (rebased (of_nat ?base)) (var_slots 0 ?xs)"
  have stored: "stored_minipage b i (mps ! i) = concat (map slot_bytes ?slots)"
    using var(1) by (simp add: stored_minipage_def mp rebase_slots_concat comp_def)
  have slots: "length ?slots = length rows" by simp
  have total: "heap_offset b + length (block_heap b) \<le> unat (pb_block_size b)"
    using fits by (simp add: bytes_needed_def)
  have within: "?base + length (heap_of ?xs) \<le> length (block_heap b)"
    and part: "slice (block_heap b) ?base (?base + length (heap_of ?xs)) = heap_of ?xs"
    using heap_base_slice [OF ic] var(2) by (simp_all add: block_heap_def)
  have room: "64 \<le> heap_offset b"
    using layout_start [OF bf(5)] align_up_bounds(4) [of "layout_end b"] by (simp add: heap_offset_def)
  have bsz: "unat (pb_block_size b) < 2 ^ 32" using unat_lt2p [of "pb_block_size b"] by simp
  have off: "unat (of_nat (heap_offset b) :: u32) = heap_offset b"
    using total bsz by (intro unat_of_nat_small) simp
  have bytes: "length (stored_minipage b i (mps ! i)) = length rows * 8"
    using length_concat_chunks [of "map slot_bytes ?slots" 8] by (simp add: stored comp_def)
  note rd = read_slot [of r ?slots, OF _ stored] 
  have nth: "?slots ! r = rebased (of_nat ?base) (var_slots 0 ?xs ! r)" using r by simp
  show "px_var_value blk i r = Ok (var_bytes fmt (rows ! r ! i))"
  proof (cases "var_bytes fmt (rows ! r ! i)")
    case None
    then have "?slots ! r = (0, - 1)" using r by (simp add: nth var_slots_nth rebased_def)
    then show ?thesis
      using rd r bytes None by (simp add: px_var_value_def dir kd page Let_def)
  next
    case (Some v)
    let ?o = "length (heap_of (take r ?xs))"
    have at: "?xs ! r = Some v" "r < length ?xs" using Some r by simp_all
    note hs = heap_of_slice [OF at(2,1)]
    have vlen: "length v < 2 ^ 32 - 1" using hs(2) within total bsz room by linarith
    then have lv: "unat (of_nat (length v) :: u32) = length v" by (intro unat_of_nat_small) simp
    have not_null: "(of_nat (length v) :: u32) \<noteq> - 1"
    proof
      assume "(of_nat (length v) :: u32) = - 1"
      then have "length v = unat (- 1 :: u32)" using lv by simp
      then show False using vlen by (simp add: unsigned_minus_1_eq_mask mask_eq_exp_minus_1)
    qed
    have slot: "?slots ! r = (of_nat ?o + of_nat ?base, of_nat (length v))"
      using at not_null r by (simp add: nth var_slots_nth rebased_def)
    have "unat (of_nat ?o :: u32) = ?o" "unat (of_nat ?base :: u32) = ?base"
      using hs(2) within total bsz by (simp_all add: unat_of_nat_small)
    then have po: "unat (of_nat ?o + of_nat ?base :: u32) = ?o + ?base"
      using hs(2) within total bsz by (subst unat_plus_small) simp_all
    have "slice (px_buf blk) (heap_offset b + (?base + ?o)) (heap_offset b + (?base + (?o + length v)))
        = slice (block_heap b) (?base + ?o) (?base + (?o + length v))"
      using hs(2) within by (subst heap [symmetric], subst slice_slice) simp_all
    also have "\<dots> = slice (heap_of ?xs) ?o (?o + length v)"
      using hs(2) by (subst part [symmetric], subst slice_slice) simp_all
    also have "\<dots> = v" by (rule hs(1))
    finally have content: "slice (px_buf blk) (heap_offset b + (?o + ?base)) (heap_offset b + (?o + ?base) + length v) = v"
      by (simp add: ac_simps)
    have "heap_offset b + (?o + ?base) + length v \<le> length (px_buf blk)"
      using hs(2) within total buflen by linarith
    then show ?thesis
      using rd r bytes Some not_null content
      by (simp add: px_var_value_def dir kd page Let_def slot po lv hdr header_of_block off)
  qed
qed

lemma read_stored_cell:
  assumes "built fmt bs specs rows b blk" "lossless rows b" "i < length specs" "r < length rows"
  shows "read_cell blk r i = Ok (stored_value fmt (cs_kind (specs ! i)) (rows ! r ! i))"
proof (cases "fixed_width (cs_kind (specs ! i)) > 0")
  case True
  then show ?thesis by (rule read_fixed_cell [OF assms(1-3) _ assms(4)])
next
  case False
  note bf = built_fields [OF assms(1)]
  have len: "length (pb_staging b) = length (pb_specs b)" using bf by simp
  obtain mps dirs where lay: "layout_columns (pb_row_count b) (64 + 64 * length (pb_specs b)) (block_cols b)
      = Ok (mps, dirs, layout_end b)"
    and dirs: "\<And>i. i < length (pb_specs b) \<Longrightarrow> px_directory blk i = Ok (dirs ! i)"
    by (rule finalize_ok [OF bf(3,5) len]) (rule that)
  have small: "layout_end b < 2 ^ 32" using bf(5) by simp
  have "i < length (block_cols b)" using assms(3) bf(1,2) by simp
  then have "cd_kind (dirs ! i) = value_kind_u8 (cs_kind (specs ! i))"
    using layout_columns_spec [OF lay small, THEN conjunct2, THEN conjunct2, THEN conjunct2, THEN spec, THEN mp, of i]
      bf(1) by auto
  then have kd: "value_kind_from_u8 (cd_kind (dirs ! i)) = cs_kind (specs ! i)"
    by (metis value_kind_roundtrip)
  show ?thesis
  proof (cases "cs_kind (specs ! i)")
    case KNull
    then show ?thesis using dirs assms(3) bf(1) kd by (simp add: read_cell_def Let_def stored_value_def)
  next
    case KBytes
    then show ?thesis
      using dirs assms(3) bf(1) kd read_var_cell [OF assms(1,3) _ assms(4) KBytes]
      by (auto simp: read_cell_def Let_def stored_value_def split: option.splits)
  qed (use False in simp_all)
qed

lemma collect_ok: "(\<And>i. i \<in> set is \<Longrightarrow> f i = Ok (g i)) \<Longrightarrow> collect f is = Ok (map g is)"
  by (induction "is") auto

lemma materialize_stored_row:
  assumes "built fmt bs specs rows b blk" "lossless rows b" "r < length rows"
  shows "materialize_row blk r = Ok (map2 (\<lambda>s v. stored_value fmt (cs_kind s) v) specs (rows ! r))"
proof -
  note bf = built_fields [OF assms(1)]
  have len: "length (pb_staging b) = length (pb_specs b)" using bf by simp
  have hdr: "px_header blk = stored_header b" by (rule finalize_ok [OF bf(3,5) len])
  have "length rows < 2 ^ 32" using assms(1) by (simp add: built_def)
  then have "\<not> pb_row_count b \<le> of_nat r"
    using assms(3) bf(4) by (simp add: word_le_nat_alt unat_of_nat_small)
  moreover have "collect (read_cell blk r) [0..<length specs]
      = Ok (map (\<lambda>i. stored_value fmt (cs_kind (specs ! i)) (rows ! r ! i)) [0..<length specs])"
    by (rule collect_ok) (simp add: read_stored_cell [OF assms(1,2) _ assms(3)])
  moreover have "map (\<lambda>i. stored_value fmt (cs_kind (specs ! i)) (rows ! r ! i)) [0..<length specs]
      = map2 (\<lambda>s v. stored_value fmt (cs_kind s) v) specs (rows ! r)"
    using bf(7) assms(3) by (intro nth_equalityI) simp_all
  ultimately show ?thesis
    by (simp add: materialize_row_def hdr header_of_block bf(1,8))
qed

end
