(* ===== verification/PaxSpec.thy ===== *)
theory PaxSpec
  imports PaxBlocks
begin

text \<open>
  The properties of PAX blocks: the round trip of rows, the bounds of the layout, the exact
  condition under which a block is built, the soundness of the zone maps used for predicate
  pushdown, and what a refused row leaves in the builder.
\<close>

section \<open>When a block is built\<close>

lemma column_body_lossless:
  assumes "lossless_spec spec vals" "cs_kind spec = k" "fixed_width k > 0" "length vals < 2 ^ 32"
  shows "\<exists>r. column_body spec (Fixed k vals) = Ok r"
proof -
  have "supported (column_encoding spec k vals) vals"
    using assms auto_select_supported [OF assms(4)]
    by (cases "cs_encoding spec = Raw") (auto simp: column_encoding_def lossless_spec_def)
  then have "\<exists>bs. encode_minipage (column_encoding spec k vals) vals = Ok bs"
    using codec_for_encodes by (fastforce simp: encode_minipage_def)
  then show ?thesis by (cases "value_range vals") (auto simp: Let_def)
qed

lemma layout_columns_total:
  assumes "\<forall>col \<in> set cols. \<exists>r. column_body (fst col) (snd col) = Ok r"
  shows "\<exists>mps dirs fin. layout_columns rows cursor cols = Ok (mps, dirs, fin)"
  using assms
proof (induction cols arbitrary: cursor)
  case (Cons col cols)
  obtain spec st where col: "col = (spec, st)" by (cases col)
  obtain body zmin zmax enc where "column_body spec st = Ok (body, zmin, zmax, enc)"
    using Cons.prems col by (cases "column_body spec st") auto
  moreover obtain mps dirs fin where
    "layout_columns rows (align_up cursor MINIPAGE_ALIGN + length body) cols = Ok (mps, dirs, fin)"
    using Cons.IH [of "align_up cursor MINIPAGE_ALIGN + length body"] Cons.prems by auto
  ultimately show ?case by (simp add: col Let_def)
qed simp

lemma built_columns_encode:
  assumes "pax_new bs specs = Ok b0" "append_rows fmt rows b0 = (Ok (), b)" "lossless rows b"
    "length rows < 2 ^ 32" "pb_specs b = specs" "length (pb_staging b) = length specs"
    "col \<in> set (block_cols b)"
  shows "\<exists>r. column_body (fst col) (snd col) = Ok r"
proof -
  obtain i where "i < length (block_cols b)" "block_cols b ! i = col"
    using assms(7) unfolding in_set_conv_nth by blast
  then have i: "i < length specs" "col = (specs ! i, pb_staging b ! i)"
    using assms(5,6) by auto
  note st = built_staging [OF assms(1,2) i(1)]
  show ?thesis
  proof (cases "fixed_width (cs_kind (specs ! i)) = 0")
    case True
    then show ?thesis unfolding i(2) st Let_def by simp
  next
    case False
    have "lossless_spec (specs ! i) (map (\<lambda>r. fixed_cell (cs_kind (specs ! i)) (r ! i)) rows)"
      using assms(3) i(1) assms(5) unfolding lossless_def by blast
    from column_body_lossless [OF this refl] False assms(4) show ?thesis
      unfolding i(2) st Let_def by (simp add: comp_def del: column_body.simps)
  qed
qed

lemma finalize_decides_layout:
  assumes "layout_columns (pb_row_count b) (64 + 64 * length (pb_specs b)) (block_cols b) = Ok (mps, dirs, fin)"
    "length (pb_staging b) = length (pb_specs b)" "layout_end b + 7 < 2 ^ 32" "pb_block_size b = bs"
  shows "if bytes_needed b \<le> unat bs then \<exists>blk. finalize b = Ok blk
    else finalize b = Err (constraint (''PaxBlockBuilder: block overflow '' @ map char_of [0xE2, 0x80, 0x94 :: nat]
              @ '' need '' @ show_nat (bytes_needed b) @ '' bytes, block size is '' @ show_nat (unat bs)))"
proof -
  note fl = finalize_layout [OF assms(3,2,1) refl]
  have "fin < 2 ^ 32" using fl(1) assms(3) by simp
  note lf = layout_facts [OF assms(1) this assms(2) refl]
  show ?thesis
  proof (cases "bytes_needed b \<le> unat bs")
    case True
    let ?ws = "(0, block_header_bytes (stored_header b)) # dir_writes dirs
      @ minipage_writes dirs (apply_rebases (snd (merge_heaps 0 [] (block_cols b))) mps)
      @ [(heap_offset b, block_heap b)]"
    have ho: "fin \<le> heap_offset b" unfolding heap_offset_def fl(1) by (rule align_up_bounds)
    have "heap_offset b + length (block_heap b) \<le> unat bs" using True by (simp add: bytes_needed_def)
    then have "regions fin [(heap_offset b, block_heap b)] (unat bs)" using ho by simp
    then have "regions 64 ((dir_writes dirs @ minipage_writes dirs (apply_rebases (snd (merge_heaps 0 [] (block_cols b))) mps))
        @ [(heap_offset b, block_heap b)]) (unat bs)"
      unfolding regions_append using lf(4) regions_append by blast
    then have "regions 0 ?ws (length (replicate (unat bs) (0 :: u8)))" by simp
    from write_all_regions [OF this] obtain buf where "write_all ?ws (replicate (unat bs) 0) = Ok buf"
      by blast
    then show ?thesis using True unfolding fl(3) assms(4) by (simp del: write_all.simps)
  next
    case False
    then show ?thesis unfolding fl(3) assms(4) by simp
  qed
qed

lemma finalize_decides:
  assumes "pax_new bs specs = Ok b0" "append_rows fmt rows b0 = (Ok (), b)" "lossless rows b"
    "length rows < 2 ^ 32" "layout_end b + 7 < 2 ^ 32"
  shows "if bytes_needed b \<le> unat bs then \<exists>blk. finalize b = Ok blk
    else finalize b = Err (constraint (''PaxBlockBuilder: block overflow '' @ map char_of [0xE2, 0x80, 0x94 :: nat]
              @ '' need '' @ show_nat (bytes_needed b) @ '' bytes, block size is '' @ show_nat (unat bs)))"
proof -
  note new = pax_new_fields [OF assms(1)]
  have "length (pb_staging b0) = length (pb_specs b0)" by (simp add: new)
  note ar = append_rows_ok [OF assms(2) this]
  have f: "pb_specs b = specs" "pb_block_size b = bs" and len: "length (pb_staging b) = length (pb_specs b)"
    using ar by (simp_all add: new)
  have "length (pb_staging b) = length specs" using len f(1) by simp
  note enc = built_columns_encode [OF assms(1-4) f(1) this]
  obtain mps dirs fin where
    lay: "layout_columns (pb_row_count b) (64 + 64 * length (pb_specs b)) (block_cols b) = Ok (mps, dirs, fin)"
    using layout_columns_total [of "block_cols b"] enc by blast
  show ?thesis by (rule finalize_decides_layout [OF lay len assms(5) f(2)])
qed

section \<open>Zone maps\<close>

definition covers :: "(i64 \<times> i64) option \<Rightarrow> i64 \<Rightarrow> bool" where
  "covers rng x \<longleftrightarrow> (case rng of Some (lo, hi) \<Rightarrow> lo \<le>s x \<and> x \<le>s hi | None \<Rightarrow> False)"

definition zone_key :: "cen_value \<Rightarrow> i64 option" where
  "zone_key v = (case v of VI64 x \<Rightarrow> Some x | VU64 x \<Rightarrow> Some x | VTimestamp x \<Rightarrow> Some x | _ \<Rightarrow> None)"

lemma covers_extend: "covers (extend_range rng x) x" "covers rng y \<Longrightarrow> covers (extend_range rng x) y"
  by (auto simp: covers_def extend_range_def word_sle_eq word_sless_alt split: option.splits)

lemma track_zones_covers:
  "cs_is_pk s \<noteq> 0 \<Longrightarrow> zone_key v = Some x \<Longrightarrow> covers (pb_pk_range (track_zones s v b)) x"
  "cs_is_ts s \<noteq> 0 \<Longrightarrow> zone_key v = Some x \<Longrightarrow> covers (pb_ts_range (track_zones s v b)) x"
  "covers (pb_pk_range b) y \<Longrightarrow> covers (pb_pk_range (track_zones s v b)) y"
  "covers (pb_ts_range b) y \<Longrightarrow> covers (pb_ts_range (track_zones s v b)) y"
  by (cases v; simp add: track_zones_def zone_key_def Let_def extend_pk_def extend_ts_def covers_extend)+

lemma write_row_covers:
  assumes "write_row fmt i vs b = (Ok (), b')"
  shows "covers (pb_pk_range b) y \<Longrightarrow> covers (pb_pk_range b') y"
    "covers (pb_ts_range b) y \<Longrightarrow> covers (pb_ts_range b') y"
    "j < length vs \<Longrightarrow> zone_key (vs ! j) = Some x \<Longrightarrow> cs_is_pk (pb_specs b ! (i + j)) \<noteq> 0 \<Longrightarrow> covers (pb_pk_range b') x"
    "j < length vs \<Longrightarrow> zone_key (vs ! j) = Some x \<Longrightarrow> cs_is_ts (pb_specs b ! (i + j)) \<noteq> 0 \<Longrightarrow> covers (pb_ts_range b') x"
proof -
  have "(covers (pb_pk_range b) y \<longrightarrow> covers (pb_pk_range b') y)
    \<and> (covers (pb_ts_range b) y \<longrightarrow> covers (pb_ts_range b') y)
    \<and> (j < length vs \<and> zone_key (vs ! j) = Some x \<and> cs_is_pk (pb_specs b ! (i + j)) \<noteq> 0 \<longrightarrow> covers (pb_pk_range b') x)
    \<and> (j < length vs \<and> zone_key (vs ! j) = Some x \<and> cs_is_ts (pb_specs b ! (i + j)) \<noteq> 0 \<longrightarrow> covers (pb_ts_range b') x)"
    for x y j
    using assms
  proof (induction vs arbitrary: i b j x y)
    case (Cons v vs)
    obtain b1 where b1: "write_value fmt b i v = (Ok (), b1)" "write_row fmt (Suc i) vs b1 = (Ok (), b')"
      using Cons.prems by (auto split: prod.splits outcome.splits)
    note wv = write_value_ok [OF b1(1)] and ih = Cons.IH [OF b1(2)]
    show ?case
    proof (cases j)
      case 0
      then show ?thesis
        using wv ih [of y] ih [of x] track_zones_covers(1,2) [of "pb_specs b ! i" v]
          track_zones_covers(3,4) [of b _ "pb_specs b ! i" v] by auto
    next
      case (Suc m)
      then show ?thesis
        using wv ih [of y] ih [of _ m x] track_zones_covers(3,4) [of b _ "pb_specs b ! i" v] by auto
    qed
  qed simp
  then show "covers (pb_pk_range b) y \<Longrightarrow> covers (pb_pk_range b') y"
    "covers (pb_ts_range b) y \<Longrightarrow> covers (pb_ts_range b') y"
    "j < length vs \<Longrightarrow> zone_key (vs ! j) = Some x \<Longrightarrow> cs_is_pk (pb_specs b ! (i + j)) \<noteq> 0 \<Longrightarrow> covers (pb_pk_range b') x"
    "j < length vs \<Longrightarrow> zone_key (vs ! j) = Some x \<Longrightarrow> cs_is_ts (pb_specs b ! (i + j)) \<noteq> 0 \<Longrightarrow> covers (pb_ts_range b') x"
    by blast+
qed


lemma append_rows_covers:
  assumes "append_rows fmt rows b = (Ok (), b')" "length (pb_staging b) = length (pb_specs b)"
  shows "(\<forall>y. covers (pb_pk_range b) y \<longrightarrow> covers (pb_pk_range b') y)
    \<and> (\<forall>y. covers (pb_ts_range b) y \<longrightarrow> covers (pb_ts_range b') y)
    \<and> (\<forall>r \<in> set rows. \<forall>j x. j < length (pb_specs b) \<and> zone_key (r ! j) = Some x \<longrightarrow>
         (cs_is_pk (pb_specs b ! j) \<noteq> 0 \<longrightarrow> covers (pb_pk_range b') x)
       \<and> (cs_is_ts (pb_specs b ! j) \<noteq> 0 \<longrightarrow> covers (pb_ts_range b') x))"
  using assms
proof (induction rows arbitrary: b)
  case (Cons q rows)
  obtain rid b1 where b1: "append_row fmt q b = (Ok rid, b1)" "append_rows fmt rows b1 = (Ok (), b')"
    using Cons.prems(1) by (auto split: prod.splits outcome.splits)
  note ar = append_row_ok [OF b1(1) Cons.prems(2)]
  obtain b2 where b2: "write_row fmt 0 q b = (Ok (), b2)" "b1 = b2\<lparr>pb_row_count := pb_row_count b2 + 1\<rparr>"
    using b1(1) by (auto simp: append_row_def Let_def split: if_splits prod.splits outcome.splits)
  have same: "pb_pk_range b1 = pb_pk_range b2" "pb_ts_range b1 = pb_ts_range b2" by (simp_all add: b2(2))
  have len: "length (pb_staging b1) = length (pb_specs b1)" and sp: "pb_specs b1 = pb_specs b"
    and lq: "length q = length (pb_specs b)" using ar by simp_all
  note wr = write_row_covers [OF b2(1), folded same] and ih = Cons.IH [OF b1(2) len, unfolded sp]
  show ?case
  proof (intro conjI allI ballI impI)
    fix y assume "covers (pb_pk_range b) y"
    then show "covers (pb_pk_range b') y" using wr(1) ih by blast
  next
    fix y assume "covers (pb_ts_range b) y"
    then show "covers (pb_ts_range b') y" using wr(2) ih by blast
  next
    fix r j x assume r: "r \<in> set (q # rows)" and j: "j < length (pb_specs b) \<and> zone_key (r ! j) = Some x"
      and pk: "cs_is_pk (pb_specs b ! j) \<noteq> 0"
    show "covers (pb_pk_range b') x"
    proof (cases "r = q")
      case True
      then have "covers (pb_pk_range b1) x" using wr(3) [of j x] j lq pk by simp
      then show ?thesis using ih by blast
    next
      case False
      then show ?thesis using ih r j pk by simp
    qed
  next
    fix r j x assume r: "r \<in> set (q # rows)" and j: "j < length (pb_specs b) \<and> zone_key (r ! j) = Some x"
      and ts: "cs_is_ts (pb_specs b ! j) \<noteq> 0"
    show "covers (pb_ts_range b') x"
    proof (cases "r = q")
      case True
      then have "covers (pb_ts_range b1) x" using wr(4) [of j x] j lq ts by simp
      then show ?thesis using ih by blast
    next
      case False
      then show ?thesis using ih r j ts by simp
    qed
  qed
qed simp

lemma range_fold_covers:
  assumes "x \<in> set vals \<or> (lo \<le>s x \<and> x \<le>s hi)"
    "foldl (\<lambda>(lo, hi) v. (if v <s lo then v else lo, if hi <s v then v else hi)) (lo, hi) vals = (zmin, zmax)"
  shows "zmin \<le>s x \<and> x \<le>s (zmax :: i64)"
  using assms
proof (induction vals arbitrary: lo hi)
  case (Cons v vals)
  let ?lo = "if v <s lo then v else lo" and ?hi = "if hi <s v then v else hi"
  have "x \<in> set vals \<or> (?lo \<le>s x \<and> x \<le>s ?hi)"
    using Cons.prems(1) by (auto simp: word_sle_eq word_sless_alt)
  from Cons.IH [OF this] Cons.prems(2) show ?case by simp
qed simp

lemma value_range_covers:
  "x \<in> set vals \<Longrightarrow> value_range vals = (zmin, zmax) \<Longrightarrow> zmin \<le>s x \<and> x \<le>s zmax"
  using range_fold_covers [of x vals] by (cases vals) (auto simp: value_range_def simp del: foldl_Cons)

lemma overlaps_covered:
  assumes "lo \<le>s x" "x \<le>s hi" "zmin \<le>s x" "x \<le>s zmax"
  shows "\<not> (zmax <s lo \<or> hi <s zmin)" "\<not> zmax <s (zmin :: i64)"
  using assms by (auto simp: word_sle_eq word_sless_alt)

lemma column_zone:
  assumes "built fmt bs specs rows b blk" "i < length specs" "fixed_width (cs_kind (specs ! i)) > 0"
    "r < length rows" "px_directory blk i = Ok d"
  shows "cd_zone_min d \<le>s fixed_cell (cs_kind (specs ! i)) (rows ! r ! i)
    \<and> fixed_cell (cs_kind (specs ! i)) (rows ! r ! i) \<le>s cd_zone_max d"
proof -
  note bf = built_fields [OF assms(1)]
  obtain b0 where b0: "pax_new bs specs = Ok b0" "append_rows fmt rows b0 = (Ok (), b)"
    using assms(1) unfolding built_def by blast
  have len: "length (pb_staging b) = length (pb_specs b)" using bf by simp
  obtain mps dirs where lay: "layout_columns (pb_row_count b) (64 + 64 * length (pb_specs b)) (block_cols b)
      = Ok (mps, dirs, layout_end b)"
    and dirs: "\<And>i. i < length (pb_specs b) \<Longrightarrow> px_directory blk i = Ok (dirs ! i)"
    by (rule finalize_ok [OF bf(3,5) len]) (rule that)
  have d: "d = dirs ! i" using dirs [of i] assms(2,5) bf(1) by simp
  let ?k = "cs_kind (specs ! i)"
  let ?vals = "map (\<lambda>r. fixed_cell ?k (r ! i)) rows"
  have col: "block_cols b ! i = (specs ! i, Fixed ?k ?vals)"
    using built_staging [OF b0 assms(2)] assms(2,3) bf(1,2) by (simp add: Let_def comp_def)
  have small: "layout_end b < 2 ^ 32" using bf(5) by simp
  have "i < length (block_cols b)" using assms(2) bf(1,2) by simp
  then obtain zmin zmax enc where "column_body (specs ! i) (Fixed ?k ?vals) = Ok (mps ! i, zmin, zmax, enc)"
    and z: "cd_zone_min (dirs ! i) = zmin" "cd_zone_max (dirs ! i) = zmax"
    using layout_columns_spec [OF lay small, THEN conjunct2, THEN conjunct2, THEN conjunct2, THEN spec, THEN mp, of i]
    unfolding col fst_conv snd_conv by blast
  then have "value_range ?vals = (zmin, zmax)"
    by (cases "value_range ?vals") (auto simp: Let_def)
  moreover have "fixed_cell ?k (rows ! r ! i) \<in> set ?vals" using assms(4) by simp
  ultimately show ?thesis using value_range_covers z unfolding d by blast
qed


section \<open>Bounds\<close>

lemma regions_nth:
  assumes "regions k ws n" "j < length ws"
  shows "k \<le> fst (ws ! j)" "fst (ws ! j) + length (snd (ws ! j)) \<le> n"
    "i < j \<Longrightarrow> fst (ws ! i) + length (snd (ws ! i)) \<le> fst (ws ! j)"
proof -
  have "k \<le> fst (ws ! j) \<and> fst (ws ! j) + length (snd (ws ! j)) \<le> n
      \<and> (i < j \<longrightarrow> fst (ws ! i) + length (snd (ws ! i)) \<le> fst (ws ! j))" for i
    using assms
  proof (induction k ws n arbitrary: i j rule: regions.induct)
    case (2 k off bs ws n)
    show ?case
    proof (cases j)
      case 0
      then show ?thesis using "2.prems" regions_le by auto
    next
      case (Suc m)
      then have "m < length ws" "regions (off + length bs) ws n" using "2.prems" by simp_all
      note ih = "2.IH" [OF this(2,1)]
      show ?thesis
        using ih [of 0] ih [of "i - 1"] "2.prems" Suc by (cases i) auto
    qed
  qed simp
  then show "k \<le> fst (ws ! j)" "fst (ws ! j) + length (snd (ws ! j)) \<le> n"
    "i < j \<Longrightarrow> fst (ws ! i) + length (snd (ws ! i)) \<le> fst (ws ! j)"
    by blast+
qed

lemma header_bitmaps:
  "bh_varheap_len (stored_header b) = of_nat (length (block_heap b))"
  "bh_tombstone_bitmap_off (stored_header b) = pb_block_size b - of_nat (bitmap_bytes b)"
  "bh_null_bitmap_off (stored_header b)
     = pb_block_size b - of_nat (bitmap_bytes b) - of_nat (length (pb_specs b) * bitmap_bytes b)"
  by (auto simp: stored_header_def finalize_header_def Let_def split: option.splits prod.splits)

lemma unat_minus_of_nat:
  fixes x :: u32
  assumes "n \<le> unat x"
  shows "unat (x - of_nat n) = unat x - n"
proof -
  have "n < 2 ^ 32" using assms unat_lt2p [of x] by simp
  then have n: "unat (of_nat n :: u32) = n" by (intro unat_of_nat_small) simp
  then have "of_nat n \<le> x" using assms by (simp add: word_le_nat_alt)
  then show ?thesis using n by (simp add: unat_sub)
qed

lemma minipage_regions:
  assumes "built fmt bs specs rows b blk"
  obtains dirs where "length dirs = length specs" "\<forall>i<length specs. px_directory blk i = Ok (dirs ! i)"
    "\<forall>i<length specs. 64 dvd unat (cd_minipage_off (dirs ! i))
       \<and> 64 + 64 * length specs \<le> unat (cd_minipage_off (dirs ! i))
       \<and> unat (cd_minipage_off (dirs ! i)) + unat (cd_compressed_len (dirs ! i)) \<le> heap_offset b"
    "\<forall>i j. i < j \<and> j < length specs \<longrightarrow> unat (cd_minipage_off (dirs ! i)) + unat (cd_compressed_len (dirs ! i))
       \<le> unat (cd_minipage_off (dirs ! j))"
proof -
  note bf = built_fields [OF assms]
  have len: "length (pb_staging b) = length (pb_specs b)" using bf by simp
  obtain mps dirs where lay: "layout_columns (pb_row_count b) (64 + 64 * length (pb_specs b)) (block_cols b)
      = Ok (mps, dirs, layout_end b)"
    and read: "\<And>i. i < length (pb_specs b) \<Longrightarrow> px_directory blk i = Ok (dirs ! i)"
    by (rule finalize_ok [OF bf(3,5) len]) (rule that)
  have small: "layout_end b < 2 ^ 32" using bf(5) by simp
  note ls = layout_columns_spec [OF lay small]
  have lens: "length mps = length specs" "length dirs = length specs" using ls bf(1,2) by simp_all
  let ?ws = "minipage_writes dirs mps"
  have reg: "regions (64 + 64 * length specs) ?ws (layout_end b)" using ls bf(1) by simp
  have cl: "unat (cd_compressed_len (dirs ! i)) = length (mps ! i)" "64 dvd unat (cd_minipage_off (dirs ! i))"
    if "i < length specs" for i
    using ls that bf(1,2) by auto
  have w: "length ?ws = length specs" "\<And>i. i < length specs \<Longrightarrow> ?ws ! i = (unat (cd_minipage_off (dirs ! i)), mps ! i)"
    using lens by (simp_all add: minipage_writes_def)
  have ho: "layout_end b \<le> heap_offset b" unfolding heap_offset_def by (rule align_up_bounds)
  have each: "64 + 64 * length specs \<le> unat (cd_minipage_off (dirs ! i))
      \<and> unat (cd_minipage_off (dirs ! i)) + unat (cd_compressed_len (dirs ! i)) \<le> heap_offset b"
    if "i < length specs" for i
    using regions_nth(1,2) [OF reg, of i] that w cl(1) ho by simp
  have order: "unat (cd_minipage_off (dirs ! i)) + unat (cd_compressed_len (dirs ! i))
      \<le> unat (cd_minipage_off (dirs ! j))" if "i < j" "j < length specs" for i j
    using regions_nth(3) [OF reg, of j i] that w cl(1) by simp
  show ?thesis
    by (rule that [OF lens(2)]) (use read bf(1) cl(2) each order in simp_all)
qed

lemma bitmap_offsets:
  assumes "built fmt bs specs rows b blk"
  shows "unat (bh_varheap_off (px_header blk)) = heap_offset b"
    "unat (bh_varheap_off (px_header blk)) + unat (bh_varheap_len (px_header blk)) \<le> unat (bh_null_bitmap_off (px_header blk))"
    "unat (bh_null_bitmap_off (px_header blk)) + length specs * ((length rows + 7) div 8)
       = unat (bh_tombstone_bitmap_off (px_header blk))"
    "unat (bh_tombstone_bitmap_off (px_header blk)) + (length rows + 7) div 8 = unat bs"
    "length (px_buf blk) = unat bs"
proof -
  note bf = built_fields [OF assms]
  have len: "length (pb_staging b) = length (pb_specs b)" using bf by simp
  have fits: "bytes_needed b \<le> unat (pb_block_size b)" and hdr: "px_header blk = stored_header b"
    and buf: "length (px_buf blk) = unat (pb_block_size b)"
    by (rule finalize_ok [OF bf(3,5) len]; assumption)+
  let ?t = "bitmap_bytes b"
  have t: "?t = (length rows + 7) div 8" by (simp add: bitmap_bytes_def bf(4))
  have sum: "heap_offset b + length (block_heap b) + length specs * ?t + ?t \<le> unat bs"
    using fits by (simp add: bytes_needed_def bf(1,6))
  have bsz: "unat bs < 2 ^ 32" using unat_lt2p [of bs] by simp
  have ho: "unat (of_nat (heap_offset b) :: u32) = heap_offset b"
    and hl: "unat (of_nat (length (block_heap b)) :: u32) = length (block_heap b)"
    using sum bsz by (simp_all add: unat_of_nat_small)
  have tomb: "unat (bs - of_nat ?t) = unat bs - ?t"
    using sum by (intro unat_minus_of_nat) simp
  have null: "unat (bs - of_nat ?t - of_nat (length specs * ?t)) = unat bs - ?t - length specs * ?t"
    using sum tomb by (subst unat_minus_of_nat) simp_all
  show "unat (bh_varheap_off (px_header blk)) = heap_offset b"
    by (simp add: hdr header_of_block ho)
  show "unat (bh_varheap_off (px_header blk)) + unat (bh_varheap_len (px_header blk)) \<le> unat (bh_null_bitmap_off (px_header blk))"
    using sum unfolding hdr header_of_block header_bitmaps bf(1,6) ho hl null by linarith
  show "unat (bh_null_bitmap_off (px_header blk)) + length specs * ((length rows + 7) div 8)
       = unat (bh_tombstone_bitmap_off (px_header blk))"
    using sum unfolding hdr header_bitmaps bf(1,6) null tomb t [symmetric] by linarith
  show "unat (bh_tombstone_bitmap_off (px_header blk)) + (length rows + 7) div 8 = unat bs"
    using sum unfolding hdr header_bitmaps bf(6) tomb t [symmetric] by linarith
  show "length (px_buf blk) = unat bs" using buf bf(6) by simp
qed

end
