(* ===== verification/PaxProps.thy ===== *)
theory PaxProps
  imports PaxSpec
begin

text \<open>The properties of PAX blocks, each with a sample block on which its hypotheses hold.\<close>

section \<open>A sample block\<close>

definition plain_format :: text_format where
  "plain_format = \<lparr>f64_display = (\<lambda>_. ''''), f64_debug = (\<lambda>_. ''''), utf8_lossy = (\<lambda>_. '''')\<rparr>"

definition sample_specs :: "column_spec list" where
  "sample_specs = [spec_pk (column_spec_new 0 KI64), column_spec_new 1 KBytes]"

definition sample_rows :: "cen_value list list" where
  "sample_rows = [[VI64 7, VBytes [1, 2, 3]], [VI64 9, VNull]]"

definition sample_builder :: pax_builder where
  "sample_builder = \<lparr>pb_block_size = 512, pb_specs = sample_specs,
     pb_staging = [Fixed KI64 [7, 9], Var [(0, 3), (0, - 1)] [1, 2, 3]], pb_row_count = 2,
     pb_pk_range = Some (7, 9), pb_ts_range = None\<rparr>"

lemma sample_built:
  obtains b0 where "pax_new 512 sample_specs = Ok b0"
    "append_rows plain_format sample_rows b0 = (Ok (), sample_builder)"
proof -
  have "and_then (pax_new 512 sample_specs) (\<lambda>b. Ok (append_rows plain_format sample_rows b))
     = Ok (Ok (), sample_builder)"
    by code_simp
  then show ?thesis using that by auto
qed

lemma sample_layout:
  "layout_end sample_builder = 272" "bytes_needed sample_builder = 278"
  by code_simp+

lemma sample_lossless: "lossless sample_rows sample_builder"
  unfolding lossless_def lossless_spec_def
  by (auto simp: sample_builder_def sample_specs_def spec_pk_def column_spec_new_def less_Suc_eq)


lemma sample_block:
  obtains blk where "built plain_format 512 sample_specs sample_rows sample_builder blk"
proof -
  obtain b0 where b0: "pax_new 512 sample_specs = Ok b0"
    "append_rows plain_format sample_rows b0 = (Ok (), sample_builder)"
    by (rule sample_built)
  have small: "length sample_rows < 2 ^ 32" "layout_end sample_builder + 7 < 2 ^ 32"
    by (simp_all add: sample_rows_def sample_layout)
  from finalize_decides [OF b0 sample_lossless small] obtain blk where "finalize sample_builder = Ok blk"
    by (auto simp: sample_layout)
  then show ?thesis using that b0 small unfolding built_def by blast
qed

section \<open>Properties\<close>

text \<open>C32:
  Row round trip. A block built without an error from fewer than \<open>2 ^ 32\<close> rows, whose
  minipages end below 4 GiB and whose explicitly requested encodings support their columns,
  gives back every row with each value in the stored form of its column; a row whose values
  have the kinds of their columns comes back unchanged. Rows beyond the last are refused.
\<close>

theorem pax_row_roundtrip:
  assumes "built fmt bs specs rows b blk" "lossless rows b"
  shows "(\<forall>r<length rows.
      materialize_row blk r = Ok (map2 (\<lambda>s v. stored_value fmt (cs_kind s) v) specs (rows ! r))
      \<and> (map kind (rows ! r) = map cs_kind specs \<longrightarrow> materialize_row blk r = Ok (rows ! r)))
    \<and> (\<forall>r. length rows \<le> r \<and> r < 2 ^ 32 \<longrightarrow> is_err (materialize_row blk r))"
proof (intro conjI allI impI)
  fix r assume r: "r < length rows"
  show m: "materialize_row blk r = Ok (map2 (\<lambda>s v. stored_value fmt (cs_kind s) v) specs (rows ! r))"
    by (rule materialize_stored_row [OF assms r])
  assume k: "map kind (rows ! r) = map cs_kind specs"
  have len: "length (rows ! r) = length specs" using map_eq_imp_length_eq [OF k] .
  have "kind (rows ! r ! i) = cs_kind (specs ! i)" if "i < length specs" for i
    using arg_cong [OF k, of "\<lambda>xs. xs ! i"] that len by simp
  then have "map2 (\<lambda>s v. stored_value fmt (cs_kind s) v) specs (rows ! r) = rows ! r"
    using len by (intro nth_equalityI) (simp_all add: stored_value_same)
  then show "materialize_row blk r = Ok (rows ! r)" using m by simp
next
  fix r assume r: "length rows \<le> r \<and> r < 2 ^ 32"
  note bf = built_fields [OF assms(1)]
  have len: "length (pb_staging b) = length (pb_specs b)" using bf by simp
  have hdr: "px_header blk = stored_header b" by (rule finalize_ok [OF bf(3,5) len])
  have "pb_row_count b \<le> of_nat r" using r bf(4) by (simp add: word_le_nat_alt unat_of_nat_small)
  then show "is_err (materialize_row blk r)" by (simp add: materialize_row_def hdr header_of_block)
qed

theorem pax_row_roundtrip_witness:
  "\<exists>blk. finalize sample_builder = Ok blk \<and> materialize_row blk 0 = Ok [VI64 7, VBytes [1, 2, 3]]
     \<and> materialize_row blk 1 = Ok [VI64 9, VNull]"
proof -
  obtain blk where b: "built plain_format 512 sample_specs sample_rows sample_builder blk"
    by (rule sample_block)
  have s: "map2 (\<lambda>s v. stored_value plain_format (cs_kind s) v) sample_specs (sample_rows ! 0) = [VI64 7, VBytes [1, 2, 3]]"
    "map2 (\<lambda>s v. stored_value plain_format (cs_kind s) v) sample_specs (sample_rows ! 1) = [VI64 9, VNull]"
    "length sample_rows = 2"
    by code_simp+
  show ?thesis
    using pax_row_roundtrip [OF b sample_lossless] built_fields(3) [OF b] s by auto
qed



text \<open>
  When a block is built. For rows that were all accepted, with explicitly requested encodings
  that support their columns, \<open>finalize\<close> never panics: it returns a block exactly when
  the header, the directory, the aligned minipages, the var-heap and the bitmaps fit in the
  block size, and otherwise reports how many bytes it needs.
\<close>

lemma finalize_accepts_iff_fits:
  assumes "pax_new bs specs = Ok b0" "append_rows fmt rows b0 = (Ok (), b)" "lossless rows b"
    "length rows < 2 ^ 32" "layout_end b + 7 < 2 ^ 32"
  shows "if bytes_needed b \<le> unat bs then \<exists>blk. finalize b = Ok blk
    else finalize b = Err (constraint (''PaxBlockBuilder: block overflow '' @ map char_of [0xE2, 0x80, 0x94 :: nat]
              @ '' need '' @ show_nat (bytes_needed b) @ '' bytes, block size is '' @ show_nat (unat bs)))"
  by (rule finalize_decides [OF assms])

lemma finalize_accepts_iff_fits_witness: "\<exists>blk. finalize sample_builder = Ok blk"
proof -
  obtain b0 where b0: "pax_new 512 sample_specs = Ok b0"
    "append_rows plain_format sample_rows b0 = (Ok (), sample_builder)"
    by (rule sample_built)
  have "length sample_rows < 2 ^ 32" by (simp add: sample_rows_def)
  moreover have "layout_end sample_builder + 7 < 2 ^ 32" by (simp add: sample_layout)
  ultimately show ?thesis
    using finalize_accepts_iff_fits [OF b0 sample_lossless] by (simp add: sample_layout)
qed

text \<open>C34:
  Predicate pushdown is sound. If a stored row has a key inside the queried range then the
  block's zone map overlaps the range, for the partitioning key and for the timestamp, and so
  does the zone map in the directory entry of each fixed-width column.
\<close>

theorem zone_pushdown_sound:
  assumes "built fmt bs specs rows b blk" "r < length rows" "i < length specs" "lo \<le>s x" "x \<le>s hi"
  shows "(cs_is_pk (specs ! i) \<noteq> 0 \<and> zone_key (rows ! r ! i) = Some x \<longrightarrow> zone_overlaps_pk (px_header blk) lo hi)
    \<and> (cs_is_ts (specs ! i) \<noteq> 0 \<and> zone_key (rows ! r ! i) = Some x \<longrightarrow> zone_overlaps_ts (px_header blk) lo hi)
    \<and> (\<forall>d. px_directory blk i = Ok d \<and> fixed_width (cs_kind (specs ! i)) > 0
         \<and> fixed_cell (cs_kind (specs ! i)) (rows ! r ! i) = x \<longrightarrow> dir_zone_overlaps d lo hi)"
proof -
  note bf = built_fields [OF assms(1)]
  obtain b0 where b0: "pax_new bs specs = Ok b0" "append_rows fmt rows b0 = (Ok (), b)"
    using assms(1) unfolding built_def by blast
  note new = pax_new_fields [OF b0(1)]
  have "length (pb_staging b0) = length (pb_specs b0)" by (simp add: new)
  note cov = append_rows_covers [OF b0(2) this, unfolded new(2)]
  have len: "length (pb_staging b) = length (pb_specs b)" using bf by simp
  have hdr: "px_header blk = stored_header b" by (rule finalize_ok [OF bf(3,5) len])
  have row: "rows ! r \<in> set rows" using assms(2) by simp
  have pk: "zone_overlaps_pk (px_header blk) lo hi"
    if "cs_is_pk (specs ! i) \<noteq> 0" "zone_key (rows ! r ! i) = Some x"
  proof -
    have "covers (pb_pk_range b) x" using cov row assms(3) that by blast
    then show ?thesis
      using overlaps_covered [OF assms(4,5)]
      by (auto simp: covers_def zone_overlaps_pk_def hdr header_of_block split: option.splits)
  qed
  have ts: "zone_overlaps_ts (px_header blk) lo hi"
    if "cs_is_ts (specs ! i) \<noteq> 0" "zone_key (rows ! r ! i) = Some x"
  proof -
    have "covers (pb_ts_range b) x" using cov row assms(3) that by blast
    then show ?thesis
      using overlaps_covered [OF assms(4,5)]
      by (auto simp: covers_def zone_overlaps_ts_def hdr header_of_block split: option.splits)
  qed
  show ?thesis
    using pk ts column_zone [OF assms(1,3) _ assms(2)] overlaps_covered [OF assms(4,5)]
    by (auto simp: dir_zone_overlaps_def)
qed

theorem zone_pushdown_sound_witness:
  "\<exists>blk. finalize sample_builder = Ok blk \<and> zone_overlaps_pk (px_header blk) 8 20"
proof -
  obtain blk where b: "built plain_format 512 sample_specs sample_rows sample_builder blk"
    by (rule sample_block)
  have s: "(1 :: nat) < length sample_rows" "(0 :: nat) < length sample_specs" "(8 :: i64) \<le>s 9" "(9 :: i64) \<le>s 20"
    "cs_is_pk (sample_specs ! 0) \<noteq> 0" "zone_key (sample_rows ! 1 ! 0) = Some 9"
    by code_simp+
  show ?thesis
    using zone_pushdown_sound [OF b s(1-4)] s(5,6) built_fields(3) [OF b] by blast
qed

definition shifted_builder :: pax_builder where
  "shifted_builder = \<lparr>pb_block_size = 320, pb_specs = [column_spec_new 0 KI64, column_spec_new 1 KI64],
     pb_staging = [Fixed KI64 [1, 2], Fixed KI64 [3]], pb_row_count = 1, pb_pk_range = None, pb_ts_range = None\<rparr>"

lemma shifted_builder_layout:
  "layout_end shifted_builder = 264 \<and> bytes_needed shifted_builder = 267
   \<and> and_then (layout_columns 1 192 (block_cols shifted_builder)) (\<lambda>(mps, dirs, fin). Ok
       (map (\<lambda>(d, m). and_then (decode_minipage (from_discriminant (cd_encoding d)) m (unat (cd_value_count d)))
           (\<lambda>vs. Ok (vs ! 0, length vs, cd_kind d))) (zip dirs mps), length mps, length dirs, fin))
     = Ok ([Ok (1, 1, 2), Ok (3, 1, 2)], 2, 2, 264)"
  by (intro conjI) code_simp+


lemma shifted_row:
  "\<exists>blk. finalize shifted_builder = Ok blk \<and> materialize_row blk 0 = Ok [VI64 1, VI64 3]"
proof -
  let ?b = "shifted_builder"
  have sp: "length (pb_specs ?b) = 2" "pb_row_count ?b = 1" "pb_block_size ?b = 320"
    and len: "length (pb_staging ?b) = length (pb_specs ?b)"
    by (simp_all add: shifted_builder_def)
  note facts = shifted_builder_layout
  have le: "layout_end ?b + 7 < 2 ^ 32" using facts by simp
  obtain mps dirs fin where lay: "layout_columns (pb_row_count ?b) (64 + 64 * length (pb_specs ?b)) (block_cols ?b) = Ok (mps, dirs, fin)"
    and cells: "map (\<lambda>(d, m). and_then (decode_minipage (from_discriminant (cd_encoding d)) m (unat (cd_value_count d)))
           (\<lambda>vs. Ok (vs ! 0, length vs, cd_kind d))) (zip dirs mps) = [Ok (1, 1, 2), Ok (3, 1, 2)]"
    and lens: "length mps = 2" "length dirs = 2"
    using facts by (auto simp: sp)
  obtain blk where fin: "finalize ?b = Ok blk"
    using finalize_decides_layout [OF lay len le sp(3)] facts by auto
  obtain mps' dirs' where
    lay': "layout_columns (pb_row_count ?b) (64 + 64 * length (pb_specs ?b)) (block_cols ?b) = Ok (mps', dirs', layout_end ?b)"
    and hdr: "px_header blk = stored_header ?b"
    and dirs: "\<And>i. i < length (pb_specs ?b) \<Longrightarrow> px_directory blk i = Ok (dirs' ! i)"
    and pages: "\<And>i. i < length (pb_specs ?b) \<Longrightarrow> px_minipage_bytes blk i = Ok (stored_minipage ?b i (mps' ! i))"
    by (rule finalize_ok [OF fin le len]) (rule that)
  have same: "mps' = mps" "dirs' = dirs" using lay lay' by simp_all
  have fixed: "\<not> is_var (block_cols ?b ! i)" if "i < 2" for i
    using that by (auto simp: is_var_iff shifted_builder_def column_spec_new_def less_Suc_eq numeral_2_eq_2)
  have cell: "read_cell blk 0 i = Ok (VI64 x)"
    if i: "i < 2" and c: "and_then (decode_minipage (from_discriminant (cd_encoding (dirs ! i))) (mps ! i)
        (unat (cd_value_count (dirs ! i)))) (\<lambda>vs. Ok (vs ! 0, length vs, cd_kind (dirs ! i))) = Ok (x, 1, 2)" for i x
  proof -
    obtain vs where vs: "decode_minipage (from_discriminant (cd_encoding (dirs ! i))) (mps ! i)
        (unat (cd_value_count (dirs ! i))) = Ok vs" "vs ! 0 = x" "length vs = 1" "cd_kind (dirs ! i) = 2"
      using c by auto
    have "value_kind_from_u8 2 = KI64" by code_simp
    then show ?thesis
      using vs dirs [of i] pages [of i] fixed [OF i] i sp
      by (simp add: read_cell_def px_decode_i64_column_def same stored_minipage_def Let_def)
  qed
  have "read_cell blk 0 0 = Ok (VI64 1)" "read_cell blk 0 1 = Ok (VI64 3)"
    using cells lens by (auto simp: numeral_2_eq_2 length_Suc_conv intro!: cell)
  moreover have "unat (bh_column_count (stored_header ?b)) = 2" "[0..<2] = [0, 1 :: nat]"
    by (simp_all add: header_of_block sp upt_rec)
  ultimately have "materialize_row blk 0 = Ok [VI64 1, VI64 3]"
    by (simp add: materialize_row_def hdr header_of_block sp)
  then show ?thesis using fin by blast
qed

text \<open>
  A refused row shifts the columns. \<open>append_row\<close> stores the values before the first one it
  refuses and does not take them back: after a refused row \<open>(1, true)\<close> and an accepted row
  \<open>(2, 3)\<close> of two integer columns, the only row of the finished block reads \<open>(1, 3)\<close>,
  which was never appended.
\<close>

lemma refused_row_shifts_columns:
  "\<exists>b b1 b2 blk. pax_new 320 [column_spec_new 0 KI64, column_spec_new 1 KI64] = Ok b
     \<and> append_row fmt [VI64 1, VBool True] b
       = (Err (constraint ''append_row: cannot store Bool(true) in column of kind I64''), b1)
     \<and> append_row fmt [VI64 2, VI64 3] b1 = (Ok 0, b2)
     \<and> finalize b2 = Ok blk \<and> materialize_row blk 0 = Ok [VI64 1, VI64 3]"
proof -
  let ?s = "[column_spec_new 0 KI64, column_spec_new 1 KI64]"
  have k: "cs_kind (column_spec_new i KI64) = KI64" "cs_is_pk (column_spec_new i KI64) = 0"
    "cs_is_ts (column_spec_new i KI64) = 0" for i
    by (simp_all add: column_spec_new_def)
  obtain b where b: "pax_new 320 ?s = Ok b" "b = \<lparr>pb_block_size = 320, pb_specs = ?s,
      pb_staging = [Fixed KI64 [], Fixed KI64 []], pb_row_count = 0, pb_pk_range = None, pb_ts_range = None\<rparr>"
    by (simp add: pax_new_def staging_for_def k)
  let ?b1 = "b\<lparr>pb_staging := [Fixed KI64 [1], Fixed KI64 []]\<rparr>"
  have r1: "append_row fmt [VI64 1, VBool True] b
      = (Err (constraint ''append_row: cannot store Bool(true) in column of kind I64''), ?b1)"
    by (simp add: b(2) append_row_def write_value_def track_zones_def encode_fixed_def k Let_def)
  have r2: "append_row fmt [VI64 2, VI64 3] ?b1 = (Ok 0, shifted_builder)"
    by (simp add: b(2) append_row_def write_value_def track_zones_def encode_fixed_def k Let_def shifted_builder_def)
  show ?thesis using b(1) r1 r2 shifted_row by blast
qed

end
