(* ===== verification/PaxReader.thy ===== *)
theory PaxReader
  imports PaxProps
begin

text \<open>
  \<open>PaxBlockReader\<close>, the reader that borrows the bytes of a buffer-pool frame: a second copy of
  the reading methods of \<open>PaxBlock\<close>. It reads the same as the owning block, column views
  apart, whose refusals differ in their message only.
\<close>

record pax_reader =
  pr_buf :: bytes
  pr_block_size :: u32

definition reader_new :: "bytes \<Rightarrow> u32 \<Rightarrow> pax_reader" where
  "reader_new buf block_size = \<lparr>pr_buf = buf, pr_block_size = block_size\<rparr>"

definition px_reader :: "pax_block \<Rightarrow> pax_reader" where
  "px_reader p = reader_new (px_buf p) (px_block_size p)"

definition rd_header :: "pax_reader \<Rightarrow> block_header" where
  "rd_header p =
     (if length (pr_buf p) < block_header_size then block_header_empty
      else block_header_read (slice (pr_buf p) 0 block_header_size))"

definition rd_directory :: "pax_reader \<Rightarrow> nat \<Rightarrow> column_directory cen_result" where
  "rd_directory p idx =
     (let off = block_header_size + idx * column_directory_size; fin = off + column_directory_size
      in if fin > length (pr_buf p)
         then Err (corrupt (''directory('' @ show_nat idx @ '') out of bounds''))
         else Ok (column_directory_read (slice (pr_buf p) off fin)))"

definition rd_minipage_bytes :: "pax_reader \<Rightarrow> nat \<Rightarrow> bytes cen_result" where
  "rd_minipage_bytes p idx = and_then (rd_directory p idx) (\<lambda>dir.
     let off = unat (cd_minipage_off dir); fin = off + unat (cd_compressed_len dir)
     in if fin > length (pr_buf p)
        then Err (corrupt (''minipage('' @ show_nat idx @ '') out of bounds: '' @ show_nat off
               @ ''..'' @ show_nat fin))
        else Ok (slice (pr_buf p) off fin))"

definition rd_decode_i64_column :: "pax_reader \<Rightarrow> nat \<Rightarrow> i64 list cen_result" where
  "rd_decode_i64_column p idx = and_then (rd_directory p idx) (\<lambda>dir.
     and_then (rd_minipage_bytes p idx) (\<lambda>bs.
       decode_minipage (from_discriminant (cd_encoding dir)) bs (unat (cd_value_count dir))))"

definition rd_column_view :: "pax_reader \<Rightarrow> nat \<Rightarrow> bytes cen_result" where
  "rd_column_view p idx = and_then (rd_minipage_bytes p idx) (\<lambda>bs.
     and_then (rd_directory p idx) (\<lambda>dir.
       if cd_encoding dir \<noteq> discriminant Raw \<and> bs \<noteq> []
       then Err (constraint (''column_view: column '' @ show_nat idx @ '' is encoded; decode first''))
       else column_view_new bs))"

definition rd_var_value :: "pax_reader \<Rightarrow> nat \<Rightarrow> nat \<Rightarrow> bytes option cen_result" where
  "rd_var_value p idx row = and_then (rd_directory p idx) (\<lambda>dir.
     if cd_kind dir \<noteq> value_kind_u8 KBytes
     then Err (constraint (''var_value: column '' @ show_nat idx @ '' is not Bytes''))
     else and_then (rd_minipage_bytes p idx) (\<lambda>mp.
       let slot_off = row * 8
       in if slot_off + 8 > length mp
          then Err (corrupt (''var_value: slot '' @ show_nat row @ '' out of bounds in column ''
                 @ show_nat idx))
          else
            let off = unat (from_le (slice mp slot_off (slot_off + 4)) :: u32);
                len = from_le (slice mp (slot_off + 4) (slot_off + 8)) :: u32
            in if len = - 1 then Ok None
               else
                 let heap_off = unat (bh_varheap_off (rd_header p)) + off;
                     heap_end = heap_off + unat len
                 in if heap_end > length (pr_buf p)
                    then Err (corrupt (''var_value: heap slice '' @ show_nat heap_off @ ''..''
                           @ show_nat heap_end @ '' out of bounds''))
                    else Ok (Some (slice (pr_buf p) heap_off heap_end))))"

lemma reader_fields [simp]: "pr_buf (px_reader p) = px_buf p"
  by (simp add: px_reader_def reader_new_def)

lemma reader_header: "rd_header (px_reader p) = px_header p"
  by (simp only: rd_header_def px_header_def reader_fields)

lemma reader_directory: "rd_directory (px_reader p) = px_directory p"
  by (rule ext) (simp only: rd_directory_def px_directory_def reader_fields)

lemma reader_minipage: "rd_minipage_bytes (px_reader p) = px_minipage_bytes p"
  by (rule ext) (simp only: rd_minipage_bytes_def px_minipage_bytes_def reader_directory reader_fields)

lemmas reader_parts = reader_header reader_directory reader_minipage

lemma reader_column_view:
  "rd_column_view (px_reader p) i = Ok view \<longleftrightarrow> px_column_view p i = Ok view"
  "rd_column_view (px_reader p) i = Panic \<longleftrightarrow> px_column_view p i = Panic"
proof -
  have guard: "(if c then Err e else x) = Ok view \<longleftrightarrow> (if c then Err e' else x) = Ok view"
    "(if c then Err e else x) = Panic \<longleftrightarrow> (if c then Err e' else x) = Panic"
    for c e e' and x :: "bytes cen_result"
    by simp_all
  have swap: "and_then a (\<lambda>bs. and_then d (\<lambda>dir. f dir bs)) = Ok view
      \<longleftrightarrow> and_then d (\<lambda>dir. and_then a (\<lambda>bs. g dir bs)) = Ok view"
    "and_then a (\<lambda>bs. and_then d (\<lambda>dir. f dir bs)) = Panic
      \<longleftrightarrow> and_then d (\<lambda>dir. and_then a (\<lambda>bs. g dir bs)) = Panic"
    if "\<And>dir bs. f dir bs = Ok view \<longleftrightarrow> g dir bs = Ok view" "\<And>dir bs. f dir bs = Panic \<longleftrightarrow> g dir bs = Panic"
      "a = Panic \<Longrightarrow> \<not> is_err d" "d = Panic \<Longrightarrow> \<not> is_err a"
    for a :: "bytes cen_result" and d :: "column_directory cen_result" and f g
    using that by (cases a; cases d; simp)+
  have mp: "px_minipage_bytes p i \<noteq> Panic" "px_directory p i \<noteq> Panic"
    by (simp_all add: px_minipage_bytes_def px_directory_def Let_def)
  show "rd_column_view (px_reader p) i = Ok view \<longleftrightarrow> px_column_view p i = Ok view"
    unfolding rd_column_view_def px_column_view_def reader_parts
    by (rule swap(1) [OF guard]) (use mp in simp_all)
  show "rd_column_view (px_reader p) i = Panic \<longleftrightarrow> px_column_view p i = Panic"
    unfolding rd_column_view_def px_column_view_def reader_parts
    by (rule swap(2) [OF guard]) (use mp in simp_all)
qed

text \<open>
  The borrowing reader agrees with the owning block: over the same bytes it returns the same
  header, directory entries, minipages, decoded columns and variable-length values, errors
  included, and a column view exactly when the block returns it, with the same bytes.
\<close>

lemma reader_agrees_with_block:
  "rd_header (px_reader p) = px_header p \<and> rd_directory (px_reader p) = px_directory p
   \<and> rd_minipage_bytes (px_reader p) = px_minipage_bytes p
   \<and> rd_decode_i64_column (px_reader p) = px_decode_i64_column p
   \<and> rd_var_value (px_reader p) = px_var_value p
   \<and> (\<forall>i view. rd_column_view (px_reader p) i = Ok view \<longleftrightarrow> px_column_view p i = Ok view)
   \<and> (\<forall>i. rd_column_view (px_reader p) i = Panic \<longleftrightarrow> px_column_view p i = Panic)"
proof (intro conjI allI)
  show "rd_decode_i64_column (px_reader p) = px_decode_i64_column p"
    by (rule ext) (simp only: rd_decode_i64_column_def px_decode_i64_column_def reader_parts)
  show "rd_var_value (px_reader p) = px_var_value p"
    by (intro ext) (simp only: rd_var_value_def px_var_value_def reader_parts reader_fields)
next
  fix i view
  show "rd_column_view (px_reader p) i = Ok view \<longleftrightarrow> px_column_view p i = Ok view"
    by (rule reader_column_view(1))
next
  fix i
  show "rd_column_view (px_reader p) i = Panic \<longleftrightarrow> px_column_view p i = Panic"
    by (rule reader_column_view(2))
qed (rule reader_header reader_directory reader_minipage)+

end
