(* ===== verification/Segment.thy ===== *)
theory Segment
  imports PaxReader
begin

text \<open>
  Segment files (\<open>cendb-storage/src/segment.rs\<close>): the directory of blocks and its bytes, the
  append-only writer and the random-access reader. A file is the list of its bytes; positions in a
  file are natural numbers. Creating, seeking and writing succeed; reading past the end of the file
  and seeking beyond \<open>2 ^ 63\<close> are the operating system's errors.
\<close>

section \<open>Files\<close>

text \<open>Writing overwrites from an offset and extends the file, with zeros in a gap.\<close>

definition file_write :: "nat \<Rightarrow> bytes \<Rightarrow> bytes \<Rightarrow> bytes" where
  "file_write off bs f = take off (f @ replicate (off - length f) 0) @ bs @ drop (off + length bs) f"

definition file_read_exact :: "nat \<Rightarrow> nat \<Rightarrow> bytes \<Rightarrow> bytes cen_result" where
  "file_read_exact off n f =
     (if 2 ^ 63 \<le> off then Err (io_error ''Invalid argument (os error 22)'')
      else if n = 0 \<or> off + n \<le> length f then Ok (slice f off (off + n))
      else Err (io_error ''failed to fill whole buffer''))"

section \<open>The block directory\<close>

record block_dir_entry =
  de_byte_off :: u64
  de_min_pk :: i64
  de_max_pk :: i64
  de_min_ts :: i64
  de_max_ts :: i64
  de_block_id :: u32
  de_row_count :: u32
  de_reserved :: u32
  de_pad :: u32

definition dir_entry_size :: nat where "dir_entry_size = 56"

definition dir_entry_bytes :: "block_dir_entry \<Rightarrow> bytes" where
  "dir_entry_bytes e = le_bytes 8 (de_byte_off e) @ le_bytes 8 (de_min_pk e) @ le_bytes 8 (de_max_pk e)
     @ le_bytes 8 (de_min_ts e) @ le_bytes 8 (de_max_ts e) @ le_bytes 4 (de_block_id e)
     @ le_bytes 4 (de_row_count e) @ le_bytes 4 (de_reserved e) @ le_bytes 4 (de_pad e)"

definition dir_entry_read :: "bytes \<Rightarrow> block_dir_entry" where
  "dir_entry_read b =
     \<lparr>de_byte_off = from_le (slice b 0 8), de_min_pk = from_le (slice b 8 16),
      de_max_pk = from_le (slice b 16 24), de_min_ts = from_le (slice b 24 32),
      de_max_ts = from_le (slice b 32 40), de_block_id = from_le (slice b 40 44),
      de_row_count = from_le (slice b 44 48), de_reserved = from_le (slice b 48 52),
      de_pad = from_le (slice b 52 56)\<rparr>"

type_synonym block_directory = "block_dir_entry list"

definition blocks_overlapping_pk :: "i64 \<Rightarrow> i64 \<Rightarrow> block_directory \<Rightarrow> block_dir_entry list" where
  "blocks_overlapping_pk pk_lo pk_hi es = filter (\<lambda>e. \<not> (de_max_pk e <s pk_lo \<or> pk_hi <s de_min_pk e)) es"

definition blocks_overlapping_ts :: "i64 \<Rightarrow> i64 \<Rightarrow> block_directory \<Rightarrow> block_dir_entry list" where
  "blocks_overlapping_ts ts_lo ts_hi es = filter (\<lambda>e. \<not> (de_max_ts e <s ts_lo \<or> ts_hi <s de_min_ts e)) es"

definition block_directory_to_bytes :: "block_directory \<Rightarrow> bytes" where
  "block_directory_to_bytes es = le_bytes 4 (of_nat (length es) :: u32) @ concat (map dir_entry_bytes es)"

definition block_directory_from_bytes :: "bytes \<Rightarrow> block_directory cen_result" where
  "block_directory_from_bytes bs =
     (if length bs < 4 then Err (corrupt ''BlockDirectory: short header'')
      else let count = unat (from_le (slice bs 0 4) :: u32); body = drop 4 bs
           in if length body < count * dir_entry_size
              then Err (corrupt (''BlockDirectory: expected '' @ show_nat count @ '' entries ''
                     @ map char_of [0xC3, 0x97 :: nat] @ '' '' @ show_nat dir_entry_size
                     @ '' bytes, got '' @ show_nat (length body)))
              else Ok (map (\<lambda>i. dir_entry_read (slice body (i * dir_entry_size) (i * dir_entry_size + dir_entry_size)))
                     [0..<count]))"

section \<open>The writer\<close>

record segment_writer =
  sw_file :: bytes
  sw_header :: segment_header
  sw_block_size :: u32
  sw_next_block_id :: u32
  sw_block_dir :: block_directory
  sw_current_offset :: nat

definition write_header :: "segment_writer \<Rightarrow> segment_writer" where
  "write_header w = w\<lparr>sw_file := file_write 0 (segment_header_bytes (sw_header w)) (sw_file w)\<rparr>"

definition segment_create :: "segment_id \<Rightarrow> u32 \<Rightarrow> u32 \<Rightarrow> u64 \<Rightarrow> segment_writer" where
  "segment_create seg page_size block_size created_lsn =
     write_header \<lparr>sw_file = [], sw_header = segment_header_new seg page_size block_size created_lsn,
       sw_block_size = block_size, sw_next_block_id = 0, sw_block_dir = [], sw_current_offset = 64\<rparr>"

definition append_block :: "pax_block \<Rightarrow> segment_writer \<Rightarrow> block_id cen_result \<times> segment_writer" where
  "append_block blk w =
     (let bs = px_buf blk
      in if length bs \<noteq> unat (sw_block_size w)
         then (Err (constraint (''append_block: block is '' @ show_nat (length bs) @ '' bytes, segment expects ''
                 @ show_nat (unat (sw_block_size w)))), w)
         else
           let block_no = sw_next_block_id w; byte_off = sw_current_offset w; bh = px_header blk;
               entry = \<lparr>de_byte_off = of_nat byte_off, de_min_pk = bh_min_pk bh, de_max_pk = bh_max_pk bh,
                 de_min_ts = bh_min_ts bh, de_max_ts = bh_max_ts bh, de_block_id = block_no,
                 de_row_count = bh_row_count bh, de_reserved = 0, de_pad = 0\<rparr>
           in (Ok (BlockId block_no),
               write_header (w\<lparr>sw_file := file_write byte_off bs (sw_file w),
                 sw_current_offset := byte_off + length bs, sw_block_dir := sw_block_dir w @ [entry],
                 sw_next_block_id := block_no + 1,
                 sw_header := (sw_header w)\<lparr>sh_block_count := block_no + 1\<rparr>\<rparr>)))"

definition segment_seal :: "u64 \<Rightarrow> segment_writer \<Rightarrow> segment_writer" where
  "segment_seal sealed_lsn w =
     (let dir_off = sw_current_offset w; hdr = sw_header w
      in write_header (w\<lparr>sw_file := file_write dir_off (block_directory_to_bytes (sw_block_dir w)) (sw_file w),
           sw_header := hdr\<lparr>sh_sealed_lsn := sealed_lsn, sh_flags := sh_flags hdr OR SEG_FLAG_SEALED,
             sh_block_dir_off := of_nat dir_off\<rparr>\<rparr>))"

definition sw_block_count :: "segment_writer \<Rightarrow> u32" where
  "sw_block_count w = sw_next_block_id w"

section \<open>The reader\<close>

record segment_file =
  sf_file :: bytes
  sf_header :: segment_header
  sf_block_dir :: block_directory
  sf_block_size :: u32

text \<open>A directory offset beyond the end of the file makes the length of the directory wrap around, and
  the allocation of more than \<open>2 ^ 63\<close> bytes panics.\<close>

definition read_directory :: "segment_header \<Rightarrow> bytes \<Rightarrow> block_directory cen_result" where
  "read_directory hdr f =
     (if sh_block_dir_off hdr = 0 then Ok []
      else let dir_len = of_nat (length f) - sh_block_dir_off hdr :: u64
           in if 2 ^ 63 \<le> unat dir_len then Panic
              else and_then (file_read_exact (unat (sh_block_dir_off hdr)) (unat dir_len) f) block_directory_from_bytes)"

definition segment_open :: "bytes \<Rightarrow> segment_file cen_result" where
  "segment_open f =
     and_then (file_read_exact 0 64 f) (\<lambda>hdr_bytes.
       let hdr = segment_header_read hdr_bytes
       in if sh_magic hdr \<noteq> SEGMENT_MAGIC then Err (corrupt ''segment magic mismatch'')
          else if sh_format_ver hdr \<noteq> FORMAT_VERSION
          then Err (corrupt (''unsupported format version '' @ show_nat (unat (sh_format_ver hdr))))
          else and_then (read_directory hdr f) (\<lambda>dir.
            Ok \<lparr>sf_file = f, sf_header = hdr, sf_block_dir = dir, sf_block_size = sh_block_size hdr\<rparr>))"

text \<open>The buffer passed in comes back with the block in its front.\<close>

definition read_block :: "segment_file \<Rightarrow> block_id \<Rightarrow> bytes \<Rightarrow> bytes cen_result" where
  "read_block s bid buf =
     (case find (\<lambda>e. de_block_id e = block_no bid) (sf_block_dir s) of
        None \<Rightarrow> Err (not_found (''block '' @ show_nat (unat (block_no bid)) @ '' not in directory''))
      | Some e \<Rightarrow>
          let n = unat (sf_block_size s)
          in if length buf < n
             then Err (constraint (''read_block: buf is '' @ show_nat (length buf) @ '' bytes, need '' @ show_nat n))
             else and_then (file_read_exact (unat (de_byte_off e)) n (sf_file s)) (\<lambda>bs. Ok (bs @ drop n buf)))"

definition read_block_alloc :: "segment_file \<Rightarrow> block_id \<Rightarrow> bytes cen_result" where
  "read_block_alloc s bid = read_block s bid (replicate (unat (sf_block_size s)) 0)"

definition sf_segment_id :: "segment_file \<Rightarrow> segment_id" where
  "sf_segment_id s = SegmentId (sh_segment_id (sf_header s))"

section \<open>Directories\<close>

lemma length_dir_entry_bytes [simp, len_simps]: "length (dir_entry_bytes e) = 56"
  by (simp add: dir_entry_bytes_def)

lemma dir_entry_roundtrip [codec_rt]: "dir_entry_read (dir_entry_bytes e) = e"
  by (cases e) (simp add: dir_entry_read_def dir_entry_bytes_def field_slices)

lemma block_directory_roundtrip [codec_rt]:
  assumes "length es < 2 ^ 32"
  shows "block_directory_from_bytes (block_directory_to_bytes es) = Ok es"
proof -
  have n: "unat (of_nat (length es) :: u32) = length es" using assms by (intro unat_of_nat_small) simp
  have len: "length (concat (map dir_entry_bytes es)) = length es * 56"
    using length_concat_chunks [of "map dir_entry_bytes es" 56] by simp
  have "map (\<lambda>i. dir_entry_read (slice (concat (map dir_entry_bytes es)) (i * 56) (i * 56 + 56))) [0..<length es] = es"
    using slice_chunk [of "map dir_entry_bytes es" 56] by (intro nth_equalityI) (simp_all add: dir_entry_roundtrip)
  then show ?thesis
    by (simp add: block_directory_from_bytes_def block_directory_to_bytes_def field_slices n len dir_entry_size_def)
qed


section \<open>Writing and reading back\<close>

text \<open>The directory entry of the block at a position.\<close>

definition entry_for :: "u32 \<Rightarrow> nat \<Rightarrow> pax_block \<Rightarrow> block_dir_entry" where
  "entry_for block_size i blk =
     \<lparr>de_byte_off = of_nat (64 + i * unat block_size), de_min_pk = bh_min_pk (px_header blk),
      de_max_pk = bh_max_pk (px_header blk), de_min_ts = bh_min_ts (px_header blk),
      de_max_ts = bh_max_ts (px_header blk), de_block_id = of_nat i,
      de_row_count = bh_row_count (px_header blk), de_reserved = 0, de_pad = 0\<rparr>"

definition entries_for :: "u32 \<Rightarrow> pax_block list \<Rightarrow> block_directory" where
  "entries_for block_size blks = map (\<lambda>(i, blk). entry_for block_size i blk) (enumerate 0 blks)"

fun append_blocks :: "pax_block list \<Rightarrow> segment_writer \<Rightarrow> segment_writer" where
  "append_blocks [] w = w"
| "append_blocks (blk # blks) w = append_blocks blks (snd (append_block blk w))"

text \<open>What a writer holds after some blocks: its file is the header and the blocks.\<close>

definition writer_holds :: "segment_header \<Rightarrow> pax_block list \<Rightarrow> segment_writer \<Rightarrow> bool" where
  "writer_holds hdr blks w \<longleftrightarrow>
     sw_header w = hdr\<lparr>sh_block_count := of_nat (length blks)\<rparr>
     \<and> sw_block_size w = sh_block_size hdr
     \<and> sw_file w = segment_header_bytes (sw_header w) @ concat (map px_buf blks)
     \<and> sw_next_block_id w = of_nat (length blks)
     \<and> sw_block_dir w = entries_for (sh_block_size hdr) blks
     \<and> sw_current_offset w = 64 + length blks * unat (sh_block_size hdr)
     \<and> (\<forall>blk\<in>set blks. length (px_buf blk) = unat (sh_block_size hdr))"

lemma file_write_front: "length h = length h' \<Longrightarrow> file_write 0 h' (h @ rest) = h' @ rest"
  by (simp add: file_write_def)

lemma file_write_end: "off = length f \<Longrightarrow> file_write off bs f = f @ bs"
  by (simp add: file_write_def)

lemma entries_for_simps [simp]:
  "entries_for bsz [] = []"
  "entries_for bsz (blks @ [blk]) = entries_for bsz blks @ [entry_for bsz (length blks) blk]"
  "length (entries_for bsz blks) = length blks"
  by (simp_all add: entries_for_def enumerate_append_eq)

lemma entries_for_nth: "i < length blks \<Longrightarrow> entries_for bsz blks ! i = entry_for bsz i (blks ! i)"
  by (simp add: entries_for_def nth_enumerate_eq)

lemma length_header_new: "length (sh_magic (segment_header_new seg ps bsz lsn)) = 8"
  by (simp add: segment_header_new_def SEGMENT_MAGIC_def)

lemma writer_holds_create: "writer_holds (segment_header_new seg ps bsz lsn) [] (segment_create seg ps bsz lsn)"
  by (simp add: writer_holds_def segment_create_def write_header_def file_write_def segment_header_new_def)

lemma writer_holds_append [inv_intro]:
  assumes "writer_holds hdr blks w" "length (sh_magic hdr) = 8" "length (px_buf blk) = unat (sh_block_size hdr)"
  shows "fst (append_block blk w) = Ok (BlockId (of_nat (length blks)))"
    "writer_holds hdr (blks @ [blk]) (snd (append_block blk w))"
proof -
  note w = assms(1) [unfolded writer_holds_def]
  have size: "length (concat (map px_buf blks)) = length blks * unat (sh_block_size hdr)"
    using length_concat_chunks [of "map px_buf blks"] w by simp
  have len: "length (segment_header_bytes (hdr\<lparr>sh_block_count := c\<rparr>)) = 64" for c
    by (rule length_segment_header_bytes) (simp add: assms(2))
  have wf: "file_write (64 + length blks * unat (sh_block_size hdr)) (px_buf blk) (sw_file w)
      = segment_header_bytes (hdr\<lparr>sh_block_count := of_nat (length blks)\<rparr>) @ concat (map px_buf (blks @ [blk]))"
    using w size len by (subst file_write_end) simp_all
  show "fst (append_block blk w) = Ok (BlockId (of_nat (length blks)))"
    using w assms(3) by (simp add: append_block_def Let_def)
  show "writer_holds hdr (blks @ [blk]) (snd (append_block blk w))"
    using w assms(3) wf
    by (simp add: writer_holds_def append_block_def Let_def write_header_def entry_for_def file_write_front len add.commute)
qed

lemma writer_holds_blocks:
  assumes "writer_holds hdr olds w" "length (sh_magic hdr) = 8" "\<forall>blk\<in>set blks. length (px_buf blk) = unat (sh_block_size hdr)"
  shows "writer_holds hdr (olds @ blks) (append_blocks blks w)"
  using assms
proof (induction blks arbitrary: olds w)
  case (Cons blk blks)
  then show ?case using Cons.IH [OF writer_holds_append(2) [OF Cons.prems(1,2), of blk]] by simp
qed simp

text \<open>The file a sealed writer leaves.\<close>

definition sealed_header :: "segment_header \<Rightarrow> u64 \<Rightarrow> nat \<Rightarrow> segment_header" where
  "sealed_header hdr sealed_lsn n =
     hdr\<lparr>sh_block_count := of_nat n, sh_sealed_lsn := sealed_lsn, sh_flags := sh_flags hdr OR SEG_FLAG_SEALED,
       sh_block_dir_off := of_nat (64 + n * unat (sh_block_size hdr))\<rparr>"

lemma sealed_file:
  assumes "writer_holds hdr blks w" "length (sh_magic hdr) = 8"
  shows "sw_file (segment_seal sealed_lsn w) = segment_header_bytes (sealed_header hdr sealed_lsn (length blks))
    @ concat (map px_buf blks) @ block_directory_to_bytes (entries_for (sh_block_size hdr) blks)"
proof -
  note w = assms(1) [unfolded writer_holds_def]
  have size: "length (concat (map px_buf blks)) = length blks * unat (sh_block_size hdr)"
    using length_concat_chunks [of "map px_buf blks"] w by simp
  have len: "length (segment_header_bytes h) = 64" if "sh_magic h = sh_magic hdr" for h
    using that assms(2) by (simp add: length_segment_header_bytes)
  have "file_write (64 + length blks * unat (sh_block_size hdr)) (block_directory_to_bytes (sw_block_dir w)) (sw_file w)
      = sw_file w @ block_directory_to_bytes (sw_block_dir w)"
    using w size len by (intro file_write_end) simp
  then show ?thesis
    using w len by (simp add: segment_seal_def Let_def write_header_def sealed_header_def file_write_front)
qed


subsection \<open>Opening\<close>

text \<open>The bytes in the file of a sealed segment.\<close>

definition segment_length :: "u32 \<Rightarrow> nat \<Rightarrow> nat" where
  "segment_length block_size n = 64 + n * unat block_size + (4 + n * 56)"

lemma length_block_directory_bytes: "length (block_directory_to_bytes es) = 4 + length es * 56"
  using length_concat_chunks [of "map dir_entry_bytes es" 56] by (simp add: block_directory_to_bytes_def)

lemma header_new_fields:
  "sh_block_size (segment_header_new seg ps bsz lsn) = bsz" "sh_magic (segment_header_new seg ps bsz lsn) = SEGMENT_MAGIC"
  "sh_format_ver (segment_header_new seg ps bsz lsn) = FORMAT_VERSION" "sh_segment_id (segment_header_new seg ps bsz lsn) = segment_no seg"
  "sh_flags (segment_header_new seg ps bsz lsn) = 0" "sh_block_dir_off (segment_header_new seg ps bsz lsn) = 0"
  by (simp_all add: segment_header_new_def)

lemma sealed_header_fields:
  "sh_block_size (sealed_header h l n) = sh_block_size h" "sh_magic (sealed_header h l n) = sh_magic h"
  "sh_format_ver (sealed_header h l n) = sh_format_ver h" "sh_segment_id (sealed_header h l n) = sh_segment_id h"
  "sh_block_dir_off (sealed_header h l n) = of_nat (64 + n * unat (sh_block_size h))" "sh_sealed_lsn (sealed_header h l n) = l"
  by (simp_all add: sealed_header_def)

lemma magic_length: "length SEGMENT_MAGIC = 8"
  by (simp add: SEGMENT_MAGIC_def)

lemma open_header:
  assumes "sh_magic h = SEGMENT_MAGIC" "sh_format_ver h = FORMAT_VERSION"
  shows "segment_open (segment_header_bytes h @ rest) = and_then (read_directory h (segment_header_bytes h @ rest)) (\<lambda>dir.
    Ok \<lparr>sf_file = segment_header_bytes h @ rest, sf_header = h, sf_block_dir = dir, sf_block_size = sh_block_size h\<rparr>)"
proof -
  have "length (segment_header_bytes h) = 64" using assms(1) by (simp add: length_segment_header_bytes magic_length)
  moreover have "segment_header_read (segment_header_bytes h) = h"
    using assms(1) by (simp add: segment_header_roundtrip magic_length)
  ultimately show ?thesis
    using assms by (simp add: segment_open_def file_read_exact_def slice_0_append Let_def)
qed

lemma of_nat_64: "n < 2 ^ 63 \<Longrightarrow> unat (of_nat n :: u64) = n"
  by (intro unat_of_nat_small) simp

lemma sealed_opens:
  assumes holds: "writer_holds (segment_header_new seg ps bsz lsn) blks w" and n: "length blks < 2 ^ 32"
    and small: "segment_length bsz (length blks) < 2 ^ 63"
  shows "segment_open (sw_file (segment_seal sealed_lsn w)) =
    Ok \<lparr>sf_file = sw_file (segment_seal sealed_lsn w),
      sf_header = sealed_header (segment_header_new seg ps bsz lsn) sealed_lsn (length blks),
      sf_block_dir = entries_for bsz blks, sf_block_size = bsz\<rparr>"
proof -
  let ?h = "sealed_header (segment_header_new seg ps bsz lsn) sealed_lsn (length blks)"
  let ?f = "sw_file (segment_seal sealed_lsn w)" and ?off = "64 + length blks * unat bsz"
  let ?dir = "block_directory_to_bytes (entries_for bsz blks)"
  have f: "?f = segment_header_bytes ?h @ concat (map px_buf blks) @ ?dir"
    using sealed_file [OF holds length_header_new] by (simp add: header_new_fields)
  have hl: "length (segment_header_bytes ?h) = 64"
    by (rule length_segment_header_bytes) (simp add: sealed_header_fields header_new_fields magic_length)
  have bl: "length (concat (map px_buf blks)) = length blks * unat bsz"
    using length_concat_chunks [of "map px_buf blks"] holds by (simp add: writer_holds_def header_new_fields)
  have dl: "length ?dir = 4 + length blks * 56" by (simp add: length_block_directory_bytes)
  have flen: "length ?f = ?off + length ?dir" by (simp add: f hl bl)
  have off: "unat (of_nat ?off :: u64) = ?off" using small by (intro of_nat_64) (simp add: segment_length_def)
  have "of_nat (length ?f) - of_nat ?off = (of_nat (length ?dir) :: u64)" by (simp add: flen)
  moreover have "unat (of_nat (length ?dir) :: u64) = length ?dir"
    using small by (intro of_nat_64) (simp add: segment_length_def dl)
  moreover have "(of_nat ?off :: u64) \<noteq> 0" using off by (metis add_is_0 unat_0 zero_neq_numeral)
  moreover have "slice ?f ?off (?off + length ?dir) = ?dir"
    by (simp add: f slice_def hl bl)
  ultimately have "read_directory ?h ?f = Ok (entries_for bsz blks)"
    using small off block_directory_roundtrip [of "entries_for bsz blks"] n
    by (simp add: read_directory_def sealed_header_fields header_new_fields Let_def file_read_exact_def flen
        segment_length_def dl)
  then show ?thesis
    unfolding f using open_header [of ?h "concat (map px_buf blks) @ ?dir"]
    by (simp add: sealed_header_fields header_new_fields)
qed

lemma entries_find:
  assumes "length blks < 2 ^ 32"
  shows "find (\<lambda>e. de_block_id e = i) (entries_for bsz blks)
    = (if unat i < length blks then Some (entry_for bsz (unat i) (blks ! unat i)) else None)"
proof -
  have ids: "de_block_id (entries_for bsz blks ! j) = i \<longleftrightarrow> j = unat i" if "j < length blks" for j
  proof -
    have "unat (of_nat j :: u32) = j" using that assms by (intro unat_of_nat_small) simp
    then show ?thesis using that by (auto simp: entries_for_nth entry_for_def)
  qed
  show ?thesis
  proof (cases "unat i < length blks")
    case True
    then have "find (\<lambda>e. de_block_id e = i) (entries_for bsz blks) = Some (entries_for bsz blks ! unat i)"
      unfolding find_Some_iff using ids by (intro exI [of _ "unat i"]) auto
    then show ?thesis using True by (simp add: entries_for_nth)
  next
    case False
    then have "find (\<lambda>e. de_block_id e = i) (entries_for bsz blks) = None"
      unfolding find_None_iff in_set_conv_nth using ids by auto
    then show ?thesis using False by simp
  qed
qed

lemma sealed_reads:
  assumes holds: "writer_holds (segment_header_new seg ps bsz lsn) blks w" and n: "length blks < 2 ^ 32"
    and small: "segment_length bsz (length blks) < 2 ^ 63"
    and s: "segment_open (sw_file (segment_seal sealed_lsn w)) = Ok s" and buf: "unat bsz \<le> length buf"
  shows "unat i < length blks \<Longrightarrow> read_block s (BlockId i) buf = Ok (px_buf (blks ! unat i) @ drop (unat bsz) buf)"
    "length blks \<le> unat i \<Longrightarrow> is_err (read_block s (BlockId i) buf)"
proof -
  let ?f = "sw_file (segment_seal sealed_lsn w)"
  have fields: "sf_file s = ?f" "sf_block_dir s = entries_for bsz blks" "sf_block_size s = bsz"
    using sealed_opens [OF holds n small] s by auto
  have f: "?f = segment_header_bytes (sealed_header (segment_header_new seg ps bsz lsn) sealed_lsn (length blks))
      @ concat (map px_buf blks) @ block_directory_to_bytes (entries_for bsz blks)"
    using sealed_file [OF holds length_header_new] by (simp add: header_new_fields)
  have hl: "length (segment_header_bytes (sealed_header (segment_header_new seg ps bsz lsn) sealed_lsn (length blks))) = 64"
    by (rule length_segment_header_bytes) (simp add: sealed_header_fields header_new_fields magic_length)
  have each: "\<forall>x\<in>set (map px_buf blks). length x = unat bsz"
    using holds by (simp add: writer_holds_def header_new_fields)
  have bl: "length (concat (map px_buf blks)) = length blks * unat bsz"
    using length_concat_chunks [OF each] by simp
  note find = entries_find [OF n, of i bsz]
  show "is_err (read_block s (BlockId i) buf)" if "length blks \<le> unat i"
    using find that by (simp add: read_block_def fields)
  assume i: "unat i < length blks"
  let ?off = "64 + unat i * unat bsz"
  have "Suc (unat i) * unat bsz \<le> length blks * unat bsz" using i by (intro mult_le_mono1) simp
  then have within: "?off + unat bsz \<le> 64 + length blks * unat bsz" by simp
  then have bound: "?off < 2 ^ 63" using small unfolding segment_length_def by linarith
  then have off: "unat (of_nat ?off :: u64) = ?off" by (rule of_nat_64)
  have "slice ?f ?off (?off + unat bsz) = slice (concat (map px_buf blks)) (unat i * unat bsz) (unat i * unat bsz + unat bsz)"
    using within bl hl by (simp add: f slice_def)
  also have "\<dots> = px_buf (blks ! unat i)" using slice_chunk [OF each, of "unat i"] i by simp
  finally have content: "slice ?f ?off (?off + unat bsz) = px_buf (blks ! unat i)" .
  have "?off + unat bsz \<le> length ?f" using within by (simp add: f hl bl)
  then have "file_read_exact ?off (unat bsz) ?f = Ok (px_buf (blks ! unat i))"
    using bound content by (simp add: file_read_exact_def)
  then show "read_block s (BlockId i) buf = Ok (px_buf (blks ! unat i) @ drop (unat bsz) buf)"
    using find i buf off by (simp add: read_block_def fields entry_for_def)
qed


section \<open>What the directory shows\<close>

lemma header_covers_pk:
  assumes "built fmt bs specs rows b blk" "r < length rows" "i < length specs"
    "cs_is_pk (specs ! i) \<noteq> 0" "zone_key (rows ! r ! i) = Some x"
  shows "bh_min_pk (px_header blk) \<le>s x \<and> x \<le>s bh_max_pk (px_header blk)"
proof -
  note bf = built_fields [OF assms(1)]
  obtain b0 where b0: "pax_new bs specs = Ok b0" "append_rows fmt rows b0 = (Ok (), b)"
    using assms(1) unfolding built_def by blast
  note new = pax_new_fields [OF b0(1)]
  have "length (pb_staging b0) = length (pb_specs b0)" by (simp add: new)
  note cov = append_rows_covers [OF b0(2) this, unfolded new(2)]
  have "length (pb_staging b) = length (pb_specs b)" using bf by simp
  then have "px_header blk = stored_header b" by (rule finalize_ok [OF bf(3,5)])
  moreover have "covers (pb_pk_range b) x" using cov assms(2-5) nth_mem by blast
  ultimately show ?thesis by (auto simp: covers_def header_of_block split: option.splits)
qed

text \<open>
  Skipping blocks by the directory is sound for the partitioning key: a block that holds a row whose
  key lies in the range is listed.
\<close>

lemma directory_lists_matching_blocks:
  assumes "i < length blks" "built fmt bs specs rows b (blks ! i)" "r < length rows" "c < length specs"
    "cs_is_pk (specs ! c) \<noteq> 0" "zone_key (rows ! r ! c) = Some x" "lo \<le>s x" "x \<le>s hi"
  shows "entries_for bs blks ! i \<in> set (blocks_overlapping_pk lo hi (entries_for bs blks))"
proof -
  let ?e = "entries_for bs blks ! i"
  have "de_min_pk ?e \<le>s x \<and> x \<le>s de_max_pk ?e"
    using header_covers_pk [OF assms(2-6)] assms(1) by (simp add: entries_for_nth entry_for_def)
  then have "\<not> (de_max_pk ?e <s lo \<or> hi <s de_min_pk ?e)"
    using overlaps_covered(1) [OF assms(7,8)] by blast
  then show ?thesis using assms(1) by (simp add: blocks_overlapping_pk_def)
qed

text \<open>
  Not so for timestamps: a block without a timestamp column has an empty range, which the test of the
  block header takes as overlapping and the test of the directory does not. Blocks without
  timestamps disappear from every bounded search by time.
\<close>

lemma directory_hides_untimed_blocks:
  assumes "bh_min_ts (px_header blk) = I64_MAX" "bh_max_ts (px_header blk) = I64_MIN"
    and "I64_MIN <s lo \<or> hi <s I64_MAX"
  shows "zone_overlaps_ts (px_header blk) lo hi" "blocks_overlapping_ts lo hi (entries_for bs [blk]) = []"
  using assms by (auto simp: zone_overlaps_ts_def blocks_overlapping_ts_def entries_for_def entry_for_def
      I64_MAX_def I64_MIN_def word_sless_alt)

text \<open>
  A segment that was not sealed, because of a crash for example, opens without an error and with an
  empty directory, so that none of the blocks in its file can be read.
\<close>

lemma unsealed_segment_hides_blocks:
  assumes "writer_holds (segment_header_new seg ps bsz lsn) blks w"
  shows "\<exists>s. segment_open (sw_file w) = Ok s \<and> sf_block_dir s = [] \<and> sh_block_count (sf_header s) = of_nat (length blks)
    \<and> (\<forall>i. is_err (read_block_alloc s i))"
proof -
  have h: "sw_header w = (segment_header_new seg ps bsz lsn)\<lparr>sh_block_count := of_nat (length blks)\<rparr>"
    and f: "sw_file w = segment_header_bytes (sw_header w) @ concat (map px_buf blks)"
    using assms by (simp_all add: writer_holds_def)
  have "segment_open (sw_file w) = Ok \<lparr>sf_file = sw_file w, sf_header = sw_header w, sf_block_dir = [],
      sf_block_size = sh_block_size (sw_header w)\<rparr>"
    unfolding f using open_header [of "sw_header w" "concat (map px_buf blks)"]
    by (simp add: h header_new_fields read_directory_def)
  then show ?thesis by (simp add: h read_block_alloc_def read_block_def)
qed

text \<open>
  A sealed file that lost its end, from somewhere before the directory, is not refused: the length of
  the directory wraps around and opening it panics.
\<close>

lemma truncated_segment_panics:
  assumes holds: "writer_holds (segment_header_new seg ps bsz lsn) blks w"
    and small: "segment_length bsz (length blks) < 2 ^ 63"
    and k: "64 \<le> k" "k < 64 + length blks * unat bsz"
  shows "segment_open (take k (sw_file (segment_seal sealed_lsn w))) = Panic"
proof -
  let ?h = "sealed_header (segment_header_new seg ps bsz lsn) sealed_lsn (length blks)"
  let ?off = "64 + length blks * unat bsz"
  let ?rest = "concat (map px_buf blks) @ block_directory_to_bytes (entries_for bsz blks)"
  have f: "sw_file (segment_seal sealed_lsn w) = segment_header_bytes ?h @ ?rest"
    using sealed_file [OF holds length_header_new] by (simp add: header_new_fields)
  have hl: "length (segment_header_bytes ?h) = 64"
    by (rule length_segment_header_bytes) (simp add: sealed_header_fields header_new_fields magic_length)
  have bl: "length (concat (map px_buf blks)) = length blks * unat bsz"
    using length_concat_chunks [of "map px_buf blks"] holds by (simp add: writer_holds_def header_new_fields)
  have cut: "take k (segment_header_bytes ?h @ ?rest) = segment_header_bytes ?h @ take (k - 64) ?rest"
    using k(1) hl by simp
  have len: "length (segment_header_bytes ?h @ take (k - 64) ?rest) = k" using k hl bl by simp
  have off: "?off < 2 ^ 63" using small by (simp add: segment_length_def)
  then have off_unat: "unat (of_nat ?off :: u64) = ?off" by (rule of_nat_64)
  moreover have "unat (of_nat k :: u64) = k" using k(2) off by (intro of_nat_64) linarith
  ultimately have "unat (of_nat k - of_nat ?off :: u64) = 2 ^ 64 + k - ?off"
    using k(2) off by (subst unat_sub_if_size) (auto simp: word_size word_le_nat_alt)
  moreover have "2 ^ 63 \<le> 2 ^ 64 + k - ?off" using off by simp
  ultimately have "2 ^ 63 \<le> unat (of_nat k - of_nat ?off :: u64)" by (simp only:)
  moreover have "(of_nat ?off :: u64) \<noteq> 0"
    using off_unat by (metis add_is_0 unat_0 zero_neq_numeral)
  ultimately have "read_directory ?h (segment_header_bytes ?h @ take (k - 64) ?rest) = Panic"
    unfolding read_directory_def len sealed_header_fields header_new_fields Let_def by (simp only: if_False if_True)
  then show ?thesis
    unfolding f cut using open_header [of ?h "take (k - 64) ?rest"] by (simp add: sealed_header_fields header_new_fields)
qed

section \<open>The round trip\<close>

text \<open>C33:
  Segment files round trip. Blocks of the segment's size that are appended to a new segment are read
  back byte for byte, each under the number it was given, from the file the sealed writer leaves;
  any other number is refused. The opened segment is sealed and carries the identifier and the
  sealing position, and its directory has one entry per block with the block's zone maps. The file
  stays below \<open>2 ^ 63\<close> bytes and the blocks can be numbered with 32 bits.
\<close>

theorem segment_roundtrip:
  assumes "\<forall>blk\<in>set blks. length (px_buf blk) = unat bsz" and "length blks < 2 ^ 32"
    and "segment_length bsz (length blks) < 2 ^ 63"
  shows "\<exists>s. segment_open (sw_file (segment_seal sealed_lsn (append_blocks blks (segment_create seg ps bsz lsn)))) = Ok s
    \<and> sf_segment_id s = seg \<and> segment_is_sealed (sf_header s) \<and> sh_sealed_lsn (sf_header s) = sealed_lsn
    \<and> map (\<lambda>e. (de_block_id e, de_min_pk e, de_max_pk e, de_row_count e)) (sf_block_dir s)
       = map (\<lambda>(i, blk). (of_nat i, bh_min_pk (px_header blk), bh_max_pk (px_header blk), bh_row_count (px_header blk)))
           (enumerate 0 blks)
    \<and> (\<forall>i. if unat i < length blks then read_block_alloc s (BlockId i) = Ok (px_buf (blks ! unat i))
           else is_err (read_block_alloc s (BlockId i)))"
proof -
  let ?w = "append_blocks blks (segment_create seg ps bsz lsn)"
  have holds: "writer_holds (segment_header_new seg ps bsz lsn) blks ?w"
    using writer_holds_blocks [OF writer_holds_create length_header_new, of blks] assms(1)
    by (simp add: header_new_fields)
  obtain s where s: "segment_open (sw_file (segment_seal sealed_lsn ?w)) = Ok s"
    and fields: "sf_header s = sealed_header (segment_header_new seg ps bsz lsn) sealed_lsn (length blks)"
      "sf_block_dir s = entries_for bsz blks" "sf_block_size s = bsz"
    using sealed_opens [OF holds assms(2,3)] by auto
  have "segment_is_sealed (sf_header s)"
    by (simp add: fields(1) segment_is_sealed_def sealed_header_def header_new_fields SEG_FLAG_SEALED_def)
  moreover have "map (\<lambda>e. (de_block_id e, de_min_pk e, de_max_pk e, de_row_count e)) (sf_block_dir s)
      = map (\<lambda>(i, blk). (of_nat i, bh_min_pk (px_header blk), bh_max_pk (px_header blk), bh_row_count (px_header blk)))
          (enumerate 0 blks)"
    by (simp add: fields(2) entries_for_def entry_for_def case_prod_beta')
  ultimately show ?thesis
    using s sealed_reads [OF holds assms(2,3) s, of "replicate (unat bsz) 0"]
    by (intro exI [of _ s]) (simp add: read_block_alloc_def fields sf_segment_id_def sealed_header_fields header_new_fields)
qed

theorem segment_roundtrip_witness:
  "\<exists>blk s. finalize sample_builder = Ok blk
     \<and> segment_open (sw_file (segment_seal 9 (append_blocks [blk, blk] (segment_create (SegmentId 42) 4096 512 100)))) = Ok s
     \<and> sf_segment_id s = SegmentId 42 \<and> read_block_alloc s (BlockId 1) = Ok (px_buf blk)
     \<and> is_err (read_block_alloc s (BlockId 2))"
proof -
  obtain blk where b: "built plain_format 512 sample_specs sample_rows sample_builder blk"
    by (rule sample_block)
  have "length (px_buf blk) = unat (512 :: u32)" by (rule bitmap_offsets(5) [OF b])
  then have "\<forall>x\<in>set [blk, blk]. length (px_buf x) = unat (512 :: u32)" "length [blk, blk] < 2 ^ 32"
    "segment_length 512 (length [blk, blk]) < 2 ^ 63"
    by (simp_all add: segment_length_def)
  from segment_roundtrip [OF this, of 9 "SegmentId 42" 4096 100] obtain s where
    s: "segment_open (sw_file (segment_seal 9 (append_blocks [blk, blk] (segment_create (SegmentId 42) 4096 512 100)))) = Ok s"
      "sf_segment_id s = SegmentId 42"
    and reads: "\<forall>i. if unat i < length [blk, blk] then read_block_alloc s (BlockId i) = Ok (px_buf ([blk, blk] ! unat i))
       else is_err (read_block_alloc s (BlockId i))"
    by blast
  show ?thesis
    using s spec [OF reads, of 1] spec [OF reads, of 2] built_fields(3) [OF b] by (intro exI [of _ blk] exI [of _ s]) simp
qed

end
