(* ===== verification/WalRecord.thy ===== *)
theory WalRecord
  imports Core
begin

text \<open>
  The on-disk records of the write-ahead log (\<open>cendb-tx/src/wal.rs\<close>): their byte
  layout, the CRC32c that closes them and the parser that recovery runs on a log file. The
  lemmas show that a record reads back, that the parser never indexes out of range, and that
  the checksum detects the change of any one byte.
\<close>

section \<open>CRC32c\<close>

definition crc_step :: "u32 \<Rightarrow> u32" where
  "crc_step c = (if c AND 1 \<noteq> 0 then shr c 1 XOR 0x82F63B78 else shr c 1)"

definition crc_byte :: "u32 \<Rightarrow> u8 \<Rightarrow> u32" where
  "crc_byte c b = (crc_step ^^ 8) (c XOR ucast b)"

definition crc32c :: "bytes \<Rightarrow> u32" where
  "crc32c data = NOT (foldl crc_byte 0xFFFFFFFF data)"

section \<open>Records\<close>

datatype log_record_type = RecInsert | RecUpdate | RecDelete | RecCommit | RecAbort
  | RecCheckpoint | RecClr

fun rec_type_u8 :: "log_record_type \<Rightarrow> u8" where
  "rec_type_u8 RecInsert = 1"
| "rec_type_u8 RecUpdate = 2"
| "rec_type_u8 RecDelete = 3"
| "rec_type_u8 RecCommit = 4"
| "rec_type_u8 RecAbort = 5"
| "rec_type_u8 RecCheckpoint = 6"
| "rec_type_u8 RecClr = 7"

definition rec_type_from_u8 :: "u8 \<Rightarrow> log_record_type option" where
  "rec_type_from_u8 b =
     (if b = 1 then Some RecInsert else if b = 2 then Some RecUpdate
      else if b = 3 then Some RecDelete else if b = 4 then Some RecCommit
      else if b = 5 then Some RecAbort else if b = 6 then Some RecCheckpoint
      else if b = 7 then Some RecClr else None)"

record log_record =
  lr_lsn :: u64
  lr_prev_lsn :: u64
  lr_txn_id :: u64
  lr_rec_type :: log_record_type
  lr_page_id :: u64
  lr_payload :: bytes
  lr_crc32c :: u32

datatype wal_error = TruncatedRecord | UnknownRecordType | CrcMismatch | WalIo string
  | WalOther string

type_synonym 'a wal_result = "('a, wal_error) outcome"

text \<open>The bytes of a record before its checksum.\<close>

definition record_body :: "log_record \<Rightarrow> bytes" where
  "record_body r = le_bytes 8 (lr_lsn r) @ le_bytes 8 (lr_prev_lsn r) @ le_bytes 8 (lr_txn_id r)
     @ [rec_type_u8 (lr_rec_type r)] @ le_bytes 8 (lr_page_id r)
     @ le_bytes 4 (of_nat (length (lr_payload r)) :: u32) @ lr_payload r"

definition log_to_bytes :: "log_record \<Rightarrow> bytes" where
  "log_to_bytes r = (let out = record_body r in out @ le_bytes 4 (crc32c out))"

definition log_from_bytes :: "bytes \<Rightarrow> (log_record \<times> nat) wal_result" where
  "log_from_bytes bs =
     (if length bs < 37 then Err TruncatedRecord else
      and_then (read_u64 bs 0) (\<lambda>lsn.
      and_then (read_u64 bs 8) (\<lambda>prev_lsn.
      and_then (read_u64 bs 16) (\<lambda>txn_id.
      and_then (and_then (index_at bs 24) (\<lambda>b. ok_or (rec_type_from_u8 b) UnknownRecordType))
        (\<lambda>rec_type.
      and_then (read_u64 bs 25) (\<lambda>page_id.
      and_then (read_u32 bs 33) (\<lambda>len32.
      let payload_len = unat len32; needed = 41 + payload_len in
      if length bs < needed then Err TruncatedRecord else
      and_then (slice_at bs 37 (37 + payload_len)) (\<lambda>payload.
      and_then (read_u32 bs (37 + payload_len)) (\<lambda>crc_stored.
      and_then (slice_at bs 0 (37 + payload_len)) (\<lambda>body.
      if crc_stored \<noteq> crc32c body then Err CrcMismatch else
      Ok (\<lparr>lr_lsn = lsn, lr_prev_lsn = prev_lsn, lr_txn_id = txn_id, lr_rec_type = rec_type,
           lr_page_id = page_id, lr_payload = payload, lr_crc32c = crc_stored\<rparr>, needed)))))))))))"

text \<open>The status a log error has in the engine's error type.\<close>

fun wal_error_status :: "wal_error \<Rightarrow> cen_status" where
  "wal_error_status (WalIo _) = ErrIo"
| "wal_error_status CrcMismatch = ErrCorrupt"
| "wal_error_status TruncatedRecord = ErrCorrupt"
| "wal_error_status UnknownRecordType = ErrCorrupt"
| "wal_error_status (WalOther _) = ErrInternal"

section \<open>Parsing\<close>

lemma rec_type_roundtrip [simp, codec_rt]: "rec_type_from_u8 (rec_type_u8 t) = Some t"
  by (cases t) (simp_all add: rec_type_from_u8_def)

lemma rec_type_from_u8_Some: "rec_type_from_u8 b = Some t \<Longrightarrow> rec_type_u8 t = b"
  by (auto simp: rec_type_from_u8_def split: if_splits)

lemma length_record_body [simp, len_simps]: "length (record_body r) = 37 + length (lr_payload r)"
  by (simp add: record_body_def)

lemma length_log_to_bytes [simp, len_simps]:
  "length (log_to_bytes r) = 41 + length (lr_payload r)"
  by (simp add: log_to_bytes_def Let_def)

text \<open>The parser in closed form: every access is in range.\<close>

definition payload_len_of :: "bytes \<Rightarrow> nat" where
  "payload_len_of bs = unat (from_le (slice bs 33 37) :: u32)"

definition parsed_record :: "bytes \<Rightarrow> log_record_type \<Rightarrow> log_record" where
  "parsed_record bs t = (let n = payload_len_of bs in
     \<lparr>lr_lsn = from_le (slice bs 0 8), lr_prev_lsn = from_le (slice bs 8 16),
      lr_txn_id = from_le (slice bs 16 24), lr_rec_type = t,
      lr_page_id = from_le (slice bs 25 33), lr_payload = slice bs 37 (37 + n),
      lr_crc32c = from_le (slice bs (37 + n) (41 + n))\<rparr>)"

lemma log_from_bytes_eq:
  "log_from_bytes bs =
     (if length bs < 37 then Err TruncatedRecord else
      case rec_type_from_u8 (bs ! 24) of None \<Rightarrow> Err UnknownRecordType
      | Some t \<Rightarrow>
        let n = payload_len_of bs in
        if length bs < 41 + n then Err TruncatedRecord
        else if from_le (slice bs (37 + n) (41 + n)) \<noteq> crc32c (slice bs 0 (37 + n))
        then Err CrcMismatch
        else Ok (parsed_record bs t, 41 + n))"
proof (cases "length bs < 37")
  case True
  then show ?thesis by (simp add: log_from_bytes_def)
next
  case False
  then show ?thesis
    by (auto simp: log_from_bytes_def payload_len_of_def parsed_record_def Let_def
        split: option.split)
qed


lemma record_body_parsed:
  assumes t: "rec_type_from_u8 (bs ! 24) = Some t" and len: "41 + payload_len_of bs \<le> length bs"
  shows "record_body (parsed_record bs t) = slice bs 0 (37 + payload_len_of bs)"
proof -
  let ?n = "payload_len_of bs"
  have n: "length (slice bs 37 (37 + ?n)) = ?n" using len by simp
  have tag: "[rec_type_u8 t] = slice bs 24 25"
    using slice_single [of 24 bs] rec_type_from_u8_Some [OF t] len by simp
  have size: "(of_nat ?n :: u32) = from_le (slice bs 33 37)"
    by (simp add: payload_len_of_def)
  have "record_body (parsed_record bs t) = slice bs 0 8 @ slice bs 8 16 @ slice bs 16 24
      @ slice bs 24 25 @ slice bs 25 33 @ slice bs 33 37 @ slice bs 37 (37 + ?n)"
    using len by (simp add: record_body_def parsed_record_def Let_def le_bytes_from_le tag size n)
  also have "\<dots> = slice bs 0 (37 + ?n)"
    by (simp add: slice_join append_assoc [symmetric] del: append_assoc)
  finally show ?thesis .
qed

lemma log_from_bytes_Ok:
  assumes "log_from_bytes bs = Ok (r, n)"
  shows "n = length (log_to_bytes r)" "n \<le> length bs" "log_to_bytes r = take n bs"
    "lr_crc32c r = crc32c (record_body r)" "length (lr_payload r) < 2 ^ 32"
proof -
  let ?n = "payload_len_of bs"
  from assms obtain t where t: "rec_type_from_u8 (bs ! 24) = Some t" 
    and r: "r = parsed_record bs t" and n: "n = 41 + ?n" and len: "41 + ?n \<le> length bs"
    and crc: "from_le (slice bs (37 + ?n) (41 + ?n)) = crc32c (slice bs 0 (37 + ?n))"
    by (auto simp: log_from_bytes_eq Let_def split: if_splits option.splits)
  have body: "record_body r = slice bs 0 (37 + ?n)"
    using record_body_parsed [OF t len] r by simp
  have payload: "length (lr_payload r) = ?n" using len r by (simp add: parsed_record_def Let_def)
  then show "n = length (log_to_bytes r)" using n by simp
  show "n \<le> length bs" using n len by simp
  show "lr_crc32c r = crc32c (record_body r)"
    using r crc body by (simp add: parsed_record_def Let_def)
  have "le_bytes 4 (crc32c (slice bs 0 (37 + ?n))) = slice bs (37 + ?n) (41 + ?n)"
    using len by (subst crc [symmetric]) (simp add: le_bytes_from_le)
  then have "log_to_bytes r = slice bs 0 (41 + ?n)"
    by (simp add: log_to_bytes_def Let_def body slice_join)
  then show "log_to_bytes r = take n bs" using n by (simp add: slice_def)
  have "?n < 2 ^ 32" using unat_lt2p [of "from_le (slice bs 33 37) :: u32"]
    by (simp add: payload_len_of_def)
  then show "length (lr_payload r) < 2 ^ 32" using payload by simp
qed

lemma from_le_slice_field:
  "length pre = a \<Longrightarrow> b = a + 8 \<Longrightarrow> from_le (slice (pre @ le_bytes 8 (w :: u64) @ post) a b) = w"
  by (simp add: slice_def)

lemma log_from_bytes_to_bytes:
  assumes "length (lr_payload r) < 2 ^ 32"
  shows "log_from_bytes (log_to_bytes r @ rest)
    = Ok (r\<lparr>lr_crc32c := crc32c (record_body r)\<rparr>, length (log_to_bytes r))"
proof -
  let ?bs = "log_to_bytes r @ rest"
  let ?l = "lr_payload r"
  define crc where "crc = crc32c (record_body r)"
  have n: "payload_len_of ?bs = length ?l"
    using assms
    by (simp add: payload_len_of_def log_to_bytes_def record_body_def Let_def slice_def
        unat_of_nat_small)
  have tag: "?bs ! 24 = rec_type_u8 (lr_rec_type r)"
    by (simp add: log_to_bytes_def record_body_def Let_def nth_append)
  have body: "slice ?bs 0 (37 + length ?l) = record_body r"
    by (simp add: log_to_bytes_def Let_def slice_def)
  have stored: "from_le (slice ?bs (37 + length ?l) (41 + length ?l)) = crc"
    by (simp add: log_to_bytes_def Let_def slice_def crc_def)
  have parsed: "parsed_record ?bs (lr_rec_type r) = r\<lparr>lr_crc32c := crc\<rparr>"
    unfolding parsed_record_def Let_def n stored
    by (simp add: log_to_bytes_def record_body_def Let_def slice_def)
  show ?thesis
    unfolding log_from_bytes_eq tag rec_type_roundtrip option.case Let_def n body stored parsed
    by (simp add: crc_def)
qed

section \<open>The checksum detects a changed byte\<close>

lemma bit_u32_top: "bit (0x82F63B78 :: u32) 31"
  by (simp add: bit_word_iff_drop_bit_and)

lemma ucast_u8_u32_inj: "(ucast (a :: u8) :: u32) = ucast b \<Longrightarrow> a = b"
  using unat_ucast_up [where 's = 8 and 't = 32, of a] unat_ucast_up [where 's = 8 and 't = 32, of b]
  by (rule_tac unsigned_word_eqI [where 'a = nat]) simp

lemma crc_step_inj: "crc_step c = crc_step d \<Longrightarrow> c = d"
proof -
  assume eq: "crc_step c = crc_step d"
  have top: "bit (crc_step c) 31 \<longleftrightarrow> bit c 0" for c
    using bit_u32_top
    by (auto simp: crc_step_def shr_def bit_simps and_one_eq odd_iff_mod_2_eq_one bit_0)
  have low: "bit c 0 = bit d 0" using top [of c] top [of d] eq by simp
  have "shr c 1 = shr d 1"
    using eq low 
    by (auto simp: crc_step_def and_one_eq bit_0 odd_iff_mod_2_eq_one xor_cancel_right split: if_splits)
  moreover have "bit e (Suc n) = bit (shr e 1) n" for e :: u32 and n
    by (simp add: shr_small bit_simps)
  ultimately have high: "bit c (Suc n) = bit d (Suc n)" for n by metis
  show "c = d"
  proof (rule bit_word_eqI)
    fix n show "bit c n = bit d n" using low high by (cases n) auto
  qed
qed

lemma crc_steps_inj: "(crc_step ^^ k) c = (crc_step ^^ k) d \<Longrightarrow> c = d"
  by (induction k) (auto dest: crc_step_inj)

lemma crc_byte_inj_state: "crc_byte c b = crc_byte d b \<Longrightarrow> c = d"
  unfolding crc_byte_def by (drule crc_steps_inj) (simp add: xor_cancel_right)

lemma crc_byte_inj_byte: "crc_byte c a = crc_byte c b \<Longrightarrow> a = b"
  unfolding crc_byte_def by (drule crc_steps_inj) (auto simp: xor_cancel_left dest: ucast_u8_u32_inj)

lemma crc_fold_inj: "foldl crc_byte c bs = foldl crc_byte d bs \<Longrightarrow> c = d"
  by (induction bs arbitrary: c d) (auto dest: crc_byte_inj_state)

lemma crc32c_changed_byte:
  assumes "i < length bs" "b \<noteq> bs ! i"
  shows "crc32c (bs[i := b]) \<noteq> crc32c bs"
proof
  let ?c = "foldl crc_byte 0xFFFFFFFF (take i bs)"
  assume "crc32c (bs[i := b]) = crc32c bs"
  then have eq: "foldl crc_byte 0xFFFFFFFF (bs[i := b]) = foldl crc_byte 0xFFFFFFFF bs"
    by (simp add: crc32c_def)
  have "foldl crc_byte 0xFFFFFFFF (bs[i := b]) = foldl crc_byte (crc_byte ?c b) (drop (Suc i) bs)"
    using assms by (simp add: upd_conv_take_nth_drop)
  moreover have "foldl crc_byte 0xFFFFFFFF bs
      = foldl crc_byte 0xFFFFFFFF (take i bs @ bs ! i # drop (Suc i) bs)"
    using assms by (simp add: id_take_nth_drop [symmetric])
  ultimately have "foldl crc_byte (crc_byte ?c b) (drop (Suc i) bs)
      = foldl crc_byte (crc_byte ?c (bs ! i)) (drop (Suc i) bs)"
    using eq by simp
  then have "crc_byte ?c b = crc_byte ?c (bs ! i)" by (rule crc_fold_inj)
  then show False using assms(2) by (auto dest: crc_byte_inj_byte)
qed

text \<open>C12:
  A log record reads back. Serialising a record whose payload length fits the 32-bit length
  field and parsing the bytes, whatever follows them in the file, gives the record with its
  checksum filled in and consumes exactly the bytes written.
\<close>

theorem log_record_roundtrip:
  assumes "length (lr_payload r) < 2 ^ 32"
  shows "log_from_bytes (log_to_bytes r @ rest)
    = Ok (r\<lparr>lr_crc32c := crc32c (record_body r)\<rparr>, length (log_to_bytes r))"
  using assms by (rule log_from_bytes_to_bytes)

theorem log_record_roundtrip_witness:
  "log_from_bytes (log_to_bytes \<lparr>lr_lsn = 7, lr_prev_lsn = 3, lr_txn_id = 2,
       lr_rec_type = RecUpdate, lr_page_id = 9, lr_payload = [1, 2], lr_crc32c = 0\<rparr> @ [255])
    = Ok (\<lparr>lr_lsn = 7, lr_prev_lsn = 3, lr_txn_id = 2, lr_rec_type = RecUpdate, lr_page_id = 9,
       lr_payload = [1, 2], lr_crc32c = crc32c (record_body \<lparr>lr_lsn = 7, lr_prev_lsn = 3,
         lr_txn_id = 2, lr_rec_type = RecUpdate, lr_page_id = 9, lr_payload = [1, 2],
         lr_crc32c = 0\<rparr>)\<rparr>, 43)"
  using log_record_roundtrip [of "\<lparr>lr_lsn = 7, lr_prev_lsn = 3, lr_txn_id = 2,
    lr_rec_type = RecUpdate, lr_page_id = 9, lr_payload = [1, 2], lr_crc32c = 0\<rparr>" "[255]"]
  by simp

text \<open>
  The record parser is total on arbitrary bytes: it never indexes or slices out of range, every
  failure is one of the three end-of-log errors, and what it accepts is exactly the serialised
  form of the record it returns, a prefix of its input.
\<close>

lemma log_from_bytes_total:
  "case log_from_bytes bs of
     Ok (r, n) \<Rightarrow> n \<le> length bs \<and> take n bs = log_to_bytes r \<and> lr_crc32c r = crc32c (record_body r)
   | Err e \<Rightarrow> e = TruncatedRecord \<or> e = UnknownRecordType \<or> e = CrcMismatch
   | Panic \<Rightarrow> False"
proof (cases "log_from_bytes bs")
  case (Ok p)
  then obtain r n where "log_from_bytes bs = Ok (r, n)" by (cases p) auto
  from log_from_bytes_Ok [OF this] this show ?thesis by simp
qed (auto simp: log_from_bytes_eq Let_def split: if_splits option.splits)

lemma corrupt_byte_rejected:
  assumes "length (lr_payload r) < 2 ^ 32"
    and "i < length (log_to_bytes r)" "i \<notin> {33..<37}" "b \<noteq> log_to_bytes r ! i"
  shows "log_from_bytes ((log_to_bytes r)[i := b] @ rest) = Err CrcMismatch
    \<or> i = 24 \<and> log_from_bytes ((log_to_bytes r)[i := b] @ rest) = Err UnknownRecordType"
proof -
  let ?n = "length (lr_payload r)" and ?bs = "log_to_bytes r @ rest"
  have upd: "(log_to_bytes r)[i := b] @ rest = ?bs[i := b]" 
    using assms(2) by (simp add: list_update_append1)
  have len: "payload_len_of (?bs[i := b]) = ?n"
    using assms(1,3) nth_list_update_slice [of i 33 37 ?bs b]
    by (auto simp: payload_len_of_def log_to_bytes_def record_body_def Let_def slice_def
        unat_of_nat_small)
  have stored: "slice ?bs (37 + ?n) (41 + ?n) = le_bytes 4 (crc32c (record_body r))"
    and body: "slice ?bs 0 (37 + ?n) = record_body r"
    by (simp_all add: log_to_bytes_def Let_def slice_def)
  have mismatch: "from_le (slice (?bs[i := b]) (37 + ?n) (41 + ?n))
      \<noteq> crc32c (slice (?bs[i := b]) 0 (37 + ?n))"
  proof (cases "i < 37 + ?n")
    case True
    then have "record_body r ! i = log_to_bytes r ! i"
      by (simp add: log_to_bytes_def Let_def nth_append)
    then have "crc32c ((record_body r)[i := b]) \<noteq> crc32c (record_body r)"
      using True assms(4) by (intro crc32c_changed_byte) simp_all
    then show ?thesis using True 
      by (simp add: nth_list_update_slice slice_list_update_in stored body eq_commute)
  next
    case False
    let ?j = "i - (37 + ?n)" and ?c = "crc32c (record_body r)"
    have j: "?j < 4" and at: "le_bytes 4 ?c ! ?j = log_to_bytes r ! i"
      using False assms(2) by (auto simp: log_to_bytes_def Let_def nth_append)
    have "le_bytes 4 (from_le ((le_bytes 4 ?c)[?j := b]) :: u32) = (le_bytes 4 ?c)[?j := b]"
      by (simp add: le_bytes_from_le)
    moreover have "(le_bytes 4 ?c)[?j := b] \<noteq> le_bytes 4 ?c"
      using j at assms(4) by (metis length_le_bytes nth_list_update_eq)
    ultimately have "from_le ((le_bytes 4 ?c)[?j := b]) \<noteq> ?c" by metis
    then show ?thesis using False assms(2)
      by (simp add: nth_list_update_slice slice_list_update_in stored body)
  qed
  have tag: "i \<noteq> 24 \<Longrightarrow> rec_type_from_u8 (?bs[i := b] ! 24) = Some (lr_rec_type r)"
    by (simp add: log_to_bytes_def record_body_def Let_def nth_append)
  show ?thesis
    unfolding upd log_from_bytes_eq Let_def len using mismatch tag
    by (cases "i = 24") (auto split: option.splits)
qed

lemma corrupt_length_byte:
  assumes "length (lr_payload r) < 2 ^ 32"
    and "i \<in> {33..<37}" "b \<noteq> log_to_bytes r ! i"
    and "log_from_bytes ((log_to_bytes r)[i := b] @ rest) = Ok (q, n)"
  shows "n \<noteq> length (log_to_bytes r)" "q = r\<lparr>lr_payload := lr_payload q, lr_crc32c := lr_crc32c q\<rparr>"
proof -
  let ?bs = "log_to_bytes r @ rest" and ?len = "of_nat (length (lr_payload r)) :: u32"
  have upd: "(log_to_bytes r)[i := b] @ rest = ?bs[i := b]"
    using assms(2) by (auto simp: list_update_append1)
  have field: "slice ?bs 33 37 = le_bytes 4 ?len"
    by (simp add: log_to_bytes_def record_body_def Let_def slice_def)
  have "le_bytes 4 ?len ! (i - 33) = log_to_bytes r ! i"
    unfolding field [symmetric] using assms(2) by (auto simp: slice_def nth_append)
  moreover have "i - 33 < 4" using assms(2) by auto
  ultimately have changed: "(le_bytes 4 ?len)[i - 33 := b] \<noteq> le_bytes 4 ?len"
    using assms(3) by (metis length_le_bytes nth_list_update_eq)
  have slice: "slice (?bs[i := b]) 33 37 = (le_bytes 4 ?len)[i - 33 := b]"
    using assms(2) by (simp add: slice_list_update_in field)
  have "payload_len_of (?bs[i := b]) \<noteq> length (lr_payload r)"
  proof
    assume "payload_len_of (?bs[i := b]) = length (lr_payload r)"
    then have "unat (from_le ((le_bytes 4 ?len)[i - 33 := b]) :: u32) = unat ?len"
      using assms(1) by (simp add: payload_len_of_def slice unat_of_nat_small)
    then have "from_le ((le_bytes 4 ?len)[i - 33 := b]) = ?len" by (simp add: word_unat_eq_iff)
    moreover have "le_bytes 4 (from_le ((le_bytes 4 ?len)[i - 33 := b]) :: u32) = (le_bytes 4 ?len)[i - 33 := b]"
      by (simp add: le_bytes_from_le)
    ultimately show False using changed by simp
  qed
  moreover have "rec_type_from_u8 (?bs[i := b] ! 24) = Some (lr_rec_type r)"
    using assms(2) by (auto simp: log_to_bytes_def record_body_def Let_def nth_append)
  ultimately have n: "n \<noteq> 41 + length (lr_payload r)" and q: "q = parsed_record (?bs[i := b]) (lr_rec_type r)"
    using assms(4) unfolding upd by (auto simp: log_from_bytes_eq Let_def split: if_splits)
  then show "n \<noteq> length (log_to_bytes r)" by simp
  have same: "slice (?bs[i := b]) a c = slice ?bs a c" if "c \<le> 33" for a c
    using assms(2) that by (intro nth_list_update_slice) auto
  show "q = r\<lparr>lr_payload := lr_payload q, lr_crc32c := lr_crc32c q\<rparr>"
    unfolding q parsed_record_def Let_def
    by (simp add: same) (simp add: log_to_bytes_def record_body_def Let_def slice_def)
qed

text \<open>C9:
  A stored record, whose payload fits its length field, of which one byte was changed. Outside the length field the change is always
  rejected: the parser returns a checksum mismatch (or an unknown record type, when the damaged byte
  is the type tag). A changed byte of the length field moves the place where the checksum is looked
  for: the parser then rejects the record too, unless the four bytes at the new place are the
  checksum of the bytes before them (\<open>length_damage_accepted\<close> shows that this happens); what it
  accepts in that case has another length, is the file's bytes with a valid checksum, and differs
  from the stored record in its payload only.
\<close>

theorem corrupt_byte_detected:
  assumes "length (lr_payload r) < 2 ^ 32"
    and "i < length (log_to_bytes r)" "b \<noteq> log_to_bytes r ! i"
  shows "case log_from_bytes ((log_to_bytes r)[i := b] @ rest) of
      Err e \<Rightarrow> e = CrcMismatch \<or> i = 24 \<and> e = UnknownRecordType \<or> i \<in> {33..<37} \<and> e = TruncatedRecord
    | Ok (q, n) \<Rightarrow> i \<in> {33..<37} \<and> n \<noteq> length (log_to_bytes r)
        \<and> log_to_bytes q = take n ((log_to_bytes r)[i := b] @ rest) \<and> lr_crc32c q = crc32c (record_body q)
        \<and> q = r\<lparr>lr_payload := lr_payload q, lr_crc32c := lr_crc32c q\<rparr>
    | Panic \<Rightarrow> False"
proof (cases "i \<in> {33..<37}")
  case False
  then show ?thesis using corrupt_byte_rejected [OF assms(1,2) False assms(3), of rest] by auto
next
  case True
  let ?d = "(log_to_bytes r)[i := b] @ rest"
  have tag: "?d ! 24 = rec_type_u8 (lr_rec_type r)"
    using True by (auto simp: log_to_bytes_def record_body_def Let_def nth_append)
  show ?thesis
  proof (cases "log_from_bytes ?d")
    case (Ok p)
    obtain q n where "log_from_bytes ?d = Ok (q, n)" using Ok by (cases p) auto
    then show ?thesis
      using corrupt_length_byte [OF assms(1) True assms(3)] log_from_bytes_Ok(3,4) True by auto
  next
    case (Err e)
    then show ?thesis using True tag
      by (auto simp: log_from_bytes_eq Let_def split: if_splits option.splits)
  next
    case Panic
    then show ?thesis by (auto simp: log_from_bytes_eq Let_def split: if_splits option.splits)
  qed
qed

theorem corrupt_byte_detected_witness:
  "log_from_bytes ((log_to_bytes \<lparr>lr_lsn = 7, lr_prev_lsn = 3, lr_txn_id = 2,
       lr_rec_type = RecUpdate, lr_page_id = 9, lr_payload = [1, 2], lr_crc32c = 0\<rparr>)
       [38 := 9] @ []) = Err CrcMismatch"
  using corrupt_byte_detected [of "\<lparr>lr_lsn = 7, lr_prev_lsn = 3, lr_txn_id = 2,
    lr_rec_type = RecUpdate, lr_page_id = 9, lr_payload = [1, 2], lr_crc32c = 0\<rparr>" 38 9 "[]"]
  by (simp add: log_to_bytes_def record_body_def Let_def nth_append split: outcome.splits prod.splits)

text \<open>
  A damaged length field can be accepted. When a record's payload is the checksum that its header
  would have without a payload, clearing the low byte of the length field leaves bytes that parse as
  the record without its payload, whatever follows.
\<close>

lemma length_damage_accepted:
  assumes "lr_payload r = []"
  shows "log_from_bytes ((log_to_bytes (r\<lparr>lr_payload := le_bytes 4 (crc32c (record_body r))\<rparr>))[33 := 0] @ rest)
    = Ok (r\<lparr>lr_crc32c := crc32c (record_body r)\<rparr>, 41)"
proof -
  let ?q = "r\<lparr>lr_payload := le_bytes 4 (crc32c (record_body r))\<rparr>"
  have "le_bytes 4 (4 :: u32) = [4, 0, 0, 0]" "le_bytes 4 (0 :: u32) = [0, 0, 0, 0]" by code_simp+
  then have "(log_to_bytes ?q)[33 := 0] = log_to_bytes r @ le_bytes 4 (crc32c (record_body ?q))"
    using assms by (simp add: log_to_bytes_def record_body_def Let_def list_update_append)
  then show ?thesis using log_from_bytes_to_bytes [of r] assms by simp
qed

end
