(* ===== verification/Wal.thy ===== *)
theory Wal
  imports WalRecord
begin

text \<open>
  The write-ahead log (\<open>WriteAheadLog\<close> in \<open>cendb-tx/src/wal.rs\<close>): opening
  and scanning a log file, appending, committing, checkpointing and truncating.
  The file is its byte content together with the length of the part that has been synced;
  file operations succeed. \<open>append\<close> and \<open>checkpoint\<close> call each other, so
  both take the number of stack frames that are left, and running out of them is a panic.
\<close>

section \<open>The log\<close>

definition AUTO_TRUNCATE_THRESHOLD :: u64 where "AUTO_TRUNCATE_THRESHOLD = 10000"

record wal_config =
  sync_on_commit :: bool
  sync_on_every_record :: bool
  checkpoint_interval :: u32

definition default_wal_config :: wal_config where
  "default_wal_config = \<lparr>sync_on_commit = True, sync_on_every_record = False,
     checkpoint_interval = 1000\<rparr>"

record wal =
  wal_file :: bytes
  wal_durable :: nat
  wal_next_lsn :: u64
  wal_last_record_lsn :: u64
  wal_config :: wal_config
  wal_since_checkpoint :: u32
  wal_total_appends :: u64

definition sync_data :: "wal \<Rightarrow> wal" where
  "sync_data w = w\<lparr>wal_durable := length (wal_file w)\<rparr>"

section \<open>Reading a log file\<close>

lemma log_from_bytes_consumes: "log_from_bytes bs = Ok (r, n) \<Longrightarrow> 0 < n \<and> n \<le> length bs"
  using log_from_bytes_Ok(1,2) [of bs r n] by simp

definition end_of_log :: "wal_error \<Rightarrow> bool" where
  "end_of_log e \<longleftrightarrow> e = TruncatedRecord \<or> e = CrcMismatch \<or> e = UnknownRecordType"

function read_loop :: "bytes \<Rightarrow> log_record list wal_result" where
  "read_loop buf =
     (if buf = [] then Ok [] else
      case log_from_bytes buf of
        Ok (r, consumed) \<Rightarrow> and_then (read_loop (drop consumed buf)) (\<lambda>rs. Ok (r # rs))
      | Err e \<Rightarrow> if end_of_log e then Ok [] else Err e
      | Panic \<Rightarrow> Panic)"
  by pat_completeness auto
termination
  by (relation "measure length") (auto dest!: log_from_bytes_consumes)

function scan_loop :: "u64 \<Rightarrow> bytes \<Rightarrow> u64 wal_result" where
  "scan_loop max_lsn buf =
     (if buf = [] then Ok max_lsn else
      case log_from_bytes buf of
        Ok (r, consumed) \<Rightarrow>
          scan_loop (if max_lsn < lr_lsn r then lr_lsn r else max_lsn) (drop consumed buf)
      | Err e \<Rightarrow> if end_of_log e then Ok max_lsn else Err e
      | Panic \<Rightarrow> Panic)"
  by pat_completeness auto
termination
  by (relation "measure (\<lambda>(_, buf). length buf)") (auto dest!: log_from_bytes_consumes)

declare read_loop.simps [simp del] scan_loop.simps [simp del]

definition wal_read_all :: "wal \<Rightarrow> log_record list wal_result" where
  "wal_read_all w = read_loop (wal_file w)"

definition scan_to_end :: "wal \<Rightarrow> wal wal_result" where
  "scan_to_end w = and_then (scan_loop 0 (wal_file w)) (\<lambda>max_lsn.
     Ok (w\<lparr>wal_next_lsn := max_lsn + 1, wal_last_record_lsn := max_lsn\<rparr>))"

definition wal_open :: "bytes \<Rightarrow> wal_config \<Rightarrow> wal wal_result" where
  "wal_open file config =
     (let w = \<lparr>wal_file = file, wal_durable = length file, wal_next_lsn = 1,
        wal_last_record_lsn = 0, wal_config = config, wal_since_checkpoint = 0,
        wal_total_appends = 0\<rparr>
      in and_then (scan_to_end w) (\<lambda>w. Ok (w\<lparr>wal_total_appends := wal_last_record_lsn w\<rparr>)))"

section \<open>Truncation\<close>

definition wal_truncate_to_checkpoint :: "wal \<Rightarrow> (u64 \<times> wal) wal_result" where
  "wal_truncate_to_checkpoint w = and_then (wal_read_all w) (\<lambda>records.
     case rposition (\<lambda>r. lr_rec_type r = RecCheckpoint) records of
       None \<Rightarrow> Ok (0, w)
     | Some idx \<Rightarrow>
         if idx = 0 then Ok (0, w) else
         let survivors = concat (map log_to_bytes (drop idx records));
             reclaimed = length (wal_file w) - length survivors
         in Ok (of_nat reclaimed, w\<lparr>wal_file := survivors, wal_durable := length survivors,
              wal_total_appends := 0\<rparr>))"

definition wal_truncate :: "wal \<Rightarrow> (unit \<times> wal) wal_result" where
  "wal_truncate w = and_then (wal_truncate_to_checkpoint w) (\<lambda>(_, w'). Ok ((), w'))"

section \<open>Appending\<close>

definition wal_write_record ::
    "wal \<Rightarrow> u64 \<Rightarrow> u64 \<Rightarrow> log_record_type \<Rightarrow> page_id \<Rightarrow> bytes \<Rightarrow> wal" where
  "wal_write_record w txn_id prev_lsn rec_type page payload =
     (let lsn = wal_next_lsn w;
          r = \<lparr>lr_lsn = lsn, lr_prev_lsn = prev_lsn, lr_txn_id = txn_id, lr_rec_type = rec_type,
            lr_page_id = page_raw page, lr_payload = payload, lr_crc32c = 0\<rparr>;
          w = w\<lparr>wal_file := wal_file w @ log_to_bytes r\<rparr>;
          w = (if sync_on_every_record (wal_config w) then sync_data w else w)
      in w\<lparr>wal_next_lsn := wal_next_lsn w + 1, wal_last_record_lsn := lsn,
           wal_since_checkpoint := wal_since_checkpoint w + 1,
           wal_total_appends := saturating_add (wal_total_appends w) 1\<rparr>)"

fun wal_append :: "nat \<Rightarrow> wal \<Rightarrow> u64 \<Rightarrow> u64 \<Rightarrow> log_record_type \<Rightarrow> page_id \<Rightarrow> bytes
      \<Rightarrow> (u64 \<times> wal) wal_result"
  and wal_checkpoint :: "nat \<Rightarrow> wal \<Rightarrow> (u64 \<times> wal) wal_result" where
  "wal_append 0 w txn_id prev_lsn rec_type page payload = Panic"
| "wal_append (Suc stack) w txn_id prev_lsn rec_type page payload =
     (let lsn = wal_next_lsn w;
          w = wal_write_record w txn_id prev_lsn rec_type page payload
      in if 0 < checkpoint_interval (wal_config w)
            \<and> checkpoint_interval (wal_config w) \<le> wal_since_checkpoint w
         then and_then (wal_checkpoint stack w) (\<lambda>(_, w). Ok (lsn, w))
         else Ok (lsn, w))"
| "wal_checkpoint 0 w = Panic"
| "wal_checkpoint (Suc stack) w =
     and_then (wal_append stack w 0 (wal_last_record_lsn w) RecCheckpoint (PageId 0) [])
       (\<lambda>(lsn, w).
        let w = (sync_data w)\<lparr>wal_since_checkpoint := 0\<rparr>
        in if AUTO_TRUNCATE_THRESHOLD \<le> wal_total_appends w
           then and_then (wal_truncate_to_checkpoint w) (\<lambda>(_, w). Ok (lsn, w))
           else Ok (lsn, w))"

definition wal_commit :: "nat \<Rightarrow> wal \<Rightarrow> u64 \<Rightarrow> u64 \<Rightarrow> (u64 \<times> wal) wal_result" where
  "wal_commit stack w txn_id prev_lsn =
     and_then (wal_append stack w txn_id prev_lsn RecCommit (PageId 0) []) (\<lambda>(lsn, w).
       Ok (lsn, if sync_on_commit (wal_config w) then sync_data w else w))"

definition wal_file_size :: "wal \<Rightarrow> u64" where
  "wal_file_size w = of_nat (length (wal_file w))"

section \<open>Logs of well-formed records\<close>

definition stored_ok :: "log_record \<Rightarrow> bool" where
  "stored_ok r \<longleftrightarrow> length (lr_payload r) < 2 ^ 32 \<and> lr_crc32c r = crc32c (record_body r)"

abbreviation log_bytes :: "log_record list \<Rightarrow> bytes" where
  "log_bytes rs \<equiv> concat (map log_to_bytes rs)"

text \<open>What a log in memory promises about its file: the records \<open>rs\<close>, in the order
  of their strictly increasing sequence numbers, none above the last one assigned.\<close>

definition wal_ok :: "wal \<Rightarrow> log_record list \<Rightarrow> bool" where
  "wal_ok w rs \<longleftrightarrow> wal_file w = log_bytes rs \<and> (\<forall>r\<in>set rs. stored_ok r)
     \<and> sorted_wrt (<) (map lr_lsn rs) \<and> (\<forall>r\<in>set rs. lr_lsn r \<le> wal_last_record_lsn w)
     \<and> wal_next_lsn w = wal_last_record_lsn w + 1 \<and> wal_durable w \<le> length (wal_file w)"

definition checkpoint_not_due :: "wal \<Rightarrow> bool" where
  "checkpoint_not_due w \<longleftrightarrow> checkpoint_interval (wal_config w) = 0
     \<or> unat (wal_since_checkpoint w) + 1 < unat (checkpoint_interval (wal_config w))"

lemma log_to_bytes_not_Nil [simp]: "log_to_bytes r \<noteq> []"
  using length_log_to_bytes [of r] by (metis length_0_conv add_is_0 numeral_neq_zero)

lemma stored_ok_parses:
  "stored_ok r \<Longrightarrow> log_from_bytes (log_to_bytes r @ rest) = Ok (r, length (log_to_bytes r))"
  by (simp add: stored_ok_def log_from_bytes_to_bytes)

lemma read_loop_Nil [simp]: "read_loop [] = Ok []"
  by (simp add: read_loop.simps)

lemma read_loop_record:
  "stored_ok r \<Longrightarrow> read_loop (log_to_bytes r @ rest)
     = and_then (read_loop rest) (\<lambda>rs. Ok (r # rs))"
  by (subst read_loop.simps) (simp add: stored_ok_parses)

lemma read_loop_append:
  "\<forall>r\<in>set rs. stored_ok r \<Longrightarrow> read_loop (log_bytes rs @ rest)
     = and_then (read_loop rest) (\<lambda>more. Ok (rs @ more))"
proof (induction rs)
  case Nil
  then show ?case by (cases "read_loop rest") auto
next
  case (Cons r rs)
  then show ?case by (cases "read_loop rest") (simp_all add: read_loop_record)
qed

lemma read_loop_log [simp]: "\<forall>r\<in>set rs. stored_ok r \<Longrightarrow> read_loop (log_bytes rs) = Ok rs"
  using read_loop_append [of rs "[]"] by simp

lemma scan_loop_record:
  "stored_ok r \<Longrightarrow> scan_loop m (log_to_bytes r @ rest) = scan_loop (max m (lr_lsn r)) rest"
  by (subst scan_loop.simps) (auto simp: stored_ok_parses max_def)

lemma scan_loop_append:
  "\<forall>r\<in>set rs. stored_ok r \<Longrightarrow>
     scan_loop m (log_bytes rs @ rest) = scan_loop (foldl max m (map lr_lsn rs)) rest"
  by (induction rs arbitrary: m) (simp_all add: scan_loop_record)

lemma parse_error_is_end: "log_from_bytes bs = Err e \<Longrightarrow> end_of_log e"
  using log_from_bytes_total [of bs] by (auto simp: end_of_log_def)


lemma read_loop_decompose:
  "\<exists>rs tail. read_loop bs = Ok rs \<and> bs = log_bytes rs @ tail \<and> (\<forall>r\<in>set rs. stored_ok r)
     \<and> (tail = [] \<or> (\<exists>e. log_from_bytes tail = Err e))"
proof (induction bs rule: read_loop.induct)
  case (1 buf)
  show ?case
  proof (cases "buf = []")
    case False
    show ?thesis
    proof (cases "log_from_bytes buf")
      case (Ok p)
      then obtain r n where p: "log_from_bytes buf = Ok (r, n)" by (cases p) auto
      note rn = log_from_bytes_Ok [OF p]
      from 1 [OF False p refl] obtain rs tail where IH: "read_loop (drop n buf) = Ok rs"
        "drop n buf = log_bytes rs @ tail" "\<forall>r\<in>set rs. stored_ok r"
        "tail = [] \<or> (\<exists>e. log_from_bytes tail = Err e)" by blast
      have "buf = take n buf @ drop n buf" by simp
      also have "\<dots> = log_bytes (r # rs) @ tail" using rn(3) IH(2) by simp
      finally have "buf = log_bytes (r # rs) @ tail" .
      moreover have "read_loop buf = Ok (r # rs)"
        using False p IH(1) by (subst read_loop.simps) simp
      moreover have "stored_ok r" using rn by (simp add: stored_ok_def)
      ultimately show ?thesis using IH(3,4) by (intro exI [of _ "r # rs"] exI [of _ tail]) simp
    next
      case (Err e)
      then have "read_loop buf = Ok []"
        using False parse_error_is_end by (subst read_loop.simps) simp
      then show ?thesis using Err by (intro exI [of _ "[]"] exI [of _ buf]) simp
    next
      case Panic
      then show ?thesis using log_from_bytes_total [of buf] by simp
    qed
  qed (simp add: exI [of _ "[]"])
qed

lemma scan_loop_read: "read_loop bs = Ok rs \<Longrightarrow> scan_loop m bs = Ok (foldl max m (map lr_lsn rs))"
proof -
  assume read: "read_loop bs = Ok rs"
  obtain rs' tail where d: "read_loop bs = Ok rs'" "bs = log_bytes rs' @ tail"
    "\<forall>r\<in>set rs'. stored_ok r" "tail = [] \<or> (\<exists>e. log_from_bytes tail = Err e)"
    using read_loop_decompose by blast
  have "scan_loop k tail = Ok k" for k
    using d(4) parse_error_is_end by (subst scan_loop.simps) auto
  then show ?thesis using d read by (simp add: scan_loop_append)
qed

lemma wal_open_read:
  assumes "read_loop bs = Ok rs"
  shows "wal_open bs cfg = Ok \<lparr>wal_file = bs, wal_durable = length bs,
    wal_next_lsn = foldl max 0 (map lr_lsn rs) + 1,
    wal_last_record_lsn = foldl max 0 (map lr_lsn rs), wal_config = cfg,
    wal_since_checkpoint = 0, wal_total_appends = foldl max 0 (map lr_lsn rs)\<rparr>"
  using scan_loop_read [OF assms] by (simp add: wal_open_def scan_to_end_def Let_def)

lemma wal_open_log:
  assumes "\<forall>r\<in>set rs. stored_ok r" "sorted_wrt (<) (map lr_lsn rs)"
  obtains w where "wal_open (log_bytes rs) cfg = Ok w" "wal_ok w rs" "wal_config w = cfg"
    "wal_since_checkpoint w = 0"
proof -
  note o = wal_open_read [OF read_loop_log [OF assms(1)], of cfg]
  have "r \<in> set rs \<Longrightarrow> lr_lsn r \<le> foldl max 0 (map lr_lsn rs)" for r
    by (rule foldl_max_upper) simp
  then show ?thesis using assms by (intro that [OF o]) (simp_all add: wal_ok_def)
qed

section \<open>Appending\<close>

lemma record_body_crc [simp]: "record_body (r\<lparr>lr_crc32c := c\<rparr>) = record_body r"
  by (simp add: record_body_def)

lemma log_to_bytes_crc [simp]: "log_to_bytes (r\<lparr>lr_crc32c := c\<rparr>) = log_to_bytes r"
  by (simp add: log_to_bytes_def)

text \<open>The record an append leaves in the log.\<close>

definition appended_record ::
    "wal \<Rightarrow> u64 \<Rightarrow> u64 \<Rightarrow> log_record_type \<Rightarrow> page_id \<Rightarrow> bytes \<Rightarrow> log_record" where
  "appended_record w txn_id prev_lsn rec_type page payload =
     (let r = \<lparr>lr_lsn = wal_next_lsn w, lr_prev_lsn = prev_lsn, lr_txn_id = txn_id,
        lr_rec_type = rec_type, lr_page_id = page_raw page, lr_payload = payload, lr_crc32c = 0\<rparr>
      in r\<lparr>lr_crc32c := crc32c (record_body r)\<rparr>)"

lemma wal_write_record_fields [simp]:
  "wal_file (wal_write_record w t p ty pg pay)
     = wal_file w @ log_to_bytes (appended_record w t p ty pg pay)"
  "wal_config (wal_write_record w t p ty pg pay) = wal_config w"
  "wal_since_checkpoint (wal_write_record w t p ty pg pay) = wal_since_checkpoint w + 1"
  "wal_last_record_lsn (wal_write_record w t p ty pg pay) = wal_next_lsn w"
  "wal_next_lsn (wal_write_record w t p ty pg pay) = wal_next_lsn w + 1"
  by (simp_all add: wal_write_record_def appended_record_def Let_def sync_data_def
      del: log_record.update_convs)

lemma wal_write_record_durable:
  "wal_durable w \<le> length (wal_file w) \<Longrightarrow>
     wal_durable (wal_write_record w t p ty pg pay) \<le> length (wal_file (wal_write_record w t p ty pg pay))"
  by (simp add: wal_write_record_def Let_def sync_data_def)

lemma wal_write_record_ok [inv_intro]:
  assumes "wal_ok w rs" "length pay < 2 ^ 32" "wal_last_record_lsn w \<noteq> - 1"
  shows "wal_ok (wal_write_record w t p ty pg pay) (rs @ [appended_record w t p ty pg pay])"
proof -
  let ?r = "appended_record w t p ty pg pay"
  have next_lsn: "wal_next_lsn w = wal_last_record_lsn w + 1" using assms(1) by (simp add: wal_ok_def)
  have lsn: "lr_lsn ?r = wal_next_lsn w" by (simp add: appended_record_def Let_def)
  have "stored_ok ?r" using assms(2)
    by (simp add: stored_ok_def appended_record_def Let_def record_body_def)
  moreover have "q < wal_next_lsn w" if "q \<le> wal_last_record_lsn w" for q
    using that word_less_Suc [OF assms(3)] by (simp add: next_lsn)
  ultimately show ?thesis
    using assms(1) wal_write_record_durable [of w t p ty pg pay]
    by (auto simp: wal_ok_def lsn sorted_wrt_append intro: less_imp_le)
qed

lemma wal_append_ready:
  assumes "wal_ok w rs" "length pay < 2 ^ 32" "wal_last_record_lsn w \<noteq> - 1"
    "checkpoint_not_due w"
  shows "wal_append (Suc stack) w t p ty pg pay
      = Ok (wal_next_lsn w, wal_write_record w t p ty pg pay)"
proof -
  have "\<not> (0 < checkpoint_interval (wal_config w)
      \<and> checkpoint_interval (wal_config w) \<le> wal_since_checkpoint w + 1)"
  proof (cases "wal_since_checkpoint w + 1 = 0")
    case False
    then show ?thesis using assms(4)
      by (auto simp: checkpoint_not_due_def word_le_nat_alt unat_plus_one)
  next
    case True
    then show ?thesis by auto
  qed
  then show ?thesis by (auto simp: Let_def)
qed

text \<open>A checkpoint that is due calls itself through \<open>append\<close> until the stack ends.\<close>

lemma checkpoint_recursion:
  assumes "0 < checkpoint_interval (wal_config w)"
    "unat (checkpoint_interval (wal_config w)) \<le> unat (wal_since_checkpoint w) + 1"
    "unat (wal_since_checkpoint w) + stack < 2 ^ 32 - 1"
  shows "wal_append stack w t p ty pg pay = Panic" "wal_checkpoint stack w = Panic"
  using assms
proof (induction stack arbitrary: w t p ty pg pay)
  case (Suc stack)
  {
    case 1
    let ?w = "wal_write_record w t p ty pg pay"
    have n: "unat (wal_since_checkpoint ?w) = unat (wal_since_checkpoint w) + 1"
      using 1(3) by (simp add: unat_plus_if_size word_size)
    have "wal_checkpoint stack ?w = Panic" using 1 n by (intro Suc.IH) simp_all
    moreover have "checkpoint_interval (wal_config w) \<le> wal_since_checkpoint ?w"
      using 1(2) n by (simp add: word_le_nat_alt)
    ultimately show ?case using 1(1) by (simp add: Let_def)
  next
    case 2
    then show ?case using Suc.IH(1) [of w] by simp
  }
qed simp_all

declare wal_append.simps [simp del] wal_checkpoint.simps [simp del]

section \<open>Truncation of logs\<close>

lemma wal_read_all_ok: "wal_ok w rs \<Longrightarrow> wal_read_all w = Ok rs"
  by (simp add: wal_read_all_def wal_ok_def)

lemma wal_truncate_no_checkpoint:
  assumes "wal_ok w rs" "\<forall>r\<in>set rs. lr_rec_type r \<noteq> RecCheckpoint"
  shows "wal_truncate_to_checkpoint w = Ok (0, w)"
proof -
  have "rposition (\<lambda>r. lr_rec_type r = RecCheckpoint) rs = None" 
    using assms(2) by (simp add: rposition_None)
  then show ?thesis
    using wal_read_all_ok [OF assms(1)] by (simp add: wal_truncate_to_checkpoint_def)
qed

lemma wal_truncate_drops_prefix:
  assumes ok: "wal_ok w (pre @ c # post)" and c: "lr_rec_type c = RecCheckpoint"
    and post: "\<forall>r\<in>set post. lr_rec_type r \<noteq> RecCheckpoint"
  obtains w' where "wal_truncate_to_checkpoint w = Ok (of_nat (length (log_bytes pre)), w')"
    "wal_ok w' (c # post)" "wal_next_lsn w' = wal_next_lsn w" 
    "wal_file w = log_bytes pre @ wal_file w'"
proof (cases "pre = []")
  case True
  then have "wal_truncate_to_checkpoint w = Ok (0, w)"
    using wal_read_all_ok [OF ok] rposition_append_last [OF c post, of pre]
    by (simp add: wal_truncate_to_checkpoint_def)
  then show ?thesis using True ok by (intro that [of w]) simp_all
next
  case False
  let ?w' = "w\<lparr>wal_file := log_bytes (c # post), wal_durable := length (log_bytes (c # post)),
    wal_total_appends := 0\<rparr>"
  have contents: "wal_file w = log_bytes pre @ log_bytes (c # post)" using ok by (simp add: wal_ok_def)
  have pos: "rposition (\<lambda>r. lr_rec_type r = RecCheckpoint) (pre @ c # post) = Some (length pre)"
    using c post by (rule rposition_append_last)
  have "wal_truncate_to_checkpoint w = Ok (of_nat (length (log_bytes pre)), ?w')"
    using wal_read_all_ok [OF ok] False pos
    by (simp add: wal_truncate_to_checkpoint_def Let_def contents)
  moreover have "wal_ok ?w' (c # post)"
    using ok by (auto simp: wal_ok_def sorted_wrt_append)
  ultimately show ?thesis using contents by (intro that [of ?w']) simp_all
qed

section \<open>Properties\<close>

text \<open>
  Appending. While no automatic checkpoint is due, \<open>append\<close> returns the next sequence
  number, the log file reads back as the old records followed by the new one, and sequence
  numbers stay strictly increasing.
\<close>

lemma wal_append_extends_log:
  assumes "wal_ok w rs" "length payload < 2 ^ 32"
    "unat (wal_last_record_lsn w) + 2 < 2 ^ 64" "checkpoint_not_due w"
  shows "\<exists>w'. wal_append (Suc stack) w txn_id prev rec_type page payload = Ok (wal_next_lsn w, w')
    \<and> wal_ok w' (rs @ [appended_record w txn_id prev rec_type page payload])
    \<and> wal_read_all w' = Ok (rs @ [appended_record w txn_id prev rec_type page payload])
    \<and> wal_next_lsn w < wal_next_lsn w'"
proof -
  let ?w' = "wal_write_record w txn_id prev rec_type page payload"
  have last: "wal_last_record_lsn w \<noteq> - 1"
    using assms(3) by (intro unat_not_max) simp
  moreover have "unat (wal_next_lsn w) = unat (wal_last_record_lsn w) + 1"
    using assms(1) last by (simp add: wal_ok_def unat_plus_one add_eq_0_iff2)
  then have "wal_next_lsn w \<noteq> - 1" using assms(3) by (intro unat_not_max) simp
  ultimately have last: "wal_last_record_lsn w \<noteq> - 1" "wal_next_lsn w \<noteq> - 1" by simp_all
  have "wal_ok ?w' (rs @ [appended_record w txn_id prev rec_type page payload])"
    using assms last by (intro wal_write_record_ok)
  then show ?thesis
    using wal_append_ready [OF assms(1,2) last(1) assms(4)] wal_read_all_ok
      word_less_Suc [OF last(2)]
    by (intro exI [of _ ?w']) simp
qed

lemma wal_append_extends_log_witness:
  "\<exists>w w'. wal_append 1 w 5 0 RecInsert (PageId 3) [1, 2, 3] = Ok (1, w')
     \<and> wal_read_all w' = Ok [appended_record w 5 0 RecInsert (PageId 3) [1, 2, 3]]"
proof -
  obtain w where w: "wal_open (log_bytes []) default_wal_config = Ok w" "wal_ok w []"
    "wal_config w = default_wal_config" "wal_since_checkpoint w = 0"
    using wal_open_log [of "[]" default_wal_config] by auto
  have "wal_next_lsn w = 1" "wal_last_record_lsn w = 0"
    using w(1) by (auto simp: wal_open_def scan_to_end_def scan_loop.simps Let_def)
  then show ?thesis
    using wal_append_extends_log [of w "[]" "[1, 2, 3]" 0 5 0 RecInsert "PageId 3"] w
    by (auto simp: checkpoint_not_due_def default_wal_config_def)
qed

lemma wal_commit_crash:
  assumes "wal_ok w rs" "wal_last_record_lsn w \<noteq> - 1" "checkpoint_not_due w"
    "sync_on_commit (wal_config w)"
  shows "\<exists>w'. wal_commit (Suc stack) w txn_id prev = Ok (wal_next_lsn w, w')
    \<and> (\<forall>image. take (wal_durable w') image = take (wal_durable w') (wal_file w') \<longrightarrow>
         (\<exists>w'' more. wal_open image cfg = Ok w''
            \<and> wal_read_all w''
              = Ok (rs @ appended_record w txn_id prev RecCommit (PageId 0) [] # more)
            \<and> wal_next_lsn w \<le> wal_last_record_lsn w''))"
proof -
  let ?r = "appended_record w txn_id prev RecCommit (PageId 0) []"
  let ?w1 = "wal_write_record w txn_id prev RecCommit (PageId 0) []"
  let ?w' = "sync_data ?w1"
  have ok: "wal_ok ?w1 (rs @ [?r])" using assms by (intro wal_write_record_ok) simp_all
  have "wal_commit (Suc stack) w txn_id prev = Ok (wal_next_lsn w, ?w')"
    using wal_append_ready [of w rs "[]"] assms by (simp add: wal_commit_def)
  moreover have "\<exists>w'' more. wal_open image cfg = Ok w'' \<and> wal_read_all w'' = Ok (rs @ ?r # more)
      \<and> wal_next_lsn w \<le> wal_last_record_lsn w''"
    if "take (wal_durable ?w') image = take (wal_durable ?w') (wal_file ?w')" for image
  proof -
    have stored: "\<forall>q\<in>set (rs @ [?r]). stored_ok q" using ok by (simp add: wal_ok_def)
    have "take (length (wal_file ?w1)) image = log_bytes (rs @ [?r])"
      using that ok by (simp add: sync_data_def wal_ok_def)
    then obtain junk where image: "image = log_bytes (rs @ [?r]) @ junk"
      by (metis append_take_drop_id)
    obtain more where "read_loop junk = Ok more" using read_loop_decompose by blast
    then have read: "read_loop image = Ok (rs @ ?r # more)"
      unfolding image using read_loop_append [OF stored, of junk] by simp
    have "wal_next_lsn w \<le> foldl max 0 (map lr_lsn (rs @ ?r # more))"
      by (rule foldl_max_upper) (simp add: appended_record_def Let_def)
    then show ?thesis using wal_open_read [OF read, of cfg] read by (simp add: wal_read_all_def)
  qed
  ultimately show ?thesis by blast
qed

text \<open>C10:
  Durability of a commit on a sound log. Let the file be exactly the records written, without a
  damaged tail (\<open>wal_ok\<close>), sequence numbers not exhausted, and no automatic checkpoint due.
  After \<open>commit\<close> returns under \<open>sync_on_commit\<close>, whatever a crash leaves after the
  synced bytes, reopening the file succeeds and recovery reads every earlier record and the commit
  record, and the next sequence number is beyond them. After a damaged tail this is false
  (\<open>commit_after_damaged_tail_lost\<close>), and an automatic checkpoint that is due overflows the
  stack.
\<close>

theorem wal_commit_durable:
  assumes "wal_ok w rs" "wal_last_record_lsn w \<noteq> - 1" "checkpoint_not_due w"
    "sync_on_commit (wal_config w)"
  shows "\<exists>w'. wal_commit (Suc stack) w txn_id prev = Ok (wal_next_lsn w, w')
    \<and> (\<forall>image. take (wal_durable w') image = take (wal_durable w') (wal_file w') \<longrightarrow>
         (\<exists>w'' more. wal_open image cfg = Ok w''
            \<and> wal_read_all w''
              = Ok (rs @ appended_record w txn_id prev RecCommit (PageId 0) [] # more)
            \<and> wal_next_lsn w \<le> wal_last_record_lsn w''))"
  using assms by (rule wal_commit_crash)

theorem wal_commit_durable_witness:
  "\<exists>w w'. wal_commit 1 w 5 0 = Ok (1, w') \<and> wal_durable w' = 41
     \<and> (\<exists>w'' more. wal_open (wal_file w' @ [7, 7, 7]) default_wal_config = Ok w''
        \<and> wal_read_all w'' = Ok (appended_record w 5 0 RecCommit (PageId 0) [] # more))"
proof -
  obtain w where w: "wal_open (log_bytes []) default_wal_config = Ok w" "wal_ok w []"
    "wal_config w = default_wal_config" "wal_since_checkpoint w = 0"
    using wal_open_log [of "[]" default_wal_config] by auto
  have fresh: "wal_next_lsn w = 1" "wal_last_record_lsn w = 0" "wal_file w = []"
    using w(1) by (auto simp: wal_open_def scan_to_end_def scan_loop.simps Let_def)
  have ready: "checkpoint_not_due w" "sync_on_commit (wal_config w)"
    using w by (simp_all add: checkpoint_not_due_def default_wal_config_def)
  obtain w' where w': "wal_commit 1 w 5 0 = Ok (1, w')"
    and crash: "\<forall>image. take (wal_durable w') image = take (wal_durable w') (wal_file w') \<longrightarrow>
      (\<exists>w'' more. wal_open image default_wal_config = Ok w''
        \<and> wal_read_all w'' = Ok (appended_record w 5 0 RecCommit (PageId 0) [] # more))"
    using wal_commit_durable [of w "[]" 0 5 0 default_wal_config] w(2) fresh ready
    by (metis (no_types, opaque_lifting) One_nat_def append_Nil list.distinct(1) neg_equal_0_iff_equal zero_neq_one)
  have "w' = sync_data (wal_write_record w 5 0 RecCommit (PageId 0) [])"
    using w' wal_append_ready [OF w(2), of "[]" 0 5 0 RecCommit "PageId 0"] ready fresh
    by (simp add: wal_commit_def)
  then have "wal_durable w' = 41" "length (wal_file w') = 41"
    by (simp_all add: sync_data_def fresh appended_record_def Let_def)
  then show ?thesis using w' crash [rule_format, of "wal_file w' @ [7, 7, 7]"] by auto
qed

text \<open>C13:
  Reopening any file at all succeeds. The scan splits the file into the longest sequence of
  records that parse and a tail that is empty or damaged; the sequence number of the next
  append is above every record read.
\<close>

theorem wal_open_recovers_prefix:
  "\<exists>w rs tail. wal_open disk cfg = Ok w \<and> wal_read_all w = Ok rs \<and> disk = log_bytes rs @ tail
     \<and> (tail = [] \<or> is_err (log_from_bytes tail))
     \<and> wal_last_record_lsn w = foldl max 0 (map lr_lsn rs)
     \<and> wal_next_lsn w = wal_last_record_lsn w + 1"
proof -
  obtain rs tail where d: "read_loop disk = Ok rs" "disk = log_bytes rs @ tail"
    "tail = [] \<or> (\<exists>e. log_from_bytes tail = Err e)"
    using read_loop_decompose [of disk] by blast
  note opened = wal_open_read [OF d(1), of cfg]
  show ?thesis
    by (intro exI conjI, rule opened) (use d in \<open>auto simp: wal_read_all_def\<close>)
qed

text \<open>
  Truncation. \<open>truncate_to_checkpoint\<close> replaces the file by its suffix from the last
  checkpoint record on, returns the number of bytes dropped, and leaves the next sequence
  number and the consistency of the log as they were.
\<close>

lemma wal_truncate_keeps_suffix:
  assumes "wal_ok w (pre @ c # post)" "lr_rec_type c = RecCheckpoint"
    "\<forall>r\<in>set post. lr_rec_type r \<noteq> RecCheckpoint"
  shows "\<exists>w'. wal_truncate_to_checkpoint w = Ok (of_nat (length (log_bytes pre)), w')
    \<and> wal_ok w' (c # post) \<and> wal_read_all w' = Ok (c # post)
    \<and> wal_file w = log_bytes pre @ wal_file w' \<and> wal_next_lsn w' = wal_next_lsn w"
  using wal_truncate_drops_prefix [OF assms] wal_read_all_ok by metis

definition sample_log :: "log_record list" where
  "sample_log = map (\<lambda>(n, t). let r = \<lparr>lr_lsn = n, lr_prev_lsn = 0, lr_txn_id = 1, lr_rec_type = t,
     lr_page_id = 4, lr_payload = [], lr_crc32c = 0\<rparr> in r\<lparr>lr_crc32c := crc32c (record_body r)\<rparr>)
     [(1, RecInsert), (2, RecCheckpoint), (3, RecCommit)]"

lemma sample_log_ok:
  "\<forall>r\<in>set sample_log. stored_ok r" "sorted_wrt (<) (map lr_lsn sample_log)"
  by (simp_all add: sample_log_def stored_ok_def Let_def record_body_def)

lemma wal_truncate_keeps_suffix_witness:
  "\<exists>w w'. wal_open (log_bytes sample_log) default_wal_config = Ok w
     \<and> wal_truncate_to_checkpoint w = Ok (41, w') \<and> wal_read_all w' = Ok (drop 1 sample_log)"
proof -
  obtain w where w: "wal_open (log_bytes sample_log) default_wal_config = Ok w" "wal_ok w sample_log"
    using wal_open_log [OF sample_log_ok] by metis
  have split: "sample_log = take 1 sample_log @ sample_log ! 1 # drop 2 sample_log"
    by (simp add: sample_log_def Let_def)
  have "wal_ok w (take 1 sample_log @ sample_log ! 1 # drop 2 sample_log)" using w(2) split by simp
  from wal_truncate_keeps_suffix [OF this] show ?thesis using w(1)
    by (auto simp: sample_log_def Let_def)
qed

text \<open>C14:
  Automatic checkpoints never return. With a checkpoint interval set, the append that reaches
  it calls \<open>checkpoint\<close>, which appends its own record before the counter is reset, which
  is again at the interval and calls \<open>checkpoint\<close>: for every stack depth (below the
  \<open>2^32\<close> frames at which the 32-bit counter would wrap) the call overflows the stack.
\<close>

theorem auto_checkpoint_overflows_stack:
  assumes "0 < checkpoint_interval (wal_config w)"
    "unat (checkpoint_interval (wal_config w)) \<le> unat (wal_since_checkpoint w) + 1"
    "unat (wal_since_checkpoint w) + stack < 2 ^ 32 - 1"
  shows "wal_append stack w txn_id prev rec_type page payload = Panic
    \<and> wal_commit stack w txn_id prev = Panic \<and> wal_checkpoint stack w = Panic"
  using checkpoint_recursion [OF assms] by (simp add: wal_commit_def)

theorem auto_checkpoint_overflows_stack_witness:
  "wal_append 1000000 \<lparr>wal_file = [], wal_durable = 0, wal_next_lsn = 1000,
     wal_last_record_lsn = 999, wal_config = default_wal_config, wal_since_checkpoint = 999,
     wal_total_appends = 999\<rparr> 7 0 RecInsert (PageId 3) [1] = Panic"
  by (rule conjunct1 [OF auto_checkpoint_overflows_stack]) (simp_all add: default_wal_config_def)

lemma parse_error_persists:
  assumes "log_from_bytes bs = Err e" "e \<noteq> TruncatedRecord"
  shows "log_from_bytes (bs @ rest) = Err e"
proof -
  have len: "37 \<le> length bs" using assms by (auto simp: log_from_bytes_eq split: if_splits)
  then have at: "(bs @ rest) ! 24 = bs ! 24" "payload_len_of (bs @ rest) = payload_len_of bs"
    by (simp_all add: nth_append payload_len_of_def slice_def)
  show ?thesis using assms len 
    unfolding log_from_bytes_eq at
    by (auto simp: Let_def slice_def split: option.splits if_splits)
qed

text \<open>
  Records appended after a damaged tail are lost. Opening a log whose tail fails its checksum
  (or has an unknown record type) keeps the damaged bytes and appends after them: a commit that
  returned and was synced is not among the records that recovery reads.
\<close>

lemma commit_after_damaged_tail_lost:
  assumes "\<forall>r\<in>set rs. stored_ok r" "log_from_bytes tail = Err e" "e \<noteq> TruncatedRecord"
    "sync_on_commit cfg" "checkpoint_interval cfg = 0"
  shows "\<exists>w lsn w'. wal_open (log_bytes rs @ tail) cfg = Ok w
    \<and> wal_commit (Suc stack) w txn_id prev = Ok (lsn, w')
    \<and> wal_durable w' = length (wal_file w') \<and> wal_read_all w' = Ok rs
    \<and> wal_open (wal_file w') cfg = Ok (w' \<lparr>wal_next_lsn := lsn, wal_last_record_lsn := lsn - 1,
         wal_since_checkpoint := 0, wal_total_appends := lsn - 1\<rparr>)"
proof -
  have "tail \<noteq> []" using assms(2,3) by (auto simp: log_from_bytes_eq)
  then have read: "read_loop (log_bytes rs @ tail @ more) = Ok rs" for more
    using parse_error_persists [OF assms(2,3), of more] parse_error_is_end
    by (subst read_loop_append [OF assms(1)], subst read_loop.simps) auto
  have read0: "read_loop (log_bytes rs @ tail) = Ok rs" using read [of "[]"] by simp
  note opened = wal_open_read [OF read0, of cfg]
  let ?m = "foldl max 0 (map lr_lsn rs)"
  let ?w = "\<lparr>wal_file = log_bytes rs @ tail, wal_durable = length (log_bytes rs @ tail),
    wal_next_lsn = ?m + 1, wal_last_record_lsn = ?m, wal_config = cfg, wal_since_checkpoint = 0,
    wal_total_appends = ?m\<rparr>"
  let ?w1 = "wal_write_record ?w txn_id prev RecCommit (PageId 0) []"
  have c: "wal_commit (Suc stack) ?w txn_id prev = Ok (?m + 1, sync_data ?w1)"
    using assms by (simp add: wal_commit_def wal_append.simps Let_def)
  have f: "wal_file (sync_data ?w1) = log_bytes rs @ tail
      @ log_to_bytes (appended_record ?w txn_id prev RecCommit (PageId 0) [])"
    by (simp add: sync_data_def)
  note reopened = wal_open_read [OF read, of _ cfg]
  have again: "wal_open (wal_file (sync_data ?w1)) cfg
      = Ok ((sync_data ?w1) \<lparr>wal_next_lsn := ?m + 1, wal_last_record_lsn := ?m + 1 - 1,
         wal_since_checkpoint := 0, wal_total_appends := ?m + 1 - 1\<rparr>)"
    unfolding f reopened by (simp add: sync_data_def)
  show ?thesis
    using opened c again read f by (intro exI [of _ ?w] exI [of _ "?m + 1"] exI [of _ "sync_data ?w1"])
      (simp add: wal_read_all_def sync_data_def)
qed

lemma commit_after_damaged_tail_lost_witness:
  "\<exists>w lsn w'. wal_open (replicate 40 0) (default_wal_config\<lparr>checkpoint_interval := 0\<rparr>) = Ok w
     \<and> wal_commit 1 w 5 0 = Ok (lsn, w') \<and> wal_read_all w' = Ok []"
proof -
  have "log_from_bytes (replicate 40 0) = Err UnknownRecordType"
    by (simp add: log_from_bytes_eq rec_type_from_u8_def)
  from commit_after_damaged_tail_lost [of "[]", OF _ this,
    of "default_wal_config\<lparr>checkpoint_interval := 0\<rparr>" 0 5 0]
  show ?thesis by (auto simp: default_wal_config_def)
qed

end
