(* ===== verification/Recovery.thy ===== *)
theory Recovery
  imports Wal
begin

text \<open>
  Recovery from the log (\<open>AriesRecovery\<close> in \<open>cendb-tx/src/wal.rs\<close>): the
  analysis pass over the records read back, the redo pass over the writes of committed
  transactions and the undo pass, backwards, over those of the losers. The closure that applies
  a record to a page is a parameter that transforms a state.
\<close>

record aries_recovery =
  committed_txns :: "u64 set"
  loser_txns :: "u64 set"
  recovery_last_lsn :: u64

fun is_data :: "log_record_type \<Rightarrow> bool" where
  "is_data RecInsert = True"
| "is_data RecUpdate = True"
| "is_data RecDelete = True"
| "is_data _ = False"

text \<open>The local variables of \<open>analyze\<close>, and one turn of its loop.\<close>

record analysis =
  an_committed :: "u64 set"
  an_aborted :: "u64 set"
  an_active :: "u64 set"
  an_last_lsn :: u64

definition analyze_record :: "analysis \<Rightarrow> log_record \<Rightarrow> analysis" where
  "analyze_record a r =
     (let a = a\<lparr>an_last_lsn := max (lr_lsn r) (an_last_lsn a)\<rparr>; t = lr_txn_id r in
      case lr_rec_type r of
        RecInsert \<Rightarrow> a\<lparr>an_active := insert t (an_active a)\<rparr>
      | RecUpdate \<Rightarrow> a\<lparr>an_active := insert t (an_active a)\<rparr>
      | RecDelete \<Rightarrow> a\<lparr>an_active := insert t (an_active a)\<rparr>
      | RecCommit \<Rightarrow> a\<lparr>an_active := an_active a - {t}, an_committed := insert t (an_committed a)\<rparr>
      | RecAbort \<Rightarrow> a\<lparr>an_active := an_active a - {t}, an_aborted := insert t (an_aborted a)\<rparr>
      | RecCheckpoint \<Rightarrow> a
      | RecClr \<Rightarrow> a)"

definition analyze :: "log_record list \<Rightarrow> aries_recovery" where
  "analyze records =
     (let a = foldl analyze_record
        \<lparr>an_committed = {}, an_aborted = {}, an_active = {}, an_last_lsn = 0\<rparr> records
      in \<lparr>committed_txns = an_committed a, loser_txns = an_active a,
          recovery_last_lsn = an_last_lsn a\<rparr>)"

fun redo :: "aries_recovery \<Rightarrow> (log_record \<Rightarrow> 's \<Rightarrow> 's) \<Rightarrow> log_record list \<Rightarrow> 's \<Rightarrow> nat \<times> 's" where
  "redo a apply_rec [] s = (0, s)"
| "redo a apply_rec (r # rs) s =
     (if lr_txn_id r \<in> committed_txns a \<and> is_data (lr_rec_type r)
      then let (n, s') = redo a apply_rec rs (apply_rec r s) in (n + 1, s')
      else redo a apply_rec rs s)"

fun undo_loop :: "aries_recovery \<Rightarrow> (log_record \<Rightarrow> 's \<Rightarrow> 's) \<Rightarrow> log_record list \<Rightarrow> 's \<Rightarrow> nat \<times> 's" where
  "undo_loop a apply_rec [] s = (0, s)"
| "undo_loop a apply_rec (r # rs) s =
     (if lr_txn_id r \<in> loser_txns a \<and> is_data (lr_rec_type r)
      then let (n, s') = undo_loop a apply_rec rs (apply_rec r s) in (n + 1, s')
      else undo_loop a apply_rec rs s)"

definition undo :: "aries_recovery \<Rightarrow> (log_record \<Rightarrow> 's \<Rightarrow> 's) \<Rightarrow> log_record list \<Rightarrow> 's \<Rightarrow> nat \<times> 's" where
  "undo a apply_rec rs s = undo_loop a apply_rec (rev rs) s"

section \<open>What the analysis computes\<close>

definition has_record :: "log_record_type \<Rightarrow> u64 \<Rightarrow> log_record list \<Rightarrow> bool" where
  "has_record ty t rs \<longleftrightarrow> (\<exists>r\<in>set rs. lr_txn_id r = t \<and> lr_rec_type r = ty)"

text \<open>A transaction is in flight when its last write comes after any commit or abort.\<close>

fun in_flight :: "u64 \<Rightarrow> log_record list \<Rightarrow> bool" where
  "in_flight t [] = False"
| "in_flight t (r # rs) = (in_flight t rs
     \<or> lr_txn_id r = t \<and> is_data (lr_rec_type r)
       \<and> \<not> has_record RecCommit t rs \<and> \<not> has_record RecAbort t rs)"

lemma has_record_simps [simp]:
  "\<not> has_record ty t []"
  "has_record ty t (r # rs) \<longleftrightarrow> lr_txn_id r = t \<and> lr_rec_type r = ty \<or> has_record ty t rs"
  "has_record ty t (rs @ qs) \<longleftrightarrow> has_record ty t rs \<or> has_record ty t qs"
  by (auto simp: has_record_def)

lemma analyze_fold:
  "an_committed (foldl analyze_record a rs) = an_committed a \<union> {t. has_record RecCommit t rs}"
  "an_aborted (foldl analyze_record a rs) = an_aborted a \<union> {t. has_record RecAbort t rs}"
  "an_active (foldl analyze_record a rs) = {t. in_flight t rs} \<union>
     {t \<in> an_active a. \<not> has_record RecCommit t rs \<and> \<not> has_record RecAbort t rs}"
  "an_last_lsn (foldl analyze_record a rs) = foldl max (an_last_lsn a) (map lr_lsn rs)"
  by (induction rs arbitrary: a)
    (auto simp: analyze_record_def Let_def max.commute split: log_record_type.splits)

lemma redo_fold:
  "redo a f rs s = (let qs = filter (\<lambda>r. lr_txn_id r \<in> committed_txns a \<and> is_data (lr_rec_type r)) rs
     in (length qs, fold f qs s))"
  by (induction rs arbitrary: s) (auto simp: Let_def)

lemma undo_loop_fold:
  "undo_loop a f rs s = (let qs = filter (\<lambda>r. lr_txn_id r \<in> loser_txns a \<and> is_data (lr_rec_type r)) rs
     in (length qs, fold f qs s))"
  by (induction rs arbitrary: s) (auto simp: Let_def)


lemma in_flight_iff:
  "in_flight t rs \<longleftrightarrow> (\<exists>pre r post. rs = pre @ r # post \<and> lr_txn_id r = t \<and> is_data (lr_rec_type r)
     \<and> \<not> has_record RecCommit t post \<and> \<not> has_record RecAbort t post)"
proof (induction rs)
  case (Cons q rs)
  show ?case (is "_ \<longleftrightarrow> ?split (q # rs)")
  proof
    assume "in_flight t (q # rs)"
    then show "?split (q # rs)" using Cons
      by (metis append_Cons append_Nil in_flight.simps(2))
  next
    assume "?split (q # rs)"
    then show "in_flight t (q # rs)" using Cons by (auto simp: Cons_eq_append_conv)
  qed
qed simp

lemma in_flight_append:
  "in_flight t (rs @ qs) \<longleftrightarrow> in_flight t qs
     \<or> in_flight t rs \<and> \<not> has_record RecCommit t qs \<and> \<not> has_record RecAbort t qs"
  by (induction rs) auto

lemma analyze_simps:
  "committed_txns (analyze rs) = {t. has_record RecCommit t rs}"
  "loser_txns (analyze rs) = {t. in_flight t rs}"
  "recovery_last_lsn (analyze rs) = foldl max 0 (map lr_lsn rs)"
  by (simp_all add: analyze_def Let_def analyze_fold)

text \<open>Nothing follows a transaction's commit or abort record under its identifier.\<close>

definition txn_discipline :: "log_record list \<Rightarrow> bool" where
  "txn_discipline rs \<longleftrightarrow> sorted_wrt (\<lambda>r q. lr_txn_id r = lr_txn_id q
     \<longrightarrow> lr_rec_type r \<noteq> RecCommit \<and> lr_rec_type r \<noteq> RecAbort) rs"

lemma discipline_in_flight:
  "txn_discipline rs \<Longrightarrow> in_flight t rs \<longleftrightarrow>
     (\<exists>r\<in>set rs. lr_txn_id r = t \<and> is_data (lr_rec_type r))
     \<and> \<not> has_record RecCommit t rs \<and> \<not> has_record RecAbort t rs"
  by (induction rs) (auto simp: txn_discipline_def has_record_def)

lemma discipline_one_outcome:
  "txn_discipline rs \<Longrightarrow> has_record RecAbort t rs \<Longrightarrow> \<not> has_record RecCommit t rs"
proof (induction rs)
  case (Cons r rs)
  have rest: "has_record ty t rs \<Longrightarrow> lr_txn_id r = t \<Longrightarrow>
      lr_rec_type r \<noteq> RecCommit \<and> lr_rec_type r \<noteq> RecAbort" for ty
    using Cons.prems(1) unfolding txn_discipline_def has_record_def sorted_wrt.simps by metis
  have IH: "has_record RecAbort t rs \<Longrightarrow> \<not> has_record RecCommit t rs"
    using Cons by (simp add: txn_discipline_def)
  show ?case using Cons.prems(2) rest IH by auto
qed simp

section \<open>Properties\<close>

text \<open>
  Analysis. The committed transactions are those with a commit record; the losers are those
  whose last write is followed by neither a commit nor an abort; the last sequence number is
  the maximum over the log.
\<close>

lemma analyze_classifies:
  "committed_txns (analyze rs) = {t. \<exists>r\<in>set rs. lr_txn_id r = t \<and> lr_rec_type r = RecCommit}
   \<and> loser_txns (analyze rs) = {t. \<exists>pre r post. rs = pre @ r # post \<and> lr_txn_id r = t
       \<and> is_data (lr_rec_type r) \<and> \<not> has_record RecCommit t post \<and> \<not> has_record RecAbort t post}
   \<and> recovery_last_lsn (analyze rs) = Max (insert 0 (lr_lsn ` set rs))"
proof -
  have "foldl max m xs = fold max xs m" for m :: u64 and xs
    by (induction xs arbitrary: m) (simp_all add: max.commute)
  then have "foldl max m xs = Max (set (m # xs))" for m :: u64 and xs
    by (simp only: Max.set_eq_fold)
  then show ?thesis by (simp add: analyze_simps in_flight_iff has_record_def)
qed

text \<open>C11:
  Recovery treats each write once. In a log where nothing follows a transaction's commit or
  abort, redo applies exactly the writes of committed transactions, in log order, undo applies
  exactly the writes of the transactions with neither a commit nor an abort, in reverse log
  order, and the two sets of transactions are disjoint.
\<close>

theorem recovery_partitions_writes:
  assumes "txn_discipline rs"
  shows "redo (analyze rs) f rs s = (let qs = filter (\<lambda>r. is_data (lr_rec_type r)
           \<and> has_record RecCommit (lr_txn_id r) rs) rs in (length qs, fold f qs s))
    \<and> undo (analyze rs) g rs s = (let qs = filter (\<lambda>r. is_data (lr_rec_type r)
           \<and> \<not> has_record RecCommit (lr_txn_id r) rs \<and> \<not> has_record RecAbort (lr_txn_id r) rs) rs
         in (length qs, foldr g qs s))
    \<and> committed_txns (analyze rs) \<inter> loser_txns (analyze rs) = {}"
proof (intro conjI)
  show "redo (analyze rs) f rs s = (let qs = filter (\<lambda>r. is_data (lr_rec_type r)
           \<and> has_record RecCommit (lr_txn_id r) rs) rs in (length qs, fold f qs s))"
    by (simp add: redo_fold analyze_simps conj_commute)
  have "filter (\<lambda>r. lr_txn_id r \<in> loser_txns (analyze rs) \<and> is_data (lr_rec_type r)) rs
      = filter (\<lambda>r. is_data (lr_rec_type r) \<and> \<not> has_record RecCommit (lr_txn_id r) rs
           \<and> \<not> has_record RecAbort (lr_txn_id r) rs) rs"
    by (rule filter_cong) (auto simp: analyze_simps discipline_in_flight [OF assms])
  then show "undo (analyze rs) g rs s = (let qs = filter (\<lambda>r. is_data (lr_rec_type r)
           \<and> \<not> has_record RecCommit (lr_txn_id r) rs \<and> \<not> has_record RecAbort (lr_txn_id r) rs) rs
         in (length qs, foldr g qs s))"
    by (simp add: undo_def undo_loop_fold Let_def rev_filter [symmetric] foldr_conv_fold)
  show "committed_txns (analyze rs) \<inter> loser_txns (analyze rs) = {}"
    using discipline_in_flight [OF assms] by (auto simp: analyze_simps)
qed

definition log_rec :: "u64 \<Rightarrow> u64 \<Rightarrow> log_record_type \<Rightarrow> log_record" where
  "log_rec lsn t ty = (let r = \<lparr>lr_lsn = lsn, lr_prev_lsn = 0, lr_txn_id = t, lr_rec_type = ty,
     lr_page_id = 4, lr_payload = [], lr_crc32c = 0\<rparr> in r\<lparr>lr_crc32c := crc32c (record_body r)\<rparr>)"

lemma log_rec_simps [simp]:
  "lr_lsn (log_rec n t ty) = n" "lr_txn_id (log_rec n t ty) = t" "lr_rec_type (log_rec n t ty) = ty"
  "stored_ok (log_rec n t ty)"
  by (simp_all add: log_rec_def Let_def stored_ok_def record_body_def)

theorem recovery_partitions_writes_witness:
  "redo (analyze [log_rec 1 1 RecInsert, log_rec 2 2 RecUpdate, log_rec 3 1 RecCommit])
     (\<lambda>r s. lr_lsn r # s) [log_rec 1 1 RecInsert, log_rec 2 2 RecUpdate, log_rec 3 1 RecCommit] []
     = (1, [1])
   \<and> undo (analyze [log_rec 1 1 RecInsert, log_rec 2 2 RecUpdate, log_rec 3 1 RecCommit])
     (\<lambda>r s. lr_lsn r # s) [log_rec 1 1 RecInsert, log_rec 2 2 RecUpdate, log_rec 3 1 RecCommit] []
     = (1, [2])"
  using recovery_partitions_writes [of "[log_rec 1 1 RecInsert, log_rec 2 2 RecUpdate,
      log_rec 3 1 RecCommit]" "\<lambda>r s. lr_lsn r # s" "[]" "\<lambda>r s. lr_lsn r # s"]
  by (simp add: txn_discipline_def)

text \<open>C2:
  Committed transactions survive. Take a log without a damaged tail (\<open>wal_ok\<close>: its file is
  exactly the records written, see \<open>Wal.commit_after_damaged_tail_lost\<close> for what happens
  otherwise), with sequence numbers left, on which no automatic checkpoint is due. After a commit under
  \<open>sync_on_commit\<close>, recovery from any file that keeps the synced bytes classifies the
  transaction as committed; redo transforms the state by exactly the writes of the transactions with a
  commit record, in log order; and the writes of this transaction among them are all those it logged
  before the commit, followed by those that a crash may have left behind the synced bytes.
\<close>

theorem committed_transaction_recovered:
  assumes "wal_ok w rs" "wal_last_record_lsn w \<noteq> - 1" "checkpoint_not_due w"
    "sync_on_commit (wal_config w)"
  shows "\<exists>w'. wal_commit (Suc stack) w txn_id prev = Ok (wal_next_lsn w, w')
    \<and> (\<forall>disk. take (wal_durable w') disk = take (wal_durable w') (wal_file w') \<longrightarrow>
         (\<exists>w'' qs ws more. wal_open disk cfg = Ok w'' \<and> wal_read_all w'' = Ok qs
            \<and> txn_id \<in> committed_txns (analyze qs)
            \<and> ws = filter (\<lambda>r. is_data (lr_rec_type r) \<and> has_record RecCommit (lr_txn_id r) qs) qs
            \<and> redo (analyze qs) f qs s = (length ws, fold f ws s)
            \<and> filter (\<lambda>r. lr_txn_id r = txn_id) ws
              = filter (\<lambda>r. lr_txn_id r = txn_id \<and> is_data (lr_rec_type r)) rs @ more))"
proof -
  let ?c = "appended_record w txn_id prev RecCommit (PageId 0) []"
  let ?own = "\<lambda>r. lr_txn_id r = txn_id \<and> is_data (lr_rec_type r)"
  have c: "lr_txn_id ?c = txn_id" "lr_rec_type ?c = RecCommit"
    by (simp_all add: appended_record_def Let_def)
  obtain w' where w': "wal_commit (Suc stack) w txn_id prev = Ok (wal_next_lsn w, w')"
    and crash: "\<forall>disk. take (wal_durable w') disk = take (wal_durable w') (wal_file w') \<longrightarrow>
         (\<exists>w'' more. wal_open disk cfg = Ok w'' \<and> wal_read_all w'' = Ok (rs @ ?c # more)
            \<and> wal_next_lsn w \<le> wal_last_record_lsn w'')"
    using wal_commit_crash [OF assms] by blast
  have redone: "redo (analyze qs) f qs s =
      (let ws = filter (\<lambda>r. is_data (lr_rec_type r) \<and> has_record RecCommit (lr_txn_id r) qs) qs
       in (length ws, fold f ws s))" for qs
    by (simp add: redo_fold analyze_simps conj_commute)
  have own: "filter (\<lambda>r. lr_txn_id r = txn_id)
        (filter (\<lambda>r. is_data (lr_rec_type r) \<and> has_record RecCommit (lr_txn_id r) qs) qs)
      = filter ?own rs @ filter ?own more" if "qs = rs @ ?c # more" for qs more
  proof -
    have "has_record RecCommit txn_id qs" using c that by simp
    then have "filter (\<lambda>r. lr_txn_id r = txn_id)
        (filter (\<lambda>r. is_data (lr_rec_type r) \<and> has_record RecCommit (lr_txn_id r) qs) qs) = filter ?own qs"
      unfolding filter_filter by (intro filter_cong) auto
    then show ?thesis using c that by simp
  qed
  have "txn_id \<in> committed_txns (analyze (rs @ ?c # more))" for more
    using c by (simp add: analyze_simps)
  then have "\<exists>w'' qs ws more. wal_open disk cfg = Ok w'' \<and> wal_read_all w'' = Ok qs
      \<and> txn_id \<in> committed_txns (analyze qs)
      \<and> ws = filter (\<lambda>r. is_data (lr_rec_type r) \<and> has_record RecCommit (lr_txn_id r) qs) qs
      \<and> redo (analyze qs) f qs s = (length ws, fold f ws s)
      \<and> filter (\<lambda>r. lr_txn_id r = txn_id) ws = filter ?own rs @ more"
    if disk: "take (wal_durable w') disk = take (wal_durable w') (wal_file w')" for disk
    using crash disk redone own unfolding Let_def by blast
  then show ?thesis using w' by blast
qed

theorem committed_transaction_recovered_witness:
  "\<exists>w w'. wal_commit 1 w 5 1 = Ok (2, w')
     \<and> (\<exists>qs. wal_read_all w' = Ok qs \<and> 5 \<in> committed_txns (analyze qs))"
proof -
  let ?rs = "[log_rec 1 5 RecInsert]"
  obtain w where w: "wal_open (log_bytes ?rs) default_wal_config = Ok w" "wal_ok w ?rs"
    "wal_config w = default_wal_config" "wal_since_checkpoint w = 0"
    using wal_open_log [of ?rs default_wal_config] by auto
  have fresh: "wal_next_lsn w = 2" "wal_last_record_lsn w = 1"
    using w(1) wal_open_read [OF read_loop_log [of ?rs], of default_wal_config] by auto
  have ready: "checkpoint_not_due w" "sync_on_commit (wal_config w)"
    using w by (simp_all add: checkpoint_not_due_def default_wal_config_def)
  obtain w' where w': "wal_commit 1 w 5 1 = Ok (2, w')" and crash:
    "\<forall>disk. take (wal_durable w') disk = take (wal_durable w') (wal_file w') \<longrightarrow>
      (\<exists>w'' qs. wal_open disk default_wal_config = Ok w'' \<and> wal_read_all w'' = Ok qs
         \<and> 5 \<in> committed_txns (analyze qs))"
    using committed_transaction_recovered [OF w(2) _ ready, of 0 5 1 default_wal_config
        "\<lambda>_ s. s" "()"] fresh
    unfolding One_nat_def [symmetric] by (simp only:) (simp, blast)
  have "wal_open bs cfg = Ok w'' \<Longrightarrow> wal_file w'' = bs" for bs cfg w''
    using read_loop_decompose [of bs] wal_open_read [of bs _ cfg] by auto
  moreover obtain w'' qs where "wal_open (wal_file w') default_wal_config = Ok w''"
      "wal_read_all w'' = Ok qs" "5 \<in> committed_txns (analyze qs)"
    using crash by blast
  ultimately show ?thesis using w' unfolding wal_read_all_def by metis
qed

text \<open>
  Aborted transactions are not losers. The structure's comment says that transactions that
  aborted are undone; analysis removes them from the active set and keeps the aborted set
  local, so neither redo nor undo applies any of their records.
\<close>

lemma aborted_writes_not_undone:
  assumes "txn_discipline rs" "has_record RecAbort t rs"
  shows "t \<notin> committed_txns (analyze rs) \<and> t \<notin> loser_txns (analyze rs)
    \<and> undo (analyze rs) g rs s = undo (analyze rs) g (filter (\<lambda>r. lr_txn_id r \<noteq> t) rs) s"
proof -
  have c: "t \<notin> committed_txns (analyze rs)"
    using discipline_one_outcome [OF assms] by (simp add: analyze_simps)
  have l: "t \<notin> loser_txns (analyze rs)"
    using discipline_in_flight [OF assms(1)] assms(2) by (simp add: analyze_simps)
  have "filter (\<lambda>r. lr_txn_id r \<in> loser_txns (analyze rs) \<and> is_data (lr_rec_type r)) (rev rs)
    = filter (\<lambda>r. (lr_txn_id r \<in> loser_txns (analyze rs) \<and> is_data (lr_rec_type r))
        \<and> lr_txn_id r \<noteq> t) (rev rs)"
    using l by (intro filter_cong) auto
  then show ?thesis using c l
    by (simp add: undo_def undo_loop_fold Let_def rev_filter conj_commute)
qed

lemma aborted_writes_not_undone_witness:
  "1 \<notin> loser_txns (analyze [log_rec 1 1 RecInsert, log_rec 2 1 RecAbort])"
  using aborted_writes_not_undone [of "[log_rec 1 1 RecInsert, log_rec 2 1 RecAbort]" 1
      "\<lambda>_ s. s" "()"]
  by (simp add: txn_discipline_def)

text \<open>
  Truncation forgets in-flight transactions. A checkpoint record carries no table of active
  transactions, so when a transaction's writes all precede the last checkpoint and its fate is
  open, it is a loser before \<open>truncate_to_checkpoint\<close> and not after it: its writes are
  no longer undone.
\<close>

lemma truncation_forgets_losers:
  assumes "wal_ok w (pre @ c # post)" "lr_rec_type c = RecCheckpoint"
    "\<forall>r\<in>set post. lr_rec_type r \<noteq> RecCheckpoint" "in_flight t pre"
    "\<forall>r\<in>set post. lr_txn_id r \<noteq> t"
  shows "t \<in> loser_txns (analyze (pre @ c # post))
    \<and> (\<exists>w' n rs. wal_truncate_to_checkpoint w = Ok (n, w') \<and> wal_read_all w' = Ok rs
         \<and> t \<notin> loser_txns (analyze rs))"
proof -
  have none: "\<not> has_record ty t post" "\<not> in_flight t post" for ty
    using assms(5) by (auto simp: has_record_def in_flight_iff)
  obtain w' n where "wal_truncate_to_checkpoint w = Ok (n, w')" "wal_ok w' (c # post)"
    using wal_truncate_drops_prefix [OF assms(1-3)] by metis
  then show ?thesis using none assms(2,4) wal_read_all_ok
    by (auto simp: analyze_simps in_flight_append)
qed

lemma truncation_forgets_losers_witness:
  "\<exists>w w' n rs. wal_open (log_bytes [log_rec 1 1 RecInsert, log_rec 2 0 RecCheckpoint]) default_wal_config = Ok w
     \<and> wal_truncate_to_checkpoint w = Ok (n, w') \<and> wal_read_all w' = Ok rs
     \<and> 1 \<notin> loser_txns (analyze rs)"
proof -
  obtain w where w: "wal_open (log_bytes [log_rec 1 1 RecInsert, log_rec 2 0 RecCheckpoint]) default_wal_config = Ok w"
    "wal_ok w [log_rec 1 1 RecInsert, log_rec 2 0 RecCheckpoint]"
    using wal_open_log [of "[log_rec 1 1 RecInsert, log_rec 2 0 RecCheckpoint]" default_wal_config] by auto
  then show ?thesis
    using truncation_forgets_losers [of w "[log_rec 1 1 RecInsert]" "log_rec 2 0 RecCheckpoint" "[]" 1]
    by auto
qed
end
