(* ===== verification/Mvcc.thy ===== *)
theory Mvcc
  imports Core "HOL-Library.AList"
begin

text \<open>
  The MVCC transaction manager (\<open>cendb-tx/src/mvcc.rs\<close>): version headers and their
  visibility, the timestamp oracle, optimistic validation at commit, the garbage collector's
  horizon and savepoints. An operation returns its result together with the new state, because
  a failing commit changes the state too. The hash map of transactions is an association list.
\<close>

section \<open>Version headers\<close>

record version_header =
  vh_begin_ts :: u64
  vh_end_ts :: u64
  vh_txn_id :: u64
  vh_prev_version_off :: u64

definition LIVE :: u64 where "LIVE = - 1"

definition version_header_new :: "u64 \<Rightarrow> version_header" where
  "version_header_new txn_id = \<lparr>vh_begin_ts = 0, vh_end_ts = LIVE, vh_txn_id = txn_id,
     vh_prev_version_off = 0\<rparr>"

definition is_visible_to :: "version_header \<Rightarrow> u64 \<Rightarrow> u64 \<Rightarrow> (u64 \<Rightarrow> bool) \<Rightarrow> bool" where
  "is_visible_to v read_ts reader_txn_id committed =
     (if vh_txn_id v = reader_txn_id then True
      else if vh_begin_ts v > read_ts then False
      else if vh_end_ts v \<le> read_ts then False
      else committed (vh_begin_ts v))"

section \<open>The timestamp oracle\<close>

datatype timestamp_oracle = TimestampOracle (oracle_current: u64)

definition oracle_next :: "timestamp_oracle \<Rightarrow> u64 \<times> timestamp_oracle" where
  "oracle_next t = (oracle_current t + 1, TimestampOracle (oracle_current t + 1))"

section \<open>Transactions\<close>

datatype isolation_level = ReadOnly | Snapshot | Serializable

datatype transaction_state = Active | Validation | Committed | Aborted

type_synonym key = bytes

record transaction =
  tx_txn_id :: u64
  tx_read_ts :: u64
  tx_commit_ts :: "u64 option"
  tx_state :: transaction_state
  tx_isolation :: isolation_level
  tx_write_set :: "key list"

definition transaction_new :: "u64 \<Rightarrow> u64 \<Rightarrow> isolation_level \<Rightarrow> transaction" where
  "transaction_new txn_id read_ts isolation = \<lparr>tx_txn_id = txn_id, tx_read_ts = read_ts,
     tx_commit_ts = None, tx_state = Active, tx_isolation = isolation, tx_write_set = []\<rparr>"

datatype mvcc_error = MvccConflict | MvccAborted | AlreadyCommitted | AlreadyAborted
  | MvccNotFound | MvccOther string

fun mvcc_status :: "mvcc_error \<Rightarrow> cen_status" where
  "mvcc_status MvccConflict = ErrConflict"
| "mvcc_status MvccAborted = ErrConflict"
| "mvcc_status AlreadyCommitted = ErrConstraint"
| "mvcc_status AlreadyAborted = ErrConstraint"
| "mvcc_status MvccNotFound = ErrNotFound"
| "mvcc_status (MvccOther _) = ErrInternal"

type_synonym 'a mvcc_result = "('a, mvcc_error) outcome"

section \<open>The transaction manager\<close>

record transaction_manager =
  tm_oracle :: timestamp_oracle
  tm_txns :: "(u64 \<times> transaction) list"
  tm_committed_ts :: "u64 set"
  tm_latest_writes :: "key \<Rightarrow> u64 option"
  tm_next_txn_id :: u64

definition tm_new :: transaction_manager where
  "tm_new = \<lparr>tm_oracle = TimestampOracle 1, tm_txns = [], tm_committed_ts = {},
     tm_latest_writes = (\<lambda>_. None), tm_next_txn_id = 1\<rparr>"

definition get_txn :: "transaction_manager \<Rightarrow> u64 \<Rightarrow> transaction option" where
  "get_txn s txn_id = map_of (tm_txns s) txn_id"

definition put_txn :: "transaction_manager \<Rightarrow> u64 \<Rightarrow> transaction \<Rightarrow> transaction_manager" where
  "put_txn s txn_id t = s\<lparr>tm_txns := AList.update txn_id t (tm_txns s)\<rparr>"

definition tm_begin :: "transaction_manager \<Rightarrow> isolation_level \<Rightarrow> u64 \<times> transaction_manager" where
  "tm_begin s isolation =
     (let txn_id = tm_next_txn_id s;
          s = s\<lparr>tm_next_txn_id := txn_id + 1\<rparr>;
          read_ts = oracle_current (tm_oracle s)
      in (txn_id, put_txn s txn_id (transaction_new txn_id read_ts isolation)))"

definition record_write :: "transaction_manager \<Rightarrow> u64 \<Rightarrow> key
      \<Rightarrow> unit mvcc_result \<times> transaction_manager" where
  "record_write s txn_id k =
     (case get_txn s txn_id of
        None \<Rightarrow> (Err MvccNotFound, s)
      | Some t \<Rightarrow>
          if tx_state t \<noteq> Active then (Err MvccAborted, s)
          else (Ok (), put_txn s txn_id (t\<lparr>tx_write_set := tx_write_set t @ [k]\<rparr>)))"

text \<open>The validation loop: some key of the write set was committed after the snapshot.\<close>

fun write_conflict :: "(key \<Rightarrow> u64 option) \<Rightarrow> u64 \<Rightarrow> key list \<Rightarrow> bool" where
  "write_conflict latest_writes read_ts [] = False"
| "write_conflict latest_writes read_ts (k # ks) =
     (case latest_writes k of
        Some latest \<Rightarrow> if latest > read_ts then True else write_conflict latest_writes read_ts ks
      | None \<Rightarrow> write_conflict latest_writes read_ts ks)"

definition tm_commit :: "transaction_manager \<Rightarrow> u64 \<Rightarrow> u64 mvcc_result \<times> transaction_manager" where
  "tm_commit s txn_id =
     (case get_txn s txn_id of
        None \<Rightarrow> (Err MvccNotFound, s)
      | Some t \<Rightarrow>
          (case tx_state t of
             Committed \<Rightarrow> (Err AlreadyCommitted, s)
           | Aborted \<Rightarrow> (Err AlreadyAborted, s)
           | _ \<Rightarrow>
               if write_conflict (tm_latest_writes s) (tx_read_ts t) (tx_write_set t)
               then (Err MvccConflict, put_txn s txn_id (t\<lparr>tx_state := Aborted\<rparr>))
               else
                 let (commit_ts, oracle) = oracle_next (tm_oracle s);
                     s = s\<lparr>tm_oracle := oracle,
                       tm_latest_writes := fold (\<lambda>k m. m(k \<mapsto> commit_ts)) (tx_write_set t)
                         (tm_latest_writes s),
                       tm_committed_ts := insert commit_ts (tm_committed_ts s)\<rparr>
                 in (Ok commit_ts, put_txn s txn_id
                       (t\<lparr>tx_commit_ts := Some commit_ts, tx_state := Committed\<rparr>))))"

definition tm_abort :: "transaction_manager \<Rightarrow> u64 \<Rightarrow> unit mvcc_result \<times> transaction_manager" where
  "tm_abort s txn_id =
     (case get_txn s txn_id of
        None \<Rightarrow> (Err MvccNotFound, s)
      | Some t \<Rightarrow>
          (case tx_state t of
             Committed \<Rightarrow> (Err AlreadyCommitted, s)
           | Aborted \<Rightarrow> (Err AlreadyAborted, s)
           | _ \<Rightarrow> (Ok (), put_txn s txn_id (t\<lparr>tx_state := Aborted\<rparr>))))"

definition is_committed :: "transaction_manager \<Rightarrow> u64 \<Rightarrow> bool" where
  "is_committed s ts \<longleftrightarrow> ts \<in> tm_committed_ts s"

definition tm_read_ts :: "transaction_manager \<Rightarrow> u64 \<Rightarrow> u64 option" where
  "tm_read_ts s txn_id = map_option tx_read_ts (get_txn s txn_id)"

definition tm_commit_ts :: "transaction_manager \<Rightarrow> u64 \<Rightarrow> u64 option" where
  "tm_commit_ts s txn_id = Option.bind (get_txn s txn_id) tx_commit_ts"

definition current_ts :: "transaction_manager \<Rightarrow> u64" where
  "current_ts s = oracle_current (tm_oracle s)"

definition active_count :: "transaction_manager \<Rightarrow> nat" where
  "active_count s = length (filter (\<lambda>(_, t). tx_state t = Active) (tm_txns s))"

section \<open>Garbage collection\<close>

record garbage_collector =
  gc_min_active_ts :: u64
  gc_versions_collected :: u64

definition gc_new :: garbage_collector where
  "gc_new = \<lparr>gc_min_active_ts = 0, gc_versions_collected = 0\<rparr>"

definition update_min_active_ts :: "garbage_collector \<Rightarrow> transaction_manager \<Rightarrow> garbage_collector" where
  "update_min_active_ts g s = g\<lparr>gc_min_active_ts := current_ts s\<rparr>"

definition set_min_active_ts :: "garbage_collector \<Rightarrow> u64 \<Rightarrow> garbage_collector" where
  "set_min_active_ts g ts = g\<lparr>gc_min_active_ts := ts\<rparr>"

definition can_gc :: "garbage_collector \<Rightarrow> u64 \<Rightarrow> bool" where
  "can_gc g end_ts \<longleftrightarrow> end_ts \<noteq> - 1 \<and> end_ts < gc_min_active_ts g"

definition record_gc :: "garbage_collector \<Rightarrow> garbage_collector" where
  "record_gc g = g\<lparr>gc_versions_collected := gc_versions_collected g + 1\<rparr>"

section \<open>Savepoints\<close>

record savepoint =
  sp_name :: string
  sp_lsn :: u64
  sp_write_set :: "key list"

record nested_transaction =
  nt_txn_id :: u64
  nt_read_ts :: u64
  nt_write_set :: "key list"
  nt_savepoints :: "savepoint list"

definition nested_new :: "u64 \<Rightarrow> u64 \<Rightarrow> nested_transaction" where
  "nested_new txn_id read_ts = \<lparr>nt_txn_id = txn_id, nt_read_ts = read_ts, nt_write_set = [],
     nt_savepoints = []\<rparr>"

definition nt_savepoint :: "nested_transaction \<Rightarrow> string \<Rightarrow> u64 \<Rightarrow> nested_transaction" where
  "nt_savepoint t name lsn = t\<lparr>nt_savepoints := nt_savepoints t
     @ [\<lparr>sp_name = name, sp_lsn = lsn, sp_write_set = nt_write_set t\<rparr>]\<rparr>"

definition rollback_to :: "nested_transaction \<Rightarrow> string \<Rightarrow> (nested_transaction, string) outcome" where
  "rollback_to t name =
     (case rposition (\<lambda>sp. sp_name sp = name) (nt_savepoints t) of
        None \<Rightarrow> Err ''savepoint not found''
      | Some pos \<Rightarrow> and_then (index_at (nt_savepoints t) pos) (\<lambda>sp.
          Ok (t\<lparr>nt_write_set := sp_write_set sp,
               nt_savepoints := take (pos + 1) (nt_savepoints t)\<rparr>)))"

definition release_savepoint :: "nested_transaction \<Rightarrow> string \<Rightarrow> (nested_transaction, string) outcome" where
  "release_savepoint t name =
     (case rposition (\<lambda>sp. sp_name sp = name) (nt_savepoints t) of
        None \<Rightarrow> Err ''savepoint not found''
      | Some pos \<Rightarrow> Ok (t\<lparr>nt_savepoints := take pos (nt_savepoints t)
                           @ drop (pos + 1) (nt_savepoints t)\<rparr>))"

section \<open>Histories\<close>

text \<open>A history is the sequence of calls made on one transaction manager.\<close>

datatype tm_op = OpBegin isolation_level | OpWrite u64 key | OpCommit u64 | OpAbort u64

fun tm_step :: "tm_op \<Rightarrow> transaction_manager \<Rightarrow> transaction_manager" where
  "tm_step (OpBegin i) s = snd (tm_begin s i)"
| "tm_step (OpWrite t k) s = snd (record_write s t k)"
| "tm_step (OpCommit t) s = snd (tm_commit s t)"
| "tm_step (OpAbort t) s = snd (tm_abort s t)"

definition tm_run :: "tm_op list \<Rightarrow> transaction_manager \<Rightarrow> transaction_manager" where
  "tm_run ops s = fold tm_step ops s"


section \<open>The invariant of the manager\<close>

definition committed_at :: "transaction_manager \<Rightarrow> u64 \<Rightarrow> transaction \<Rightarrow> u64 \<Rightarrow> bool" where
  "committed_at s i t c \<longleftrightarrow> get_txn s i = Some t \<and> tx_commit_ts t = Some c"

definition txn_ok :: "transaction_manager \<Rightarrow> u64 \<Rightarrow> transaction \<Rightarrow> bool" where
  "txn_ok s i t \<longleftrightarrow> i < tm_next_txn_id s \<and> tx_read_ts t \<le> current_ts s
     \<and> (case tx_commit_ts t of None \<Rightarrow> tx_state t \<noteq> Committed
        | Some c \<Rightarrow> tx_state t = Committed \<and> tx_read_ts t < c \<and> c \<le> current_ts s)"

text \<open>\<open>latest_writes\<close> holds the greatest commit timestamp of the writers of a key.\<close>

definition latest_ok :: "transaction_manager \<Rightarrow> bool" where
  "latest_ok s \<longleftrightarrow>
     (\<forall>k i t c. committed_at s i t c \<and> k \<in> set (tx_write_set t)
        \<longrightarrow> (\<exists>m. tm_latest_writes s k = Some m \<and> c \<le> m))
     \<and> (\<forall>k m. tm_latest_writes s k = Some m
        \<longrightarrow> (\<exists>i t. committed_at s i t m \<and> k \<in> set (tx_write_set t)))"

text \<open>Two committed transactions that wrote one key did not overlap in time.\<close>

definition isolated :: "transaction_manager \<Rightarrow> bool" where
  "isolated s \<longleftrightarrow> (\<forall>i j t u c d. i \<noteq> j \<and> committed_at s i t c \<and> committed_at s j u d
     \<longrightarrow> c \<noteq> d \<and> (set (tx_write_set t) \<inter> set (tx_write_set u) \<noteq> {}
           \<longrightarrow> c \<le> tx_read_ts u \<or> d \<le> tx_read_ts t))"

definition tm_inv :: "transaction_manager \<Rightarrow> bool" where
  "tm_inv s \<longleftrightarrow> (\<forall>i t. get_txn s i = Some t \<longrightarrow> txn_ok s i t) \<and> latest_ok s \<and> isolated s
     \<and> tm_committed_ts s = {c. \<exists>i t. committed_at s i t c} \<and> 0 < current_ts s"

lemma get_put [simp]: "get_txn (put_txn s i t) j = (if j = i then Some t else get_txn s j)"
  by (simp add: get_txn_def put_txn_def update_conv)

lemma put_fields [simp]:
  "current_ts (put_txn s i t) = current_ts s"
  "tm_oracle (put_txn s i t) = tm_oracle s"
  "tm_next_txn_id (put_txn s i t) = tm_next_txn_id s"
  "tm_latest_writes (put_txn s i t) = tm_latest_writes s"
  "tm_committed_ts (put_txn s i t) = tm_committed_ts s"
  by (simp_all add: put_txn_def current_ts_def)

lemma write_conflict_iff:
  "write_conflict m r ks \<longleftrightarrow> (\<exists>k\<in>set ks. \<exists>l. m k = Some l \<and> r < l)"
  by (induction ks) (auto split: option.splits)

lemma fold_latest:
  "fold (\<lambda>k m. m(k \<mapsto> c)) ks m k = (if k \<in> set ks then Some c else m k)"
  by (induction ks arbitrary: m) auto

lemma tm_inv_new [inv_intro]: "tm_inv tm_new"
  by (simp add: tm_inv_def tm_new_def get_txn_def latest_ok_def isolated_def current_ts_def
      committed_at_def)

text \<open>Replacing an uncommitted entry by an uncommitted entry with a snapshot in the past.\<close>

lemma tm_inv_put_open [inv_intro]:
  assumes "tm_inv s" "i < tm_next_txn_id s" "tx_read_ts t \<le> current_ts s"
    "tx_commit_ts t = None" "tx_state t \<noteq> Committed"
    "\<And>u. get_txn s i = Some u \<Longrightarrow> tx_commit_ts u = None"
  shows "tm_inv (put_txn s i t)"
proof -
  have same: "committed_at (put_txn s i t) j u c \<longleftrightarrow> committed_at s j u c" for j u c
    using assms(4,6) by (auto simp: committed_at_def)
  have "txn_ok (put_txn s i t) i t" using assms by (simp add: txn_ok_def)
  moreover have "txn_ok s j u \<Longrightarrow> txn_ok (put_txn s i t) j u" for j u
    by (auto simp: txn_ok_def split: option.splits)
  ultimately show ?thesis
    using assms(1) unfolding tm_inv_def latest_ok_def isolated_def same by simp
qed

text \<open>The state after a successful commit of the entry \<open>t\<close> of transaction \<open>i\<close>.\<close>

definition commit_state :: "transaction_manager \<Rightarrow> u64 \<Rightarrow> transaction \<Rightarrow> transaction_manager" where
  "commit_state s i t = (let c = current_ts s + 1 in
     put_txn (s\<lparr>tm_oracle := TimestampOracle c,
       tm_latest_writes := fold (\<lambda>k m. m(k \<mapsto> c)) (tx_write_set t) (tm_latest_writes s),
       tm_committed_ts := insert c (tm_committed_ts s)\<rparr>) i
       (t\<lparr>tx_commit_ts := Some c, tx_state := Committed\<rparr>))"

lemma commit_state_fields [simp]:
  "current_ts (commit_state s i t) = current_ts s + 1"
  "tm_next_txn_id (commit_state s i t) = tm_next_txn_id s"
  "tm_committed_ts (commit_state s i t) = insert (current_ts s + 1) (tm_committed_ts s)"
  "tm_latest_writes (commit_state s i t) k
     = (if k \<in> set (tx_write_set t) then Some (current_ts s + 1) else tm_latest_writes s k)"
  "get_txn (commit_state s i t) j
     = (if j = i then Some (t\<lparr>tx_commit_ts := Some (current_ts s + 1), tx_state := Committed\<rparr>)
        else get_txn s j)"
  by (simp_all add: commit_state_def Let_def fold_latest) (simp_all add: current_ts_def get_txn_def)

lemma committed_at_commit_state:
  assumes "get_txn s i = Some t" "tx_commit_ts t = None"
  shows "committed_at (commit_state s i t) j u d \<longleftrightarrow> committed_at s j u d
    \<or> j = i \<and> d = current_ts s + 1 \<and> u = t\<lparr>tx_commit_ts := Some d, tx_state := Committed\<rparr>"
  using assms by (auto simp: committed_at_def)

lemma committed_before:
  "tm_inv s \<Longrightarrow> committed_at s j u d \<Longrightarrow> tx_read_ts u < d \<and> d \<le> current_ts s"
  by (force simp: tm_inv_def txn_ok_def committed_at_def)

lemma commit_no_conflict:
  assumes "tm_inv s" "\<not> write_conflict (tm_latest_writes s) (tx_read_ts t) (tx_write_set t)"
    "committed_at s j u d" "set (tx_write_set u) \<inter> set (tx_write_set t) \<noteq> {}"
  shows "d \<le> tx_read_ts t"
proof -
  obtain k where k: "k \<in> set (tx_write_set u)" "k \<in> set (tx_write_set t)" using assms(4) by blast
  obtain m where "tm_latest_writes s k = Some m" "d \<le> m"
    using assms(1,3) k(1) unfolding tm_inv_def latest_ok_def by blast
  then show ?thesis
    using assms(2) k(2) unfolding write_conflict_iff by (meson not_less order_trans)
qed

lemma latest_bound:
  "tm_inv s \<Longrightarrow> committed_at s j u d \<Longrightarrow> k \<in> set (tx_write_set u) \<Longrightarrow>
     \<exists>m. tm_latest_writes s k = Some m \<and> d \<le> m"
  unfolding tm_inv_def latest_ok_def by blast

lemma latest_writer:
  "tm_inv s \<Longrightarrow> tm_latest_writes s k = Some m \<Longrightarrow>
     \<exists>i t. committed_at s i t m \<and> k \<in> set (tx_write_set t)"
  unfolding tm_inv_def latest_ok_def by blast

lemma latest_ok_commit:
  assumes inv: "tm_inv s" and t: "get_txn s i = Some t" "tx_commit_ts t = None"
    and c: "current_ts s < current_ts s + 1"
  shows "latest_ok (commit_state s i t)"
proof -
  let ?new = "t\<lparr>tx_commit_ts := Some (current_ts s + 1), tx_state := Committed\<rparr>"
  have "\<exists>m. tm_latest_writes (commit_state s i t) k = Some m \<and> d \<le> m"
    if at: "committed_at (commit_state s i t) j u d" and k: "k \<in> set (tx_write_set u)" for k j u d
  proof (cases "committed_at s j u d")
    case True
    have "d \<le> current_ts s + 1"
      using order_trans [OF conjunct2 [OF committed_before [OF inv True]] less_imp_le [OF c]] .
    then show ?thesis using latest_bound [OF inv True k] by simp
  next
    case False
    then have "d = current_ts s + 1" "u = ?new"
      using at unfolding committed_at_commit_state [OF t] by blast+
    then show ?thesis using k by simp
  qed
  moreover have "\<exists>j u. committed_at (commit_state s i t) j u m \<and> k \<in> set (tx_write_set u)"
    if "tm_latest_writes (commit_state s i t) k = Some m" for k m
  proof (cases "k \<in> set (tx_write_set t)")
    case True
    then have "committed_at (commit_state s i t) i ?new m \<and> k \<in> set (tx_write_set ?new)"
      using that by (simp add: committed_at_def)
    then show ?thesis by blast
  next
    case False
    then show ?thesis using that latest_writer [OF inv, of k m]
      unfolding committed_at_commit_state [OF t] by auto
  qed
  ultimately show ?thesis unfolding latest_ok_def by blast
qed

lemma isolated_commit:
  assumes inv: "tm_inv s" and t: "get_txn s i = Some t" "tx_commit_ts t = None"
    and c: "current_ts s < current_ts s + 1"
    and ok: "\<not> write_conflict (tm_latest_writes s) (tx_read_ts t) (tx_write_set t)"
  shows "isolated (commit_state s i t)"
  unfolding isolated_def committed_at_commit_state [OF t]
proof (intro allI impI)
  let ?new = "\<lambda>j u d. j = i \<and> d = current_ts s + 1
    \<and> u = t\<lparr>tx_commit_ts := Some d, tx_state := Committed\<rparr>"
  fix j1 j2 u v d e
  assume a: "j1 \<noteq> j2 \<and> (committed_at s j1 u d \<or> ?new j1 u d) \<and> (committed_at s j2 v e \<or> ?new j2 v e)"
  have prior: "isolated s" using inv by (simp add: tm_inv_def)
  consider "?new j1 u d" "committed_at s j2 v e" | "?new j2 v e" "committed_at s j1 u d"
    | "committed_at s j1 u d" "committed_at s j2 v e" using a by blast
  then show "d \<noteq> e \<and> (set (tx_write_set u) \<inter> set (tx_write_set v) \<noteq> {}
        \<longrightarrow> d \<le> tx_read_ts v \<or> e \<le> tx_read_ts u)"
  proof cases
    case 1
    then show ?thesis
      using commit_no_conflict [OF inv ok 1(2)] committed_before [OF inv 1(2)] c by auto
  next
    case 2
    then show ?thesis
      using commit_no_conflict [OF inv ok 2(2)] committed_before [OF inv 2(2)] c by auto
  next
    case 3
    then show ?thesis using prior a unfolding isolated_def by blast
  qed
qed

lemma tm_inv_commit_state [inv_intro]:
  assumes inv: "tm_inv s" and t: "get_txn s i = Some t" "tx_commit_ts t = None"
    and ok: "\<not> write_conflict (tm_latest_writes s) (tx_read_ts t) (tx_write_set t)"
    and room: "current_ts s \<noteq> - 1"
  shows "tm_inv (commit_state s i t)"
proof -
  note c = word_less_Suc [OF room]
  have "txn_ok (commit_state s i t) j u" if "get_txn (commit_state s i t) j = Some u" for j u
  proof (cases "j = i")
    case True
    then have "txn_ok s i t" "u = t\<lparr>tx_commit_ts := Some (current_ts s + 1), tx_state := Committed\<rparr>"
      using that t inv by (auto simp: tm_inv_def)
    then show ?thesis using c True by (auto simp: txn_ok_def)
  next
    case False
    then have "txn_ok s j u" using that inv by (simp add: tm_inv_def)
    then show ?thesis using c by (auto simp: txn_ok_def split: option.splits)
  qed
  moreover have "tm_committed_ts (commit_state s i t)
      = {c. \<exists>j u. committed_at (commit_state s i t) j u c}"
    using inv by (auto simp: committed_at_commit_state [OF t] tm_inv_def)
  moreover have "0 < current_ts s + 1" using inv c by (auto simp: tm_inv_def)
  ultimately show ?thesis
    using latest_ok_commit [OF inv t c] isolated_commit [OF inv t c ok] by (simp add: tm_inv_def)
qed

lemma open_txn:
  "tm_inv s \<Longrightarrow> get_txn s i = Some t \<Longrightarrow> tx_state t \<noteq> Committed \<Longrightarrow>
     tx_commit_ts t = None \<and> i < tm_next_txn_id s \<and> tx_read_ts t \<le> current_ts s"
  by (force simp: tm_inv_def txn_ok_def split: option.splits)

lemma tm_begin_inv [inv_intro]:
  assumes "tm_inv s" "tm_next_txn_id s \<noteq> - 1"
  shows "tm_inv (snd (tm_begin s lvl))"
proof -
  let ?s = "s\<lparr>tm_next_txn_id := tm_next_txn_id s + 1\<rparr>"
  note n = word_less_Suc [OF assms(2)]
  have get: "get_txn ?s j = get_txn s j" "current_ts ?s = current_ts s" for j
    by (simp_all add: get_txn_def current_ts_def)
  have at: "committed_at ?s j u d = committed_at s j u d" for j u d
    by (simp add: committed_at_def get)
  have "txn_ok s j u \<Longrightarrow> txn_ok ?s j u" for j u
    using n by (auto simp: txn_ok_def get split: option.splits)
  then have "tm_inv ?s"
    using assms(1) unfolding tm_inv_def latest_ok_def isolated_def at get by simp
  moreover have "get_txn s (tm_next_txn_id s) = None"
    using assms(1) unfolding tm_inv_def txn_ok_def by (metis not_None_eq order_less_irrefl)
  ultimately show ?thesis
    using n unfolding tm_begin_def Let_def snd_conv
    by (intro tm_inv_put_open) (simp_all add: transaction_new_def get, simp add: current_ts_def)
qed

lemma record_write_inv [inv_intro]: "tm_inv s \<Longrightarrow> tm_inv (snd (record_write s i k))"
  using open_txn [of s i]
  by (auto simp: record_write_def split: option.splits intro!: tm_inv_put_open)

lemma tm_abort_inv [inv_intro]: "tm_inv s \<Longrightarrow> tm_inv (snd (tm_abort s i))"
  using open_txn [of s i]
  by (auto simp: tm_abort_def split: option.splits transaction_state.splits intro!: tm_inv_put_open)

lemma tm_commit_cases:
  "tm_commit s i = (case get_txn s i of None \<Rightarrow> (Err MvccNotFound, s)
     | Some t \<Rightarrow> if tx_state t = Committed then (Err AlreadyCommitted, s)
         else if tx_state t = Aborted then (Err AlreadyAborted, s)
         else if write_conflict (tm_latest_writes s) (tx_read_ts t) (tx_write_set t)
         then (Err MvccConflict, put_txn s i (t\<lparr>tx_state := Aborted\<rparr>))
         else (Ok (current_ts s + 1), commit_state s i t))"
  by (auto simp: tm_commit_def commit_state_def oracle_next_def current_ts_def Let_def
      split: option.splits transaction_state.splits)

lemma tm_commit_inv [inv_intro]:
  assumes "tm_inv s" "current_ts s \<noteq> - 1"
  shows "tm_inv (snd (tm_commit s i))"
  using assms open_txn [OF assms(1), of i]
  by (auto simp: tm_commit_cases split: option.splits intro!: tm_inv_put_open tm_inv_commit_state)

lemma tm_step_inv:
  "tm_inv s \<Longrightarrow> current_ts s \<noteq> - 1 \<Longrightarrow> tm_next_txn_id s \<noteq> - 1 \<Longrightarrow> tm_inv (tm_step op s)"
  by (cases op) (simp_all add: inv_intro)

lemma unat_plus_one_le: "unat (x + 1 :: 'a::len word) \<le> unat x + 1"
  by (cases "x + 1 = 0") (simp_all add: unat_plus_one)

lemma current_ts_next_id [simp]: "current_ts (s\<lparr>tm_next_txn_id := n\<rparr>) = current_ts s"
  by (simp add: current_ts_def)

lemma tm_step_current:
  "current_ts (tm_step op s) = current_ts s \<or> current_ts (tm_step op s) = current_ts s + 1"
  by (cases op) (auto simp: tm_begin_def record_write_def tm_abort_def tm_commit_cases Let_def
      split: option.splits transaction_state.splits)

lemma tm_step_next_id:
  "tm_next_txn_id (tm_step op s) = tm_next_txn_id s
     \<or> tm_next_txn_id (tm_step op s) = tm_next_txn_id s + 1"
  by (cases op) (auto simp: tm_begin_def record_write_def tm_abort_def tm_commit_cases Let_def
      split: option.splits transaction_state.splits)

lemma tm_step_counters:
  "unat (current_ts (tm_step op s)) \<le> unat (current_ts s) + 1"
  "unat (tm_next_txn_id (tm_step op s)) \<le> unat (tm_next_txn_id s) + 1"
  using tm_step_current [of op s] tm_step_next_id [of op s]
    unat_plus_one_le [of "current_ts s"] unat_plus_one_le [of "tm_next_txn_id s"] by auto

lemma tm_run_inv:
  "length ops + 2 < 2 ^ 64 \<Longrightarrow> tm_inv (tm_run ops tm_new)
     \<and> unat (current_ts (tm_run ops tm_new)) \<le> length ops + 1
     \<and> unat (tm_next_txn_id (tm_run ops tm_new)) \<le> length ops + 1"
proof (induction ops rule: rev_induct)
  case Nil
  then show ?case by (simp add: tm_run_def tm_inv_new) (simp add: tm_new_def current_ts_def)
next
  case (snoc op ops)
  let ?s = "tm_run ops tm_new"
  have IH: "tm_inv ?s" "unat (current_ts ?s) \<le> length ops + 1"
    "unat (tm_next_txn_id ?s) \<le> length ops + 1" using snoc by simp_all
  have "current_ts ?s \<noteq> - 1" "tm_next_txn_id ?s \<noteq> - 1"
    using IH(2,3) snoc.prems by (auto intro!: unat_not_max)
  then have "tm_inv (tm_step op ?s)" using IH(1) by (intro tm_step_inv)
  then show ?case using IH(2,3) tm_step_counters [of op ?s] by (simp add: tm_run_def)
qed

lemma tm_run_snoc: "tm_run (ops @ [op]) s = tm_step op (tm_run ops s)"
  by (simp add: tm_run_def)

lemma tm_run_append: "tm_run (ops @ later) s = tm_run later (tm_run ops s)"
  by (simp add: tm_run_def)

text \<open>Commits after a state have timestamps above the state's clock.\<close>

lemma tm_step_committed:
  "tm_committed_ts (tm_step op s) \<subseteq> insert (current_ts s + 1) (tm_committed_ts s)"
  "tm_committed_ts s \<subseteq> tm_committed_ts (tm_step op s)"
  by (cases op; auto simp: tm_begin_def record_write_def tm_abort_def tm_commit_cases Let_def
      split: option.splits transaction_state.splits if_splits)+

lemma tm_run_committed:
  "length ops + length later + 2 < 2 ^ 64 \<Longrightarrow>
     current_ts (tm_run ops tm_new) \<le> current_ts (tm_run (ops @ later) tm_new)
     \<and> tm_committed_ts (tm_run ops tm_new) \<subseteq> tm_committed_ts (tm_run (ops @ later) tm_new)
     \<and> (\<forall>d\<in>tm_committed_ts (tm_run (ops @ later) tm_new).
          d \<in> tm_committed_ts (tm_run ops tm_new) \<or> current_ts (tm_run ops tm_new) < d)"
proof (induction later rule: rev_induct)
  case Nil
  then show ?case by simp
next
  case (snoc op later)
  let ?s = "tm_run ops tm_new" and ?s' = "tm_run (ops @ later) tm_new"
  have IH: "current_ts ?s \<le> current_ts ?s'" "tm_committed_ts ?s \<subseteq> tm_committed_ts ?s'"
    "\<forall>d\<in>tm_committed_ts ?s'. d \<in> tm_committed_ts ?s \<or> current_ts ?s < d"
    using snoc by simp_all
  have "unat (current_ts ?s') \<le> length (ops @ later) + 1"
    using snoc.prems tm_run_inv [of "ops @ later"] by simp
  then have "current_ts ?s' \<noteq> - 1" using snoc.prems by (intro unat_not_max) simp
  then have c: "current_ts ?s < current_ts ?s' + 1"
    using IH(1) word_less_Suc [of "current_ts ?s'"] by simp
  have run: "tm_run (ops @ later @ [op]) tm_new = tm_step op ?s'"
    using tm_run_snoc [of "ops @ later" op tm_new] by simp
  have clock: "current_ts ?s \<le> current_ts (tm_step op ?s')"
    using tm_step_current [of op ?s'] IH(1) c by auto
  have new: "d \<in> tm_committed_ts ?s \<or> current_ts ?s < d"
    if "d \<in> tm_committed_ts (tm_step op ?s')" for d
    using that tm_step_committed(1) [of op ?s'] IH(3) c by auto
  have "tm_committed_ts ?s \<subseteq> tm_committed_ts (tm_step op ?s')"
    using IH(2) tm_step_committed(2) [of ?s' op] by auto
  then show ?case unfolding run using clock new by blast
qed

section \<open>Properties\<close>

text \<open>C1:
  Snapshot isolation. After any history of calls on a fresh manager, two committed transactions
  have different commit timestamps, and if both wrote some key then one of them committed
  before the snapshot of the other was taken: no update is lost. The history is shorter than
  the 64-bit counters can count.
\<close>

theorem snapshot_isolation:
  assumes "length ops + 2 < 2 ^ 64" "s = tm_run ops tm_new" "i \<noteq> j"
    "get_txn s i = Some t" "tx_commit_ts t = Some c"
    "get_txn s j = Some u" "tx_commit_ts u = Some d"
  shows "c \<noteq> d \<and> (set (tx_write_set t) \<inter> set (tx_write_set u) \<noteq> {}
    \<longrightarrow> c \<le> tx_read_ts u \<or> d \<le> tx_read_ts t)"
proof -
  have "isolated s" using tm_run_inv [OF assms(1)] assms(2) by (simp add: tm_inv_def)
  moreover have "committed_at s i t c" "committed_at s j u d"
    using assms by (simp_all add: committed_at_def)
  ultimately show ?thesis using assms(3) unfolding isolated_def by blast
qed

definition two_writers :: "tm_op list" where
  "two_writers = [OpBegin Snapshot, OpWrite 1 [7], OpCommit 1, OpBegin Snapshot, OpWrite 2 [7],
     OpCommit 2]"

lemmas tm_eval = tm_run_def tm_new_def tm_begin_def record_write_def tm_commit_def tm_abort_def
  put_txn_def get_txn_def transaction_new_def oracle_next_def two_writers_def Let_def

theorem snapshot_isolation_witness:
  "\<exists>t u c d. get_txn (tm_run two_writers tm_new) 1 = Some t \<and> tx_commit_ts t = Some c
     \<and> get_txn (tm_run two_writers tm_new) 2 = Some u \<and> tx_commit_ts u = Some d
     \<and> (c \<le> tx_read_ts u \<or> d \<le> tx_read_ts t)"
proof -
  let ?s = "tm_run two_writers tm_new"
  obtain t u where "get_txn ?s 1 = Some t" "tx_commit_ts t = Some 2" "tx_write_set t = [[7]]"
    "get_txn ?s 2 = Some u" "tx_commit_ts u = Some 3" "tx_write_set u = [[7]]"
    by (simp add: tm_eval)
  moreover have "length two_writers + 2 < 2 ^ 64" by (simp add: two_writers_def)
  ultimately show ?thesis
    using snapshot_isolation [of two_writers ?s 1 2 t 2 u 3] by auto
qed

text \<open>C7:
  First committer wins, and only then. In any history, committing an open transaction fails
  with a conflict exactly when some transaction that wrote one of its keys committed after its
  snapshot; otherwise it gets a timestamp above its snapshot and above every earlier commit.
\<close>

theorem commit_conflict_iff:
  assumes "length ops + 2 < 2 ^ 64" "s = tm_run ops tm_new"
    "get_txn s i = Some t" "tx_state t = Active"
  shows "if \<exists>j u d. get_txn s j = Some u \<and> tx_commit_ts u = Some d \<and> tx_read_ts t < d
            \<and> set (tx_write_set u) \<inter> set (tx_write_set t) \<noteq> {}
    then fst (tm_commit s i) = Err MvccConflict
      \<and> get_txn (snd (tm_commit s i)) i = Some (t\<lparr>tx_state := Aborted\<rparr>)
    else \<exists>c. fst (tm_commit s i) = Ok c \<and> tx_read_ts t < c \<and> (\<forall>d. is_committed s d \<longrightarrow> d < c)
      \<and> tm_commit_ts (snd (tm_commit s i)) i = Some c \<and> is_committed (snd (tm_commit s i)) c"
proof -
  have inv: "tm_inv s" and clock: "unat (current_ts s) \<le> length ops + 1"
    using tm_run_inv [OF assms(1)] assms(2) by simp_all
  have c: "current_ts s < current_ts s + 1"
    using clock assms(1) by (intro word_less_Suc unat_not_max) simp
  have open_t: "tx_commit_ts t = None" "tx_read_ts t \<le> current_ts s"
    using open_txn [OF inv assms(3)] assms(4) by simp_all
  have iff: "write_conflict (tm_latest_writes s) (tx_read_ts t) (tx_write_set t)
      \<longleftrightarrow> (\<exists>j u d. committed_at s j u d \<and> tx_read_ts t < d
            \<and> set (tx_write_set u) \<inter> set (tx_write_set t) \<noteq> {})"
    using commit_no_conflict [OF inv] latest_writer [OF inv]
    unfolding write_conflict_iff by (meson disjoint_iff not_less)
  have below: "is_committed s d \<Longrightarrow> d < current_ts s + 1" for d
    using inv committed_before [OF inv] c by (fastforce simp: is_committed_def tm_inv_def)
  show ?thesis
  proof (cases "write_conflict (tm_latest_writes s) (tx_read_ts t) (tx_write_set t)")
    case True
    then show ?thesis using assms(3,4) iff
      by (simp add: tm_commit_cases committed_at_def)
  next
    case False
    have "tx_read_ts t < current_ts s + 1" using open_t(2) c by simp
    then show ?thesis using False assms(3,4) iff below
      by (simp add: tm_commit_cases committed_at_def tm_commit_ts_def is_committed_def)
  qed
qed

definition overlapping_writers :: "tm_op list" where
  "overlapping_writers = [OpBegin Snapshot, OpBegin ReadOnly, OpWrite 1 [7], OpWrite 2 [7],
     OpCommit 1]"

theorem commit_conflict_iff_witness:
  "fst (tm_commit (tm_run overlapping_writers tm_new) 2) = Err MvccConflict"
proof -
  let ?s = "tm_run overlapping_writers tm_new"
  obtain t u where t: "get_txn ?s 2 = Some t" "tx_state t = Active" "tx_read_ts t = 1"
      "tx_write_set t = [[7]]"
    and u: "get_txn ?s 1 = Some u" "tx_commit_ts u = Some 2" "tx_write_set u = [[7]]"
    by (simp add: tm_eval overlapping_writers_def)
  have "length overlapping_writers + 2 < 2 ^ 64" by (simp add: overlapping_writers_def)
  from commit_conflict_iff [OF this refl t(1,2)]
  have outcome: "if \<exists>j u d. get_txn ?s j = Some u \<and> tx_commit_ts u = Some d \<and> tx_read_ts t < d
        \<and> set (tx_write_set u) \<inter> set (tx_write_set t) \<noteq> {}
    then fst (tm_commit ?s 2) = Err MvccConflict else True"
    by (simp split: if_splits)
  have "\<exists>j u d. get_txn ?s j = Some u \<and> tx_commit_ts u = Some d \<and> tx_read_ts t < d
        \<and> set (tx_write_set u) \<inter> set (tx_write_set t) \<noteq> {}"
    using t u by (intro exI [of _ 1] exI [of _ u] exI [of _ 2]) simp
  with outcome show ?thesis by (simp only: if_True)
qed

text \<open>C8:
  Reads are repeatable. Whatever other transactions do after a transaction took its snapshot,
  the versions visible to it do not change: a version keeps its visibility, and a live version
  keeps it also when a later commit supersedes it by setting its end timestamp.
\<close>

theorem snapshot_reads_stable:
  assumes "length ops + length later + 2 < 2 ^ 64" "s = tm_run ops tm_new"
    "s' = tm_run (ops @ later) tm_new" "get_txn s i = Some t"
    "is_committed s' d" "\<not> is_committed s d"
  shows "is_visible_to v (tx_read_ts t) i (is_committed s')
      = is_visible_to v (tx_read_ts t) i (is_committed s)
    \<and> is_visible_to (v\<lparr>vh_end_ts := d\<rparr>) (tx_read_ts t) i (is_committed s')
      = is_visible_to (v\<lparr>vh_end_ts := LIVE\<rparr>) (tx_read_ts t) i (is_committed s)"
proof -
  have inv: "tm_inv s" and clock: "unat (current_ts s) \<le> length ops + 1"
    using tm_run_inv [of ops] assms by simp_all
  have r: "tx_read_ts t \<le> current_ts s" using inv assms(4) by (simp add: tm_inv_def txn_ok_def)
  have grow: "is_committed s b \<Longrightarrow> is_committed s' b"
      "is_committed s' b \<Longrightarrow> is_committed s b \<or> current_ts s < b" for b
    using tm_run_committed [OF assms(1)] assms(2,3) by (auto simp: is_committed_def)
  have same: "b \<le> tx_read_ts t \<Longrightarrow> is_committed s' b = is_committed s b" for b
    using grow [of b] r by auto
  have "current_ts s \<noteq> LIVE" unfolding LIVE_def using clock assms(1) by (intro unat_not_max) simp
  then have "\<not> LIVE \<le> tx_read_ts t" using r unfolding LIVE_def
    by (metis order_antisym order_trans word_order.extremum)
  moreover have "\<not> d \<le> tx_read_ts t" using grow(2) [OF assms(5)] assms(6) r by auto
  ultimately show ?thesis using same [of "vh_begin_ts v"] by (auto simp: is_visible_to_def)
qed

theorem snapshot_reads_stable_witness:
  "is_visible_to \<lparr>vh_begin_ts = 2, vh_end_ts = 3, vh_txn_id = 1, vh_prev_version_off = 0\<rparr> 2 2
     (is_committed (tm_run ([OpBegin Snapshot, OpCommit 1, OpBegin Snapshot]
        @ [OpBegin Snapshot, OpCommit 3]) tm_new))"
proof -
  let ?ops = "[OpBegin Snapshot, OpCommit 1, OpBegin Snapshot]"
  let ?later = "[OpBegin Snapshot, OpCommit 3]"
  let ?v = "\<lparr>vh_begin_ts = 2, vh_end_ts = 3, vh_txn_id = 1, vh_prev_version_off = 0\<rparr>"
  obtain t where t: "get_txn (tm_run ?ops tm_new) 2 = Some t" "tx_read_ts t = 2"
    by (simp add: tm_eval)
  have now: "is_committed (tm_run (?ops @ ?later) tm_new) 3" 
    "\<not> is_committed (tm_run ?ops tm_new) 3" "is_committed (tm_run ?ops tm_new) 2"
    by (simp_all add: tm_eval is_committed_def)
  show ?thesis
    using snapshot_reads_stable [OF _ refl refl t(1) now(1,2), of ?v] t(2) now(3)
    by (simp add: is_visible_to_def LIVE_def)
qed

text \<open>
  Uncommitted versions are private. In any history the version header of a transaction that has
  not committed is visible to that transaction and to no other, at every snapshot.
\<close>

lemma uncommitted_version_private:
  assumes "length ops + 2 < 2 ^ 64"
  shows "is_visible_to (version_header_new w) read_ts reader
    (is_committed (tm_run ops tm_new)) \<longleftrightarrow> reader = w"
proof -
  have inv: "tm_inv (tm_run ops tm_new)" using tm_run_inv [OF assms] by simp
  have "\<not> committed_at (tm_run ops tm_new) i t 0" for i t
    using committed_before [OF inv, of i t 0] by auto
  then have "\<not> is_committed (tm_run ops tm_new) 0"
    using inv by (simp add: is_committed_def tm_inv_def)
  then show ?thesis by (auto simp: is_visible_to_def version_header_new_def)
qed

lemma uncommitted_version_private_witness:
  "\<not> is_visible_to (version_header_new 1) 9 2 (is_committed (tm_run two_writers tm_new))"
  using uncommitted_version_private [of two_writers 1 9 2] by (simp add: two_writers_def)

text \<open>
  The garbage collector's automatic horizon is unsafe. Its comment takes the minimum snapshot
  of the active transactions, the code takes the current timestamp: a committed version that
  was superseded after an active transaction took its snapshot can be collected while that
  transaction still sees it.
\<close>

lemma gc_horizon_collects_visible:
  assumes "get_txn s i = Some t" "tx_state t = Active" "vh_txn_id v \<noteq> i"
    "is_committed s (vh_begin_ts v)" "vh_begin_ts v \<le> tx_read_ts t"
    "tx_read_ts t < vh_end_ts v" "vh_end_ts v < current_ts s"
  shows "is_visible_to v (tx_read_ts t) i (is_committed s)
    \<and> can_gc (update_min_active_ts g s) (vh_end_ts v)"
  using assms by (auto simp: is_visible_to_def can_gc_def update_min_active_ts_def)

definition reader_history :: "tm_op list" where
  "reader_history = [OpBegin Snapshot, OpCommit 1, OpBegin ReadOnly, OpBegin Snapshot, OpCommit 3,
     OpBegin Snapshot, OpCommit 4]"

lemma gc_horizon_collects_visible_witness:
  "\<exists>s. s = tm_run reader_history tm_new
     \<and> is_visible_to \<lparr>vh_begin_ts = 2, vh_end_ts = 3, vh_txn_id = 1, vh_prev_version_off = 0\<rparr>
         2 2 (is_committed s)
     \<and> can_gc (update_min_active_ts gc_new s) 3"
proof -
  let ?s = "tm_run reader_history tm_new"
  obtain t where t: "get_txn ?s 2 = Some t" "tx_read_ts t = 2" "tx_state t = Active"
    by (simp add: tm_eval reader_history_def)
  have now: "is_committed ?s 2" "current_ts ?s = 4"
    by (simp_all add: tm_eval reader_history_def is_committed_def current_ts_def)
  show ?thesis
    using gc_horizon_collects_visible [OF t(1,3), of
        "\<lparr>vh_begin_ts = 2, vh_end_ts = 3, vh_txn_id = 1, vh_prev_version_off = 0\<rparr>" gc_new] t(2) now
    by simp
qed

text \<open>
  With the horizon the comment describes, set to the least snapshot of the open transactions,
  collection is safe: no version that may be collected is visible to an open transaction other
  than its creator.
\<close>

lemma gc_minimum_snapshot_safe:
  assumes "\<forall>i t. get_txn s i = Some t \<and> tx_state t = Active \<longrightarrow> horizon \<le> tx_read_ts t"
    "can_gc (set_min_active_ts g horizon) (vh_end_ts v)"
    "get_txn s i = Some t" "tx_state t = Active" "vh_txn_id v \<noteq> i"
  shows "\<not> is_visible_to v (tx_read_ts t) i (is_committed s)"
proof -
  have "vh_end_ts v < horizon" using assms(2) by (simp add: can_gc_def set_min_active_ts_def)
  also have "horizon \<le> tx_read_ts t" using assms(1,3,4) by blast
  finally show ?thesis using assms(5) by (simp add: is_visible_to_def less_imp_le)
qed

lemma gc_minimum_snapshot_safe_witness:
  "\<not> is_visible_to \<lparr>vh_begin_ts = 0, vh_end_ts = 1, vh_txn_id = 9, vh_prev_version_off = 0\<rparr> 2 2
     (is_committed (tm_run reader_history tm_new))"
proof -
  let ?s = "tm_run reader_history tm_new"
  obtain t where t: "get_txn ?s 2 = Some t" "tx_read_ts t = 2" "tx_state t = Active"
    by (simp add: tm_eval reader_history_def)
  have "\<forall>i t. get_txn ?s i = Some t \<and> tx_state t = Active \<longrightarrow> 2 \<le> tx_read_ts t"
    by (auto simp: tm_eval reader_history_def split: if_splits)
  from gc_minimum_snapshot_safe [OF this, of gc_new
      "\<lparr>vh_begin_ts = 0, vh_end_ts = 1, vh_txn_id = 9, vh_prev_version_off = 0\<rparr>" 2 t] t
  show ?thesis by (simp add: can_gc_def set_min_active_ts_def gc_new_def)
qed

text \<open>
  Savepoints. Rolling back to the latest savepoint of a name restores the write set it saved,
  discards the savepoints after it and keeps it, so that rolling back to it again, after more
  writes, gives the same state; with no such savepoint the call is an error.
\<close>

lemma rollback_restores_savepoint:
  assumes "\<forall>sp\<in>set later. sp_name sp \<noteq> name" "nt_savepoints t' = nt_savepoints (nt_savepoint t name lsn) @ later"
  shows "rollback_to t' name = Ok (t'\<lparr>nt_write_set := nt_write_set t,
      nt_savepoints := nt_savepoints (nt_savepoint t name lsn)\<rparr>)
    \<and> rollback_to (t'\<lparr>nt_write_set := ks, nt_savepoints := nt_savepoints (nt_savepoint t name lsn)\<rparr>)
        name = rollback_to t' name
    \<and> (rollback_to t2 n2 = Err ''savepoint not found''
        \<longleftrightarrow> (\<forall>sp\<in>set (nt_savepoints t2). sp_name sp \<noteq> n2))"
proof -
  let ?sp = "\<lparr>sp_name = name, sp_lsn = lsn, sp_write_set = nt_write_set t\<rparr>"
  have pos: "rposition (\<lambda>sp. sp_name sp = name) (nt_savepoints t @ ?sp # later)
      = Some (length (nt_savepoints t))"
    using assms(1) by (intro rposition_append_last) auto
  have pos1: "rposition (\<lambda>sp. sp_name sp = name) (nt_savepoints t @ [?sp])
      = Some (length (nt_savepoints t))"
    by (intro rposition_append_last) auto
  have "rollback_to t2 n2 = Err ''savepoint not found''
      \<longleftrightarrow> rposition (\<lambda>sp. sp_name sp = n2) (nt_savepoints t2) = None"
    by (auto simp: rollback_to_def index_at_def split: option.splits)
  then show ?thesis using pos pos1 assms(2)
    by (simp add: rollback_to_def nt_savepoint_def rposition_None)
qed

lemma rollback_restores_savepoint_witness:
  "\<exists>t'. rollback_to ((nt_savepoint (nested_new 1 1) ''a'' 5)\<lparr>nt_write_set := [[1], [2]]\<rparr>) ''a'' = Ok t'
     \<and> nt_write_set t' = []"
  using rollback_restores_savepoint [of "[]" "''a''"
      "(nt_savepoint (nested_new 1 1) ''a'' 5)\<lparr>nt_write_set := [[1], [2]]\<rparr>" "nested_new 1 1" 5]
  by (simp add: nt_savepoint_def nested_new_def)
end
