(* ===== verification/ConcurrentTm.thy ===== *)
theory ConcurrentTm
  imports Mvcc
begin

text \<open>
  The thread-safe transaction manager (\<open>cendb-tx/src/concurrent_tm.rs\<close>), each call
  taken as one step: the manager of \<open>Mvcc\<close> with a garbage collection pass that prunes
  its tables and tells a callback which versions the storage layer may drop. The callback's
  calls are recorded in the state. The locks of the tables are not part of this model.
\<close>

record concurrent_tm =
  ctm_oracle :: timestamp_oracle
  ctm_txns :: "(u64 \<times> transaction) list"
  ctm_committed_ts :: "u64 set"
  ctm_latest_writes :: "(key \<times> u64) list"
  ctm_next_txn_id :: u64
  ctm_gc :: garbage_collector
  ctm_commits_since_gc :: u64
  ctm_gc_interval :: u64
  ctm_has_callback :: bool
  ctm_callback_calls :: "(key \<times> u64) list"

definition ctm_with_gc_interval :: "u64 \<Rightarrow> concurrent_tm" where
  "ctm_with_gc_interval gc_interval = \<lparr>ctm_oracle = TimestampOracle 1, ctm_txns = [],
     ctm_committed_ts = {}, ctm_latest_writes = [], ctm_next_txn_id = 1, ctm_gc = gc_new,
     ctm_commits_since_gc = 0, ctm_gc_interval = gc_interval, ctm_has_callback = False,
     ctm_callback_calls = []\<rparr>"

definition ctm_new :: concurrent_tm where "ctm_new = ctm_with_gc_interval 100"

definition ctm_clone :: "concurrent_tm \<Rightarrow> concurrent_tm" where
  "ctm_clone s = s\<lparr>ctm_gc := gc_new, ctm_commits_since_gc := 0, ctm_has_callback := False,
     ctm_callback_calls := []\<rparr>"

definition set_gc_callback :: "concurrent_tm \<Rightarrow> concurrent_tm" where
  "set_gc_callback s = s\<lparr>ctm_has_callback := True\<rparr>"

definition ctm_call :: "key \<Rightarrow> u64 \<Rightarrow> concurrent_tm \<Rightarrow> concurrent_tm" where
  "ctm_call k ts s =
     (if ctm_has_callback s then s\<lparr>ctm_callback_calls := ctm_callback_calls s @ [(k, ts)]\<rparr> else s)"

definition ctm_put :: "concurrent_tm \<Rightarrow> u64 \<Rightarrow> transaction \<Rightarrow> concurrent_tm" where
  "ctm_put s txn_id t = s\<lparr>ctm_txns := AList.update txn_id t (ctm_txns s)\<rparr>"

definition ctm_begin :: "concurrent_tm \<Rightarrow> isolation_level \<Rightarrow> u64 \<times> concurrent_tm" where
  "ctm_begin s isolation =
     (let txn_id = ctm_next_txn_id s;
          s = s\<lparr>ctm_next_txn_id := txn_id + 1\<rparr>;
          read_ts = oracle_current (ctm_oracle s)
      in (txn_id, ctm_put s txn_id (transaction_new txn_id read_ts isolation)))"

definition ctm_record_write :: "concurrent_tm \<Rightarrow> u64 \<Rightarrow> key \<Rightarrow> unit mvcc_result \<times> concurrent_tm" where
  "ctm_record_write s txn_id k =
     (case map_of (ctm_txns s) txn_id of
        None \<Rightarrow> (Err MvccNotFound, s)
      | Some t \<Rightarrow>
          if tx_state t \<noteq> Active then (Err MvccAborted, s)
          else (Ok (), ctm_put s txn_id (t\<lparr>tx_write_set := tx_write_set t @ [k]\<rparr>)))"

text \<open>The least snapshot of the active transactions, or the current timestamp.\<close>

definition ctm_min_active :: "concurrent_tm \<Rightarrow> u64" where
  "ctm_min_active s =
     (case map (\<lambda>(_, t). tx_read_ts t) (filter (\<lambda>(_, t). tx_state t = Active) (ctm_txns s)) of
        [] \<Rightarrow> oracle_current (ctm_oracle s)
      | r # rs \<Rightarrow> foldl min r rs)"

fun remove_keys :: "key list \<Rightarrow> concurrent_tm \<Rightarrow> nat \<times> concurrent_tm" where
  "remove_keys [] s = (0, s)"
| "remove_keys (k # ks) s =
     (case map_of (ctm_latest_writes s) k of
        None \<Rightarrow> remove_keys ks s
      | Some ts \<Rightarrow>
          let s = ctm_call k ts (s\<lparr>ctm_latest_writes := AList.delete k (ctm_latest_writes s)\<rparr>);
              (n, s) = remove_keys ks s
          in (n + 1, s))"

definition run_gc :: "concurrent_tm \<Rightarrow> nat \<times> concurrent_tm" where
  "run_gc s =
     (let min_active_ts = ctm_min_active s;
          s = s\<lparr>ctm_gc := set_min_active_ts (ctm_gc s) min_active_ts\<rparr>;
          keys_to_remove = map fst (filter (\<lambda>(_, ts). ts < min_active_ts) (ctm_latest_writes s));
          (collected, s) = remove_keys keys_to_remove s;
          s = s\<lparr>ctm_committed_ts := {ts \<in> ctm_committed_ts s. \<not> ts < min_active_ts},
                ctm_txns := filter (\<lambda>(_, t). \<not> (tx_state t \<noteq> Active \<and> tx_read_ts t < min_active_ts))
                  (ctm_txns s),
                ctm_gc := (record_gc ^^ collected) (ctm_gc s)\<rparr>
      in (collected, s))"

text \<open>Publishing the write set, collecting the entries that are replaced.\<close>

fun publish_writes :: "u64 \<Rightarrow> key list \<Rightarrow> (key \<times> u64) list \<Rightarrow> (key \<times> u64) list \<times> (key \<times> u64) list" where
  "publish_writes commit_ts [] latest = (latest, [])"
| "publish_writes commit_ts (k # ks) latest =
     (let (latest', superseded) = publish_writes commit_ts ks (AList.update k commit_ts latest)
      in (latest', (case map_of latest k of
            Some old_ts \<Rightarrow> if old_ts < commit_ts then [(k, old_ts)] else []
          | None \<Rightarrow> []) @ superseded))"

definition notify_superseded :: "(key \<times> u64) list \<Rightarrow> concurrent_tm \<Rightarrow> concurrent_tm" where
  "notify_superseded superseded s =
     (let min_active = ctm_min_active s
      in fold (\<lambda>(k, old_ts) s. if old_ts < min_active then ctm_call k old_ts s else s) superseded s)"

definition periodic_gc :: "concurrent_tm \<Rightarrow> concurrent_tm" where
  "periodic_gc s =
     (let count = ctm_commits_since_gc s + 1;
          s = s\<lparr>ctm_commits_since_gc := count\<rparr>
      in if count \<ge> ctm_gc_interval s then (snd (run_gc s))\<lparr>ctm_commits_since_gc := 0\<rparr> else s)"

definition ctm_commit :: "concurrent_tm \<Rightarrow> u64 \<Rightarrow> u64 mvcc_result \<times> concurrent_tm" where
  "ctm_commit s txn_id =
     (case map_of (ctm_txns s) txn_id of
        None \<Rightarrow> (Err MvccNotFound, s)
      | Some t \<Rightarrow>
          (case tx_state t of
             Committed \<Rightarrow> (Err AlreadyCommitted, s)
           | Aborted \<Rightarrow> (Err AlreadyAborted, s)
           | _ \<Rightarrow>
               if write_conflict (map_of (ctm_latest_writes s)) (tx_read_ts t) (tx_write_set t)
               then (Err MvccConflict, ctm_put s txn_id (t\<lparr>tx_state := Aborted\<rparr>))
               else
                 let (commit_ts, oracle) = oracle_next (ctm_oracle s);
                     s = ctm_put (s\<lparr>ctm_oracle := oracle\<rparr>) txn_id
                       (t\<lparr>tx_commit_ts := Some commit_ts, tx_state := Committed\<rparr>);
                     (latest, superseded) =
                       publish_writes commit_ts (tx_write_set t) (ctm_latest_writes s);
                     s = s\<lparr>ctm_committed_ts := insert commit_ts (ctm_committed_ts s),
                           ctm_latest_writes := latest\<rparr>
                 in (Ok commit_ts, periodic_gc (notify_superseded superseded s))))"

definition ctm_abort :: "concurrent_tm \<Rightarrow> u64 \<Rightarrow> unit mvcc_result \<times> concurrent_tm" where
  "ctm_abort s txn_id =
     (case map_of (ctm_txns s) txn_id of
        None \<Rightarrow> (Err MvccNotFound, s)
      | Some t \<Rightarrow>
          (case tx_state t of
             Committed \<Rightarrow> (Err AlreadyCommitted, s)
           | Aborted \<Rightarrow> (Err AlreadyAborted, s)
           | _ \<Rightarrow> (Ok (), ctm_put s txn_id (t\<lparr>tx_state := Aborted\<rparr>))))"

definition ctm_is_committed :: "concurrent_tm \<Rightarrow> u64 \<Rightarrow> bool" where
  "ctm_is_committed s ts \<longleftrightarrow> ts \<in> ctm_committed_ts s"

definition ctm_read_ts :: "concurrent_tm \<Rightarrow> u64 \<Rightarrow> u64 option" where
  "ctm_read_ts s txn_id = map_option tx_read_ts (map_of (ctm_txns s) txn_id)"

definition ctm_commit_ts :: "concurrent_tm \<Rightarrow> u64 \<Rightarrow> u64 option" where
  "ctm_commit_ts s txn_id = Option.bind (map_of (ctm_txns s) txn_id) tx_commit_ts"

definition ctm_current_ts :: "concurrent_tm \<Rightarrow> u64" where
  "ctm_current_ts s = oracle_current (ctm_oracle s)"

definition ctm_active_count :: "concurrent_tm \<Rightarrow> nat" where
  "ctm_active_count s = length (filter (\<lambda>(_, t). tx_state t = Active) (ctm_txns s))"

section \<open>The sequential manager it refines\<close>

definition ctm_abs :: "concurrent_tm \<Rightarrow> transaction_manager" where
  "ctm_abs s = \<lparr>tm_oracle = ctm_oracle s, tm_txns = ctm_txns s,
     tm_committed_ts = ctm_committed_ts s, tm_latest_writes = map_of (ctm_latest_writes s),
     tm_next_txn_id = ctm_next_txn_id s\<rparr>"

lemma publish_writes_map:
  "map_of (fst (publish_writes c ks l)) = fold (\<lambda>k m. m(k \<mapsto> c)) ks (map_of l)"
  by (induction ks arbitrary: l) (simp_all add: Let_def split_def update_conv')

lemma ctm_abs_call [simp]: "ctm_abs (ctm_call k ts s) = ctm_abs s"
  by (simp add: ctm_abs_def ctm_call_def)

lemma ctm_abs_notify [simp]: "ctm_abs (notify_superseded xs s) = ctm_abs s"
proof -
  have "ctm_abs (fold (\<lambda>(k, old_ts) s. if old_ts < m then ctm_call k old_ts s else s) xs s) = ctm_abs s"
    for m by (induction xs arbitrary: s) (auto simp: split_def)
  then show ?thesis by (simp add: notify_superseded_def Let_def)
qed


text \<open>The association lists are hash maps: one entry per key.\<close>

definition ctm_wf :: "concurrent_tm \<Rightarrow> bool" where
  "ctm_wf s \<longleftrightarrow> distinct (map fst (ctm_txns s)) \<and> distinct (map fst (ctm_latest_writes s))"

lemma map_of_filter_distinct:
  assumes "distinct (map fst entries)"
  shows "map_of (filter keep entries) key = (case map_of entries key of
           Some ts \<Rightarrow> (if keep (key, ts) then Some ts else None) | None \<Rightarrow> None)"
  using assms
proof (induction entries)
  case (Cons e entries)
  have absent: "map_of entries (fst e) = None" using Cons.prems by (simp add: map_of_eq_None_iff)
  show ?case using Cons absent by (cases e) (auto split: option.splits)
qed simp

lemma remove_keys_fields:
  "ctm_txns (snd (remove_keys ks s)) = ctm_txns s"
  "ctm_oracle (snd (remove_keys ks s)) = ctm_oracle s"
  "ctm_committed_ts (snd (remove_keys ks s)) = ctm_committed_ts s"
  "ctm_has_callback (snd (remove_keys ks s)) = ctm_has_callback s"
  "ctm_next_txn_id (snd (remove_keys ks s)) = ctm_next_txn_id s"
  "ctm_gc_interval (snd (remove_keys ks s)) = ctm_gc_interval s"
  "ctm_commits_since_gc (snd (remove_keys ks s)) = ctm_commits_since_gc s"
  by (induction ks arbitrary: s) (simp_all add: Let_def split_def ctm_call_def split: option.splits)

lemma remove_keys_latest:
  "map_of (ctm_latest_writes (snd (remove_keys ks s))) k
     = (if k \<in> set ks then None else map_of (ctm_latest_writes s) k)"
  by (induction ks arbitrary: s)
    (auto simp: Let_def split_def ctm_call_def delete_conv' split: option.splits)

lemma remove_keys_calls:
  "ctm_has_callback s \<Longrightarrow> set (ctm_callback_calls s) \<subseteq> set (ctm_callback_calls (snd (remove_keys ks s)))
     \<and> (\<forall>k ts. k \<in> set ks \<and> map_of (ctm_latest_writes s) k = Some ts
          \<longrightarrow> (k, ts) \<in> set (ctm_callback_calls (snd (remove_keys ks s))))"
proof (induction ks arbitrary: s)
  case (Cons k ks)
  show ?case
  proof (cases "map_of (ctm_latest_writes s) k")
    case None
    then show ?thesis using Cons by auto
  next
    case (Some ts)
    let ?s = "ctm_call k ts (s\<lparr>ctm_latest_writes := AList.delete k (ctm_latest_writes s)\<rparr>)"
    have cb: "ctm_has_callback ?s" using Cons.prems by (simp add: ctm_call_def)
    have l: "map_of (ctm_latest_writes ?s) = (map_of (ctm_latest_writes s))(k := None)"
      by (simp add: ctm_call_def delete_conv')
    have "(k, ts) \<in> set (ctm_callback_calls ?s)" 
      "set (ctm_callback_calls s) \<subseteq> set (ctm_callback_calls ?s)"
      using Cons.prems by (auto simp: ctm_call_def)
    then have here: "(k, ts) \<in> set (ctm_callback_calls (snd (remove_keys ks ?s)))"
      "set (ctm_callback_calls s) \<subseteq> set (ctm_callback_calls (snd (remove_keys ks ?s)))"
      using Cons.IH [OF cb] by blast+
    have rest: "(q, v) \<in> set (ctm_callback_calls (snd (remove_keys ks ?s)))"
      if "q \<in> set (k # ks)" "map_of (ctm_latest_writes s) q = Some v" for q v
      using that here(1) Some Cons.IH [OF cb, unfolded l] by (cases "q = k") auto
    have "snd (remove_keys (k # ks) s) = snd (remove_keys ks ?s)"
      using Some by (simp add: Let_def split_def)
    then show ?thesis using here(2) rest by metis
  qed
qed simp

lemma min_le_foldl: "foldl min (r :: 'a::linorder) rs \<le> r \<and> (\<forall>x\<in>set rs. foldl min r rs \<le> x)"
proof (induction rs arbitrary: r)
  case (Cons a rs)
  have "foldl min (min r a) rs \<le> min r a" using Cons by blast
  then show ?case using Cons [of "min r a"] by auto
qed simp

lemma ctm_min_active_le:
  "(i, t) \<in> set (ctm_txns s) \<Longrightarrow> tx_state t = Active \<Longrightarrow> ctm_min_active s \<le> tx_read_ts t"
proof -
  assume a: "(i, t) \<in> set (ctm_txns s)" "tx_state t = Active"
  let ?rs = "map (\<lambda>(_, t). tx_read_ts t) (filter (\<lambda>(_, t). tx_state t = Active) (ctm_txns s))"
  have m: "tx_read_ts t \<in> set ?rs" using a by force
  then obtain r rs where rs: "?rs = r # rs" by (cases ?rs) auto
  have "foldl min r rs \<le> tx_read_ts t" using m min_le_foldl [of r rs] unfolding rs by auto
  then show ?thesis by (simp add: ctm_min_active_def rs)
qed

lemma run_gc_fields:
  "ctm_committed_ts (snd (run_gc s)) = {ts \<in> ctm_committed_ts s. \<not> ts < ctm_min_active s}"
  "ctm_txns (snd (run_gc s)) = filter (\<lambda>(_, t). \<not> (tx_state t \<noteq> Active
      \<and> tx_read_ts t < ctm_min_active s)) (ctm_txns s)"
  "ctm_oracle (snd (run_gc s)) = ctm_oracle s"
  by (simp_all add: run_gc_def Let_def split_def remove_keys_fields)

lemma run_gc_latest:
  assumes "ctm_wf s"
  shows "map_of (ctm_latest_writes (snd (run_gc s))) k
    = (case map_of (ctm_latest_writes s) k of None \<Rightarrow> None
       | Some ts \<Rightarrow> if ts < ctm_min_active s then None else Some ts)"
proof -
  let ?ks = "map fst (filter (\<lambda>(_, ts). ts < ctm_min_active s) (ctm_latest_writes s))"
  have "k \<in> set ?ks \<longleftrightarrow> (\<exists>ts. map_of (ctm_latest_writes s) k = Some ts \<and> ts < ctm_min_active s)"
    using assms unfolding ctm_wf_def by (force dest: map_of_is_SomeI map_of_SomeD)
  then show ?thesis
    by (auto simp: run_gc_def Let_def split_def remove_keys_latest split: option.splits)
qed

lemma run_gc_calls:
  assumes "ctm_has_callback s" "map_of (ctm_latest_writes s) k = Some ts" "ts < ctm_min_active s"
  shows "(k, ts) \<in> set (ctm_callback_calls (snd (run_gc s)))"
proof -
  let ?s = "s\<lparr>ctm_gc := set_min_active_ts (ctm_gc s) (ctm_min_active s)\<rparr>"
  have "k \<in> set (map fst (filter (\<lambda>(_, ts). ts < ctm_min_active s) (ctm_latest_writes s)))"
    using map_of_SomeD [OF assms(2)] assms(3) by force
  then show ?thesis using remove_keys_calls [of ?s] assms(1,2)
    by (simp add: run_gc_def Let_def split_def)
qed

lemma periodic_gc_not_due:
  "ctm_commits_since_gc s + 1 < ctm_gc_interval s \<Longrightarrow> ctm_abs (periodic_gc s) = ctm_abs s"
  by (simp add: periodic_gc_def Let_def ctm_abs_def not_le [symmetric])

lemma notify_counter [simp]:
  "ctm_commits_since_gc (notify_superseded xs s) = ctm_commits_since_gc s"
  "ctm_gc_interval (notify_superseded xs s) = ctm_gc_interval s"
proof -
  have "ctm_commits_since_gc (fold (\<lambda>(k, old_ts) s. if old_ts < m then ctm_call k old_ts s else s) xs s)
        = ctm_commits_since_gc s
      \<and> ctm_gc_interval (fold (\<lambda>(k, old_ts) s. if old_ts < m then ctm_call k old_ts s else s) xs s)
        = ctm_gc_interval s" for m
    by (induction xs arbitrary: s) (auto simp: split_def ctm_call_def)
  then show "ctm_commits_since_gc (notify_superseded xs s) = ctm_commits_since_gc s"
    "ctm_gc_interval (notify_superseded xs s) = ctm_gc_interval s"
    by (simp_all add: notify_superseded_def Let_def)
qed

section \<open>Properties\<close>

text \<open>C3:
  Refinement. Until a garbage collection pass is due, every call of the concurrent manager
  returns what the sequential manager returns and leaves the corresponding state.
\<close>

theorem concurrent_refines_sequential:
  assumes "ctm_commits_since_gc s + 1 < ctm_gc_interval s"
  shows "fst (ctm_commit s i) = fst (tm_commit (ctm_abs s) i)
    \<and> ctm_abs (snd (ctm_commit s i)) = snd (tm_commit (ctm_abs s) i)
    \<and> fst (ctm_begin s lvl) = fst (tm_begin (ctm_abs s) lvl)
    \<and> ctm_abs (snd (ctm_begin s lvl)) = snd (tm_begin (ctm_abs s) lvl)
    \<and> fst (ctm_record_write s i k) = fst (record_write (ctm_abs s) i k)
    \<and> ctm_abs (snd (ctm_record_write s i k)) = snd (record_write (ctm_abs s) i k)
    \<and> fst (ctm_abort s i) = fst (tm_abort (ctm_abs s) i)
    \<and> ctm_abs (snd (ctm_abort s i)) = snd (tm_abort (ctm_abs s) i)"
proof -
  have "ctm_abs (snd (ctm_commit s i)) = snd (tm_commit (ctm_abs s) i)
      \<and> fst (ctm_commit s i) = fst (tm_commit (ctm_abs s) i)"
    using assms
    by (auto simp: ctm_commit_def tm_commit_def get_txn_def put_txn_def ctm_put_def oracle_next_def
        Let_def split_def periodic_gc_not_due publish_writes_map
        split: option.splits transaction_state.splits)
      (simp_all add: ctm_abs_def publish_writes_map)
  moreover have "ctm_abs (snd (ctm_begin s lvl)) = snd (tm_begin (ctm_abs s) lvl)
      \<and> fst (ctm_begin s lvl) = fst (tm_begin (ctm_abs s) lvl)"
    by (simp add: ctm_begin_def tm_begin_def Let_def ctm_put_def put_txn_def ctm_abs_def)
  moreover have "ctm_abs (snd (ctm_record_write s i k)) = snd (record_write (ctm_abs s) i k)
      \<and> fst (ctm_record_write s i k) = fst (record_write (ctm_abs s) i k)"
    by (auto simp: ctm_record_write_def record_write_def get_txn_def ctm_put_def put_txn_def
        ctm_abs_def split: option.splits)
  moreover have "ctm_abs (snd (ctm_abort s i)) = snd (tm_abort (ctm_abs s) i)
      \<and> fst (ctm_abort s i) = fst (tm_abort (ctm_abs s) i)"
    by (auto simp: ctm_abort_def tm_abort_def get_txn_def ctm_put_def put_txn_def ctm_abs_def
        split: option.splits transaction_state.splits)
  ultimately show ?thesis by blast
qed

theorem concurrent_refines_sequential_witness:
  "fst (ctm_commit (snd (ctm_begin ctm_new Snapshot)) 1)
     = fst (tm_commit (ctm_abs (snd (ctm_begin ctm_new Snapshot))) 1)"
  by (rule conjunct1 [OF concurrent_refines_sequential])
    (simp add: ctm_begin_def ctm_new_def ctm_with_gc_interval_def ctm_put_def Let_def)

text \<open>
  Collection does not change validation. For every transaction that is active, committing it
  after a garbage collection pass has the outcome it would have had before the pass.
\<close>

lemma run_gc_keeps_validation:
  assumes "ctm_wf s" "map_of (ctm_txns s) i = Some t" "tx_state t = Active"
  shows "fst (ctm_commit (snd (run_gc s)) i) = fst (ctm_commit s i)"
proof -
  have r: "ctm_min_active s \<le> tx_read_ts t"
    using ctm_min_active_le [OF map_of_SomeD [OF assms(2)] assms(3)] .
  have "map_of (ctm_txns (snd (run_gc s))) i = Some t"
    using assms by (simp add: run_gc_fields map_of_filter_distinct ctm_wf_def)
  moreover have "write_conflict (map_of (ctm_latest_writes (snd (run_gc s)))) (tx_read_ts t) ks
      = write_conflict (map_of (ctm_latest_writes s)) (tx_read_ts t) ks" for ks
    using r unfolding write_conflict_iff run_gc_latest [OF assms(1)]
    by (auto split: option.splits if_splits intro!: bexI)
  ultimately show ?thesis
    using assms(2,3)
    by (simp add: ctm_commit_def oracle_next_def Let_def split_def run_gc_fields)
qed

fun ctm_step :: "tm_op \<Rightarrow> concurrent_tm \<Rightarrow> concurrent_tm" where
  "ctm_step (OpBegin i) s = snd (ctm_begin s i)"
| "ctm_step (OpWrite t k) s = snd (ctm_record_write s t k)"
| "ctm_step (OpCommit t) s = snd (ctm_commit s t)"
| "ctm_step (OpAbort t) s = snd (ctm_abort s t)"

lemmas ctm_eval = ctm_begin_def ctm_record_write_def ctm_commit_def ctm_abort_def ctm_put_def
  ctm_new_def ctm_with_gc_interval_def set_gc_callback_def transaction_new_def oracle_next_def
  notify_superseded_def periodic_gc_def ctm_min_active_def ctm_call_def Let_def

text \<open>One transaction writes a key and commits, a second only advances the clock, a third is
  still reading.\<close>

definition quiet_history :: concurrent_tm where
  "quiet_history = fold ctm_step [OpBegin Snapshot, OpWrite 1 [7], OpCommit 1, OpBegin Snapshot,
     OpCommit 2, OpBegin Snapshot] (set_gc_callback ctm_new)"

lemma quiet_history_eq:
  "quiet_history = \<lparr>ctm_oracle = TimestampOracle 3,
     ctm_txns = [(1, \<lparr>tx_txn_id = 1, tx_read_ts = 1, tx_commit_ts = Some 2,
       tx_state = Committed, tx_isolation = Snapshot, tx_write_set = [[7]]\<rparr>),
     (2, \<lparr>tx_txn_id = 2, tx_read_ts = 2, tx_commit_ts = Some 3, tx_state = Committed,
       tx_isolation = Snapshot, tx_write_set = []\<rparr>),
     (3, \<lparr>tx_txn_id = 3, tx_read_ts = 3, tx_commit_ts = None, tx_state = Active,
       tx_isolation = Snapshot, tx_write_set = []\<rparr>)],
     ctm_committed_ts = {2, 3}, ctm_latest_writes = [([7], 2)], ctm_next_txn_id = 4,
     ctm_gc = gc_new, ctm_commits_since_gc = 2, ctm_gc_interval = 100, ctm_has_callback = True,
     ctm_callback_calls = []\<rparr>"
  by code_simp

lemma quiet_history_state:
  "ctm_committed_ts quiet_history = {2, 3}" "ctm_latest_writes quiet_history = [([7], 2)]"
  "ctm_has_callback quiet_history" "ctm_min_active quiet_history = 3"
  by (simp_all add: quiet_history_eq ctm_min_active_def)

lemma run_gc_keeps_validation_witness:
  "fst (ctm_commit (snd (run_gc quiet_history)) 3) = fst (ctm_commit quiet_history 3)"
  by (rule run_gc_keeps_validation [where t = "\<lparr>tx_txn_id = 3, tx_read_ts = 3, tx_commit_ts = None,
      tx_state = Active, tx_isolation = Snapshot, tx_write_set = []\<rparr>"])
    (simp_all add: ctm_wf_def quiet_history_eq)

text \<open>
  Collection hides committed data. A pass drops every commit timestamp below the horizon, and
  visibility asks for membership: the live version that a long-committed transaction wrote is
  visible to every reader with a later snapshot before the pass and to none of them after it,
  and the callback is told to remove that version although nothing has superseded it.
\<close>

lemma run_gc_hides_live_versions:
  assumes "map_of (ctm_latest_writes s) k = Some ts" "ctm_is_committed s ts"
    "ts < ctm_min_active s" "ctm_has_callback s"
    "vh_begin_ts v = ts" "vh_end_ts v = LIVE" "vh_txn_id v \<noteq> reader"
    "ts \<le> read_ts" "read_ts < LIVE"
  shows "is_visible_to v read_ts reader (ctm_is_committed s)
    \<and> \<not> is_visible_to v read_ts reader (ctm_is_committed (snd (run_gc s)))
    \<and> (k, ts) \<in> set (ctm_callback_calls (snd (run_gc s)))"
proof -
  have "\<not> ctm_is_committed (snd (run_gc s)) ts"
    using assms(3) by (simp add: ctm_is_committed_def run_gc_fields)
  then show ?thesis
    using assms run_gc_calls [OF assms(4,1,3)] by (auto simp: is_visible_to_def)
qed

lemma run_gc_hides_live_versions_witness:
  "\<not> is_visible_to \<lparr>vh_begin_ts = 2, vh_end_ts = LIVE, vh_txn_id = 1, vh_prev_version_off = 0\<rparr> 3 3
      (ctm_is_committed (snd (run_gc quiet_history)))
   \<and> ([7], 2) \<in> set (ctm_callback_calls (snd (run_gc quiet_history)))"
  using run_gc_hides_live_versions [of quiet_history "[7]" 2
      "\<lparr>vh_begin_ts = 2, vh_end_ts = LIVE, vh_txn_id = 1, vh_prev_version_off = 0\<rparr>" 3 3]
  by (simp add: quiet_history_state ctm_is_committed_def LIVE_def)

lemma publish_writes_superseded:
  "k \<in> set ks \<Longrightarrow> map_of l k = Some old \<Longrightarrow> old < c \<Longrightarrow> (k, old) \<in> set (snd (publish_writes c ks l))"
proof (induction ks arbitrary: l)
  case (Cons a ks)
  show ?case
  proof (cases "k = a")
    case True
    then show ?thesis using Cons.prems by (simp add: Let_def split_def)
  next
    case False
    then have "map_of (AList.update a c l) k = Some old" using Cons.prems by (simp add: update_conv')
    then show ?thesis using Cons False by (simp add: Let_def split_def)
  qed
qed simp

lemma ctm_min_active_gt:
  assumes "(i, t) \<in> set (ctm_txns s)" "tx_state t = Active"
    "\<forall>(i, t)\<in>set (ctm_txns s). tx_state t = Active \<longrightarrow> b < tx_read_ts t"
  shows "b < ctm_min_active s"
proof -
  let ?rs = "map (\<lambda>(_, t). tx_read_ts t) (filter (\<lambda>(_, t). tx_state t = Active) (ctm_txns s))"
  have all: "\<forall>x\<in>set ?rs. b < x" using assms(3) by auto
  have "tx_read_ts t \<in> set ?rs" using assms(1,2) by force
  then obtain r rs where rs: "?rs = r # rs" by (cases ?rs) auto
  have "(b :: u64) < r \<Longrightarrow> \<forall>x\<in>set xs. b < x \<Longrightarrow> b < foldl min r xs" for r xs
    by (induction xs arbitrary: r) auto
  then have "b < foldl min r rs" using all unfolding rs by simp
  then show ?thesis by (simp add: ctm_min_active_def rs)
qed

lemma notify_calls:
  assumes "ctm_has_callback s" "(k, old) \<in> set xs" "old < ctm_min_active s"
  shows "(k, old) \<in> set (ctm_callback_calls (notify_superseded xs s))"
proof -
  let ?f = "\<lambda>m. fold (\<lambda>(k, old_ts) s. if old_ts < m then ctm_call k old_ts s else s)"
  have keep: "set (ctm_callback_calls s) \<subseteq> set (ctm_callback_calls (?f m xs s))" for m xs s
  proof (induction xs arbitrary: s)
    case (Cons x xs)
    have "set (ctm_callback_calls s)
        \<subseteq> set (ctm_callback_calls (if snd x < m then ctm_call (fst x) (snd x) s else s))"
      by (auto simp: ctm_call_def)
    also note Cons.IH
    finally show ?case by (simp add: split_def)
  qed simp
  have "ctm_has_callback s \<Longrightarrow> old < m \<Longrightarrow> (k, old) \<in> set xs
      \<Longrightarrow> (k, old) \<in> set (ctm_callback_calls (?f m xs s))" for m
  proof (induction xs arbitrary: s)
    case (Cons x xs)
    let ?s = "if snd x < m then ctm_call (fst x) (snd x) s else s"
    have cb: "ctm_has_callback ?s" using Cons.prems by (simp add: ctm_call_def)
    show ?case
    proof (cases "x = (k, old)")
      case True
      then have "(k, old) \<in> set (ctm_callback_calls ?s)" using Cons.prems by (simp add: ctm_call_def)
      then show ?thesis using keep [of ?s m xs] by (auto simp: split_def)
    next
      case False
      then show ?thesis using Cons.IH [OF cb] Cons.prems by (simp add: split_def)
    qed
  qed simp
  then show ?thesis using assms by (simp add: notify_superseded_def Let_def)
qed

lemma periodic_gc_not_due_calls:
  "ctm_commits_since_gc s + 1 < ctm_gc_interval s \<Longrightarrow>
     ctm_callback_calls (periodic_gc s) = ctm_callback_calls s
     \<and> ctm_committed_ts (periodic_gc s) = ctm_committed_ts s"
  by (simp add: periodic_gc_def Let_def not_le [symmetric])

lemma notify_committed [simp]:
  "ctm_committed_ts (notify_superseded xs s) = ctm_committed_ts s"
  using arg_cong [OF ctm_abs_notify [of xs s], of tm_committed_ts] by (simp add: ctm_abs_def)

text \<open>
  A commit can reclaim a version that is still being read. The callback is given a replaced
  version when its begin timestamp is below the least active snapshot; but the version ends
  only at the new commit, so every active reader, having a snapshot from before that commit,
  still sees it.
\<close>

lemma commit_reclaims_visible_version:
  assumes t: "map_of (ctm_txns s) i = Some t" "tx_state t = Active"
    "\<not> write_conflict (map_of (ctm_latest_writes s)) (tx_read_ts t) (tx_write_set t)"
    and k: "k \<in> set (tx_write_set t)" "map_of (ctm_latest_writes s) k = Some old"
    and reader: "map_of (ctm_txns s) j = Some u" "tx_state u = Active" "j \<noteq> i"
    and snapshots: "\<forall>(i, t)\<in>set (ctm_txns s). tx_state t = Active
      \<longrightarrow> old < tx_read_ts t \<and> tx_read_ts t < ctm_current_ts s + 1"
    and other: "ctm_wf s" "ctm_has_callback s" "ctm_is_committed s old"
      "ctm_commits_since_gc s + 1 < ctm_gc_interval s"
      "vh_begin_ts v = old" "vh_end_ts v = ctm_current_ts s + 1" "vh_txn_id v \<noteq> j"
  shows "\<exists>s'. ctm_commit s i = (Ok (ctm_current_ts s + 1), s')
    \<and> (k, old) \<in> set (ctm_callback_calls s')
    \<and> is_visible_to v (tx_read_ts u) j (ctm_is_committed s')"
proof -
  let ?c = "ctm_current_ts s + 1"
  let ?s1 = "ctm_put (s\<lparr>ctm_oracle := TimestampOracle ?c\<rparr>) i
    (t\<lparr>tx_commit_ts := Some ?c, tx_state := Committed\<rparr>)"
  let ?p = "publish_writes ?c (tx_write_set t) (ctm_latest_writes s)"
  let ?s2 = "?s1\<lparr>ctm_committed_ts := insert ?c (ctm_committed_ts s), ctm_latest_writes := fst ?p\<rparr>"
  let ?s3 = "notify_superseded (snd ?p) ?s2"
  have reads: "old < tx_read_ts u" "tx_read_ts u < ?c"
    using snapshots map_of_SomeD [OF reader(1)] reader(2) by auto
  have commit: "ctm_commit s i = (Ok ?c, periodic_gc ?s3)"
    using t by (simp add: ctm_commit_def oracle_next_def Let_def split_def ctm_current_ts_def ctm_put_def)
  have due: "ctm_commits_since_gc ?s3 + 1 < ctm_gc_interval ?s3" using other(4) by (simp add: ctm_put_def)
  have txns: "ctm_txns ?s2 = AList.update i (t\<lparr>tx_commit_ts := Some ?c, tx_state := Committed\<rparr>) (ctm_txns s)"
    by (simp add: ctm_put_def)
  have dist: "distinct (map fst (ctm_txns ?s2))"
    unfolding txns using other(1) by (intro distinct_update) (simp add: ctm_wf_def)
  have entry: "map_of (ctm_txns ?s2) q = (if q = i then
      Some (t\<lparr>tx_commit_ts := Some ?c, tx_state := Committed\<rparr>) else map_of (ctm_txns s) q)" for q
    unfolding txns by (simp add: update_conv')
  have "(j, u) \<in> set (ctm_txns ?s2)" using entry [of j] reader by (intro map_of_SomeD) simp
  moreover have "\<forall>(q, w)\<in>set (ctm_txns ?s2). tx_state w = Active \<longrightarrow> old < tx_read_ts w"
  proof (clarify)
    fix q w assume w: "(q, w) \<in> set (ctm_txns ?s2)" "tx_state w = Active"
    then have "map_of (ctm_txns ?s2) q = Some w" using dist by (simp add: map_of_is_SomeI)
    then have "map_of (ctm_txns s) q = Some w" using w(2) entry [of q] by (auto split: if_splits)
    then show "old < tx_read_ts w" using snapshots w(2) map_of_SomeD by fastforce
  qed
  ultimately have "old < ctm_min_active ?s2" using reader(2) by (intro ctm_min_active_gt)
  moreover have "(k, old) \<in> set (snd ?p)"
    using k reads by (intro publish_writes_superseded) (auto intro: less_trans)
  ultimately have "(k, old) \<in> set (ctm_callback_calls ?s3)"
    using other(2) by (intro notify_calls) (simp_all add: ctm_put_def)
  moreover have "ctm_committed_ts (periodic_gc ?s3) = insert ?c (ctm_committed_ts s)"
    using periodic_gc_not_due_calls [OF due] by simp
  ultimately show ?thesis
    using commit periodic_gc_not_due_calls [OF due] other reads
    by (simp add: is_visible_to_def ctm_is_committed_def less_imp_le not_le)
qed

definition reader_behind :: concurrent_tm where
  "reader_behind = fold ctm_step [OpBegin Snapshot, OpWrite 1 [7], OpCommit 1, OpBegin Snapshot,
     OpCommit 2, OpBegin Snapshot, OpBegin Snapshot, OpWrite 4 [7]] (set_gc_callback ctm_new)"

lemma commit_reclaims_visible_version_witness:
  "\<exists>s'. ctm_commit reader_behind 4 = (Ok 4, s') \<and> ([7], 2) \<in> set (ctm_callback_calls s')
     \<and> is_visible_to \<lparr>vh_begin_ts = 2, vh_end_ts = 4, vh_txn_id = 1, vh_prev_version_off = 0\<rparr> 3 3
         (ctm_is_committed s')"
proof -
  let ?u = "\<lparr>tx_txn_id = 3, tx_read_ts = 3, tx_commit_ts = None, tx_state = Active,
       tx_isolation = Snapshot, tx_write_set = []\<rparr>"
  let ?t = "\<lparr>tx_txn_id = 4, tx_read_ts = 3, tx_commit_ts = None, tx_state = Active,
       tx_isolation = Snapshot, tx_write_set = [[7]]\<rparr>"
  have st: "reader_behind = \<lparr>ctm_oracle = TimestampOracle 3,
     ctm_txns = [(1, \<lparr>tx_txn_id = 1, tx_read_ts = 1, tx_commit_ts = Some 2,
       tx_state = Committed, tx_isolation = Snapshot, tx_write_set = [[7]]\<rparr>),
     (2, \<lparr>tx_txn_id = 2, tx_read_ts = 2, tx_commit_ts = Some 3, tx_state = Committed,
       tx_isolation = Snapshot, tx_write_set = []\<rparr>), (3, ?u), (4, ?t)],
     ctm_committed_ts = {2, 3}, ctm_latest_writes = [([7], 2)], ctm_next_txn_id = 5,
     ctm_gc = gc_new, ctm_commits_since_gc = 2, ctm_gc_interval = 100, ctm_has_callback = True,
     ctm_callback_calls = []\<rparr>"
    by code_simp
  show ?thesis
    using commit_reclaims_visible_version [of reader_behind 4 ?t "[7]" 2 3 ?u
        "\<lparr>vh_begin_ts = 2, vh_end_ts = 4, vh_txn_id = 1, vh_prev_version_off = 0\<rparr>"]
    by (simp add: st ctm_wf_def ctm_is_committed_def ctm_current_ts_def)
qed
end
