(* ===== verification/Interleaving.thy ===== *)
theory Interleaving
  imports ConcurrentTm
begin

text \<open>
  The same manager (\<open>cendb-tx/src/concurrent_tm.rs\<close>) when its calls overlap. Every thread has
  a control point; one step performs the next access to a shared cell, with the lock of that
  cell held for the step. Only the write lock of the table of latest writes is held across
  several steps (the validate-and-publish section of a commit), so it is part of the state.
  Two ghost fields record the published commits and whether a collection has removed entries.
\<close>

section \<open>Control points and state\<close>

datatype api_call = CallBegin isolation_level | CallWrite u64 key | CallCommit u64
  | CallAbort u64 | CallRunGc

datatype answer = Began u64 | Wrote "unit mvcc_result" | CommitAnswer "u64 mvcc_result"
  | AbortAnswer "unit mvcc_result" | GcAnswer nat

datatype control =
    Idle "answer option"
  | BeginCalled isolation_level
  | BeginId isolation_level u64
  | BeginRead isolation_level u64 u64
  | WriteCalled u64 key
  | AbortCalled u64
  | CommitCalled u64
  | CommitRead u64 u64 "key list"
  | CommitConflict u64
  | CommitLocked u64 u64 "key list"
  | CommitStamped u64 u64 "key list" u64
  | CommitMarked u64 u64 "key list" u64
  | CommitRecorded u64 u64 "key list" u64
  | CommitPublished u64 "(key \<times> u64) list"
  | CommitNotified u64
  | GcCalled "u64 option"
  | GcHorizon "u64 option" u64
  | GcKeys "u64 option" u64 "key list"
  | GcRemoved "u64 option" u64 nat
  | GcForgot "u64 option" u64 nat
  | GcPurged "u64 option" nat
  | GcDone u64

record commit_entry =
  ce_txn :: u64
  ce_read :: u64
  ce_commit :: u64
  ce_writes :: "key list"

record istate =
  ist_tm :: concurrent_tm
  ist_lock :: "nat option"
  ist_pc :: "nat \<Rightarrow> control"
  ist_published :: "commit_entry list"
  ist_collected :: bool

definition istart :: "u64 \<Rightarrow> istate" where
  "istart gc_interval = \<lparr>ist_tm = ctm_with_gc_interval gc_interval, ist_lock = None,
     ist_pc = (\<lambda>_. Idle None), ist_published = [], ist_collected = False\<rparr>"

definition goto :: "nat \<Rightarrow> control \<Rightarrow> istate \<Rightarrow> istate" where
  "goto th p s = s\<lparr>ist_pc := (ist_pc s)(th := p)\<rparr>"

definition upd_tm :: "(concurrent_tm \<Rightarrow> concurrent_tm) \<Rightarrow> istate \<Rightarrow> istate" where
  "upd_tm f s = s\<lparr>ist_tm := f (ist_tm s)\<rparr>"

definition set_lock :: "nat option \<Rightarrow> istate \<Rightarrow> istate" where
  "set_lock l s = s\<lparr>ist_lock := l\<rparr>"

definition add_published :: "commit_entry \<Rightarrow> istate \<Rightarrow> istate" where
  "add_published e s = s\<lparr>ist_published := ist_published s @ [e]\<rparr>"

section \<open>One step of a call\<close>

fun begin_step_at :: "control \<Rightarrow> nat \<Rightarrow> istate \<Rightarrow> istate option" where
  "begin_step_at (BeginCalled lvl) th s =
     (let txn_id = ctm_next_txn_id (ist_tm s)
      in Some (goto th (BeginId lvl txn_id) (upd_tm (ctm_next_txn_id_update (\<lambda>i. i + 1)) s)))"
| "begin_step_at (BeginId lvl txn_id) th s =
     Some (goto th (BeginRead lvl txn_id (oracle_current (ctm_oracle (ist_tm s)))) s)"
| "begin_step_at (BeginRead lvl txn_id read_ts) th s =
     Some (goto th (Idle (Some (Began txn_id)))
       (upd_tm (\<lambda>m. ctm_put m txn_id (transaction_new txn_id read_ts lvl)) s))"
| "begin_step_at _ _ _ = None"

fun commit_step_at :: "control \<Rightarrow> nat \<Rightarrow> istate \<Rightarrow> istate option" where
  "commit_step_at (CommitCalled txn_id) th s =
     Some (goto th
       (case map_of (ctm_txns (ist_tm s)) txn_id of
          None \<Rightarrow> Idle (Some (CommitAnswer (Err MvccNotFound)))
        | Some t \<Rightarrow>
            (case tx_state t of
               Committed \<Rightarrow> Idle (Some (CommitAnswer (Err AlreadyCommitted)))
             | Aborted \<Rightarrow> Idle (Some (CommitAnswer (Err AlreadyAborted)))
             | _ \<Rightarrow> CommitRead txn_id (tx_read_ts t) (tx_write_set t))) s)"
| "commit_step_at (CommitRead txn_id read_ts write_set) th s =
     (if ist_lock s \<noteq> None then None
      else if write_conflict (map_of (ctm_latest_writes (ist_tm s))) read_ts write_set
      then Some (goto th (CommitConflict txn_id) s)
      else Some (goto th (CommitLocked txn_id read_ts write_set) (set_lock (Some th) s)))"
| "commit_step_at (CommitConflict txn_id) th s =
     Some (goto th (Idle (Some (CommitAnswer (Err MvccConflict))))
       (upd_tm (\<lambda>m. case map_of (ctm_txns m) txn_id of None \<Rightarrow> m
          | Some t \<Rightarrow> ctm_put m txn_id (t\<lparr>tx_state := Aborted\<rparr>)) s))"
| "commit_step_at (CommitLocked txn_id read_ts write_set) th s =
     (let (commit_ts, oracle) = oracle_next (ctm_oracle (ist_tm s))
      in Some (goto th (CommitStamped txn_id read_ts write_set commit_ts)
           (upd_tm (\<lambda>m. m\<lparr>ctm_oracle := oracle\<rparr>) s)))"
| "commit_step_at (CommitStamped txn_id read_ts write_set commit_ts) th s =
     (case map_of (ctm_txns (ist_tm s)) txn_id of
        None \<Rightarrow> Some (goto th (Idle (Some (CommitAnswer (Err MvccNotFound)))) (set_lock None s))
      | Some t \<Rightarrow>
          if tx_state t = Aborted
          then Some (goto th (Idle (Some (CommitAnswer (Err MvccAborted)))) (set_lock None s))
          else Some (goto th (CommitMarked txn_id read_ts write_set commit_ts)
            (upd_tm (\<lambda>m. ctm_put m txn_id
               (t\<lparr>tx_commit_ts := Some commit_ts, tx_state := Committed\<rparr>)) s)))"
| "commit_step_at (CommitMarked txn_id read_ts write_set commit_ts) th s =
     Some (goto th (CommitRecorded txn_id read_ts write_set commit_ts)
       (upd_tm (ctm_committed_ts_update (insert commit_ts)) s))"
| "commit_step_at (CommitRecorded txn_id read_ts write_set commit_ts) th s =
     (let (latest, superseded) = publish_writes commit_ts write_set (ctm_latest_writes (ist_tm s))
      in Some (goto th (CommitPublished commit_ts superseded)
           (set_lock None
             (add_published \<lparr>ce_txn = txn_id, ce_read = read_ts, ce_commit = commit_ts,
                ce_writes = write_set\<rparr>
               (upd_tm (ctm_latest_writes_update (\<lambda>_. latest)) s)))))"
| "commit_step_at (CommitPublished commit_ts superseded) th s =
     Some (goto th (CommitNotified commit_ts) (upd_tm (notify_superseded superseded) s))"
| "commit_step_at (CommitNotified commit_ts) th s =
     (let count = ctm_commits_since_gc (ist_tm s) + 1
      in Some (goto th (if count \<ge> ctm_gc_interval (ist_tm s) then GcCalled (Some commit_ts)
             else Idle (Some (CommitAnswer (Ok commit_ts))))
           (upd_tm (ctm_commits_since_gc_update (\<lambda>_. count)) s)))"
| "commit_step_at _ _ _ = None"

fun gc_step_at :: "control \<Rightarrow> nat \<Rightarrow> istate \<Rightarrow> istate option" where
  "gc_step_at (GcCalled caller) th s =
     (let min_active_ts = ctm_min_active (ist_tm s)
      in Some (goto th (GcHorizon caller min_active_ts)
           (upd_tm (ctm_gc_update (\<lambda>g. set_min_active_ts g min_active_ts)) s)))"
| "gc_step_at (GcHorizon caller min_active_ts) th s =
     (if ist_lock s \<noteq> None then None
      else Some (goto th (GcKeys caller min_active_ts
        (map fst (filter (\<lambda>(_, ts). ts < min_active_ts) (ctm_latest_writes (ist_tm s))))) s))"
| "gc_step_at (GcKeys caller min_active_ts keys_to_remove) th s =
     (if keys_to_remove = [] then Some (goto th (GcRemoved caller min_active_ts 0) s)
      else if ist_lock s \<noteq> None then None
      else let (collected, m) = remove_keys keys_to_remove (ist_tm s)
        in Some (goto th (GcRemoved caller min_active_ts collected)
             (upd_tm (\<lambda>_. m) s)\<lparr>ist_collected := True\<rparr>))"
| "gc_step_at (GcRemoved caller min_active_ts collected) th s =
     Some (goto th (GcForgot caller min_active_ts collected)
       (upd_tm (ctm_committed_ts_update (\<lambda>c. {ts \<in> c. \<not> ts < min_active_ts})) s))"
| "gc_step_at (GcForgot caller min_active_ts collected) th s =
     Some (goto th (GcPurged caller collected)
       (upd_tm (ctm_txns_update
          (filter (\<lambda>(_, t). \<not> (tx_state t \<noteq> Active \<and> tx_read_ts t < min_active_ts)))) s))"
| "gc_step_at (GcPurged caller collected) th s =
     Some (goto th (case caller of Some c \<Rightarrow> GcDone c | None \<Rightarrow> Idle (Some (GcAnswer collected)))
       (upd_tm (ctm_gc_update (record_gc ^^ collected)) s))"
| "gc_step_at (GcDone commit_ts) th s =
     Some (goto th (Idle (Some (CommitAnswer (Ok commit_ts))))
       (upd_tm (ctm_commits_since_gc_update (\<lambda>_. 0)) s))"
| "gc_step_at _ _ _ = None"

text \<open>Recording a write and aborting are one access to the transaction table each.\<close>

fun istep_at :: "control \<Rightarrow> nat \<Rightarrow> istate \<Rightarrow> istate option" where
  "istep_at (Idle a) th s = None"
| "istep_at (WriteCalled txn_id k) th s =
     Some (goto th (Idle (Some (Wrote (fst (ctm_record_write (ist_tm s) txn_id k)))))
       (upd_tm (\<lambda>m. snd (ctm_record_write m txn_id k)) s))"
| "istep_at (AbortCalled txn_id) th s =
     Some (goto th (Idle (Some (AbortAnswer (fst (ctm_abort (ist_tm s) txn_id)))))
       (upd_tm (\<lambda>m. snd (ctm_abort m txn_id)) s))"
| "istep_at (BeginCalled lvl) th s = begin_step_at (BeginCalled lvl) th s"
| "istep_at (BeginId lvl txn_id) th s = begin_step_at (BeginId lvl txn_id) th s"
| "istep_at (BeginRead lvl txn_id read_ts) th s = begin_step_at (BeginRead lvl txn_id read_ts) th s"
| "istep_at (CommitCalled txn_id) th s = commit_step_at (CommitCalled txn_id) th s"
| "istep_at (CommitRead txn_id read_ts write_set) th s = commit_step_at (CommitRead txn_id read_ts write_set) th s"
| "istep_at (CommitConflict txn_id) th s = commit_step_at (CommitConflict txn_id) th s"
| "istep_at (CommitLocked txn_id read_ts write_set) th s = commit_step_at (CommitLocked txn_id read_ts write_set) th s"
| "istep_at (CommitStamped txn_id read_ts write_set commit_ts) th s = commit_step_at (CommitStamped txn_id read_ts write_set commit_ts) th s"
| "istep_at (CommitMarked txn_id read_ts write_set commit_ts) th s = commit_step_at (CommitMarked txn_id read_ts write_set commit_ts) th s"
| "istep_at (CommitRecorded txn_id read_ts write_set commit_ts) th s = commit_step_at (CommitRecorded txn_id read_ts write_set commit_ts) th s"
| "istep_at (CommitPublished commit_ts superseded) th s = commit_step_at (CommitPublished commit_ts superseded) th s"
| "istep_at (CommitNotified commit_ts) th s = commit_step_at (CommitNotified commit_ts) th s"
| "istep_at (GcCalled caller) th s = gc_step_at (GcCalled caller) th s"
| "istep_at (GcHorizon caller min_active_ts) th s = gc_step_at (GcHorizon caller min_active_ts) th s"
| "istep_at (GcKeys caller min_active_ts keys_to_remove) th s = gc_step_at (GcKeys caller min_active_ts keys_to_remove) th s"
| "istep_at (GcRemoved caller min_active_ts collected) th s = gc_step_at (GcRemoved caller min_active_ts collected) th s"
| "istep_at (GcForgot caller min_active_ts collected) th s = gc_step_at (GcForgot caller min_active_ts collected) th s"
| "istep_at (GcPurged caller collected) th s = gc_step_at (GcPurged caller collected) th s"
| "istep_at (GcDone commit_ts) th s = gc_step_at (GcDone commit_ts) th s"

fun entry_point :: "api_call \<Rightarrow> control" where
  "entry_point (CallBegin lvl) = BeginCalled lvl"
| "entry_point (CallWrite i k) = WriteCalled i k"
| "entry_point (CallCommit i) = CommitCalled i"
| "entry_point (CallAbort i) = AbortCalled i"
| "entry_point CallRunGc = GcCalled None"

datatype action = Call nat api_call | Step nat

fun iact :: "action \<Rightarrow> istate \<Rightarrow> istate option" where
  "iact (Call th c) s =
     (case ist_pc s th of Idle _ \<Rightarrow> Some (goto th (entry_point c) s) | _ \<Rightarrow> None)"
| "iact (Step th) s = istep_at (ist_pc s th) th s"

fun irun :: "action list \<Rightarrow> istate \<Rightarrow> istate option" where
  "irun [] s = Some s"
| "irun (a # as) s = (case iact a s of None \<Rightarrow> None | Some s' \<Rightarrow> irun as s')"

inductive ireach :: "u64 \<Rightarrow> istate \<Rightarrow> bool" for n where
  ireach_start: "ireach n (istart n)"
| ireach_act: "ireach n s \<Longrightarrow> iact a s = Some s' \<Longrightarrow> ireach n s'"

lemma irun_append: "irun (as @ bs) s = (case irun as s of None \<Rightarrow> None | Some t \<Rightarrow> irun bs t)"
  by (induction as arbitrary: s) (auto split: option.splits)

lemma irun_reach: "irun as s = Some s' \<Longrightarrow> ireach n s \<Longrightarrow> ireach n s'"
  by (induction as arbitrary: s) (auto intro: ireach_act split: option.splits)

lemma istate_sel [simp]:
  "ist_pc (goto th p s) = (ist_pc s)(th := p)" "ist_tm (goto th p s) = ist_tm s"
  "ist_lock (goto th p s) = ist_lock s" "ist_published (goto th p s) = ist_published s"
  "ist_collected (goto th p s) = ist_collected s"
  "ist_pc (upd_tm f s) = ist_pc s" "ist_tm (upd_tm f s) = f (ist_tm s)"
  "ist_lock (upd_tm f s) = ist_lock s" "ist_published (upd_tm f s) = ist_published s"
  "ist_collected (upd_tm f s) = ist_collected s"
  "ist_pc (set_lock l s) = ist_pc s" "ist_tm (set_lock l s) = ist_tm s"
  "ist_lock (set_lock l s) = l" "ist_published (set_lock l s) = ist_published s"
  "ist_collected (set_lock l s) = ist_collected s"
  "ist_pc (add_published e s) = ist_pc s" "ist_tm (add_published e s) = ist_tm s"
  "ist_lock (add_published e s) = ist_lock s"
  "ist_published (add_published e s) = ist_published s @ [e]"
  "ist_collected (add_published e s) = ist_collected s"
  by (simp_all add: goto_def upd_tm_def set_lock_def add_published_def)

section \<open>Mutual exclusion and progress\<close>

fun critical :: "control \<Rightarrow> bool" where
  "critical (CommitLocked _ _ _) = True"
| "critical (CommitStamped _ _ _ _) = True"
| "critical (CommitMarked _ _ _ _) = True"
| "critical (CommitRecorded _ _ _ _) = True"
| "critical _ = False"

definition lock_inv :: "istate \<Rightarrow> bool" where
  "lock_inv s \<longleftrightarrow> (\<forall>th. ist_lock s = Some th \<longleftrightarrow> critical (ist_pc s th))"

text \<open>An upper bound on the steps a call still takes.\<close>

fun steps_left :: "control \<Rightarrow> nat" where
  "steps_left (Idle _) = 0"
| "steps_left (BeginCalled _) = 3"
| "steps_left (BeginId _ _) = 2"
| "steps_left (BeginRead _ _ _) = 1"
| "steps_left (WriteCalled _ _) = 1"
| "steps_left (AbortCalled _) = 1"
| "steps_left (CommitCalled _) = 15"
| "steps_left (CommitRead _ _ _) = 14"
| "steps_left (CommitConflict _) = 1"
| "steps_left (CommitLocked _ _ _) = 13"
| "steps_left (CommitStamped _ _ _ _) = 12"
| "steps_left (CommitMarked _ _ _ _) = 11"
| "steps_left (CommitRecorded _ _ _ _) = 10"
| "steps_left (CommitPublished _ _) = 9"
| "steps_left (CommitNotified _) = 8"
| "steps_left (GcCalled _) = 7"
| "steps_left (GcHorizon _ _) = 6"
| "steps_left (GcKeys _ _ _) = 5"
| "steps_left (GcRemoved _ _ _) = 4"
| "steps_left (GcForgot _ _ _) = 3"
| "steps_left (GcPurged _ _) = 2"
| "steps_left (GcDone _) = 1"

lemmas istep_splits = option.splits if_splits prod.splits transaction_state.splits

lemma istep_pc: "istep_at p th s = Some s' \<Longrightarrow> th' \<noteq> th \<Longrightarrow> ist_pc s' th' = ist_pc s th'"
  by (cases p) (auto simp: Let_def split: istep_splits)

lemma istep_steps_left:
  "istep_at p th s = Some s' \<Longrightarrow> steps_left (ist_pc s' th) < steps_left p"
  by (cases p) (auto simp: Let_def split: istep_splits)

lemma critical_unique:
  "lock_inv s \<Longrightarrow> critical (ist_pc s a) \<Longrightarrow> critical (ist_pc s b) \<Longrightarrow> a = b"
  unfolding lock_inv_def by (metis option.inject)

lemma istep_lock:
  "istep_at p th s = Some s' \<Longrightarrow> ist_pc s th = p \<Longrightarrow> lock_inv s \<Longrightarrow> lock_inv s'"
  using critical_unique [of s th]
  by (cases p) (auto simp: Let_def lock_inv_def split: istep_splits)

lemma entry_not_critical [simp]: "\<not> critical (entry_point c)"
  by (cases c) auto

lemma iact_lock: "iact a s = Some s' \<Longrightarrow> lock_inv s \<Longrightarrow> lock_inv s'"
proof (cases a)
  case (Call th c)
  assume a: "iact a s = Some s'" and l: "lock_inv s"
  have "\<not> critical (ist_pc s th)" using a Call by (cases "ist_pc s th") auto
  moreover have "s' = goto th (entry_point c) s" using a Call by (cases "ist_pc s th") auto
  ultimately show ?thesis using l by (auto simp: lock_inv_def)
next
  case (Step th)
  assume "iact a s = Some s'" "lock_inv s"
  then show ?thesis using istep_lock Step by simp
qed

lemma ireach_lock: "ireach n s \<Longrightarrow> lock_inv s"
proof (induction rule: ireach.induct)
  case ireach_start
  show ?case by (simp add: lock_inv_def istart_def)
qed (rule iact_lock)


definition may_run :: "nat \<Rightarrow> istate \<Rightarrow> bool" where
  "may_run th s \<longleftrightarrow> ist_lock s = None \<or> ist_lock s = Some th"

lemma step_enabled:
  assumes "lock_inv s" "may_run th s" "0 < steps_left (ist_pc s th)"
  shows "\<exists>s'. iact (Step th) s = Some s' \<and> may_run th s'"
proof -
  have l: "ist_lock s = Some th \<longleftrightarrow> critical (ist_pc s th)" using assms(1) by (simp add: lock_inv_def)
  show ?thesis
    using assms(2,3) l
    by (cases "ist_pc s th") (auto simp: Let_def may_run_def split: istep_splits)
qed

lemma steps_left_0: "steps_left p = 0 \<Longrightarrow> \<exists>a. p = Idle a" by (cases p) auto

lemma steps_left_le: "steps_left p \<le> 15" by (cases p) auto

text \<open>A thread that holds the lock, or runs while it is free, finishes its call alone.\<close>

lemma run_alone:
  "lock_inv s \<Longrightarrow> may_run th s \<Longrightarrow> \<exists>k s'. irun (replicate k (Step th)) s = Some s'
     \<and> k \<le> steps_left (ist_pc s th) \<and> steps_left (ist_pc s' th) = 0 \<and> lock_inv s' \<and> ist_lock s' = None
     \<and> (\<forall>t. t \<noteq> th \<longrightarrow> ist_pc s' t = ist_pc s t)"
proof (induction "steps_left (ist_pc s th)" arbitrary: s rule: less_induct)
  case less
  show ?case
  proof (cases "steps_left (ist_pc s th) = 0")
    case True
    then obtain a where "ist_pc s th = Idle a" using steps_left_0 by blast
    then have "ist_lock s = None"
      using less.prems unfolding may_run_def lock_inv_def by (metis critical.simps(5))
    then show ?thesis using less.prems True by (intro exI [of _ 0] exI [of _ s]) simp
  next
    case False
    then obtain s1 where s1: "iact (Step th) s = Some s1" "may_run th s1"
      using step_enabled [OF less.prems] by auto
    then have st: "istep_at (ist_pc s th) th s = Some s1" by simp
    have dec: "steps_left (ist_pc s1 th) < steps_left (ist_pc s th)"
      by (rule istep_steps_left [OF st])
    obtain k s' where r: "irun (replicate k (Step th)) s1 = Some s'"
        "k \<le> steps_left (ist_pc s1 th)" "steps_left (ist_pc s' th) = 0" "lock_inv s'"
        "ist_lock s' = None" "\<forall>t. t \<noteq> th \<longrightarrow> ist_pc s' t = ist_pc s1 t"
      using less.hyps [OF dec iact_lock [OF s1(1) less.prems(1)] s1(2)] by blast
    have "irun (replicate (Suc k) (Step th)) s = Some s'" using s1 r(1) by simp
    moreover have "Suc k \<le> steps_left (ist_pc s th)" using dec r(2) by simp
    moreover have "\<forall>t. t \<noteq> th \<longrightarrow> ist_pc s' t = ist_pc s t"
      using r(6) istep_pc [OF st] by simp
    ultimately show ?thesis using r by blast
  qed
qed

lemma finish_call:
  assumes "lock_inv s"
  shows "\<exists>as s'. irun as s = Some s' \<and> length as \<le> 30 \<and> (\<forall>a\<in>set as. \<exists>t. a = Step t)
    \<and> steps_left (ist_pc s' th) = 0"
proof -
  have ready: "\<exists>k s'. irun (replicate k (Step th)) s = Some s' \<and> k \<le> 15
      \<and> steps_left (ist_pc s' th) = 0" if "lock_inv s" "may_run th s" for s
    using run_alone [OF that] steps_left_le by (meson le_trans)
  show ?thesis
  proof (cases "may_run th s")
    case True
    then obtain k s' where "irun (replicate k (Step th)) s = Some s'" "k \<le> 15"
        "steps_left (ist_pc s' th) = 0"
      using ready [OF assms] by blast
    then show ?thesis by (intro exI [of _ "replicate k (Step th)"] exI [of _ s']) auto
  next
    case False
    then obtain h where h: "ist_lock s = Some h" by (auto simp: may_run_def)
    then obtain j s1 where j: "irun (replicate j (Step h)) s = Some s1" "j \<le> steps_left (ist_pc s h)"
        "lock_inv s1" "ist_lock s1 = None"
      using run_alone [OF assms, of h] by (auto simp: may_run_def)
    then obtain k s' where k: "irun (replicate k (Step th)) s1 = Some s'" "k \<le> 15"
        "steps_left (ist_pc s' th) = 0"
      using ready [of s1] by (auto simp: may_run_def)
    have "irun (replicate j (Step h) @ replicate k (Step th)) s = Some s'"
      using j k by (simp add: irun_append)
    moreover have "j \<le> 15" using j(2) steps_left_le le_trans by blast
    ultimately show ?thesis using k
      by (intro exI [of _ "replicate j (Step h) @ replicate k (Step th)"] exI [of _ s']) auto
  qed
qed

fun calls_of :: "nat \<Rightarrow> action list \<Rightarrow> nat" where
  "calls_of th [] = 0"
| "calls_of th (Call t c # as) = (if t = th then Suc (calls_of th as) else calls_of th as)"
| "calls_of th (Step t # as) = calls_of th as"

fun steps_of :: "nat \<Rightarrow> action list \<Rightarrow> nat" where
  "steps_of th [] = 0"
| "steps_of th (Call t c # as) = steps_of th as"
| "steps_of th (Step t # as) = (if t = th then Suc (steps_of th as) else steps_of th as)"

lemma steps_bound:
  "irun as s = Some s' \<Longrightarrow>
     steps_of th as + steps_left (ist_pc s' th) \<le> 15 * calls_of th as + steps_left (ist_pc s th)"
proof (induction th as arbitrary: s rule: steps_of.induct)
  case (2 th t c as)
  then obtain a where i: "ist_pc s t = Idle a" by (cases "ist_pc s t") auto
  with 2 have "irun as (goto t (entry_point c) s) = Some s'" by simp
  then have ih: "steps_of th as + steps_left (ist_pc s' th)
      \<le> 15 * calls_of th as + steps_left (ist_pc (goto t (entry_point c) s) th)" by (rule 2)
  show ?case using ih i steps_left_le [of "entry_point c"] by (cases "t = th") auto
next
  case (3 th t as)
  then obtain s1 where s1: "istep_at (ist_pc s t) t s = Some s1" "irun as s1 = Some s'"
    by (auto split: option.splits)
  have ih: "steps_of th as + steps_left (ist_pc s' th)
      \<le> 15 * calls_of th as + steps_left (ist_pc s1 th)"
    using "3.IH" s1(2) by (cases "t = th") auto
  show ?case using ih istep_steps_left [OF s1(1)] istep_pc [OF s1(1), of th] by (cases "t = th") auto
qed simp


section \<open>Snapshot isolation while nothing is collected\<close>

text \<open>Two published commits, the older first: if they share a key, the newer one started from
  a snapshot that contains the older.\<close>

definition isolated_pair :: "commit_entry \<Rightarrow> commit_entry \<Rightarrow> bool" where
  "isolated_pair a b \<longleftrightarrow> ce_commit a < ce_commit b
     \<and> (set (ce_writes a) \<inter> set (ce_writes b) \<noteq> {} \<longrightarrow> ce_commit a \<le> ce_read b)"

fun validated :: "control \<Rightarrow> (u64 \<times> key list) option" where
  "validated (CommitLocked _ r ws) = Some (r, ws)"
| "validated (CommitStamped _ r ws _) = Some (r, ws)"
| "validated (CommitMarked _ r ws _) = Some (r, ws)"
| "validated (CommitRecorded _ r ws _) = Some (r, ws)"
| "validated _ = None"

fun stamp_of :: "control \<Rightarrow> (u64 \<times> u64) option" where
  "stamp_of (CommitStamped _ r _ c) = Some (r, c)"
| "stamp_of (CommitMarked _ r _ c) = Some (r, c)"
| "stamp_of (CommitRecorded _ r _ c) = Some (r, c)"
| "stamp_of _ = None"

fun snapshot_of :: "control \<Rightarrow> u64 option" where
  "snapshot_of (BeginRead _ _ r) = Some r"
| "snapshot_of (CommitRead _ r _) = Some r"
| "snapshot_of (CommitLocked _ r _) = Some r"
| "snapshot_of _ = None"

fun published_as :: "control \<Rightarrow> u64 option" where
  "published_as (CommitPublished c _) = Some c"
| "published_as (CommitNotified c) = Some c"
| "published_as (GcCalled c) = c"
| "published_as (GcHorizon c _) = c"
| "published_as (GcKeys c _ _) = c"
| "published_as (GcRemoved c _ _) = c"
| "published_as (GcForgot c _ _) = c"
| "published_as (GcPurged c _) = c"
| "published_as (GcDone c) = Some c"
| "published_as (Idle (Some (CommitAnswer (Ok c)))) = Some c"
| "published_as _ = None"

abbreviation clock :: "istate \<Rightarrow> u64" where "clock s \<equiv> oracle_current (ctm_oracle (ist_tm s))"

definition snapshots :: "concurrent_tm \<Rightarrow> u64 set" where
  "snapshots m = (\<lambda>(_, t). tx_read_ts t) ` set (ctm_txns m)"

definition clock_inv :: "istate \<Rightarrow> bool" where
  "clock_inv s \<longleftrightarrow>
     (\<forall>r\<in>snapshots (ist_tm s). r \<le> clock s)
     \<and> (\<forall>th r. snapshot_of (ist_pc s th) = Some r \<longrightarrow> r \<le> clock s)
     \<and> (\<forall>th r c. stamp_of (ist_pc s th) = Some (r, c) \<longrightarrow> r < c \<and> c \<le> clock s
          \<and> (\<forall>e\<in>set (ist_published s). ce_commit e < c))
     \<and> (\<forall>e\<in>set (ist_published s). ce_read e < ce_commit e \<and> ce_commit e \<le> clock s)"

definition conflict_inv :: "istate \<Rightarrow> bool" where
  "conflict_inv s \<longleftrightarrow>
     (\<forall>th r ws. validated (ist_pc s th) = Some (r, ws)
        \<longrightarrow> \<not> write_conflict (map_of (ctm_latest_writes (ist_tm s))) r ws)
     \<and> (\<forall>e\<in>set (ist_published s). \<forall>k\<in>set (ce_writes e).
          \<exists>m. map_of (ctm_latest_writes (ist_tm s)) k = Some m \<and> ce_commit e \<le> m)
     \<and> sorted_wrt isolated_pair (ist_published s)"


lemma set_alist_update: "set (AList.update k v l) \<subseteq> insert (k, v) (set l)"
  by (induction l) auto

lemma snapshots_put: "snapshots (ctm_put m i t) \<subseteq> insert (tx_read_ts t) (snapshots m)"
  using set_alist_update [of i t "ctm_txns m"] by (force simp: snapshots_def ctm_put_def)

lemma snapshots_lookup: "map_of (ctm_txns m) i = Some t \<Longrightarrow> tx_read_ts t \<in> snapshots m"
  using map_of_SomeD unfolding snapshots_def by force

lemma snapshots_put_same:
  "map_of (ctm_txns m) i = Some u \<Longrightarrow> tx_read_ts t = tx_read_ts u \<Longrightarrow>
     snapshots (ctm_put m i t) \<subseteq> snapshots m"
  using snapshots_put [of m i t] snapshots_lookup [of m i u] by auto

lemma ctm_put_fields [simp]:
  "ctm_oracle (ctm_put m i t) = ctm_oracle m"
  "ctm_latest_writes (ctm_put m i t) = ctm_latest_writes m"
  by (simp_all add: ctm_put_def)

lemma record_write_fields:
  "ctm_oracle (snd (ctm_record_write m i k)) = ctm_oracle m"
  "ctm_latest_writes (snd (ctm_record_write m i k)) = ctm_latest_writes m"
  "snapshots (snd (ctm_record_write m i k)) \<subseteq> snapshots m"
  using snapshots_put_same [of m i]
  by (auto simp: ctm_record_write_def split: option.splits)

lemma abort_fields:
  "ctm_oracle (snd (ctm_abort m i)) = ctm_oracle m"
  "ctm_latest_writes (snd (ctm_abort m i)) = ctm_latest_writes m"
  "snapshots (snd (ctm_abort m i)) \<subseteq> snapshots m"
  using snapshots_put_same [of m i]
  by (auto simp: ctm_abort_def split: option.splits transaction_state.splits)

lemma notify_fields:
  "ctm_oracle (notify_superseded xs m) = ctm_oracle m"
  "map_of (ctm_latest_writes (notify_superseded xs m)) = map_of (ctm_latest_writes m)"
  "snapshots (notify_superseded xs m) = snapshots m"
  using arg_cong [OF ctm_abs_notify [of xs m], of tm_oracle]
    arg_cong [OF ctm_abs_notify [of xs m], of tm_latest_writes]
    arg_cong [OF ctm_abs_notify [of xs m], of tm_txns]
  by (simp_all add: ctm_abs_def snapshots_def)

lemma snapshots_upd [simp]:
  "snapshots (m\<lparr>ctm_oracle := x\<rparr>) = snapshots m"
  "snapshots (ctm_next_txn_id_update f m) = snapshots m"
  "snapshots (ctm_committed_ts_update g m) = snapshots m"
  "snapshots (ctm_latest_writes_update h m) = snapshots m"
  "snapshots (ctm_commits_since_gc_update f m) = snapshots m"
  "snapshots (ctm_gc_update l m) = snapshots m"
  "snapshots (ctm_txns_update (filter P) m) \<subseteq> snapshots m"
  by (auto simp: snapshots_def)

lemma step_clock:
  "istep_at p th s = Some s' \<Longrightarrow>
     clock s' = (case p of CommitLocked _ _ _ \<Rightarrow> clock s + 1 | _ \<Rightarrow> clock s)"
  by (cases p) (auto simp: Let_def record_write_fields abort_fields notify_fields
      oracle_next_def remove_keys_fields dest!: arg_cong [of _ _ snd] split: istep_splits)

lemma snapshots_putD: "x \<in> snapshots (ctm_put m i t) \<Longrightarrow> x = tx_read_ts t \<or> x \<in> snapshots m"
  using snapshots_put by blast

lemma remove_keys_snapshots: "snapshots (snd (remove_keys ks m)) = snapshots m"
  by (simp add: snapshots_def remove_keys_fields)

lemma step_snapshots:
  "istep_at p th s = Some s' \<Longrightarrow>
     snapshots (ist_tm s') \<subseteq> snapshots (ist_tm s) \<union> set_option (snapshot_of p)"
  by (cases p) (auto simp: Let_def split_def notify_fields oracle_next_def remove_keys_snapshots
      snapshots_lookup transaction_new_def split: option.splits if_splits
      dest!: snapshots_putD record_write_fields(3) [THEN subsetD] abort_fields(3) [THEN subsetD]
        snapshots_upd(7) [THEN subsetD])

lemma step_snapshot_of:
  "istep_at p th s = Some s' \<Longrightarrow> snapshot_of (ist_pc s' th) = Some r \<Longrightarrow>
     r \<in> snapshots (ist_tm s) \<or> r = clock s \<or> snapshot_of p = Some r"
  using snapshots_lookup
  by (cases p) (auto simp: Let_def split: istep_splits)

lemma step_stamp_of:
  "istep_at p th s = Some s' \<Longrightarrow> stamp_of (ist_pc s' th) = Some (r, c) \<Longrightarrow>
     stamp_of p = Some (r, c) \<or> (\<exists>i ws. p = CommitLocked i r ws \<and> c = clock s + 1)"
  by (cases p) (auto simp: Let_def oracle_next_def split: istep_splits)

lemma step_published:
  "istep_at p th s = Some s' \<Longrightarrow> ist_published s' = ist_published s
     \<or> (\<exists>i r ws c. p = CommitRecorded i r ws c \<and> stamp_of (ist_pc s' th) = None
         \<and> snapshot_of (ist_pc s' th) = None
         \<and> ist_published s' = ist_published s
             @ [\<lparr>ce_txn = i, ce_read = r, ce_commit = c, ce_writes = ws\<rparr>])"
  by (cases p) (auto simp: Let_def split: istep_splits)


lemma stamped_critical: "stamp_of p = Some x \<Longrightarrow> critical p" by (cases p) auto

lemma validated_critical: "validated p = Some x \<Longrightarrow> critical p" by (cases p) auto

lemma clock_step:
  assumes step: "istep_at (ist_pc s th) th s = Some s'"
    and inv: "lock_inv s" "clock_inv s" and room: "clock s \<noteq> - 1"
  shows "clock_inv s'"
proof -
  let ?p = "ist_pc s th"
  have up: "clock s < clock s + 1" by (rule word_less_Suc [OF room])
  have mono: "clock s \<le> clock s'"
    using step_clock [OF step] up by (cases ?p) (auto simp: less_imp_le)
  have old: "r \<le> clock s" if "r \<in> snapshots (ist_tm s) \<or> snapshot_of (ist_pc s t) = Some r" for r t
    using inv(2) that by (auto simp: clock_inv_def)
  have stamp: "r < c" "c \<le> clock s" "\<forall>e\<in>set (ist_published s). ce_commit e < c"
    if "stamp_of (ist_pc s t) = Some (r, c)" for t r c
    using inv(2) that by (auto simp: clock_inv_def)
  have pub: "ce_read e < ce_commit e" "ce_commit e \<le> clock s" if "e \<in> set (ist_published s)" for e
    using inv(2) that by (auto simp: clock_inv_def)
  have 1: "r \<le> clock s'" if "r \<in> snapshots (ist_tm s')" for r
    using that step_snapshots [OF step] old [of r th] mono by (auto intro: order_trans)
  have 2: "r \<le> clock s'" if "snapshot_of (ist_pc s' t) = Some r" for t r
  proof (cases "t = th")
    case True
    then have "r \<le> clock s" using step_snapshot_of [OF step] that old by blast
    then show ?thesis using mono by order
  next
    case False
    then have "r \<le> clock s" using istep_pc [OF step] that old by metis
    then show ?thesis using mono by order
  qed
  have 3: "r < c \<and> c \<le> clock s' \<and> (\<forall>e\<in>set (ist_published s'). ce_commit e < c)"
    if st: "stamp_of (ist_pc s' t) = Some (r, c)" for t r c
  proof (cases "t = th")
    case True
    then have same: "ist_published s' = ist_published s" using step_published [OF step] st by auto
    consider "stamp_of ?p = Some (r, c)" | i ws where "?p = CommitLocked i r ws" "c = clock s + 1"
      using step_stamp_of [OF step] st True by blast
    then show ?thesis
    proof cases
      case 1
      then show ?thesis using stamp [OF 1] same mono by auto
    next
      case 2
      then have "r \<le> clock s" "clock s' = c" using old [of r th] step_clock [OF step] by auto
      then show ?thesis using 2 up pub same by (metis order_le_less_trans order_refl)
    qed
  next
    case False
    then have st0: "stamp_of (ist_pc s t) = Some (r, c)" using istep_pc [OF step] st by metis
    have "\<not> critical ?p" using critical_unique [OF inv(1), of t th] stamped_critical [OF st0] False by blast
    then have "ist_published s' = ist_published s" using step_published [OF step] by auto
    then show ?thesis using stamp [OF st0] mono by auto
  qed
  have 4: "ce_read e < ce_commit e \<and> ce_commit e \<le> clock s'" if "e \<in> set (ist_published s')" for e
    using step_published [OF step]
  proof
    assume "ist_published s' = ist_published s"
    then show ?thesis using pub [of e] that mono by auto
  next
    assume "\<exists>i r ws c. ?p = CommitRecorded i r ws c \<and> stamp_of (ist_pc s' th) = None
      \<and> snapshot_of (ist_pc s' th) = None \<and> ist_published s'
        = ist_published s @ [\<lparr>ce_txn = i, ce_read = r, ce_commit = c, ce_writes = ws\<rparr>]"
    then obtain i r ws c where r: "?p = CommitRecorded i r ws c" "ist_published s'
        = ist_published s @ [\<lparr>ce_txn = i, ce_read = r, ce_commit = c, ce_writes = ws\<rparr>]" by blast
    then have "r < c" "c \<le> clock s" using stamp [of th r c] by auto
    then show ?thesis using that r(2) pub [of e] mono by auto
  qed
  show ?thesis unfolding clock_inv_def using 1 2 3 4 by blast
qed

lemma step_validated:
  "istep_at p th s = Some s' \<Longrightarrow> validated (ist_pc s' th) = Some (r, ws) \<Longrightarrow>
     validated p = Some (r, ws) \<or> \<not> write_conflict (map_of (ctm_latest_writes (ist_tm s))) r ws"
  by (cases p) (auto simp: Let_def split: istep_splits)

lemma step_latest:
  "istep_at p th s = Some s' \<Longrightarrow> \<not> ist_collected s' \<Longrightarrow> \<not> ist_collected s
     \<and> (case p of CommitRecorded _ _ _ _ \<Rightarrow> True | _ \<Rightarrow>
          map_of (ctm_latest_writes (ist_tm s')) = map_of (ctm_latest_writes (ist_tm s))
          \<and> ist_published s' = ist_published s)"
  by (cases p) (auto simp: Let_def record_write_fields abort_fields notify_fields
      split: istep_splits)

lemma conflict_publish:
  assumes p: "ist_pc s th = CommitRecorded i r ws c"
    and step: "istep_at (ist_pc s th) th s = Some s'"
    and inv: "lock_inv s" "clock_inv s" "conflict_inv s"
  shows "conflict_inv s'"
proof -
  let ?l = "map_of (ctm_latest_writes (ist_tm s))"
  let ?e = "\<lparr>ce_txn = i, ce_read = r, ce_commit = c, ce_writes = ws\<rparr>"
  have l': "map_of (ctm_latest_writes (ist_tm s')) k = (if k \<in> set ws then Some c else ?l k)" for k
    using step p publish_writes_map [of c ws "ctm_latest_writes (ist_tm s)"]
    by (auto simp: Let_def fold_latest split: prod.splits)
  have pub': "ist_published s' = ist_published s @ [?e]" "validated (ist_pc s' th) = None"
    using step p by (auto simp: Let_def split: prod.splits)
  have "validated (ist_pc s th) = Some (r, ws)" using p by simp
  then have nc: "\<not> write_conflict ?l r ws" using inv(3) unfolding conflict_inv_def by blast
  have c: "ce_commit e < c" if "e \<in> set (ist_published s)" for e
    using inv(2) p that unfolding clock_inv_def by (metis stamp_of.simps(3))
  have ent: "\<exists>m. ?l k = Some m \<and> ce_commit e \<le> m" if "e \<in> set (ist_published s)"
    "k \<in> set (ce_writes e)" for e k
    using inv(3) that by (auto simp: conflict_inv_def)
  have none: "validated (ist_pc s' t) = None" for t
  proof (rule ccontr)
    assume a: "validated (ist_pc s' t) \<noteq> None"
    then have "t \<noteq> th" using pub' by auto
    then have "critical (ist_pc s t)" using a istep_pc [OF step] validated_critical by auto
    then show False using critical_unique [OF inv(1), of t th] p \<open>t \<noteq> th\<close> by simp
  qed
  have iso: "isolated_pair e ?e" if e: "e \<in> set (ist_published s)" for e
  proof -
    have "ce_commit e \<le> r" if "k \<in> set (ce_writes e)" "k \<in> set ws" for k
      using ent [OF e that(1)] nc that(2) unfolding write_conflict_iff
      by (meson not_less order_trans)
    then show ?thesis using c [OF e] by (auto simp: isolated_pair_def)
  qed
  have "sorted_wrt isolated_pair (ist_published s')"
    using inv(3) iso unfolding pub' by (simp add: sorted_wrt_append conflict_inv_def)
  moreover have "\<exists>m. map_of (ctm_latest_writes (ist_tm s')) k = Some m \<and> ce_commit e \<le> m"
    if "e \<in> set (ist_published s')" "k \<in> set (ce_writes e)" for e k
    using that ent [of e k] c [of e] unfolding pub' l' by (auto simp: less_imp_le)
  ultimately show ?thesis using none by (auto simp: conflict_inv_def)
qed

lemma conflict_step:
  assumes step: "istep_at (ist_pc s th) th s = Some s'" and quiet: "\<not> ist_collected s'"
    and inv: "lock_inv s" "clock_inv s" "conflict_inv s"
  shows "conflict_inv s'"
proof (cases "\<exists>i r ws c. ist_pc s th = CommitRecorded i r ws c")
  case True
  then show ?thesis using conflict_publish [OF _ step inv] by blast
next
  case False
  then have same: "map_of (ctm_latest_writes (ist_tm s')) = map_of (ctm_latest_writes (ist_tm s))"
    "ist_published s' = ist_published s"
    using step_latest [OF step quiet] by (auto split: control.splits)
  have "\<not> write_conflict (map_of (ctm_latest_writes (ist_tm s))) r ws"
    if "validated (ist_pc s' t) = Some (r, ws)" for t r ws
    using that step_validated [OF step, of r ws] istep_pc [OF step, of t] inv(3)
    by (cases "t = th") (auto simp: conflict_inv_def)
  then show ?thesis using inv(3) by (simp add: conflict_inv_def same)
qed


lemma step_answers:
  "istep_at p th s = Some s' \<Longrightarrow> published_as (ist_pc s' th) = Some c \<Longrightarrow>
     published_as p = Some c \<or> c \<in> ce_commit ` set (ist_published s')"
  by (cases p) (auto simp: Let_def split: istep_splits)

definition answers_inv :: "istate \<Rightarrow> bool" where
  "answers_inv s \<longleftrightarrow> (\<forall>th c. published_as (ist_pc s th) = Some c
     \<longrightarrow> c \<in> ce_commit ` set (ist_published s))"

lemma answers_step:
  assumes step: "istep_at (ist_pc s th) th s = Some s'" and inv: "answers_inv s"
  shows "answers_inv s'"
proof -
  have grow: "set (ist_published s) \<subseteq> set (ist_published s')" using step_published [OF step] by auto
  have "c \<in> ce_commit ` set (ist_published s')" if "published_as (ist_pc s' t) = Some c" for t c
  proof -
    have "published_as (ist_pc s t) = Some c \<or> c \<in> ce_commit ` set (ist_published s')"
      using that step_answers [OF step, of c] istep_pc [OF step, of t] by (cases "t = th") auto
    then show ?thesis using inv grow unfolding answers_inv_def by (metis image_mono subsetD)
  qed
  then show ?thesis by (simp add: answers_inv_def)
qed

lemma entry_point_fresh [simp]:
  "snapshot_of (entry_point c) = None" "stamp_of (entry_point c) = None"
  "validated (entry_point c) = None" "published_as (entry_point c) = None"
  by (cases c; simp)+

lemma call_inv:
  "clock_inv s \<Longrightarrow> clock_inv (goto th (entry_point c) s)"
  "conflict_inv s \<Longrightarrow> conflict_inv (goto th (entry_point c) s)"
  "answers_inv s \<Longrightarrow> answers_inv (goto th (entry_point c) s)"
  by (auto simp: clock_inv_def conflict_inv_def answers_inv_def)

lemma iact_call: "iact (Call th c) s = Some s' \<Longrightarrow> s' = goto th (entry_point c) s"
  by (cases "ist_pc s th") auto

lemma irun_inv:
  "irun as (istart n) = Some s \<Longrightarrow> length as < 2 ^ 64 - 2 \<Longrightarrow>
     lock_inv s \<and> clock_inv s \<and> answers_inv s \<and> unat (clock s) \<le> 1 + length as
     \<and> (\<not> ist_collected s \<longrightarrow> conflict_inv s)"
proof (induction as arbitrary: s rule: rev_induct)
  case Nil
  then have s: "s = istart n" by simp
  show ?case unfolding s
    by (simp add: istart_def lock_inv_def clock_inv_def answers_inv_def conflict_inv_def
        snapshots_def ctm_with_gc_interval_def)
next
  case (snoc a as)
  obtain s0 where s0: "irun as (istart n) = Some s0" "iact a s0 = Some s"
    using snoc.prems(1) by (auto simp: irun_append split: option.splits)
  have ih: "lock_inv s0" "clock_inv s0" "answers_inv s0" "unat (clock s0) \<le> 1 + length as"
    "\<not> ist_collected s0 \<Longrightarrow> conflict_inv s0"
    using snoc.IH [OF s0(1)] snoc.prems(2) by auto
  note lock = iact_lock [OF s0(2) ih(1)]
  show ?case
  proof (cases a)
    case (Call th c)
    then have s: "s = goto th (entry_point c) s0" using iact_call s0(2) by simp
    show ?thesis using ih lock call_inv by (auto simp: s)
  next
    case (Step th)
    then have st: "istep_at (ist_pc s0 th) th s0 = Some s" using s0(2) by simp
    have room: "clock s0 \<noteq> - 1"
    proof
      assume "clock s0 = - 1"
      then have "unat (clock s0) = 2 ^ 64 - 1" by (simp add: unsigned_minus_1_eq_mask mask_eq_exp_minus_1)
      then show False using ih(4) snoc.prems(2) by simp
    qed
    have "unat (clock s0 + 1) \<le> Suc (unat (clock s0))" by (simp add: unat_word_ariths)
    then have clock: "unat (clock s) \<le> 1 + length (as @ [a])"
      using step_clock [OF st] ih(4) by (cases "ist_pc s0 th") auto
    have conflict: "conflict_inv s" if q: "\<not> ist_collected s"
    proof -
      have "\<not> ist_collected s0" using step_latest [OF st q] by simp
      then show ?thesis using conflict_step [OF st q ih(1,2)] ih(5) by simp
    qed
    show ?thesis
      using lock clock_step [OF st ih(1,2) room] answers_step [OF st ih(3)] clock conflict by simp
  qed
qed

section \<open>A commit that runs alone is the atomic commit\<close>

abbreviation alone :: "nat \<Rightarrow> nat \<Rightarrow> istate \<Rightarrow> istate option" where
  "alone k th s \<equiv> irun (replicate k (Step th)) s"

lemma alone_Suc: "alone (Suc k) th s
    = (case istep_at (ist_pc s th) th s of None \<Rightarrow> None | Some s' \<Rightarrow> alone k th s')"
  by simp

lemma alone_0: "alone 0 th s = Some s" by simp

lemma goto_pc [simp]: "ist_pc (goto th p s) th = p" by simp

lemma run_gc_steps:
  "run_gc m = (let a = ctm_min_active m;
       r = remove_keys (map fst (filter (\<lambda>(_, ts). ts < a) (ctm_latest_writes m)))
             (ctm_gc_update (\<lambda>g. set_min_active_ts g a) m)
     in (fst r, ctm_gc_update (record_gc ^^ fst r)
          (ctm_txns_update (filter (\<lambda>(_, t). \<not> (tx_state t \<noteq> Active \<and> tx_read_ts t < a)))
            (ctm_committed_ts_update (\<lambda>c. {ts \<in> c. \<not> ts < a}) (snd r)))))"
proof -
  let ?a = "ctm_min_active m"
  have gc: "m\<lparr>ctm_gc := set_min_active_ts (ctm_gc m) ?a\<rparr> = ctm_gc_update (\<lambda>g. set_min_active_ts g ?a) m"
    by (cases m) simp
  have rest: "x\<lparr>ctm_committed_ts := {ts \<in> ctm_committed_ts x. \<not> ts < ?a},
        ctm_txns := filter (\<lambda>(_, t). \<not> (tx_state t \<noteq> Active \<and> tx_read_ts t < ?a)) (ctm_txns x),
        ctm_gc := (record_gc ^^ n) (ctm_gc x)\<rparr>
      = ctm_gc_update (record_gc ^^ n)
          (ctm_txns_update (filter (\<lambda>(_, t). \<not> (tx_state t \<noteq> Active \<and> tx_read_ts t < ?a)))
            (ctm_committed_ts_update (\<lambda>c. {ts \<in> c. \<not> ts < ?a}) x))" for x n
    by (cases x) simp
  have latest: "ctm_latest_writes (ctm_gc_update f m) = ctm_latest_writes m" for f by simp
  show ?thesis unfolding run_gc_def Let_def gc latest by (simp only: split_def rest [unfolded split_def] fst_conv snd_conv)
qed

lemma gc_alone:
  assumes "ist_pc s th = GcCalled caller" "ist_lock s = None"
  shows "\<exists>s'. alone 6 th s = Some s' \<and> ist_tm s' = snd (run_gc (ist_tm s)) \<and> ist_lock s' = None
    \<and> ist_pc s' th = (case caller of Some c \<Rightarrow> GcDone c
        | None \<Rightarrow> Idle (Some (GcAnswer (fst (run_gc (ist_tm s))))))"
proof -
  have six: "6 = Suc (Suc (Suc (Suc (Suc (Suc 0)))))" by simp
  show ?thesis unfolding six
    using assms
    by (auto simp: alone_Suc alone_0 Let_def split_def run_gc_steps
        simp del: replicate.simps split: option.splits)
qed


text \<open>What an accepted commit does before the periodic collection is considered.\<close>

definition published_tm :: "u64 \<Rightarrow> transaction \<Rightarrow> concurrent_tm \<Rightarrow> concurrent_tm" where
  "published_tm i t m =
     (let c = oracle_current (ctm_oracle m) + 1;
          m = ctm_put (m\<lparr>ctm_oracle := TimestampOracle c\<rparr>) i
            (t\<lparr>tx_commit_ts := Some c, tx_state := Committed\<rparr>);
          (latest, superseded) = publish_writes c (tx_write_set t) (ctm_latest_writes m)
      in notify_superseded superseded
           (ctm_latest_writes_update (\<lambda>_. latest) (ctm_committed_ts_update (insert c) m)))"

lemma commit_accepted:
  assumes "map_of (ctm_txns m) i = Some t" "tx_state t = Active \<or> tx_state t = Validation"
    "\<not> write_conflict (map_of (ctm_latest_writes m)) (tx_read_ts t) (tx_write_set t)"
  shows "ctm_commit m i = (Ok (oracle_current (ctm_oracle m) + 1), periodic_gc (published_tm i t m))"
proof -
  have upd: "x\<lparr>ctm_committed_ts := insert c (ctm_committed_ts x), ctm_latest_writes := l\<rparr>
      = ctm_latest_writes_update (\<lambda>_. l) (ctm_committed_ts_update (insert c) x)" for x :: concurrent_tm and c l
    by (cases x) simp
  show ?thesis
    using assms by (auto simp: ctm_commit_def published_tm_def oracle_next_def Let_def split_def upd)
qed

lemma publish_alone:
  assumes "ist_pc s th = CommitCalled i" "ist_lock s = None"
    and t: "map_of (ctm_txns (ist_tm s)) i = Some t" "tx_state t = Active \<or> tx_state t = Validation"
    "\<not> write_conflict (map_of (ctm_latest_writes (ist_tm s))) (tx_read_ts t) (tx_write_set t)"
  shows "\<exists>s'. alone 7 th s = Some s' \<and> ist_tm s' = published_tm i t (ist_tm s) \<and> ist_lock s' = None
    \<and> ist_pc s' th = CommitNotified (clock s + 1)"
proof -
  have seven: "7 = Suc (Suc (Suc (Suc (Suc (Suc (Suc 0))))))" by simp
  have "tx_state t \<noteq> Aborted" using t(2) by auto
  then show ?thesis unfolding seven
    using assms
    by (auto simp: alone_Suc alone_0 Let_def split_def published_tm_def oracle_next_def
        simp del: replicate.simps)
qed

lemma commit_tail_alone:
  assumes "ist_pc s th = CommitNotified c" "ist_lock s = None"
  shows "\<exists>k s'. alone k th s = Some s' \<and> ist_tm s' = periodic_gc (ist_tm s) \<and> ist_lock s' = None
    \<and> ist_pc s' th = Idle (Some (CommitAnswer (Ok c)))"
proof -
  let ?n = "ctm_commits_since_gc (ist_tm s) + 1"
  let ?m = "ctm_commits_since_gc_update (\<lambda>_. ?n) (ist_tm s)"
  let ?due = "?n \<ge> ctm_gc_interval (ist_tm s)"
  let ?s1 = "goto th (if ?due then GcCalled (Some c) else Idle (Some (CommitAnswer (Ok c))))
    (upd_tm (ctm_commits_since_gc_update (\<lambda>_. ?n)) s)"
  have 1: "alone (Suc 0) th s = Some ?s1"
    using assms by (simp add: alone_Suc alone_0 Let_def del: replicate.simps)
  show ?thesis
  proof (cases ?due)
    case False
    show ?thesis
    proof (intro exI conjI)
      show "alone (Suc 0) th s = Some ?s1" by (rule 1)
    qed (use False assms in \<open>auto simp: periodic_gc_def Let_def\<close>)
  next
    case True
    then obtain s2 where s2: "alone 6 th ?s1 = Some s2" "ist_tm s2 = snd (run_gc ?m)"
        "ist_lock s2 = None" "ist_pc s2 th = GcDone c"
      using gc_alone [of ?s1 th "Some c"] assms by auto
    have 3: "alone (Suc 0 + (6 + Suc 0)) th s = Some (goto th (Idle (Some (CommitAnswer (Ok c))))
        (upd_tm (ctm_commits_since_gc_update (\<lambda>_. 0)) s2))"
      unfolding replicate_add irun_append 1 option.case s2(1)
      using s2(4) by (simp add: alone_Suc alone_0 del: replicate.simps)
    show ?thesis
    proof (intro exI conjI)
      show "alone (Suc 0 + (6 + Suc 0)) th s = Some (goto th (Idle (Some (CommitAnswer (Ok c))))
        (upd_tm (ctm_commits_since_gc_update (\<lambda>_. 0)) s2))" by (rule 3)
    qed (use True s2 in \<open>simp_all add: periodic_gc_def Let_def\<close>)
  qed
qed

lemma commit_alone:
  assumes pc: "ist_pc s th = CommitCalled i" "ist_lock s = None"
  shows "\<exists>k s'. alone k th s = Some s' \<and> ist_tm s' = snd (ctm_commit (ist_tm s) i) \<and> ist_lock s' = None
    \<and> ist_pc s' th = Idle (Some (CommitAnswer (fst (ctm_commit (ist_tm s) i))))"
proof (cases "\<exists>t. map_of (ctm_txns (ist_tm s)) i = Some t
    \<and> (tx_state t = Active \<or> tx_state t = Validation)")
  case False
  then have 1: "alone (Suc 0) th s = Some (goto th
      (Idle (Some (CommitAnswer (fst (ctm_commit (ist_tm s) i))))) s)"
    and same: "snd (ctm_commit (ist_tm s) i) = ist_tm s"
    using pc by (auto simp: alone_Suc alone_0 ctm_commit_def simp del: replicate.simps
        split: option.splits transaction_state.splits)
  show ?thesis
  proof (intro exI conjI)
    show "alone (Suc 0) th s = Some (goto th
        (Idle (Some (CommitAnswer (fst (ctm_commit (ist_tm s) i))))) s)" by (rule 1)
  qed (simp_all add: same pc)
next
  case True
  then obtain t where t: "map_of (ctm_txns (ist_tm s)) i = Some t"
    "tx_state t = Active \<or> tx_state t = Validation" by blast
  show ?thesis
  proof (cases "write_conflict (map_of (ctm_latest_writes (ist_tm s))) (tx_read_ts t) (tx_write_set t)")
    case True
    have "\<exists>s'. alone (Suc (Suc (Suc 0))) th s = Some s' \<and> ist_lock s' = None
        \<and> ist_tm s' = ctm_put (ist_tm s) i (t\<lparr>tx_state := Aborted\<rparr>)
        \<and> ist_pc s' th = Idle (Some (CommitAnswer (Err MvccConflict)))"
      using pc t True by (auto simp: alone_Suc alone_0 simp del: replicate.simps)
    moreover have "ctm_commit (ist_tm s) i
        = (Err MvccConflict, ctm_put (ist_tm s) i (t\<lparr>tx_state := Aborted\<rparr>))"
      using t True by (auto simp: ctm_commit_def)
    ultimately show ?thesis by (metis fst_conv snd_conv)
  next
    case False
    obtain s1 where s1: "alone 7 th s = Some s1" "ist_tm s1 = published_tm i t (ist_tm s)"
        "ist_lock s1 = None" "ist_pc s1 th = CommitNotified (clock s + 1)"
      using publish_alone [OF pc t False] by blast
    obtain k s2 where s2: "alone k th s1 = Some s2" "ist_tm s2 = periodic_gc (ist_tm s1)"
        "ist_lock s2 = None" "ist_pc s2 th = Idle (Some (CommitAnswer (Ok (clock s + 1))))"
      using commit_tail_alone [OF s1(4,3)] by blast
    have "alone (7 + k) th s = Some s2" by (simp add: replicate_add irun_append s1 s2)
    then show ?thesis using s1 s2 commit_accepted [OF t False] by (intro exI conjI) auto
  qed
qed


section \<open>Properties\<close>

text \<open>C5:
  Mutual exclusion. Whatever threads call and in whatever order their steps are taken, at most
  one thread is in the validate-and-publish section of a commit, and it is the one recorded as
  holding the write lock of the table of latest writes.
\<close>

theorem commit_sections_exclusive:
  assumes "ireach n s"
  shows "(critical (ist_pc s a) \<longrightarrow> critical (ist_pc s b) \<longrightarrow> a = b)
    \<and> (ist_lock s = Some a \<longleftrightarrow> critical (ist_pc s a))"
  using ireach_lock [OF assms] critical_unique [of s a b] unfolding lock_inv_def by blast

definition two_committers :: "action list" where
  "two_committers = [Call 0 (CallBegin Snapshot), Step 0, Step 0, Step 0,
     Call 0 (CallWrite 1 [7]), Step 0, Call 0 (CallCommit 1), Step 0, Step 0, Step 0]"

definition first_stamped :: istate where
  "first_stamped = the (irun two_committers (istart 100))"

lemma irun_the: "\<not> Option.is_none (irun as s) \<Longrightarrow> irun as s = Some (the (irun as s))"
  by (cases "irun as s") simp_all

lemma first_stamped_run: "irun two_committers (istart 100) = Some first_stamped"
  unfolding first_stamped_def by (rule irun_the) code_simp

lemma first_stamped:
  "ist_pc first_stamped 0 = CommitStamped 1 1 [[7]] 2"
  "ctm_oracle (ist_tm first_stamped) = TimestampOracle 2"
  "map_of (ctm_txns (ist_tm first_stamped)) 1 = Some \<lparr>tx_txn_id = 1, tx_read_ts = 1,
     tx_commit_ts = None, tx_state = Active, tx_isolation = Snapshot, tx_write_set = [[7]]\<rparr>"
  "ctm_committed_ts (ist_tm first_stamped) = {}" "ist_pc first_stamped 1 = Idle None"
  "ctm_next_txn_id (ist_tm first_stamped) = 2"
  by code_simp+

theorem commit_sections_exclusive_witness: "ist_lock first_stamped = Some 0"
  using commit_sections_exclusive [OF irun_reach [OF first_stamped_run ireach_start], of 0 0]
  by (simp add: first_stamped)

text \<open>C6:
  Every call returns. In every reachable state, however the other threads are paused, there is
  a schedule of at most thirty further steps that needs no new call and completes the call of
  any given thread: no interleaving deadlocks.
\<close>

theorem every_call_can_return:
  assumes "ireach n s"
  shows "\<exists>as s'. irun as s = Some s' \<and> length as \<le> 30 \<and> (\<forall>a\<in>set as. \<exists>t. a = Step t)
    \<and> (\<exists>answer. ist_pc s' th = Idle answer)"
  using finish_call [OF ireach_lock [OF assms], of th] steps_left_0 by meson

theorem every_call_can_return_witness:
  "\<exists>as s'. irun as first_stamped = Some s' \<and> length as \<le> 30 \<and> (\<forall>a\<in>set as. \<exists>t. a = Step t)
    \<and> (\<exists>answer. ist_pc s' 0 = Idle answer)"
  by (rule every_call_can_return [OF irun_reach [OF first_stamped_run ireach_start]])

text \<open>
  Termination of the calls. In every run of the threads, whatever the interleaving, a thread
  takes at most fifteen steps for each call it makes.
\<close>

lemma steps_per_call_bounded:
  assumes "irun as (istart n) = Some s"
  shows "steps_of th as \<le> 15 * calls_of th as"
proof -
  have "steps_of th as + steps_left (ist_pc s th)
      \<le> 15 * calls_of th as + steps_left (ist_pc (istart n) th)"
    using assms by (rule steps_bound)
  then show ?thesis by (simp add: istart_def)
qed

lemma steps_per_call_bounded_witness: "steps_of 0 two_committers \<le> 15 * calls_of 0 two_committers"
  by (rule steps_per_call_bounded [OF first_stamped_run])

text \<open>C4:
  Snapshot isolation under concurrency. In every run in which no collection has removed
  entries, of any two published commits that wrote a common key the later one started from a
  snapshot that contains the earlier, every commit timestamp exceeds the snapshot it was
  validated against, and every successful answer a thread got is a published commit.
\<close>

theorem interleaved_snapshot_isolation:
  assumes "irun as (istart n) = Some s" "length as < 2 ^ 64 - 2" "\<not> ist_collected s"
  shows "sorted_wrt isolated_pair (ist_published s)
    \<and> (\<forall>e\<in>set (ist_published s). ce_read e < ce_commit e)
    \<and> (\<forall>th c. ist_pc s th = Idle (Some (CommitAnswer (Ok c)))
        \<longrightarrow> c \<in> ce_commit ` set (ist_published s))"
proof -
  have "clock_inv s" "answers_inv s" "conflict_inv s" using irun_inv [OF assms(1,2)] assms(3) by auto
  then show ?thesis unfolding clock_inv_def answers_inv_def conflict_inv_def
    by (metis published_as.simps(10))
qed

definition serial_writers :: "action list" where
  "serial_writers = two_committers @ replicate 5 (Step 0)
     @ [Call 1 (CallBegin Snapshot), Step 1, Step 1, Step 1, Call 1 (CallWrite 2 [7]), Step 1,
        Call 1 (CallCommit 2)] @ replicate 8 (Step 1)"

theorem interleaved_snapshot_isolation_witness:
  "sorted_wrt isolated_pair (ist_published (the (irun serial_writers (istart 100))))
     \<and> map ce_commit (ist_published (the (irun serial_writers (istart 100)))) = [2, 3]"
proof -
  let ?s = "the (irun serial_writers (istart 100))"
  have "irun serial_writers (istart 100) = Some ?s" by (rule irun_the) code_simp
  moreover have "\<not> ist_collected ?s" "map ce_commit (ist_published ?s) = [2, 3]" by code_simp+
  moreover have "length serial_writers < 2 ^ 64 - 2" by (simp add: serial_writers_def two_committers_def)
  ultimately show ?thesis using interleaved_snapshot_isolation [of serial_writers 100 ?s] by blast
qed

text \<open>
  Atomicity when alone. A commit whose steps are not interrupted, started while no other thread
  is in the critical section, returns what the atomic commit returns and leaves its state,
  the periodic collection included.
\<close>

lemma uninterrupted_commit_is_atomic:
  assumes "ist_pc s th = Idle a" "ist_lock s = None"
  shows "\<exists>k s'. irun (Call th (CallCommit i) # replicate k (Step th)) s = Some s'
    \<and> ist_tm s' = snd (ctm_commit (ist_tm s) i)
    \<and> ist_pc s' th = Idle (Some (CommitAnswer (fst (ctm_commit (ist_tm s) i))))"
proof -
  obtain k s' where "alone k th (goto th (CommitCalled i) s) = Some s'"
      "ist_tm s' = snd (ctm_commit (ist_tm s) i)"
      "ist_pc s' th = Idle (Some (CommitAnswer (fst (ctm_commit (ist_tm s) i))))"
    using commit_alone [of "goto th (CommitCalled i) s" th i] assms(2) by auto
  then show ?thesis using assms(1) by (intro exI [of _ k] exI [of _ s']) simp
qed

lemma uninterrupted_commit_is_atomic_witness:
  "\<exists>k s'. irun (Call 0 (CallCommit 1) # replicate k (Step 0)) (istart 100) = Some s'
    \<and> ist_tm s' = snd (ctm_commit ctm_new 1)"
  using uninterrupted_commit_is_atomic [of "istart 100" 0 None 1]
  by (auto simp: istart_def ctm_new_def)

text \<open>
  An unstable snapshot. Commit takes its timestamp before it records it: a transaction that
  begins between the two steps gets a snapshot that includes the commit, and a version of that
  commit, invisible when the transaction starts, becomes visible while it runs.
\<close>

lemma snapshot_changes_during_transaction:
  assumes "ist_pc s th = CommitStamped i r ws c" "ctm_oracle (ist_tm s) = TimestampOracle c"
    "map_of (ctm_txns (ist_tm s)) i = Some t" "tx_state t \<noteq> Aborted"
    "c \<notin> ctm_committed_ts (ist_tm s)" "ist_pc s th' = Idle a"
    "vh_begin_ts v = c" "vh_end_ts v = LIVE" "vh_txn_id v \<noteq> ctm_next_txn_id (ist_tm s)" "c < LIVE"
    "ctm_next_txn_id (ist_tm s) \<noteq> i"
  shows "\<exists>s1 s2. irun [Call th' (CallBegin lvl), Step th', Step th', Step th'] s = Some s1
    \<and> ist_pc s1 th' = Idle (Some (Began (ctm_next_txn_id (ist_tm s))))
    \<and> ctm_read_ts (ist_tm s1) (ctm_next_txn_id (ist_tm s)) = Some c
    \<and> \<not> is_visible_to v c (ctm_next_txn_id (ist_tm s)) (ctm_is_committed (ist_tm s1))
    \<and> irun [Step th, Step th] s1 = Some s2
    \<and> is_visible_to v c (ctm_next_txn_id (ist_tm s)) (ctm_is_committed (ist_tm s2))"
proof -
  have "th' \<noteq> th" using assms(1,6) by auto
  then show ?thesis
    using assms
    by (simp add: Let_def ctm_put_def ctm_read_ts_def update_conv' transaction_new_def
        is_visible_to_def ctm_is_committed_def)
qed

lemma snapshot_changes_during_transaction_witness:
  "\<exists>s1 s2. irun [Call 1 (CallBegin Snapshot), Step 1, Step 1, Step 1] first_stamped = Some s1
    \<and> \<not> is_visible_to \<lparr>vh_begin_ts = 2, vh_end_ts = LIVE, vh_txn_id = 1, vh_prev_version_off = 0\<rparr>
         2 2 (ctm_is_committed (ist_tm s1))
    \<and> irun [Step 0, Step 0] s1 = Some s2
    \<and> is_visible_to \<lparr>vh_begin_ts = 2, vh_end_ts = LIVE, vh_txn_id = 1, vh_prev_version_off = 0\<rparr>
         2 2 (ctm_is_committed (ist_tm s2))"
  using snapshot_changes_during_transaction [of first_stamped 0 1 1 "[[7]]" 2
      "\<lparr>tx_txn_id = 1, tx_read_ts = 1, tx_commit_ts = None, tx_state = Active,
        tx_isolation = Snapshot, tx_write_set = [[7]]\<rparr>" 1 None
      "\<lparr>vh_begin_ts = 2, vh_end_ts = LIVE, vh_txn_id = 1, vh_prev_version_off = 0\<rparr>" Snapshot]
  by (simp add: first_stamped LIVE_def del: irun.simps One_nat_def) blast

definition stale_collection :: "action list" where
  "stale_collection =
     [Call 0 (CallBegin Snapshot), Step 0, Step 0, Step 0, Call 0 (CallWrite 1 [7]), Step 0,
      Call 0 (CallCommit 1)] @ replicate 8 (Step 0)
     @ [Call 0 (CallBegin Snapshot), Step 0, Step 0, Step 0, Call 0 (CallCommit 2)] @ replicate 8 (Step 0)
     @ [Call 9 CallRunGc, Step 9, Step 9,
        Call 1 (CallBegin Snapshot), Step 1, Step 1, Step 1, Call 1 (CallWrite 3 [7]), Step 1,
        Call 2 (CallBegin Snapshot), Step 2, Step 2, Step 2, Call 2 (CallWrite 4 [7]), Step 2,
        Call 1 (CallCommit 3)] @ replicate 8 (Step 1)
     @ [Step 9, Call 2 (CallCommit 4)] @ replicate 8 (Step 2)"

text \<open>
  A lost update through collection. A pass lists the keys to drop, lets go of the lock and
  removes them later without looking at their timestamps again. In this run a commit replaces
  the entry in between; the pass removes the new entry (and reports that live version as
  removable), and a second transaction with the same snapshot then overwrites the same key
  without a conflict.
\<close>

lemma stale_collection_loses_update:
  "map_option (\<lambda>s. (map (\<lambda>e. (ce_txn e, ce_read e, ce_commit e, ce_writes e)) (drop 2 (ist_published s)),
       ist_pc s 1, ist_pc s 2))
     (irun stale_collection (istart 100))
   = Some ([(3, 3, 4, [[7]]), (4, 3, 5, [[7]])],
       Idle (Some (CommitAnswer (Ok 4))), Idle (Some (CommitAnswer (Ok 5))))"
  by code_simp

definition double_commit :: "action list" where
  "double_commit = two_committers @ [Call 1 (CallCommit 1), Step 1] @ replicate 5 (Step 0) @ [Step 1, Step 1]"

text \<open>
  Committing twice. Two threads that commit the same transaction both read it as active; the
  first publishes, the second finds the first's timestamp above the snapshot, answers with a
  conflict and marks the committed transaction as aborted.
\<close>

lemma double_commit_marks_aborted:
  "map_option (\<lambda>s. (ist_pc s 0, ist_pc s 1, map_option tx_state (map_of (ctm_txns (ist_tm s)) 1),
       ctm_is_committed (ist_tm s) 2)) (irun double_commit (istart 100))
   = Some (Idle (Some (CommitAnswer (Ok 2))), Idle (Some (CommitAnswer (Err MvccConflict))),
       Some Aborted, True)"
  by code_simp

end
