(* ===== verification/LruK.thy ===== *)
theory LruK
  imports Core "HOL-Library.AList"
begin

text \<open>
  The replacement policy of the buffer pool (\<open>cendb-buffer/src/lru.rs\<close>): LRU-K with
  the last \<open>k\<close> access times of every frame, newest first, and the list of frames
  that may be evicted. The lemmas characterise the victim: a frame with fewer than \<open>k\<close>
  accesses before any other, and among the eligible ones the one whose oldest recorded access
  is least.
\<close>

record lru_k =
  lru_size_k :: nat
  lru_clock :: u64
  lru_history :: "(frame_id \<times> u64 list) list"
  lru_evictable :: "frame_id list"

definition lru_with_k :: "nat \<Rightarrow> (lru_k, unit) outcome" where
  "lru_with_k k = (if k \<ge> 1
     then Ok \<lparr>lru_size_k = k, lru_clock = 0, lru_history = [], lru_evictable = []\<rparr>
     else Panic)"

definition lru_new :: lru_k where
  "lru_new = \<lparr>lru_size_k = 2, lru_clock = 0, lru_history = [], lru_evictable = []\<rparr>"

definition lru_record_access :: "lru_k \<Rightarrow> frame_id \<Rightarrow> lru_k" where
  "lru_record_access l frame =
     (let clock = lru_clock l + 1;
          hist = clock # (case map_of (lru_history l) frame of Some h \<Rightarrow> h | None \<Rightarrow> []);
          hist = (if length hist > lru_size_k l then butlast hist else hist)
      in l\<lparr>lru_clock := clock, lru_history := AList.update frame hist (lru_history l)\<rparr>)"

definition lru_mark_evictable :: "lru_k \<Rightarrow> frame_id \<Rightarrow> lru_k" where
  "lru_mark_evictable l frame = l\<lparr>lru_evictable := lru_evictable l @ [frame]\<rparr>"

definition lru_forget :: "lru_k \<Rightarrow> frame_id \<Rightarrow> lru_k" where
  "lru_forget l frame = l\<lparr>lru_history := AList.delete frame (lru_history l),
     lru_evictable := filter (\<lambda>f. f \<noteq> frame) (lru_evictable l)\<rparr>"

text \<open>One candidate of the victim scan: the best so far is replaced by a strictly older one.\<close>

fun better :: "(frame_id \<times> u64) option \<Rightarrow> frame_id \<Rightarrow> u64 \<Rightarrow> (frame_id \<times> u64) option" where
  "better None frame oldest = Some (frame, oldest)"
| "better (Some (g, b)) frame oldest =
     (if oldest < b then Some (frame, oldest) else Some (g, b))"

fun victim_loop :: "nat \<Rightarrow> (frame_id \<times> u64 list) list \<Rightarrow> frame_id list
    \<Rightarrow> (frame_id \<times> u64) option \<Rightarrow> (frame_id \<times> u64) option
    \<Rightarrow> ((frame_id \<times> u64) option \<times> (frame_id \<times> u64) option, unit) outcome" where
  "victim_loop k history [] best_scan best_k = Ok (best_scan, best_k)"
| "victim_loop k history (frame # frames) best_scan best_k =
     (case map_of history frame of
        None \<Rightarrow> victim_loop k history frames best_scan best_k
      | Some hist \<Rightarrow>
          if hist = [] then Panic
          else if length hist < k
          then victim_loop k history frames (better best_scan frame (last hist)) best_k
          else victim_loop k history frames best_scan (better best_k frame (last hist)))"

definition swap_remove :: "'a list \<Rightarrow> nat \<Rightarrow> 'a list" where
  "swap_remove xs pos = butlast (xs[pos := last xs])"

definition pick_victim :: "lru_k \<Rightarrow> (frame_id option \<times> lru_k, unit) outcome" where
  "pick_victim l =
     and_then (victim_loop (lru_size_k l) (lru_history l) (lru_evictable l) None None)
       (\<lambda>(best_scan, best_k).
        case (case best_scan of Some v \<Rightarrow> Some v | None \<Rightarrow> best_k) of
          Some (frame, _) \<Rightarrow>
            let l = (case position (\<lambda>f. f = frame) (lru_evictable l) of
                  Some pos \<Rightarrow> l\<lparr>lru_evictable := swap_remove (lru_evictable l) pos\<rparr>
                | None \<Rightarrow> l)
            in Ok (Some frame, l\<lparr>lru_history := AList.delete frame (lru_history l)\<rparr>)
        | None \<Rightarrow> Ok (None, l))"

definition lru_tracked :: "lru_k \<Rightarrow> nat" where
  "lru_tracked l = length (lru_history l)"

definition lru_evictable_count :: "lru_k \<Rightarrow> nat" where
  "lru_evictable_count l = length (lru_evictable l)"

section \<open>Histories are never empty\<close>

abbreviation history_of :: "lru_k \<Rightarrow> frame_id \<Rightarrow> u64 list option" where
  "history_of l f \<equiv> map_of (lru_history l) f"

definition lru_wf :: "lru_k \<Rightarrow> bool" where
  "lru_wf l \<longleftrightarrow> 1 \<le> lru_size_k l
     \<and> (\<forall>f h. history_of l f = Some h \<longrightarrow> h \<noteq> [] \<and> length h \<le> lru_size_k l)"

lemma lru_wf_new [inv_intro]: "lru_wf lru_new"
  by (simp add: lru_wf_def lru_new_def)

lemma lru_record_access_history:
  "history_of (lru_record_access l f) g = (if g = f
     then Some (let h = (lru_clock l + 1) # (case history_of l f of Some h \<Rightarrow> h | None \<Rightarrow> [])
                in if length h > lru_size_k l then butlast h else h)
     else history_of l g)"
  by (simp add: lru_record_access_def Let_def update_conv')

lemma lru_record_access_wf [inv_intro]: "lru_wf l \<Longrightarrow> lru_wf (lru_record_access l f)"
  unfolding lru_wf_def lru_record_access_history
  by (auto simp: lru_record_access_def Let_def split: option.splits if_splits)

lemma lru_mark_evictable_wf [inv_intro]: "lru_wf l \<Longrightarrow> lru_wf (lru_mark_evictable l f)"
  by (simp add: lru_wf_def lru_mark_evictable_def)

lemma lru_forget_wf [inv_intro]: "lru_wf l \<Longrightarrow> lru_wf (lru_forget l f)"
  by (auto simp: lru_wf_def lru_forget_def delete_conv' split: if_splits)

section \<open>The victim\<close>

text \<open>A best candidate covers a set of frames: it is one of them and none is older.\<close>

definition is_best :: "(frame_id \<Rightarrow> u64) \<Rightarrow> frame_id set \<Rightarrow> (frame_id \<times> u64) option \<Rightarrow> bool" where
  "is_best age F b \<longleftrightarrow> (case b of None \<Rightarrow> F = {}
     | Some (f, a) \<Rightarrow> f \<in> F \<and> a = age f \<and> (\<forall>g\<in>F. a \<le> age g))"

lemma is_best_better:
  "is_best age F b \<Longrightarrow> is_best age (insert f F) (better b f (age f))"
proof (cases b)
  case (Some c)
  assume "is_best age F b"
  then obtain g where g: "b = Some (g, age g)" "g \<in> F" "\<forall>q\<in>F. age g \<le> age q"
    using Some by (cases c) (auto simp: is_best_def)
  show ?thesis
  proof (cases "age f < age g")
    case True
    then have "\<forall>q\<in>F. age f \<le> age q" using g(3) by (meson less_imp_le order_trans)
    then show ?thesis using g True by (simp add: is_best_def)
  next
    case False
    then show ?thesis using g leI [OF False] by (auto simp: is_best_def)
  qed
qed (simp add: is_best_def)

definition oldest_access :: "(frame_id \<times> u64 list) list \<Rightarrow> frame_id \<Rightarrow> u64" where
  "oldest_access history f = last (the (map_of history f))"

definition short_frames :: "nat \<Rightarrow> (frame_id \<times> u64 list) list \<Rightarrow> frame_id set \<Rightarrow> frame_id set" where
  "short_frames k history F = {f \<in> F. \<exists>h. map_of history f = Some h \<and> length h < k}"

definition hot_frames :: "nat \<Rightarrow> (frame_id \<times> u64 list) list \<Rightarrow> frame_id set \<Rightarrow> frame_id set" where
  "hot_frames k history F = {f \<in> F. \<exists>h. map_of history f = Some h \<and> \<not> length h < k}"

lemma victim_loop_best:
  assumes "\<forall>f h. map_of history f = Some h \<longrightarrow> h \<noteq> []"
    "is_best (oldest_access history) (short_frames k history G) bs"
    "is_best (oldest_access history) (hot_frames k history G) bk"
  shows "\<exists>bs' bk'. victim_loop k history frames bs bk = Ok (bs', bk')
    \<and> is_best (oldest_access history) (short_frames k history (G \<union> set frames)) bs'
    \<and> is_best (oldest_access history) (hot_frames k history (G \<union> set frames)) bk'"
  using assms(2,3)
proof (induction frames arbitrary: G bs bk)
  case Nil
  then show ?case by simp
next
  case (Cons f frames)
  have split: "G \<union> set (f # frames) = insert f G \<union> set frames" by auto
  show ?case
  proof (cases "map_of history f")
    case None
    then have "short_frames k history (insert f G) = short_frames k history G"
      "hot_frames k history (insert f G) = hot_frames k history G"
      by (auto simp: short_frames_def hot_frames_def)
    then show ?thesis using Cons.IH [of "insert f G" bs bk] Cons.prems None
      unfolding split by simp
  next
    case (Some h)
    have h: "h \<noteq> []" "oldest_access history f = last h" using assms(1) Some
      by (auto simp: oldest_access_def)
    show ?thesis
    proof (cases "length h < k")
      case True
      then have "short_frames k history (insert f G) = insert f (short_frames k history G)"
        "hot_frames k history (insert f G) = hot_frames k history G"
        using Some by (auto simp: short_frames_def hot_frames_def)
      then show ?thesis
        using Cons.IH [of "insert f G" "better bs f (last h)" bk] Cons.prems Some True h
          is_best_better [OF Cons.prems(1), of f]
        unfolding split by simp
    next
      case False
      then have "short_frames k history (insert f G) = short_frames k history G"
        "hot_frames k history (insert f G) = insert f (hot_frames k history G)"
        using Some by (auto simp: short_frames_def hot_frames_def)
      then show ?thesis
        using Cons.IH [of "insert f G" bs "better bk f (last h)"] Cons.prems Some False h
          is_best_better [OF Cons.prems(2), of f]
        unfolding split by simp
    qed
  qed
qed


lemma position_of_member: "f \<in> set xs \<Longrightarrow> \<exists>i. position (\<lambda>g. g = f) xs = Some i \<and> i < length xs \<and> xs ! i = f"
proof (induction xs)
  case (Cons x xs)
  show ?case
  proof (cases "x = f")
    case False
    then obtain i where "position (\<lambda>g. g = f) xs = Some i" "i < length xs" "xs ! i = f"
      using Cons by auto
    then show ?thesis using False by simp
  qed simp
qed simp

lemma set_swap_remove: "i < length xs \<Longrightarrow> set (swap_remove xs i) \<subseteq> set xs"
proof
  fix x assume i: "i < length xs" and "x \<in> set (swap_remove xs i)"
  then have "x \<in> set (xs[i := last xs])" unfolding swap_remove_def by (rule_tac in_set_butlastD)
  moreover have "set (xs[i := last xs]) \<subseteq> insert (last xs) (set xs)" by (rule set_update_subset_insert)
  moreover have "last xs \<in> set xs" using i by (intro last_in_set) auto
  ultimately show "x \<in> set xs" by auto
qed

text \<open>The frames the policy chooses from: marked evictable and with a recorded access.\<close>

definition candidates :: "lru_k \<Rightarrow> frame_id set" where
  "candidates l = {f \<in> set (lru_evictable l). history_of l f \<noteq> None}"

lemma pick_victim_spec:
  assumes "lru_wf l"
  shows "if candidates l = {} then pick_victim l = Ok (None, l)
    else \<exists>f l' h. pick_victim l = Ok (Some f, l') \<and> f \<in> candidates l \<and> history_of l f = Some h
      \<and> (\<forall>g hg. g \<in> candidates l \<and> history_of l g = Some hg \<longrightarrow>
           (if length hg < lru_size_k l then length h < lru_size_k l \<and> last h \<le> last hg
            else length h < lru_size_k l \<or> last h \<le> last hg))
      \<and> (\<forall>g. history_of l' g = (if g = f then None else history_of l g))
      \<and> set (lru_evictable l') \<subseteq> set (lru_evictable l) \<and> lru_wf l'"
proof -
  let ?k = "lru_size_k l" and ?H = "lru_history l" and ?E = "set (lru_evictable l)"
  let ?S = "short_frames ?k ?H ?E" and ?T = "hot_frames ?k ?H ?E"
  have "is_best (oldest_access ?H) (short_frames ?k ?H {}) None"
    "is_best (oldest_access ?H) (hot_frames ?k ?H {}) None"
    by (simp_all add: is_best_def short_frames_def hot_frames_def)
  then obtain bs bk where loop: "victim_loop ?k ?H (lru_evictable l) None None = Ok (bs, bk)"
    and bs: "is_best (oldest_access ?H) ?S bs" and bk: "is_best (oldest_access ?H) ?T bk"
    using victim_loop_best [of ?H ?k "{}" None None "lru_evictable l"] assms
    by (auto simp: lru_wf_def)
  have cand: "candidates l = ?S \<union> ?T"
    by (auto simp: candidates_def short_frames_def hot_frames_def)
  show ?thesis
  proof (cases "case bs of Some v \<Rightarrow> Some v | None \<Rightarrow> bk")
    case None
    then have "candidates l = {}" using bs bk cand by (auto simp: is_best_def split: option.splits)
    then show ?thesis using loop None by (simp add: pick_victim_def)
  next
    case (Some v)
    then obtain f a where v: "(case bs of Some v \<Rightarrow> Some v | None \<Rightarrow> bk) = Some (f, a)"
      by (cases v) auto
    have f: "f \<in> candidates l" and a: "a = oldest_access ?H f"
      using v bs bk cand by (auto simp: is_best_def split: option.splits)
    obtain h where h: "history_of l f = Some h" using f by (auto simp: candidates_def)
    have age: "history_of l g = Some hg \<Longrightarrow> oldest_access ?H g = last hg" for g hg
      by (simp add: oldest_access_def)
    have least: "if length hg < ?k then length h < ?k \<and> last h \<le> last hg
        else length h < ?k \<or> last h \<le> last hg"
      if g: "g \<in> candidates l" "history_of l g = Some hg" for g hg
    proof (cases bs)
      case None
      then have "?S = {}" "bk = Some (f, a)" using bs v by (simp_all add: is_best_def)
      moreover from this have "g \<in> ?T" using g cand by auto
      ultimately show ?thesis using bk g h age a
        by (auto simp: is_best_def short_frames_def hot_frames_def)
    next
      case (Some w)
      then have w: "bs = Some (f, a)" using v by simp
      then have "f \<in> ?S" "\<forall>g\<in>?S. a \<le> oldest_access ?H g" using bs by (auto simp: is_best_def)
      moreover have "length hg < ?k \<Longrightarrow> g \<in> ?S" using g by (auto simp: short_frames_def candidates_def)
      ultimately show ?thesis using g h age a by (auto simp: short_frames_def)
    qed
    obtain i where i: "position (\<lambda>g. g = f) (lru_evictable l) = Some i" "i < length (lru_evictable l)"
      using position_of_member [of f "lru_evictable l"] f by (auto simp: candidates_def)
    let ?l' = "l\<lparr>lru_evictable := swap_remove (lru_evictable l) i,
      lru_history := AList.delete f (lru_history l)\<rparr>"
    have pick: "pick_victim l = Ok (Some f, ?l')"
      using loop v i by (simp add: pick_victim_def Let_def)
    have hist: "history_of ?l' g = (if g = f then None else history_of l g)" for g
      by (simp add: delete_conv')
    have "lru_wf ?l'" using assms by (auto simp: lru_wf_def delete_conv' split: if_splits)
    moreover have "set (lru_evictable ?l') \<subseteq> ?E" using set_swap_remove [OF i(2)] by simp
    moreover have nonempty: "candidates l \<noteq> {}" using f by blast
    ultimately show ?thesis
      unfolding if_not_P [OF nonempty]
      by (intro exI [of _ f] exI [of _ ?l'] exI [of _ h] conjI allI impI pick f h hist least) auto
  qed
qed

section \<open>Properties\<close>

text \<open>C31:
  The victim of LRU-K. On every well-formed policy state the search does not panic; it finds no
  victim exactly when no evictable frame has a recorded access; otherwise the victim is an
  evictable frame, a frame with fewer than \<open>k\<close> accesses (a page touched by a scan)
  whenever there is one, and no eligible frame of its class has an older \<open>k\<close>-th access.
\<close>

theorem victim_is_least_recent:
  assumes "lru_wf l"
  shows "if candidates l = {} then pick_victim l = Ok (None, l)
    else \<exists>f l' h. pick_victim l = Ok (Some f, l') \<and> f \<in> candidates l \<and> history_of l f = Some h
      \<and> (\<forall>g hg. g \<in> candidates l \<and> history_of l g = Some hg \<longrightarrow>
           (if length hg < lru_size_k l then length h < lru_size_k l \<and> last h \<le> last hg
            else length h < lru_size_k l \<or> last h \<le> last hg))
      \<and> history_of l' f = None"
  using pick_victim_spec [OF assms] by (auto split: if_splits)

theorem victim_is_least_recent_witness:
  "\<exists>l'. pick_victim (lru_mark_evictable (lru_mark_evictable (lru_record_access (lru_record_access
       (lru_record_access lru_new 0) 0) 1) 0) 1) = Ok (Some 1, l')"
proof -
  let ?l = "lru_mark_evictable (lru_mark_evictable (lru_record_access (lru_record_access
       (lru_record_access lru_new 0) 0) 1) 0) 1"
  have l: "?l = \<lparr>lru_size_k = 2, lru_clock = 3, lru_history = [(0, [2, 1]), (1, [3])],
      lru_evictable = [0, 1]\<rparr>"
    by (simp add: lru_new_def lru_record_access_def lru_mark_evictable_def)
  have "lru_wf ?l" by (intro inv_intro)
  from victim_is_least_recent [OF this] show ?thesis
    unfolding l by (auto simp: candidates_def split: if_splits)
qed

end
