(* ===== verification/BufferPool.thy ===== *)
theory BufferPool
  imports LruK
begin

text \<open>
  The buffer pool (\<open>cendb-buffer/src/pool.rs\<close>) over its frames
  (\<open>cendb-buffer/src/frame.rs\<close>) and the replacement policy of \<open>LruK\<close>.
  The storage behind the pool is the trait \<open>PageSource\<close>: a record of functions here
  and the locale \<open>page_source\<close> for the contract the pool relies on. A guard of a
  pinned page is its frame number; dropping it is \<open>release_pin\<close>.
\<close>

section \<open>Frames\<close>

record frame =
  fr_data :: bytes
  fr_page_id :: u64
  fr_pin_count :: u32
  fr_dirty :: bool
  fr_page_lsn :: u64
  fr_frame_id :: frame_id

definition INVALID_PAGE_ID :: u64 where "INVALID_PAGE_ID = - 1"

definition frame_new :: "frame_id \<Rightarrow> nat \<Rightarrow> frame cen_result" where
  "frame_new frame_id page_size =
     (if page_size = 0 then Err (constraint ''AlignedBlock: size must be > 0'')
      else Ok \<lparr>fr_data = replicate page_size 0, fr_page_id = INVALID_PAGE_ID, fr_pin_count = 0,
        fr_dirty = False, fr_page_lsn = 0, fr_frame_id = frame_id\<rparr>)"

definition frame_page :: "frame \<Rightarrow> page_id option" where
  "frame_page f = (if fr_page_id f = INVALID_PAGE_ID then None else Some (PageId (fr_page_id f)))"

definition set_page_id :: "page_id \<Rightarrow> frame \<Rightarrow> frame" where
  "set_page_id p f = f\<lparr>fr_page_id := page_raw p\<rparr>"

definition clear_page_id :: "frame \<Rightarrow> frame" where
  "clear_page_id f = f\<lparr>fr_page_id := INVALID_PAGE_ID\<rparr>"

definition frame_pin :: "frame \<Rightarrow> frame" where
  "frame_pin f = f\<lparr>fr_pin_count := fr_pin_count f + 1\<rparr>"

definition frame_unpin :: "frame \<Rightarrow> frame" where
  "frame_unpin f = f\<lparr>fr_pin_count := fr_pin_count f - 1\<rparr>"

definition is_pinned :: "frame \<Rightarrow> bool" where
  "is_pinned f \<longleftrightarrow> fr_pin_count f > 0"

definition frame_mark_dirty :: "u64 \<Rightarrow> frame \<Rightarrow> frame" where
  "frame_mark_dirty page_lsn f = f\<lparr>fr_dirty := True,
     fr_page_lsn := (if page_lsn > fr_page_lsn f then page_lsn else fr_page_lsn f)\<rparr>"

definition clear_dirty :: "frame \<Rightarrow> frame" where
  "clear_dirty f = f\<lparr>fr_dirty := False\<rparr>"

section \<open>The pool\<close>

datatype read_hint = Point | Scan

text \<open>The trait: reading fills a buffer (also when it fails), and both calls change the source.\<close>

record 's page_source_ops =
  ps_read :: "'s \<Rightarrow> page_id \<Rightarrow> bytes \<Rightarrow> bytes \<times> unit cen_result \<times> 's"
  ps_write :: "'s \<Rightarrow> page_id \<Rightarrow> bytes \<Rightarrow> unit cen_result \<times> 's"
  ps_page_size :: "'s \<Rightarrow> nat"

record pool_stats =
  st_hits :: u64
  st_misses :: u64
  st_evictions :: u64
  st_flushes :: u64
  st_pinned_frames :: u32
  st_total_frames :: u32

record 's buffer_pool =
  bp_frames :: "frame list"
  bp_page_table :: "(page_id \<times> frame_id) list"
  bp_free_list :: "frame_id list"
  bp_replacer :: lru_k
  bp_source :: 's
  bp_page_size :: nat
  bp_stats :: pool_stats

fun make_frames :: "nat \<Rightarrow> nat \<Rightarrow> nat \<Rightarrow> frame list cen_result" where
  "make_frames i 0 page_size = Ok []"
| "make_frames i (Suc n) page_size = and_then (frame_new i page_size) (\<lambda>f.
     and_then (make_frames (Suc i) n page_size) (\<lambda>fs. Ok (f # fs)))"

definition pool_new :: "'s page_source_ops \<Rightarrow> 's \<Rightarrow> nat \<Rightarrow> nat \<Rightarrow> 's buffer_pool cen_result" where
  "pool_new ops source frame_count page_size =
     (if frame_count = 0 then Err (constraint ''BufferPool: frame_count must be > 0'')
      else if page_size = 0 \<or> page_size mod 64 \<noteq> 0
      then Err (constraint ''BufferPool: page_size must be a positive multiple of 64'')
      else if ps_page_size ops source \<noteq> page_size
      then Err (constraint (''BufferPool: page_size mismatch: pool='' @ show_nat page_size
             @ '', source='' @ show_nat (ps_page_size ops source)))
      else and_then (make_frames 0 frame_count page_size) (\<lambda>frames.
        Ok \<lparr>bp_frames = frames, bp_page_table = [], bp_free_list = [0..<frame_count],
          bp_replacer = lru_new, bp_source = source, bp_page_size = page_size,
          bp_stats = \<lparr>st_hits = 0, st_misses = 0, st_evictions = 0, st_flushes = 0,
            st_pinned_frames = 0, st_total_frames = of_nat frame_count\<rparr>\<rparr>))"

definition pool_capacity :: "'s buffer_pool \<Rightarrow> nat" where
  "pool_capacity p = length (bp_frames p)"

definition pool_stats_of :: "'s buffer_pool \<Rightarrow> pool_stats" where
  "pool_stats_of p = (bp_stats p)\<lparr>st_pinned_frames :=
     of_nat (length (filter is_pinned (bp_frames p)))\<rparr>"

definition upd_frame :: "frame_id \<Rightarrow> (frame \<Rightarrow> frame) \<Rightarrow> 's buffer_pool \<Rightarrow> 's buffer_pool" where
  "upd_frame i g p = p\<lparr>bp_frames := (bp_frames p)[i := g (bp_frames p ! i)]\<rparr>"

definition upd_stats :: "(pool_stats \<Rightarrow> pool_stats) \<Rightarrow> 's buffer_pool \<Rightarrow> 's buffer_pool" where
  "upd_stats g p = p\<lparr>bp_stats := g (bp_stats p)\<rparr>"

definition upd_replacer :: "(lru_k \<Rightarrow> lru_k) \<Rightarrow> 's buffer_pool \<Rightarrow> 's buffer_pool" where
  "upd_replacer g p = p\<lparr>bp_replacer := g (bp_replacer p)\<rparr>"

text \<open>Indexing the frame slab panics out of range.\<close>

definition with_frame :: "'s buffer_pool \<Rightarrow> frame_id \<Rightarrow> (frame \<Rightarrow> 'a cen_result \<times> 's buffer_pool)
    \<Rightarrow> 'a cen_result \<times> 's buffer_pool" where
  "with_frame p i g = (if i < length (bp_frames p) then g (bp_frames p ! i) else (Panic, p))"

definition count_flush :: "pool_stats \<Rightarrow> pool_stats" where
  "count_flush s = s\<lparr>st_flushes := st_flushes s + 1\<rparr>"

text \<open>The second half of an eviction, for a victim that is unpinned and holds a page.\<close>

definition write_back :: "'s page_source_ops \<Rightarrow> page_id \<Rightarrow> frame \<Rightarrow> 's buffer_pool
    \<Rightarrow> unit cen_result \<times> 's buffer_pool" where
  "write_back ops pid f p =
     (if fr_dirty f then
        let (r, src) = ps_write ops (bp_source p) pid (fr_data f); p = p\<lparr>bp_source := src\<rparr>
        in (case r of Ok _ \<Rightarrow> (Ok (), upd_stats count_flush p) | Err e \<Rightarrow> (Err e, p) | Panic \<Rightarrow> (Panic, p))
      else (Ok (), p))"

definition detach :: "page_id \<Rightarrow> frame_id \<Rightarrow> 's buffer_pool \<Rightarrow> 's buffer_pool" where
  "detach pid victim p =
     upd_stats (\<lambda>s. s\<lparr>st_evictions := st_evictions s + 1\<rparr>)
       (upd_replacer (\<lambda>l. lru_forget l victim)
         (upd_frame victim (\<lambda>f. clear_page_id (clear_dirty f))
           (p\<lparr>bp_page_table := AList.delete pid (bp_page_table p)\<rparr>)))"

definition evict_or_take_free :: "'s page_source_ops \<Rightarrow> 's buffer_pool
    \<Rightarrow> frame_id cen_result \<times> 's buffer_pool" where
  "evict_or_take_free ops p =
     (if bp_free_list p \<noteq> []
      then (Ok (last (bp_free_list p)), p\<lparr>bp_free_list := butlast (bp_free_list p)\<rparr>)
      else case pick_victim (bp_replacer p) of
        Ok (None, l) \<Rightarrow> (Err (internal ''BufferPool: no evictable frames (all pinned?)''),
          p\<lparr>bp_replacer := l\<rparr>)
      | Ok (Some victim, l) \<Rightarrow>
          let p = p\<lparr>bp_replacer := l\<rparr> in
          with_frame p victim (\<lambda>f.
            if is_pinned f
            then (Err (internal (''BufferPool: victim frame FrameId('' @ show_nat victim
                    @ '') is pinned'')), p)
            else case frame_page f of
              None \<Rightarrow> (Err (internal ''evict_or_take_free: victim has no page_id''), p)
            | Some old \<Rightarrow>
                (case write_back ops old f p of
                   (Ok _, p) \<Rightarrow> (Ok victim, detach old victim p)
                 | (Err e, p) \<Rightarrow> (Err e, p)
                 | (Panic, p) \<Rightarrow> (Panic, p)))
      | _ \<Rightarrow> (Panic, p))"

text \<open>Reading a missing page into the frame taken for it.\<close>

definition load_page :: "'s page_source_ops \<Rightarrow> 's buffer_pool \<Rightarrow> page_id \<Rightarrow> read_hint \<Rightarrow> frame_id
    \<Rightarrow> frame_id cen_result \<times> 's buffer_pool" where
  "load_page ops p pid hint fid =
     with_frame p fid (\<lambda>f.
       let (buf, r, src) = ps_read ops (bp_source p) pid (fr_data f);
           p = upd_frame fid (\<lambda>f. f\<lparr>fr_data := buf\<rparr>) (p\<lparr>bp_source := src\<rparr>)
       in case r of
           Ok _ \<Rightarrow>
             let p = upd_frame fid (\<lambda>f. frame_pin (clear_dirty (set_page_id pid f))) p;
                 p = p\<lparr>bp_page_table := AList.update pid fid (bp_page_table p)\<rparr>;
                 p = upd_replacer (\<lambda>l. lru_record_access l fid) p;
                 p = (if hint = Point then p
                      else upd_replacer (\<lambda>l. lru_mark_evictable l fid) p)
             in (Ok fid, p)
         | Err e \<Rightarrow> (Err e, p)
         | Panic \<Rightarrow> (Panic, p))"

definition pin_page :: "'s page_source_ops \<Rightarrow> 's buffer_pool \<Rightarrow> page_id \<Rightarrow> read_hint
    \<Rightarrow> frame_id cen_result \<times> 's buffer_pool" where
  "pin_page ops p pid hint =
     (case map_of (bp_page_table p) pid of
        Some fid \<Rightarrow>
          let p = upd_stats (\<lambda>s. s\<lparr>st_hits := st_hits s + 1\<rparr>) p;
              p = (if hint = Point then upd_replacer (\<lambda>l. lru_record_access l fid) p else p)
          in with_frame p fid (\<lambda>_. (Ok fid, upd_frame fid frame_pin p))
      | None \<Rightarrow>
          let p = upd_stats (\<lambda>s. s\<lparr>st_misses := st_misses s + 1\<rparr>) p in
          case evict_or_take_free ops p of
            (Ok fid, p) \<Rightarrow> load_page ops p pid hint fid
          | (Err e, p) \<Rightarrow> (Err e, p)
          | (Panic, p) \<Rightarrow> (Panic, p))"

definition new_page :: "'s page_source_ops \<Rightarrow> 's buffer_pool \<Rightarrow> page_id
    \<Rightarrow> frame_id cen_result \<times> 's buffer_pool" where
  "new_page ops p pid =
     (if map_of (bp_page_table p) pid \<noteq> None
      then (Err (constraint (''new_page: page PageId('' @ show_nat (unat (page_raw pid))
              @ '') already exists'')), p)
      else
        let p = upd_stats (\<lambda>s. s\<lparr>st_misses := st_misses s + 1\<rparr>) p in
        case evict_or_take_free ops p of
          (Ok fid, p) \<Rightarrow>
            with_frame p fid (\<lambda>f.
              let p = upd_frame fid (\<lambda>f. frame_pin (frame_mark_dirty 0 (set_page_id pid
                    (f\<lparr>fr_data := map (\<lambda>_. 0) (fr_data f)\<rparr>)))) p;
                  p = p\<lparr>bp_page_table := AList.update pid fid (bp_page_table p)\<rparr>;
                  p = upd_replacer (\<lambda>l. lru_record_access l fid) p
              in (Ok fid, p))
        | (Err e, p) \<Rightarrow> (Err e, p)
        | (Panic, p) \<Rightarrow> (Panic, p))"

definition flush_page :: "'s page_source_ops \<Rightarrow> 's buffer_pool \<Rightarrow> page_id
    \<Rightarrow> unit cen_result \<times> 's buffer_pool" where
  "flush_page ops p pid =
     (case map_of (bp_page_table p) pid of
        None \<Rightarrow> (Ok (), p)
      | Some fid \<Rightarrow>
          with_frame p fid (\<lambda>f.
            if \<not> fr_dirty f then (Ok (), p)
            else
              let (r, src) = ps_write ops (bp_source p) pid (fr_data f); p = p\<lparr>bp_source := src\<rparr>
              in case r of
                  Ok _ \<Rightarrow> (Ok (), upd_stats count_flush (upd_frame fid clear_dirty p))
                | Err e \<Rightarrow> (Err e, p)
                | Panic \<Rightarrow> (Panic, p)))"

fun flush_pages :: "'s page_source_ops \<Rightarrow> page_id list \<Rightarrow> 's buffer_pool
    \<Rightarrow> unit cen_result \<times> 's buffer_pool" where
  "flush_pages ops [] p = (Ok (), p)"
| "flush_pages ops (pid # pids) p =
     (case flush_page ops p pid of
        (Ok _, p) \<Rightarrow> flush_pages ops pids p
      | (Err e, p) \<Rightarrow> (Err e, p)
      | (Panic, p) \<Rightarrow> (Panic, p))"

definition flush_all :: "'s page_source_ops \<Rightarrow> 's buffer_pool \<Rightarrow> unit cen_result \<times> 's buffer_pool" where
  "flush_all ops p = flush_pages ops (map fst (bp_page_table p)) p"

definition release_pin :: "'s buffer_pool \<Rightarrow> frame_id \<Rightarrow> unit cen_result \<times> 's buffer_pool" where
  "release_pin p fid = with_frame p fid (\<lambda>_.
     let p = upd_frame fid frame_unpin p
     in (Ok (), if \<not> is_pinned (bp_frames p ! fid)
                then upd_replacer (\<lambda>l. lru_mark_evictable l fid) p else p))"

definition guard_bytes :: "'s buffer_pool \<Rightarrow> frame_id \<Rightarrow> bytes cen_result" where
  "guard_bytes p fid = and_then (index_at (bp_frames p) fid) (\<lambda>f. Ok (fr_data f))"

definition guard_mark_dirty :: "'s buffer_pool \<Rightarrow> frame_id \<Rightarrow> u64 \<Rightarrow> unit cen_result \<times> 's buffer_pool" where
  "guard_mark_dirty p fid page_lsn = with_frame p fid (\<lambda>_.
     (Ok (), upd_frame fid (frame_mark_dirty page_lsn) p))"

section \<open>The source that lives in memory\<close>

record mem_source =
  ms_pages :: "page_id \<Rightarrow> bytes option"
  ms_page_size :: nat

definition mem_new :: "nat \<Rightarrow> mem_source" where
  "mem_new page_size = \<lparr>ms_pages = (\<lambda>_. None), ms_page_size = page_size\<rparr>"

definition mem_put_page :: "mem_source \<Rightarrow> page_id \<Rightarrow> bytes \<Rightarrow> mem_source" where
  "mem_put_page s pid bs = s\<lparr>ms_pages := (ms_pages s)(pid \<mapsto> bs)\<rparr>"

definition mem_read :: "mem_source \<Rightarrow> page_id \<Rightarrow> bytes \<Rightarrow> bytes \<times> unit cen_result \<times> mem_source" where
  "mem_read s pid buf =
     (case ms_pages s pid of
        Some src \<Rightarrow> if length src = length buf then (src, Ok (), s) else (buf, Panic, s)
      | None \<Rightarrow> (map (\<lambda>_. 0) buf, Ok (), s))"

definition mem_write :: "mem_source \<Rightarrow> page_id \<Rightarrow> bytes \<Rightarrow> unit cen_result \<times> mem_source" where
  "mem_write s pid buf = (Ok (), s\<lparr>ms_pages := (ms_pages s)(pid \<mapsto> buf)\<rparr>)"

definition mem_ops :: "mem_source page_source_ops" where
  "mem_ops = \<lparr>ps_read = mem_read, ps_write = mem_write, ps_page_size = ms_page_size\<rparr>"

end
