(* ===== verification/PoolCoherence.thy ===== *)
theory PoolCoherence
  imports BufferPool
begin

text \<open>
  Correctness of the buffer pool against its storage. The contract of a page source is the
  locale \<open>page_source\<close>; inside it the pool's invariant is kept by every operation and
  the pool is shown to present one consistent content per page: the bytes in the frame when the
  page is cached, the bytes of the source otherwise. The locale is interpreted on the source
  that lives in memory.
\<close>

section \<open>The contract of a page source\<close>

locale page_source =
  fixes ops :: "'s page_source_ops"
    and content :: "'s \<Rightarrow> page_id \<Rightarrow> bytes"
    and src_ok :: "'s \<Rightarrow> bool"
    and sz :: nat
  assumes read_contract: "src_ok s \<Longrightarrow> length buf = sz \<Longrightarrow> ps_read ops s pid buf = (buf', r, s') \<Longrightarrow>
      src_ok s' \<and> length buf' = sz \<and> content s' = content s \<and> r \<noteq> Panic
      \<and> (r = Ok () \<longrightarrow> buf' = content s pid)"
    and write_contract: "src_ok s \<Longrightarrow> length buf = sz \<Longrightarrow> ps_write ops s pid buf = (r, s') \<Longrightarrow>
      src_ok s' \<and> r \<noteq> Panic \<and> content s' = (if r = Ok () then (content s)(pid := buf) else content s)"
begin

lemma write_ok_cases:
  assumes "src_ok s" "length buf = sz" "ps_write ops s pid buf = (r, s')"
  obtains "r = Ok ()" "src_ok s'" "content s' = (content s)(pid := buf)"
    | e where "r = Err e" "src_ok s'" "content s' = content s"
  using write_contract [OF assms] by (cases r) auto

end

section \<open>The invariant of the pool\<close>

text \<open>The content a page has for the users of the pool.\<close>

definition page_view :: "frame list \<Rightarrow> (page_id \<times> frame_id) list \<Rightarrow> (page_id \<Rightarrow> bytes) \<Rightarrow> page_id \<Rightarrow> bytes" where
  "page_view frames table disk pid =
     (case map_of table pid of Some f \<Rightarrow> fr_data (frames ! f) | None \<Rightarrow> disk pid)"

definition pool_page :: "('s \<Rightarrow> page_id \<Rightarrow> bytes) \<Rightarrow> 's buffer_pool \<Rightarrow> page_id \<Rightarrow> bytes" where
  "pool_page content p = page_view (bp_frames p) (bp_page_table p) (content (bp_source p))"

definition table_ok :: "frame list \<Rightarrow> (page_id \<times> frame_id) list \<Rightarrow> bool" where
  "table_ok frames table \<longleftrightarrow> distinct (map fst table)
     \<and> (\<forall>pid f. map_of table pid = Some f \<longleftrightarrow> f < length frames \<and> frame_page (frames ! f) = Some pid)"

definition free_ok :: "frame list \<Rightarrow> frame_id list \<Rightarrow> bool" where
  "free_ok frames free \<longleftrightarrow> distinct free
     \<and> (\<forall>f\<in>set free. f < length frames \<and> frame_page (frames ! f) = None \<and> \<not> is_pinned (frames ! f))"

definition clean_ok :: "(page_id \<Rightarrow> bytes) \<Rightarrow> nat \<Rightarrow> frame list \<Rightarrow> bool" where
  "clean_ok disk sz frames \<longleftrightarrow> (\<forall>f<length frames. length (fr_data (frames ! f)) = sz
     \<and> (\<forall>pid. frame_page (frames ! f) = Some pid \<and> \<not> fr_dirty (frames ! f)
          \<longrightarrow> fr_data (frames ! f) = disk pid))"

definition history_ok :: "frame list \<Rightarrow> lru_k \<Rightarrow> bool" where
  "history_ok frames l \<longleftrightarrow> lru_wf l
     \<and> (\<forall>f h. history_of l f = Some h \<longrightarrow> f < length frames \<and> frame_page (frames ! f) \<noteq> None)"

definition pool_inv :: "('s \<Rightarrow> page_id \<Rightarrow> bytes) \<Rightarrow> ('s \<Rightarrow> bool) \<Rightarrow> nat \<Rightarrow> 's buffer_pool \<Rightarrow> bool" where
  "pool_inv content src_ok sz p \<longleftrightarrow> src_ok (bp_source p)
     \<and> table_ok (bp_frames p) (bp_page_table p) \<and> free_ok (bp_frames p) (bp_free_list p)
     \<and> clean_ok (content (bp_source p)) sz (bp_frames p) \<and> history_ok (bp_frames p) (bp_replacer p)"

lemmas pool_upds = upd_frame_def upd_stats_def upd_replacer_def
lemmas frame_upds = set_page_id_def clear_page_id_def frame_pin_def frame_unpin_def is_pinned_def
  frame_mark_dirty_def clear_dirty_def frame_page_def

section \<open>Effects of the updates on each part\<close>

text \<open>Replacing a frame by one that holds the same page, the same bytes and is no cleaner.\<close>

lemma same_page_frames:
  assumes "f < length frames" "frame_page g = frame_page (frames ! f)" "fr_data g = fr_data (frames ! f)"
    "\<not> fr_dirty g \<Longrightarrow> \<not> fr_dirty (frames ! f)"
    "is_pinned g \<Longrightarrow> is_pinned (frames ! f) \<or> frame_page g \<noteq> None"
  shows "table_ok frames table \<Longrightarrow> table_ok (frames[f := g]) table"
    "free_ok frames free \<Longrightarrow> free_ok (frames[f := g]) free"
    "clean_ok disk sz frames \<Longrightarrow> clean_ok disk sz (frames[f := g])"
    "history_ok frames l \<Longrightarrow> history_ok (frames[f := g]) l"
    "page_view (frames[f := g]) table disk = page_view frames table disk"
proof -
  have nth: "frames[f := g] ! i = (if i = f then g else frames ! i)" for i
    using assms(1) by (simp add: nth_list_update)
  have page [simp]: "frame_page (frames[f := g] ! i) = frame_page (frames ! i)"
    and data [simp]: "fr_data (frames[f := g] ! i) = fr_data (frames ! i)" for i
    using assms(2,3) by (simp_all add: nth)
  have dirty: "\<not> fr_dirty (frames[f := g] ! i) \<Longrightarrow> \<not> fr_dirty (frames ! i)" for i
    using assms(4) by (simp add: nth split: if_splits)
  have pinned: "is_pinned (frames[f := g] ! i) \<Longrightarrow> frame_page (frames ! i) = None
      \<Longrightarrow> is_pinned (frames ! i)" for i
    using assms(2,5) by (auto simp: nth split: if_splits)
  show "table_ok frames table \<Longrightarrow> table_ok (frames[f := g]) table" by (simp add: table_ok_def)
  show "free_ok frames free \<Longrightarrow> free_ok (frames[f := g]) free"
    using pinned by (auto simp: free_ok_def)
  show "clean_ok disk sz frames \<Longrightarrow> clean_ok disk sz (frames[f := g])"
    using dirty by (auto simp: clean_ok_def)
  show "history_ok frames l \<Longrightarrow> history_ok (frames[f := g]) l" by (auto simp: history_ok_def)
  show "page_view (frames[f := g]) table disk = page_view frames table disk"
    by (rule ext) (auto simp: page_view_def split: option.split)
qed

text \<open>Writing a cached page back, so that its frame may become clean.\<close>

lemma written_back:
  assumes "f < length frames" "frame_page (frames ! f) = Some pid" "table_ok frames table"
  shows "clean_ok disk sz frames \<Longrightarrow> clean_ok (disk(pid := fr_data (frames ! f))) sz frames"
    "page_view frames table (disk(pid := fr_data (frames ! f))) = page_view frames table disk"
proof -
  have only: "i < length frames \<Longrightarrow> frame_page (frames ! i) = Some pid \<Longrightarrow> i = f" for i
    using assms unfolding table_ok_def by (metis option.inject)
  show "clean_ok disk sz frames \<Longrightarrow> clean_ok (disk(pid := fr_data (frames ! f))) sz frames"
    using only by (auto simp: clean_ok_def)
  have "map_of table pid = Some f" using assms by (simp add: table_ok_def)
  then show "page_view frames table (disk(pid := fr_data (frames ! f))) = page_view frames table disk"
    by (intro ext) (auto simp: page_view_def split: option.split)
qed

lemma clean_frame:
  assumes "f < length frames" "frame_page (frames ! f) = Some pid"
    "clean_ok disk sz frames" "disk pid = fr_data (frames ! f)"
  shows "clean_ok disk sz (frames[f := clear_dirty (frames ! f)])"
  using assms by (auto simp: clean_ok_def nth_list_update clear_dirty_def frame_page_def)

text \<open>Emptying a frame whose bytes are on disk.\<close>

lemma emptied_frame:
  assumes f: "f < length frames" "frame_page (frames ! f) = Some pid" "disk pid = fr_data (frames ! f)"
    and t: "table_ok frames table"
    and g: "g = clear_page_id (clear_dirty (frames ! f))"
  shows "table_ok (frames[f := g]) (AList.delete pid table)"
    "free_ok frames free \<Longrightarrow> free_ok (frames[f := g]) free \<and> f \<notin> set free"
    "clean_ok disk sz frames \<Longrightarrow> clean_ok disk sz (frames[f := g])"
    "history_ok frames l \<Longrightarrow> history_ok (frames[f := g]) (lru_forget l f)"
    "page_view (frames[f := g]) (AList.delete pid table) disk = page_view frames table disk"
proof -
  have nth: "frames[f := g] ! i = (if i = f then g else frames ! i)" for i
    using f(1) by (simp add: nth_list_update)
  have none: "frame_page g = None" "fr_data g = fr_data (frames ! f)"
    by (simp_all add: g clear_page_id_def clear_dirty_def frame_page_def)
  have only: "map_of table q = Some i \<longleftrightarrow> i < length frames \<and> frame_page (frames ! i) = Some q" for q i
    using t by (simp add: table_ok_def)
  have here: "map_of table pid = Some f" using only f by simp
  show "table_ok (frames[f := g]) (AList.delete pid table)"
    unfolding table_ok_def
  proof (intro conjI allI)
    show "distinct (map fst (AList.delete pid table))"
      using t by (simp add: table_ok_def distinct_delete)
    fix q i
    show "map_of (AList.delete pid table) q = Some i \<longleftrightarrow>
        i < length (frames[f := g]) \<and> frame_page (frames[f := g] ! i) = Some q"
      using only [of q i] only [of pid i] here f none by (auto simp: delete_conv' nth)
  qed
  show "free_ok frames free \<Longrightarrow> free_ok (frames[f := g]) free \<and> f \<notin> set free"
    using f none by (auto simp: free_ok_def nth)
  show "clean_ok disk sz frames \<Longrightarrow> clean_ok disk sz (frames[f := g])"
    using none f by (auto simp: clean_ok_def nth)
  show "history_ok frames l \<Longrightarrow> history_ok (frames[f := g]) (lru_forget l f)"
    using lru_forget_wf [of l f]
    by (auto simp: history_ok_def nth lru_forget_def delete_conv' split: if_splits)
  show "page_view (frames[f := g]) (AList.delete pid table) disk = page_view frames table disk"
  proof
    fix q
    show "page_view (frames[f := g]) (AList.delete pid table) disk q = page_view frames table disk q"
    proof (cases "q = pid")
      case True
      then show ?thesis using here f(3) by (simp add: page_view_def delete_conv')
    next
      case False
      have "map_of table q \<noteq> Some f" using False only [of q f] f(2) by simp
      then show ?thesis using False
        by (auto simp: page_view_def delete_conv' nth split: option.split)
    qed
  qed
qed

text \<open>Filling an empty frame with a page that is not cached.\<close>

lemma filled_frame:
  assumes f: "f < length frames" "frame_page (frames ! f) = None" "f \<notin> set free"
    and pid: "map_of table pid = None" and t: "table_ok frames table"
    and g: "frame_page g = Some pid" "length (fr_data g) = sz" "fr_dirty g \<or> fr_data g = disk pid"
  shows "table_ok (frames[f := g]) (AList.update pid f table)"
    "free_ok frames free \<Longrightarrow> free_ok (frames[f := g]) free"
    "clean_ok disk sz frames \<Longrightarrow> clean_ok disk sz (frames[f := g])"
    "history_ok frames l \<Longrightarrow> history_ok (frames[f := g]) (lru_record_access l f)"
    "page_view (frames[f := g]) (AList.update pid f table) disk
       = (page_view frames table disk)(pid := fr_data g)"
proof -
  have nth: "frames[f := g] ! i = (if i = f then g else frames ! i)" for i
    using f(1) by (simp add: nth_list_update)
  have only: "map_of table q = Some i \<longleftrightarrow> i < length frames \<and> frame_page (frames ! i) = Some q" for q i
    using t by (simp add: table_ok_def)
  have absent: "map_of table q \<noteq> Some f" for q using only f by simp
  show "table_ok (frames[f := g]) (AList.update pid f table)"
    unfolding table_ok_def
  proof (intro conjI allI)
    show "distinct (map fst (AList.update pid f table))"
      using t by (simp add: table_ok_def distinct_update)
    fix q i
    show "map_of (AList.update pid f table) q = Some i \<longleftrightarrow>
        i < length (frames[f := g]) \<and> frame_page (frames[f := g] ! i) = Some q"
      using only [of q i] only [of pid i] absent [of q] f g(1) pid by (auto simp: update_conv' nth)
  qed
  show "free_ok frames free \<Longrightarrow> free_ok (frames[f := g]) free"
    using f by (auto simp: free_ok_def nth)
  show "clean_ok disk sz frames \<Longrightarrow> clean_ok disk sz (frames[f := g])"
    using g by (auto simp: clean_ok_def nth)
  show "history_ok frames l \<Longrightarrow> history_ok (frames[f := g]) (lru_record_access l f)"
    using lru_record_access_wf [of l f] f g(1)
    by (auto simp: history_ok_def nth lru_record_access_history split: if_splits)
  show "page_view (frames[f := g]) (AList.update pid f table) disk
       = (page_view frames table disk)(pid := fr_data g)"
  proof
    fix q
    show "page_view (frames[f := g]) (AList.update pid f table) disk q
        = ((page_view frames table disk)(pid := fr_data g)) q"
      using absent [of q] by (auto simp: page_view_def update_conv' nth split: option.split)
  qed
qed


text \<open>Overwriting the bytes of an empty frame.\<close>

lemma scribbled_frame:
  assumes f: "f < length frames" "frame_page (frames ! f) = None" and len: "length buf = sz"
    and t: "table_ok frames table" and g: "g = (frames ! f)\<lparr>fr_data := buf\<rparr>"
  shows "table_ok (frames[f := g]) table"
    "free_ok frames free \<Longrightarrow> free_ok (frames[f := g]) free"
    "clean_ok disk sz frames \<Longrightarrow> clean_ok disk sz (frames[f := g])"
    "history_ok frames l \<Longrightarrow> history_ok (frames[f := g]) l"
    "page_view (frames[f := g]) table disk = page_view frames table disk"
proof -
  have nth: "frames[f := g] ! i = (if i = f then g else frames ! i)" for i
    using f(1) by (simp add: nth_list_update)
  have none: "frame_page g = None" "is_pinned g = is_pinned (frames ! f)"
    using f(2) by (simp_all add: g frame_page_def is_pinned_def split: if_splits)
  have data: "fr_data g = buf" by (simp add: g)
  have page [simp]: "frame_page (frames[f := g] ! i) = frame_page (frames ! i)"
    "is_pinned (frames[f := g] ! i) = is_pinned (frames ! i)" for i
    using none f(2) by (simp_all add: nth)
  show "table_ok (frames[f := g]) table" using t by (simp add: table_ok_def)
  show "free_ok frames free \<Longrightarrow> free_ok (frames[f := g]) free" by (simp add: free_ok_def)
  show "clean_ok disk sz frames \<Longrightarrow> clean_ok disk sz (frames[f := g])"
    using none len data by (auto simp: clean_ok_def nth)
  show "history_ok frames l \<Longrightarrow> history_ok (frames[f := g]) l" by (auto simp: history_ok_def)
  have "map_of table q \<noteq> Some f" for q using t f(2) by (simp add: table_ok_def)
  then show "page_view (frames[f := g]) table disk = page_view frames table disk"
    by (intro ext) (auto simp: page_view_def nth split: option.split)
qed

lemma history_ok_access:
  "history_ok frames l \<Longrightarrow> f < length frames \<Longrightarrow> frame_page (frames ! f) = Some pid
      \<Longrightarrow> history_ok frames (lru_record_access l f)"
  using lru_record_access_wf [of l f]
  by (auto simp: history_ok_def lru_record_access_history split: if_splits)

lemma history_ok_mark: "history_ok frames l \<Longrightarrow> history_ok frames (lru_mark_evictable l f)"
  using lru_mark_evictable_wf [of l f] unfolding history_ok_def
  by (auto simp: lru_mark_evictable_def)

lemma history_ok_picked:
  assumes "history_ok frames l" "\<And>g. history_of l' g = (if g = f then None else history_of l g)" "lru_wf l'"
  shows "history_ok frames l'"
  using assms by (auto simp: history_ok_def split: if_splits)

lemma pick_victim_cases:
  assumes "history_ok frames l" "pick_victim l = r"
  obtains "r = Ok (None, l)"
  | f l' pid where "r = Ok (Some f, l')" "f < length frames" "frame_page (frames ! f) = Some pid"
      "history_ok frames l'"
proof (cases "candidates l = {}")
  case True
  then show ?thesis using pick_victim_spec [of l] assms that(1) by (auto simp: history_ok_def)
next
  case False
  have wf: "lru_wf l" using assms(1) by (simp add: history_ok_def)
  obtain f l' where f: "pick_victim l = Ok (Some f, l')" "f \<in> candidates l"
    "\<forall>g. history_of l' g = (if g = f then None else history_of l g)" "lru_wf l'"
    using pick_victim_spec [OF wf, unfolded if_not_P [OF False]] by blast
  obtain h where "history_of l f = Some h" using f(2) by (auto simp: candidates_def)
  then obtain pid where pid: "f < length frames" "frame_page (frames ! f) = Some pid"
    using assms(1) unfolding history_ok_def by blast
  have "history_ok frames l'" by (rule history_ok_picked [OF assms(1) f(3) [rule_format] f(4)])
  with pid show ?thesis using that(2) f(1) assms(2) by simp
qed

section \<open>The operations of the pool\<close>

context page_source
begin

abbreviation inv :: "'s buffer_pool \<Rightarrow> bool" where
  "inv \<equiv> pool_inv content src_ok sz"

abbreviation view :: "'s buffer_pool \<Rightarrow> page_id \<Rightarrow> bytes" where
  "view \<equiv> pool_page content"

lemma write_back_spec:
  assumes "inv p" "f < length (bp_frames p)" "frame_page (bp_frames p ! f) = Some pid"
    "write_back ops pid (bp_frames p ! f) p = (r, p')"
  shows "inv p' \<and> view p' = view p \<and> r \<noteq> Panic \<and> bp_frames p' = bp_frames p
    \<and> bp_page_table p' = bp_page_table p \<and> bp_replacer p' = bp_replacer p
    \<and> bp_free_list p' = bp_free_list p
    \<and> (r = Ok () \<longrightarrow> content (bp_source p') pid = fr_data (bp_frames p ! f))"
proof (cases "fr_dirty (bp_frames p ! f)")
  case False
  then show ?thesis using assms
    by (auto simp: write_back_def pool_inv_def clean_ok_def)
next
  case True
  obtain r0 src where w: "ps_write ops (bp_source p) pid (fr_data (bp_frames p ! f)) = (r0, src)"
    by (cases "ps_write ops (bp_source p) pid (fr_data (bp_frames p ! f))")
  have "src_ok (bp_source p)" "length (fr_data (bp_frames p ! f)) = sz"
    using assms(1,2) by (simp_all add: pool_inv_def clean_ok_def)
  then show ?thesis
  proof (rule write_ok_cases [OF _ _ w])
    assume ok: "r0 = Ok ()" "src_ok src"
      "content src = (content (bp_source p))(pid := fr_data (bp_frames p ! f))"
    have "table_ok (bp_frames p) (bp_page_table p)" using assms(1) by (simp add: pool_inv_def)
    note wb = written_back [OF assms(2,3) this]
    show ?thesis using assms True w ok wb
      by (auto simp: write_back_def upd_stats_def pool_inv_def pool_page_def)
  next
    fix e assume "r0 = Err e" "src_ok src" "content src = content (bp_source p)"
    then show ?thesis using assms True w
      by (auto simp: write_back_def pool_inv_def pool_page_def)
  qed
qed

lemma evict_spec:
  assumes inv: "inv p" and ev: "evict_or_take_free ops p = (r, p')"
  shows "inv p' \<and> view p' = view p \<and> r \<noteq> Panic \<and> length (bp_frames p') = length (bp_frames p)
    \<and> (\<forall>q. map_of (bp_page_table p) q = None \<longrightarrow> map_of (bp_page_table p') q = None)
    \<and> (\<forall>e. r = Err e \<longrightarrow> bp_frames p' = bp_frames p \<and> bp_page_table p' = bp_page_table p)
    \<and> (\<forall>f. r = Ok f \<longrightarrow> f < length (bp_frames p) \<and> frame_page (bp_frames p' ! f) = None
        \<and> f \<notin> set (bp_free_list p') \<and> \<not> is_pinned (bp_frames p ! f)
        \<and> (\<forall>j. j \<noteq> f \<longrightarrow> bp_frames p' ! j = bp_frames p ! j))"
proof (cases "bp_free_list p = []")
  case False
  let ?f = "last (bp_free_list p)"
  have fl: "bp_free_list p = butlast (bp_free_list p) @ [?f]" using False by simp
  have free: "free_ok (bp_frames p) (bp_free_list p)" using inv by (simp add: pool_inv_def)
  have "?f < length (bp_frames p)" "frame_page (bp_frames p ! ?f) = None"
    "\<not> is_pinned (bp_frames p ! ?f)"
    using free False by (simp_all add: free_ok_def)
  moreover have "?f \<notin> set (butlast (bp_free_list p))" "free_ok (bp_frames p) (butlast (bp_free_list p))"
    using free fl by (simp_all add: free_ok_def distinct_butlast in_set_butlastD)
      (metis distinct_append disjoint_insert(1) list.set(2))
  moreover have "r = Ok ?f" "p' = p\<lparr>bp_free_list := butlast (bp_free_list p)\<rparr>"
    using ev False by (simp_all add: evict_or_take_free_def)
  ultimately show ?thesis using inv by (simp add: pool_inv_def pool_page_def)
next
  case True
  have hist: "history_ok (bp_frames p) (bp_replacer p)" using inv by (simp add: pool_inv_def)
  consider "pick_victim (bp_replacer p) = Ok (None, bp_replacer p)"
    | f l pid where "pick_victim (bp_replacer p) = Ok (Some f, l)" "f < length (bp_frames p)"
      "frame_page (bp_frames p ! f) = Some pid" "history_ok (bp_frames p) l"
    using pick_victim_cases [OF hist refl] by metis
  then show ?thesis
  proof cases
    case 1
    then have "r = Err (internal ''BufferPool: no evictable frames (all pinned?)'')" "p' = p"
      using ev True by (auto simp: evict_or_take_free_def)
    then show ?thesis using inv by simp
  next
    case (2 f l pid)
    let ?p = "p\<lparr>bp_replacer := l\<rparr>"
    have inv1: "inv ?p" "view ?p = view p" using inv 2(4) by (simp_all add: pool_inv_def pool_page_def)
    show ?thesis
    proof (cases "is_pinned (bp_frames p ! f)")
      case pinned: True
      then have "r \<noteq> Panic \<and> (\<forall>f. r \<noteq> Ok f) \<and> p' = ?p"
        using ev True 2 by (auto simp: evict_or_take_free_def with_frame_def)
      then show ?thesis using inv1 by auto
    next
      case free: False
      obtain r1 p1 where wb: "write_back ops pid (bp_frames p ! f) ?p = (r1, p1)"
        by (cases "write_back ops pid (bp_frames p ! f) ?p")
      note wbs = write_back_spec [OF inv1(1), of f pid r1 p1]
      have spec: "inv p1 \<and> view p1 = view ?p \<and> r1 \<noteq> Panic \<and> bp_frames p1 = bp_frames p
          \<and> bp_page_table p1 = bp_page_table p \<and> bp_replacer p1 = l \<and> bp_free_list p1 = bp_free_list p
          \<and> (r1 = Ok () \<longrightarrow> content (bp_source p1) pid = fr_data (bp_frames p ! f))"
        using wbs 2 wb by simp
      show ?thesis
      proof (cases r1)
        case (Err e)
        then have "r = Err e" "p' = p1"
          using ev True 2 free wb by (simp_all add: evict_or_take_free_def with_frame_def)
        then show ?thesis using spec inv1(2) by simp
      next
        case (Ok u)
        then have r: "r = Ok f" "p' = detach pid f p1"
          using ev True 2 free wb by (simp_all add: evict_or_take_free_def with_frame_def)
        have disk: "content (bp_source p1) pid = fr_data (bp_frames p1 ! f)" using spec Ok by simp
        have "table_ok (bp_frames p) (bp_page_table p)" using inv by (simp add: pool_inv_def)
        then have parts: "f < length (bp_frames p1)" "frame_page (bp_frames p1 ! f) = Some pid"
          "table_ok (bp_frames p1) (bp_page_table p1)" using spec 2 by simp_all
        note em = emptied_frame [where disk = "content (bp_source p1)", OF parts(1,2) disk parts(3) refl]
        have "inv (detach pid f p1)" "view (detach pid f p1) = view p1"
          using conjunct1 [OF spec] em
          by (simp_all add: detach_def pool_upds pool_inv_def pool_page_def)
        moreover have "f \<notin> set (bp_free_list p1)" 
          using em(2) [of "bp_free_list p1"] conjunct1 [OF spec] by (simp add: pool_inv_def)
        moreover have "map_of (bp_page_table p) q = None \<longrightarrow>
            map_of (bp_page_table (detach pid f p1)) q = None" for q
          using spec by (simp add: detach_def pool_upds delete_conv')
        ultimately show ?thesis using r spec inv1(2) 2 free
          by (simp add: detach_def pool_upds frame_upds nth_list_update)
      next
        case Panic
        then show ?thesis using spec by simp
      qed
    qed
  qed
qed

lemma pin_hit:
  assumes inv: "inv p" and hit: "map_of (bp_page_table p) pid = Some f"
    and pin: "pin_page ops p pid hint = (r, p')"
  shows "inv p'" "view p' = view p" "r = Ok f" "f < length (bp_frames p)"
    "bp_frames p' = (bp_frames p)[f := frame_pin (bp_frames p ! f)]"
    "bp_page_table p' = bp_page_table p" "fr_data (bp_frames p ! f) = view p pid"
proof -
  have f: "f < length (bp_frames p)" "frame_page (bp_frames p ! f) = Some pid"
    using inv hit by (auto simp: pool_inv_def table_ok_def)
  have same: "frame_page (frame_pin (bp_frames p ! f)) = frame_page (bp_frames p ! f)"
    "fr_data (frame_pin (bp_frames p ! f)) = fr_data (bp_frames p ! f)"
    "fr_dirty (frame_pin (bp_frames p ! f)) = fr_dirty (bp_frames p ! f)"
    by (simp_all add: frame_pin_def frame_page_def)
  have "frame_page (frame_pin (bp_frames p ! f)) \<noteq> None" using same f by simp
  note parts = same_page_frames [OF f(1) same(1,2), unfolded same(3)]
  show "r = Ok f" and frames: "bp_frames p' = (bp_frames p)[f := frame_pin (bp_frames p ! f)]"
    and table: "bp_page_table p' = bp_page_table p" and "f < length (bp_frames p)"
    using pin hit f by (cases hint; auto simp: pin_page_def with_frame_def pool_upds Let_def)+
  have rest: "bp_source p' = bp_source p" "bp_free_list p' = bp_free_list p"
      "bp_replacer p' = (if hint = Point then lru_record_access (bp_replacer p) f else bp_replacer p)"
    using pin hit f by (cases hint; auto simp: pin_page_def with_frame_def pool_upds Let_def)+
  have "history_ok (bp_frames p') (bp_replacer p')"
    using inv f same parts(4) history_ok_access [of "bp_frames p'" "bp_replacer p" f pid]
    by (simp add: pool_inv_def frames rest nth_list_update)
  then show "inv p'" using inv parts same f by (simp add: pool_inv_def frames table rest)
  show "view p' = view p" using parts(5) f(2) by (simp add: pool_page_def frames table rest same)
  show "fr_data (bp_frames p ! f) = view p pid" using hit by (simp add: pool_page_def page_view_def)
qed

text \<open>A failed load leaves the pool with the frame it took, empty and unused.\<close>

lemma load_failed:
  assumes inv: "inv p" and f: "f < length (bp_frames p)" "frame_page (bp_frames p ! f) = None"
    and src: "src_ok src" "length buf = sz" "content src = content (bp_source p)"
  shows "inv (upd_frame f (\<lambda>f. f\<lparr>fr_data := buf\<rparr>) (p\<lparr>bp_source := src\<rparr>))"
    "view (upd_frame f (\<lambda>f. f\<lparr>fr_data := buf\<rparr>) (p\<lparr>bp_source := src\<rparr>)) = view p"
proof -
  have t: "table_ok (bp_frames p) (bp_page_table p)" using inv by (simp add: pool_inv_def)
  note parts = scribbled_frame [OF f src(2) t refl]
  show "inv (upd_frame f (\<lambda>f. f\<lparr>fr_data := buf\<rparr>) (p\<lparr>bp_source := src\<rparr>))"
    using inv parts(1-4) src by (simp add: pool_inv_def upd_frame_def)
  show "view (upd_frame f (\<lambda>f. f\<lparr>fr_data := buf\<rparr>) (p\<lparr>bp_source := src\<rparr>)) = view p"
    using parts(5) src(3) by (simp add: pool_page_def upd_frame_def)
qed

text \<open>Entering a page into an empty frame.\<close>

lemma entered_page:
  assumes inv: "inv p" and f: "f < length (bp_frames p)" "frame_page (bp_frames p ! f) = None"
      "f \<notin> set (bp_free_list p)"
    and pid: "map_of (bp_page_table p) pid = None"
    and g: "frame_page g = Some pid" "length (fr_data g) = sz"
      "fr_dirty g \<or> fr_data g = content (bp_source p) pid"
    and src: "src_ok (bp_source p')" "content (bp_source p') = content (bp_source p)"
    and p': "bp_frames p' = (bp_frames p)[f := g]"
      "bp_page_table p' = AList.update pid f (bp_page_table p)" "bp_free_list p' = bp_free_list p"
      "bp_replacer p' = lru_record_access (bp_replacer p) f
       \<or> bp_replacer p' = lru_mark_evictable (lru_record_access (bp_replacer p) f) f"
  shows "inv p'" "view p' = (view p)(pid := fr_data g)"
proof -
  have t: "table_ok (bp_frames p) (bp_page_table p)" using inv by (simp add: pool_inv_def)
  note fill = filled_frame [where disk = "content (bp_source p)" and sz = sz, OF f pid t g]
  have "history_ok (bp_frames p') (bp_replacer p')"
    using inv fill(4) p'(4) history_ok_mark by (auto simp: pool_inv_def p'(1))
  then show "inv p'" using inv fill(1-3) src by (simp add: pool_inv_def p'(1-3))
  show "view p' = (view p)(pid := fr_data g)"
    using fill(5) src by (simp add: pool_page_def p'(1,2))
qed

lemma load_page_spec:
  assumes inv: "inv p" and pid: "page_raw pid \<noteq> INVALID_PAGE_ID"
    and miss: "map_of (bp_page_table p) pid = None"
    and f: "f < length (bp_frames p)" "frame_page (bp_frames p ! f) = None" "f \<notin> set (bp_free_list p)"
    and load: "load_page ops p pid hint f = (r, p')"
  shows "inv p' \<and> view p' = view p \<and> r \<noteq> Panic \<and> length (bp_frames p') = length (bp_frames p)
    \<and> (\<forall>g. r = Ok g \<longrightarrow> g = f \<and> fr_data (bp_frames p' ! f) = view p pid
        \<and> map_of (bp_page_table p') pid = Some f)
    \<and> (\<forall>j. j \<noteq> f \<longrightarrow> bp_frames p' ! j = bp_frames p ! j)"
proof -
  let ?g = "bp_frames p ! f"
  obtain buf r2 src where rd: "ps_read ops (bp_source p) pid (fr_data ?g) = (buf, r2, src)"
    by (cases "ps_read ops (bp_source p) pid (fr_data ?g)")
  have "src_ok (bp_source p)" "length (fr_data ?g) = sz"
    using inv f(1) by (simp_all add: pool_inv_def clean_ok_def)
  from read_contract [OF this rd] have src: "src_ok src" "length buf = sz"
    "content src = content (bp_source p)" "r2 \<noteq> Panic" "r2 = Ok () \<Longrightarrow> buf = content (bp_source p) pid"
    by simp_all
  let ?p1 = "upd_frame f (\<lambda>f. f\<lparr>fr_data := buf\<rparr>) (p\<lparr>bp_source := src\<rparr>)"
  show ?thesis
  proof (cases r2)
    case (Err e)
    then have r: "r = Err e" "p' = ?p1" using load rd f(1) by (simp_all add: load_page_def with_frame_def)
    then show ?thesis
      using load_failed [OF inv f(1,2) src(1-3)] by (simp add: upd_frame_def)
  next
    case ok2: (Ok u)
    let ?g2 = "frame_pin (clear_dirty (set_page_id pid (?g\<lparr>fr_data := buf\<rparr>)))"
    have g2: "frame_page ?g2 = Some pid" "fr_data ?g2 = buf"
      using pid by (cases pid, simp_all add: frame_upds)
    let ?p2 = "upd_frame f (\<lambda>f. frame_pin (clear_dirty (set_page_id pid f))) ?p1"
    let ?p3 = "upd_replacer (\<lambda>l. lru_record_access l f)
      (?p2\<lparr>bp_page_table := AList.update pid f (bp_page_table ?p2)\<rparr>)"
    have eq: "r = Ok f"
      "p' = (if hint = Point then ?p3 else upd_replacer (\<lambda>l. lru_mark_evictable l f) ?p3)"
      using load rd f(1) ok2 by (simp_all add: load_page_def with_frame_def Let_def)
    have frames: "bp_frames p' = (bp_frames p)[f := ?g2]"
      and table: "bp_page_table p' = AList.update pid f (bp_page_table p)"
      and rest: "bp_source p' = src" "bp_free_list p' = bp_free_list p"
        "bp_replacer p' = lru_record_access (bp_replacer p) f
         \<or> bp_replacer p' = lru_mark_evictable (lru_record_access (bp_replacer p) f) f"
      using eq(2) f(1) by (cases hint; simp add: pool_upds)+
    have buf: "buf = content (bp_source p) pid" using src(5) ok2 by simp
    have "inv p'" "view p' = (view p)(pid := fr_data ?g2)"
      using entered_page [OF inv f miss g2(1) _ _ _ _ frames table rest(2,3)] g2(2) src buf rest(1)
      by simp_all
    moreover have "view p pid = buf" using buf miss by (simp add: pool_page_def page_view_def)
    moreover have "fr_data (bp_frames p' ! f) = buf" using f(1) g2(2) by (simp add: frames)
    ultimately show ?thesis using eq(1) g2(2) f(1) by (simp add: frames table update_conv' fun_upd_idem)
  next
    case Panic
    then show ?thesis using src by simp
  qed
qed

lemma pin_miss:
  assumes inv: "inv p" and pid: "page_raw pid \<noteq> INVALID_PAGE_ID"
    and miss: "map_of (bp_page_table p) pid = None"
    and pin: "pin_page ops p pid hint = (r, p')"
  shows "inv p' \<and> view p' = view p \<and> r \<noteq> Panic \<and> length (bp_frames p') = length (bp_frames p)
    \<and> (\<forall>f. r = Ok f \<longrightarrow> f < length (bp_frames p) \<and> fr_data (bp_frames p' ! f) = view p pid
        \<and> map_of (bp_page_table p') pid = Some f)
    \<and> (\<exists>f. (f < length (bp_frames p) \<longrightarrow> \<not> is_pinned (bp_frames p ! f))
        \<and> (\<forall>j. j \<noteq> f \<longrightarrow> bp_frames p' ! j = bp_frames p ! j))"
proof -
  define p0 where "p0 = upd_stats (\<lambda>s. s\<lparr>st_misses := st_misses s + 1\<rparr>) p"
  have p0: "inv p0" "view p0 = view p" "bp_frames p0 = bp_frames p" "bp_page_table p0 = bp_page_table p"
    using inv by (simp_all add: p0_def upd_stats_def pool_inv_def pool_page_def)
  obtain r1 p1 where ev: "evict_or_take_free ops p0 = (r1, p1)" by (cases "evict_or_take_free ops p0")
  note es = evict_spec [OF p0(1) ev, unfolded p0(2-4)]
  show ?thesis
  proof (cases r1)
    case (Err e)
    then have "r = Err e" "p' = p1"
      using pin miss ev by (simp_all add: pin_page_def p0_def [symmetric] Let_def)
    moreover have "\<exists>f. (f < length (bp_frames p) \<longrightarrow> \<not> is_pinned (bp_frames p ! f))
        \<and> (\<forall>j. j \<noteq> f \<longrightarrow> bp_frames p1 ! j = bp_frames p ! j)"
      using es Err by (intro exI [of _ "length (bp_frames p)"]) simp
    ultimately show ?thesis using es Err by simp
  next
    case (Ok f)
    have f: "f < length (bp_frames p1)" "frame_page (bp_frames p1 ! f) = None"
      "f \<notin> set (bp_free_list p1)" "map_of (bp_page_table p1) pid = None" "inv p1"
      using es Ok miss by simp_all
    have "load_page ops p1 pid hint f = (r, p')"
      using pin miss ev Ok by (simp add: pin_page_def p0_def [symmetric] Let_def)
    note ls = load_page_spec [OF f(5) pid f(4) f(1-3) this]
    have "\<exists>f. (f < length (bp_frames p) \<longrightarrow> \<not> is_pinned (bp_frames p ! f))
        \<and> (\<forall>j. j \<noteq> f \<longrightarrow> bp_frames p' ! j = bp_frames p ! j)"
      using es Ok ls by (intro exI [of _ f]) simp
    moreover have "r = Ok g \<Longrightarrow> g < length (bp_frames p) \<and> fr_data (bp_frames p' ! g) = view p pid
        \<and> map_of (bp_page_table p') pid = Some g" for g
      using es Ok ls by auto
    moreover have "inv p' \<and> view p' = view p \<and> r \<noteq> Panic \<and> length (bp_frames p') = length (bp_frames p)"
      using es Ok ls by simp
    ultimately show ?thesis by blast
  next
    case Panic
    then show ?thesis using es by simp
  qed
qed

lemma new_page_spec:
  assumes inv: "inv p" and pid: "page_raw pid \<noteq> INVALID_PAGE_ID"
    and new: "new_page ops p pid = (r, p')"
  shows "inv p' \<and> r \<noteq> Panic \<and> length (bp_frames p') = length (bp_frames p)
    \<and> view p' = (case r of Ok _ \<Rightarrow> (view p)(pid := replicate sz 0) | _ \<Rightarrow> view p)
    \<and> (\<forall>f. r = Ok f \<longrightarrow> f < length (bp_frames p) \<and> fr_data (bp_frames p' ! f) = replicate sz 0)
    \<and> (\<exists>f. (f < length (bp_frames p) \<longrightarrow> \<not> is_pinned (bp_frames p ! f))
        \<and> (\<forall>j. j \<noteq> f \<longrightarrow> bp_frames p' ! j = bp_frames p ! j))"
proof (cases "map_of (bp_page_table p) pid = None")
  case False
  then have "p' = p" "\<exists>e. r = Err e" using new by (auto simp: new_page_def)
  moreover have "\<exists>f. (f < length (bp_frames p) \<longrightarrow> \<not> is_pinned (bp_frames p ! f))
      \<and> (\<forall>j. j \<noteq> f \<longrightarrow> bp_frames p ! j = bp_frames p ! j)"
    by (intro exI [of _ "length (bp_frames p)"]) simp
  ultimately show ?thesis using inv by auto
next
  case True
  define p0 where "p0 = upd_stats (\<lambda>s. s\<lparr>st_misses := st_misses s + 1\<rparr>) p"
  have p0: "inv p0" "view p0 = view p" "bp_frames p0 = bp_frames p" "bp_page_table p0 = bp_page_table p"
    using inv by (simp_all add: p0_def upd_stats_def pool_inv_def pool_page_def)
  obtain r1 p1 where ev: "evict_or_take_free ops p0 = (r1, p1)" by (cases "evict_or_take_free ops p0")
  note es = evict_spec [OF p0(1) ev, unfolded p0(2-4)]
  show ?thesis
  proof (cases r1)
    case (Err e)
    then have "r = Err e" "p' = p1"
      using new True ev by (simp_all add: new_page_def p0_def [symmetric] Let_def)
    moreover have "\<exists>f. (f < length (bp_frames p) \<longrightarrow> \<not> is_pinned (bp_frames p ! f))
        \<and> (\<forall>j. j \<noteq> f \<longrightarrow> bp_frames p1 ! j = bp_frames p ! j)"
      using es Err by (intro exI [of _ "length (bp_frames p)"]) simp
    ultimately show ?thesis using es Err by simp
  next
    case (Ok f)
    let ?g = "bp_frames p1 ! f"
    have f: "f < length (bp_frames p1)" "frame_page ?g = None" "f \<notin> set (bp_free_list p1)"
      and old: "\<not> is_pinned (bp_frames p ! f)" "\<forall>j. j \<noteq> f \<longrightarrow> bp_frames p1 ! j = bp_frames p ! j"
      using es Ok by simp_all
    have inv1: "inv p1" "view p1 = view p" and len: "length (bp_frames p1) = length (bp_frames p)"
      and table1: "map_of (bp_page_table p1) pid = None"
      using es True by simp_all
    have src: "src_ok (bp_source p1)" "length (fr_data ?g) = sz"
      using inv1(1) f(1) by (simp_all add: pool_inv_def clean_ok_def)
    let ?g2 = "frame_pin (frame_mark_dirty 0 (set_page_id pid (?g\<lparr>fr_data := map (\<lambda>_. 0) (fr_data ?g)\<rparr>)))"
    have g2: "frame_page ?g2 = Some pid" "fr_data ?g2 = replicate sz 0" "fr_dirty ?g2"
      using pid src(2) by (cases pid, simp_all add: frame_upds map_replicate_const)
    let ?p2 = "upd_frame f (\<lambda>f. frame_pin (frame_mark_dirty 0 (set_page_id pid
        (f\<lparr>fr_data := map (\<lambda>_. 0) (fr_data f)\<rparr>)))) p1"
    have eq: "r = Ok f" "p' = upd_replacer (\<lambda>l. lru_record_access l f)
        (?p2\<lparr>bp_page_table := AList.update pid f (bp_page_table ?p2)\<rparr>)"
      using new True ev Ok f(1)
      by (simp_all add: new_page_def p0_def [symmetric] Let_def with_frame_def)
    have r: "r = Ok f" and frames: "bp_frames p' = (bp_frames p1)[f := ?g2]"
      and table: "bp_page_table p' = AList.update pid f (bp_page_table p1)"
      and rest: "bp_source p' = bp_source p1" "bp_free_list p' = bp_free_list p1"
        "bp_replacer p' = lru_record_access (bp_replacer p1) f
         \<or> bp_replacer p' = lru_mark_evictable (lru_record_access (bp_replacer p1) f) f"
      using eq by (simp_all add: pool_upds)
    have "inv p'" "view p' = (view p1)(pid := fr_data ?g2)"
      using entered_page [OF inv1(1) f table1 g2(1) _ _ _ _ frames table rest(2,3)] g2(2,3) src rest(1)
      by simp_all
    moreover have "\<exists>f. (f < length (bp_frames p) \<longrightarrow> \<not> is_pinned (bp_frames p ! f))
        \<and> (\<forall>j. j \<noteq> f \<longrightarrow> bp_frames p' ! j = bp_frames p ! j)"
      using old by (intro exI [of _ f]) (simp add: frames)
    moreover have "fr_data (bp_frames p' ! f) = replicate sz 0" using f(1) g2(2) by (simp add: frames)
    moreover have "length (bp_frames p') = length (bp_frames p)" using len by (simp add: frames)
    ultimately show ?thesis using r f(1) len inv1(2) g2(2) by simp
  next
    case Panic
    then show ?thesis using es by simp
  qed
qed

lemma flush_page_spec:
  assumes inv: "inv p" and flush: "flush_page ops p pid = (r, p')"
  shows "inv p' \<and> view p' = view p \<and> r \<noteq> Panic \<and> bp_page_table p' = bp_page_table p
    \<and> length (bp_frames p') = length (bp_frames p)
    \<and> (\<forall>j. frame_page (bp_frames p' ! j) = frame_page (bp_frames p ! j)
        \<and> fr_data (bp_frames p' ! j) = fr_data (bp_frames p ! j))
    \<and> (r = Ok () \<longrightarrow> content (bp_source p') pid = view p pid)
    \<and> (\<forall>q. content (bp_source p) q = view p q \<longrightarrow> content (bp_source p') q = view p q)"
proof (cases "map_of (bp_page_table p) pid")
  case None
  then have "r = Ok ()" "p' = p" using flush by (simp_all add: flush_page_def)
  then show ?thesis using inv None by (simp add: pool_page_def page_view_def)
next
  case (Some f)
  let ?g = "bp_frames p ! f"
  have f: "f < length (bp_frames p)" "frame_page ?g = Some pid"
    using inv Some by (auto simp: pool_inv_def table_ok_def)
  have here: "view p pid = fr_data ?g" using Some by (simp add: pool_page_def page_view_def)
  have t: "table_ok (bp_frames p) (bp_page_table p)" using inv by (simp add: pool_inv_def)
  show ?thesis
  proof (cases "fr_dirty ?g")
    case False
    then have "r = Ok ()" "p' = p" using flush Some f by (simp_all add: flush_page_def with_frame_def)
    then show ?thesis using inv here f False by (simp add: pool_inv_def clean_ok_def)
  next
    case True
    obtain r0 src where w: "ps_write ops (bp_source p) pid (fr_data ?g) = (r0, src)"
      by (cases "ps_write ops (bp_source p) pid (fr_data ?g)")
    have "src_ok (bp_source p)" "length (fr_data ?g) = sz"
      using inv f(1) by (simp_all add: pool_inv_def clean_ok_def)
    then show ?thesis
    proof (rule write_ok_cases [OF _ _ w])
      fix e assume "r0 = Err e" "src_ok src" "content src = content (bp_source p)"
      then show ?thesis using flush Some f True w inv
        by (auto simp: flush_page_def with_frame_def pool_inv_def pool_page_def)
    next
      assume ok: "r0 = Ok ()" "src_ok src" "content src = (content (bp_source p))(pid := fr_data ?g)"
      have r: "r = Ok ()" and frames: "bp_frames p' = (bp_frames p)[f := clear_dirty ?g]"
        and rest: "bp_page_table p' = bp_page_table p" "bp_source p' = src"
          "bp_free_list p' = bp_free_list p" "bp_replacer p' = bp_replacer p"
        using flush Some f True w ok
        by (auto simp: flush_page_def with_frame_def pool_upds Let_def)
      have same: "frame_page (clear_dirty ?g) = frame_page ?g" "fr_data (clear_dirty ?g) = fr_data ?g"
        "is_pinned (clear_dirty ?g) = is_pinned ?g"
        by (simp_all add: clear_dirty_def frame_page_def is_pinned_def)
      note wb = written_back [OF f t]
      have keep: "table_ok ((bp_frames p)[f := clear_dirty ?g]) (bp_page_table p)"
        "free_ok ((bp_frames p)[f := clear_dirty ?g]) (bp_free_list p)"
        "history_ok ((bp_frames p)[f := clear_dirty ?g]) (bp_replacer p)"
        using inv f same by (auto simp: pool_inv_def table_ok_def free_ok_def history_ok_def nth_list_update)
      have view: "page_view ((bp_frames p)[f := clear_dirty ?g]) (bp_page_table p) d
          = page_view (bp_frames p) (bp_page_table p) d" for d
        using f same by (intro ext) (auto simp: page_view_def nth_list_update split: option.split)
      have "clean_ok (content src) sz ((bp_frames p)[f := clear_dirty ?g])"
        using inv wb(1) f ok(3) by (intro clean_frame [OF f]) (simp_all add: pool_inv_def)
      then have "inv p'" using keep ok(2) by (simp add: pool_inv_def frames rest)
      moreover have "view p' = view p"
        using wb(2) view by (simp add: pool_page_def frames rest ok(3))
      moreover have "frame_page (bp_frames p' ! j) = frame_page (bp_frames p ! j)
          \<and> fr_data (bp_frames p' ! j) = fr_data (bp_frames p ! j)" for j
        using f same by (cases "j = f") (simp_all add: frames)
      ultimately show ?thesis using r here by (simp add: frames rest ok(3))
    qed
  qed
qed

lemma flush_pages_spec:
  assumes "inv p" "flush_pages ops pids p = (r, p')"
  shows "inv p' \<and> view p' = view p \<and> r \<noteq> Panic \<and> bp_page_table p' = bp_page_table p
    \<and> (\<forall>j. frame_page (bp_frames p' ! j) = frame_page (bp_frames p ! j)
        \<and> fr_data (bp_frames p' ! j) = fr_data (bp_frames p ! j))
    \<and> (\<forall>q. content (bp_source p) q = view p q \<longrightarrow> content (bp_source p') q = view p q)
    \<and> (r = Ok () \<longrightarrow> (\<forall>q\<in>set pids. content (bp_source p') q = view p q))"
  using assms
proof (induction pids arbitrary: p)
  case Nil
  then show ?case by auto
next
  case (Cons pid pids)
  obtain r1 p1 where fl: "flush_page ops p pid = (r1, p1)" by (cases "flush_page ops p pid")
  note fs = flush_page_spec [OF Cons.prems(1) fl]
  show ?case
  proof (cases r1)
    case (Ok u)
    then have "flush_pages ops pids p1 = (r, p')" using Cons.prems(2) fl by simp
    with Cons.IH [of p1] fs
    have IH: "inv p'" "view p' = view p" "r \<noteq> Panic" "bp_page_table p' = bp_page_table p"
      "\<forall>j. frame_page (bp_frames p' ! j) = frame_page (bp_frames p ! j)
        \<and> fr_data (bp_frames p' ! j) = fr_data (bp_frames p ! j)"
      "\<forall>q. content (bp_source p1) q = view p q \<longrightarrow> content (bp_source p') q = view p q"
      "r = Ok () \<longrightarrow> (\<forall>q\<in>set pids. content (bp_source p') q = view p q)" by simp_all
    have "content (bp_source p1) pid = view p pid" using fs Ok by simp
    then have here: "content (bp_source p') pid = view p pid" using IH(6) by blast
    have "content (bp_source p) q = view p q \<longrightarrow> content (bp_source p') q = view p q" for q
      using IH(6) fs by blast
    then show ?thesis using IH here by simp
  next
    case (Err e)
    then show ?thesis using Cons.prems(2) fl fs by auto
  next
    case Panic
    then show ?thesis using fs by simp
  qed
qed

lemma flush_all_spec:
  assumes inv: "inv p" and flush: "flush_all ops p = (r, p')"
  shows "inv p' \<and> view p' = view p \<and> r \<noteq> Panic
    \<and> (\<forall>j. frame_page (bp_frames p' ! j) = frame_page (bp_frames p ! j)
        \<and> fr_data (bp_frames p' ! j) = fr_data (bp_frames p ! j))
    \<and> (r = Ok () \<longrightarrow> content (bp_source p') = view p)"
proof -
  note fs = flush_pages_spec [OF inv flush [unfolded flush_all_def]]
  have "content (bp_source p') q = view p q" if "r = Ok ()" for q
  proof (cases "map_of (bp_page_table p) q")
    case None
    then have "content (bp_source p) q = view p q" by (simp add: pool_page_def page_view_def)
    then show ?thesis using fs by blast
  next
    case (Some f)
    then have "q \<in> set (map fst (bp_page_table p))" by (force dest: map_of_SomeD)
    then show ?thesis using fs that by blast
  qed
  then show ?thesis using fs by auto
qed

lemma same_page_inv:
  assumes inv: "inv p" and f: "f < length (bp_frames p)"
    and g: "frame_page (h (bp_frames p ! f)) = frame_page (bp_frames p ! f)"
      "fr_data (h (bp_frames p ! f)) = fr_data (bp_frames p ! f)"
      "\<not> fr_dirty (h (bp_frames p ! f)) \<Longrightarrow> \<not> fr_dirty (bp_frames p ! f)"
      "is_pinned (h (bp_frames p ! f)) \<Longrightarrow> is_pinned (bp_frames p ! f)
         \<or> frame_page (h (bp_frames p ! f)) \<noteq> None"
  shows "inv (upd_frame f h p)" "view (upd_frame f h p) = view p"
    "frame_page (bp_frames (upd_frame f h p) ! j) = frame_page (bp_frames p ! j)"
    "fr_data (bp_frames (upd_frame f h p) ! j) = fr_data (bp_frames p ! j)"
proof -
  note parts = same_page_frames [OF f g]
  show "inv (upd_frame f h p)" using inv parts by (simp add: pool_inv_def upd_frame_def)
  show "view (upd_frame f h p) = view p" using parts(5) by (simp add: pool_page_def upd_frame_def)
  show "frame_page (bp_frames (upd_frame f h p) ! j) = frame_page (bp_frames p ! j)"
    "fr_data (bp_frames (upd_frame f h p) ! j) = fr_data (bp_frames p ! j)"
    using f g(1,2) by (cases "j = f"; simp add: upd_frame_def)+
qed

lemma release_pin_spec:
  assumes inv: "inv p" and f: "f < length (bp_frames p)" "is_pinned (bp_frames p ! f)"
  shows "\<exists>p'. release_pin p f = (Ok (), p') \<and> inv p' \<and> view p' = view p
    \<and> (\<forall>j. frame_page (bp_frames p' ! j) = frame_page (bp_frames p ! j)
        \<and> fr_data (bp_frames p' ! j) = fr_data (bp_frames p ! j))"
proof -
  have g: "frame_page (frame_unpin (bp_frames p ! f)) = frame_page (bp_frames p ! f)"
    "fr_data (frame_unpin (bp_frames p ! f)) = fr_data (bp_frames p ! f)"
    "fr_dirty (frame_unpin (bp_frames p ! f)) = fr_dirty (bp_frames p ! f)"
    by (simp_all add: frame_unpin_def frame_page_def)
  note up = same_page_inv [where h = frame_unpin, OF inv f(1) g(1,2), unfolded g(3)]
  have mark: "inv q \<Longrightarrow> inv (upd_replacer (\<lambda>l. lru_mark_evictable l f) q)"
    "view (upd_replacer (\<lambda>l. lru_mark_evictable l f) q) = view q"
    "bp_frames (upd_replacer (\<lambda>l. lru_mark_evictable l f) q) = bp_frames q" for q
    using history_ok_mark by (auto simp: upd_replacer_def pool_inv_def pool_page_def)
  show ?thesis
    using f up mark [of "upd_frame f frame_unpin p"] by (simp add: release_pin_def with_frame_def Let_def)
qed

lemma guard_mark_dirty_spec:
  assumes inv: "inv p" and f: "f < length (bp_frames p)"
  shows "\<exists>p'. guard_mark_dirty p f lsn = (Ok (), p') \<and> inv p' \<and> view p' = view p
    \<and> (\<forall>j. frame_page (bp_frames p' ! j) = frame_page (bp_frames p ! j)
        \<and> fr_data (bp_frames p' ! j) = fr_data (bp_frames p ! j))"
proof -
  have g: "frame_page (frame_mark_dirty lsn (bp_frames p ! f)) = frame_page (bp_frames p ! f)"
    "fr_data (frame_mark_dirty lsn (bp_frames p ! f)) = fr_data (bp_frames p ! f)"
    "fr_dirty (frame_mark_dirty lsn (bp_frames p ! f))"
    "is_pinned (frame_mark_dirty lsn (bp_frames p ! f)) = is_pinned (bp_frames p ! f)"
    by (simp_all add: frame_mark_dirty_def frame_page_def is_pinned_def)
  note up = same_page_inv [where h = "frame_mark_dirty lsn", OF inv f g(1,2)]
  show ?thesis using f up g by (simp add: guard_mark_dirty_def with_frame_def)
qed

end


section \<open>The source in memory keeps the contract\<close>

definition mem_content :: "mem_source \<Rightarrow> page_id \<Rightarrow> bytes" where
  "mem_content s pid = (case ms_pages s pid of Some bs \<Rightarrow> bs | None \<Rightarrow> replicate (ms_page_size s) 0)"

definition mem_ok :: "nat \<Rightarrow> mem_source \<Rightarrow> bool" where
  "mem_ok sz s \<longleftrightarrow> ms_page_size s = sz \<and> (\<forall>pid bs. ms_pages s pid = Some bs \<longrightarrow> length bs = sz)"

interpretation mem: page_source mem_ops mem_content "mem_ok sz" sz for sz
proof
  fix s pid buf buf' r s'
  assume "mem_ok sz s" "length buf = sz" "ps_read mem_ops s pid buf = (buf', r, s')"
  then show "mem_ok sz s' \<and> length buf' = sz \<and> mem_content s' = mem_content s \<and> r \<noteq> Panic
      \<and> (r = Ok () \<longrightarrow> buf' = mem_content s pid)"
    by (auto simp: mem_ops_def mem_read_def mem_ok_def mem_content_def map_replicate_const
        split: option.splits if_splits)
next
  fix s pid buf r s'
  assume "mem_ok sz s" "length buf = sz" "ps_write mem_ops s pid buf = (r, s')"
  then show "mem_ok sz s' \<and> r \<noteq> Panic
      \<and> mem_content s' = (if r = Ok () then (mem_content s)(pid := buf) else mem_content s)"
    by (auto simp: mem_ops_def mem_write_def mem_ok_def mem_content_def fun_eq_iff
        split: option.splits if_splits)
qed

section \<open>A fresh pool\<close>

lemma make_frames_ok:
  "0 < sz \<Longrightarrow> \<exists>fs. make_frames i n sz = Ok fs \<and> length fs = n
     \<and> (\<forall>f\<in>set fs. frame_page f = None \<and> \<not> is_pinned f \<and> length (fr_data f) = sz)"
proof (induction n arbitrary: i)
  case (Suc n)
  obtain fs where "make_frames (Suc i) n sz = Ok fs" "length fs = n"
    "\<forall>f\<in>set fs. frame_page f = None \<and> \<not> is_pinned f \<and> length (fr_data f) = sz"
    using Suc.IH [OF Suc.prems, of "Suc i"] by blast
  then show ?case using Suc.prems by (simp add: frame_new_def frame_page_def is_pinned_def)
qed simp

lemma history_of_new: "history_of lru_new f = None"
  by (simp add: lru_new_def)

lemma pool_new_fields:
  assumes "pool_new ops src n sz = Ok p"
  shows "bp_page_table p = []" "bp_free_list p = [0..<n]" "bp_replacer p = lru_new"
    "bp_source p = src" "length (bp_frames p) = n"
    "f \<in> set (bp_frames p) \<Longrightarrow> frame_page f = None \<and> \<not> is_pinned f \<and> length (fr_data f) = sz"
proof -
  have sz: "0 < sz" using assms by (auto simp: pool_new_def split: if_splits)
  obtain fs where fs: "make_frames 0 n sz = Ok fs" "length fs = n"
    "\<forall>f\<in>set fs. frame_page f = None \<and> \<not> is_pinned f \<and> length (fr_data f) = sz"
    using make_frames_ok [OF sz, of 0 n] by blast
  have "bp_frames p = fs" using assms fs(1) by (auto simp: pool_new_def split: if_splits)
  then show "length (bp_frames p) = n"
    "f \<in> set (bp_frames p) \<Longrightarrow> frame_page f = None \<and> \<not> is_pinned f \<and> length (fr_data f) = sz"
    using fs(2,3) by simp_all
  show "bp_page_table p = []" "bp_free_list p = [0..<n]" "bp_replacer p = lru_new" "bp_source p = src"
    using assms fs(1) by (auto simp: pool_new_def split: if_splits)
qed

lemma pool_new_inv:
  assumes "pool_new ops src n sz = Ok p" "src_ok src"
  shows "pool_inv content src_ok sz p" "pool_page content p = content src"
proof -
  note parts = pool_new_fields [OF assms(1)]
  have at: "f < n \<Longrightarrow> frame_page (bp_frames p ! f) = None \<and> \<not> is_pinned (bp_frames p ! f)
      \<and> length (fr_data (bp_frames p ! f)) = sz" for f
    using parts(6) [OF nth_mem, of f] parts(5) by simp
  show "pool_inv content src_ok sz p"
    using assms(2)
    by (auto simp: pool_inv_def parts(1-5) table_ok_def free_ok_def clean_ok_def history_ok_def
        lru_wf_new history_of_new at)
  show "pool_page content p = content src"
    by (intro ext) (simp add: pool_page_def page_view_def parts)
qed

section \<open>Properties\<close>

lemma untouched:
  "\<exists>f. (f < n \<longrightarrow> \<not> is_pinned (fs ! f)) \<and> (\<forall>j. j \<noteq> f \<longrightarrow> gs ! j = fs ! j)
     \<Longrightarrow> j < n \<Longrightarrow> is_pinned (fs ! j) \<Longrightarrow> gs ! j = fs ! j"
  by metis

text \<open>One call on the pool.\<close>

datatype pool_op = PoolPin page_id read_hint | PoolNew page_id | PoolFlush page_id | PoolFlushAll
  | PoolRelease frame_id | PoolDirty frame_id u64

fun pool_step :: "'s page_source_ops \<Rightarrow> pool_op \<Rightarrow> 's buffer_pool \<Rightarrow> 's buffer_pool" where
  "pool_step ops (PoolPin pid hint) p = snd (pin_page ops p pid hint)"
| "pool_step ops (PoolNew pid) p = snd (new_page ops p pid)"
| "pool_step ops (PoolFlush pid) p = snd (flush_page ops p pid)"
| "pool_step ops PoolFlushAll p = snd (flush_all ops p)"
| "pool_step ops (PoolRelease f) p = snd (release_pin p f)"
| "pool_step ops (PoolDirty f lsn) p = snd (guard_mark_dirty p f lsn)"

text \<open>Guards exist only for pinned frames, and no page has the reserved identifier.\<close>

fun legal_op :: "'s buffer_pool \<Rightarrow> pool_op \<Rightarrow> bool" where
  "legal_op p (PoolPin pid hint) = (page_raw pid \<noteq> INVALID_PAGE_ID)"
| "legal_op p (PoolNew pid) = (page_raw pid \<noteq> INVALID_PAGE_ID)"
| "legal_op p (PoolRelease f) = (f < length (bp_frames p) \<and> is_pinned (bp_frames p ! f))"
| "legal_op p (PoolDirty f lsn) = (f < length (bp_frames p))"
| "legal_op p _ = True"

text \<open>
  Pinning returns the page's content. Over any source that keeps its contract, from any
  consistent state of the pool, pinning a page that succeeds yields a guard whose bytes are the
  current content of the page, whether it was cached, loaded or had to evict another page;
  success or failure, no page changes its content and the pool stays consistent.
\<close>

lemma pin_returns_content:
  assumes "page_source ops content src_ok sz" "pool_inv content src_ok sz p"
    "page_raw pid \<noteq> INVALID_PAGE_ID" "pin_page ops p pid hint = (r, p')"
  shows "r \<noteq> Panic \<and> (\<forall>f. r = Ok f \<longrightarrow> guard_bytes p' f = Ok (pool_page content p pid))
    \<and> pool_page content p' = pool_page content p \<and> pool_inv content src_ok sz p'"
proof (cases "map_of (bp_page_table p) pid")
  case None
  then show ?thesis
    using page_source.pin_miss [OF assms(1-3) None assms(4)] by (auto simp: guard_bytes_def)
next
  case (Some f)
  note hit = page_source.pin_hit [OF assms(1,2) Some assms(4)]
  have "fr_data (frame_pin g) = fr_data g" for g by (simp add: frame_pin_def)
  then show ?thesis using hit by (simp add: guard_bytes_def)
qed

text \<open>C30:
  Every call refines the map of pages. Over any source that keeps its contract each legal call
  keeps the pool consistent and leaves every page's content as it was, except that creating a
  page makes it zero; and a pinned frame keeps its page and its bytes through every call, so no
  guard sees its page evicted.
\<close>

theorem pool_step_refines_page_map:
  assumes "page_source ops content src_ok sz" "pool_inv content src_ok sz p" "legal_op p call"
  shows "pool_inv content src_ok sz (pool_step ops call p)
    \<and> pool_page content (pool_step ops call p) = (case call of
          PoolNew pid \<Rightarrow> (if is_ok (fst (new_page ops p pid))
             then (pool_page content p)(pid := replicate sz 0) else pool_page content p)
        | _ \<Rightarrow> pool_page content p)
    \<and> (\<forall>j<length (bp_frames p). is_pinned (bp_frames p ! j) \<longrightarrow>
         frame_page (bp_frames (pool_step ops call p) ! j) = frame_page (bp_frames p ! j)
         \<and> fr_data (bp_frames (pool_step ops call p) ! j) = fr_data (bp_frames p ! j))"
proof (cases call)
  case (PoolPin pid hint)
  obtain r p' where pin: "pin_page ops p pid hint = (r, p')" by (cases "pin_page ops p pid hint")
  show ?thesis
  proof (cases "map_of (bp_page_table p) pid")
    case None
    have "page_raw pid \<noteq> INVALID_PAGE_ID" using assms(3) PoolPin by simp
    note ms = page_source.pin_miss [OF assms(1,2) this None pin]
    have "j < length (bp_frames p) \<Longrightarrow> is_pinned (bp_frames p ! j) \<Longrightarrow> bp_frames p' ! j = bp_frames p ! j"
      for j using ms by (rule_tac untouched) blast
    then show ?thesis using ms PoolPin pin by simp
  next
    case (Some f)
    note hit = page_source.pin_hit [OF assms(1,2) Some pin]
    have same: "fr_data (frame_pin g) = fr_data g" "frame_page (frame_pin g) = frame_page g" for g
      by (simp_all add: frame_pin_def frame_page_def)
    have "frame_page (bp_frames p' ! j) = frame_page (bp_frames p ! j)
        \<and> fr_data (bp_frames p' ! j) = fr_data (bp_frames p ! j)" for j
      using hit(4,5) same by (cases "j = f") simp_all
    then show ?thesis using hit PoolPin pin by simp
  qed
next
  case (PoolNew pid)
  obtain r p' where new: "new_page ops p pid = (r, p')" by (cases "new_page ops p pid")
  have "page_raw pid \<noteq> INVALID_PAGE_ID" using assms(3) PoolNew by simp
  note ns = page_source.new_page_spec [OF assms(1,2) this new]
  have "j < length (bp_frames p) \<Longrightarrow> is_pinned (bp_frames p ! j) \<Longrightarrow> bp_frames p' ! j = bp_frames p ! j"
    for j using ns by (rule_tac untouched) blast
  then show ?thesis using ns PoolNew new by (cases r) simp_all
next
  case (PoolFlush pid)
  then show ?thesis
    using page_source.flush_page_spec [OF assms(1,2), of pid] by (cases "flush_page ops p pid") simp
next
  case PoolFlushAll
  then show ?thesis
    using page_source.flush_all_spec [OF assms(1,2)] by (cases "flush_all ops p") simp
next
  case (PoolRelease f)
  then show ?thesis
    using page_source.release_pin_spec [OF assms(1,2), of f] assms(3) by auto
next
  case (PoolDirty f lsn)
  then show ?thesis
    using page_source.guard_mark_dirty_spec [OF assms(1,2), of f lsn] assms(3) by auto
qed

definition sample_source :: mem_source where
  "sample_source = mem_put_page (mem_new 64) (PageId 5) (replicate 64 7)"

lemma sample_size: "ps_page_size mem_ops sample_source = 64"
  by (simp add: mem_ops_def sample_source_def mem_put_page_def mem_new_def)

lemma sample_pool:
  obtains p where "pool_new mem_ops sample_source 1 64 = Ok p"
    "pool_inv mem_content (mem_ok 64) 64 p" "pool_page mem_content p (PageId 5) = replicate 64 7"
proof -
  have ok: "mem_ok 64 sample_source" "mem_content sample_source (PageId 5) = replicate 64 7"
    by (auto simp: mem_ok_def mem_content_def sample_source_def mem_put_page_def mem_new_def
        split: if_splits)
  obtain fs where "make_frames 0 1 64 = Ok fs" using make_frames_ok [of 64 0 1] by auto
  moreover have "ps_page_size mem_ops sample_source = 64" by (simp add: sample_size)
  ultimately have "\<exists>p. pool_new mem_ops sample_source 1 64 = Ok p" by (auto simp: pool_new_def)
  then obtain p where p: "pool_new mem_ops sample_source 1 64 = Ok p" by blast
  then show ?thesis
    using that [OF p] pool_new_inv [where src_ok = "mem_ok 64", OF p ok(1)] ok(2) by simp
qed

theorem pool_step_refines_page_map_witness:
  "\<exists>p. pool_new mem_ops sample_source 1 64 = Ok p
     \<and> pool_page mem_content (pool_step mem_ops (PoolPin (PageId 9) Scan) p) (PageId 5)
       = replicate 64 7"
proof -
  obtain p where p: "pool_new mem_ops sample_source 1 64 = Ok p"
    "pool_inv mem_content (mem_ok 64) 64 p" "pool_page mem_content p (PageId 5) = replicate 64 7"
    by (rule sample_pool)
  show ?thesis
    using pool_step_refines_page_map [OF mem.page_source_axioms p(2), of "PoolPin (PageId 9) Scan"] p
    by (simp add: INVALID_PAGE_ID_def)
qed

text \<open>
  Flushing makes the pool durable. When \<open>flush_all\<close> returns successfully the source
  holds, for every page, the content the pool presented, and the pool presents it still.
\<close>

lemma flush_all_makes_durable:
  assumes "page_source ops content src_ok sz" "pool_inv content src_ok sz p"
    "flush_all ops p = (Ok (), p')"
  shows "content (bp_source p') = pool_page content p \<and> pool_page content p' = pool_page content p"
  using page_source.flush_all_spec [OF assms(1-3)] by simp


lemma flush_all_makes_durable_witness:
  "\<exists>p p'. pool_new mem_ops sample_source 1 64 = Ok p \<and> flush_all mem_ops p = (Ok (), p')
     \<and> mem_content (bp_source p') = pool_page mem_content p"
proof -
  obtain p where p: "pool_new mem_ops sample_source 1 64 = Ok p"
    "pool_inv mem_content (mem_ok 64) 64 p" by (rule sample_pool)
  have "bp_page_table p = []"
    using pool_new_fields(1) [OF p(1)] by simp
  then have flush: "flush_all mem_ops p = (Ok (), p)" by (simp add: flush_all_def)
  show ?thesis
    using flush_all_makes_durable [OF mem.page_source_axioms p(2) flush] p(1) flush by blast
qed

lemma pin_returns_content_witness:
  "\<exists>p p'. pool_new mem_ops sample_source 1 64 = Ok p
     \<and> pin_page mem_ops p (PageId 5) Point = (Ok 0, p') \<and> guard_bytes p' 0 = Ok (replicate 64 7)"
proof -
  obtain p where p: "pool_new mem_ops sample_source 1 64 = Ok p"
    "pool_inv mem_content (mem_ok 64) 64 p" "pool_page mem_content p (PageId 5) = replicate 64 7"
    by (rule sample_pool)
  note fresh = pool_new_fields [OF p(1)]
  have len: "length (fr_data (bp_frames p ! 0)) = 64"
    using p(2) fresh(5) by (simp add: pool_inv_def clean_ok_def)
  have rd: "ps_read mem_ops sample_source (PageId 5) buf = (replicate 64 7, Ok (), sample_source)"
    if "length buf = 64" for buf
    using that by (simp add: mem_ops_def mem_read_def sample_source_def mem_put_page_def mem_new_def)
  have slab: "bp_frames p \<noteq> []" using fresh(5) by auto
  obtain p' where pin: "pin_page mem_ops p (PageId 5) Point = (Ok 0, p')"
    using fresh(1-5) rd [OF len] slab
    by (simp add: pin_page_def load_page_def evict_or_take_free_def with_frame_def upd_stats_def Let_def)
  show ?thesis
    using pin_returns_content [OF mem.page_source_axioms p(2) _ pin] p pin
    by (simp add: INVALID_PAGE_ID_def)
qed

section \<open>Frames lost to read errors\<close>

fun pin_each :: "'s page_source_ops \<Rightarrow> page_id list \<Rightarrow> 's buffer_pool \<Rightarrow> 's buffer_pool" where
  "pin_each ops [] p = p"
| "pin_each ops (pid # pids) p = pin_each ops pids (snd (pin_page ops p pid Point))"

lemma failed_pins:
  assumes "\<And>s pid buf. \<exists>e buf' s'. ps_read ops s pid buf = (buf', Err e, s')"
    "bp_page_table p = []" "set (bp_free_list p) \<subseteq> {..<length (bp_frames p)}"
  shows "length pids \<le> length (bp_free_list p) \<Longrightarrow>
    bp_page_table (pin_each ops pids p) = [] \<and> bp_replacer (pin_each ops pids p) = bp_replacer p
    \<and> bp_free_list (pin_each ops pids p) = take (length (bp_free_list p) - length pids) (bp_free_list p)"
  using assms(2,3)
proof (induction pids arbitrary: p)
  case (Cons pid pids)
  let ?f = "last (bp_free_list p)"
  have ne: "bp_free_list p \<noteq> []" using Cons.prems(1) by auto
  then have f: "?f < length (bp_frames p)" using Cons.prems(3) last_in_set by blast
  obtain e buf s where rd: "ps_read ops (bp_source p) pid (fr_data (bp_frames p ! ?f)) = (buf, Err e, s)"
    using assms(1) by blast
  let ?p1 = "snd (pin_page ops p pid Point)"
  have p1: "bp_page_table ?p1 = []" "bp_replacer ?p1 = bp_replacer p"
    "bp_free_list ?p1 = butlast (bp_free_list p)" "length (bp_frames ?p1) = length (bp_frames p)"
    using Cons.prems(2) ne f rd
    by (simp_all add: pin_page_def load_page_def evict_or_take_free_def with_frame_def pool_upds Let_def)
  have "set (butlast (bp_free_list p)) \<subseteq> {..<length (bp_frames p)}"
    using Cons.prems(3) in_set_butlastD by fastforce
  then have "bp_page_table (pin_each ops pids ?p1) = [] \<and> bp_replacer (pin_each ops pids ?p1) = bp_replacer ?p1
      \<and> bp_free_list (pin_each ops pids ?p1) = take (length (bp_free_list ?p1) - length pids) (bp_free_list ?p1)"
    using Cons.prems(1) p1 by (intro Cons.IH) simp_all
  then show ?case using p1 by (simp add: butlast_conv_take min_def)
qed simp

text \<open>
  Read errors leak frames. A frame taken for a page whose read fails goes back neither to the
  free list nor to the replacement policy: after as many failed reads as there are frames, a
  pool that holds no page at all refuses every page, also when reads work again.
\<close>

lemma failed_reads_exhaust_pool:
  assumes "pool_new ops src n sz = Ok p" "length pids = n"
    "\<forall>s pid buf. \<exists>e buf' s'. ps_read ops s pid buf = (buf', Err e, s')"
  shows "bp_page_table (pin_each ops pids p) = []
    \<and> fst (pin_page ops2 (pin_each ops pids p) pid hint)
      = Err (internal ''BufferPool: no evictable frames (all pinned?)'')"
proof -
  note fresh = pool_new_fields [OF assms(1)]
  have sub: "set (bp_free_list p) \<subseteq> {..<length (bp_frames p)}" using fresh(2,5) by auto
  have "bp_page_table (pin_each ops pids p) = [] \<and> bp_replacer (pin_each ops pids p) = lru_new
      \<and> bp_free_list (pin_each ops pids p) = []"
    using failed_pins [of ops p pids, OF _ fresh(1) sub] assms(2,3) fresh(2,3) by simp
  moreover have "pick_victim lru_new = Ok (None, lru_new)"
    by (simp add: pick_victim_def lru_new_def)
  ultimately show ?thesis
    by (simp add: pin_page_def evict_or_take_free_def upd_stats_def Let_def)
qed

lemma failed_reads_exhaust_pool_witness:
  "\<exists>p. pool_new (mem_ops\<lparr>ps_read := \<lambda>s pid buf. (buf, Err (io_error ''unreadable''), s)\<rparr>) sample_source 1 64
       = Ok p
     \<and> fst (pin_page mem_ops (pin_each
         (mem_ops\<lparr>ps_read := \<lambda>s pid buf. (buf, Err (io_error ''unreadable''), s)\<rparr>) [PageId 5] p) (PageId 5) Point)
       = Err (internal ''BufferPool: no evictable frames (all pinned?)'')"
proof -
  let ?bad = "mem_ops\<lparr>ps_read := \<lambda>s pid buf. (buf, Err (io_error ''unreadable''), s)\<rparr>"
  obtain p where "pool_new mem_ops sample_source 1 64 = Ok p" by (rule sample_pool)
  moreover have size: "ps_page_size ?bad = ps_page_size mem_ops" by simp
  ultimately have p: "pool_new ?bad sample_source 1 64 = Ok p" by (simp only: pool_new_def size)
  show ?thesis
    using failed_reads_exhaust_pool [OF p, of "[PageId 5]" mem_ops "PageId 5" Point] p by simp
qed

end
