(* ===== verification/ArtNode.thy ===== *)
theory ArtNode
  imports CenPrelude
begin

text \<open>
  The nodes of the adaptive radix tree (\<open>cendb-index/src/art.rs\<close>): the four layouts of an
  interior node, the operations on its children (look up, insert with growth, remove with
  shrinking, enumerate), the well-formedness of a layout, and the laws of a table of children,
  stated as a locale and shown of all four layouts.
\<close>

section \<open>Layouts\<close>

datatype 'v art_leaf = ArtLeaf (leaf_key: bytes) (leaf_value: 'v)

datatype 'v art_node =
    Node4 bytes bytes "'v art_node list"
  | Node16 bytes bytes "'v art_node list"
  | Node48 bytes "u8 list" "'v art_node option list" nat
  | Node256 bytes "'v art_node option list" nat
  | Leaf "'v art_leaf"

abbreviation NODE4_CAP :: nat where "NODE4_CAP \<equiv> 4"
abbreviation NODE16_CAP :: nat where "NODE16_CAP \<equiv> 16"
abbreviation NODE48_CAP :: nat where "NODE48_CAP \<equiv> 48"

definition new_node4 :: "'v art_node" where
  "new_node4 = Node4 [] [] []"

fun art_prefix :: "'v art_node \<Rightarrow> bytes" where
  "art_prefix (Node4 p _ _) = p"
| "art_prefix (Node16 p _ _) = p"
| "art_prefix (Node48 p _ _ _) = p"
| "art_prefix (Node256 p _ _) = p"
| "art_prefix (Leaf _) = []"

fun child_count :: "'v art_node \<Rightarrow> nat" where
  "child_count (Node4 _ keys _) = length keys"
| "child_count (Node16 _ keys _) = length keys"
| "child_count (Node48 _ _ _ count) = count"
| "child_count (Node256 _ _ count) = count"
| "child_count (Leaf _) = 0"

fun set_prefix :: "'v art_node \<Rightarrow> bytes \<Rightarrow> 'v art_node" where
  "set_prefix (Node4 _ keys children) p = Node4 p keys children"
| "set_prefix (Node16 _ keys children) p = Node16 p keys children"
| "set_prefix (Node48 _ idx children count) p = Node48 p idx children count"
| "set_prefix (Node256 _ children count) p = Node256 p children count"
| "set_prefix (Leaf l) _ = Leaf l"

definition trim_prefix :: "'v art_node \<Rightarrow> nat \<Rightarrow> 'v art_node" where
  "trim_prefix node n =
     (if n \<le> length (art_prefix node) then set_prefix node (drop n (art_prefix node)) else node)"

fun as_leaf :: "'v art_node \<Rightarrow> 'v art_leaf option" where
  "as_leaf (Leaf l) = Some l"
| "as_leaf _ = None"

definition insert_at :: "nat \<Rightarrow> 'a \<Rightarrow> 'a list \<Rightarrow> 'a list" where
  "insert_at i x xs = take i xs @ x # drop i xs"

definition remove_at :: "nat \<Rightarrow> 'a list \<Rightarrow> 'a list" where
  "remove_at i xs = take i xs @ drop (Suc i) xs"

section \<open>Operations on the children\<close>

definition index_lookup :: "u8 list \<Rightarrow> 'a option list \<Rightarrow> u8 \<Rightarrow> 'a option" where
  "index_lookup idx children byte =
     (let slot = idx ! unat byte
      in if slot = 0 then None
         else if unat slot - 1 < length children then children ! (unat slot - 1) else None)"

fun find_child :: "'v art_node \<Rightarrow> u8 \<Rightarrow> 'v art_node option" where
  "find_child (Node4 _ keys children) byte =
     map_option (\<lambda>i. children ! i) (position (\<lambda>k. k = byte) keys)"
| "find_child (Node16 _ keys children) byte =
     map_option (\<lambda>i. children ! i) (position (\<lambda>k. k = byte) keys)"
| "find_child (Node48 _ idx children _) byte = index_lookup idx children byte"
| "find_child (Node256 _ children _) byte = children ! unat byte"
| "find_child (Leaf _) byte = None"

text \<open>The index array that gives the listed bytes the slots 1, 2, and so on.\<close>

definition number_bytes :: "nat list \<Rightarrow> u8 list" where
  "number_bytes bs =
     fold (\<lambda>(i, b) idx. idx[b := of_nat (i + 1)]) (enumerate 0 bs) (replicate 256 0)"

text \<open>The children in the order of their bytes, each taken out of its slot.\<close>

fun take_slots :: "u8 list \<Rightarrow> nat list \<Rightarrow> 'a option list \<Rightarrow> (nat \<times> 'a option) list" where
  "take_slots idx [] children = []"
| "take_slots idx (b # bs) children =
     (let slot = idx ! b
      in if slot = 0 then take_slots idx bs children
         else (b, children ! (unat slot - 1))
           # take_slots idx bs (children[unat slot - 1 := None]))"

definition sorted_pos :: "u8 \<Rightarrow> bytes \<Rightarrow> nat" where
  "sorted_pos byte keys = (case position (\<lambda>k. k > byte) keys of Some i \<Rightarrow> i | None \<Rightarrow> length keys)"

definition free_slot :: "'a option list \<Rightarrow> nat" where
  "free_slot children = (case position (\<lambda>c. c = None) children of Some i \<Rightarrow> i | None \<Rightarrow> length children)"

definition grow_4_to_16 :: "bytes \<Rightarrow> bytes \<Rightarrow> 'v art_node list \<Rightarrow> 'v art_node" where
  "grow_4_to_16 p keys children = Node16 p keys (map (\<lambda>i. children ! i) [0..<length keys])"

definition grow_16_to_48 :: "bytes \<Rightarrow> bytes \<Rightarrow> 'v art_node list \<Rightarrow> 'v art_node" where
  "grow_16_to_48 p keys children =
     Node48 p (number_bytes (map unat keys)) (map (\<lambda>i. Some (children ! i)) [0..<length keys]) (length keys)"

definition grow_48_to_256 :: "bytes \<Rightarrow> u8 list \<Rightarrow> 'v art_node option list \<Rightarrow> nat \<Rightarrow> 'v art_node" where
  "grow_48_to_256 p idx children count =
     Node256 p (fold (\<lambda>(b, c) cs. cs[b := c]) (take_slots idx [0..<256] children) (replicate 256 None)) count"

definition insert_256 :: "bytes \<Rightarrow> 'v art_node option list \<Rightarrow> nat \<Rightarrow> u8 \<Rightarrow> 'v art_node \<Rightarrow> 'v art_node" where
  "insert_256 p children count byte child =
     Node256 p (children[unat byte := Some child])
       (if children ! unat byte = None then count + 1 else count)"

fun layout_rank :: "'v art_node \<Rightarrow> nat" where
  "layout_rank (Node4 _ _ _) = 3"
| "layout_rank (Node16 _ _ _) = 2"
| "layout_rank (Node48 _ _ _ _) = 1"
| "layout_rank _ = 0"

function insert_child :: "'v art_node \<Rightarrow> u8 \<Rightarrow> 'v art_node \<Rightarrow> 'v art_node" where
  "insert_child (Node4 p keys children) byte child =
     (if length keys < NODE4_CAP
      then let pos = sorted_pos byte keys
        in Node4 p (insert_at pos byte keys) (insert_at pos child children)
      else insert_child (grow_4_to_16 p keys children) byte child)"
| "insert_child (Node16 p keys children) byte child =
     (if length keys < NODE16_CAP
      then let pos = sorted_pos byte keys
        in Node16 p (insert_at pos byte keys) (insert_at pos child children)
      else insert_child (grow_16_to_48 p keys children) byte child)"
| "insert_child (Node48 p idx children count) byte child =
     (if count < NODE48_CAP
      then let slot = free_slot children;
               children = (if slot \<ge> length children then children @ [Some child]
                 else children[slot := Some child])
        in Node48 p (idx[unat byte := of_nat (slot + 1)]) children (count + 1)
      else insert_child (grow_48_to_256 p idx children count) byte child)"
| "insert_child (Node256 p children count) byte child = insert_256 p children count byte child"
| "insert_child (Leaf l) byte child = Leaf l"

  by pat_completeness auto
termination
  by (relation "measure (\<lambda>(node, _, _). layout_rank node)")
    (auto simp: grow_4_to_16_def grow_16_to_48_def grow_48_to_256_def)

fun remove_child :: "'v art_node \<Rightarrow> u8 \<Rightarrow> 'v art_node option \<times> 'v art_node" where
  "remove_child (Node4 p keys children) byte =
     (case position (\<lambda>k. k = byte) keys of
        Some pos \<Rightarrow> (Some (children ! pos), Node4 p (remove_at pos keys) (remove_at pos children))
      | None \<Rightarrow> (None, Node4 p keys children))"
| "remove_child (Node16 p keys children) byte =
     (case position (\<lambda>k. k = byte) keys of
        Some pos \<Rightarrow>
          let child = children ! pos; keys = remove_at pos keys; children = remove_at pos children
          in (Some child, if length keys \<le> 1 then Node4 p keys children else Node16 p keys children)
      | None \<Rightarrow> (None, Node16 p keys children))"
| "remove_child (Node48 p idx children count) byte =
     (let slot = idx ! unat byte
      in if slot = 0 then (None, Node48 p idx children count)
         else let child = children ! (unat slot - 1);
                  children = children[unat slot - 1 := None];
                  idx = idx[unat byte := 0];
                  count = count - 1
           in if count \<le> NODE16_CAP
              then let taken = take_slots idx [0..<256] children
                in (child, Node16 p (map (\<lambda>(b, _). of_nat b) taken) (map (\<lambda>(_, c). the c) taken))
              else (child, Node48 p idx children count))"
| "remove_child (Node256 p children count) byte =
     (let child = children ! unat byte; children = children[unat byte := None]
      in if child \<noteq> None
         then let count = count - 1
           in if count \<le> NODE48_CAP
              then let bs = filter (\<lambda>b. children ! b \<noteq> None) [0..<256]
                in (child, Node48 p (number_bytes bs) (map (\<lambda>b. children ! b) bs) count)
              else (child, Node256 p children count)
         else (None, Node256 p children count))"
| "remove_child (Leaf l) byte = (None, Leaf l)"

fun iter_children :: "'v art_node \<Rightarrow> (u8 \<times> 'v art_node) list" where
  "iter_children (Node4 _ keys children) = zip keys children"
| "iter_children (Node16 _ keys children) = zip keys children"
| "iter_children (Node48 _ idx children _) =
     concat (map (\<lambda>b. case index_lookup idx children (of_nat b) of
       None \<Rightarrow> [] | Some c \<Rightarrow> [(of_nat b, c)]) [0..<256])"
| "iter_children (Node256 _ children _) =
     concat (map (\<lambda>b. case (if b < length children then children ! b else None) of
       None \<Rightarrow> [] | Some c \<Rightarrow> [(of_nat b, c)]) [0..<256])"
| "iter_children (Leaf _) = []"

section \<open>Well-formed layouts\<close>

text \<open>The bytes that have a slot in an index array.\<close>

definition used_bytes :: "u8 list \<Rightarrow> nat list" where
  "used_bytes idx = filter (\<lambda>b. idx ! b \<noteq> 0) [0..<256]"

definition slot_of :: "u8 list \<Rightarrow> nat \<Rightarrow> nat" where
  "slot_of idx b = unat (idx ! b) - 1"

text \<open>Distinct bytes have distinct slots, every used slot holds a child and every child is used.\<close>

definition slots_ok :: "u8 list \<Rightarrow> 'a option list \<Rightarrow> nat \<Rightarrow> bool" where
  "slots_ok idx children count \<longleftrightarrow> length idx = 256 \<and> length children \<le> NODE48_CAP
     \<and> distinct (map (slot_of idx) (used_bytes idx))
     \<and> set (map (slot_of idx) (used_bytes idx)) = {i. i < length children \<and> children ! i \<noteq> None}
     \<and> count = length (used_bytes idx)"

definition sorted_ok :: "nat \<Rightarrow> bytes \<Rightarrow> 'a list \<Rightarrow> bool" where
  "sorted_ok cap keys children \<longleftrightarrow>
     length keys = length children \<and> length keys \<le> cap \<and> sorted_wrt (<) keys"

definition filled :: "'a option list \<Rightarrow> nat list" where
  "filled children = filter (\<lambda>b. children ! b \<noteq> None) [0..<256]"

fun node_ok :: "'v art_node \<Rightarrow> bool" where
  "node_ok (Node4 _ keys children) = sorted_ok NODE4_CAP keys children"
| "node_ok (Node16 _ keys children) = sorted_ok NODE16_CAP keys children"
| "node_ok (Node48 _ idx children count) = slots_ok idx children count"
| "node_ok (Node256 _ children count) =
     (length children = 256 \<and> count = length (filled children))"
| "node_ok (Leaf _) = False"

section \<open>Sorted arrays\<close>

lemma find_sorted:
  "length keys = length children \<Longrightarrow>
     map_option (\<lambda>i. children ! i) (position (\<lambda>k. k = byte) keys) = map_of (zip keys children) byte"
  by (induction keys children rule: list_induct2) (auto simp: option.map_comp comp_def)

lemma sorted_wrt_less_distinct: "sorted_wrt (<) keys \<Longrightarrow> distinct keys" for keys :: bytes
  by (simp add: strict_sorted_iff)

lemma length_insert_at [simp]: "i \<le> length xs \<Longrightarrow> length (insert_at i x xs) = Suc (length xs)"
  by (simp add: insert_at_def)

lemma length_remove_at [simp]: "i < length xs \<Longrightarrow> length (remove_at i xs) = length xs - 1"
  by (simp add: remove_at_def)

lemma sorted_pos_le: "sorted_pos byte keys \<le> length keys"
  by (auto simp: sorted_pos_def position_Some split: option.splits)

lemma zip_insert_at:
  "length xs = length ys \<Longrightarrow> zip (insert_at i x xs) (insert_at i y ys) = insert_at i (x, y) (zip xs ys)"
  by (simp add: insert_at_def take_zip drop_zip)

lemma zip_remove_at:
  "length xs = length ys \<Longrightarrow> zip (remove_at i xs) (remove_at i ys) = remove_at i (zip xs ys)"
  by (simp add: remove_at_def take_zip drop_zip)

lemma map_of_middle:
  "k \<notin> fst ` set xs \<Longrightarrow> map_of (xs @ (k, v) # ys) = (map_of (xs @ ys))(k \<mapsto> v)"
  by (induction xs) (auto simp: fun_upd_twist)

lemma map_of_without:
  "k \<notin> fst ` set (xs @ ys) \<Longrightarrow> map_of (xs @ ys) = (map_of (xs @ (k, v) # ys))(k := None)"
  by (induction xs) (auto simp: fun_upd_twist fun_upd_idem map_of_eq_None_iff)

lemma map_of_insert_at:
  assumes "k \<notin> fst ` set xs"
  shows "map_of (insert_at i (k, v) xs) = (map_of xs)(k \<mapsto> v)"
proof -
  have "k \<notin> fst ` set (take i xs)" using assms set_take_subset [of i xs] by auto
  then show ?thesis unfolding insert_at_def by (simp add: map_of_middle del: map_of_append)
qed

lemma map_of_remove_at:
  assumes "distinct (map fst xs)" "i < length xs"
  shows "map_of (remove_at i xs) = (map_of xs)(fst (xs ! i) := None)"
proof -
  have xs: "xs = take i xs @ (fst (xs ! i), snd (xs ! i)) # drop (Suc i) xs"
    using assms(2) by (simp add: id_take_nth_drop)
  then have "distinct (map fst (take i xs @ (fst (xs ! i), snd (xs ! i)) # drop (Suc i) xs))"
    using assms(1) by metis
  then have "fst (xs ! i) \<notin> fst ` set (take i xs @ drop (Suc i) xs)" by auto
  then have "map_of (take i xs @ drop (Suc i) xs)
      = (map_of (take i xs @ (fst (xs ! i), snd (xs ! i)) # drop (Suc i) xs))(fst (xs ! i) := None)"
    by (rule map_of_without)
  then show ?thesis unfolding remove_at_def xs [symmetric] .
qed

lemma sorted_insert_at:
  fixes byte :: u8
  assumes "sorted_wrt (<) keys" "byte \<notin> set keys"
  shows "sorted_wrt (<) (insert_at (sorted_pos byte keys) byte keys)"
proof -
  let ?i = "sorted_pos byte keys"
  have before: "k < byte" if k: "k \<in> set (take ?i keys)" for k
  proof -
    obtain j where j: "j < ?i" "j < length keys" "k = keys ! j"
      using k by (auto simp: in_set_conv_nth)
    then have "\<not> keys ! j > byte"
      by (auto simp: sorted_pos_def position_Some position_None split: option.splits)
    moreover have "keys ! j \<noteq> byte" using assms(2) j(2) nth_mem by metis
    ultimately show ?thesis using j(3) by simp
  qed
  have after: "byte < k" if k: "k \<in> set (drop ?i keys)" for k
  proof -
    obtain j where "j < length (drop ?i keys)" "k = drop ?i keys ! j"
      using k by (metis in_set_conv_nth)
    then have j: "?i + j < length keys" "k = keys ! (?i + j)" by auto
    then obtain i where i: "position (\<lambda>k. k > byte) keys = Some i" "?i = i"
      by (auto simp: sorted_pos_def split: option.splits)
    then have "byte < keys ! i" by (simp add: position_Some)
    moreover have "keys ! i \<le> keys ! (i + j)"
      using assms(1) j(1) i(2) by (cases j) (auto simp: sorted_wrt_iff_nth_less less_imp_le)
    ultimately show ?thesis using j(2) i(2) by simp
  qed
  have "sorted_wrt (<) (take ?i keys @ drop ?i keys)" using assms(1) by simp
  then show ?thesis using before after unfolding insert_at_def sorted_wrt_append by auto
qed

lemma sorted_remove_at: "sorted_wrt P keys \<Longrightarrow> sorted_wrt P (remove_at i keys)"
proof -
  assume a: "sorted_wrt P keys"
  have "sorted_wrt P (take i keys @ drop i keys)" using a by simp
  moreover have "set (drop (Suc i) keys) \<subseteq> set (drop i keys)" by (rule set_drop_subset_set_drop) simp
  moreover have "sorted_wrt P (drop (Suc i) keys)" using a by (rule sorted_wrt_drop)
  ultimately show ?thesis unfolding remove_at_def sorted_wrt_append by blast
qed

lemma position_in_range: "position P xs = Some i \<Longrightarrow> i < length xs" by (simp add: position_Some)

section \<open>Index arrays\<close>

lemma number_bytes_snoc:
  "number_bytes (bs @ [b]) = (number_bytes bs)[b := of_nat (length bs + 1)]"
  by (simp add: number_bytes_def enumerate_append_eq enumerate_eq_zip)

lemma length_number_bytes [simp]: "length (number_bytes bs) = 256"
  by (induction bs rule: rev_induct) (simp_all add: number_bytes_snoc, simp add: number_bytes_def)

lemma number_bytes_in:
  "distinct bs \<Longrightarrow> set bs \<subseteq> {..<256} \<Longrightarrow> i < length bs \<Longrightarrow> number_bytes bs ! (bs ! i) = of_nat (i + 1)"
proof (induction bs rule: rev_induct)
  case (snoc b bs)
  show ?case
  proof (cases "i = length bs")
    case True
    then show ?thesis using snoc.prems by (simp add: number_bytes_snoc nth_append)
  next
    case False
    then have i: "i < length bs" using snoc.prems(3) by simp
    then have "bs ! i \<noteq> b" using snoc.prems(1) nth_mem by fastforce
    then show ?thesis using snoc i by (simp add: number_bytes_snoc nth_append)
  qed
qed simp

lemma number_bytes_out: "b \<notin> set bs \<Longrightarrow> b < 256 \<Longrightarrow> number_bytes bs ! b = 0"
  by (induction bs rule: rev_induct) (simp_all add: number_bytes_snoc, simp add: number_bytes_def)

lemma set_used_bytes [simp]: "set (used_bytes idx) = {b. b < 256 \<and> idx ! b \<noteq> 0}"
  by (auto simp: used_bytes_def)

lemma distinct_used_bytes [simp]: "distinct (used_bytes idx)"
  by (simp add: used_bytes_def)

lemma slots_ok_iff:
  "slots_ok idx children count \<longleftrightarrow> length idx = 256 \<and> length children \<le> NODE48_CAP
     \<and> inj_on (slot_of idx) {b. b < 256 \<and> idx ! b \<noteq> 0}
     \<and> slot_of idx ` {b. b < 256 \<and> idx ! b \<noteq> 0} = {i. i < length children \<and> children ! i \<noteq> None}
     \<and> count = card {b. b < 256 \<and> idx ! b \<noteq> 0}"
  using distinct_card [OF distinct_used_bytes, of idx]
  by (simp add: slots_ok_def distinct_map)

lemma unat_byte_lt [simp]: "unat (byte :: u8) < 256"
  by (rule unat_lt2p [of byte, simplified])

lemma unat_eq_byte: "unat (a :: u8) = unat b \<longleftrightarrow> a = b"
  using word_unat_eq_iff [of a b] by blast

lemma slots_ok_find:
  fixes byte :: u8
  assumes "slots_ok idx children count" "idx ! unat byte \<noteq> 0"
  shows "slot_of idx (unat byte) < length children" "children ! slot_of idx (unat byte) \<noteq> None"
proof -
  have "slot_of idx (unat byte) \<in> slot_of idx ` {b. b < 256 \<and> idx ! b \<noteq> 0}"
    using assms(2) by (intro imageI) simp
  then show "slot_of idx (unat byte) < length children" "children ! slot_of idx (unat byte) \<noteq> None"
    using assms(1) unfolding slots_ok_iff by auto
qed

lemma index_lookup_eq:
  assumes "slots_ok idx children count"
  shows "index_lookup idx children byte
    = (if idx ! unat byte = 0 then None else children ! slot_of idx (unat byte))"
  using slots_ok_find [OF assms, of byte] by (simp add: index_lookup_def Let_def slot_of_def)

lemma unat_small_slot: "i < 256 \<Longrightarrow> unat (of_nat i :: u8) = i"
  by (simp add: unat_of_nat_small)

lemma number_bytes_slots:
  assumes bs: "distinct bs" "set bs \<subseteq> {..<256}" "length bs \<le> NODE48_CAP"
    and ch: "length children = length bs" "\<forall>c\<in>set children. c \<noteq> None"
  shows "slots_ok (number_bytes bs) children (length bs)"
    "index_lookup (number_bytes bs) children byte = Option.bind (map_of (zip bs children) (unat byte)) (\<lambda>c. c)"
proof -
  let ?n = "number_bytes bs"
  have u: "unat (?n ! (bs ! i)) = i + 1" if "i < length bs" for i
    using number_bytes_in [OF bs(1,2) that] bs(3) that by (simp add: unat_small_slot del: of_nat_Suc of_nat_add)
  have used: "{b. b < 256 \<and> ?n ! b \<noteq> 0} = set bs"
  proof
    show "{b. b < 256 \<and> ?n ! b \<noteq> 0} \<subseteq> set bs" using number_bytes_out by blast
    show "set bs \<subseteq> {b. b < 256 \<and> ?n ! b \<noteq> 0}"
    proof
      fix b assume "b \<in> set bs"
      then obtain i where i: "i < length bs" "b = bs ! i" by (auto simp: in_set_conv_nth)
      then show "b \<in> {b. b < 256 \<and> ?n ! b \<noteq> 0}" using u [OF i(1)] bs(2) by (auto intro: nth_mem)
    qed
  qed
  have slot: "slot_of ?n (bs ! i) = i" if "i < length bs" for i using u [OF that] by (simp add: slot_of_def)
  have inj: "inj_on (slot_of ?n) (set bs)"
    by (rule inj_onI) (metis in_set_conv_nth slot)
  have img: "slot_of ?n ` set bs = {..<length bs}"
    by (auto simp: slot image_iff in_set_conv_nth Bex_def) (metis slot)
  have some: "children ! i \<noteq> None" if "i < length bs" for i using ch that nth_mem by metis
  show ok: "slots_ok ?n children (length bs)"
    unfolding slots_ok_iff used using bs ch inj img some distinct_card [OF bs(1)] by auto
  show "index_lookup ?n children byte = Option.bind (map_of (zip bs children) (unat byte)) (\<lambda>c. c)"
  proof (cases "unat byte \<in> set bs")
    case True
    then obtain i where i: "i < length bs" "unat byte = bs ! i" by (auto simp: in_set_conv_nth)
    then have "map_of (zip bs children) (unat byte) = Some (children ! i)"
      using bs(1) ch(1) by (simp add: map_of_zip_nth)
    moreover have "?n ! unat byte \<noteq> 0" using u [OF i(1)] i(2) by auto
    ultimately show ?thesis using i slot [OF i(1)] by (simp add: index_lookup_eq [OF ok])
  next
    case False
    then have "map_of (zip bs children) (unat byte) = None" using ch(1) by (simp add: map_of_zip_is_None)
    then show ?thesis using False number_bytes_out [OF False] by (simp add: index_lookup_eq [OF ok])
  qed
qed

lemma take_slots_eq:
  "distinct bs \<Longrightarrow> inj_on (slot_of idx) {b \<in> set bs. idx ! b \<noteq> 0} \<Longrightarrow>
     take_slots idx bs children
       = map (\<lambda>b. (b, children ! slot_of idx b)) (filter (\<lambda>b. idx ! b \<noteq> 0) bs)"
proof (induction bs arbitrary: children)
  case (Cons b bs)
  have inj: "inj_on (slot_of idx) {b \<in> set bs. idx ! b \<noteq> 0}"
    using Cons.prems(2) by (rule inj_on_subset) auto
  show ?case
  proof (cases "idx ! b = 0")
    case True
    then show ?thesis using Cons inj by simp
  next
    case False
    have "children[slot_of idx b := None] ! slot_of idx c = children ! slot_of idx c"
      if "c \<in> set bs" "idx ! c \<noteq> 0" for c
    proof -
      have "c \<noteq> b" using Cons.prems(1) that(1) by auto
      then have "slot_of idx c \<noteq> slot_of idx b"
        using Cons.prems(2) that False by (auto simp: inj_on_def)
      then show ?thesis by simp
    qed
    then show ?thesis using False Cons.IH [OF _ inj] Cons.prems(1)
      by (simp add: Let_def flip: slot_of_def [unfolded One_nat_def])
  qed
qed simp


section \<open>The laws of a table of children\<close>

locale child_table =
  fixes ok :: "'n \<Rightarrow> bool" and find :: "'n \<Rightarrow> u8 \<Rightarrow> 'c option"
    and ins :: "'n \<Rightarrow> u8 \<Rightarrow> 'c \<Rightarrow> 'n" and rem :: "'n \<Rightarrow> u8 \<Rightarrow> 'c option \<times> 'n"
    and children :: "'n \<Rightarrow> (u8 \<times> 'c) list" and label :: "'n \<Rightarrow> bytes"
    and count :: "'n \<Rightarrow> nat"
  assumes ins_ok: "ok n \<Longrightarrow> find n b = None \<Longrightarrow> ok (ins n b c)"
    and find_ins: "ok n \<Longrightarrow> find n b = None \<Longrightarrow> find (ins n b c) = (find n)(b \<mapsto> c)"
    and label_ins: "ok n \<Longrightarrow> find n b = None \<Longrightarrow> label (ins n b c) = label n"
    and rem_ok: "ok n \<Longrightarrow> ok (snd (rem n b))"
    and fst_rem: "ok n \<Longrightarrow> fst (rem n b) = find n b"
    and find_rem: "ok n \<Longrightarrow> find (snd (rem n b)) = (find n)(b := None)"
    and label_rem: "ok n \<Longrightarrow> label (snd (rem n b)) = label n"
    and children_map: "ok n \<Longrightarrow> map_of (children n) = find n"
    and children_sorted: "ok n \<Longrightarrow> sorted_wrt (<) (map fst (children n))"
    and count_children: "ok n \<Longrightarrow> count n = length (children n)"

lemma sorted_entries_unique:
  fixes xs ys :: "('k::linorder \<times> 'a) list"
  assumes "sorted_wrt (<) (map fst xs)" "sorted_wrt (<) (map fst ys)" "map_of xs = map_of ys"
  shows "xs = ys"
proof -
  have d: "distinct (map fst xs)" "distinct (map fst ys)" using assms(1,2) by (simp_all add: strict_sorted_iff)
  have "set (map fst xs) = set (map fst ys)"
    using arg_cong [OF assms(3), of dom] by (simp add: dom_map_of_conv_image_fst)
  then have "map fst xs = map fst ys"
    using assms(1,2) by (intro sorted_distinct_set_unique) (simp_all add: strict_sorted_iff)
  moreover have "zs = map (\<lambda>k. (k, the (map_of zs k))) (map fst zs)" if "distinct (map fst zs)"
    for zs :: "('k \<times> 'a) list"
  proof (rule nth_equalityI)
    fix i assume i: "i < length zs"
    then have "map_of zs (fst (zs ! i)) = Some (snd (zs ! i))"
      using that by (intro map_of_is_SomeI) simp_all
    then show "zs ! i = map (\<lambda>k. (k, the (map_of zs k))) (map fst zs) ! i" using i by simp
  qed simp
  ultimately show ?thesis using d assms(3) by metis
qed

context child_table
begin

lemma put_back:
  assumes "ok n" "find n b = Some c"
  shows "ok (ins (snd (rem n b)) b c')" "find (ins (snd (rem n b)) b c') = (find n)(b \<mapsto> c')"
    "label (ins (snd (rem n b)) b c') = label n"
  using ins_ok [OF rem_ok, of n b b c'] find_ins [OF rem_ok, of n b b c'] label_ins [OF rem_ok, of n b b c']
    find_rem [of n b] label_rem [of n b] assms
  by simp_all

lemma children_iff: "ok n \<Longrightarrow> (b, c) \<in> set (children n) \<longleftrightarrow> find n b = Some c"
  using children_map [of n] children_sorted [of n]
  by (metis map_of_SomeD map_of_is_SomeI strict_sorted_iff)

lemma children_Nil: "ok n \<Longrightarrow> children n = [] \<longleftrightarrow> (\<forall>b. find n b = None)"
  using children_map [of n] by (metis map_of.simps(1) map_of_eq_empty_iff)

text \<open>A child stands at one place of the enumeration; replacing or removing it changes that
  place only.\<close>

lemma children_at:
  assumes "ok n" "find n b = Some c"
  shows "\<exists>xs ys. children n = xs @ (b, c) # ys
    \<and> children (snd (rem n b)) = xs @ ys
    \<and> (\<forall>c'. children (ins (snd (rem n b)) b c') = xs @ (b, c') # ys)"
proof -
  have "(b, c) \<in> set (children n)" using assms children_iff by blast
  then obtain xs ys where xs: "children n = xs @ (b, c) # ys" by (meson split_list)
  have s: "sorted_wrt (<) (map fst (xs @ (b, c') # ys))" for c'
    using children_sorted [OF assms(1)] unfolding xs by simp
  then have b: "b \<notin> fst ` set (xs @ ys)" by (fastforce simp: sorted_wrt_append)
  have r: "children (snd (rem n b)) = xs @ ys"
  proof (rule sorted_entries_unique)
    show "map_of (children (snd (rem n b))) = map_of (xs @ ys)"
      unfolding children_map [OF rem_ok [OF assms(1)]] find_rem [OF assms(1)]
        children_map [OF assms(1), symmetric] xs using map_of_without [OF b] by simp
  qed (use children_sorted [OF rem_ok [OF assms(1)]] s in \<open>auto simp: sorted_wrt_append\<close>)
  have p: "children (ins (snd (rem n b)) b c') = xs @ (b, c') # ys" for c'
  proof (rule sorted_entries_unique)
    have "b \<notin> fst ` set xs" using b by auto
    then show "map_of (children (ins (snd (rem n b)) b c')) = map_of (xs @ (b, c') # ys)"
      unfolding children_map [OF put_back(1) [OF assms]] put_back(2) [OF assms]
        children_map [OF assms(1), symmetric] xs
      by (simp add: map_of_middle del: map_of_append)
  qed (use children_sorted [OF put_back(1) [OF assms]] s in auto)
  show ?thesis using xs r p by blast
qed

lemma count_rem: "ok n \<Longrightarrow> find n b = Some c \<Longrightarrow> count n = Suc (count (snd (rem n b)))"
  using children_at [of n b c] rem_ok [of n b] by (auto simp: count_children)

lemma count_put_back: "ok n \<Longrightarrow> find n b = Some c \<Longrightarrow> count (ins (snd (rem n b)) b c') = count n"
  using children_at [of n b c] put_back(1) [of n b c c'] by (auto simp: count_children)

end

section \<open>The four layouts satisfy the laws\<close>

lemma sorted_ok_zip:
  "sorted_ok cap keys children \<Longrightarrow> distinct (map fst (zip keys children))"
  by (simp add: sorted_ok_def sorted_wrt_less_distinct)

lemma sorted_find_None:
  "sorted_ok cap keys children \<Longrightarrow> map_of (zip keys children) byte = None \<longleftrightarrow> byte \<notin> set keys"
  by (simp add: sorted_ok_def map_of_zip_is_None)

lemma sorted_insert:
  assumes "sorted_ok cap keys children" "length keys < cap'" "byte \<notin> set keys"
  shows "sorted_ok cap' (insert_at (sorted_pos byte keys) byte keys)
      (insert_at (sorted_pos byte keys) child children)"
    "map_of (zip (insert_at (sorted_pos byte keys) byte keys) (insert_at (sorted_pos byte keys) child children))
      = (map_of (zip keys children))(byte \<mapsto> child)"
proof -
  have l: "length keys = length children" "sorted_wrt (<) keys" using assms(1) by (simp_all add: sorted_ok_def)
  show "sorted_ok cap' (insert_at (sorted_pos byte keys) byte keys)
      (insert_at (sorted_pos byte keys) child children)"
    using l assms(2,3) sorted_insert_at sorted_pos_le [of byte keys] by (simp add: sorted_ok_def)
  have "byte \<notin> fst ` set (zip keys children)" using assms(3) by (auto dest: set_zip_leftD)
  then show "map_of (zip (insert_at (sorted_pos byte keys) byte keys)
        (insert_at (sorted_pos byte keys) child children)) = (map_of (zip keys children))(byte \<mapsto> child)"
    by (simp add: zip_insert_at [OF l(1)] map_of_insert_at)
qed

lemma sorted_remove:
  assumes "sorted_ok cap keys children" "position (\<lambda>k. k = byte) keys = Some i"
  shows "i < length keys" "children ! i = the (map_of (zip keys children) byte)" "byte \<in> set keys"
    "length (remove_at i keys) \<le> cap' \<Longrightarrow> sorted_ok cap' (remove_at i keys) (remove_at i children)"
    "map_of (zip (remove_at i keys) (remove_at i children)) = (map_of (zip keys children))(byte := None)"
proof -
  have l: "length keys = length children" "sorted_wrt (<) keys" using assms(1) by (simp_all add: sorted_ok_def)
  have i: "i < length keys" "keys ! i = byte" using assms(2) by (simp_all add: position_Some)
  show "i < length keys" by (rule i)
  show "byte \<in> set keys" using i nth_mem by blast
  show "children ! i = the (map_of (zip keys children) byte)"
    using find_sorted [OF l(1), of byte] assms(2) by (metis option.map(2) option.sel)
  show "length (remove_at i keys) \<le> cap' \<Longrightarrow> sorted_ok cap' (remove_at i keys) (remove_at i children)"
    using l i sorted_remove_at [of "(<)" keys i] by (simp add: sorted_ok_def)
  have "i < length (zip keys children)" "fst (zip keys children ! i) = byte" using i l(1) by simp_all
  then show "map_of (zip (remove_at i keys) (remove_at i children))
      = (map_of (zip keys children))(byte := None)"
    using map_of_remove_at [OF sorted_ok_zip [OF assms(1)]] by (simp add: zip_remove_at [OF l(1)])
qed

lemma map_of_zip_nats:
  "distinct bs \<Longrightarrow> set bs \<subseteq> {..<256} \<Longrightarrow>
     map_of (zip (map (\<lambda>b. of_nat b) bs) (map f bs)) (byte :: u8)
       = (if unat byte \<in> set bs then Some (f (unat byte)) else None)"
  by (induction bs) (auto simp: unat_small_slot)

lemma sorted_map_of_nat:
  "sorted_wrt (<) bs \<Longrightarrow> set bs \<subseteq> {..<256} \<Longrightarrow> sorted_wrt (<) (map (\<lambda>b. of_nat b :: u8) bs)"
  by (induction bs) (auto simp: word_less_nat_alt unat_small_slot)

lemma sorted_filter_upt [simp]: "sorted_wrt (<) (filter P [0..<n])"
  by (simp add: sorted_wrt_filter)

lemma free_slot_cases:
  obtains "free_slot cs < length cs" "cs ! free_slot cs = None"
  | "free_slot cs = length cs" "\<forall>c\<in>set cs. c \<noteq> None"
  by (cases "position (\<lambda>c. c = None) cs")
    (auto simp: free_slot_def position_Some position_None)

definition put_slot :: "'a option list \<Rightarrow> 'a \<Rightarrow> 'a option list" where
  "put_slot cs c = (let slot = free_slot cs in if slot \<ge> length cs then cs @ [Some c] else cs[slot := Some c])"

lemma put_slot_nth:
  "free_slot cs < length (put_slot cs c) \<and> put_slot cs c ! free_slot cs = Some c
     \<and> length cs \<le> length (put_slot cs c) \<and> length (put_slot cs c) \<le> max (length cs) (Suc (free_slot cs))
     \<and> (\<forall>i. i < length (put_slot cs c) \<longrightarrow> i \<noteq> free_slot cs \<longrightarrow> i < length cs \<and> put_slot cs c ! i = cs ! i)"
  by (cases rule: free_slot_cases [of cs]) (auto simp: put_slot_def Let_def nth_append nth_list_update)

lemma slots_count:
  "slots_ok idx cs count \<Longrightarrow> count = card {i. i < length cs \<and> cs ! i \<noteq> None}"
  unfolding slots_ok_iff using card_image [of "slot_of idx" "{b. b < 256 \<and> idx ! b \<noteq> 0}"] by simp

lemma slots_free:
  assumes "slots_ok idx cs count" "count < NODE48_CAP"
  shows "free_slot cs < NODE48_CAP"
proof (cases rule: free_slot_cases [of cs])
  case 1
  then show ?thesis using assms(1) by (simp add: slots_ok_def)
next
  case 2
  then have "{i. i < length cs \<and> cs ! i \<noteq> None} = {..<length cs}" using nth_mem by fastforce
  then show ?thesis using slots_count [OF assms(1)] assms(2) 2 by simp
qed

lemma slots_insert:
  fixes byte :: u8
  assumes ok: "slots_ok idx cs count" "count < NODE48_CAP" and free: "idx ! unat byte = 0"
  shows "slots_ok (idx[unat byte := of_nat (free_slot cs + 1)]) (put_slot cs c) (count + 1)" (is ?ok)
    "index_lookup (idx[unat byte := of_nat (free_slot cs + 1)]) (put_slot cs c)
      = (index_lookup idx cs)(byte \<mapsto> c)"
proof -
  let ?s = "free_slot cs"
  let ?idx = "idx[unat byte := of_nat (?s + 1)]"
  let ?U = "{b. b < 256 \<and> idx ! b \<noteq> 0}"
  have s: "?s < 48" using slots_free [OF ok] .
  have len: "length idx = 256" "length cs \<le> 48" using ok(1) by (simp_all add: slots_ok_def)
  have u: "unat (of_nat (?s + 1) :: u8) = ?s + 1" using s by (intro unat_small_slot) simp
  then have nz: "of_nat (?s + 1) \<noteq> (0 :: u8)" by (metis Suc_eq_plus1 nat.simps(3) unat_0)
  have used: "{b. b < 256 \<and> ?idx ! b \<noteq> 0} = insert (unat byte) ?U"
    using len nz by (auto simp: nth_list_update simp del: of_nat_add of_nat_Suc)
  have new: "slot_of ?idx (unat byte) = ?s" using len u by (simp add: slot_of_def del: of_nat_add of_nat_Suc)
  have old: "slot_of ?idx b = slot_of idx b" if "b \<noteq> unat byte" for b
    using that by (simp add: slot_of_def)
  have notU: "unat byte \<notin> ?U" using free by simp
  have oldU: "slot_of ?idx ` ?U = slot_of idx ` ?U"
  proof (rule image_cong)
    fix b assume "b \<in> ?U"
    then have "b \<noteq> unat byte" using notU by blast
    then show "slot_of ?idx b = slot_of idx b" by (rule old)
  qed simp
  have somes: "slot_of idx ` ?U = {i. i < length cs \<and> cs ! i \<noteq> None}" and inj: "inj_on (slot_of idx) ?U"
    and card: "count = card ?U" using ok(1) by (simp_all add: slots_ok_iff)
  have fresh: "?s \<notin> slot_of idx ` ?U" unfolding somes by (cases rule: free_slot_cases [of cs]) auto
  note p = put_slot_nth [of cs c]
  have "inj_on (slot_of ?idx) ?U"
  proof (rule inj_onI)
    fix x y assume a: "x \<in> ?U" "y \<in> ?U" "slot_of ?idx x = slot_of ?idx y"
    then have "x \<noteq> unat byte" "y \<noteq> unat byte" using notU by blast+
    then have "slot_of idx x = slot_of idx y" using a(3) old by simp
    then show "x = y" using inj_onD [OF inj] a(1,2) by blast
  qed
  moreover have "slot_of ?idx (unat byte) \<notin> slot_of ?idx ` (?U - {unat byte})"
    using fresh unfolding new oldU [symmetric] by blast
  ultimately have "inj_on (slot_of ?idx) (insert (unat byte) ?U)" by (simp only: inj_on_insert simp_thms)
  moreover have "slot_of ?idx ` insert (unat byte) ?U
      = {i. i < length (put_slot cs c) \<and> put_slot cs c ! i \<noteq> None}"
    unfolding image_insert oldU somes new using p by (auto; metis le_trans less_le_trans option.distinct(1))
  moreover have "length (put_slot cs c) \<le> 48" using p len(2) s by (simp add: max_def split: if_splits)
  moreover have "count + 1 = card (insert (unat byte) ?U)" using card notU by simp
  ultimately show okn: ?ok unfolding slots_ok_iff used using len by simp
  show "index_lookup ?idx (put_slot cs c) = (index_lookup idx cs)(byte \<mapsto> c)"
  proof
    fix b :: u8
    show "index_lookup ?idx (put_slot cs c) b = ((index_lookup idx cs)(byte \<mapsto> c)) b"
    proof (cases "b = byte")
      case True
      then show ?thesis using nz len p new unfolding index_lookup_eq [OF okn]
        by (simp del: of_nat_add of_nat_Suc)
    next
      case False
      then have b: "unat b \<noteq> unat byte" using word_unat_eq_iff by blast
      have "put_slot cs c ! slot_of idx (unat b) = cs ! slot_of idx (unat b)" if nz: "idx ! unat b \<noteq> 0"
      proof -
        have m: "slot_of idx (unat b) \<in> slot_of idx ` ?U" using nz by (intro imageI) simp
        then have "slot_of idx (unat b) \<noteq> ?s" using fresh by metis
        moreover have "slot_of idx (unat b) < length (put_slot cs c)" using m p unfolding somes by auto
        ultimately show ?thesis using p by blast
      qed
      then show ?thesis using b False
        unfolding index_lookup_eq [OF okn] index_lookup_eq [OF ok(1)] old [OF b] by simp
    qed
  qed
qed

lemma slots_remove:
  fixes byte :: u8
  assumes ok: "slots_ok idx cs count" and used: "idx ! unat byte \<noteq> 0"
  shows "slots_ok (idx[unat byte := 0]) (cs[slot_of idx (unat byte) := None]) (count - 1)" (is ?ok)
    "index_lookup (idx[unat byte := 0]) (cs[slot_of idx (unat byte) := None])
      = (index_lookup idx cs)(byte := None)"
proof -
  let ?s = "slot_of idx (unat byte)"
  let ?idx = "idx[unat byte := 0]"
  let ?U = "{b. b < 256 \<and> idx ! b \<noteq> 0}"
  have len: "length idx = 256" "length cs \<le> 48" using ok by (simp_all add: slots_ok_def)
  have U': "{b. b < 256 \<and> ?idx ! b \<noteq> 0} = ?U - {unat byte}"
    using len by (auto simp: nth_list_update)
  have old: "slot_of ?idx b = slot_of idx b" if "b \<noteq> unat byte" for b
    using that by (simp add: slot_of_def)
  have inU: "unat byte \<in> ?U" using used by simp
  have somes: "slot_of idx ` ?U = {i. i < length cs \<and> cs ! i \<noteq> None}" and inj: "inj_on (slot_of idx) ?U"
    and card: "count = card ?U" using ok by (simp_all add: slots_ok_iff)
  have inj': "inj_on (slot_of ?idx) (?U - {unat byte})"
    using inj by (auto simp: inj_on_def old)
  have "slot_of ?idx ` (?U - {unat byte}) = slot_of idx ` (?U - {unat byte})"
    by (intro image_cong) (auto simp: old)
  also have "\<dots> = slot_of idx ` ?U - {?s}" using inj inU by (subst inj_on_image_set_diff [OF inj]) auto
  also have "\<dots> = {i. i < length (cs[?s := None]) \<and> cs[?s := None] ! i \<noteq> None}"
    unfolding somes by (auto simp: nth_list_update [OF slots_ok_find(1) [OF ok used]] nth_list_update_neq)
  finally show okn: ?ok unfolding slots_ok_iff U' using inj' len card inU by simp
  show "index_lookup ?idx (cs[?s := None]) = (index_lookup idx cs)(byte := None)"
  proof
    fix b :: u8
    show "index_lookup ?idx (cs[?s := None]) b = ((index_lookup idx cs)(byte := None)) b"
    proof (cases "b = byte")
      case True
      then show ?thesis using len by (simp add: index_lookup_eq [OF okn])
    next
      case False
      then have b: "unat b \<noteq> unat byte" using word_unat_eq_iff by blast
      have "?s \<noteq> slot_of idx (unat b)" if "idx ! unat b \<noteq> 0"
        using inj that used b by (auto simp: inj_on_def)
      then show ?thesis using b False by (simp add: index_lookup_eq [OF okn] index_lookup_eq [OF ok] old)
    qed
  qed
qed

lemma slots_taken:
  assumes "slots_ok idx cs count"
  shows "take_slots idx [0..<256] cs = map (\<lambda>b. (b, cs ! slot_of idx b)) (used_bytes idx)"
proof -
  have "inj_on (slot_of idx) {b \<in> set [0..<256]. idx ! b \<noteq> 0}"
    using assms by (auto simp: slots_ok_iff inj_on_def)
  then show ?thesis by (simp add: take_slots_eq used_bytes_def)
qed


lemma slots_to_sorted:
  assumes "slots_ok idx cs count" "count \<le> NODE16_CAP"
  shows "sorted_ok NODE16_CAP (map (\<lambda>(b, _). of_nat b) (take_slots idx [0..<256] cs))
      (map (\<lambda>(_, c). the c) (take_slots idx [0..<256] cs))"
    "map_of (zip (map (\<lambda>(b, _). of_nat b) (take_slots idx [0..<256] cs))
      (map (\<lambda>(_, c). the c) (take_slots idx [0..<256] cs))) = index_lookup idx cs"
proof -
  let ?bs = "used_bytes idx"
  have taken: "map (\<lambda>(b, _). of_nat b) (take_slots idx [0..<256] cs) = map of_nat ?bs"
      "map (\<lambda>(_, c). the c) (take_slots idx [0..<256] cs) = map (\<lambda>b. the (cs ! slot_of idx b)) ?bs"
    by (simp_all add: slots_taken [OF assms(1)])
  have sub: "set ?bs \<subseteq> {..<256}" by auto
  have "sorted_wrt (<) ?bs" by (simp add: used_bytes_def)
  then have "sorted_wrt (<) (map (\<lambda>b. of_nat b :: u8) ?bs)" using sub by (rule sorted_map_of_nat)
  then show "sorted_ok NODE16_CAP (map (\<lambda>(b, _). of_nat b) (take_slots idx [0..<256] cs))
      (map (\<lambda>(_, c). the c) (take_slots idx [0..<256] cs))"
    unfolding taken using assms by (simp add: sorted_ok_def slots_ok_def)
  show "map_of (zip (map (\<lambda>(b, _). of_nat b) (take_slots idx [0..<256] cs))
      (map (\<lambda>(_, c). the c) (take_slots idx [0..<256] cs))) = index_lookup idx cs"
  proof
    fix byte :: u8
    show "map_of (zip (map (\<lambda>(b, _). of_nat b) (take_slots idx [0..<256] cs))
      (map (\<lambda>(_, c). the c) (take_slots idx [0..<256] cs))) byte = index_lookup idx cs byte"
      unfolding taken map_of_zip_nats [OF distinct_used_bytes sub] index_lookup_eq [OF assms(1)]
      using slots_ok_find(2) [OF assms(1), of byte] by auto
  qed
qed

lemma fold_put_length [simp]: "length (fold (\<lambda>(b, c) cs. cs[b := c]) xs init) = length init"
  by (induction xs arbitrary: init) auto

lemma fold_put:
  "distinct (map fst xs) \<Longrightarrow> b < length init \<Longrightarrow> fold (\<lambda>(b, c) cs. cs[b := c]) xs init ! b
     = (case map_of xs b of Some c \<Rightarrow> c | None \<Rightarrow> init ! b)"
proof (induction xs arbitrary: init)
  case (Cons x xs)
  have "map_of xs (fst x) = None" using Cons.prems(1) by (simp add: map_of_eq_None_iff)
  then show ?case using Cons by (cases x) (auto split: option.splits)
qed simp

lemma map_of_pairs: "map_of (map (\<lambda>b. (b, f b)) bs) b = (if b \<in> set bs then Some (f b) else None)"
  by (induction bs) auto

lemma slots_to_direct:
  assumes "slots_ok idx cs count" "b < 256"
  shows "fold (\<lambda>(b, c) cs. cs[b := c]) (take_slots idx [0..<256] cs) (replicate 256 None) ! b
    = index_lookup idx cs (of_nat b)"
proof -
  have "distinct (map fst (take_slots idx [0..<256] cs))"
    by (simp add: slots_taken [OF assms(1)] comp_def)
  then show ?thesis using assms(2)
    by (simp add: fold_put slots_taken [OF assms(1)] map_of_pairs index_lookup_eq [OF assms(1)]
        unat_small_slot)
qed

lemma filled_iff: "set (filled cs) = {b. b < 256 \<and> cs ! b \<noteq> None}"
  by (auto simp: filled_def)

lemma distinct_filled [simp]: "distinct (filled cs)"
  by (simp add: filled_def)

lemma filled_card: "length (filled cs) = card {b. b < 256 \<and> cs ! b \<noteq> None}"
  using distinct_card [OF distinct_filled, of cs] by (simp add: filled_iff)

lemma filled_update:
  assumes "length cs = 256" "b < 256"
  shows "length (filled (cs[b := Some c]))
      = (if cs ! b = None then length (filled cs) + 1 else length (filled cs))"
    "length (filled (cs[b := None]))
      = (if cs ! b = None then length (filled cs) else length (filled cs) - 1)"
proof -
  have some: "{x. x < 256 \<and> cs[b := Some c] ! x \<noteq> None} = insert b {x. x < 256 \<and> cs ! x \<noteq> None}"
    using assms by (auto simp: nth_list_update split: if_splits)
  have none: "{x. x < 256 \<and> cs[b := None] ! x \<noteq> None} = {x. x < 256 \<and> cs ! x \<noteq> None} - {b}"
    using assms by (auto simp: nth_list_update split: if_splits)
  show "length (filled (cs[b := Some c]))
      = (if cs ! b = None then length (filled cs) + 1 else length (filled cs))"
    unfolding filled_card some using assms(2) by (simp add: card_insert_if)
  show "length (filled (cs[b := None]))
      = (if cs ! b = None then length (filled cs) else length (filled cs) - 1)"
    unfolding filled_card none using assms(2) by (simp add: card_Diff_singleton_if)
qed

lemma slots_filled:
  assumes "slots_ok idx cs count"
  shows "length (filled (fold (\<lambda>(b, c) cs. cs[b := c]) (take_slots idx [0..<256] cs) (replicate 256 None))) = count"
proof -
  have "{b. b < 256 \<and> fold (\<lambda>(b, c) cs. cs[b := c]) (take_slots idx [0..<256] cs) (replicate 256 None) ! b \<noteq> None}
      = {b. b < 256 \<and> idx ! b \<noteq> 0}"
  proof (rule Collect_cong, rule conj_cong [OF refl])
    fix b :: nat assume b: "b < 256"
    have "index_lookup idx cs (of_nat b) \<noteq> None \<longleftrightarrow> idx ! b \<noteq> 0"
      using slots_ok_find(2) [OF assms, of "of_nat b"] b
      by (simp add: index_lookup_eq [OF assms] unat_small_slot)
    then show "fold (\<lambda>(b, c) cs. cs[b := c]) (take_slots idx [0..<256] cs) (replicate 256 None) ! b \<noteq> None
        \<longleftrightarrow> idx ! b \<noteq> 0" unfolding slots_to_direct [OF assms b] .
  qed
  then show ?thesis using assms unfolding filled_card by (simp add: slots_ok_iff)
qed


lemma find_child_sorted:
  "node_ok (Node4 p keys children) \<Longrightarrow> find_child (Node4 p keys children) = map_of (zip keys children)"
  "node_ok (Node16 p keys children) \<Longrightarrow> find_child (Node16 p keys children) = map_of (zip keys children)"
  by (auto simp: fun_eq_iff sorted_ok_def find_sorted)

lemma grow_16:
  assumes "node_ok (Node4 p keys children)"
  shows "node_ok (grow_4_to_16 p keys children)"
    "find_child (grow_4_to_16 p keys children) = find_child (Node4 p keys children)"
    "art_prefix (grow_4_to_16 p keys children) = p"
proof -
  have "map (\<lambda>i. children ! i) [0..<length keys] = children"
    using assms by (simp add: sorted_ok_def map_nth)
  then have g: "grow_4_to_16 p keys children = Node16 p keys children" by (simp add: grow_4_to_16_def)
  show "node_ok (grow_4_to_16 p keys children)" using assms by (simp add: g sorted_ok_def)
  show "find_child (grow_4_to_16 p keys children) = find_child (Node4 p keys children)" by (simp add: g fun_eq_iff)
  show "art_prefix (grow_4_to_16 p keys children) = p" by (simp add: g)
qed

lemma map_of_zip_unat:
  "map_of (zip (map unat keys) (map f xs)) (unat (byte :: u8)) = map_option f (map_of (zip keys xs) byte)"
proof (induction keys arbitrary: xs)
  case (Cons k keys)
  show ?case using Cons by (cases xs) (auto simp: unat_eq_byte)
qed simp

lemma grow_48:
  assumes "node_ok (Node16 p keys children)"
  shows "node_ok (grow_16_to_48 p keys children)"
    "find_child (grow_16_to_48 p keys children) = find_child (Node16 p keys children)"
    "art_prefix (grow_16_to_48 p keys children) = p"
proof -
  have s: "length keys = length children" "length keys \<le> 16" "distinct keys"
    using assms sorted_wrt_less_distinct by (simp_all add: sorted_ok_def)
  have ch: "map (\<lambda>i. Some (children ! i)) [0..<length keys] = map Some children"
    by (rule nth_equalityI) (simp_all add: s(1))
  have d: "distinct (map unat keys)" using s(3) by (simp add: distinct_map inj_on_def unat_eq_byte)
  note n = number_bytes_slots [OF d, of "map Some children"]
  have "slots_ok (number_bytes (map unat keys)) (map Some children) (length (map unat keys))"
    using s by (intro n(1)) auto
  then show ok: "node_ok (grow_16_to_48 p keys children)" by (simp add: grow_16_to_48_def ch)
  have "index_lookup (number_bytes (map unat keys)) (map Some children) byte
      = Option.bind (map_of (zip (map unat keys) (map Some children)) (unat byte)) (\<lambda>c. c)" for byte
    using s by (intro n(2)) auto
  then have "index_lookup (number_bytes (map unat keys)) (map Some children) byte = map_of (zip keys children) byte" for byte
    by (simp add: map_of_zip_unat) (cases "map_of (zip keys children) byte"; simp)
  then show "find_child (grow_16_to_48 p keys children) = find_child (Node16 p keys children)"
    unfolding find_child_sorted(2) [OF assms] by (simp add: grow_16_to_48_def ch fun_eq_iff)
  show "art_prefix (grow_16_to_48 p keys children) = p" by (simp add: grow_16_to_48_def)
qed

lemma grow_256:
  assumes "node_ok (Node48 p idx children count)"
  shows "node_ok (grow_48_to_256 p idx children count)"
    "find_child (grow_48_to_256 p idx children count) = find_child (Node48 p idx children count)"
    "art_prefix (grow_48_to_256 p idx children count) = p"
proof -
  have s: "slots_ok idx children count" using assms by simp
  show "node_ok (grow_48_to_256 p idx children count)"
    using slots_filled [OF s] by (simp add: grow_48_to_256_def)
  show "find_child (grow_48_to_256 p idx children count) = find_child (Node48 p idx children count)"
    using slots_to_direct [OF s unat_byte_lt] by (simp add: grow_48_to_256_def fun_eq_iff)
  show "art_prefix (grow_48_to_256 p idx children count) = p" by (simp add: grow_48_to_256_def)
qed

lemma find_child_sorted_None:
  "node_ok (Node4 p keys children) \<Longrightarrow> find_child (Node4 p keys children) byte = None \<longleftrightarrow> byte \<notin> set keys"
  "node_ok (Node16 p keys children) \<Longrightarrow> find_child (Node16 p keys children) byte = None \<longleftrightarrow> byte \<notin> set keys"
  unfolding find_child_sorted by (simp_all add: sorted_find_None)

definition inserts :: "'v art_node \<Rightarrow> u8 \<Rightarrow> 'v art_node \<Rightarrow> 'v art_node \<Rightarrow> bool" where
  "inserts n byte c n' \<longleftrightarrow> node_ok n' \<and> find_child n' = (find_child n)(byte \<mapsto> c)
     \<and> art_prefix n' = art_prefix n"

lemma insert_4:
  assumes "node_ok (Node4 p keys children)" "find_child (Node4 p keys children) byte = None"
    "length keys < NODE4_CAP"
  shows "inserts (Node4 p keys children) byte c (insert_child (Node4 p keys children) byte c)"
proof -
  have "byte \<notin> set keys" using assms(1,2) find_child_sorted_None by blast
  note ins = sorted_insert [OF _ assms(3) this, where children = children and child = c and cap = NODE4_CAP]
  have ok: "node_ok (Node4 p (insert_at (sorted_pos byte keys) byte keys)
      (insert_at (sorted_pos byte keys) c children))" using ins(1) assms(1) by simp
  have n: "insert_child (Node4 p keys children) byte c = Node4 p
      (insert_at (sorted_pos byte keys) byte keys) (insert_at (sorted_pos byte keys) c children)"
    using assms(3) by (simp add: Let_def)
  show ?thesis unfolding n inserts_def find_child_sorted(1) [OF ok] find_child_sorted(1) [OF assms(1)]
    using ok ins(2) assms(1) by simp
qed

lemma insert_16:
  assumes "node_ok (Node16 p keys children)" "find_child (Node16 p keys children) byte = None"
    "length keys < NODE16_CAP"
  shows "inserts (Node16 p keys children) byte c (insert_child (Node16 p keys children) byte c)"
proof -
  have "byte \<notin> set keys" using assms(1,2) find_child_sorted_None by blast
  note ins = sorted_insert [OF _ assms(3) this, where children = children and child = c and cap = NODE16_CAP]
  have ok: "node_ok (Node16 p (insert_at (sorted_pos byte keys) byte keys)
      (insert_at (sorted_pos byte keys) c children))" using ins(1) assms(1) by simp
  have n: "insert_child (Node16 p keys children) byte c = Node16 p
      (insert_at (sorted_pos byte keys) byte keys) (insert_at (sorted_pos byte keys) c children)"
    using assms(3) by (simp add: Let_def)
  show ?thesis unfolding n inserts_def find_child_sorted(2) [OF ok] find_child_sorted(2) [OF assms(1)]
    using ok ins(2) assms(1) by simp
qed

lemma insert_48:
  assumes "node_ok (Node48 p idx children count)" "find_child (Node48 p idx children count) byte = None"
    "count < NODE48_CAP"
  shows "inserts (Node48 p idx children count) byte c (insert_child (Node48 p idx children count) byte c)"
proof -
  have s: "slots_ok idx children count" using assms(1) by simp
  have "idx ! unat byte = 0"
    using assms(2) slots_ok_find(2) [OF s, of byte] by (auto simp: index_lookup_eq [OF s] split: if_splits)
  note ins = slots_insert [OF s assms(3) this, of c]
  have n: "insert_child (Node48 p idx children count) byte c
      = Node48 p (idx[unat byte := of_nat (free_slot children + 1)]) (put_slot children c) (count + 1)"
    using assms(3) by (simp add: Let_def put_slot_def)
  show ?thesis unfolding n inserts_def using ins by (simp add: fun_eq_iff del: of_nat_add of_nat_Suc)
qed

lemma insert_256:
  assumes "node_ok (Node256 p children count)" "find_child (Node256 p children count) byte = None"
  shows "inserts (Node256 p children count) byte c (insert_child (Node256 p children count) byte c)"
proof -
  have l: "length children = 256" "count = length (filled children)" "children ! unat byte = None"
    using assms by auto
  show ?thesis using l filled_update(1) [OF l(1) unat_byte_lt, of byte c]
    by (auto simp: inserts_def insert_256_def fun_eq_iff nth_list_update unat_eq_byte)
qed

lemma inserts_grow:
  assumes "find_child g = find_child n" "art_prefix g = art_prefix n" "inserts g byte c n'"
  shows "inserts n byte c n'"
  using assms by (simp add: inserts_def)

lemma insert_child_laws:
  "node_ok n \<Longrightarrow> find_child n byte = None \<Longrightarrow> inserts n byte c (insert_child n byte c)"
proof (induction n byte c rule: insert_child.induct)
  case (1 p keys children byte child)
  show ?case
  proof (cases "length keys < NODE4_CAP")
    case True
    then show ?thesis using insert_4 1(2,3) by blast
  next
    case False
    note g = grow_16 [OF 1(2)]
    have "inserts (grow_4_to_16 p keys children) byte child
        (insert_child (grow_4_to_16 p keys children) byte child)"
      using 1(1) [OF False g(1)] 1(3) unfolding g(2) .
    then show ?thesis using inserts_grow [OF g(2)] g(3) False by (simp del: find_child.simps)
  qed
next
  case (2 p keys children byte child)
  show ?case
  proof (cases "length keys < NODE16_CAP")
    case True
    then show ?thesis using insert_16 2(2,3) by blast
  next
    case False
    note g = grow_48 [OF 2(2)]
    have "inserts (grow_16_to_48 p keys children) byte child
        (insert_child (grow_16_to_48 p keys children) byte child)"
      using 2(1) [OF False g(1)] 2(3) unfolding g(2) .
    then show ?thesis using inserts_grow [OF g(2)] g(3) False by (simp del: find_child.simps)
  qed
next
  case (3 p idx children count byte child)
  show ?case
  proof (cases "count < NODE48_CAP")
    case True
    then show ?thesis using insert_48 3(2,3) by blast
  next
    case False
    note g = grow_256 [OF 3(2)]
    have "inserts (grow_48_to_256 p idx children count) byte child
        (insert_child (grow_48_to_256 p idx children count) byte child)"
      using 3(1) [OF False g(1)] 3(3) unfolding g(2) .
    then show ?thesis using inserts_grow [OF g(2)] g(3) False by (simp del: find_child.simps)
  qed
next
  case (4 p children count byte child)
  then show ?case by (rule insert_256)
qed simp


definition removes :: "'v art_node \<Rightarrow> u8 \<Rightarrow> 'v art_node option \<times> 'v art_node \<Rightarrow> bool" where
  "removes n byte r \<longleftrightarrow> fst r = find_child n byte \<and> node_ok (snd r)
     \<and> find_child (snd r) = (find_child n)(byte := None) \<and> art_prefix (snd r) = art_prefix n"

lemma sorted_map_of_Some:
  "sorted_ok cap keys children \<Longrightarrow> byte \<in> set keys \<Longrightarrow> \<exists>c. map_of (zip keys children) byte = Some c"
  by (simp add: sorted_ok_def map_of_zip_is_Some)

lemma remove_4:
  assumes ok: "node_ok (Node4 p keys children)"
  shows "removes (Node4 p keys children) byte (remove_child (Node4 p keys children) byte)"
proof (cases "position (\<lambda>k. k = byte) keys")
  case None
  then have "byte \<notin> set keys" by (auto simp: position_None)
  then have "find_child (Node4 p keys children) byte = None" using find_child_sorted_None(1) [OF ok] by blast
  then show ?thesis using None ok by (simp add: removes_def fun_upd_idem del: find_child.simps)
next
  case (Some i)
  have s: "sorted_ok NODE4_CAP keys children" using ok by simp
  note r = sorted_remove [OF s Some]
  obtain c where c: "map_of (zip keys children) byte = Some c" using sorted_map_of_Some [OF s r(3)] by blast
  have "length (remove_at i keys) \<le> NODE4_CAP" using s r(1) by (auto simp: sorted_ok_def)
  then have ok': "node_ok (Node4 p (remove_at i keys) (remove_at i children))" using r(4) by simp
  have n: "remove_child (Node4 p keys children) byte
      = (Some (children ! i), Node4 p (remove_at i keys) (remove_at i children))" using Some by simp
  show ?thesis unfolding n removes_def snd_conv fst_conv find_child_sorted(1) [OF ok'] find_child_sorted(1) [OF ok]
    using ok' r(2,5) c by simp
qed

lemma remove_16:
  assumes ok: "node_ok (Node16 p keys children)"
  shows "removes (Node16 p keys children) byte (remove_child (Node16 p keys children) byte)"
proof (cases "position (\<lambda>k. k = byte) keys")
  case None
  then have "byte \<notin> set keys" by (auto simp: position_None)
  then have "find_child (Node16 p keys children) byte = None" using find_child_sorted_None(2) [OF ok] by blast
  then show ?thesis using None ok by (simp add: removes_def fun_upd_idem del: find_child.simps)
next
  case (Some i)
  have s: "sorted_ok NODE16_CAP keys children" using ok by simp
  note r = sorted_remove [OF s Some]
  obtain c where c: "map_of (zip keys children) byte = Some c" using sorted_map_of_Some [OF s r(3)] by blast
  let ?k = "remove_at i keys" and ?c = "remove_at i children"
  let ?n = "if length ?k \<le> 1 then Node4 p ?k ?c else Node16 p ?k ?c"
  have ok': "node_ok ?n" using r(1) r(4) [of 4] r(4) [of 16] s by (auto simp: sorted_ok_def)
  have find: "find_child ?n = map_of (zip ?k ?c)"
  proof (cases "length ?k \<le> 1")
    case True
    then show ?thesis using find_child_sorted(1) [of p ?k ?c] ok' by (simp del: find_child.simps node_ok.simps)
  next
    case False
    then show ?thesis using find_child_sorted(2) [of p ?k ?c] ok' by (simp del: find_child.simps node_ok.simps)
  qed
  have n: "remove_child (Node16 p keys children) byte = (Some (children ! i), ?n)"
    using Some by (simp add: Let_def)
  have "art_prefix ?n = p" by simp
  then show ?thesis unfolding n removes_def snd_conv fst_conv find find_child_sorted(2) [OF ok]
    using ok' r(2,5) c by simp
qed

lemma remove_48:
  assumes ok: "node_ok (Node48 p idx children count)"
  shows "removes (Node48 p idx children count) byte (remove_child (Node48 p idx children count) byte)"
proof -
  have s: "slots_ok idx children count" using ok by simp
  show ?thesis
  proof (cases "idx ! unat byte = 0")
    case True
    then have "find_child (Node48 p idx children count) byte = None" by (simp add: index_lookup_eq [OF s])
    then show ?thesis using True ok by (simp add: removes_def fun_upd_idem del: find_child.simps)
  next
    case False
    let ?i = "idx[unat byte := 0]" and ?c = "children[slot_of idx (unat byte) := None]"
    let ?t = "take_slots ?i [0..<256] ?c"
    let ?n = "if count - 1 \<le> NODE16_CAP
      then Node16 p (map (\<lambda>(b, _). of_nat b) ?t) (map (\<lambda>(_, c). the c) ?t) else Node48 p ?i ?c (count - 1)"
    note r = slots_remove [OF s False]
    have n: "remove_child (Node48 p idx children count) byte = (children ! slot_of idx (unat byte), ?n)"
      using False by (simp add: Let_def slot_of_def del: take_slots.simps)
    have "node_ok ?n \<and> find_child ?n = index_lookup ?i ?c"
    proof (cases "count - 1 \<le> NODE16_CAP")
      case True
      note k = slots_to_sorted [OF r(1) True]
      have o: "node_ok (Node16 p (map (\<lambda>(b, _). of_nat b) ?t) (map (\<lambda>(_, c). the c) ?t))" using k(1) by simp
      show ?thesis using True o find_child_sorted(2) [OF o] k(2) by (simp del: find_child.simps node_ok.simps)
    next
      case False
      then show ?thesis using r(1) by (simp add: fun_eq_iff)
    qed
    moreover have "art_prefix ?n = p" by simp
    ultimately show ?thesis unfolding n removes_def fst_conv snd_conv using r(2) False
      by (simp add: index_lookup_eq [OF s] fun_eq_iff del: take_slots.simps)
  qed
qed

lemma bind_zip_map:
  "Option.bind (map_of (zip bs (map f bs)) b) (\<lambda>c. c) = (if b \<in> set bs then f b else None)"
  by (induction bs) auto

lemma remove_256:
  assumes ok: "node_ok (Node256 p children count)"
  shows "removes (Node256 p children count) byte (remove_child (Node256 p children count) byte)"
proof -
  have l: "length children = 256" "count = length (filled children)" using ok by auto
  show ?thesis
  proof (cases "children ! unat byte")
    case None
    then have "children[unat byte := None] = children" by (metis list_update_id)
    then show ?thesis using None ok by (auto simp: removes_def Let_def)
  next
    case (Some c)
    let ?c = "children[unat byte := None]"
    let ?bs = "filter (\<lambda>b. ?c ! b \<noteq> None) [0..<256]"
    let ?n = "if count - 1 \<le> NODE48_CAP
      then Node48 p (number_bytes ?bs) (map (\<lambda>b. ?c ! b) ?bs) (count - 1) else Node256 p ?c (count - 1)"
    have n: "remove_child (Node256 p children count) byte = (Some c, ?n)" using Some by (simp add: Let_def)
    have len: "length ?bs = count - 1"
      using filled_update(2) [OF l(1) unat_byte_lt, of byte] Some l(2) by (simp add: filled_def)
    have find: "?c ! unat b = ((\<lambda>b. children ! unat b)(byte := None)) b" for b
      using l(1) by (simp add: nth_list_update unat_eq_byte)
    have "node_ok ?n \<and> (\<forall>b. find_child ?n b = ?c ! unat b)"
    proof (cases "count - 1 \<le> NODE48_CAP")
      case True
      have b: "distinct ?bs" "set ?bs \<subseteq> {..<256}" "length ?bs \<le> NODE48_CAP" using True len by auto
      have c: "length (map (\<lambda>b. ?c ! b) ?bs) = length ?bs" "\<forall>x\<in>set (map (\<lambda>b. ?c ! b) ?bs). x \<noteq> None"
        by auto
      have "index_lookup (number_bytes ?bs) (map (\<lambda>b. ?c ! b) ?bs) b = ?c ! unat b" for b
        unfolding number_bytes_slots(2) [OF b c] bind_zip_map by auto
      then show ?thesis using True number_bytes_slots(1) [OF b c] len by simp
    next
      case False
      then show ?thesis using l(1) len by (simp add: filled_def)
    qed
    moreover have "art_prefix ?n = p" by simp
    ultimately show ?thesis unfolding n removes_def fst_conv snd_conv
      using find Some by (simp add: fun_eq_iff)
  qed
qed

lemma remove_child_laws: "node_ok n \<Longrightarrow> removes n byte (remove_child n byte)"
  using remove_4 remove_16 remove_48 remove_256 by (cases n) (blast, blast, blast, blast, simp)

lemma map_of_scan:
  "distinct bs \<Longrightarrow> set bs \<subseteq> {..<256} \<Longrightarrow>
     map_of (concat (map (\<lambda>b. case f b of None \<Rightarrow> [] | Some c \<Rightarrow> [(of_nat b :: u8, c)]) bs)) byte
       = (if unat byte \<in> set bs then f (unat byte) else None)"
proof (induction bs)
  case (Cons b bs)
  have "byte = of_nat b \<longleftrightarrow> unat byte = b" using Cons.prems(2) by (auto simp: unat_small_slot)
  then show ?case using Cons by (auto split: option.splits)
qed simp

lemma keys_of_scan:
  "map fst (concat (map (\<lambda>b. case f b of None \<Rightarrow> [] | Some c \<Rightarrow> [(of_nat b :: u8, c)]) bs))
     = map of_nat (filter (\<lambda>b. f b \<noteq> None) bs)"
  by (induction bs) (auto split: option.splits)

lemma scan_laws:
  fixes f :: "nat \<Rightarrow> 'a option"
  defines "xs \<equiv> concat (map (\<lambda>b. case f b of None \<Rightarrow> [] | Some c \<Rightarrow> [(of_nat b :: u8, c)]) [0..<256])"
  shows "map_of xs = (\<lambda>byte. f (unat byte))" "sorted_wrt (<) (map fst xs)"
proof -
  have bs: "set [0..<256] \<subseteq> {..<256 :: nat}" by auto
  show "map_of xs = (\<lambda>byte. f (unat byte))"
    unfolding xs_def fun_eq_iff map_of_scan [OF distinct_upt bs] by simp
  show "sorted_wrt (<) (map fst xs)"
    unfolding xs_def keys_of_scan using bs by (intro sorted_map_of_nat) auto
qed

lemma iter_children_laws:
  assumes ok: "node_ok n"
  shows "map_of (iter_children n) = find_child n \<and> sorted_wrt (<) (map fst (iter_children n))"
proof (cases n)
  case (Node4 p keys children)
  then show ?thesis using ok find_child_sorted(1) [of p keys children] by (simp add: sorted_ok_def)
next
  case (Node16 p keys children)
  then show ?thesis using ok find_child_sorted(2) [of p keys children] by (simp add: sorted_ok_def)
next
  case (Node48 p idx children count)
  have s: "slots_ok idx children count" using ok Node48 by simp
  show ?thesis unfolding Node48 iter_children.simps scan_laws(1) using scan_laws(2)
    by (auto simp: fun_eq_iff)
next
  case (Node256 p children count)
  then show ?thesis unfolding Node256 iter_children.simps scan_laws(1) using ok Node256 scan_laws(2)
    by (auto simp: fun_eq_iff)
qed (use ok in simp)

lemma length_scan:
  "length (concat (map (\<lambda>b. case f b of None \<Rightarrow> [] | Some c \<Rightarrow> [(of_nat b :: u8, c)]) bs))
     = length (filter (\<lambda>b. f b \<noteq> None) bs)"
  using arg_cong [OF keys_of_scan [of f bs], of length] by simp

lemma count_iter_children:
  assumes ok: "node_ok n"
  shows "child_count n = length (iter_children n)"
proof (cases n)
  case (Node48 p idx children count)
  have s: "slots_ok idx children count" using ok Node48 by simp
  have "filter (\<lambda>b. index_lookup idx children (of_nat b) \<noteq> None) [0..<256] = used_bytes idx"
    unfolding used_bytes_def
  proof (rule filter_cong [OF refl])
    fix b :: nat assume "b \<in> set [0..<256]"
    then show "index_lookup idx children (of_nat b) \<noteq> None \<longleftrightarrow> idx ! b \<noteq> 0"
      using slots_ok_find(2) [OF s, of "of_nat b"] by (simp add: index_lookup_eq [OF s] unat_small_slot)
  qed
  then show ?thesis using s unfolding Node48 iter_children.simps length_scan by (simp add: slots_ok_def)
next
  case (Node256 p children count)
  have "filter (\<lambda>b. (if b < length children then children ! b else None) \<noteq> None) [0..<256]
      = filled children"
    unfolding filled_def using ok Node256 by (intro filter_cong) auto
  then show ?thesis using ok unfolding Node256 iter_children.simps length_scan by simp
qed (use ok in \<open>auto simp: sorted_ok_def\<close>)

interpretation art: child_table node_ok find_child insert_child remove_child iter_children art_prefix child_count
  by unfold_locales
    (use insert_child_laws [unfolded inserts_def] remove_child_laws [unfolded removes_def]
      iter_children_laws count_iter_children in blast)+

end
