(* ===== verification/Art.thy ===== *)
theory Art
  imports ArtNode "HOL-Library.Sublist"
begin

text \<open>
  The adaptive radix tree (\<open>cendb-index/src/art.rs\<close>): insertion, lookup and removal over the
  path-compressed nodes of \<open>ArtNode\<close>, the map from keys to values a tree denotes, and how
  each operation changes that map.
\<close>

section \<open>Operations\<close>

record 'v art_tree =
  art_root :: "'v art_node option"
  art_len :: nat

definition art_new :: "'v art_tree" where
  "art_new = \<lparr>art_root = None, art_len = 0\<rparr>"

definition art_is_empty :: "'v art_tree \<Rightarrow> bool" where
  "art_is_empty t \<longleftrightarrow> art_len t = 0"

text \<open>How many leading bytes two byte strings share.\<close>

fun common_len :: "bytes \<Rightarrow> bytes \<Rightarrow> nat" where
  "common_len (x # xs) (y # ys) = (if x = y then Suc (common_len xs ys) else 0)"
| "common_len _ _ = 0"

text \<open>A second key arrives at a leaf.\<close>

definition split_leaf :: "'v art_leaf \<Rightarrow> bytes \<Rightarrow> nat \<Rightarrow> 'v \<Rightarrow> 'v art_node" where
  "split_leaf leaf key depth value =
     (let existing_key = leaf_key leaf;
          common = common_len (drop depth key) (drop depth existing_key);
          new_depth = depth + common;
          new_node = set_prefix new_node4 (take common (drop depth key));
          existing_leaf = Leaf leaf;
          new_leaf = Leaf (ArtLeaf key value)
      in if new_depth < length existing_key \<and> new_depth < length key
         then insert_child (insert_child new_node (existing_key ! new_depth) existing_leaf)
           (key ! new_depth) new_leaf
         else if new_depth \<ge> length existing_key \<and> new_depth \<ge> length key then Leaf leaf
         else if new_depth \<ge> length existing_key
         then insert_child new_node (key ! new_depth) new_leaf
         else insert_child new_node (existing_key ! new_depth) existing_leaf)"

text \<open>A key leaves the compressed prefix of an interior node.\<close>

definition split_node :: "'v art_node \<Rightarrow> bytes \<Rightarrow> nat \<Rightarrow> nat \<Rightarrow> 'v \<Rightarrow> 'v art_node" where
  "split_node node key depth match_len value =
     (let p = art_prefix node;
          new_parent = set_prefix new_node4 (take match_len p);
          trimmed = set_prefix node (drop (match_len + 1) p);
          new_parent = insert_child new_parent (p ! match_len) trimmed
      in if depth + match_len < length key
         then insert_child new_parent (key ! (depth + match_len)) (Leaf (ArtLeaf key value))
         else new_parent)"

function insert_recursive ::
    "'v art_node option \<Rightarrow> bytes \<Rightarrow> nat \<Rightarrow> 'v \<Rightarrow> 'v option \<times> 'v art_node option" where
  "insert_recursive slot key depth value =
     (case slot of
        None \<Rightarrow> (None, Some (Leaf (ArtLeaf key value)))
      | Some node \<Rightarrow>
          (case as_leaf node of
             Some leaf \<Rightarrow>
               if leaf_key leaf = key
               then (Some (leaf_value leaf), Some (Leaf (ArtLeaf (leaf_key leaf) value)))
               else (None, Some (split_leaf leaf key depth value))
           | None \<Rightarrow>
               let p = art_prefix node;
                   match_len = common_len p (drop depth key)
               in if match_len < length p then (None, Some (split_node node key depth match_len value))
                  else
                    let new_depth = depth + length p
                    in if new_depth \<ge> length key then (None, Some node)
                       else if find_child node (key ! new_depth) = None
                       then (None, Some (insert_child node (key ! new_depth) (Leaf (ArtLeaf key value))))
                       else
                         let (removed, new_n) = remove_child node (key ! new_depth)
                         in (case removed of
                               None \<Rightarrow> (None, Some new_n)
                             | Some child \<Rightarrow>
                                 let (result, child_opt) =
                                   insert_recursive (Some child) key (new_depth + 1) value
                                 in (result, Some (case child_opt of
                                       Some c \<Rightarrow> insert_child new_n (key ! new_depth) c
                                     | None \<Rightarrow> new_n)))))"
  by pat_completeness auto
termination
  by (relation "measure (\<lambda>(_, key, depth, _). length key - depth)") auto

definition art_insert :: "'v art_tree \<Rightarrow> bytes \<Rightarrow> 'v \<Rightarrow> 'v option \<times> 'v art_tree" where
  "art_insert t key value =
     (let (result, root) = insert_recursive (art_root t) key 0 value
      in (result, \<lparr>art_root = root, art_len = (if result = None then art_len t + 1 else art_len t)\<rparr>))"

function get_loop :: "'v art_node \<Rightarrow> bytes \<Rightarrow> nat \<Rightarrow> 'v option" where
  "get_loop node key depth =
     (case as_leaf node of
        Some leaf \<Rightarrow> if leaf_key leaf = key then Some (leaf_value leaf) else None
      | None \<Rightarrow>
          if depth \<ge> length key then None
          else if \<not> prefix (art_prefix node) (drop depth key) then None
          else
            let depth = depth + length (art_prefix node)
            in if depth \<ge> length key then None
               else (case find_child node (key ! depth) of
                       None \<Rightarrow> None
                     | Some child \<Rightarrow> get_loop child key (depth + 1)))"
  by pat_completeness auto
termination
  by (relation "measure (\<lambda>(_, key, depth). length key - depth)") auto

definition art_get :: "'v art_tree \<Rightarrow> bytes \<Rightarrow> 'v option" where
  "art_get t key =
     (case art_root t of
        None \<Rightarrow> None
      | Some node \<Rightarrow>
          if key = []
          then (case as_leaf node of
                  Some leaf \<Rightarrow> if leaf_key leaf = [] then Some (leaf_value leaf) else None
                | None \<Rightarrow> None)
          else get_loop node key 0)"

definition compress :: "'v art_node \<Rightarrow> 'v option \<Rightarrow> 'v art_node" where
  "compress node result =
     (if child_count node = 1 \<and> result \<noteq> None
      then (case iter_children node of (_, only_child) # _ \<Rightarrow> only_child | [] \<Rightarrow> node)
      else node)"

function remove_recursive ::
    "'v art_node option \<Rightarrow> bytes \<Rightarrow> nat \<Rightarrow> 'v option \<times> 'v art_node option" where
  "remove_recursive slot key depth =
     (case slot of
        None \<Rightarrow> (None, None)
      | Some node \<Rightarrow>
          (case as_leaf node of
             Some leaf \<Rightarrow>
               if leaf_key leaf = key then (Some (leaf_value leaf), None) else (None, Some node)
           | None \<Rightarrow>
               let p = art_prefix node
               in if \<not> prefix p (drop depth key) then (None, Some node)
                  else
                    let new_depth = depth + length p
                    in if new_depth \<ge> length key then (None, Some node)
                       else if find_child node (key ! new_depth) = None then (None, Some node)
                       else
                         let (removed, new_n) = remove_child node (key ! new_depth)
                         in (case removed of
                               None \<Rightarrow> (None, Some new_n)
                             | Some child \<Rightarrow>
                                 let (result, child_opt) =
                                       remove_recursive (Some child) key (new_depth + 1);
                                     new_n = (case child_opt of
                                       Some c \<Rightarrow> insert_child new_n (key ! new_depth) c
                                     | None \<Rightarrow> new_n)
                                 in (result, Some (compress new_n result)))))"
  by pat_completeness auto
termination
  by (relation "measure (\<lambda>(_, key, depth). length key - depth)") auto

definition art_remove :: "'v art_tree \<Rightarrow> bytes \<Rightarrow> 'v option \<times> 'v art_tree" where
  "art_remove t key =
     (let (result, root) = remove_recursive (art_root t) key 0
      in (result, \<lparr>art_root = root, art_len = (if result = None then art_len t else art_len t - 1)\<rparr>))"

declare insert_recursive.simps [simp del] get_loop.simps [simp del] remove_recursive.simps [simp del]

section \<open>The map a tree denotes\<close>

text \<open>What the suffixes of a path find below a node.\<close>

definition look :: "bytes \<Rightarrow> 'v art_node \<Rightarrow> bytes \<Rightarrow> 'v option" where
  "look path n s = get_loop n (path @ s) (length path)"

definition look_slot :: "bytes \<Rightarrow> 'v art_node option \<Rightarrow> bytes \<Rightarrow> 'v option" where
  "look_slot path slot = (case slot of None \<Rightarrow> Map.empty | Some n \<Rightarrow> look path n)"

text \<open>A compressed edge with one map for every branching byte.\<close>

definition branch :: "bytes \<Rightarrow> (u8 \<Rightarrow> bytes \<Rightarrow> 'v option) \<Rightarrow> bytes \<Rightarrow> 'v option" where
  "branch p f s =
     (if prefix p s then (case drop (length p) s of [] \<Rightarrow> None | b # s' \<Rightarrow> f b s') else None)"

definition below :: "bytes \<Rightarrow> 'v art_node \<Rightarrow> u8 \<Rightarrow> bytes \<Rightarrow> 'v option" where
  "below path n b = look_slot (path @ art_prefix n @ [b]) (find_child n b)"

lemma look_leaf:
  "look path (Leaf leaf) s = (if leaf_key leaf = path @ s then Some (leaf_value leaf) else None)"
  by (simp add: look_def get_loop.simps)

lemma look_node:
  assumes "as_leaf n = None"
  shows "look path n = branch (art_prefix n) (below path n)"
proof
  fix s
  show "look path n s = branch (art_prefix n) (below path n) s"
  proof (cases "prefix (art_prefix n) s")
    case False
    then show ?thesis using assms by (simp add: look_def branch_def get_loop.simps)
  next
    case True
    then obtain r where s: "s = art_prefix n @ r" by (auto elim: prefixE)
    show ?thesis
    proof (cases r)
      case Nil
      then show ?thesis using assms s by (simp add: look_def branch_def get_loop.simps)
    next
      case (Cons b r')
      then show ?thesis using assms s
        by (simp add: look_def branch_def below_def look_slot_def get_loop.simps [of n] nth_append
            split: option.splits)
    qed
  qed
qed

text \<open>Well-formed trees: layouts are well-formed, interior nodes have a child, and the keys of
  the leaves start with the bytes of their path.\<close>

inductive art_ok :: "bytes \<Rightarrow> 'v art_node \<Rightarrow> bool" where
  ok_leaf: "prefix path (leaf_key leaf) \<Longrightarrow> art_ok path (Leaf leaf)"
| ok_node: "node_ok n \<Longrightarrow> \<exists>b. find_child n b \<noteq> None
     \<Longrightarrow> (\<And>b c. find_child n b = Some c \<Longrightarrow> art_ok (path @ art_prefix n @ [b]) c) \<Longrightarrow> art_ok path n"

inductive_cases ok_leafE: "art_ok path (Leaf leaf)"

definition slot_ok :: "bytes \<Rightarrow> 'v art_node option \<Rightarrow> bool" where
  "slot_ok path slot \<longleftrightarrow> (case slot of None \<Rightarrow> True | Some n \<Rightarrow> art_ok path n)"

lemma node_ok_interior: "node_ok n \<Longrightarrow> as_leaf n = None" by (cases n) auto

lemma as_leaf_Some: "as_leaf n = Some leaf \<longleftrightarrow> n = Leaf leaf" by (cases n) auto

lemma art_ok_interior:
  assumes "art_ok path n" "as_leaf n = None"
  shows "node_ok n" "\<exists>b. find_child n b \<noteq> None"
    "find_child n b = Some c \<Longrightarrow> art_ok (path @ art_prefix n @ [b]) c"
proof -
  have "node_ok n \<and> (\<exists>b. find_child n b \<noteq> None)
      \<and> (\<forall>b c. find_child n b = Some c \<longrightarrow> art_ok (path @ art_prefix n @ [b]) c)"
    using assms(1)
  proof cases
    case (ok_leaf leaf)
    then show ?thesis using assms(2) by simp
  qed blast
  then show "node_ok n" "\<exists>b. find_child n b \<noteq> None"
    "find_child n b = Some c \<Longrightarrow> art_ok (path @ art_prefix n @ [b]) c" by blast+
qed

lemma branch_append [simp]: "branch p f (p @ b # s) = f b s" by (simp add: branch_def)

lemma branch_Some: "branch p f s \<noteq> None \<longleftrightarrow> (\<exists>b s'. s = p @ b # s' \<and> f b s' \<noteq> None)"
  by (auto simp: branch_def elim!: prefixE split: list.splits)

lemma branch_eq_Some: "branch p f s = Some v \<longleftrightarrow> (\<exists>b s'. s = p @ b # s' \<and> f b s' = Some v)"
  by (auto simp: branch_def elim!: prefixE split: list.splits)

lemma branch_ext: "(\<And>b s. f b s = g b s) \<Longrightarrow> branch p f = branch p g"
  by (auto simp: branch_def fun_eq_iff split: list.splits)

lemma art_ok_nonempty: "art_ok path n \<Longrightarrow> \<exists>s. look path n s \<noteq> None"
proof (induction rule: art_ok.induct)
  case (ok_leaf path leaf)
  then obtain s where "leaf_key leaf = path @ s" by (auto elim: prefixE)
  then show ?case by (auto simp: look_leaf)
next
  case (ok_node n path)
  then obtain b c where bc: "find_child n b = Some c" by auto
  obtain s where "look (path @ art_prefix n @ [b]) c s \<noteq> None" using ok_node(4) [OF bc] by blast
  then have "below path n b s \<noteq> None" using bc by (simp add: below_def look_slot_def)
  then show ?case unfolding look_node [OF node_ok_interior [OF ok_node(1)]] branch_Some by blast
qed

section \<open>How insertion changes the map\<close>

text \<open>Storing a key where keys that are prefixes of each other exclude each other.\<close>

definition art_upd :: "(bytes \<Rightarrow> 'v option) \<Rightarrow> bytes \<Rightarrow> 'v \<Rightarrow> bytes \<Rightarrow> 'v option" where
  "art_upd m k v = (if \<exists>q. m q \<noteq> None \<and> strict_prefix k q then m
     else (\<lambda>q. if q = k then Some v else if strict_prefix q k then None else m q))"

lemma art_upd_apply:
  "art_upd m k v q = (if \<exists>r. m r \<noteq> None \<and> strict_prefix k r then m q
     else if q = k then Some v else if strict_prefix q k then None else m q)"
  unfolding art_upd_def by (cases "\<exists>r. m r \<noteq> None \<and> strict_prefix k r") (simp_all only: if_True if_False)

lemma art_upd_empty [simp]: "art_upd Map.empty k v = [k \<mapsto> v]"
  by (auto simp: art_upd_def)

lemma art_upd_same [simp]: "art_upd [k \<mapsto> w] k v = [k \<mapsto> v]"
  by (auto simp: art_upd_def fun_eq_iff)

lemma strict_prefix_branch [simp]:
  "strict_prefix (p @ b # k) (p @ c # s) \<longleftrightarrow> b = c \<and> strict_prefix k s"
  by (auto simp: strict_prefix_def)

lemma art_upd_branch:
  "art_upd (branch p f) (p @ b # k) v = branch p (f(b := art_upd (f b) k v))"
proof -
  have ex: "(\<exists>q. branch p f q \<noteq> None \<and> strict_prefix (p @ b # k) q)
      \<longleftrightarrow> (\<exists>q. f b q \<noteq> None \<and> strict_prefix k q)"
  proof
    assume "\<exists>q. branch p f q \<noteq> None \<and> strict_prefix (p @ b # k) q"
    then obtain c s where "f c s \<noteq> None" "strict_prefix (p @ b # k) (p @ c # s)"
      unfolding branch_Some by blast
    then show "\<exists>q. f b q \<noteq> None \<and> strict_prefix k q" by (metis strict_prefix_branch)
  next
    assume "\<exists>q. f b q \<noteq> None \<and> strict_prefix k q"
    then obtain q where "f b q \<noteq> None" "strict_prefix k q" by blast
    then have "branch p f (p @ b # q) \<noteq> None" "strict_prefix (p @ b # k) (p @ b # q)" by simp_all
    then show "\<exists>q. branch p f q \<noteq> None \<and> strict_prefix (p @ b # k) q" by blast
  qed
  show ?thesis
  proof (cases "\<exists>q. f b q \<noteq> None \<and> strict_prefix k q")
    case True
    then have "art_upd (branch p f) (p @ b # k) v = branch p f" using ex by (simp add: art_upd_def)
    moreover have "art_upd (f b) k v = f b" using True by (auto simp: art_upd_def)
    ultimately show ?thesis by simp
  next
    case False
    have "art_upd (branch p f) (p @ b # k) v s = branch p (f(b := art_upd (f b) k v)) s" for s
    proof (cases "\<exists>c s'. s = p @ c # s'")
      case True
      then obtain c s' where s: "s = p @ c # s'" by blast
      have u: "art_upd (branch p f) (p @ b # k) v = (\<lambda>q. if q = p @ b # k then Some v
          else if strict_prefix q (p @ b # k) then None else branch p f q)"
        using False ex unfolding art_upd_def by (intro if_not_P) blast
      have w: "art_upd (f b) k v = (\<lambda>q. if q = k then Some v else if strict_prefix q k then None else f b q)"
        using False unfolding art_upd_def by (intro if_not_P) blast
      show ?thesis unfolding s u by (simp add: w)
    next
      case False': False
      then have "branch p g s = None" for g :: "u8 \<Rightarrow> bytes \<Rightarrow> 'a option"
        using branch_Some [of p g s] by blast
      moreover have "s \<noteq> p @ b # k" using False' by blast
      ultimately show ?thesis using False ex by (simp add: art_upd_def)
    qed
    then show ?thesis by blast
  qed
qed

lemma branch_split:
  "branch (c @ x # p) f = branch c ((\<lambda>_. Map.empty)(x := branch p f))"
proof
  fix s
  show "branch (c @ x # p) f s = branch c ((\<lambda>_. Map.empty)(x := branch p f)) s"
    by (auto simp: branch_def elim!: prefixE split: list.splits)
qed

lemma single_branch: "[c @ x # e \<mapsto> v] = branch c ((\<lambda>_. Map.empty)(x := [e \<mapsto> v]))"
  by (auto simp: fun_eq_iff branch_def elim!: prefixE split: list.splits)

lemma art_upd_absorbed:
  "prefix k p \<Longrightarrow> \<exists>s. branch p f s \<noteq> None \<Longrightarrow> art_upd (branch p f) k v = branch p f"
proof -
  assume a: "prefix k p" "\<exists>s. branch p f s \<noteq> None"
  then obtain b s where "f b s \<noteq> None" unfolding branch_Some by blast
  then have "branch p f (p @ b # s) \<noteq> None" by simp
  moreover have "strict_prefix k (p @ b # s)" using a(1) by (auto simp: strict_prefix_def elim!: prefixE)
  ultimately show ?thesis unfolding art_upd_def by meson
qed

lemma common_len_take: "take (common_len xs ys) xs = take (common_len xs ys) ys"
  by (induction xs ys rule: common_len.induct) auto

lemma common_len_le: "common_len xs ys \<le> length xs" "common_len xs ys \<le> length ys"
  by (induction xs ys rule: common_len.induct) auto

lemma common_len_cases:
  obtains c xs' ys' where "xs = c @ xs'" "ys = c @ ys'" "length c = common_len xs ys"
    "xs' = [] \<or> ys' = [] \<or> hd xs' \<noteq> hd ys'"
proof -
  have "\<exists>c xs' ys'. xs = c @ xs' \<and> ys = c @ ys' \<and> length c = common_len xs ys
      \<and> (xs' = [] \<or> ys' = [] \<or> hd xs' \<noteq> hd ys')"
  proof (induction xs ys rule: common_len.induct)
    case (1 x xs y ys)
    show ?case
    proof (cases "x = y")
      case True
      then obtain c xs' ys' where "xs = c @ xs'" "ys = c @ ys'" "length c = common_len xs ys"
        "xs' = [] \<or> ys' = [] \<or> hd xs' \<noteq> hd ys'" using 1 by blast
      then show ?thesis using True by (intro exI [of _ "x # c"] exI [of _ xs'] exI [of _ ys']) simp
    next
      case False
      then show ?thesis by (intro exI [of _ "[]"] exI [of _ "x # xs"] exI [of _ "y # ys"]) simp
    qed
  qed (rule exI [of _ "[]"], simp)+
  then show thesis using that by blast
qed

lemma set_prefix_laws:
  "as_leaf n = None \<Longrightarrow> art_prefix (set_prefix n p) = p"
  "find_child (set_prefix n p) = find_child n" "node_ok (set_prefix n p) = node_ok n"
  "as_leaf (set_prefix n p) = as_leaf n"
  by (cases n; auto simp: fun_eq_iff)+

lemma empty_node4:
  "set_prefix new_node4 c = Node4 c [] []" "node_ok (Node4 c [] [])"
  "find_child (Node4 c [] []) = Map.empty" "art_prefix (Node4 c [] []) = c"
  by (auto simp: new_node4_def sorted_ok_def)

declare insert_child.simps [simp del] find_child.simps [simp del] remove_child.simps [simp del]

lemma insert_child_ok:
  assumes "node_ok n" "find_child n b = None" "art_ok (path @ art_prefix n @ [b]) c"
    "\<And>b c. find_child n b = Some c \<Longrightarrow> art_ok (path @ art_prefix n @ [b]) c"
  shows "art_ok path (insert_child n b c)"
    "look path (insert_child n b c)
      = branch (art_prefix n) ((below path n)(b := look (path @ art_prefix n @ [b]) c))"
proof -
  let ?n = "insert_child n b c"
  note l = art.ins_ok [OF assms(1,2), of c] art.find_ins [OF assms(1,2), of c] art.label_ins [OF assms(1,2), of c]
  show "art_ok path ?n"
  proof (rule ok_node [OF l(1)])
    show "\<exists>b. find_child ?n b \<noteq> None" unfolding l(2) by (auto intro: exI [of _ b])
    show "art_ok (path @ art_prefix ?n @ [b']) c'" if "find_child ?n b' = Some c'" for b' c'
      using that assms(3,4) unfolding l(2,3) by (auto split: if_splits)
  qed
  have "below path ?n = (below path n)(b := look (path @ art_prefix n @ [b]) c)"
    by (auto simp: fun_eq_iff below_def l look_slot_def)
  then show "look path ?n = branch (art_prefix n) ((below path n)(b := look (path @ art_prefix n @ [b]) c))"
    using look_node [OF node_ok_interior [OF l(1)]] l(3) by simp
qed

lemma put_back_ok:
  assumes ok: "art_ok path n" "as_leaf n = None" and c: "find_child n b = Some c"
    and c': "art_ok (path @ art_prefix n @ [b]) c'"
  defines "m \<equiv> insert_child (snd (remove_child n b)) b c'"
  shows "art_ok path m"
    "look path m = branch (art_prefix n) ((below path n)(b := look (path @ art_prefix n @ [b]) c'))"
proof -
  note l = art.put_back [OF art_ok_interior(1) [OF ok] c, of c', folded m_def]
  show "art_ok path m"
  proof (rule ok_node [OF l(1)])
    show "\<exists>b. find_child m b \<noteq> None" unfolding l(2) by (auto intro: exI [of _ b])
    show "art_ok (path @ art_prefix m @ [b']) d" if "find_child m b' = Some d" for b' d
      using that c' art_ok_interior(3) [OF ok] unfolding l(2,3) by (auto split: if_splits)
  qed
  have "below path m = (below path n)(b := look (path @ art_prefix n @ [b]) c')"
    by (auto simp: fun_eq_iff below_def l look_slot_def)
  then show "look path m = branch (art_prefix n) ((below path n)(b := look (path @ art_prefix n @ [b]) c'))"
    using look_node [OF node_ok_interior [OF l(1)]] l(3) by simp
qed

lemma single_node:
  fixes n :: "'v art_node"
  assumes "art_ok (path @ c @ [x]) n"
  shows "art_ok path (insert_child (Node4 c [] []) x n)"
    "look path (insert_child (Node4 c [] []) x n)
      = branch c ((\<lambda>_. Map.empty)(x := look (path @ c @ [x]) n))"
proof -
  note i = insert_child_ok [OF empty_node4(2), of c x path n, unfolded empty_node4(3,4), OF refl assms]
  have "below path (Node4 c [] [] :: 'v art_node) = (\<lambda>_. Map.empty)"
    by (simp add: fun_eq_iff below_def look_slot_def empty_node4(3))
  then show "art_ok path (insert_child (Node4 c [] []) x n)"
    "look path (insert_child (Node4 c [] []) x n)
      = branch c ((\<lambda>_. Map.empty)(x := look (path @ c @ [x]) n))"
    using i by simp_all
qed

lemma pair_node:
  fixes n1 :: "'v art_node"
  assumes n1: "art_ok (path @ c @ [x]) n1" and n2: "art_ok (path @ c @ [y]) n2" and "x \<noteq> y"
  defines "m \<equiv> insert_child (insert_child (Node4 c [] []) x n1) y n2"
  shows "art_ok path m"
    "look path m = branch c ((\<lambda>_. Map.empty)(x := look (path @ c @ [x]) n1, y := look (path @ c @ [y]) n2))"
proof -
  let ?p = "insert_child (Node4 c [] []) x n1"
  have f: "find_child (Node4 c [] [] :: 'v art_node) x = None" by (simp add: empty_node4(3))
  have ok: "node_ok ?p" "find_child ?p = [x \<mapsto> n1]" "art_prefix ?p = c"
    using art.ins_ok [OF empty_node4(2) f] art.find_ins [OF empty_node4(2) f]
      art.label_ins [OF empty_node4(2) f] by (simp_all add: empty_node4(3))
  have b: "below path ?p = (\<lambda>_. Map.empty)(x := look (path @ c @ [x]) n1)"
    by (auto simp: below_def look_slot_def ok fun_eq_iff)
  have ch: "art_ok (path @ art_prefix ?p @ [b]) c'" if "find_child ?p b = Some c'" for b c'
    using that n1 unfolding ok by (auto split: if_splits)
  have y: "find_child ?p y = None" using \<open>x \<noteq> y\<close> unfolding ok by simp
  have n2': "art_ok (path @ art_prefix ?p @ [y]) n2" using n2 unfolding ok .
  note i = insert_child_ok [OF ok(1) y n2' ch]
  show "art_ok path m" unfolding m_def by (rule i(1)) 
  show "look path m = branch c ((\<lambda>_. Map.empty)(x := look (path @ c @ [x]) n1, y := look (path @ c @ [y]) n2))"
    using i(2) by (simp add: m_def ok(3) b)
qed

lemma look_new_leaf: "look path (Leaf (ArtLeaf (path @ s) v)) = [s \<mapsto> v]"
  by (auto simp: look_leaf fun_eq_iff)

lemma drop_take_path [simp]: "drop (length path) (path @ s) = s" by simp

lemma split_leaf_ok:
  assumes "leaf_key leaf = path @ e" "e \<noteq> k"
  shows "art_ok path (split_leaf leaf (path @ k) (length path) v)
    \<and> look path (split_leaf leaf (path @ k) (length path) v) = art_upd [e \<mapsto> leaf_value leaf] k v"
proof -
  obtain c k' e' where s: "k = c @ k'" "e = c @ e'" "length c = common_len k e"
    "k' = [] \<or> e' = [] \<or> hd k' \<noteq> hd e'" by (rule common_len_cases)
  have take: "take (common_len k e) k = c" using s(1,3) by (metis append_eq_conv_conj)
  have leaf: "leaf = ArtLeaf (path @ e) (leaf_value leaf)" using assms(1) by (cases leaf) simp
  have okl: "art_ok p (Leaf (ArtLeaf (p @ r) w))" for p r w by (rule ok_leaf) simp
  note d = split_leaf_def Let_def take empty_node4(1)
  show ?thesis
  proof (cases k')
    case Nil
    then obtain x e'' where e': "e' = x # e''" using s(1,2) assms(2) by (cases e') auto
    have sp: "split_leaf leaf (path @ k) (length path) v
        = insert_child (Node4 c [] []) x (Leaf leaf)"
      using s Nil e' assms(1) by (simp add: d nth_append)
    have "look (path @ c @ [x]) (Leaf leaf) = [e'' \<mapsto> leaf_value leaf]"
      using look_new_leaf [of "path @ c @ [x]" e'' "leaf_value leaf"] leaf s(2) e' by simp
    moreover have "art_ok (path @ c @ [x]) (Leaf leaf)"
      using okl [of "path @ c @ [x]" e'' "leaf_value leaf"] leaf s(2) e' by simp
    moreover have "art_upd [e \<mapsto> leaf_value leaf] k v = [e \<mapsto> leaf_value leaf]"
      using s(1,2) Nil e' by (auto simp: art_upd_def strict_prefix_def)
    ultimately show ?thesis unfolding sp using single_node [of path c x "Leaf leaf"]
      by (simp add: single_branch s(2) e')
  next
    case (Cons y k'')
    have new: "look (path @ c @ [y]) (Leaf (ArtLeaf (path @ k) v)) = [k'' \<mapsto> v]"
      "art_ok (path @ c @ [y]) (Leaf (ArtLeaf (path @ k) v))"
      using look_new_leaf [of "path @ c @ [y]" k'' v] okl [of "path @ c @ [y]" k'' v] s(1) Cons by simp_all
    show ?thesis
    proof (cases e')
      case Nil
      have sp: "split_leaf leaf (path @ k) (length path) v
          = insert_child (Node4 c [] []) y (Leaf (ArtLeaf (path @ k) v))"
        using s Nil Cons assms(1) by (simp add: d nth_append)
      have "art_upd [e \<mapsto> leaf_value leaf] k v = [k \<mapsto> v]"
        using s(1,2) Nil Cons by (auto simp: art_upd_def strict_prefix_def fun_eq_iff)
      then show ?thesis unfolding sp using single_node [OF new(2)] new(1)
        by (simp add: single_branch s(1) Cons)
    next
      case e': (Cons x e'')
      have xy: "x \<noteq> y" using s(4) Cons e' by simp
      have sp: "split_leaf leaf (path @ k) (length path) v
          = insert_child (insert_child (Node4 c [] []) x (Leaf leaf)) y (Leaf (ArtLeaf (path @ k) v))"
        using s e' Cons assms(1) by (simp add: d nth_append)
      have old: "look (path @ c @ [x]) (Leaf leaf) = [e'' \<mapsto> leaf_value leaf]"
        "art_ok (path @ c @ [x]) (Leaf leaf)"
        using look_new_leaf [of "path @ c @ [x]" e'' "leaf_value leaf"]
          okl [of "path @ c @ [x]" e'' "leaf_value leaf"] leaf s(2) e' by simp_all
      have "art_upd [e \<mapsto> leaf_value leaf] k v
          = branch c ((\<lambda>_. Map.empty)(x := [e'' \<mapsto> leaf_value leaf], y := [k'' \<mapsto> v]))"
        unfolding s(1,2) e' Cons single_branch [of c x] art_upd_branch using xy by simp
      then show ?thesis unfolding sp using pair_node [OF old(2) new(2) xy] old(1) new(1) by simp
    qed
  qed
qed

lemma split_node_ok:
  fixes v :: 'v
  assumes ok: "art_ok path n" "as_leaf n = None" and m: "common_len (art_prefix n) k < length (art_prefix n)"
  defines "s \<equiv> split_node n (path @ k) (length path) (common_len (art_prefix n) k) v"
  shows "art_ok path s \<and> look path s = art_upd (look path n) k v"
proof -
  obtain c p' k' where s: "art_prefix n = c @ p'" "k = c @ k'" "length c = common_len (art_prefix n) k"
    "p' = [] \<or> k' = [] \<or> hd p' \<noteq> hd k'" by (rule common_len_cases)
  obtain x p'' where p': "p' = x # p''" using s(1,3) m by (cases p') auto
  have take: "take (common_len (art_prefix n) k) (art_prefix n) = c"
    "drop (common_len (art_prefix n) k + 1) (art_prefix n) = p''"
    "art_prefix n ! common_len (art_prefix n) k = x"
    using s(1) p' s(3) [symmetric] by simp_all
  let ?t = "set_prefix n p''"
  note sp = set_prefix_laws [where n = n]
  have nok: "node_ok n" by (rule art_ok_interior(1) [OF ok])
  have below: "below (path @ c @ [x]) ?t = below path n"
    using sp(1) [OF ok(2)] sp(2) s(1) p' by (simp add: fun_eq_iff below_def)
  have okt: "art_ok (path @ c @ [x]) ?t"
  proof (rule ok_node)
    show "node_ok ?t" using nok sp(3) by simp
    show "\<exists>b. find_child ?t b \<noteq> None" using art_ok_interior(2) [OF ok] sp(2) by simp
    show "art_ok ((path @ c @ [x]) @ art_prefix ?t @ [b]) d" if "find_child ?t b = Some d" for b d
      using that art_ok_interior(3) [OF ok, of b d] sp(1) [OF ok(2)] sp(2) s(1) p' by simp
  qed
  have lt: "look (path @ c @ [x]) ?t = branch p'' (below path n)"
    using look_node [of ?t "path @ c @ [x]"] below sp(1,4) ok(2) by simp
  have old: "look path n = branch c ((\<lambda>_. Map.empty)(x := branch p'' (below path n)))"
    unfolding look_node [OF ok(2)] s(1) p' by (rule branch_split)
  note d = s_def split_node_def Let_def take empty_node4(1)
  show ?thesis
  proof (cases k')
    case Nil
    have "\<not> length path + common_len (art_prefix n) k < length (path @ k)"
      using s(2) s(3) [symmetric] Nil by simp
    then have eq: "s = insert_child (Node4 c [] []) x ?t" unfolding d by (rule if_not_P)
    have "prefix k (art_prefix n)" using s(1,2) Nil by simp
    then have "art_upd (look path n) k v = look path n"
      using art_ok_nonempty [OF ok(1)] unfolding look_node [OF ok(2)] by (rule art_upd_absorbed)
    then show ?thesis unfolding eq using single_node [OF okt] lt old by simp
  next
    case (Cons y k'')
    have xy: "x \<noteq> y" using s(4) p' Cons by simp
    have new: "look (path @ c @ [y]) (Leaf (ArtLeaf (path @ k) v)) = [k'' \<mapsto> v]"
      "art_ok (path @ c @ [y]) (Leaf (ArtLeaf (path @ k) v))"
      using look_new_leaf [of "path @ c @ [y]" k'' v] s(2) Cons by (auto intro: ok_leaf)
    have eq: "s = insert_child (insert_child (Node4 c [] []) x ?t) y (Leaf (ArtLeaf (path @ k) v))"
    proof -
      have "length path + common_len (art_prefix n) k < length (path @ k)"
        "(path @ k) ! (length path + common_len (art_prefix n) k) = y"
        using s(2) s(3) [symmetric] Cons by (simp_all add: nth_append)
      then show ?thesis unfolding d by simp
    qed
    have "art_upd (look path n) k v
        = branch c ((\<lambda>_. Map.empty)(x := branch p'' (below path n), y := [k'' \<mapsto> v]))"
      unfolding old s(2) Cons art_upd_branch using xy by simp
    then show ?thesis unfolding eq using pair_node [OF okt new(2) xy] lt new(1) by simp
  qed
qed

lemma common_len_full: "common_len p k = length p \<longleftrightarrow> prefix p k"
  by (induction p k rule: common_len.induct) auto

definition upd_ok :: "bytes \<Rightarrow> 'v art_node option \<Rightarrow> bytes \<Rightarrow> 'v \<Rightarrow> 'v option \<times> 'v art_node option \<Rightarrow> bool" where
  "upd_ok path slot k v r \<longleftrightarrow> fst r = look_slot path slot k \<and> slot_ok path (snd r) \<and> snd r \<noteq> None
     \<and> look_slot path (snd r) = art_upd (look_slot path slot) k v"

lemma upd_okI:
  "r = look path n k \<Longrightarrow> art_ok path n' \<Longrightarrow> look path n' = art_upd (look path n) k v \<Longrightarrow>
     upd_ok path (Some n) k v (r, Some n')"
  by (simp add: upd_ok_def look_slot_def slot_ok_def)

lemma upd_leaf:
  assumes "slot_ok path (Some (Leaf leaf))"
  shows "upd_ok path (Some (Leaf leaf)) k v
    (insert_recursive (Some (Leaf leaf)) (path @ k) (length path) v)"
proof -
  obtain e where e: "leaf_key leaf = path @ e"
    using assms by (auto simp: slot_ok_def elim!: ok_leafE prefixE)
  have l: "look path (Leaf leaf) = [e \<mapsto> leaf_value leaf]" using e by (auto simp: look_leaf)
  show ?thesis
  proof (cases "e = k")
    case True
    have "insert_recursive (Some (Leaf leaf)) (path @ k) (length path) v
        = (Some (leaf_value leaf), Some (Leaf (ArtLeaf (path @ k) v)))"
      using True e by (simp add: insert_recursive.simps)
    moreover have "art_ok path (Leaf (ArtLeaf (path @ k) v))" by (rule ok_leaf) simp
    ultimately show ?thesis using l True by (auto intro!: upd_okI simp: look_new_leaf)
  next
    case False
    have "insert_recursive (Some (Leaf leaf)) (path @ k) (length path) v
        = (None, Some (split_leaf leaf (path @ k) (length path) v))"
      using False e by (simp add: insert_recursive.simps)
    then show ?thesis using split_leaf_ok [OF e False] l False by (auto intro!: upd_okI)
  qed
qed

lemma upd_node:
  assumes ok: "art_ok path n" "as_leaf n = None"
    and rec: "\<And>b r c. k = art_prefix n @ b # r \<Longrightarrow> find_child n b = Some c \<Longrightarrow>
      upd_ok (path @ art_prefix n @ [b]) (Some c) r v
        (insert_recursive (Some c) (path @ k) (length path + length (art_prefix n) + 1) v)"
  shows "upd_ok path (Some n) k v (insert_recursive (Some n) (path @ k) (length path) v)"
proof -
  let ?p = "art_prefix n"
  let ?m = "common_len ?p k"
  have look: "look path n = branch ?p (below path n)" by (rule look_node [OF ok(2)])
  show ?thesis
  proof (cases "prefix ?p k")
    case False
    then have m: "?m < length ?p" using common_len_full common_len_le(1) le_neq_implies_less by blast
    have "insert_recursive (Some n) (path @ k) (length path) v
        = (None, Some (split_node n (path @ k) (length path) ?m v))"
      using m ok(2) by (simp add: insert_recursive.simps Let_def)
    moreover have "look path n k = None" using False look by (simp add: branch_def)
    ultimately show ?thesis using split_node_ok [OF ok m, of v] by (auto intro!: upd_okI)
  next
    case True
    then have m: "\<not> ?m < length ?p" using common_len_full [of ?p k] by simp
    obtain r where r: "k = ?p @ r" using True by (auto elim: prefixE)
    show ?thesis
    proof (cases r)
      case Nil
      have "insert_recursive (Some n) (path @ k) (length path) v = (None, Some n)"
        using m ok(2) r Nil by (simp add: insert_recursive.simps Let_def)
      moreover have "art_upd (look path n) k v = look path n"
        unfolding look using art_ok_nonempty [OF ok(1)] r Nil look by (intro art_upd_absorbed) auto
      moreover have "look path n k = None" using look r Nil by (simp add: branch_def)
      ultimately show ?thesis using ok(1) by (auto intro!: upd_okI)
    next
      case (Cons b r')
      have key: "(path @ k) ! (length path + length ?p) = b" using r Cons by (simp add: nth_append)
      have long: "\<not> length path + length ?p \<ge> length (path @ k)" using r Cons by simp
      have k: "k = ?p @ b # r'" using r Cons by simp
      show ?thesis
      proof (cases "find_child n b")
        case None
        have i: "insert_recursive (Some n) (path @ k) (length path) v
            = (None, Some (insert_child n b (Leaf (ArtLeaf (path @ k) v))))"
          using m ok(2) key long None by (simp add: insert_recursive.simps Let_def)
        have "art_ok (path @ ?p @ [b]) (Leaf (ArtLeaf (path @ k) v))" using k by (auto intro: ok_leaf)
        note ins = insert_child_ok [OF art_ok_interior(1) [OF ok] None this art_ok_interior(3) [OF ok]]
        have leaf: "look (path @ ?p @ [b]) (Leaf (ArtLeaf (path @ k) v)) = [r' \<mapsto> v]"
          using look_new_leaf [of "path @ ?p @ [b]" r' v] k by simp
        have "below path n b = Map.empty" using None by (simp add: below_def look_slot_def)
        then have "art_upd (look path n) k v = branch ?p ((below path n)(b := [r' \<mapsto> v]))"
          "look path n k = None"
          unfolding look k art_upd_branch by simp_all
        then show ?thesis unfolding i using ins leaf by (intro upd_okI) simp_all
      next
        case (Some c)
        define res where "res = insert_recursive (Some c) (path @ k) (length path + length ?p + 1) v"
        have u: "upd_ok (path @ ?p @ [b]) (Some c) r' v res" unfolding res_def by (rule rec [OF k Some])
        then obtain c' where c': "snd res = Some c'" by (auto simp: upd_ok_def)
        have rem: "fst (remove_child n b) = Some c"
          using art.fst_rem [OF art_ok_interior(1) [OF ok], of b] Some by simp
        have i: "insert_recursive (Some n) (path @ k) (length path) v
            = (fst res, Some (insert_child (snd (remove_child n b)) b c'))"
          unfolding insert_recursive.simps [of "Some n"]
          using m ok(2) key long Some c' rem
          by (simp add: Let_def split_def res_def [symmetric, simplified])
        have okc: "art_ok (path @ ?p @ [b]) c'" using u c' by (simp add: upd_ok_def slot_ok_def)
        have lc: "look (path @ ?p @ [b]) c' = art_upd (below path n b) r' v" "fst res = below path n b r'"
          using u c' Some by (simp_all add: upd_ok_def look_slot_def below_def)
        note pb = put_back_ok [OF ok Some okc]
        have "look path n k = fst res" unfolding look k lc(2) by simp
        then show ?thesis unfolding i using pb lc(1) unfolding look k art_upd_branch
          by (intro upd_okI) (simp_all add: look art_upd_branch)
      qed
    qed
  qed
qed

lemma insert_recursive_ok:
  "slot_ok path slot \<Longrightarrow> upd_ok path slot k v (insert_recursive slot (path @ k) (length path) v)"
proof (induction "length k" arbitrary: path slot k rule: less_induct)
  case less
  show ?case
  proof (cases slot)
    case None
    have "art_ok path (Leaf (ArtLeaf (path @ k) v))" by (rule ok_leaf) simp
    then show ?thesis
      by (simp add: None insert_recursive.simps upd_ok_def slot_ok_def look_slot_def look_new_leaf)
  next
    case (Some n)
    have ok: "art_ok path n" using less.prems Some by (simp add: slot_ok_def)
    show ?thesis
    proof (cases "as_leaf n")
      case None
      show ?thesis unfolding Some
      proof (rule upd_node [OF ok None])
        fix b r c assume k: "k = art_prefix n @ b # r" and c: "find_child n b = Some c"
        have "slot_ok (path @ art_prefix n @ [b]) (Some c)"
          using art_ok_interior(3) [OF ok None c] by (simp add: slot_ok_def)
        then show "upd_ok (path @ art_prefix n @ [b]) (Some c) r v
            (insert_recursive (Some c) (path @ k) (length path + length (art_prefix n) + 1) v)"
          using less.hyps [of r "path @ art_prefix n @ [b]" "Some c"] k by simp
      qed
    next
      case (Some leaf)
      then show ?thesis using upd_leaf [of path leaf k v] less.prems \<open>slot = Some n\<close>
        by (simp add: as_leaf_Some)
    qed
  qed
qed

section \<open>How removal changes the map\<close>

text \<open>Removal replaces a node that keeps one child by that child. This loses the bytes of the
  node unless the child is a leaf; the test says that no node on the way to a key is so narrow.\<close>

definition wide :: "'v art_node \<Rightarrow> bool" where
  "wide n \<longleftrightarrow> 3 \<le> child_count n
     \<or> child_count n = 2 \<and> list_all (\<lambda>(_, c). as_leaf c \<noteq> None) (iter_children n)"

function remove_safe :: "'v art_node \<Rightarrow> bytes \<Rightarrow> nat \<Rightarrow> bool" where
  "remove_safe n key depth =
     (case as_leaf n of
        Some _ \<Rightarrow> True
      | None \<Rightarrow>
          let depth = depth + length (art_prefix n)
          in if depth \<ge> length key then True
             else wide n \<and> (case find_child n (key ! depth) of
               None \<Rightarrow> True | Some c \<Rightarrow> remove_safe c key (depth + 1)))"
  by pat_completeness auto
termination
  by (relation "measure (\<lambda>(_, key, depth). length key - depth)") auto

declare remove_safe.simps [simp del]

definition del_ok :: "bytes \<Rightarrow> 'v art_node \<Rightarrow> bytes \<Rightarrow> 'v option \<times> 'v art_node option \<Rightarrow> bool" where
  "del_ok path n k r \<longleftrightarrow> fst r = look path n k \<and> slot_ok path (snd r)
     \<and> look_slot path (snd r) = (look path n)(k := None)
     \<and> (fst r = None \<longrightarrow> snd r \<noteq> None) \<and> (as_leaf n = None \<longrightarrow> snd r \<noteq> None)"

lemma branch_del: "(branch p f)(p @ b # k := None) = branch p (f(b := (f b)(k := None)))"
  by (auto simp: fun_eq_iff branch_def elim!: prefixE split: list.splits)

lemma del_okI:
  "r = look path n k \<Longrightarrow> art_ok path n' \<Longrightarrow> look path n' = (look path n)(k := None) \<Longrightarrow>
     del_ok path n k (r, Some n')"
  by (simp add: del_ok_def look_slot_def slot_ok_def)

lemma del_leaf:
  assumes "art_ok path (Leaf leaf)"
  shows "del_ok path (Leaf leaf) k (remove_recursive (Some (Leaf leaf)) (path @ k) (length path))"
proof (cases "leaf_key leaf = path @ k")
  case True
  then show ?thesis by (auto simp: remove_recursive.simps del_ok_def look_leaf slot_ok_def look_slot_def)
next
  case False
  then have "look path (Leaf leaf) k = None" by (simp add: look_leaf)
  then show ?thesis using False assms
    by (simp add: remove_recursive.simps del_ok_def slot_ok_def look_slot_def fun_upd_idem)
qed

text \<open>A node that keeps one child, a leaf, can be replaced by it.\<close>

lemma compress_leaf:
  assumes "art_ok path n" "as_leaf n = None" "iter_children n = [(b, Leaf leaf)]"
  shows "art_ok path (Leaf leaf)" "look path (Leaf leaf) = look path n"
proof -
  have nok: "node_ok n" by (rule art_ok_interior(1) [OF assms(1,2)])
  have find: "find_child n = [b \<mapsto> Leaf leaf]" using art.children_map [OF nok] assms(3) by simp
  have "art_ok (path @ art_prefix n @ [b]) (Leaf leaf)" using art_ok_interior(3) [OF assms(1,2)] find by simp
  then have "prefix (path @ art_prefix n @ [b]) (leaf_key leaf)" by (rule ok_leafE) simp_all
  then obtain r where r: "leaf_key leaf = path @ art_prefix n @ b # r" by (auto elim: prefixE)
  show "art_ok path (Leaf leaf)" using r by (auto intro: ok_leaf)
  have "below path n = (\<lambda>_. Map.empty)(b := [r \<mapsto> leaf_value leaf])"
    using r by (auto simp: fun_eq_iff below_def find look_slot_def look_leaf)
  then have "look path n = [art_prefix n @ b # r \<mapsto> leaf_value leaf]"
    unfolding look_node [OF assms(2)] single_branch by simp
  moreover have "look path (Leaf leaf) = [art_prefix n @ b # r \<mapsto> leaf_value leaf]"
    using r by (auto simp: fun_eq_iff look_leaf)
  ultimately show "look path (Leaf leaf) = look path n" by simp
qed

lemma rem_child_ok:
  assumes ok: "art_ok path n" "as_leaf n = None" and c: "find_child n b = Some c"
    and two: "2 \<le> child_count n"
  defines "m \<equiv> snd (remove_child n b)"
  shows "art_ok path m" "as_leaf m = None" "look path m = branch (art_prefix n) ((below path n)(b := Map.empty))"
    "child_count m = child_count n - 1" "set (iter_children m) \<subseteq> set (iter_children n)"
proof -
  have nok: "node_ok n" by (rule art_ok_interior(1) [OF ok])
  have l: "node_ok m" "find_child m = (find_child n)(b := None)" "art_prefix m = art_prefix n"
    "child_count m = length (iter_children m)"
    unfolding m_def using art.rem_ok [OF nok] art.find_rem [OF nok] art.label_rem [OF nok]
      art.count_children [OF art.rem_ok [OF nok]] by simp_all
  show count: "child_count m = child_count n - 1"
    using art.count_rem [OF nok c] by (simp add: m_def)
  obtain b' c' where "(b', c') \<in> set (iter_children m)"
    using count two l(4) by (cases "iter_children m") auto
  then have ex: "find_child m b' = Some c'" using art.children_iff [OF l(1)] by blast
  show "art_ok path m"
  proof (rule ok_node [OF l(1)])
    show "\<exists>b. find_child m b \<noteq> None" using ex by (intro exI [of _ b']) simp
    show "art_ok (path @ art_prefix m @ [x]) d" if "find_child m x = Some d" for x d
      using that art_ok_interior(3) [OF ok] unfolding l(2,3) by (auto split: if_splits)
  qed
  show leaf: "as_leaf m = None" by (rule node_ok_interior [OF l(1)])
  have "below path m = (below path n)(b := Map.empty)"
    by (auto simp: fun_eq_iff below_def l look_slot_def)
  then show "look path m = branch (art_prefix n) ((below path n)(b := Map.empty))"
    using look_node [OF leaf] l(3) by simp
  show "set (iter_children m) \<subseteq> set (iter_children n)"
    using art.children_at [OF nok c] unfolding m_def by auto
qed

lemma wide_two: "wide n \<Longrightarrow> 2 \<le> child_count n" by (auto simp: wide_def)

lemma compress_kept: "child_count n \<noteq> 1 \<Longrightarrow> compress n r = n" by (simp add: compress_def)

lemma compress_after_removal:
  assumes ok: "art_ok path n" "as_leaf n = None" and c: "find_child n b = Some c" and w: "wide n"
  defines "m \<equiv> snd (remove_child n b)"
  shows "art_ok path (compress m r)" "look path (compress m r) = look path m"
proof -
  note m = rem_child_ok [OF ok c wide_two [OF w], folded m_def]
  have "art_ok path (compress m r) \<and> look path (compress m r) = look path m"
  proof (cases "child_count m = 1 \<and> r \<noteq> None")
    case False
    then have "compress m r = m" by (auto simp: compress_def)
    then show ?thesis using m(1) by simp
  next
    case True
    then have leaves: "list_all (\<lambda>(_, c). as_leaf c \<noteq> None) (iter_children n)"
      using m(4) w by (auto simp: wide_def)
    have "length (iter_children m) = 1"
      using art.count_children [OF art_ok_interior(1) [OF m(1,2)]] True by simp
    then obtain x d where d: "iter_children m = [(x, d)]" by (auto simp: length_Suc_conv)
    then have "as_leaf d \<noteq> None" using leaves m(5) by (auto simp: list_all_iff)
    then obtain leaf where leaf: "d = Leaf leaf" by (auto simp: as_leaf_Some)
    have "compress m r = Leaf leaf" using True d leaf by (simp add: compress_def)
    then show ?thesis using compress_leaf [OF m(1,2)] d leaf by simp
  qed
  then show "art_ok path (compress m r)" "look path (compress m r) = look path m" by blast+
qed

lemma del_unchanged:
  assumes "art_ok path n" "look path n k = None"
  shows "del_ok path n k (None, Some n)"
  using assms by (intro del_okI) (simp_all add: fun_upd_idem)

lemma remove_unfound:
  assumes "as_leaf n = None" "\<not> (\<exists>b r c. k = art_prefix n @ b # r \<and> find_child n b = Some c)"
  shows "remove_recursive (Some n) (path @ k) (length path) = (None, Some n)"
proof (cases "\<exists>b r. k = art_prefix n @ b # r")
  case True
  then obtain b r where k: "k = art_prefix n @ b # r" by blast
  then have "find_child n b = None" using assms(2) by (cases "find_child n b") blast+
  then show ?thesis using k assms(1) by (simp add: remove_recursive.simps Let_def nth_append)
next
  case False
  then have "prefix (art_prefix n) k \<Longrightarrow> k = art_prefix n" by (metis append_Nil2 neq_Nil_conv prefixE)
  then show ?thesis using assms(1) by (auto simp: remove_recursive.simps Let_def)
qed

lemma look_unfound:
  assumes "as_leaf n = None" "\<not> (\<exists>b r c. k = art_prefix n @ b # r \<and> find_child n b = Some c)"
  shows "look path n k = None"
proof (rule ccontr)
  assume "look path n k \<noteq> None"
  then obtain b r where k: "k = art_prefix n @ b # r" "below path n b r \<noteq> None"
    unfolding look_node [OF assms(1)] branch_Some by blast
  then show False using assms(2) by (cases "find_child n b") (auto simp: below_def look_slot_def)
qed

lemma remove_found:
  assumes ok: "art_ok path n" "as_leaf n = None"
    and k: "k = art_prefix n @ b # r" and c: "find_child n b = Some c"
  shows "remove_recursive (Some n) (path @ k) (length path)
    = (let res = remove_recursive (Some c) (path @ k) (length path + length (art_prefix n) + 1);
           m = (case snd res of Some c' \<Rightarrow> insert_child (snd (remove_child n b)) b c'
             | None \<Rightarrow> snd (remove_child n b))
       in (fst res, Some (compress m (fst res))))"
proof -
  define res where "res = remove_recursive (Some c) (path @ k) (length path + length (art_prefix n) + 1)"
  have key: "(path @ k) ! (length path + length (art_prefix n)) = b" using k by (simp add: nth_append)
  have long: "\<not> length path + length (art_prefix n) \<ge> length (path @ k)" using k by simp
  have rem: "fst (remove_child n b) = Some c"
    using art.fst_rem [OF art_ok_interior(1) [OF ok], of b] c by simp
  have pre: "prefix (art_prefix n) k" using k by simp
  show ?thesis
    unfolding remove_recursive.simps [of "Some n"] res_def [symmetric]
    using ok(2) key long c rem pre
    by (cases "snd res") (simp_all add: Let_def split_def res_def [symmetric, simplified])
qed

lemma del_node:
  assumes ok: "art_ok path n" "as_leaf n = None" and safe: "remove_safe n (path @ k) (length path)"
    and rec: "\<And>b r c. k = art_prefix n @ b # r \<Longrightarrow> find_child n b = Some c \<Longrightarrow>
      remove_safe c (path @ k) (length path + length (art_prefix n) + 1) \<Longrightarrow>
      del_ok (path @ art_prefix n @ [b]) c r
        (remove_recursive (Some c) (path @ k) (length path + length (art_prefix n) + 1))"
  shows "del_ok path n k (remove_recursive (Some n) (path @ k) (length path))"
proof -
  let ?p = "art_prefix n"
  have look: "look path n = branch ?p (below path n)" by (rule look_node [OF ok(2)])
  show ?thesis
  proof (cases "\<exists>b r c. k = ?p @ b # r \<and> find_child n b = Some c")
    case False
    show ?thesis
      using del_unchanged [OF ok(1) look_unfound [OF ok(2) False]] remove_unfound [OF ok(2) False] by simp
  next
    case True
    then obtain b r c where k: "k = ?p @ b # r" and c: "find_child n b = Some c" by blast
    have key: "(path @ k) ! (length path + length ?p) = b" using k by (simp add: nth_append)
    have long: "\<not> length path + length ?p \<ge> length (path @ k)" using k by simp
    have "wide n \<and> remove_safe c (path @ k) (length path + length ?p + 1)"
      using safe ok(2) long key c by (subst (asm) remove_safe.simps) (simp add: Let_def)
    then have w: "wide n" and safe': "remove_safe c (path @ k) (length path + length ?p + 1)" by blast+
    define res where "res = remove_recursive (Some c) (path @ k) (length path + length ?p + 1)"
    have u: "del_ok (path @ ?p @ [b]) c r res" unfolding res_def by (rule rec [OF k c safe'])
    define m where "m = (case snd res of Some c' \<Rightarrow> insert_child (snd (remove_child n b)) b c'
      | None \<Rightarrow> snd (remove_child n b))"
    have i: "remove_recursive (Some n) (path @ k) (length path) = (fst res, Some (compress m (fst res)))"
      using remove_found [OF ok k c] unfolding res_def [symmetric] m_def Let_def .
    have lb: "below path n b = look (path @ ?p @ [b]) c" using c by (simp add: below_def look_slot_def)
    have fst: "fst res = look path n k" using u lb unfolding look k by (simp add: del_ok_def)
    have goal: "(look path n)(k := None) = branch ?p ((below path n)(b := look_slot (path @ ?p @ [b]) (snd res)))"
      using u lb unfolding look k branch_del by (simp add: del_ok_def)
    show ?thesis
    proof (cases "snd res")
      case None
      then have m: "m = snd (remove_child n b)" by (simp add: m_def)
      note d = compress_after_removal [OF ok c w, folded m, of "fst res"]
      have "look path m = (look path n)(k := None)"
        using rem_child_ok(3) [OF ok c wide_two [OF w], folded m] goal None by (simp add: look_slot_def)
      then show ?thesis unfolding i using fst d by (intro del_okI) simp_all
    next
      case (Some c')
      then have m: "m = insert_child (snd (remove_child n b)) b c'" by (simp add: m_def)
      have "art_ok (path @ ?p @ [b]) c'" using u Some by (simp add: del_ok_def slot_ok_def)
      note pb = put_back_ok [OF ok c this, folded m]
      have "child_count m = child_count n"
        using art.count_put_back [OF art_ok_interior(1) [OF ok] c] by (simp add: m)
      then have "compress m (fst res) = m" using wide_two [OF w] by (intro compress_kept) simp
      then show ?thesis unfolding i using fst pb goal Some by (intro del_okI) (simp_all add: look_slot_def)
    qed
  qed
qed

lemma remove_recursive_ok:
  "art_ok path n \<Longrightarrow> remove_safe n (path @ k) (length path) \<Longrightarrow>
     del_ok path n k (remove_recursive (Some n) (path @ k) (length path))"
proof (induction "length k" arbitrary: path n k rule: less_induct)
  case less
  show ?case
  proof (cases "as_leaf n")
    case None
    show ?thesis
    proof (rule del_node [OF less.prems(1) None less.prems(2)])
      fix b r c assume k: "k = art_prefix n @ b # r" and c: "find_child n b = Some c"
        and s: "remove_safe c (path @ k) (length path + length (art_prefix n) + 1)"
      show "del_ok (path @ art_prefix n @ [b]) c r
          (remove_recursive (Some c) (path @ k) (length path + length (art_prefix n) + 1))"
        using less.hyps [of r "path @ art_prefix n @ [b]" c] art_ok_interior(3) [OF less.prems(1) None c] k s
        by simp
    qed
  next
    case (Some leaf)
    then show ?thesis using del_leaf [of path leaf k] less.prems(1) by (simp add: as_leaf_Some)
  qed
qed

section \<open>Removal from a narrow node\<close>

text \<open>The bytes on which a lookup enters an interior node: the first byte of its compressed prefix,
  or those of its children.\<close>

definition first_bytes :: "'v art_node \<Rightarrow> u8 set" where
  "first_bytes n = (case art_prefix n of [] \<Rightarrow> {b. find_child n b \<noteq> None} | b # _ \<Rightarrow> {b})"

text \<open>The node that a path of bytes leads to, below nodes with two children or more.\<close>

inductive node_at :: "'v art_node \<Rightarrow> bytes \<Rightarrow> 'v art_node \<Rightarrow> bool" where
  at_here: "node_at n [] n"
| at_below: "as_leaf m = None \<Longrightarrow> 2 \<le> child_count m \<Longrightarrow> find_child m b = Some d \<Longrightarrow> node_at d p n
     \<Longrightarrow> node_at m (art_prefix m @ b # p) n"

lemma node_at_ok: "node_at m p n \<Longrightarrow> art_ok path m \<Longrightarrow> art_ok (path @ p) n"
proof (induction arbitrary: path rule: node_at.induct)
  case (at_below m b d p n)
  then show ?case using at_below.IH [OF art_ok_interior(3) [OF at_below.prems at_below.hyps(1,3)]] by simp
qed simp

lemma look_node_at: "node_at m p n \<Longrightarrow> look path m (p @ s) = look (path @ p) n s"
proof (induction arbitrary: path rule: node_at.induct)
  case (at_below m b d p n)
  then show ?case by (simp add: look_node below_def look_slot_def)
qed simp

lemma get_loop_path: "art_ok path n \<Longrightarrow> get_loop n key depth \<noteq> None \<Longrightarrow> prefix path key"
proof (induction arbitrary: depth rule: art_ok.induct)
  case (ok_leaf path leaf)
  then show ?case by (auto simp: get_loop.simps split: if_splits)
next
  case (ok_node n path)
  let ?d = "depth + length (art_prefix n)"
  obtain c where c: "find_child n (key ! ?d) = Some c" "get_loop c key (?d + 1) \<noteq> None"
    using ok_node.prems node_ok_interior [OF ok_node.hyps(1)]
    by (subst (asm) get_loop.simps) (auto simp: Let_def split: if_splits option.splits)
  from ok_node.IH [OF this] show ?case by (auto dest: append_prefixD)
qed

text \<open>A child in the place of its node finds nothing, unless the bytes skipped start as it does.\<close>

lemma look_misplaced:
  assumes ok: "art_ok (path @ lost) c" "as_leaf c = None"
    and lost: "lost \<noteq> []" "hd lost \<notin> first_bytes c"
  shows "look path c s = None"
proof (rule ccontr)
  assume "look path c s \<noteq> None"
  then obtain x r where s: "s = art_prefix c @ x # r" and found: "below path c x r \<noteq> None"
    unfolding look_node [OF ok(2)] branch_Some by blast
  then obtain d where d: "find_child c x = Some d" "get_loop d (path @ s) (length (path @ art_prefix c @ [x])) \<noteq> None"
    by (cases "find_child c x") (auto simp: below_def look_slot_def look_def)
  have "prefix ((path @ lost) @ art_prefix c @ [x]) (path @ s)"
    by (rule get_loop_path [OF art_ok_interior(3) [OF ok d(1)] d(2)])
  then have "hd s = hd lost" using lost(1) by (auto elim!: prefixE simp: hd_append)
  moreover have "hd s \<in> first_bytes c"
    using d(1) by (cases "art_prefix c") (auto simp: first_bytes_def s)
  ultimately show False using lost(2) by simp
qed

lemma remove_collapses:
  assumes ok: "art_ok path n" "as_leaf n = None" and two: "child_count n = 2"
    and leaf: "find_child n a = Some (Leaf (ArtLeaf (path @ k) v))"
    and other: "find_child n b = Some c" "a \<noteq> b"
  shows "remove_recursive (Some n) (path @ k) (length path) = (Some v, Some c)"
proof -
  have "art_ok (path @ art_prefix n @ [a]) (Leaf (ArtLeaf (path @ k) v))" by (rule art_ok_interior(3) [OF ok leaf])
  then have "prefix (path @ art_prefix n @ [a]) (path @ k)" by (rule ok_leafE) simp_all
  then obtain r where k: "k = art_prefix n @ a # r" by (auto elim: prefixE)
  define m where "m = snd (remove_child n a)"
  note m = rem_child_ok [OF ok leaf, folded m_def]
  have mok: "node_ok m" using art_ok_interior(1) [OF m(1,2)] two by simp
  have "find_child m b = Some c"
    using art.find_rem [OF art_ok_interior(1) [OF ok]] other by (simp add: m_def)
  then have "(b, c) \<in> set (iter_children m)" using art.children_iff [OF mok] by blast
  moreover have "child_count m = 1" "length (iter_children m) = 1"
    using m(4) two art.count_children [OF mok] by simp_all
  ultimately have "iter_children m = [(b, c)]" by (auto simp: length_Suc_conv)
  then have "compress m (Some v) = c" using \<open>child_count m = 1\<close> by (simp add: compress_def)
  then show ?thesis
    using remove_found [OF ok k leaf] by (simp add: m_def remove_recursive.simps [of "Some (Leaf _)"])
qed

lemma remove_loses_below:
  assumes "node_at m p n" "art_ok path m" "as_leaf n = None" "child_count n = 2"
    "find_child n a = Some (Leaf (ArtLeaf (path @ p @ k) v))"
    "find_child n b = Some c" "a \<noteq> b" "as_leaf c = None" "hd (art_prefix n @ [b]) \<notin> first_bytes c"
  shows "\<exists>m'. remove_recursive (Some m) (path @ p @ k) (length path) = (Some v, Some m')
    \<and> look path m' = (\<lambda>s. if prefix p s then None else look path m s)"
  using assms
proof (induction arbitrary: path rule: node_at.induct)
  case (at_here n)
  have ok: "art_ok (path @ (art_prefix n @ [b])) c" using art_ok_interior(3) [OF at_here(1,2,5)] by simp
  have "look path c s = None" for s by (rule look_misplaced [OF ok at_here(7)]) (use at_here(8) in simp_all)
  then show ?case using remove_collapses [OF at_here(1-3), of a k v b c] at_here by auto
next
  case (at_below m x d p n)
  let ?path = "path @ art_prefix m @ [x]"
  have "art_ok ?path d" by (rule art_ok_interior(3) [OF at_below.prems(1) at_below.hyps(1,3)])
  then obtain d' where d': "remove_recursive (Some d) (?path @ p @ k) (length ?path) = (Some v, Some d')"
    "look ?path d' = (\<lambda>s. if prefix p s then None else look ?path d s)"
    using at_below.IH [of ?path] at_below.prems by auto
  define m' where "m' = insert_child (snd (remove_child m x)) x d'"
  note nok = art_ok_interior(1) [OF at_below.prems(1) at_below.hyps(1)]
  note pb = art.put_back [OF nok at_below.hyps(3), of d', folded m'_def]
  have "child_count m' = child_count m"
    using art.count_put_back [OF nok at_below.hyps(3)] by (simp add: m'_def)
  then have kept: "compress m' (Some v) = m'" using at_below.hyps(2) by (intro compress_kept) simp
  have "remove_recursive (Some m) (path @ (art_prefix m @ x # p @ k)) (length path) = (Some v, Some m')"
    using remove_found [OF at_below.prems(1) at_below.hyps(1) refl at_below.hyps(3), of "p @ k"] d'(1) kept
    by (simp add: Let_def m'_def)
  moreover have "look path m' s = (if prefix (art_prefix m @ x # p) s then None else look path m s)" for s
  proof -
    have "below path m' = (below path m)(x := \<lambda>s. if prefix p s then None else look ?path d s)"
      using d'(2) by (auto simp: fun_eq_iff below_def pb look_slot_def)
    moreover have "below path m x = look ?path d" by (simp add: below_def look_slot_def at_below.hyps(3))
    ultimately show ?thesis
      unfolding look_node [OF at_below.hyps(1)] look_node [OF node_ok_interior [OF pb(1)]] pb(3)
      by (auto simp: branch_def elim!: prefixE split: list.splits)
  qed
  ultimately show ?case by auto
qed

section \<open>Properties\<close>

definition art_tree_ok :: "'v art_tree \<Rightarrow> bool" where
  "art_tree_ok t \<longleftrightarrow> slot_ok [] (art_root t)"

lemma art_get_look: "art_get t = look_slot [] (art_root t)"
proof
  fix key
  show "art_get t key = look_slot [] (art_root t) key"
    by (auto simp: art_get_def look_slot_def look_def get_loop.simps split: option.splits)
qed

lemma art_insert_look:
  assumes "art_tree_ok t"
  shows "fst (art_insert t k v) = art_get t k" "art_tree_ok (snd (art_insert t k v))"
    "art_get (snd (art_insert t k v)) = art_upd (art_get t) k v"
proof -
  have "upd_ok [] (art_root t) k v (insert_recursive (art_root t) k 0 v)"
    using insert_recursive_ok [of "[]" "art_root t" k v] assms by (simp add: art_tree_ok_def)
  then show "fst (art_insert t k v) = art_get t k" "art_tree_ok (snd (art_insert t k v))"
    "art_get (snd (art_insert t k v)) = art_upd (art_get t) k v"
    by (simp_all add: upd_ok_def art_insert_def art_get_look art_tree_ok_def split_def)
qed

lemma art_remove_look:
  assumes "art_tree_ok t" "\<And>n. art_root t = Some n \<Longrightarrow> remove_safe n k 0"
  shows "fst (art_remove t k) = art_get t k" "art_tree_ok (snd (art_remove t k))"
    "art_get (snd (art_remove t k)) = (art_get t)(k := None)"
proof -
  have "fst (art_remove t k) = art_get t k \<and> art_tree_ok (snd (art_remove t k))
      \<and> art_get (snd (art_remove t k)) = (art_get t)(k := None)"
  proof (cases "art_root t")
    case None
    then show ?thesis
      by (auto simp: art_remove_def remove_recursive.simps art_get_look look_slot_def art_tree_ok_def slot_ok_def)
  next
    case (Some n)
    have "del_ok [] n k (remove_recursive (Some n) k 0)"
      using remove_recursive_ok [of "[]" n k] assms Some by (simp add: art_tree_ok_def slot_ok_def)
    then show ?thesis
      by (simp add: del_ok_def art_remove_def art_get_look art_tree_ok_def split_def Some look_slot_def)
  qed
  then show "fst (art_remove t k) = art_get t k" "art_tree_ok (snd (art_remove t k))"
    "art_get (snd (art_remove t k)) = (art_get t)(k := None)" by blast+
qed

definition art_inserts :: "(bytes \<times> 'v) list \<Rightarrow> 'v art_tree" where
  "art_inserts kvs = fold (\<lambda>(k, v) t. snd (art_insert t k v)) kvs art_new"

definition prefix_free :: "bytes set \<Rightarrow> bool" where
  "prefix_free ks \<longleftrightarrow> (\<forall>k\<in>ks. \<forall>k'\<in>ks. \<not> strict_prefix k k')"

lemma art_upd_free:
  assumes "\<And>q. m q \<noteq> None \<Longrightarrow> \<not> strict_prefix k q \<and> \<not> strict_prefix q k"
  shows "art_upd m k v = m(k \<mapsto> v)"
proof -
  have "art_upd m k v = (\<lambda>q. if q = k then Some v else if strict_prefix q k then None else m q)"
    unfolding art_upd_def by (intro if_not_P) (use assms in blast)
  moreover have "m q = None" if "strict_prefix q k" for q using assms that by blast
  ultimately show ?thesis by (auto simp: fun_eq_iff)
qed

lemma art_new_ok: "art_tree_ok art_new" "art_get art_new = Map.empty" "art_len art_new = 0"
  by (auto simp: art_new_def art_tree_ok_def slot_ok_def art_get_def)

lemma art_inserts_snoc: "art_inserts (kvs @ [(k, v)]) = snd (art_insert (art_inserts kvs) k v)"
  by (simp add: art_inserts_def)

lemma art_inserts_ok: "art_tree_ok (art_inserts kvs)"
proof (induction kvs rule: rev_induct)
  case Nil
  then show ?case using art_new_ok(1) by (simp add: art_inserts_def)
next
  case (snoc kv kvs)
  then show ?case using art_insert_look(2) by (cases kv) (simp add: art_inserts_snoc)
qed

lemma art_insert_len:
  "art_tree_ok t \<Longrightarrow> art_len (snd (art_insert t k v)) = (if art_get t k = None then art_len t + 1 else art_len t)"
  using art_insert_look(1) [of t k v] by (auto simp: art_insert_def split_def Let_def)

lemma dom_map_of_rev: "dom (map_of (rev kvs)) = fst ` set kvs"
  by (simp add: dom_map_of_conv_image_fst)

lemma art_inserts_map:
  "prefix_free (fst ` set kvs) \<Longrightarrow> art_get (art_inserts kvs) = map_of (rev kvs)
     \<and> art_len (art_inserts kvs) = card (fst ` set kvs)"
proof (induction kvs rule: rev_induct)
  case Nil
  then show ?case using art_new_ok by (simp add: art_inserts_def)
next
  case (snoc kv kvs)
  obtain k v where kv: "kv = (k, v)" by (cases kv)
  have pf: "prefix_free (fst ` set kvs)" using snoc.prems by (auto simp: prefix_free_def)
  note ih = snoc.IH [OF pf]
  have d: "map_of (rev kvs) q \<noteq> None \<longleftrightarrow> q \<in> fst ` set kvs" for q
    using dom_map_of_rev [of kvs] by blast
  have "art_upd (art_get (art_inserts kvs)) k v = (art_get (art_inserts kvs))(k \<mapsto> v)"
    using snoc.prems d ih kv by (intro art_upd_free) (auto simp: prefix_free_def)
  then have get: "art_get (art_inserts (kvs @ [kv])) = map_of (rev (kvs @ [kv]))"
    using art_insert_look(3) [OF art_inserts_ok, of kvs k v] ih kv by (simp add: art_inserts_snoc)
  have "card (fst ` set (kvs @ [kv])) = (if k \<in> fst ` set kvs then card (fst ` set kvs) else card (fst ` set kvs) + 1)"
    using kv by (simp add: insert_absorb card_insert_if)
  moreover have "art_get (art_inserts kvs) k = None \<longleftrightarrow> k \<notin> fst ` set kvs" using d [of k] ih by fastforce
  ultimately show ?case using get ih kv art_insert_len [OF art_inserts_ok, of kvs k v]
    by (simp add: art_inserts_snoc)
qed

text \<open>C36:
  Insertion refines the map update. On every well-formed tree an insertion returns the value the
  key had, keeps the tree well-formed, and changes the map as follows: if a longer key with the
  new key as a prefix is stored, nothing changes; otherwise the key gets the value, the stored
  keys that are proper prefixes of it disappear, and all other keys keep their values.
\<close>

theorem art_insert_refines_map:
  assumes "art_tree_ok t"
  shows "fst (art_insert t k v) = art_get t k \<and> art_tree_ok (snd (art_insert t k v))
    \<and> art_get (snd (art_insert t k v)) q =
        (if \<exists>r. art_get t r \<noteq> None \<and> strict_prefix k r then art_get t q
         else if q = k then Some v else if strict_prefix q k then None else art_get t q)"
  using art_insert_look [OF assms, of k v] art_upd_apply [of "art_get t" k v q] by metis

definition art_sample :: "u64 art_tree" where
  "art_sample = art_inserts [([97, 98, 49], 1), ([97, 98, 50], 2), ([97, 99], 3)]"

theorem art_insert_refines_map_witness:
  "fst (art_insert art_sample [97, 99] 7) = art_get art_sample [97, 99]
     \<and> art_get (snd (art_insert art_sample [97, 99] 7)) [97, 99] = Some 7"
proof -
  have 1: "art_tree_ok art_sample" unfolding art_sample_def by (rule art_inserts_ok)
  have "art_get art_sample = map_of (rev [([97, 98, 49], 1), ([97, 98, 50], 2), ([97, 99], 3)])"
    unfolding art_sample_def by (rule conjunct1 [OF art_inserts_map]) (auto simp: prefix_free_def strict_prefix_def)
  then have "\<not> (\<exists>r. art_get art_sample r \<noteq> None \<and> strict_prefix [97, 99] r)"
    by (auto simp: strict_prefix_def split: if_splits)
  then show ?thesis
    using art_insert_refines_map [OF 1, of "[97, 99]" 7 "[97, 99]"] by (simp only: if_False refl if_True simp_thms)
qed

text \<open>
  The tree as a map. After any sequence of insertions whose keys are not proper prefixes of each
  other, lookup returns the last value inserted for every key and nothing for other keys, and
  the length is the number of distinct keys.
\<close>

lemma art_inserts_refine_map:
  assumes "prefix_free (fst ` set kvs)"
  shows "art_get (art_inserts kvs) q = map_of (rev kvs) q
    \<and> art_len (art_inserts kvs) = card (fst ` set kvs)"
  using art_inserts_map [OF assms] by simp

lemma art_inserts_refine_map_witness:
  "art_get art_sample [97, 98, 50] = Some 2 \<and> art_get art_sample [97, 98] = None
     \<and> art_len art_sample = 3"
proof -
  let ?kvs = "[([97, 98, 49], 1), ([97, 98, 50], 2), ([97, 99], 3)] :: (bytes \<times> u64) list"
  have "prefix_free (fst ` set ?kvs)" by (auto simp: prefix_free_def strict_prefix_def)
  then show ?thesis
    using art_inserts_refine_map [of ?kvs "[97, 98, 50]"] art_inserts_refine_map [of ?kvs "[97, 98]"]
    by (simp add: art_sample_def)
qed

text \<open>
  Keys that are prefixes of stored keys are lost. Inserting a key that is a proper prefix of a
  stored key reports a fresh insertion and increments the length, but stores nothing; inserting
  a key that extends a stored key, when no stored key extends it, removes the shorter one while
  the length still grows.
\<close>

lemma prefix_keys_are_lost:
  assumes "art_tree_ok t" "art_get t r \<noteq> None" "art_get t k = None"
  shows "(strict_prefix k r \<longrightarrow> fst (art_insert t k v) = None
        \<and> art_get (snd (art_insert t k v)) k = None
        \<and> art_len (snd (art_insert t k v)) = art_len t + 1)
    \<and> (strict_prefix r k \<and> (\<forall>q. art_get t q \<noteq> None \<longrightarrow> \<not> strict_prefix k q)
        \<longrightarrow> art_get (snd (art_insert t k v)) r = None
        \<and> art_len (snd (art_insert t k v)) = art_len t + 1)"
proof -
  note i = art_insert_look [OF assms(1), of k v] art_insert_len [OF assms(1), of k v]
  have "art_get (snd (art_insert t k v)) k = None" if "strict_prefix k r"
    unfolding i(3) art_upd_apply using assms(2,3) that by auto
  moreover have "art_get (snd (art_insert t k v)) r = None"
    if "strict_prefix r k" "\<forall>q. art_get t q \<noteq> None \<longrightarrow> \<not> strict_prefix k q"
    unfolding i(3) art_upd_apply using that by auto
  ultimately show ?thesis using i(1,4) assms(3) by simp
qed

lemma prefix_keys_are_lost_witness:
  "art_get (snd (art_insert art_sample [97, 98] 9)) [97, 98] = None
     \<and> art_len (snd (art_insert art_sample [97, 98] 9)) = 4"
proof -
  let ?kvs = "[([97, 98, 49], 1), ([97, 98, 50], 2), ([97, 99], 3)] :: (bytes \<times> u64) list"
  have "prefix_free (fst ` set ?kvs)" by (auto simp: prefix_free_def strict_prefix_def)
  note m = art_inserts_map [OF this, folded art_sample_def]
  have "art_tree_ok art_sample" unfolding art_sample_def by (rule art_inserts_ok)
  moreover have "strict_prefix [97, 98 :: u8] [97, 98, 50]" by (simp add: strict_prefix_def)
  ultimately show ?thesis using prefix_keys_are_lost [of art_sample "[97, 98, 50]" "[97, 98]" 9] m by simp
qed

text \<open>C37:
  Removal refines the map deletion. On a well-formed tree whose nodes on the way to the key have
  three children, or two leaves, removal returns the value of the key, deletes exactly that key
  and keeps the tree well-formed.
\<close>

theorem art_remove_refines_map:
  assumes "art_tree_ok t" "\<And>n. art_root t = Some n \<Longrightarrow> remove_safe n k 0"
  shows "fst (art_remove t k) = art_get t k \<and> art_tree_ok (snd (art_remove t k))
    \<and> art_get (snd (art_remove t k)) = (art_get t)(k := None)"
  using art_remove_look [OF assms] by blast

definition art_wide :: "u64 art_tree" where
  "art_wide = art_inserts [([97, 98, 49], 1), ([97, 98, 50], 2), ([97, 99], 3), ([97, 100], 4)]"

theorem art_remove_refines_map_witness:
  "fst (art_remove art_wide [97, 98, 49]) = art_get art_wide [97, 98, 49]
     \<and> art_get (snd (art_remove art_wide [97, 98, 49])) = (art_get art_wide)([97, 98, 49] := None)"
proof -
  have "art_tree_ok art_wide" unfolding art_wide_def by (rule art_inserts_ok)
  moreover have "case art_root art_wide of Some n \<Rightarrow> remove_safe n [97, 98, 49] 0 | None \<Rightarrow> True"
    by code_simp
  then have "\<And>n. art_root art_wide = Some n \<Longrightarrow> remove_safe n [97, 98, 49] 0" by simp
  ultimately show ?thesis using art_remove_refines_map [of art_wide "[97, 98, 49]"] by blast
qed

text \<open>C40:
  Removal from a narrow node loses the node's other keys. Let a node in a well-formed tree, below nodes
  that have at least two children each, itself have two children, the leaf of a key and an interior node, such that the bytes of the node (its
  compressed prefix and the branching byte) do not start with a byte on which that interior node is
  entered. Removing the key returns its value and counts it off, but the node is replaced by its
  interior child without those bytes: no key below the node is found any more, although at least one
  other is stored there; keys outside it are not affected.
\<close>

theorem remove_loses_siblings:
  assumes "art_tree_ok t" "art_root t = Some m" "node_at m p n"
    and "as_leaf n = None" "child_count n = 2"
    and "find_child n a = Some (Leaf (ArtLeaf k v))" "find_child n b = Some c" "a \<noteq> b" "as_leaf c = None"
    and "hd (art_prefix n @ [b]) \<notin> first_bytes c"
  shows "fst (art_remove t k) = Some v \<and> art_len (snd (art_remove t k)) = art_len t - 1
    \<and> (\<forall>q. art_get (snd (art_remove t k)) q = (if prefix p q then None else art_get t q))
    \<and> (\<exists>q. prefix p q \<and> q \<noteq> k \<and> art_get t q \<noteq> None)"
proof -
  have ok: "art_ok [] m" using assms(1,2) by (simp add: art_tree_ok_def slot_ok_def)
  have "art_ok ([] @ p) n" by (rule node_at_ok [OF assms(3) ok])
  then have n: "art_ok p n" by simp
  have "prefix (p @ art_prefix n @ [a]) k"
    using art_ok_interior(3) [OF n assms(4,6)] by (auto elim: ok_leafE)
  then obtain k' where k: "k = p @ k'" "prefix (art_prefix n @ [a]) k'" by (auto elim: prefixE)
  obtain m' where m': "remove_recursive (Some m) k 0 = (Some v, Some m')"
    "look [] m' = (\<lambda>s. if prefix p s then None else look [] m s)"
    using remove_loses_below [OF assms(3) ok assms(4,5), of a k' v b c] assms k by auto
  obtain s where s: "look (p @ art_prefix n @ [b]) c s \<noteq> None"
    using art_ok_nonempty [OF art_ok_interior(3) [OF n assms(4,7)]] by blast
  then have "look p n (art_prefix n @ b # s) \<noteq> None"
    unfolding look_node [OF assms(4)] by (simp add: below_def look_slot_def assms(7))
  then have "art_get t (p @ art_prefix n @ b # s) \<noteq> None"
    using look_node_at [OF assms(3), of "[]"] by (simp add: art_get_look assms(2) look_slot_def)
  moreover have "p @ art_prefix n @ b # s \<noteq> k" using k assms(8) by (auto elim!: prefixE)
  ultimately have "\<exists>q. prefix p q \<and> q \<noteq> k \<and> art_get t q \<noteq> None"
    by (intro exI [of _ "p @ art_prefix n @ b # s"]) simp
  then show ?thesis
    using m' by (simp add: art_remove_def assms(2) art_get_look look_slot_def)
qed

theorem remove_loses_siblings_witness:
  "fst (art_remove art_sample [97, 99]) = Some 3 \<and> art_get (snd (art_remove art_sample [97, 99])) [97, 98, 49] = None
   \<and> art_len (snd (art_remove art_sample [97, 99])) = 2"
proof -
  let ?c = "Node4 [] [49, 50] [Leaf (ArtLeaf [97, 98, 49] 1), Leaf (ArtLeaf [97, 98, 50] 2)] :: u64 art_node"
  let ?n = "Node4 [97] [98, 99] [?c, Leaf (ArtLeaf [97, 99] 3)]"
  have ok: "art_tree_ok art_sample" unfolding art_sample_def by (rule art_inserts_ok)
  have root: "art_root art_sample = Some ?n" "art_len art_sample = 3" by code_simp+
  have "find_child ?n 99 = Some (Leaf (ArtLeaf [97, 99] 3))" "find_child ?n 98 = Some ?c" by code_simp+
  moreover have "find_child ?c 97 = None" by code_simp
  then have "hd (art_prefix ?n @ [98]) \<notin> first_bytes ?c" by (simp add: first_bytes_def)
  ultimately show ?thesis
    using remove_loses_siblings [OF ok root(1) at_here, of 99 "[97, 99]" 3 98 ?c] root(2) by simp
qed

end
