(* ===== verification/ArtIter.thy ===== *)
theory ArtIter
  imports Art "HOL-Library.List_Lexorder"
begin

text \<open>
  The iterator of the adaptive radix tree (\<open>cendb-index/src/art.rs\<close>): its explicit stack of
  nodes and child positions, the entries it yields, and the range scans over it.
\<close>

section \<open>Sizes of children\<close>

lemma size_child_list: "c \<in> set cs \<Longrightarrow> size c < Suc (size_list size cs)" for c :: "'v art_node"
  using size_list_estimation' [of c cs "size c" size] by simp

lemma size_child_slot: "Some c \<in> set cs \<Longrightarrow> size c < Suc (size_list (size_option size) cs)"
  for c :: "'v art_node"
  using size_list_estimation' [of "Some c" cs "size_option size (Some c)" "size_option size"] by simp

lemma index_lookup_in: "index_lookup idx cs b = Some c \<Longrightarrow> Some c \<in> set cs"
  by (auto simp: index_lookup_def Let_def in_set_conv_nth split: if_splits)

lemma child_size:
  assumes "(b, c) \<in> set (iter_children n)"
  shows "size c < size n"
proof (cases n)
  case (Node4 p keys children)
  then show ?thesis using assms size_child_list [of c children] by (auto dest: set_zip_rightD)
next
  case (Node16 p keys children)
  then show ?thesis using assms size_child_list [of c children] by (auto dest: set_zip_rightD)
next
  case (Node48 p idx children count)
  then obtain b where "index_lookup idx children b = Some c" using assms by (auto split: option.splits)
  from index_lookup_in [OF this] show ?thesis using size_child_slot [of c children] Node48 by simp
next
  case (Node256 p children count)
  then have "Some c \<in> set children" using assms
    by (auto simp: in_set_conv_nth split: option.splits if_splits)
  then show ?thesis using size_child_slot [of c children] Node256 by simp
qed (use assms in simp)

lemma child_size' [termination_simp]: "x \<in> set (iter_children n) \<Longrightarrow> size (snd x) < size n"
  using child_size [of "fst x" "snd x" n] by simp

section \<open>The iterator\<close>

type_synonym 'v art_stack = "('v art_node \<times> nat) list"

function descend :: "'v art_node \<Rightarrow> 'v art_stack \<Rightarrow> 'v art_stack \<times> 'v art_leaf option" where
  "descend n stack =
     (case as_leaf n of
        Some leaf \<Rightarrow> (stack, Some leaf)
      | None \<Rightarrow>
          (case iter_children n of
             [] \<Rightarrow> (stack, None)
           | x # _ \<Rightarrow> descend (snd x) ((n, 1) # stack)))"
  by pat_completeness auto
termination
  by (relation "measure (\<lambda>(n, _). size n)") (auto intro: child_size')

text \<open>How many steps the nodes below a node can still take.\<close>

function weight :: "'v art_node \<Rightarrow> nat" where
  "weight n = Suc (sum_list (map (\<lambda>x. weight (snd x)) (iter_children n)))"
  by pat_completeness auto
termination
  by (relation "measure size") (auto intro: child_size')

declare descend.simps [simp del] weight.simps [simp del]

definition stack_weight :: "'v art_stack \<Rightarrow> nat" where
  "stack_weight stack =
     sum_list (map (\<lambda>(n, i). Suc (sum_list (map (\<lambda>x. weight (snd x)) (drop i (iter_children n))))) stack)"

lemma stack_weight_simps [simp]:
  "stack_weight [] = 0"
  "stack_weight ((n, i) # stack)
     = Suc (sum_list (map (\<lambda>x. weight (snd x)) (drop i (iter_children n)))) + stack_weight stack"
  by (simp_all add: stack_weight_def)

lemma descend_weight: "stack_weight (fst (descend n stack)) < stack_weight stack + weight n"
proof (induction n stack rule: descend.induct)
  case (1 n stack)
  show ?case
  proof (cases "as_leaf n")
    case (Some leaf)
    then show ?thesis by (simp add: descend.simps [of n] weight.simps [of n])
  next
    case leaf: None
    show ?thesis
    proof (cases "iter_children n")
      case Nil
      then show ?thesis using leaf by (simp add: descend.simps [of n] weight.simps [of n])
    next
      case (Cons x xs)
      then show ?thesis using leaf 1 [OF leaf Cons]
        by (simp add: descend.simps [of n] weight.simps [of n])
    qed
  qed
qed

lemma stack_weight_next:
  "i < length (iter_children n) \<Longrightarrow> stack_weight ((n, i) # stack)
     = stack_weight ((n, Suc i) # stack) + weight (snd (iter_children n ! i))"
  by (simp add: Cons_nth_drop_Suc [symmetric])

function next_loop :: "'v art_stack \<Rightarrow> 'v art_stack \<times> 'v art_leaf option" where
  "next_loop stack =
     (case stack of
        [] \<Rightarrow> ([], None)
      | (node, idx) # rest \<Rightarrow>
          let children = iter_children node
          in if idx < length children
             then let (stack', current_leaf) = descend (snd (children ! idx)) ((node, idx + 1) # rest)
               in (case current_leaf of
                     Some leaf \<Rightarrow> (stack', Some leaf)
                   | None \<Rightarrow> next_loop stack')
             else next_loop rest)"
  by pat_completeness auto
termination
proof (relation "measure stack_weight")
  fix stack :: "'v art_stack" and x rest node idx children d stack' leaf
  assume s: "stack = x # rest" "(node, idx) = x" and c: "children = iter_children node"
    "idx < length children" and d: "d = descend (snd (children ! idx)) ((node, idx + 1) # rest)"
    "(stack', leaf) = d"
  have "stack_weight stack' < stack_weight ((node, Suc idx) # rest) + weight (snd (children ! idx))"
    using descend_weight [of "snd (children ! idx)" "(node, Suc idx) # rest"] d by (metis Suc_eq_plus1 fst_conv)
  then show "(stack', stack) \<in> measure stack_weight"
    using stack_weight_next [of idx node rest] s c by simp
qed (auto simp: stack_weight_def)

declare next_loop.simps [simp del]

lemma next_loop_Cons:
  "next_loop ((n, i) # rest) =
     (if i < length (iter_children n)
      then let d = descend (snd (iter_children n ! i)) ((n, i + 1) # rest)
        in if snd d = None then next_loop (fst d) else d
      else next_loop rest)"
  by (subst next_loop.simps) (auto simp: Let_def split_def prod_eq_iff split: option.splits)

record 'v art_iterator =
  it_stack :: "'v art_stack"
  it_current_leaf :: "'v art_leaf option"
  it_tree :: "'v art_tree"
  it_started :: bool

definition art_iter :: "'v art_tree \<Rightarrow> 'v art_iterator" where
  "art_iter t = \<lparr>it_stack = [], it_current_leaf = None, it_tree = t, it_started = False\<rparr>"

definition start_iter :: "'v art_iterator \<Rightarrow> 'v art_iterator" where
  "start_iter it =
     (if it_started it then it
      else let it = it\<lparr>it_started := True\<rparr>
        in case art_root (it_tree it) of
             None \<Rightarrow> it
           | Some root \<Rightarrow>
               let (stack, leaf) = descend root (it_stack it)
               in it\<lparr>it_stack := stack,
                     it_current_leaf := (if leaf = None then it_current_leaf it else leaf)\<rparr>)"

definition leaf_entry :: "'v art_leaf \<Rightarrow> bytes \<times> 'v" where
  "leaf_entry leaf = (leaf_key leaf, leaf_value leaf)"

definition art_next :: "'v art_iterator \<Rightarrow> (bytes \<times> 'v) option \<times> 'v art_iterator" where
  "art_next it =
     (let it = start_iter it
      in case it_current_leaf it of
           Some leaf \<Rightarrow> (Some (leaf_entry leaf), it\<lparr>it_current_leaf := None\<rparr>)
         | None \<Rightarrow>
             let (stack, leaf) = next_loop (it_stack it)
             in (map_option leaf_entry leaf, it\<lparr>it_stack := stack\<rparr>))"

text \<open>Collecting an iterator, which ends because every call of \<open>next\<close> uses up
  weight.\<close>

definition iter_weight :: "'v art_iterator \<Rightarrow> nat" where
  "iter_weight it = stack_weight (it_stack it) + (if it_current_leaf it = None then 0 else 1)
     + (if it_started it then 0
        else case art_root (it_tree it) of None \<Rightarrow> 0 | Some root \<Rightarrow> weight root)"

lemma next_loop_weight:
  "snd (next_loop stack) \<noteq> None \<Longrightarrow> stack_weight (fst (next_loop stack)) < stack_weight stack"
proof (induction stack rule: next_loop.induct)
  case (1 stack)
  show ?case
  proof (cases stack)
    case Nil
    then show ?thesis using 1(3) by (simp add: next_loop.simps)
  next
    case (Cons x rest)
    obtain n i where x: "x = (n, i)" by (cases x)
    show ?thesis
    proof (cases "i < length (iter_children n)")
      case False
      then have eq: "next_loop stack = next_loop rest" using Cons x by (simp add: next_loop_Cons)
      have "snd (next_loop rest) \<noteq> None" using 1(3) eq by simp
      from 1(2) [OF Cons x [symmetric] refl False this] show ?thesis using eq Cons x by simp
    next
      case True
      let ?d = "descend (snd (iter_children n ! i)) ((n, i + 1) # rest)"
      have w: "stack_weight (fst ?d) < stack_weight stack"
        using descend_weight [of "snd (iter_children n ! i)" "(n, Suc i) # rest"]
          stack_weight_next [OF True, of rest] Cons x by simp
      show ?thesis
      proof (cases "snd ?d")
        case (Some leaf)
        then have "next_loop stack = ?d"
          using Cons x True by (simp add: next_loop_Cons Let_def)
        then show ?thesis using w by simp
      next
        case None
        then have eq: "next_loop stack = next_loop (fst ?d)"
          using Cons x True by (simp add: next_loop_Cons Let_def)
        have "snd (next_loop (fst ?d)) \<noteq> None" using 1(3) eq by simp
        from 1(1) [OF Cons x [symmetric] refl True refl prod.collapse None this] show ?thesis
          using eq w by simp
      qed
    qed
  qed
qed

lemma start_weight: "iter_weight (start_iter it) \<le> iter_weight it" "it_started (start_iter it)"
proof -
  have "iter_weight (start_iter it) \<le> iter_weight it \<and> it_started (start_iter it)"
  proof (cases "it_started it")
    case True
    then show ?thesis by (simp add: start_iter_def)
  next
    case False
    show ?thesis
    proof (cases "art_root (it_tree it)")
      case None
      then show ?thesis using False by (simp add: start_iter_def iter_weight_def Let_def)
    next
      case (Some root)
      then show ?thesis using False descend_weight [of root "it_stack it"]
        by (simp add: start_iter_def iter_weight_def Let_def split_def)
    qed
  qed
  then show "iter_weight (start_iter it) \<le> iter_weight it" "it_started (start_iter it)" by blast+
qed

lemma next_weight: "fst (art_next it) \<noteq> None \<Longrightarrow> iter_weight (snd (art_next it)) < iter_weight it"
proof -
  assume a: "fst (art_next it) \<noteq> None"
  let ?s = "start_iter it"
  have "iter_weight (snd (art_next it)) < iter_weight ?s"
    using a start_weight(2) [of it] next_loop_weight [of "it_stack ?s"]
    by (auto simp: art_next_def iter_weight_def Let_def split_def split: option.splits)
  then show ?thesis using start_weight(1) [of it] by simp
qed

function art_collect :: "'v art_iterator \<Rightarrow> (bytes \<times> 'v) list" where
  "art_collect it =
     (case fst (art_next it) of None \<Rightarrow> [] | Some entry \<Rightarrow> entry # art_collect (snd (art_next it)))"
  by pat_completeness auto
termination
  by (relation "measure iter_weight") (auto intro: next_weight)

declare art_collect.simps [simp del]

definition art_range_scan :: "'v art_tree \<Rightarrow> bytes \<Rightarrow> bytes \<Rightarrow> (bytes \<times> 'v) list" where
  "art_range_scan t start stop = filter (\<lambda>(k, _). k \<ge> start \<and> k < stop) (art_collect (art_iter t))"

definition art_range :: "'v art_tree \<Rightarrow> bytes \<Rightarrow> bytes option \<Rightarrow> (bytes \<times> 'v) list" where
  "art_range t start stop =
     filter (\<lambda>(k, _). k \<ge> start \<and> (case stop of None \<Rightarrow> True | Some e \<Rightarrow> k < e)) (art_collect (art_iter t))"

section \<open>What the iterator yields\<close>

function art_list :: "'v art_node \<Rightarrow> (bytes \<times> 'v) list" where
  "art_list n =
     (case as_leaf n of
        Some leaf \<Rightarrow> [leaf_entry leaf]
      | None \<Rightarrow> concat (map (\<lambda>x. art_list (snd x)) (iter_children n)))"
  by pat_completeness auto
termination
  by (relation "measure size") (auto intro: child_size')

declare art_list.simps [simp del]

lemma art_list_leaf [simp]: "art_list (Leaf leaf) = [leaf_entry leaf]"
  by (simp add: art_list.simps)

lemma art_list_node:
  "as_leaf n = None \<Longrightarrow> art_list n = concat (map (\<lambda>x. art_list (snd x)) (iter_children n))"
  by (simp add: art_list.simps)

definition stack_list :: "'v art_stack \<Rightarrow> (bytes \<times> 'v) list" where
  "stack_list stack =
     concat (map (\<lambda>(n, i). concat (map (\<lambda>x. art_list (snd x)) (drop i (iter_children n)))) stack)"

definition leaf_list :: "'v art_leaf option \<Rightarrow> (bytes \<times> 'v) list" where
  "leaf_list l = (case l of None \<Rightarrow> [] | Some leaf \<Rightarrow> [leaf_entry leaf])"

lemma stack_list_simps [simp]:
  "stack_list [] = []"
  "stack_list ((n, i) # stack)
     = concat (map (\<lambda>x. art_list (snd x)) (drop i (iter_children n))) @ stack_list stack"
  by (simp_all add: stack_list_def)

lemma leaf_list_simps [simp]: "leaf_list None = []" "leaf_list (Some leaf) = [leaf_entry leaf]"
  by (simp_all add: leaf_list_def)

lemma descend_list:
  "leaf_list (snd (descend n stack)) @ stack_list (fst (descend n stack)) = art_list n @ stack_list stack"
proof (induction n stack rule: descend.induct)
  case (1 n stack)
  show ?case
  proof (cases "as_leaf n")
    case (Some leaf)
    then show ?thesis by (simp add: descend.simps [of n] art_list.simps [of n])
  next
    case leaf: None
    show ?thesis
    proof (cases "iter_children n")
      case Nil
      then show ?thesis using leaf by (simp add: descend.simps [of n] art_list_node)
    next
      case (Cons x xs)
      then show ?thesis using leaf 1 [OF leaf Cons] by (simp add: descend.simps [of n] art_list_node)
    qed
  qed
qed

lemma next_loop_list:
  "leaf_list (snd (next_loop stack)) @ stack_list (fst (next_loop stack)) = stack_list stack
     \<and> (snd (next_loop stack) = None \<longrightarrow> stack_list stack = [])"
proof (induction stack rule: next_loop.induct)
  case (1 stack)
  show ?case
  proof (cases stack)
    case Nil
    then show ?thesis by (simp add: next_loop.simps)
  next
    case (Cons x rest)
    obtain n i where x: "x = (n, i)" by (cases x)
    show ?thesis
    proof (cases "i < length (iter_children n)")
      case False
      then have "next_loop stack = next_loop rest" using Cons x by (simp add: next_loop_Cons)
      then show ?thesis using 1(2) [OF Cons x [symmetric] refl False] Cons x False by simp
    next
      case True
      let ?d = "descend (snd (iter_children n ! i)) ((n, i + 1) # rest)"
      have l: "stack_list stack = leaf_list (snd ?d) @ stack_list (fst ?d)"
        using descend_list [of "snd (iter_children n ! i)" "(n, i + 1) # rest"] True
        by (simp add: Cons x Cons_nth_drop_Suc [OF True, symmetric])
      show ?thesis
      proof (cases "snd ?d")
        case (Some leaf)
        then have "next_loop stack = ?d"
          using Cons x True by (simp add: next_loop_Cons Let_def)
        then show ?thesis using l Some by simp
      next
        case None
        then have "next_loop stack = next_loop (fst ?d)"
          using Cons x True by (simp add: next_loop_Cons Let_def)
        then show ?thesis using 1(1) [OF Cons x [symmetric] refl True refl prod.collapse None] l None by simp
      qed
    qed
  qed
qed

definition iter_list :: "'v art_iterator \<Rightarrow> (bytes \<times> 'v) list" where
  "iter_list it = leaf_list (it_current_leaf it)
     @ (if it_started it then []
        else case art_root (it_tree it) of None \<Rightarrow> [] | Some root \<Rightarrow> art_list root)
     @ stack_list (it_stack it)"

lemma start_list:
  "it_current_leaf it = None \<or> it_started it \<Longrightarrow> iter_list (start_iter it) = iter_list it"
  using descend_list [of "the (art_root (it_tree it))" "it_stack it"]
  by (auto simp: iter_list_def start_iter_def Let_def split_def split: option.splits)

lemma art_collect_list:
  "it_current_leaf it = None \<or> it_started it \<Longrightarrow> art_collect it = iter_list it"
proof (induction it rule: art_collect.induct)
  case (1 it)
  let ?s = "start_iter it"
  have s: "it_started ?s" "iter_list ?s = iter_list it" using start_weight(2) start_list [OF 1(2)] by auto
  show ?case
  proof (cases "it_current_leaf ?s")
    case (Some leaf)
    then have n: "art_next it = (Some (leaf_entry leaf), ?s\<lparr>it_current_leaf := None\<rparr>)"
      by (simp add: art_next_def Let_def)
    have "art_collect (snd (art_next it)) = iter_list (snd (art_next it))"
      using n by (intro 1(1)) simp_all
    then have "art_collect it = leaf_entry leaf # iter_list (?s\<lparr>it_current_leaf := None\<rparr>)"
      using n by (simp add: art_collect.simps [of it])
    also have "\<dots> = iter_list ?s" using Some s(1) by (simp add: iter_list_def)
    finally show ?thesis using s(2) by simp
  next
    case None
    let ?l = "next_loop (it_stack ?s)"
    have n: "art_next it = (map_option leaf_entry (snd ?l), ?s\<lparr>it_stack := fst ?l\<rparr>)"
      using None by (simp add: art_next_def Let_def split_def)
    note ll = next_loop_list [of "it_stack ?s"]
    have i: "iter_list ?s = stack_list (it_stack ?s)" using None s(1) by (simp add: iter_list_def)
    show ?thesis
    proof (cases "snd ?l")
      case None: None
      then have "art_collect it = []" using n by (simp add: art_collect.simps [of it])
      moreover have "stack_list (it_stack ?s) = []" using ll None by simp
      ultimately show ?thesis using i s(2) by simp
    next
      case (Some leaf)
      have "art_collect (snd (art_next it)) = iter_list (snd (art_next it))"
        using n Some s(1) by (intro 1(1)) simp_all
      then have "art_collect it = leaf_entry leaf # iter_list (?s\<lparr>it_stack := fst ?l\<rparr>)"
        using n Some by (simp add: art_collect.simps [of it])
      also have "\<dots> = iter_list ?s" using i ll Some None s(1) by (simp add: iter_list_def)
      finally show ?thesis using s(2) by simp
    qed
  qed
qed

lemma art_collect_tree:
  "art_collect (art_iter t) = (case art_root t of None \<Rightarrow> [] | Some root \<Rightarrow> art_list root)"
  by (simp add: art_collect_list art_iter_def iter_list_def split: option.splits)

section \<open>Order and content\<close>

lemma append_less_iff: "p @ x < p @ y \<longleftrightarrow> x < y" for x y :: bytes
  by (induction p) simp_all

lemma branch_less:
  fixes x y :: bytes
  assumes "b < b'" "prefix (q @ [b]) x" "prefix (q @ [b']) y"
  shows "x < y"
  using assms by (auto simp: append_less_iff elim!: prefixE)

lemma art_list_children:
  assumes "node_ok n"
  shows "e \<in> set (art_list n) \<longleftrightarrow> (\<exists>b c. find_child n b = Some c \<and> e \<in> set (art_list c))"
proof -
  have "e \<in> set (art_list n) \<longleftrightarrow> (\<exists>x\<in>set (iter_children n). e \<in> set (art_list (snd x)))"
    by (simp add: art_list_node [OF node_ok_interior [OF assms]])
  also have "\<dots> \<longleftrightarrow> (\<exists>b c. (b, c) \<in> set (iter_children n) \<and> e \<in> set (art_list c))" by force
  finally show ?thesis unfolding art.children_iff [OF assms] .
qed

lemma art_list_prefix: "art_ok path n \<Longrightarrow> (k, v) \<in> set (art_list n) \<Longrightarrow> prefix path k"
proof (induction arbitrary: k v rule: art_ok.induct)
  case (ok_leaf path leaf)
  then show ?case by (simp add: leaf_entry_def)
next
  case (ok_node n path)
  then obtain b c where c: "find_child n b = Some c" "(k, v) \<in> set (art_list c)"
    using art_list_children [OF ok_node(1)] by blast
  then have "prefix (path @ art_prefix n @ [b]) k" using ok_node(4) c by blast
  then show ?case by (auto elim!: prefixE)
qed

lemma sorted_concat_children:
  assumes "sorted_wrt (<) (map fst xs)"
    "\<forall>(b, c)\<in>set xs. sorted_wrt (<) (map fst (g c)) \<and> (\<forall>(k, v)\<in>set (g c). prefix (q @ [b]) k)"
  shows "sorted_wrt (<) (map fst (concat (map (\<lambda>x. g (snd x)) xs)) :: bytes list)"
  using assms
proof (induction xs)
  case (Cons x xs)
  obtain b c where x: "x = (b, c)" by (cases x)
  have ih: "sorted_wrt (<) (map fst (concat (map (\<lambda>x. g (snd x)) xs)))" using Cons by simp
  have "k < k'" if "(k, v) \<in> set (g c)" "(b', c') \<in> set xs" "(k', v') \<in> set (g c')" for k v b' c' k' v'
  proof -
    have "b < b'" using Cons.prems(1) that(2) x by force
    moreover have "prefix (q @ [b]) k" "prefix (q @ [b']) k'" using Cons.prems(2) that x by auto
    ultimately show ?thesis by (rule branch_less)
  qed
  then have "\<forall>k\<in>set (map fst (g c)). \<forall>k'\<in>set (map fst (concat (map (\<lambda>x. g (snd x)) xs))). k < k'"
    by fastforce
  then show ?case using ih Cons.prems(2) x by (simp add: sorted_wrt_append)
qed simp

lemma art_list_sorted: "art_ok path n \<Longrightarrow> sorted_wrt (<) (map fst (art_list n))"
proof (induction rule: art_ok.induct)
  case (ok_node n path)
  have "\<forall>(b, c)\<in>set (iter_children n). sorted_wrt (<) (map fst (art_list c))
      \<and> (\<forall>(k, v)\<in>set (art_list c). prefix ((path @ art_prefix n) @ [b]) k)"
    using ok_node(3,4) art_list_prefix art.children_iff [OF ok_node(1)] by fastforce
  then show ?case
    using sorted_concat_children [OF art.children_sorted [OF ok_node(1)], of art_list "path @ art_prefix n"]
      art_list_node [OF node_ok_interior [OF ok_node(1)]] by simp
qed simp

lemma art_list_look:
  "art_ok path n \<Longrightarrow> (path @ s, v) \<in> set (art_list n) \<longleftrightarrow> look path n s = Some v"
proof (induction arbitrary: s rule: art_ok.induct)
  case (ok_leaf path leaf)
  then show ?case by (auto simp: leaf_entry_def look_leaf)
next
  case (ok_node n path)
  let ?p = "art_prefix n"
  note set = art_list_children [OF ok_node(1), of "(path @ s, v)"]
  have look: "look path n s = Some v \<longleftrightarrow> (\<exists>b r c. s = ?p @ b # r \<and> find_child n b = Some c
      \<and> look (path @ ?p @ [b]) c r = Some v)"
  proof -
    have "branch ?p (below path n) s = Some v \<longleftrightarrow> (\<exists>b r. s = ?p @ b # r \<and> below path n b r = Some v)"
      by (rule branch_eq_Some)
    also have "\<dots> \<longleftrightarrow> (\<exists>b r c. s = ?p @ b # r \<and> find_child n b = Some c
        \<and> look (path @ ?p @ [b]) c r = Some v)"
    proof -
      have "below path n b r = Some v
          \<longleftrightarrow> (\<exists>c. find_child n b = Some c \<and> look (path @ ?p @ [b]) c r = Some v)" for b r
        by (cases "find_child n b") (simp_all add: below_def look_slot_def)
      then show ?thesis by (simp only: ex_simps)
    qed
    finally show ?thesis unfolding look_node [OF node_ok_interior [OF ok_node(1)]] .
  qed
  show ?case
  proof
    assume "(path @ s, v) \<in> set (art_list n)"
    then obtain b c where c: "find_child n b = Some c" "(path @ s, v) \<in> set (art_list c)"
      unfolding set by (elim exE conjE)
    from art_list_prefix [OF ok_node(3) [OF c(1)] c(2)]
    obtain r where r: "s = ?p @ b # r" by (auto elim: prefixE)
    have "look (path @ ?p @ [b]) c r = Some v" using ok_node(4) [OF c(1), of r] c(2) r by simp
    then show "look path n s = Some v" unfolding look using r c(1) by (intro exI conjI)
  next
    assume "look path n s = Some v"
    then obtain b r c where c: "s = ?p @ b # r" "find_child n b = Some c" "look (path @ ?p @ [b]) c r = Some v"
      unfolding look by (elim exE conjE)
    have "(path @ s, v) \<in> set (art_list c)" using ok_node(4) [OF c(2), of r] c(1,3) by simp
    then show "(path @ s, v) \<in> set (art_list n)" unfolding set using c(2) by (intro exI conjI)
  qed
qed

lemma collect_sorted_map:
  assumes "art_tree_ok t"
  shows "sorted_wrt (<) (map fst (art_collect (art_iter t)))"
    "map_of (art_collect (art_iter t)) = art_get t"
proof -
  have "sorted_wrt (<) (map fst (art_collect (art_iter t))) \<and> map_of (art_collect (art_iter t)) k = art_get t k" for k
  proof (cases "art_root t")
    case None
    then show ?thesis by (simp add: art_collect_tree art_get_def)
  next
    case (Some n)
    have ok: "art_ok [] n" using assms Some by (simp add: art_tree_ok_def slot_ok_def)
    have s: "sorted_wrt (<) (map fst (art_list n))" by (rule art_list_sorted [OF ok])
    then have "distinct (map fst (art_list n))" by (simp add: strict_sorted_iff)
    then have "map_of (art_list n) k = Some v \<longleftrightarrow> look [] n k = Some v" for v
      using art_list_look [OF ok, of k v] by (simp add: map_of_eq_Some_iff)
    then have "map_of (art_list n) k = look [] n k" by (metis not_Some_eq)
    then show ?thesis using s Some by (simp add: art_collect_tree art_get_look look_slot_def)
  qed
  then show "sorted_wrt (<) (map fst (art_collect (art_iter t)))"
    "map_of (art_collect (art_iter t)) = art_get t" by (auto simp: fun_eq_iff)
qed

section \<open>Removal and iteration\<close>

lemma art_list_compress: "node_ok n \<Longrightarrow> art_list (compress n r) = art_list n"
proof (cases "child_count n = 1 \<and> r \<noteq> None")
  case True
  moreover assume ok: "node_ok n"
  ultimately obtain x where x: "iter_children n = [x]"
    using art.count_children [OF ok] by (auto simp: length_Suc_conv)
  then show ?thesis using True art_list_node [OF node_ok_interior [OF ok]] by (cases x) (simp add: compress_def)
next
  case False
  then show ?thesis by (auto simp: compress_def)
qed

definition slot_list :: "'v art_node option \<Rightarrow> (bytes \<times> 'v) list" where
  "slot_list slot = (case slot of None \<Rightarrow> [] | Some n \<Rightarrow> art_list n)"

definition drop_key :: "bytes \<Rightarrow> (bytes \<times> 'v) list \<Rightarrow> (bytes \<times> 'v) list" where
  "drop_key k = filter (\<lambda>(q, _). q \<noteq> k)"

lemma drop_key_absent: "(\<And>v. (k, v) \<notin> set xs) \<Longrightarrow> drop_key k xs = xs"
  unfolding drop_key_def by (rule filter_True) auto

lemma drop_key_append [simp]: "drop_key k (xs @ ys) = drop_key k xs @ drop_key k ys"
  by (simp add: drop_key_def)

lemma drop_key_node:
  assumes ok: "art_ok path n" "as_leaf n = None" and k: "k = path @ art_prefix n @ b # r"
    and split: "iter_children n = xs @ (b, c) # ys"
  shows "drop_key k (art_list n) = concat (map (\<lambda>x. art_list (snd x)) xs) @ drop_key k (art_list c)
    @ concat (map (\<lambda>x. art_list (snd x)) ys)"
proof -
  have nok: "node_ok n" by (rule art_ok_interior(1) [OF ok])
  have absent: "(k, v) \<notin> set (art_list c')" if "(b', c') \<in> set (xs @ ys)" for b' c' v
  proof
    assume "(k, v) \<in> set (art_list c')"
    have "(b', c') \<in> set (iter_children n)" unfolding split using that by auto
    then have "art_ok (path @ art_prefix n @ [b']) c'"
      using art_ok_interior(3) [OF ok] art.children_iff [OF nok] by simp
    from art_list_prefix [OF this \<open>(k, v) \<in> set (art_list c')\<close>] have "b' = b" by (simp add: k)
    moreover have "distinct (map fst (xs @ (b, c) # ys))"
      using art.children_sorted [OF nok] unfolding split by (simp add: strict_sorted_iff)
    then have "b \<notin> fst ` set (xs @ ys)" by auto
    ultimately show False using that by (metis fst_conv image_eqI)
  qed
  have keep: "drop_key k (concat (map (\<lambda>x. art_list (snd x)) zs)) = concat (map (\<lambda>x. art_list (snd x)) zs)"
    if zs: "set zs \<subseteq> set (xs @ ys)" for zs
  proof (rule drop_key_absent, rule notI)
    fix v assume "(k, v) \<in> set (concat (map (\<lambda>x. art_list (snd x)) zs))"
    then obtain x where "x \<in> set zs" "(k, v) \<in> set (art_list (snd x))" by auto
    then show False using absent [of "fst x" "snd x" v] zs by auto
  qed
  have "drop_key k (concat (map (\<lambda>x. art_list (snd x)) xs)) = concat (map (\<lambda>x. art_list (snd x)) xs)"
    "drop_key k (concat (map (\<lambda>x. art_list (snd x)) ys)) = concat (map (\<lambda>x. art_list (snd x)) ys)"
    by (rule keep, simp)+
  then show ?thesis unfolding art_list_node [OF ok(2)] split by simp
qed

lemma remove_recursive_list:
  "art_ok path n \<Longrightarrow> k = path @ s \<Longrightarrow>
     slot_list (snd (remove_recursive (Some n) k (length path))) = drop_key k (art_list n)"
proof (induction "length s" arbitrary: path n s rule: less_induct)
  case less
  note ok = less.prems(1) and k = less.prems(2)
  show ?case
  proof (cases "as_leaf n")
    case (Some leaf)
    then have n: "n = Leaf leaf" by (simp add: as_leaf_Some)
    show ?thesis by (auto simp: n remove_recursive.simps slot_list_def drop_key_def leaf_entry_def)
  next
    case leaf: None
    let ?p = "art_prefix n"
    show ?thesis
    proof (cases "\<exists>b r c. s = ?p @ b # r \<and> find_child n b = Some c")
      case False
      have "remove_recursive (Some n) k (length path) = (None, Some n)"
        using remove_unfound [OF leaf False] k by simp
      moreover have "look path n s = None" using look_unfound [OF leaf False] .
      then have "(k, v) \<notin> set (art_list n)" for v using art_list_look [OF ok, of s v] k by simp
      ultimately show ?thesis by (simp add: slot_list_def drop_key_absent)
    next
      case True
      then obtain b r c where s: "s = ?p @ b # r" and c: "find_child n b = Some c" by blast
      have nok: "node_ok n" by (rule art_ok_interior(1) [OF ok leaf])
      define res where "res = remove_recursive (Some c) k (length path + length ?p + 1)"
      define m where "m = (case snd res of Some c' \<Rightarrow> insert_child (snd (remove_child n b)) b c'
        | None \<Rightarrow> snd (remove_child n b))"
      have i: "remove_recursive (Some n) k (length path) = (fst res, Some (compress m (fst res)))"
        using remove_found [OF ok leaf s c] unfolding res_def m_def k Let_def .
      have "k = (path @ ?p @ [b]) @ r" using k s by simp
      then have ih: "slot_list (snd res) = drop_key k (art_list c)"
        using less.hyps [of r "path @ ?p @ [b]" c] art_ok_interior(3) [OF ok leaf c] s
        unfolding res_def by simp
      obtain xs ys where ch: "iter_children n = xs @ (b, c) # ys"
          "iter_children (snd (remove_child n b)) = xs @ ys"
          "\<And>c'. iter_children (insert_child (snd (remove_child n b)) b c') = xs @ (b, c') # ys"
        using art.children_at [OF nok c] by blast
      have mok: "node_ok m"
        using art.rem_ok [OF nok] art.put_back(1) [OF nok c] by (auto simp: m_def split: option.splits)
      have "art_list m = concat (map (\<lambda>x. art_list (snd x)) xs) @ slot_list (snd res)
          @ concat (map (\<lambda>x. art_list (snd x)) ys)"
        using ch(2,3) art_list_node [OF node_ok_interior [OF mok]]
        by (cases "snd res") (simp_all add: m_def slot_list_def)
      also have "\<dots> = drop_key k (art_list n)"
        using drop_key_node [OF ok leaf _ ch(1), of k r] ih k s by simp
      finally show ?thesis unfolding i using art_list_compress [OF mok] by (simp add: slot_list_def)
    qed
  qed
qed

section \<open>Properties\<close>

lemma collect_entries:
  assumes "art_tree_ok t"
  shows "(k, v) \<in> set (art_collect (art_iter t)) \<longleftrightarrow> art_get t k = Some v"
proof -
  have "distinct (map fst (art_collect (art_iter t)))"
    using collect_sorted_map(1) [OF assms] by (simp add: strict_sorted_iff)
  then show ?thesis unfolding collect_sorted_map(2) [OF assms, symmetric] by (simp add: map_of_eq_Some_iff)
qed

text \<open>C38:
  Iteration is ordered and complete. On every well-formed tree the iterator ends and yields the
  keys in strictly increasing lexicographic order, each key with the value lookup returns, and
  a range scan yields exactly the entries of its range.
\<close>

theorem art_iteration_ordered:
  assumes "art_tree_ok t"
  shows "sorted_wrt (<) (map fst (art_collect (art_iter t)))
    \<and> ((k, v) \<in> set (art_collect (art_iter t)) \<longleftrightarrow> art_get t k = Some v)
    \<and> ((k, v) \<in> set (art_range_scan t start stop) \<longleftrightarrow> art_get t k = Some v \<and> start \<le> k \<and> k < stop)
    \<and> ((k, v) \<in> set (art_range t start None) \<longleftrightarrow> art_get t k = Some v \<and> start \<le> k)"
  using collect_sorted_map(1) [OF assms] collect_entries [OF assms, of k v]
  by (auto simp: art_range_scan_def art_range_def)

theorem art_iteration_ordered_witness:
  "sorted_wrt (<) (map fst (art_collect (art_iter art_sample)))
     \<and> ([97, 98, 50], 2) \<in> set (art_range_scan art_sample [97, 98] [97, 99])"
proof -
  have ok: "art_tree_ok art_sample" unfolding art_sample_def by (rule art_inserts_ok)
  have "art_get art_sample [97, 98, 50] = Some 2" by code_simp
  then show ?thesis using art_iteration_ordered [OF ok, of "[97, 98, 50]" 2 "[97, 98]" "[97, 99]"]
    by simp
qed

lemma remove_collect:
  assumes "art_tree_ok t"
  shows "art_collect (art_iter (snd (art_remove t k))) = filter (\<lambda>(q, _). q \<noteq> k) (art_collect (art_iter t))"
proof (cases "art_root t")
  case None
  then show ?thesis by (simp add: art_collect_tree art_remove_def remove_recursive.simps)
next
  case (Some n)
  have "art_ok [] n" using assms Some by (simp add: art_tree_ok_def slot_ok_def)
  from remove_recursive_list [OF this, of k k]
  have "slot_list (snd (remove_recursive (Some n) k 0)) = drop_key k (art_list n)" by simp
  then show ?thesis using Some
    by (simp add: art_collect_tree art_remove_def split_def slot_list_def drop_key_def Let_def
        split: option.splits)
qed

text \<open>C39:
  Removal deletes one entry from the iteration. After removing any key from a well-formed tree
  the iterator yields the same entries in the same order without that key, also where the
  removal has made other keys unreachable to lookup.
\<close>

theorem remove_keeps_iteration:
  assumes "art_tree_ok t"
  shows "art_collect (art_iter (snd (art_remove t k))) = filter (\<lambda>(q, _). q \<noteq> k) (art_collect (art_iter t))"
  using remove_collect [OF assms] .

theorem remove_keeps_iteration_witness:
  "([97, 98, 49], 1) \<in> set (art_collect (art_iter (snd (art_remove art_sample [97, 99]))))
     \<and> art_get (snd (art_remove art_sample [97, 99])) [97, 98, 49] = None"
proof -
  have ok: "art_tree_ok art_sample" unfolding art_sample_def by (rule art_inserts_ok)
  have "art_get art_sample [97, 98, 49] = Some 1"
    "art_get (snd (art_remove art_sample [97, 99])) [97, 98, 49] = None" by code_simp+
  then show ?thesis using remove_keeps_iteration [OF ok, of "[97, 99]"] collect_entries [OF ok] by simp
qed

end
