(* ===== verification/Join.thy ===== *)
theory Join
  imports Core "HOL-Library.Multiset" "HOL-Library.List_Lexorder" "HOL-Library.Product_Lexorder"
begin

text \<open>
  The join algorithms (\<open>cendb-executor/src/join.rs\<close>): equality and order of values with the
  treatment of nulls, the hash join with its hash function as a parameter, the nested-loop join,
  the sort-merge join, and the selection of a method. The order of values is an instance of the
  library's linear orders.
\<close>

type_synonym row = "cen_value list"

section \<open>Equality and order of values\<close>

datatype ordering = Less | Equal | Greater

definition cmp_of :: "'a::linorder \<Rightarrow> 'a \<Rightarrow> ordering" where
  "cmp_of x y = (if x < y then Less else if x = y then Equal else Greater)"

text \<open>The signed integer that \<open>f64::total_cmp\<close> compares, from the bits of a float.\<close>

definition total_key :: "u64 \<Rightarrow> int" where
  "total_key b = sint (if bit b 63 then b XOR mask 63 else b)"

fun value_eq :: "cen_value \<Rightarrow> cen_value \<Rightarrow> bool" where
  "value_eq (VBool x) (VBool y) = (x = y)"
| "value_eq (VI64 x) (VI64 y) = (x = y)"
| "value_eq (VU64 x) (VU64 y) = (x = y)"
| "value_eq (VF64 x) (VF64 y) = (x = y)"
| "value_eq (VBytes x) (VBytes y) = (x = y)"
| "value_eq (VTimestamp x) (VTimestamp y) = (x = y)"
| "value_eq _ _ = False"

fun kind_tag :: "cen_value \<Rightarrow> nat" where
  "kind_tag VNull = 0"
| "kind_tag (VBool _) = 1"
| "kind_tag (VI64 _) = 2"
| "kind_tag (VU64 _) = 3"
| "kind_tag (VF64 _) = 4"
| "kind_tag (VBytes _) = 5"
| "kind_tag (VTimestamp _) = 6"

fun value_cmp :: "cen_value \<Rightarrow> cen_value \<Rightarrow> ordering" where
  "value_cmp VNull VNull = Equal"
| "value_cmp VNull _ = Less"
| "value_cmp _ VNull = Greater"
| "value_cmp (VBool x) (VBool y) = cmp_of x y"
| "value_cmp (VI64 x) (VI64 y) = cmp_of (sint x) (sint y)"
| "value_cmp (VU64 x) (VU64 y) = cmp_of x y"
| "value_cmp (VF64 x) (VF64 y) = cmp_of (total_key x) (total_key y)"
| "value_cmp (VBytes x) (VBytes y) = cmp_of x y"
| "value_cmp (VTimestamp x) (VTimestamp y) = cmp_of (sint x) (sint y)"
| "value_cmp a b = cmp_of (kind_tag a) (kind_tag b)"

definition is_null_key :: "cen_value option \<Rightarrow> bool" where
  "is_null_key v \<longleftrightarrow> v = None \<or> v = Some VNull"

definition row_get :: "row \<Rightarrow> nat \<Rightarrow> cen_value option" where
  "row_get row c = (if c < length row then Some (row ! c) else None)"

section \<open>The joins\<close>

text \<open>The build side in order, with the indices of the rows that have a key.\<close>

definition build_table :: "(cen_value \<Rightarrow> u64) \<Rightarrow> row list \<Rightarrow> nat \<Rightarrow> u64 \<Rightarrow> nat list option" where
  "build_table value_hash build build_col =
     fold (\<lambda>(i, row) table.
         case row_get row build_col of
           Some v \<Rightarrow> if v = VNull then table
             else table(value_hash v \<mapsto> (case table (value_hash v) of Some is \<Rightarrow> is @ [i] | None \<Rightarrow> [i]))
         | None \<Rightarrow> table)
       (enumerate 0 build) Map.empty"

definition probe_row_matches ::
    "(cen_value \<Rightarrow> u64) \<Rightarrow> (u64 \<Rightarrow> nat list option) \<Rightarrow> row list \<Rightarrow> nat \<Rightarrow> nat \<Rightarrow> bool \<Rightarrow> row \<Rightarrow> row list" where
  "probe_row_matches value_hash table build build_col probe_col build_is_left probe_row =
     (case row_get probe_row probe_col of
        Some probe_key \<Rightarrow>
          if probe_key = VNull then []
          else (case table (value_hash probe_key) of
                  None \<Rightarrow> []
                | Some build_indices \<Rightarrow>
                    concat (map (\<lambda>bi.
                      let build_row = build ! bi;
                          build_key = the (row_get build_row build_col)
                      in if value_eq build_key probe_key
                         then [if build_is_left then build_row @ probe_row else probe_row @ build_row]
                         else []) build_indices))
      | None \<Rightarrow> [])"

definition hash_join ::
    "(cen_value \<Rightarrow> u64) \<Rightarrow> row list \<Rightarrow> row list \<Rightarrow> nat \<Rightarrow> nat \<Rightarrow> row list" where
  "hash_join value_hash left right left_col right_col =
     (if length left \<le> length right
      then concat (map (probe_row_matches value_hash (build_table value_hash left left_col)
             left left_col right_col True) right)
      else concat (map (probe_row_matches value_hash (build_table value_hash right right_col)
             right right_col left_col False) left))"

definition nested_loop_join :: "row list \<Rightarrow> row list \<Rightarrow> (row \<Rightarrow> row \<Rightarrow> bool) \<Rightarrow> row list" where
  "nested_loop_join left right predicate =
     concat (map (\<lambda>l. concat (map (\<lambda>r. if predicate l r then [l @ r] else []) right)) left)"

text \<open>The end of the run of rows from a position whose key equals a value.\<close>

definition run_end :: "row list \<Rightarrow> nat \<Rightarrow> cen_value \<Rightarrow> nat \<Rightarrow> nat" where
  "run_end rows col v from =
     from + length (takeWhile (\<lambda>row. case row_get row col of
       Some w \<Rightarrow> w \<noteq> VNull \<and> value_cmp w v = Equal | None \<Rightarrow> False) (drop from rows))"

function merge_loop :: "row list \<Rightarrow> row list \<Rightarrow> nat \<Rightarrow> nat \<Rightarrow> nat \<Rightarrow> nat \<Rightarrow> row list" where
  "merge_loop left right left_col right_col i j =
     (if i < length left \<and> j < length right
      then
        if is_null_key (row_get (left ! i) left_col)
        then merge_loop left right left_col right_col (i + 1) j
        else if is_null_key (row_get (right ! j) right_col)
        then merge_loop left right left_col right_col i (j + 1)
        else
          let l_val = the (row_get (left ! i) left_col);
              r_val = the (row_get (right ! j) right_col)
          in (case value_cmp l_val r_val of
                Less \<Rightarrow> merge_loop left right left_col right_col (i + 1) j
              | Greater \<Rightarrow> merge_loop left right left_col right_col i (j + 1)
              | Equal \<Rightarrow>
                  let left_end = run_end left left_col l_val (i + 1);
                      right_end = run_end right right_col r_val (j + 1)
                  in concat (map (\<lambda>li. map (\<lambda>rj. left ! li @ right ! rj) [j..<right_end]) [i..<left_end])
                     @ merge_loop left right left_col right_col left_end right_end)
      else [])"
  by pat_completeness auto
termination
  by (relation "measure (\<lambda>(left, right, _, _, i, j). (length left - i) + (length right - j))")
    (auto simp: run_end_def)

definition merge_join :: "row list \<Rightarrow> row list \<Rightarrow> nat \<Rightarrow> nat \<Rightarrow> row list" where
  "merge_join left right left_col right_col =
     (if left = [] \<or> right = [] then [] else merge_loop left right left_col right_col 0 0)"

datatype join_method = HashJoin | NestedLoop | MergeJoin

text \<open>The equality predicate of an equi-join.\<close>

definition keys_match :: "nat \<Rightarrow> nat \<Rightarrow> row \<Rightarrow> row \<Rightarrow> bool" where
  "keys_match left_col right_col l r =
     (case (row_get l left_col, row_get r right_col) of
        (Some a, Some b) \<Rightarrow> value_eq a b
      | _ \<Rightarrow> False)"

definition join_rows ::
    "(cen_value \<Rightarrow> u64) \<Rightarrow> row list \<Rightarrow> row list \<Rightarrow> nat \<Rightarrow> nat \<Rightarrow> join_method \<Rightarrow> row list" where
  "join_rows value_hash left right left_col right_col method =
     (case method of
        HashJoin \<Rightarrow> hash_join value_hash left right left_col right_col
      | NestedLoop \<Rightarrow> nested_loop_join left right (keys_match left_col right_col)
      | MergeJoin \<Rightarrow> merge_join left right left_col right_col)"

definition auto_select_method :: "bool \<Rightarrow> bool \<Rightarrow> nat \<Rightarrow> nat \<Rightarrow> join_method" where
  "auto_select_method left_sorted right_sorted left_rows right_rows =
     (if left_sorted \<and> right_sorted then MergeJoin
      else if left_rows < 10000 \<or> right_rows < 10000 then HashJoin
      else NestedLoop)"

definition auto_join ::
    "(cen_value \<Rightarrow> u64) \<Rightarrow> row list \<Rightarrow> row list \<Rightarrow> nat \<Rightarrow> nat \<Rightarrow> bool \<Rightarrow> bool \<Rightarrow> row list" where
  "auto_join value_hash left right left_col right_col left_sorted right_sorted =
     join_rows value_hash left right left_col right_col
       (auto_select_method left_sorted right_sorted (length left) (length right))"

declare merge_loop.simps [simp del]

section \<open>The order of values\<close>

text \<open>The order compares the kind, then a number, then a string.\<close>

fun order_key :: "cen_value \<Rightarrow> nat \<times> int \<times> bytes" where
  "order_key VNull = (0, 0, [])"
| "order_key (VBool b) = (1, of_bool b, [])"
| "order_key (VI64 i) = (2, sint i, [])"
| "order_key (VU64 u) = (3, uint u, [])"
| "order_key (VF64 f) = (4, total_key f, [])"
| "order_key (VBytes b) = (5, 0, b)"
| "order_key (VTimestamp t) = (6, sint t, [])"

lemma total_key_inj: "total_key a = total_key b \<longleftrightarrow> a = b"
proof
  assume a: "total_key a = total_key b"
  have s: "(if bit a 63 then a XOR mask 63 else a) = (if bit b 63 then b XOR mask 63 else b)"
    using a unfolding total_key_def by (simp add: signed_word_eqI)
  have top: "bit (x XOR mask 63) 63 = bit x 63" for x :: u64 by (simp add: bit_xor_iff bit_mask_iff)
  show "a = b"
    using s top [of a] top [of b] xor_cancel_right [of a "mask 63" b] by (auto split: if_splits)
qed simp

lemma sint_eq_iff: "sint (a :: 64 word) = sint b \<longleftrightarrow> a = b"
  by (auto intro: signed_word_eqI)

lemma uint_eq_iff: "uint (a :: 64 word) = uint b \<longleftrightarrow> a = b"
  by (auto intro: unsigned_word_eqI)

lemma order_key_inj: "order_key a = order_key b \<longleftrightarrow> a = b"
  by (cases a; cases b) (auto simp: total_key_inj sint_eq_iff uint_eq_iff)

lemma value_cmp_key: "value_cmp a b = cmp_of (order_key a) (order_key b)"
  by (cases a; cases b) (auto simp: cmp_of_def total_key_inj sint_eq_iff uint_eq_iff word_less_def of_bool_def)

instantiation cen_value :: linorder
begin

definition less_eq_cen_value :: "cen_value \<Rightarrow> cen_value \<Rightarrow> bool" where
  "less_eq_cen_value a b \<longleftrightarrow> value_cmp a b \<noteq> Greater"

definition less_cen_value :: "cen_value \<Rightarrow> cen_value \<Rightarrow> bool" where
  "less_cen_value a b \<longleftrightarrow> value_cmp a b = Less"

instance
proof
  fix x y z :: cen_value
  have le: "x \<le> y \<longleftrightarrow> order_key x \<le> order_key y" for x y
    by (auto simp: less_eq_cen_value_def value_cmp_key cmp_of_def)
  have lt: "x < y \<longleftrightarrow> order_key x < order_key y" for x y
    by (auto simp: less_cen_value_def value_cmp_key cmp_of_def)
  show "(x < y) = (x \<le> y \<and> \<not> y \<le> x)" by (auto simp: le lt)
  show "x \<le> x" by (simp add: le)
  show "x \<le> y \<Longrightarrow> y \<le> z \<Longrightarrow> x \<le> z" by (simp add: le)
  show "x \<le> y \<Longrightarrow> y \<le> x \<Longrightarrow> x = y" using order_key_inj by (simp add: le)
  show "x \<le> y \<or> y \<le> x" by (simp add: le linear)
qed

end

section \<open>The joins against the nested loop\<close>

text \<open>The key of a row, a missing column read as a null.\<close>

definition row_key :: "nat \<Rightarrow> row \<Rightarrow> cen_value" where
  "row_key c row = (case row_get row c of Some v \<Rightarrow> v | None \<Rightarrow> VNull)"

lemma value_eq_iff: "value_eq a b \<longleftrightarrow> a = b \<and> a \<noteq> VNull"
  by (cases a; cases b) auto

lemma keys_match_iff: "keys_match lc rc l r \<longleftrightarrow> row_key lc l \<noteq> VNull \<and> row_key lc l = row_key rc r"
  by (auto simp: keys_match_def row_key_def value_eq_iff split: option.splits)

lemma is_null_key_iff: "is_null_key (row_get row c) \<longleftrightarrow> row_key c row = VNull"
  by (auto simp: is_null_key_def row_key_def split: option.splits)

lemma is_null_key_Some: "is_null_key (Some v) \<longleftrightarrow> v = VNull"
  by (auto simp: is_null_key_def)

lemma row_key_get: "row_key c row \<noteq> VNull \<Longrightarrow> row_get row c = Some (row_key c row)"
  by (auto simp: row_key_def split: option.splits)

lemma value_cmp_less: "value_cmp a b = Less \<longleftrightarrow> a < b"
  by (simp add: less_cen_value_def)

lemma value_cmp_equal: "value_cmp a b = Equal \<longleftrightarrow> a = b"
  by (simp add: value_cmp_key cmp_of_def order_key_inj)

lemma value_cmp_greater: "value_cmp a b = Greater \<longleftrightarrow> b < a"
  by (auto simp: less_cen_value_def value_cmp_key cmp_of_def)

lemma null_least: "VNull \<le> a"
  by (cases a) (simp_all add: less_eq_cen_value_def)

subsection \<open>The hash join\<close>

definition bucket :: "(u64 \<Rightarrow> nat list option) \<Rightarrow> u64 \<Rightarrow> nat list" where
  "bucket table h = (case table h of Some is \<Rightarrow> is | None \<Rightarrow> [])"

lemma build_table_snoc:
  "build_table vh (rows @ [row]) c =
     (case row_get row c of
        Some v \<Rightarrow> if v = VNull then build_table vh rows c
          else (build_table vh rows c)(vh v \<mapsto> bucket (build_table vh rows c) (vh v) @ [length rows])
      | None \<Rightarrow> build_table vh rows c)"
  by (simp add: build_table_def enumerate_append_eq bucket_def split: option.splits)

lemma bucket_build_table:
  "bucket (build_table vh rows c) h =
     filter (\<lambda>i. row_key c (rows ! i) \<noteq> VNull \<and> vh (row_key c (rows ! i)) = h) [0..<length rows]"
proof (induction rows rule: rev_induct)
  case Nil
  show ?case by (simp add: build_table_def bucket_def)
next
  case (snoc row rows)
  have "filter (\<lambda>i. row_key c ((rows @ [row]) ! i) \<noteq> VNull \<and> vh (row_key c ((rows @ [row]) ! i)) = h) [0..<length rows]
      = filter (\<lambda>i. row_key c (rows ! i) \<noteq> VNull \<and> vh (row_key c (rows ! i)) = h) [0..<length rows]"
    by (rule filter_cong) (auto simp: nth_append)
  then show ?case
    using snoc by (auto simp: build_table_snoc row_key_def bucket_def split: option.splits)
qed

lemma concat_filter_if:
  "concat (map f (filter P xs)) = concat (map (\<lambda>x. if P x then f x else []) xs)"
  by (induction xs) simp_all

lemma concat_map_filter_indices:
  "concat (map (\<lambda>i. f (xs ! i)) (filter (\<lambda>i. P (xs ! i)) [0..<length xs]))
     = concat (map (\<lambda>x. if P x then f x else []) xs)"
proof -
  have "concat (map (\<lambda>i. f (xs ! i)) (filter (\<lambda>i. P (xs ! i)) [0..<length xs]))
      = concat (map (\<lambda>i. if P (xs ! i) then f (xs ! i) else []) [0..<length xs])"
    by (rule concat_filter_if)
  also have "map (\<lambda>i. if P (xs ! i) then f (xs ! i) else []) [0..<length xs]
      = map (\<lambda>x. if P x then f x else []) xs"
    by (rule nth_equalityI) simp_all
  finally show ?thesis .
qed

lemma probe_row_matches_scan:
  "probe_row_matches vh (build_table vh build bc) build bc pc left probe =
     concat (map (\<lambda>b. if keys_match bc pc b probe then [if left then b @ probe else probe @ b] else []) build)"
proof (cases "row_key pc probe = VNull")
  case True
  then have "probe_row_matches vh (build_table vh build bc) build bc pc left probe = []"
    by (auto simp: probe_row_matches_def row_key_def split: option.splits)
  then show ?thesis using True by (simp add: keys_match_iff)
next
  case False
  let ?k = "row_key pc probe"
  let ?f = "\<lambda>b. if value_eq (the (row_get b bc)) ?k then [if left then b @ probe else probe @ b] else []"
  have "probe_row_matches vh (build_table vh build bc) build bc pc left probe
      = concat (map (\<lambda>i. ?f (build ! i)) (bucket (build_table vh build bc) (vh ?k)))"
    using False row_key_get [of pc probe]
    by (simp add: probe_row_matches_def bucket_def Let_def split: option.splits)
  also have "\<dots> = concat (map (\<lambda>b. if row_key bc b \<noteq> VNull \<and> vh (row_key bc b) = vh ?k then ?f b else []) build)"
    unfolding bucket_build_table by (rule concat_map_filter_indices)
  also have "\<dots> = concat (map (\<lambda>b. if keys_match bc pc b probe then [if left then b @ probe else probe @ b] else []) build)"
    using False by (intro arg_cong [of _ _ concat] map_cong)
      (auto simp: keys_match_iff value_eq_iff row_key_get)
  finally show ?thesis .
qed

lemma probe_scan_fun:
  "probe_row_matches vh (build_table vh build bc) build bc pc left =
     (\<lambda>probe. concat (map (\<lambda>b. if keys_match bc pc b probe then [if left then b @ probe else probe @ b] else []) build))"
  by (rule ext) (rule probe_row_matches_scan)

lemma keys_match_sym: "keys_match a b l r \<longleftrightarrow> keys_match b a r l"
  by (auto simp: keys_match_iff)

lemma mset_concat_swap:
  "mset (concat (map (\<lambda>r. concat (map (\<lambda>l. f l r) ls)) rs)) = mset (concat (map (\<lambda>l. concat (map (f l) rs)) ls))"
proof (induction rs)
  case (Cons r rs)
  have "mset (concat (map (\<lambda>l. f l r @ concat (map (f l) rs)) ls))
      = mset (concat (map (\<lambda>l. f l r) ls)) + mset (concat (map (\<lambda>l. concat (map (f l) rs)) ls))"
    by (induction ls) (simp_all add: ac_simps)
  then show ?case using Cons by simp
qed (induction ls; simp)

lemma hash_join_scan:
  "hash_join vh left right lc rc =
     (if length right < length left
      then concat (map (\<lambda>l. concat (map (\<lambda>r. if keys_match lc rc l r then [l @ r] else []) right)) left)
      else concat (map (\<lambda>r. concat (map (\<lambda>l. if keys_match lc rc l r then [l @ r] else []) left)) right))"
  by (simp add: hash_join_def probe_scan_fun keys_match_sym [of rc lc] cong: if_cong)

lemma hash_join_build_right:
  "length right < length left \<Longrightarrow>
     hash_join vh left right lc rc = nested_loop_join left right (keys_match lc rc)"
  by (simp add: hash_join_scan nested_loop_join_def)

lemma hash_join_multiset:
  "mset (hash_join vh left right lc rc) = mset (nested_loop_join left right (keys_match lc rc))"
proof (cases "length right < length left")
  case True
  then show ?thesis by (simp add: hash_join_build_right)
next
  case False
  then have "hash_join vh left right lc rc =
      concat (map (\<lambda>r. concat (map (\<lambda>l. if keys_match lc rc l r then [l @ r] else []) left)) right)"
    by (simp add: hash_join_scan)
  then show ?thesis
    using mset_concat_swap [of "\<lambda>l r. if keys_match lc rc l r then [l @ r] else []" left right]
    by (simp only: nested_loop_join_def)
qed

subsection \<open>The merge join\<close>

definition key_sorted :: "nat \<Rightarrow> row list \<Rightarrow> bool" where
  "key_sorted c rows = sorted (map (row_key c) rows)"

lemma nested_loop_append:
  "nested_loop_join (a @ b) right p = nested_loop_join a right p @ nested_loop_join b right p"
  by (simp add: nested_loop_join_def)

lemma nested_loop_none:
  assumes "\<And>l r. l \<in> set left \<Longrightarrow> r \<in> set right \<Longrightarrow> \<not> p l r"
  shows "nested_loop_join left right p = []"
  using assms by (simp add: nested_loop_join_def)

lemma nested_loop_skip_right:
  assumes "\<And>l r. l \<in> set left \<Longrightarrow> r \<in> set r1 \<Longrightarrow> \<not> p l r"
  shows "nested_loop_join left (r1 @ r2) p = nested_loop_join left r2 p"
  using assms by (induction left) (simp_all add: nested_loop_join_def)

lemma nested_loop_skip_right_end:
  assumes "\<And>l r. l \<in> set left \<Longrightarrow> r \<in> set r2 \<Longrightarrow> \<not> p l r"
  shows "nested_loop_join left (r1 @ r2) p = nested_loop_join left r1 p"
  using assms by (induction left) (simp_all add: nested_loop_join_def)

lemma nested_loop_all:
  assumes "\<And>l r. l \<in> set left \<Longrightarrow> r \<in> set right \<Longrightarrow> p l r"
  shows "nested_loop_join left right p = concat (map (\<lambda>l. map (\<lambda>r. l @ r) right) left)"
proof -
  have "concat (map (\<lambda>r. if p l r then [l @ r] else []) right) = map (\<lambda>r. l @ r) right"
    if "l \<in> set left" for l
    using assms [OF that] by (induction right) simp_all
  then show ?thesis by (simp add: nested_loop_join_def cong: map_cong)
qed

lemma run_end_takeWhile:
  assumes "v \<noteq> VNull"
  shows "run_end rows c v from = from + length (takeWhile (\<lambda>row. row_key c row = v) (drop from rows))"
proof -
  have "(\<lambda>row. case row_get row c of Some w \<Rightarrow> w \<noteq> VNull \<and> value_cmp w v = Equal | None \<Rightarrow> False)
      = (\<lambda>row. row_key c row = v)"
    using assms by (auto simp: row_key_def value_cmp_equal split: option.splits)
  then show ?thesis by (simp add: run_end_def)
qed

text \<open>A run: the rows from a position with the key of the first, and a rest with larger keys.\<close>

lemma run_split:
  assumes "key_sorted c (drop i rows)" "i < length rows" "row_key c (rows ! i) = v" "v \<noteq> VNull"
  defines "e \<equiv> run_end rows c v (i + 1)"
  shows "i < e" "e \<le> length rows"
    "\<And>x. x \<in> set (take (e - i) (drop i rows)) \<Longrightarrow> row_key c x = v"
    "\<And>x. x \<in> set (drop e rows) \<Longrightarrow> v < row_key c x"
proof -
  let ?P = "\<lambda>row. row_key c row = v"
  let ?rest = "drop (i + 1) rows"
  have d: "drop i rows = rows ! i # ?rest" using assms(2) by (simp add: Cons_nth_drop_Suc)
  have e: "e = i + 1 + length (takeWhile ?P ?rest)" using assms(4) by (simp add: e_def run_end_takeWhile)
  show "i < e" using e by simp
  show "e \<le> length rows" using e assms(2) length_takeWhile_le [of ?P ?rest] by simp
  have tk: "take (e - i) (drop i rows) = rows ! i # takeWhile ?P ?rest"
    unfolding d e by (simp add: takeWhile_eq_take [symmetric])
  show "row_key c x = v" if "x \<in> set (take (e - i) (drop i rows))" for x
    using that assms(3) unfolding tk by (auto dest: set_takeWhileD)
  have dr: "drop e rows = dropWhile ?P ?rest"
    unfolding e by (simp add: dropWhile_eq_drop add.commute)
  have s: "sorted (map (row_key c) (dropWhile ?P ?rest))" "\<forall>x\<in>set ?rest. v \<le> row_key c x"
    using assms(1,3) unfolding key_sorted_def d
    by (simp_all add: dropWhile_eq_drop drop_map [symmetric] del: drop_drop)
      (auto simp: drop_map simp del: drop_drop)
  show "v < row_key c x" if "x \<in> set (drop e rows)" for x
  proof (cases "dropWhile ?P ?rest")
    case (Cons y ys)
    have "row_key c y \<noteq> v" using Cons by (simp add: dropWhile_eq_Cons_conv)
    moreover have "y \<in> set ?rest" using set_dropWhileD [of y ?P ?rest] Cons by simp
    ultimately have "v < row_key c y" using s(2) by (metis order_le_less)
    then show ?thesis using that s(1) unfolding dr Cons by auto
  qed (use that in \<open>simp only: dr\<close>, simp)
qed

lemma key_sorted_drop: "key_sorted c (drop i rows) \<Longrightarrow> i \<le> e \<Longrightarrow> key_sorted c (drop e rows)"
  unfolding key_sorted_def
  by (metis drop_drop drop_map le_add_diff_inverse2 sorted_wrt_drop)

lemma map_nth_range: "e \<le> length xs \<Longrightarrow> map (\<lambda>i. f (xs ! i)) [b..<e] = map f (take (e - b) (drop b xs))"
  by (rule nth_equalityI) auto

lemma take_drop_split: "i \<le> e \<Longrightarrow> drop i xs = take (e - i) (drop i xs) @ drop e xs"
  by (metis append_take_drop_id drop_drop le_add_diff_inverse2)

text \<open>The step of the merge on two runs of an equal key.\<close>

lemma nested_run:
  assumes "key_sorted lc (drop i left)" "key_sorted rc (drop j right)" "i < length left" "j < length right"
    and "row_key lc (left ! i) = v" "row_key rc (right ! j) = v" "v \<noteq> VNull"
  defines "le \<equiv> run_end left lc v (i + 1)" and "re \<equiv> run_end right rc v (j + 1)"
  shows "nested_loop_join (drop i left) (drop j right) (keys_match lc rc) =
     concat (map (\<lambda>li. map (\<lambda>rj. left ! li @ right ! rj) [j..<re]) [i..<le])
     @ nested_loop_join (drop le left) (drop re right) (keys_match lc rc)"
proof -
  let ?p = "keys_match lc rc"
  define A where "A = take (le - i) (drop i left)"
  define B where "B = take (re - j) (drop j right)"
  note l = run_split [OF assms(1,3,5,7), folded le_def, folded A_def]
  note r = run_split [OF assms(2,4,6,7), folded re_def, folded B_def]
  have d: "drop i left = A @ drop le left" "drop j right = B @ drop re right"
    unfolding A_def B_def using l(1) r(1) by (simp_all add: take_drop_split)
  have "nested_loop_join A (B @ drop re right) ?p = nested_loop_join A B ?p"
    using l(3) r(4) by (intro nested_loop_skip_right_end) (force simp: keys_match_iff)
  also have "\<dots> = concat (map (\<lambda>l. map (\<lambda>r. l @ r) B) A)"
    using l(3) r(3) assms(7) by (intro nested_loop_all) (simp add: keys_match_iff)
  also have "\<dots> = concat (map (\<lambda>li. map (\<lambda>rj. left ! li @ right ! rj) [j..<re]) [i..<le])"
    unfolding A_def B_def
    by (simp add: map_nth_range [OF r(2)] map_nth_range [OF l(2), of "\<lambda>l. map ((@) l) (take (re - j) (drop j right))"])
  finally have run: "nested_loop_join A (B @ drop re right) ?p =
    concat (map (\<lambda>li. map (\<lambda>rj. left ! li @ right ! rj) [j..<re]) [i..<le])" .
  have "nested_loop_join (drop le left) (B @ drop re right) ?p = nested_loop_join (drop le left) (drop re right) ?p"
    using l(4) r(3) by (intro nested_loop_skip_right) (force simp: keys_match_iff)
  then show ?thesis unfolding d nested_loop_append run by simp
qed

lemma nested_skip_left:
  assumes "i < length left" "\<And>r. r \<in> set right \<Longrightarrow> \<not> p (left ! i) r"
  shows "nested_loop_join (drop i left) right p = nested_loop_join (drop (i + 1) left) right p"
  using assms by (simp add: nested_loop_join_def Cons_nth_drop_Suc [symmetric])

lemma nested_skip_right:
  assumes "j < length right" "\<And>l. l \<in> set left \<Longrightarrow> \<not> p l (right ! j)"
  shows "nested_loop_join left (drop j right) p = nested_loop_join left (drop (j + 1) right) p"
  using assms nested_loop_skip_right [of left "[right ! j]" p "drop (j + 1) right"]
  by (simp add: Cons_nth_drop_Suc)

lemma key_sorted_least:
  "key_sorted c (drop i rows) \<Longrightarrow> i < length rows \<Longrightarrow> x \<in> set (drop i rows) \<Longrightarrow> row_key c (rows ! i) \<le> row_key c x"
  unfolding key_sorted_def by (auto simp: Cons_nth_drop_Suc [symmetric])

lemma merge_loop_nested:
  assumes "key_sorted lc (drop i left)" "key_sorted rc (drop j right)"
  shows "merge_loop left right lc rc i j = nested_loop_join (drop i left) (drop j right) (keys_match lc rc)"
  using assms
proof (induction left right lc rc i j rule: merge_loop.induct)
  case (1 left right lc rc i j)
  let ?p = "keys_match lc rc" and ?l = "row_key lc (left ! i)" and ?r = "row_key rc (right ! j)"
  let ?J = "\<lambda>i j. nested_loop_join (drop i left) (drop j right) ?p"
  note sorted = "1.prems"
  note sl = key_sorted_drop [OF sorted(1)] and sr = key_sorted_drop [OF sorted(2)]
  show ?case
  proof (cases "i < length left \<and> j < length right")
    case False
    then show ?thesis by (subst merge_loop.simps) (auto simp: nested_loop_join_def)
  next
    case True
    note lmin = key_sorted_least [OF sorted(1)] and rmin = key_sorted_least [OF sorted(2)]
    consider "?l = VNull" | "?l \<noteq> VNull" "?r = VNull" | "?l \<noteq> VNull" "?r \<noteq> VNull" "?l < ?r"
      | "?l \<noteq> VNull" "?r \<noteq> VNull" "?r < ?l" | "?l \<noteq> VNull" "?r \<noteq> VNull" "?l = ?r"
      by force
    then show ?thesis
    proof cases
      case 1
      then have "?J i j = ?J (i + 1) j"
        using True by (intro nested_skip_left) (simp_all add: keys_match_iff)
      then show ?thesis using True 1 "1.IH"(1) sl sorted(2)
        by (subst merge_loop.simps) (simp add: is_null_key_iff)
    next
      case 2
      then have "?J i j = ?J i (j + 1)"
        using True by (intro nested_skip_right) (simp_all add: keys_match_iff)
      then show ?thesis using True 2 "1.IH"(2) sr sorted(1)
        by (subst merge_loop.simps) (simp add: is_null_key_iff)
    next
      case 3
      have "?J i j = ?J (i + 1) j"
        using True 3 rmin by (intro nested_skip_left) (force simp: keys_match_iff)+
      then show ?thesis using True 3 "1.IH"(3) sl sorted(2)
        by (subst merge_loop.simps) (simp add: is_null_key_iff is_null_key_Some row_key_get value_cmp_less [THEN iffD2])
    next
      case 4
      have "?J i j = ?J i (j + 1)"
        using True 4 lmin by (intro nested_skip_right) (force simp: keys_match_iff)+
      then show ?thesis using True 4 "1.IH"(5) sr sorted(1)
        by (subst merge_loop.simps) (simp add: is_null_key_iff is_null_key_Some row_key_get value_cmp_greater [THEN iffD2])
    next
      case 5
      let ?le = "run_end left lc ?l (i + 1)" and ?re = "run_end right rc ?l (j + 1)"
      have get: "row_get (left ! i) lc = Some ?l" "row_get (right ! j) rc = Some ?l"
        using 5 row_key_get [of rc "right ! j"] by (simp_all add: row_key_get)
      have eq: "value_cmp ?l ?l = Equal" by (simp add: value_cmp_equal)
      have "i \<le> ?le" "j \<le> ?re" by (simp_all add: run_end_def)
      then have ih: "merge_loop left right lc rc ?le ?re = ?J ?le ?re"
        using "1.IH"(4) [OF True _ _ refl refl _ refl refl] 5 eq
        by (simp add: get is_null_key_Some sl sr)
      show ?thesis
        unfolding nested_run [OF sorted True [THEN conjunct1] True [THEN conjunct2] refl 5(3) [symmetric] 5(1)]
        using True 5(1) eq by (subst merge_loop.simps) (simp only: get is_null_key_Some Let_def option.sel ih ordering.case simp_thms if_True if_False)
    qed
  qed
qed

lemma merge_join_nested:
  assumes "key_sorted lc left" "key_sorted rc right"
  shows "merge_join left right lc rc = nested_loop_join left right (keys_match lc rc)"
  using merge_loop_nested [of lc 0 left rc 0 right] assms
  by (auto simp: merge_join_def nested_loop_join_def)

section \<open>Properties\<close>

text \<open>
  On two inputs sorted by their join column (a null or missing key first, the order of
  \<open>value_cmp\<close>), the sort-merge join returns the very list the nested-loop join with the equality
  predicate returns: every run of duplicate keys on both sides gives its full cross product, null
  and missing keys match nothing, and the order of the rows is that of the nested loop.
\<close>

lemma merge_join_is_nested_loop:
  assumes "sorted (map (row_key left_col) left)" and "sorted (map (row_key right_col) right)"
  shows "merge_join left right left_col right_col
    = nested_loop_join left right (keys_match left_col right_col)"
  using assms by (intro merge_join_nested) (simp_all add: key_sorted_def)

lemma merge_join_is_nested_loop_witness:
  "merge_join [[VNull], [VI64 1], [VI64 1, VBool True], [VI64 3]] [[], [VI64 1], [VI64 1], [VI64 2]] 0 0
     = [[VI64 1, VI64 1], [VI64 1, VI64 1], [VI64 1, VBool True, VI64 1], [VI64 1, VBool True, VI64 1]]"
proof -
  let ?l = "[[VNull], [VI64 1], [VI64 1, VBool True], [VI64 3]]" and ?r = "[[], [VI64 1], [VI64 1], [VI64 2]]"
  have "sorted (map (row_key 0) ?l)" "sorted (map (row_key 0) ?r)"
    by (simp_all add: row_key_def row_get_def less_eq_cen_value_def cmp_of_def)
  from merge_join_is_nested_loop [OF this] show ?thesis
    by (simp add: nested_loop_join_def keys_match_def row_get_def)
qed

text \<open>C16:
  For every hash function of values, the join of every method returns the rows of the reference,
  the nested loop over all pairs with equal keys that are not null, each as often as the reference
  does: collisions never add or lose a row, whichever side is built. The merge join needs what the
  automatic selection is told, that both inputs are sorted; the flags of \<open>auto_join\<close> are the
  only thing it relies on.
\<close>

theorem auto_join_refines_nested_loop:
  assumes "left_sorted \<Longrightarrow> sorted (map (row_key left_col) left)"
    and "right_sorted \<Longrightarrow> sorted (map (row_key right_col) right)"
  shows "mset (auto_join value_hash left right left_col right_col left_sorted right_sorted)
    = mset (nested_loop_join left right (keys_match left_col right_col))"
  using assms
  by (auto simp: auto_join_def auto_select_method_def join_rows_def hash_join_multiset
      merge_join_nested key_sorted_def)

theorem auto_join_refines_nested_loop_witness:
  "mset (auto_join (\<lambda>_. 7) [[VI64 2], [VI64 1]] [[VNull], [VI64 1], [VI64 2], [VU64 1]] 0 0 False True)
     = {#[VI64 1, VI64 1], [VI64 2, VI64 2]#}"
proof -
  let ?r = "[[VNull], [VI64 1], [VI64 2], [VU64 1]]"
  have s: "sorted (map (row_key 0) ?r)"
    by (simp add: row_key_def row_get_def less_eq_cen_value_def cmp_of_def)
  show ?thesis
    using auto_join_refines_nested_loop [of False 0 "[[VI64 2], [VI64 1]]" True 0 ?r "\<lambda>_. 7"] s
    by (simp add: nested_loop_join_def keys_match_def row_get_def)
qed

end
