(* ===== verification/CenqlAst.thy ===== *)
theory CenqlAst
  imports CenPrelude
begin

text \<open>
  The syntax trees of the query language and their \<open>Display\<close> form
  (\<open>cendb-cenql/src/ast.rs\<close>). Strings are lists of UTF-8 bytes; a float literal is its bit
  pattern, and the decimal form of floats is an argument of the functions that print them.
\<close>

section \<open>Syntax trees\<close>

datatype binary_op = OpEq | OpNe | OpLt | OpLe | OpGt | OpGe | OpAnd | OpOr | OpAdd | OpSub | OpMul | OpDiv

datatype sort_dir = DirAsc | DirDesc

datatype join_kind = KindInner | KindLeft | KindRight | KindFull

datatype window_spec =
    Tumbling string
  | Hopping (hop_size: string) (hop_slide: string)
  | Session string

datatype edge_direction = EdgeOut | EdgeIn | EdgeBoth

record graph_match_pattern =
  start_var :: string
  start_label :: "string option"
  edge_type :: "string option"
  edge_min_hops :: u32
  edge_max_hops :: u32
  edge_dir :: edge_direction
  end_var :: string
  end_label :: "string option"

datatype expr =
    ExColumn string
  | ExI64 i64
  | ExF64 u64
  | ExStr string
  | ExBool bool
  | ExBinary binary_op expr expr
  | ExCall string "expr list"
  | ExIn expr cenql_pipeline
and agg_expr = AggExpr (agg_name: string) (agg_func: string) (agg_args: "expr list")
and cenql_stage =
    SgFrom string
  | SgFromSubquery cenql_pipeline
  | SgFilter expr
  | SgSelect "string list"
  | SgSort string sort_dir
  | SgTake u64
  | SgJoin string join_kind expr
  | SgGroupBy string "agg_expr list"
  | SgWindow window_spec string "agg_expr list"
  | SgMatch graph_match_pattern
  | SgReturn bool "string list"
and cenql_pipeline = Pipeline (stages: "cenql_stage list")

datatype column_type = CtI64 | CtF64 | CtStr | CtBool | CtBytes | CtTimestamp | CtJson

record column_def =
  cd_name :: string
  cd_type :: column_type
  cd_nullable :: bool

datatype cenql_statement =
    StQuery cenql_pipeline
  | StCreateTable string "column_def list" "string option"
  | StDropTable string
  | StCreateIndex string string string
  | StDropIndex string
  | StInsert string "(string \<times> expr) list"
  | StUpdate string "(string \<times> expr) list" "expr option"
  | StDelete string "expr option"
  | StUpsert string "(string \<times> expr) list"
  | StCreateView string cenql_pipeline
  | StDropView string
  | StBegin
  | StCommit
  | StRollback
  | StWithCte string cenql_pipeline cenql_pipeline
  | StUnion cenql_pipeline cenql_pipeline bool
  | StIntersect cenql_pipeline cenql_pipeline
  | StExcept cenql_pipeline cenql_pipeline
  | StDistinct cenql_pipeline

fun stage_source :: "cenql_stage \<Rightarrow> string option" where
  "stage_source (SgFrom name) = Some name"
| "stage_source _ = None"

definition pipeline_source :: "cenql_pipeline \<Rightarrow> string option" where
  "pipeline_source p =
     (case dropWhile (\<lambda>s. stage_source s = None) (stages p) of s # _ \<Rightarrow> stage_source s | [] \<Rightarrow> None)"

section \<open>Display\<close>

fun commas :: "string list \<Rightarrow> string" where
  "commas [] = []"
| "commas [s] = s"
| "commas (s # t # ss) = s @ '', '' @ commas (t # ss)"

fun op_debug :: "binary_op \<Rightarrow> string" where
  "op_debug OpEq = ''Eq''" | "op_debug OpNe = ''Ne''" | "op_debug OpLt = ''Lt''"
| "op_debug OpLe = ''Le''" | "op_debug OpGt = ''Gt''" | "op_debug OpGe = ''Ge''"
| "op_debug OpAnd = ''And''" | "op_debug OpOr = ''Or''" | "op_debug OpAdd = ''Add''"
| "op_debug OpSub = ''Sub''" | "op_debug OpMul = ''Mul''" | "op_debug OpDiv = ''Div''"

fun dir_debug :: "sort_dir \<Rightarrow> string" where
  "dir_debug DirAsc = ''Asc''" | "dir_debug DirDesc = ''Desc''"

fun join_kind_debug :: "join_kind \<Rightarrow> string" where
  "join_kind_debug KindInner = ''Inner''" | "join_kind_debug KindLeft = ''Left''"
| "join_kind_debug KindRight = ''Right''" | "join_kind_debug KindFull = ''Full''"

text \<open>The \<open>Debug\<close> form of a string of printable ASCII characters.\<close>

definition str_debug :: "string \<Rightarrow> string" where
  "str_debug s = CHR 0x22 # concat (map (\<lambda>c. if c = CHR 0x22 \<or> c = CHR 0x5C then [CHR 0x5C, c] else [c]) s)
     @ [CHR 0x22]"

fun window_debug :: "window_spec \<Rightarrow> string" where
  "window_debug (Tumbling d) = ''Tumbling('' @ str_debug d @ '')''"
| "window_debug (Hopping s l) =
     ''Hopping { size: '' @ str_debug s @ '', slide: '' @ str_debug l @ '' }''"
| "window_debug (Session g) = ''Session('' @ str_debug g @ '')''"

fun label_display :: "string option \<Rightarrow> string" where
  "label_display (Some l) = '':'' @ l"
| "label_display None = []"

definition pattern_display :: "graph_match_pattern \<Rightarrow> string" where
  "pattern_display p =
     ''('' @ start_var p @ label_display (start_label p) @ '')''
     @ (case edge_dir p of EdgeOut \<Rightarrow> ''-'' | EdgeIn \<Rightarrow> ''<-'' | EdgeBoth \<Rightarrow> ''-'')
     @ ''['' @ label_display (edge_type p)
     @ (if 0 < edge_min_hops p \<or> 0 < edge_max_hops p
        then ''*'' @ show_nat (unat (edge_min_hops p)) @ ''..'' @ show_nat (unat (edge_max_hops p)) else [])
     @ '']''
     @ (case edge_dir p of EdgeOut \<Rightarrow> ''->'' | EdgeIn \<Rightarrow> ''-'' | EdgeBoth \<Rightarrow> ''-'')
     @ ''('' @ end_var p @ label_display (end_label p) @ '')''"

fun bars :: "string list \<Rightarrow> string" where
  "bars [] = []"
| "bars [s] = s"
| "bars (s # t # ss) = s @ CHR 0x0A # ''| '' @ bars (t # ss)"

fun expr_display :: "(u64 \<Rightarrow> string) \<Rightarrow> expr \<Rightarrow> string"
  and agg_display :: "(u64 \<Rightarrow> string) \<Rightarrow> agg_expr \<Rightarrow> string"
  and stage_display :: "(u64 \<Rightarrow> string) \<Rightarrow> cenql_stage \<Rightarrow> string"
  and pipeline_display :: "(u64 \<Rightarrow> string) \<Rightarrow> cenql_pipeline \<Rightarrow> string" where
  "expr_display sf (ExColumn c) = c"
| "expr_display sf (ExI64 v) = show_int (sint v)"
| "expr_display sf (ExF64 v) = sf v"
| "expr_display sf (ExStr s) = CHR 0x22 # s @ [CHR 0x22]"
| "expr_display sf (ExBool b) = (if b then ''true'' else ''false'')"
| "expr_display sf (ExBinary bop l r) =
     ''('' @ expr_display sf l @ '' '' @ op_debug bop @ '' '' @ expr_display sf r @ '')''"
| "expr_display sf (ExCall name args) = name @ ''('' @ commas (map (expr_display sf) args) @ '')''"
| "expr_display sf (ExIn v sub) = ''('' @ expr_display sf v @ '' in ('' @ pipeline_display sf sub @ ''))''"
| "agg_display sf (AggExpr name func args) =
     name @ '': '' @ func @ ''('' @ commas (map (expr_display sf) args) @ '')''"
| "stage_display sf (SgFrom name) = ''from '' @ name"
| "stage_display sf (SgFromSubquery p) = ''from ('' @ pipeline_display sf p @ '')''"
| "stage_display sf (SgFilter e) = ''filter '' @ expr_display sf e"
| "stage_display sf (SgSelect cols) = ''select { '' @ commas cols @ '' }''"
| "stage_display sf (SgSort c dir) = ''sort '' @ c @ '' '' @ dir_debug dir"
| "stage_display sf (SgTake n) = ''take '' @ show_nat (unat n)"
| "stage_display sf (SgJoin src kind e) =
     ''join '' @ join_kind_debug kind @ '' '' @ src @ '' on '' @ expr_display sf e"
| "stage_display sf (SgGroupBy k aggs) =
     ''group_by '' @ k @ '' { '' @ commas (map (agg_display sf) aggs) @ '' }''"
| "stage_display sf (SgWindow spec c aggs) =
     ''window '' @ window_debug spec @ '' on '' @ c @ '' { '' @ commas (map (agg_display sf) aggs) @ '' }''"
| "stage_display sf (SgMatch pat) = ''match '' @ pattern_display pat"
| "stage_display sf (SgReturn dist cols) =
     (if dist then ''return distinct '' else ''return '') @ commas cols"
| "pipeline_display sf (Pipeline ss) = bars (map (stage_display sf) ss)"

definition column_type_display :: "column_type \<Rightarrow> string" where
  "column_type_display t = (case t of CtI64 \<Rightarrow> ''i64'' | CtF64 \<Rightarrow> ''f64'' | CtStr \<Rightarrow> ''str''
     | CtBool \<Rightarrow> ''bool'' | CtBytes \<Rightarrow> ''bytes'' | CtTimestamp \<Rightarrow> ''timestamp'' | CtJson \<Rightarrow> ''json'')"

definition column_def_display :: "column_def \<Rightarrow> string" where
  "column_def_display c = cd_name c @ '': '' @ column_type_display (cd_type c)
     @ (if cd_nullable c then [] else '' not null'')"

definition pairs_display :: "(u64 \<Rightarrow> string) \<Rightarrow> string \<Rightarrow> (string \<times> expr) list \<Rightarrow> string" where
  "pairs_display sf sep vs = commas (map (\<lambda>(k, v). k @ sep @ expr_display sf v) vs)"

definition where_display :: "(u64 \<Rightarrow> string) \<Rightarrow> expr option \<Rightarrow> string" where
  "where_display sf w = (case w of Some e \<Rightarrow> '' where '' @ expr_display sf e | None \<Rightarrow> [])"

fun statement_display :: "(u64 \<Rightarrow> string) \<Rightarrow> cenql_statement \<Rightarrow> string" where
  "statement_display sf (StQuery p) = pipeline_display sf p"
| "statement_display sf (StCreateTable name cols pk) =
     ''create table '' @ name @ '' { '' @ commas (map column_def_display cols)
     @ (case pk of Some k \<Rightarrow> '', primary_key: '' @ k | None \<Rightarrow> []) @ '' }''"
| "statement_display sf (StDropTable name) = ''drop table '' @ name"
| "statement_display sf (StCreateIndex name table col) =
     ''create index '' @ name @ '' on '' @ table @ ''('' @ col @ '')''"
| "statement_display sf (StDropIndex name) = ''drop index '' @ name"
| "statement_display sf (StInsert table vs) =
     ''insert into '' @ table @ '' { '' @ pairs_display sf '': '' vs @ '' }''"
| "statement_display sf (StUpdate table sets w) =
     ''update '' @ table @ '' set '' @ pairs_display sf '' = '' sets @ where_display sf w"
| "statement_display sf (StDelete table w) = ''delete from '' @ table @ where_display sf w"
| "statement_display sf (StUpsert table vs) =
     ''upsert into '' @ table @ '' { '' @ pairs_display sf '': '' vs @ '' }''"
| "statement_display sf (StCreateView name p) = ''create view '' @ name @ '' as '' @ pipeline_display sf p"
| "statement_display sf (StDropView name) = ''drop view '' @ name"
| "statement_display sf StBegin = ''begin''"
| "statement_display sf StCommit = ''commit''"
| "statement_display sf StRollback = ''rollback''"
| "statement_display sf (StWithCte name cte main) =
     ''with '' @ name @ '' as ('' @ pipeline_display sf cte @ '') '' @ pipeline_display sf main"
| "statement_display sf (StUnion l r all) =
     pipeline_display sf l @ (if all then '' union all '' else '' union '') @ pipeline_display sf r"
| "statement_display sf (StIntersect l r) = pipeline_display sf l @ '' intersect '' @ pipeline_display sf r"
| "statement_display sf (StExcept l r) = pipeline_display sf l @ '' except '' @ pipeline_display sf r"
| "statement_display sf (StDistinct p) = ''distinct '' @ pipeline_display sf p"

end
