(* ===== verification/Executor.thy ===== *)
theory Executor
  imports Join CenqlAst "HOL-Library.Signed_Division"
begin

text \<open>
  The pipeline executor (\<open>cendb-executor/src/subquery.rs\<close>): table providers, the evaluation
  of expressions with nulls, and the stages \<open>from\<close> (a table or a subquery), \<open>filter\<close>
  (with \<open>in\<close> subqueries), \<open>select\<close>, \<open>sort\<close> and \<open>take\<close>, which are
  executed one after the other on materialised rows. Equality and order of values are those of the
  joins, of which the source holds a copy. The arithmetic of floats and the \<open>Debug\<close> form of a
  stage in an error message are arguments, as is the provider.
\<close>

section \<open>Table providers\<close>

record table_provider =
  tp_scan :: "string \<Rightarrow> row list cen_result"
  tp_columns :: "string \<Rightarrow> string list option"

record exec_env = table_provider +
  env_float :: "binary_op \<Rightarrow> u64 \<Rightarrow> u64 \<Rightarrow> u64"
  env_debug :: "cenql_stage \<Rightarrow> string"

record in_memory_provider =
  im_tables :: "string \<Rightarrow> row list option"
  im_columns :: "string \<Rightarrow> string list option"

definition in_memory_new :: in_memory_provider where
  "in_memory_new = \<lparr>im_tables = Map.empty, im_columns = Map.empty\<rparr>"

definition register_with_columns ::
    "string \<Rightarrow> string list \<Rightarrow> row list \<Rightarrow> in_memory_provider \<Rightarrow> in_memory_provider" where
  "register_with_columns name columns rows p =
     p\<lparr>im_columns := (im_columns p)(name \<mapsto> columns), im_tables := (im_tables p)(name \<mapsto> rows)\<rparr>"

definition register :: "string \<Rightarrow> row list \<Rightarrow> in_memory_provider \<Rightarrow> in_memory_provider" where
  "register name rows p = p\<lparr>im_tables := (im_tables p)(name \<mapsto> rows)\<rparr>"

definition register_i64 ::
    "string \<Rightarrow> string list \<Rightarrow> i64 list list \<Rightarrow> in_memory_provider \<Rightarrow> in_memory_provider" where
  "register_i64 name columns rows = register_with_columns name columns (map (map VI64) rows)"

definition in_memory_scan :: "in_memory_provider \<Rightarrow> string \<Rightarrow> row list cen_result" where
  "in_memory_scan p table = ok_or (im_tables p table) (not_found (''table not found: '' @ table))"

definition in_memory_env :: "(binary_op \<Rightarrow> u64 \<Rightarrow> u64 \<Rightarrow> u64) \<Rightarrow> (cenql_stage \<Rightarrow> string) \<Rightarrow> in_memory_provider \<Rightarrow> exec_env" where
  "in_memory_env float debug p =
     \<lparr>tp_scan = in_memory_scan p, tp_columns = im_columns p, env_float = float, env_debug = debug\<rparr>"

section \<open>Columns\<close>

text \<open>The part of a dotted name after its last dot.\<close>

definition bare_name :: "string \<Rightarrow> string" where
  "bare_name c = rev (takeWhile (\<lambda>b. b \<noteq> CHR ''.'') (rev c))"

definition names_column :: "string \<Rightarrow> string \<Rightarrow> bool" where
  "names_column name c \<longleftrightarrow> c = name \<or> bare_name c = bare_name name"

text \<open>The index of a column: the first one without metadata or when no column has the name.\<close>

definition column_index :: "string list option \<Rightarrow> string \<Rightarrow> nat" where
  "column_index columns name =
     (case columns of
        Some cols \<Rightarrow> (case position (names_column name) cols of Some i \<Rightarrow> i | None \<Rightarrow> 0)
      | None \<Rightarrow> 0)"

definition value_at :: "row \<Rightarrow> nat \<Rightarrow> cen_value" where
  "value_at row i = (case row_get row i of Some v \<Rightarrow> v | None \<Rightarrow> VNull)"

section \<open>Expressions\<close>

text \<open>Signed division panics when the quotient does not fit.\<close>

definition checked_div :: "i64 \<Rightarrow> i64 \<Rightarrow> cen_value cen_result" where
  "checked_div a b =
     (if b = 0 then Ok VNull
      else if sint a = - (2 ^ 63) \<and> sint b = - 1 then Panic
      else Ok (VI64 (word_of_int (sint a sdiv sint b))))"

fun eval_arith :: "exec_env \<Rightarrow> binary_op \<Rightarrow> cen_value \<Rightarrow> cen_value \<Rightarrow> cen_value cen_result" where
  "eval_arith env bop (VI64 a) (VI64 b) =
     (case bop of
        OpAdd \<Rightarrow> Ok (VI64 (a + b))
      | OpSub \<Rightarrow> Ok (VI64 (a - b))
      | OpMul \<Rightarrow> Ok (VI64 (a * b))
      | OpDiv \<Rightarrow> checked_div a b
      | _ \<Rightarrow> Ok VNull)"
| "eval_arith env bop (VF64 a) (VF64 b) =
     (if bop \<in> {OpAdd, OpSub, OpMul, OpDiv} then Ok (VF64 (env_float env bop a b)) else Ok VNull)"
| "eval_arith env bop _ _ = Ok VNull"

definition eval_binary :: "exec_env \<Rightarrow> binary_op \<Rightarrow> cen_value \<Rightarrow> cen_value \<Rightarrow> cen_value cen_result" where
  "eval_binary env bop l r =
     (if l = VNull \<or> r = VNull
      then (if bop \<in> {OpAnd, OpOr, OpEq, OpNe, OpLt, OpLe, OpGt, OpGe} then Ok (VBool False) else Ok VNull)
      else (case bop of
        OpEq \<Rightarrow> Ok (VBool (value_eq l r))
      | OpNe \<Rightarrow> Ok (VBool (\<not> value_eq l r))
      | OpLt \<Rightarrow> Ok (VBool (value_cmp l r = Less))
      | OpLe \<Rightarrow> Ok (VBool (value_cmp l r = Less \<or> value_cmp l r = Equal))
      | OpGt \<Rightarrow> Ok (VBool (value_cmp l r = Greater))
      | OpGe \<Rightarrow> Ok (VBool (value_cmp l r = Greater \<or> value_cmp l r = Equal))
      | OpAnd \<Rightarrow> Ok (VBool (l = VBool True \<and> r = VBool True))
      | OpOr \<Rightarrow> Ok (VBool (l = VBool True \<or> r = VBool True))
      | _ \<Rightarrow> eval_arith env bop l r))"

text \<open>The members of an \<open>in\<close> set: the values of the first column that are not null.\<close>

definition in_set_values :: "row list \<Rightarrow> cen_value list" where
  "in_set_values rows = filter (\<lambda>v. v \<noteq> VNull) (map hd (filter (\<lambda>r. r \<noteq> []) rows))"

definition in_set :: "row list \<Rightarrow> cen_value \<Rightarrow> bool" where
  "in_set rows probe \<longleftrightarrow> probe \<noteq> VNull \<and> (\<exists>v\<in>set (in_set_values rows). value_eq v probe)"

section \<open>Stages\<close>

text \<open>A stable sort by a comparison, as \<open>sort_by\<close> is.\<close>

fun insert_by :: "('a \<Rightarrow> 'a \<Rightarrow> ordering) \<Rightarrow> 'a \<Rightarrow> 'a list \<Rightarrow> 'a list" where
  "insert_by cmp x [] = [x]"
| "insert_by cmp x (y # ys) = (if cmp x y = Greater then y # insert_by cmp x ys else x # y # ys)"

definition sort_by :: "('a \<Rightarrow> 'a \<Rightarrow> ordering) \<Rightarrow> 'a list \<Rightarrow> 'a list" where
  "sort_by cmp xs = foldr (insert_by cmp) xs []"

fun reverse_ordering :: "ordering \<Rightarrow> ordering" where
  "reverse_ordering Less = Greater" | "reverse_ordering Equal = Equal" | "reverse_ordering Greater = Less"

definition row_order :: "nat \<Rightarrow> sort_dir \<Rightarrow> row \<Rightarrow> row \<Rightarrow> ordering" where
  "row_order i dir a b =
     (let ord = value_cmp (value_at a i) (value_at b i)
      in case dir of DirAsc \<Rightarrow> ord | DirDesc \<Rightarrow> reverse_ordering ord)"

definition select_indices :: "string list option \<Rightarrow> string list \<Rightarrow> nat list" where
  "select_indices input_cols columns =
     (case input_cols of
        Some cols \<Rightarrow> map (column_index input_cols) columns
      | None \<Rightarrow> [0..<length columns])"

text \<open>Keep the rows on which a test succeeds; the first error ends the loop.\<close>

fun filter_rows :: "(row \<Rightarrow> bool cen_result) \<Rightarrow> row list \<Rightarrow> row list cen_result" where
  "filter_rows test [] = Ok []"
| "filter_rows test (r # rs) =
     and_then (test r) (\<lambda>keep.
     and_then (filter_rows test rs) (\<lambda>out. Ok (if keep then r # out else out)))"

type_synonym result_rows = "row list \<times> string list option"

fun eval_expr :: "exec_env \<Rightarrow> string list option \<Rightarrow> row \<Rightarrow> expr \<Rightarrow> cen_value cen_result"
and execute_stage :: "exec_env \<Rightarrow> cenql_stage \<Rightarrow> row list \<Rightarrow> string list option \<Rightarrow> result_rows cen_result"
and execute_stages :: "exec_env \<Rightarrow> cenql_stage list \<Rightarrow> row list \<Rightarrow> string list option \<Rightarrow> result_rows cen_result"
and execute_with_cols :: "exec_env \<Rightarrow> cenql_pipeline \<Rightarrow> result_rows cen_result" where
  "eval_expr env columns row (ExColumn name) = Ok (value_at row (column_index columns name))"
| "eval_expr env columns row (ExI64 v) = Ok (VI64 v)"
| "eval_expr env columns row (ExF64 v) = Ok (VF64 v)"
| "eval_expr env columns row (ExStr s) = Ok (VBytes (map of_char s))"
| "eval_expr env columns row (ExBool b) = Ok (VBool b)"
| "eval_expr env columns row (ExBinary bop lhs rhs) =
     and_then (eval_expr env columns row lhs) (\<lambda>l.
     and_then (eval_expr env columns row rhs) (\<lambda>r. eval_binary env bop l r))"
| "eval_expr env columns row (ExCall name args) =
     Err (internal ''function calls not supported by subquery executor'')"
| "eval_expr env columns row (ExIn v subquery) =
     and_then (execute_with_cols env subquery) (\<lambda>(sub_rows, _).
     and_then (eval_expr env columns row v) (\<lambda>probe. Ok (VBool (in_set sub_rows probe))))"
| "execute_stage env (SgFrom name) rows cols =
     and_then (tp_scan env name) (\<lambda>rows. Ok (rows, tp_columns env name))"
| "execute_stage env (SgFromSubquery p) rows cols = execute_with_cols env p"
| "execute_stage env (SgFilter e) rows cols =
     and_then (filter_rows (\<lambda>row. and_then (eval_expr env cols row e) (\<lambda>v. Ok (v = VBool True))) rows)
       (\<lambda>out. Ok (out, cols))"
| "execute_stage env (SgSelect columns) rows cols =
     Ok (map (\<lambda>row. map (value_at row) (select_indices cols columns)) rows, Some columns)"
| "execute_stage env (SgSort column dir) rows cols =
     Ok (sort_by (row_order (column_index cols column) dir) rows, cols)"
| "execute_stage env (SgTake n) rows cols = Ok (take (min (unat n) (length rows)) rows, cols)"
| "execute_stage env stg rows cols =
     Err (internal (''stage not supported by subquery executor: '' @ env_debug env stg))"
| "execute_stages env [] rows cols = Ok (rows, cols)"
| "execute_stages env (s # ss) rows cols =
     and_then (execute_stage env s rows cols) (\<lambda>(rows, cols). execute_stages env ss rows cols)"
| "execute_with_cols env (Pipeline ss) = execute_stages env ss [] None"

definition eval_predicate :: "exec_env \<Rightarrow> string list option \<Rightarrow> row \<Rightarrow> expr \<Rightarrow> bool cen_result" where
  "eval_predicate env cols row e = and_then (eval_expr env cols row e) (\<lambda>v. Ok (v = VBool True))"

definition execute_pipeline :: "exec_env \<Rightarrow> cenql_pipeline \<Rightarrow> row list cen_result" where
  "execute_pipeline env p = and_then (execute_with_cols env p) (\<lambda>(rows, _). Ok rows)"

section \<open>Sorting\<close>

lemma mset_sort_by: "mset (sort_by cmp xs) = mset xs"
proof -
  have "mset (insert_by cmp x ys) = add_mset x (mset ys)" for x and ys :: "'a list"
    by (induction ys) auto
  then show ?thesis unfolding sort_by_def by (induction xs) simp_all
qed

text \<open>The comparison of two keys of a linear order, in either direction.\<close>

definition directed :: "sort_dir \<Rightarrow> ('a \<Rightarrow> 'k::linorder) \<Rightarrow> 'a \<Rightarrow> 'a \<Rightarrow> ordering" where
  "directed dir f a b = (case dir of DirAsc \<Rightarrow> cmp_of (f a) (f b) | DirDesc \<Rightarrow> reverse_ordering (cmp_of (f a) (f b)))"

definition in_order :: "sort_dir \<Rightarrow> 'k::linorder \<Rightarrow> 'k \<Rightarrow> bool" where
  "in_order dir x y \<longleftrightarrow> (case dir of DirAsc \<Rightarrow> x \<le> y | DirDesc \<Rightarrow> y \<le> x)"

lemma directed_greater: "directed dir f a b = Greater \<longleftrightarrow> \<not> in_order dir (f a) (f b)"
  by (cases dir) (auto simp: directed_def in_order_def cmp_of_def not_less)

lemma in_order_laws:
  "in_order dir x y \<Longrightarrow> in_order dir y z \<Longrightarrow> in_order dir x z" "\<not> in_order dir x y \<Longrightarrow> in_order dir y x"
  by (cases dir; force simp: in_order_def)+

lemma set_insert_by: "set (insert_by cmp x ys) = insert x (set ys)"
  by (induction ys) auto

lemma insert_by_sorted:
  "sorted_wrt (\<lambda>a b. in_order dir (f a) (f b)) ys \<Longrightarrow>
     sorted_wrt (\<lambda>a b. in_order dir (f a) (f b)) (insert_by (directed dir f) x ys)"
  by (induction ys) (auto simp: set_insert_by directed_greater dest: in_order_laws)

lemma sort_by_sorted: "sorted_wrt (\<lambda>a b. in_order dir (f a) (f b)) (sort_by (directed dir f) xs)"
  unfolding sort_by_def by (induction xs) (simp_all add: insert_by_sorted)

lemma insert_by_stable:
  "filter (\<lambda>y. f y = k) (insert_by (directed dir f) x ys) = filter (\<lambda>y. f y = k) (x # ys)"
proof (induction ys)
  case (Cons y ys)
  have "directed dir f x y = Greater \<Longrightarrow> f x \<noteq> f y"
    by (cases dir) (auto simp: directed_def cmp_of_def)
  then show ?case using Cons by auto
qed simp

lemma sort_by_stable: "filter (\<lambda>y. f y = k) (sort_by (directed dir f) xs) = filter (\<lambda>y. f y = k) xs"
  unfolding sort_by_def by (induction xs) (simp_all add: insert_by_stable)

lemma value_cmp_cmp_of: "value_cmp a b = cmp_of a b"
  using value_cmp_less [of a b] value_cmp_equal [of a b] by (cases "value_cmp a b") (auto simp: cmp_of_def)

lemma row_order_directed: "row_order i dir = directed dir (\<lambda>r. value_at r i)"
  by (intro ext) (simp add: row_order_def directed_def value_cmp_cmp_of Let_def)

section \<open>Three-valued logic\<close>

text \<open>The truth of a condition in SQL: a comparison with a null is unknown (\<open>None\<close>).\<close>

fun kleene_and :: "bool option \<Rightarrow> bool option \<Rightarrow> bool option" where
  "kleene_and (Some False) _ = Some False"
| "kleene_and _ (Some False) = Some False"
| "kleene_and (Some True) q = q"
| "kleene_and p (Some True) = p"
| "kleene_and None None = None"

fun kleene_or :: "bool option \<Rightarrow> bool option \<Rightarrow> bool option" where
  "kleene_or (Some True) _ = Some True"
| "kleene_or _ (Some True) = Some True"
| "kleene_or (Some False) q = q"
| "kleene_or p (Some False) = p"
| "kleene_or None None = None"

definition sql_arith :: "exec_env \<Rightarrow> binary_op \<Rightarrow> cen_value \<Rightarrow> cen_value \<Rightarrow> cen_value" where
  "sql_arith env bop x y =
     (case (x, y) of
        (VI64 a, VI64 b) \<Rightarrow>
          (case bop of
             OpAdd \<Rightarrow> VI64 (a + b) | OpSub \<Rightarrow> VI64 (a - b) | OpMul \<Rightarrow> VI64 (a * b)
           | OpDiv \<Rightarrow> if b = 0 then VNull else VI64 (word_of_int (sint a sdiv sint b))
           | _ \<Rightarrow> VNull)
      | (VF64 a, VF64 b) \<Rightarrow> VF64 (env_float env bop a b)
      | _ \<Rightarrow> VNull)"

definition is_arith :: "binary_op \<Rightarrow> bool" where
  "is_arith bop \<longleftrightarrow> bop \<in> {OpAdd, OpSub, OpMul, OpDiv}"

text \<open>The value of the one column that has a name, qualified or not; none when no column or several
  columns have it, or the row is too short.\<close>

definition column_value :: "string list \<Rightarrow> row \<Rightarrow> string \<Rightarrow> cen_value option" where
  "column_value ks row c =
     (case filter (\<lambda>i. bare_name (ks ! i) = bare_name c) [0..<length ks] of
        [i] \<Rightarrow> if i < length row then Some (row ! i) else None
      | _ \<Rightarrow> None)"

fun sql_value :: "exec_env \<Rightarrow> string list \<Rightarrow> row \<Rightarrow> expr \<Rightarrow> cen_value" where
  "sql_value env ks row (ExColumn c) = (case column_value ks row c of Some v \<Rightarrow> v | None \<Rightarrow> VNull)"
| "sql_value env ks row (ExI64 v) = VI64 v"
| "sql_value env ks row (ExF64 v) = VF64 v"
| "sql_value env ks row (ExStr s) = VBytes (map of_char s)"
| "sql_value env ks row (ExBinary bop a b) = sql_arith env bop (sql_value env ks row a) (sql_value env ks row b)"
| "sql_value env ks row _ = VNull"

fun compare_values :: "binary_op \<Rightarrow> cen_value \<Rightarrow> cen_value \<Rightarrow> bool" where
  "compare_values OpEq a b = (a = b)"
| "compare_values OpNe a b = (a \<noteq> b)"
| "compare_values OpLt a b = (a < b)"
| "compare_values OpLe a b = (a \<le> b)"
| "compare_values OpGt a b = (b < a)"
| "compare_values OpGe a b = (b \<le> a)"
| "compare_values _ a b = False"

definition sql_compare :: "binary_op \<Rightarrow> cen_value \<Rightarrow> cen_value \<Rightarrow> bool option" where
  "sql_compare bop a b = (if a = VNull \<or> b = VNull then None else Some (compare_values bop a b))"

definition sql_member :: "cen_value \<Rightarrow> cen_value list \<Rightarrow> bool option" where
  "sql_member x vs =
     (if vs = [] then Some False
      else if x = VNull then None
      else if x \<in> set vs then Some True
      else if VNull \<in> set vs then None
      else Some False)"

text \<open>The values of a subquery come from an argument.\<close>

fun sql_truth ::
    "exec_env \<Rightarrow> (cenql_pipeline \<Rightarrow> cen_value list) \<Rightarrow> string list \<Rightarrow> row \<Rightarrow> expr \<Rightarrow> bool option" where
  "sql_truth env sub ks row (ExBool b) = Some b"
| "sql_truth env sub ks row (ExIn v p) = sql_member (sql_value env ks row v) (sub p)"
| "sql_truth env sub ks row (ExBinary bop a b) =
     (if bop = OpAnd then kleene_and (sql_truth env sub ks row a) (sql_truth env sub ks row b)
      else if bop = OpOr then kleene_or (sql_truth env sub ks row a) (sql_truth env sub ks row b)
      else sql_compare bop (sql_value env ks row a) (sql_value env ks row b))"
| "sql_truth env sub ks row _ = None"

text \<open>Expressions that denote a value, and those that denote a truth value.\<close>

fun is_scalar :: "expr \<Rightarrow> bool" where
  "is_scalar (ExColumn _) = True" | "is_scalar (ExI64 _) = True" | "is_scalar (ExF64 _) = True"
| "is_scalar (ExStr _) = True"
| "is_scalar (ExBinary bop a b) = (is_arith bop \<and> is_scalar a \<and> is_scalar b)"
| "is_scalar _ = False"

fun is_condition :: "expr \<Rightarrow> bool" where
  "is_condition (ExBool _) = True"
| "is_condition (ExIn v p) = is_scalar v"
| "is_condition (ExBinary bop a b) =
     (if bop = OpAnd \<or> bop = OpOr then is_condition a \<and> is_condition b
      else \<not> is_arith bop \<and> is_scalar a \<and> is_scalar b)"
| "is_condition _ = False"

fun subqueries :: "expr \<Rightarrow> cenql_pipeline list" where
  "subqueries (ExIn v p) = [p]"
| "subqueries (ExBinary bop a b) = subqueries a @ subqueries b"
| "subqueries _ = []"

text \<open>Every column that a condition names is found in the row, and no quotient overflows.\<close>

fun columns_of :: "expr \<Rightarrow> string list" where
  "columns_of (ExColumn c) = [c]"
| "columns_of (ExBinary bop a b) = columns_of a @ columns_of b"
| "columns_of (ExIn v p) = columns_of v"
| "columns_of _ = []"

definition columns_resolve :: "string list \<Rightarrow> row \<Rightarrow> expr \<Rightarrow> bool" where
  "columns_resolve ks row e \<longleftrightarrow> (\<forall>c\<in>set (columns_of e). column_value ks row c \<noteq> None)"

fun quotients_fit :: "exec_env \<Rightarrow> string list \<Rightarrow> row \<Rightarrow> expr \<Rightarrow> bool" where
  "quotients_fit env ks row (ExBinary bop a b) =
     (quotients_fit env ks row a \<and> quotients_fit env ks row b
      \<and> (bop = OpDiv \<longrightarrow> \<not> (sql_value env ks row a = VI64 (word_of_int (- (2 ^ 63)))
             \<and> sql_value env ks row b = VI64 (- 1))))"
| "quotients_fit env ks row (ExIn v p) = quotients_fit env ks row v"
| "quotients_fit env ks row _ = True"

lemma eval_arith_sql:
  assumes "is_arith bop" "\<not> (bop = OpDiv \<and> a = VI64 (word_of_int (- (2 ^ 63))) \<and> b = VI64 (- 1))"
  shows "eval_arith env bop a b = Ok (sql_arith env bop a b)"
proof -
  have m: "sint x = - (2 ^ 63) \<Longrightarrow> x = word_of_int (- (2 ^ 63))" and o: "sint y = - 1 \<Longrightarrow> y = - 1" for x y :: u64
    by (metis of_int_sint scast_id, metis of_int_sint scast_id of_int_minus of_int_1)
  show ?thesis
    using assms by (cases bop; cases a; cases b) (auto simp: sql_arith_def is_arith_def checked_div_def dest!: m [simplified] o)
qed

lemma eval_binary_arith:
  assumes "is_arith bop" "\<not> (bop = OpDiv \<and> a = VI64 (word_of_int (- (2 ^ 63))) \<and> b = VI64 (- 1))"
  shows "eval_binary env bop a b = Ok (sql_arith env bop a b)"
proof (cases "a = VNull \<or> b = VNull")
  case True
  then have "sql_arith env bop a b = VNull" by (auto simp: sql_arith_def split: cen_value.split)
  then show ?thesis using True assms(1) by (auto simp: eval_binary_def is_arith_def)
next
  case False
  then show ?thesis using eval_arith_sql [OF assms] assms(1) by (auto simp: eval_binary_def is_arith_def)
qed

lemma position_unique:
  "filter (\<lambda>i. P (ks ! i)) [0..<length ks] = [i] \<Longrightarrow> position P ks = Some i"
proof -
  assume one: "filter (\<lambda>i. P (ks ! i)) [0..<length ks] = [i]"
  have "j \<in> set (filter (\<lambda>i. P (ks ! i)) [0..<length ks]) \<longleftrightarrow> j = i" for j by (simp add: one)
  then have iff: "j < length ks \<and> P (ks ! j) \<longleftrightarrow> j = i" for j by auto
  have "\<not> P (ks ! j)" if "j < i" for j
    using iff [of i] iff [of j] that by simp
  then show ?thesis using iff [of i] by (simp add: position_Some)
qed

lemma column_value_index:
  "column_value ks row c = Some v \<Longrightarrow> value_at row (column_index (Some ks) c) = v"
proof -
  assume v: "column_value ks row c = Some v"
  then obtain i where i: "filter (\<lambda>i. bare_name (ks ! i) = bare_name c) [0..<length ks] = [i]"
    "i < length row" "v = row ! i"
    by (auto simp: column_value_def split: list.splits if_splits)
  have "names_column c = (\<lambda>k. bare_name k = bare_name c)" by (auto simp: names_column_def fun_eq_iff)
  then have "column_index (Some ks) c = i"
    using position_unique [of "\<lambda>k. bare_name k = bare_name c" ks i] i(1) by (simp add: column_index_def)
  then show ?thesis using i by (simp add: value_at_def row_get_def)
qed

lemma eval_scalar:
  "is_scalar e \<Longrightarrow> quotients_fit env ks row e \<Longrightarrow> columns_resolve ks row e \<Longrightarrow>
     eval_expr env (Some ks) row e = Ok (sql_value env ks row e)"
  by (induction e) (auto simp: eval_binary_arith columns_resolve_def ball_Un column_value_index)

lemma value_eq_nonnull: "a \<noteq> VNull \<Longrightarrow> b \<noteq> VNull \<Longrightarrow> value_eq a b \<longleftrightarrow> a = b"
  by (cases a; cases b) auto

lemma eval_comparison:
  assumes "\<not> is_arith bop" "bop \<noteq> OpAnd" "bop \<noteq> OpOr"
  shows "eval_binary env bop a b = Ok (VBool (sql_compare bop a b = Some True))"
  using assms
  by (cases bop)
    (auto simp: eval_binary_def is_arith_def sql_compare_def value_eq_nonnull value_cmp_cmp_of cmp_of_def)

lemma kleene_true: "kleene_and p q = Some True \<longleftrightarrow> p = Some True \<and> q = Some True"
  "kleene_or p q = Some True \<longleftrightarrow> p = Some True \<or> q = Some True"
  by (cases "(p, q)" rule: kleene_and.cases; simp) (cases "(p, q)" rule: kleene_or.cases; simp)

lemma eval_connective:
  "eval_binary env OpAnd (VBool p) (VBool q) = Ok (VBool (p \<and> q))"
  "eval_binary env OpOr (VBool p) (VBool q) = Ok (VBool (p \<or> q))"
  by (simp_all add: eval_binary_def)

definition first_values :: "row list \<Rightarrow> cen_value list" where
  "first_values rows = map hd (filter (\<lambda>r. r \<noteq> []) rows)"

lemma in_set_sql: "in_set rows x \<longleftrightarrow> sql_member x (first_values rows) = Some True"
  by (auto simp: in_set_def in_set_values_def sql_member_def first_values_def value_eq_nonnull filter_empty_conv)

definition subqueries_run :: "exec_env \<Rightarrow> (cenql_pipeline \<Rightarrow> cen_value list) \<Rightarrow> expr \<Rightarrow> bool" where
  "subqueries_run env sub e \<longleftrightarrow>
     (\<forall>p\<in>set (subqueries e). \<exists>rows. execute_pipeline env p = Ok rows \<and> sub p = first_values rows)"

lemma eval_condition:
  "is_condition e \<Longrightarrow> quotients_fit env ks row e \<Longrightarrow> columns_resolve ks row e \<Longrightarrow> subqueries_run env sub e \<Longrightarrow>
     eval_expr env (Some ks) row e = Ok (VBool (sql_truth env sub ks row e = Some True))"
proof (induction e rule: is_condition.induct)
  case (3 bop a b)
  then show ?case
    by (auto simp: subqueries_run_def columns_resolve_def ball_Un eval_scalar eval_comparison eval_connective
        kleene_true split: if_splits)
next
  case (2 v p)
  then show ?case
    by (auto simp: subqueries_run_def columns_resolve_def execute_pipeline_def eval_scalar in_set_sql)
qed simp_all

lemma filter_rows_total: "(\<And>r. r \<in> set rows \<Longrightarrow> test r = Ok (P r)) \<Longrightarrow> filter_rows test rows = Ok (filter P rows)"
  by (induction rows) simp_all

lemma filter_stage_sql:
  assumes "is_condition e" "subqueries_run env sub e"
    "\<And>row. row \<in> set rows \<Longrightarrow> columns_resolve ks row e \<and> quotients_fit env ks row e"
  shows "execute_stage env (SgFilter e) rows (Some ks) =
    Ok (filter (\<lambda>row. sql_truth env sub ks row e = Some True) rows, Some ks)"
proof -
  have "filter_rows (\<lambda>row. and_then (eval_expr env (Some ks) row e) (\<lambda>v. Ok (v = VBool True))) rows
      = Ok (filter (\<lambda>row. sql_truth env sub ks row e = Some True) rows)"
    by (rule filter_rows_total) (simp add: eval_condition [OF assms(1) _ _ assms(2)] assms(3))
  then show ?thesis by simp
qed

section \<open>Panics\<close>

fun no_division :: "expr \<Rightarrow> bool"
and no_division_stage :: "cenql_stage \<Rightarrow> bool"
and no_division_pipeline :: "cenql_pipeline \<Rightarrow> bool" where
  "no_division (ExBinary bop a b) = (bop \<noteq> OpDiv \<and> no_division a \<and> no_division b)"
| "no_division (ExIn v p) = (no_division v \<and> no_division_pipeline p)"
| "no_division _ = True"
| "no_division_stage (SgFilter e) = no_division e"
| "no_division_stage (SgFromSubquery p) = no_division_pipeline p"
| "no_division_stage _ = True"
| "no_division_pipeline (Pipeline ss) = (\<forall>s\<in>set ss. no_division_stage s)"

lemma eval_binary_no_panic: "bop \<noteq> OpDiv \<Longrightarrow> eval_binary env bop a b \<noteq> Panic"
  by (cases bop; cases a; cases b) (auto simp: eval_binary_def)

lemma filter_rows_panic: "filter_rows test rows = Panic \<Longrightarrow> \<exists>r. test r = Panic"
  by (induction rows) auto

lemma no_panic:
  assumes scan: "\<And>t. tp_scan env t \<noteq> Panic"
  shows "no_division e \<Longrightarrow> eval_expr env cols row e \<noteq> Panic"
    and "no_division_stage s \<Longrightarrow> execute_stage env s rows cols \<noteq> Panic"
    and "\<forall>s\<in>set ss. no_division_stage s \<Longrightarrow> execute_stages env ss rows cols \<noteq> Panic"
    and "no_division_pipeline p \<Longrightarrow> execute_with_cols env p \<noteq> Panic"
  using scan
proof (induction env cols row e and env s rows cols and env ss rows cols and env p
    rule: eval_expr_execute_stage_execute_stages_execute_with_cols.induct)
  case (6 env columns row bop lhs rhs)
  then show ?case by (auto simp: eval_binary_no_panic)
next
  case (11 env e rows cols)
  then show ?case by (auto dest!: filter_rows_panic)
qed (auto split: prod.splits)

section \<open>Subqueries as joins\<close>

lemma in_set_values_iff: "v \<in> set (in_set_values rows) \<longleftrightarrow> v \<noteq> VNull \<and> (\<exists>r\<in>set rows. row_get r 0 = Some v)"
  by (auto simp: in_set_values_def row_get_def hd_conv_nth image_iff)

lemma value_eq_sides: "value_eq a b \<Longrightarrow> a \<noteq> VNull \<and> b \<noteq> VNull \<and> a = b"
  by (cases a; cases b) auto

lemma in_set_semijoin:
  "in_set srows (value_at l i) \<longleftrightarrow> nested_loop_join [l] srows (keys_match i 0) \<noteq> []"
proof -
  have "in_set srows (value_at l i) \<longleftrightarrow> (\<exists>r\<in>set srows. keys_match i 0 l r)"
  proof (cases "row_get l i")
    case None
    then show ?thesis by (simp add: in_set_def value_at_def keys_match_def)
  next
    case (Some x)
    have "keys_match i 0 l r \<longleftrightarrow> x \<noteq> VNull \<and> row_get r 0 = Some x" for r
      using Some by (auto simp: keys_match_def value_eq_nonnull dest: value_eq_sides split: option.splits)
    then show ?thesis using Some
      by (auto simp: in_set_def value_at_def in_set_values_iff value_eq_nonnull)
  qed
  then show ?thesis by (auto simp: nested_loop_join_def)
qed

lemma filter_in_semijoin:
  assumes "execute_pipeline env p = Ok srows"
  shows "execute_stage env (SgFilter (ExIn (ExColumn c) p)) rows cols =
    Ok (filter (\<lambda>l. nested_loop_join [l] srows (keys_match (column_index cols c) 0) \<noteq> []) rows, cols)"
proof -
  obtain k where p: "execute_with_cols env p = Ok (srows, k)"
    using assms by (auto simp: execute_pipeline_def)
  have "filter_rows (\<lambda>row. and_then (eval_expr env cols row (ExIn (ExColumn c) p)) (\<lambda>v. Ok (v = VBool True))) rows
     = Ok (filter (\<lambda>l. in_set srows (value_at l (column_index cols c))) rows)"
    by (rule filter_rows_total) (simp add: p)
  then show ?thesis by (simp only: execute_stage.simps and_then.simps in_set_semijoin)
qed

section \<open>Properties\<close>

text \<open>A table with a null, for the witnesses.\<close>

definition sample_provider :: in_memory_provider where
  "sample_provider =
     register_i64 ''orders'' [''id'', ''user_id''] [[100, 1], [101, 2], [102, 1]]
       (register_with_columns ''users'' [''id'', ''age'', ''active'']
         [[VI64 1, VI64 30, VNull], [VI64 2, VNull, VBool True], [VI64 3, VI64 40, VBool False]] in_memory_new)"

definition sample_env :: exec_env where
  "sample_env = in_memory_env (\<lambda>_ a _. a) (\<lambda>_. []) sample_provider"

text \<open>C17:
  On typed conditions a filter is SQL's \<open>where\<close>. Let the operands of the connectives be
  conditions and those of comparisons and memberships scalars (\<open>is_condition\<close>), let every
  column named belong to exactly one column of the input and to the rows (\<open>columns_resolve\<close>), let
  the subqueries run and no quotient overflow. Then the filter keeps exactly the rows on which the
  condition is true in three-valued logic: the executor evaluates comparisons with a null, membership
  of a null and membership in a set with nulls to false instead of unknown, and under the connectives
  that difference never shows, at any nesting of conditions and subqueries. The columns of the
  specification are resolved without the executor's lookup. Outside these conditions the executor
  differs from SQL (\<open>null_operand_drops_row\<close>, \<open>unknown_column_reads_first\<close>,
  \<open>division_overflow_panics\<close>).
\<close>

theorem filter_is_sql_where:
  assumes "is_condition e" and "subqueries_run env sub e"
    and "\<And>row. row \<in> set rows \<Longrightarrow> columns_resolve ks row e \<and> quotients_fit env ks row e"
  shows "execute_stage env (SgFilter e) rows (Some ks) =
    Ok (filter (\<lambda>row. sql_truth env sub ks row e = Some True) rows, Some ks)"
  by (rule filter_stage_sql [OF assms])

definition sample_subquery :: cenql_pipeline where
  "sample_subquery = Pipeline [SgFrom ''orders'', SgSelect [''user_id'']]"

theorem filter_is_sql_where_witness:
  "execute_stage sample_env
     (SgFilter (ExBinary OpOr (ExBinary OpGt (ExColumn ''age'') (ExI64 35)) (ExIn (ExColumn ''id'') sample_subquery)))
     [[VI64 1, VI64 30], [VI64 2, VNull], [VI64 3, VI64 40], [VNull, VNull]] (Some [''id'', ''age''])
   = Ok (filter (\<lambda>row. sql_truth sample_env (\<lambda>_. [VI64 1, VI64 2, VI64 1]) [''id'', ''age''] row
        (ExBinary OpOr (ExBinary OpGt (ExColumn ''age'') (ExI64 35)) (ExIn (ExColumn ''id'') sample_subquery)) = Some True)
      [[VI64 1, VI64 30], [VI64 2, VNull], [VI64 3, VI64 40], [VNull, VNull]], Some [''id'', ''age''])"
proof (rule filter_is_sql_where)
  have "execute_pipeline sample_env sample_subquery = Ok [[VI64 1], [VI64 2], [VI64 1]]"
    by (simp add: execute_pipeline_def sample_subquery_def sample_env_def in_memory_env_def in_memory_scan_def
        sample_provider_def register_i64_def register_with_columns_def select_indices_def column_index_def
        names_column_def bare_name_def value_at_def row_get_def)
  then show "subqueries_run sample_env (\<lambda>_. [VI64 1, VI64 2, VI64 1])
     (ExBinary OpOr (ExBinary OpGt (ExColumn ''age'') (ExI64 35)) (ExIn (ExColumn ''id'') sample_subquery))"
    by (simp add: subqueries_run_def first_values_def)
next
  fix row :: row
  assume row: "row \<in> set [[VI64 1, VI64 30], [VI64 2, VNull], [VI64 3, VI64 40], [VNull, VNull]]"
  have "bare_name ''id'' = ''id''" "bare_name ''age'' = ''age''" by (simp_all add: bare_name_def)
  then show "columns_resolve [''id'', ''age''] row
      (ExBinary OpOr (ExBinary OpGt (ExColumn ''age'') (ExI64 35)) (ExIn (ExColumn ''id'') sample_subquery))
    \<and> quotients_fit sample_env [''id'', ''age''] row
      (ExBinary OpOr (ExBinary OpGt (ExColumn ''age'') (ExI64 35)) (ExIn (ExColumn ''id'') sample_subquery))"
    using row by (auto simp: columns_resolve_def column_value_def upt_rec)
qed (simp_all add: is_arith_def)

text \<open>C22:
  Sorting and taking: the rows that remain are the first ones of a stable ordering of the input by
  the column, in the direction asked for: a rearrangement of the input in which the keys are in
  order and rows with equal keys keep their order. Neither stage fails.
\<close>

theorem sort_take_is_stable_top:
  "\<exists>sorted_rows. execute_stages env [SgSort c dir, SgTake n] rows cols = Ok (take (unat n) sorted_rows, cols)
     \<and> mset sorted_rows = mset rows
     \<and> sorted_wrt (\<lambda>a b. in_order dir (value_at a (column_index cols c)) (value_at b (column_index cols c))) sorted_rows
     \<and> (\<forall>k. filter (\<lambda>r. value_at r (column_index cols c) = k) sorted_rows
          = filter (\<lambda>r. value_at r (column_index cols c) = k) rows)"
proof (intro exI conjI)
  let ?f = "\<lambda>r. value_at r (column_index cols c)" and ?s = "sort_by (row_order (column_index cols c) dir) rows"
  show "mset ?s = mset rows" by (rule mset_sort_by)
  then have "length ?s = length rows" by (metis size_mset)
  then show "execute_stages env [SgSort c dir, SgTake n] rows cols = Ok (take (unat n) ?s, cols)" by (simp add: min_def)
  show "sorted_wrt (\<lambda>a b. in_order dir (?f a) (?f b)) ?s"
    unfolding row_order_directed by (rule sort_by_sorted)
  show "\<forall>k. filter (\<lambda>r. ?f r = k) ?s = filter (\<lambda>r. ?f r = k) rows"
    unfolding row_order_directed by (simp add: sort_by_stable)
qed

text \<open>C21:
  A filter by \<open>in\<close> with a subquery is a semi-join: it keeps the rows for which the nested
  loop join with the rows of the subquery on its first column is not empty, duplicates and nulls
  of the subquery notwithstanding.
\<close>

theorem in_subquery_is_semijoin:
  assumes "execute_pipeline env p = Ok srows"
  shows "execute_stage env (SgFilter (ExIn (ExColumn c) p)) rows cols =
    Ok (filter (\<lambda>l. nested_loop_join [l] srows (keys_match (column_index cols c) 0) \<noteq> []) rows, cols)"
  by (rule filter_in_semijoin [OF assms])

theorem in_subquery_is_semijoin_witness:
  "execute_stage sample_env (SgFilter (ExIn (ExColumn ''id'') (Pipeline [SgFrom ''orders''])))
     [[VI64 100], [VNull], [VI64 7]] (Some [''id'']) =
   Ok (filter (\<lambda>l. nested_loop_join [l] [[VI64 100, VI64 1], [VI64 101, VI64 2], [VI64 102, VI64 1]]
        (keys_match (column_index (Some [''id'']) ''id'') 0) \<noteq> []) [[VI64 100], [VNull], [VI64 7]], Some [''id''])"
  by (rule in_subquery_is_semijoin)
    (simp add: execute_pipeline_def sample_env_def in_memory_env_def in_memory_scan_def
      sample_provider_def register_i64_def register_with_columns_def)

text \<open>
  Execution panics in divisions only: whatever the provider returns, a pipeline without a division
  ends with rows or an error, also with unknown columns, rows that are too short and values of
  different kinds in a comparison.
\<close>

lemma executor_panics_only_in_division:
  assumes "\<And>t. tp_scan env t \<noteq> Panic" and "no_division_pipeline p"
  shows "execute_pipeline env p \<noteq> Panic"
  using no_panic(4) [OF assms] by (auto simp: execute_pipeline_def split: prod.splits)

lemma executor_panics_only_in_division_witness:
  "execute_pipeline sample_env (Pipeline [SgFrom ''users'', SgFilter (ExBinary OpLt (ExColumn ''age'') (ExStr ''x''))]) \<noteq> Panic"
proof (rule executor_panics_only_in_division)
  show "tp_scan sample_env t \<noteq> Panic" for t
    by (cases "im_tables sample_provider t") (simp_all add: sample_env_def in_memory_env_def in_memory_scan_def)
qed simp

text \<open>The smallest integer divided by minus one: a query on such a row ends the process.\<close>

lemma division_overflow_panics:
  "execute_pipeline (in_memory_env float debug (register_i64 ''t'' [''a'', ''b''] [[- (2 ^ 63), - 1]] in_memory_new))
     (Pipeline [SgFrom ''t'', SgFilter (ExBinary OpEq (ExBinary OpDiv (ExColumn ''a'') (ExColumn ''b'')) (ExI64 0))]) = Panic"
  by (simp add: execute_pipeline_def in_memory_env_def in_memory_scan_def register_i64_def register_with_columns_def
      in_memory_new_def column_index_def names_column_def bare_name_def value_at_def row_get_def
      eval_binary_def checked_div_def)

text \<open>A column name that no column has reads the first column.\<close>

lemma unknown_column_reads_first:
  assumes "\<forall>k\<in>set cols. bare_name k \<noteq> bare_name c"
  shows "eval_expr env (Some cols) row (ExColumn c) = Ok (value_at row 0)"
proof -
  have "position (names_column c) cols = None"
    using assms by (auto simp: position_None names_column_def)
  then show ?thesis by (simp add: column_index_def)
qed

text \<open>
  Outside typed conditions the executor drops rows that SQL keeps: a disjunction with a column that
  is null is false even when its other operand is true.
\<close>

lemma null_operand_drops_row:
  assumes "value_at row (column_index cols c) = VNull" and "eval_expr env cols row e = Ok v"
  shows "eval_predicate env cols row (ExBinary OpOr (ExColumn c) e) = Ok False"
  using assms by (simp add: eval_predicate_def eval_binary_def)

lemma null_operand_drops_row_witness:
  "eval_predicate sample_env (Some [''id'', ''active'']) [VI64 1, VNull]
     (ExBinary OpOr (ExColumn ''active'') (ExBool True)) = Ok False"
proof (rule null_operand_drops_row)
  show "value_at [VI64 1, VNull] (column_index (Some [''id'', ''active'']) ''active'') = VNull" by code_simp
qed simp

end
