(* ===== verification/Vectorized.thy ===== *)
theory Vectorized
  imports Join
begin

text \<open>
  Vectorised and out-of-core operators (\<open>cendb-executor/src/vector.rs\<close>,
  \<open>morsel.rs\<close>): selection vectors over columns of integers and of float bit patterns, the
  batches of rows a scan yields, the external merge sort with its k-way merge, and the partitioned
  hash join. The library's binary heap is the multiset of its entries, whose pop takes the least;
  the addition of floats is an argument.
\<close>

section \<open>Selection vectors\<close>

type_synonym selection = "u32 list"

text \<open>The positions, as 32-bit indices from a start, of the values that pass a test.\<close>

fun select_from :: "(i64 \<Rightarrow> bool) \<Rightarrow> nat \<Rightarrow> i64 list \<Rightarrow> selection" where
  "select_from test i [] = []"
| "select_from test i (v # vs) = (if test v then of_nat i # select_from test (i + 1) vs else select_from test (i + 1) vs)"

definition filter_i64_eq :: "i64 list \<Rightarrow> i64 \<Rightarrow> selection" where
  "filter_i64_eq col val = select_from (\<lambda>v. v = val) 0 col"

definition filter_i64_ne :: "i64 list \<Rightarrow> i64 \<Rightarrow> selection" where
  "filter_i64_ne col val = select_from (\<lambda>v. v \<noteq> val) 0 col"

definition filter_i64_gt :: "i64 list \<Rightarrow> i64 \<Rightarrow> selection" where
  "filter_i64_gt col val = select_from (\<lambda>v. sint val < sint v) 0 col"

definition filter_i64_ge :: "i64 list \<Rightarrow> i64 \<Rightarrow> selection" where
  "filter_i64_ge col val = select_from (\<lambda>v. sint val \<le> sint v) 0 col"

definition filter_i64_lt :: "i64 list \<Rightarrow> i64 \<Rightarrow> selection" where
  "filter_i64_lt col val = select_from (\<lambda>v. sint v < sint val) 0 col"

definition filter_i64_le :: "i64 list \<Rightarrow> i64 \<Rightarrow> selection" where
  "filter_i64_le col val = select_from (\<lambda>v. sint v \<le> sint val) 0 col"

definition gather_i64 :: "selection \<Rightarrow> i64 list \<Rightarrow> (i64 list, 'e) outcome" where
  "gather_i64 sv col = (if \<forall>i\<in>set sv. unat i < length col then Ok (map (\<lambda>i. col ! unat i) sv) else Panic)"

subsection \<open>Floats\<close>

text \<open>The order of IEEE doubles on their bits: a NaN is not comparable, the zeros are equal.\<close>

definition is_nan :: "u64 \<Rightarrow> bool" where
  "is_nan b \<longleftrightarrow> drop_bit 52 b AND 0x7FF = 0x7FF \<and> take_bit 52 b \<noteq> 0"

definition float_key :: "u64 \<Rightarrow> int" where
  "float_key b = (if bit b 63 then - uint (take_bit 63 b) else uint (take_bit 63 b))"

definition float_less :: "u64 \<Rightarrow> u64 \<Rightarrow> bool" where
  "float_less a b \<longleftrightarrow> \<not> is_nan a \<and> \<not> is_nan b \<and> float_key a < float_key b"

definition float_le :: "u64 \<Rightarrow> u64 \<Rightarrow> bool" where
  "float_le a b \<longleftrightarrow> \<not> is_nan a \<and> \<not> is_nan b \<and> float_key a \<le> float_key b"

definition float_equal :: "u64 \<Rightarrow> u64 \<Rightarrow> bool" where
  "float_equal a b \<longleftrightarrow> \<not> is_nan a \<and> \<not> is_nan b \<and> float_key a = float_key b"

text \<open>Eight values at a time, then the remainder one by one.\<close>

function chunked_select :: "(i64 \<Rightarrow> bool) \<Rightarrow> nat \<Rightarrow> i64 list \<Rightarrow> selection" where
  "chunked_select test base col =
     (if 8 \<le> length col
      then map (\<lambda>j. of_nat (base + j)) (filter (\<lambda>j. test (col ! j)) [0..<8])
           @ chunked_select test (base + 8) (drop 8 col)
      else select_from test base col)"
  by pat_completeness auto
termination
  by (relation "measure (\<lambda>(_, _, col). length col)") auto

declare chunked_select.simps [simp del]

definition filter_f64_gt :: "i64 list \<Rightarrow> u64 \<Rightarrow> selection" where
  "filter_f64_gt col threshold = chunked_select (\<lambda>b. float_less threshold b) 0 col"

definition filter_f64_lt :: "i64 list \<Rightarrow> u64 \<Rightarrow> selection" where
  "filter_f64_lt col threshold = chunked_select (\<lambda>b. float_less b threshold) 0 col"

definition filter_f64_ge :: "i64 list \<Rightarrow> u64 \<Rightarrow> selection" where
  "filter_f64_ge col threshold = chunked_select (\<lambda>b. float_le threshold b) 0 col"

definition filter_f64_le :: "i64 list \<Rightarrow> u64 \<Rightarrow> selection" where
  "filter_f64_le col threshold = chunked_select (\<lambda>b. float_le b threshold) 0 col"

definition filter_f64_eq :: "i64 list \<Rightarrow> u64 \<Rightarrow> selection" where
  "filter_f64_eq col threshold = select_from (\<lambda>b. b = threshold) 0 col"

definition sum_i64 :: "i64 list \<Rightarrow> i64" where
  "sum_i64 col = foldl (+) 0 col"

text \<open>Eight accumulators over the chunks, combined from the left, then the remainder.\<close>

function accumulate_chunks :: "(u64 \<Rightarrow> u64 \<Rightarrow> u64) \<Rightarrow> u64 list \<Rightarrow> i64 list \<Rightarrow> u64 list \<times> i64 list" where
  "accumulate_chunks fadd acc col =
     (if 8 \<le> length col then accumulate_chunks fadd (map2 fadd acc (take 8 col)) (drop 8 col) else (acc, col))"
  by pat_completeness auto
termination
  by (relation "measure (\<lambda>(_, _, col). length col)") auto

definition sum_f64 :: "(u64 \<Rightarrow> u64 \<Rightarrow> u64) \<Rightarrow> i64 list \<Rightarrow> u64" where
  "sum_f64 fadd col =
     (case accumulate_chunks fadd (replicate 8 0) col of
        (acc, rest) \<Rightarrow> foldl fadd (foldl fadd (hd acc) (tl acc)) rest)"

section \<open>Morsels\<close>

definition MORSEL_SIZE :: nat where "MORSEL_SIZE = 1024"

record morsel =
  mo_row_count :: nat
  mo_columns :: "i64 list list"

definition morsel_new :: "nat \<Rightarrow> morsel" where
  "morsel_new column_count = \<lparr>mo_row_count = 0, mo_columns = replicate column_count []\<rparr>"

text \<open>The columns without a value in the row keep their length.\<close>

fun push_values :: "i64 list list \<Rightarrow> i64 list \<Rightarrow> i64 list list" where
  "push_values (c # cs) (v # vs) = (c @ [v]) # push_values cs vs"
| "push_values cs vs = cs"

definition morsel_push_row :: "i64 list \<Rightarrow> morsel \<Rightarrow> morsel" where
  "morsel_push_row row m = m\<lparr>mo_columns := push_values (mo_columns m) row, mo_row_count := mo_row_count m + 1\<rparr>"

definition morsel_is_full :: "morsel \<Rightarrow> bool" where
  "morsel_is_full m \<longleftrightarrow> MORSEL_SIZE \<le> mo_row_count m"

definition batch_total_rows :: "morsel list \<Rightarrow> nat" where
  "batch_total_rows ms = sum_list (map mo_row_count ms)"

section \<open>External merge sort\<close>

record merge_sorter =
  ms_run_size :: nat
  ms_runs :: "i64 list list"
  ms_buffer :: "i64 list"

definition merge_sorter_new :: "nat \<Rightarrow> merge_sorter" where
  "merge_sorter_new run_size = \<lparr>ms_run_size = run_size, ms_runs = [], ms_buffer = []\<rparr>"

definition ms_spill :: "merge_sorter \<Rightarrow> merge_sorter" where
  "ms_spill s =
     (if ms_buffer s = [] then s
      else s\<lparr>ms_runs := ms_runs s @ [sort_key sint (ms_buffer s)], ms_buffer := []\<rparr>)"

definition ms_push :: "i64 \<Rightarrow> merge_sorter \<Rightarrow> merge_sorter" where
  "ms_push v s =
     (let s = s\<lparr>ms_buffer := ms_buffer s @ [v]\<rparr>
      in if ms_run_size s \<le> length (ms_buffer s) then ms_spill s else s)"

text \<open>An entry of the heap: a value, its run and its position. The pop takes the least.\<close>

type_synonym heap_entry = "int \<times> nat \<times> nat"

fun pop_least :: "'a::linorder list \<Rightarrow> ('a \<times> 'a list) option" where
  "pop_least [] = None"
| "pop_least (e # es) =
     (case pop_least es of
        None \<Rightarrow> Some (e, [])
      | Some (m, rest) \<Rightarrow> if e \<le> m then Some (e, es) else Some (m, e # rest))"

definition heap_start :: "i64 list list \<Rightarrow> heap_entry list" where
  "heap_start runs = map (\<lambda>(i, run). (sint (hd run), i, 0)) (filter (\<lambda>(i, run). run \<noteq> []) (enumerate 0 runs))"

text \<open>The loop carries its bound, the number of values in all runs.\<close>

fun merge_runs :: "i64 list list \<Rightarrow> nat \<Rightarrow> heap_entry list \<Rightarrow> i64 list \<Rightarrow> i64 list cen_result" where
  "merge_runs runs 0 heap result = (if heap = [] then Ok result else Panic)"
| "merge_runs runs (Suc n) heap result =
     (case pop_least heap of
        None \<Rightarrow> Ok result
      | Some ((v, run_idx, elem_idx), rest) \<Rightarrow>
          and_then (index_at runs run_idx) (\<lambda>run.
            merge_runs runs n
              (if elem_idx + 1 < length run then (sint (run ! (elem_idx + 1)), run_idx, elem_idx + 1) # rest else rest)
              (result @ [word_of_int v])))"

definition ms_finish :: "merge_sorter \<Rightarrow> i64 list cen_result" where
  "ms_finish s =
     (let runs = ms_runs (ms_spill s)
      in case runs of
           [] \<Rightarrow> Ok []
         | [run] \<Rightarrow> Ok run
         | _ \<Rightarrow> merge_runs runs (sum_list (map length runs)) (heap_start runs) [])"

definition ms_run_count :: "merge_sorter \<Rightarrow> nat" where
  "ms_run_count s = length (ms_runs s)"

section \<open>Hybrid hash join\<close>

type_synonym key_pair = "i64 \<times> i64"

record hybrid_join =
  hj_partition_count :: nat
  hj_build :: "key_pair list list"
  hj_probe :: "key_pair list list"
  hj_spilled :: bool

definition hybrid_join_new :: "nat \<Rightarrow> hybrid_join" where
  "hybrid_join_new n =
     \<lparr>hj_partition_count = n, hj_build = replicate n [], hj_probe = replicate n [], hj_spilled = False\<rparr>"

definition hash_partition :: "hybrid_join \<Rightarrow> i64 \<Rightarrow> nat cen_result" where
  "hash_partition j k =
     (if hj_partition_count j = 0 then Panic
      else Ok (unat (k * 0x9E3779B97F4A7C15) mod hj_partition_count j))"

definition add_build :: "i64 \<Rightarrow> i64 \<Rightarrow> hybrid_join \<Rightarrow> hybrid_join cen_result" where
  "add_build k v j = and_then (hash_partition j k) (\<lambda>p.
     if p < length (hj_build j) then Ok (j\<lparr>hj_build := (hj_build j)[p := hj_build j ! p @ [(k, v)]]\<rparr>) else Panic)"

definition add_probe :: "i64 \<Rightarrow> i64 \<Rightarrow> hybrid_join \<Rightarrow> hybrid_join cen_result" where
  "add_probe k v j = and_then (hash_partition j k) (\<lambda>p.
     if p < length (hj_probe j) then Ok (j\<lparr>hj_probe := (hj_probe j)[p := hj_probe j ! p @ [(k, v)]]\<rparr>) else Panic)"

definition partition_table :: "key_pair list \<Rightarrow> i64 \<Rightarrow> i64 list option" where
  "partition_table build =
     fold (\<lambda>(k, v) table. table(k \<mapsto> (case table k of Some vs \<Rightarrow> vs @ [v] | None \<Rightarrow> [v]))) build Map.empty"

definition probe_partition :: "key_pair list \<Rightarrow> key_pair list \<Rightarrow> (i64 \<times> i64) list" where
  "probe_partition build probe =
     concat (map (\<lambda>(k, pv). case partition_table build k of
       Some vs \<Rightarrow> map (\<lambda>bv. (bv, pv)) vs | None \<Rightarrow> []) probe)"

definition execute_join :: "hybrid_join \<Rightarrow> (i64 \<times> i64) list \<times> hybrid_join" where
  "execute_join j =
     (concat (map (\<lambda>p. probe_partition (hj_build j ! p) (hj_probe j ! p)) [0..<hj_partition_count j]),
      j\<lparr>hj_build := map (\<lambda>_. []) (hj_build j), hj_probe := map (\<lambda>_. []) (hj_probe j)\<rparr>)"

section \<open>Selections\<close>

lemma select_from_indices:
  "select_from test i vs = map (\<lambda>j. of_nat (i + j)) (filter (\<lambda>j. test (vs ! j)) [0..<length vs])"
proof (induction vs arbitrary: i)
  case (Cons v vs)
  have "[0..<length (v # vs)] = 0 # map Suc [0..<length vs]" by (simp add: upt_conv_Cons map_Suc_upt del: upt_Suc)
  then show ?case by (simp add: Cons filter_map o_def del: upt_Suc)
qed simp

lemma chunked_select_from: "chunked_select test base col = select_from test base col"
proof (induction test base col rule: chunked_select.induct)
  case (1 test base col)
  show ?case
  proof (cases "8 \<le> length col")
    case True
    let ?n = "length col - 8"
    have "[0..<length col] = [0..<8] @ map (\<lambda>j. 8 + j) [0..<?n]"
      using True upt_add_eq_append [of 0 8 ?n] by (simp add: map_add_upt add.commute)
    then have "filter (\<lambda>j. test (col ! j)) [0..<length col]
        = filter (\<lambda>j. test (col ! j)) [0..<8] @ map (\<lambda>j. 8 + j) (filter (\<lambda>j. test (col ! (8 + j))) [0..<?n])"
      by (simp only: filter_append filter_map o_def)
    then show ?thesis
      using 1 True by (subst chunked_select.simps) (simp add: select_from_indices add.assoc)
  qed (simp add: chunked_select.simps)
qed

lemma map_nth_filter: "map (\<lambda>j. xs ! j) (filter (\<lambda>j. P (xs ! j)) [0..<length xs]) = filter P xs"
proof -
  have "map (\<lambda>j. xs ! j) (filter (P \<circ> (\<lambda>j. xs ! j)) [0..<length xs]) = filter P (map (\<lambda>j. xs ! j) [0..<length xs])"
    by (simp only: filter_map)
  then show ?thesis by (simp add: map_nth o_def)
qed

lemma gather_select:
  assumes "length col \<le> 2 ^ 32"
  shows "gather_i64 (select_from test 0 col) col = Ok (filter test col)"
proof -
  have u: "unat (of_nat j :: u32) = j" if "j < length col" for j
    using that assms by (intro unat_of_nat_small) simp
  have "map (\<lambda>i. col ! unat i) (select_from test 0 col) = map (\<lambda>j. col ! j) (filter (\<lambda>j. test (col ! j)) [0..<length col])"
    by (auto simp: select_from_indices u)
  moreover have "\<forall>i\<in>set (select_from test 0 col). unat i < length col"
    by (auto simp: select_from_indices u)
  ultimately show ?thesis by (simp add: gather_i64_def map_nth_filter)
qed

section \<open>The merge\<close>

lemma pop_least_None: "pop_least heap = None \<longleftrightarrow> heap = []"
  by (cases heap) (auto split: option.splits if_splits)

lemma pop_least_Some:
  "pop_least heap = Some (m, rest) \<Longrightarrow> mset heap = add_mset m (mset rest) \<and> (\<forall>e\<in>set rest. m \<le> e)"
proof (induction heap arbitrary: m rest)
  case (Cons e es)
  show ?case
  proof (cases "pop_least es")
    case None
    then show ?thesis using Cons.prems by (simp add: pop_least_None)
  next
    case (Some p)
    obtain x xs where p: "p = (x, xs)" by fastforce
    have es: "mset es = add_mset x (mset xs)" "\<forall>y\<in>set xs. x \<le> y" using Cons.IH Some p by auto
    then have "set es = insert x (set xs)" using mset_eq_setD [of es "x # xs"] by simp
    then show ?thesis using Cons.prems Some p es by (auto split: if_splits)
  qed
qed simp

definition entry_ok :: "i64 list list \<Rightarrow> heap_entry \<Rightarrow> bool" where
  "entry_ok runs e \<longleftrightarrow> (case e of (v, i, k) \<Rightarrow> i < length runs \<and> k < length (runs ! i) \<and> v = sint (runs ! i ! k))"

definition pending :: "i64 list list \<Rightarrow> heap_entry list \<Rightarrow> i64 multiset" where
  "pending runs heap = (\<Sum>e\<in>#mset heap. mset (drop (snd (snd e)) (runs ! fst (snd e))))"

lemma pending_Cons: "pending runs ((v, i, k) # heap) = mset (drop k (runs ! i)) + pending runs heap"
  by (simp add: pending_def)

lemma pending_mset: "mset heap = mset heap' \<Longrightarrow> pending runs heap = pending runs heap'"
  by (simp add: pending_def)

lemma pending_member: "w \<in># pending runs heap \<longleftrightarrow> (\<exists>v i k. (v, i, k) \<in> set heap \<and> w \<in> set (drop k (runs ! i)))"
  by (force simp: pending_def)

text \<open>The value of an entry is the least of what its run has left.\<close>

lemma entry_least:
  assumes "entry_ok runs e" "sorted (map sint (runs ! fst (snd e)))" "w \<in> set (drop (snd (snd e)) (runs ! fst (snd e)))"
  shows "fst e \<le> sint w"
proof -
  obtain v i k where e: "e = (v, i, k)" by (cases e)
  have k: "k < length (runs ! i)" "v = sint (runs ! i ! k)" using assms(1) by (simp_all add: e entry_ok_def)
  obtain j where j: "j < length (drop k (runs ! i))" "w = drop k (runs ! i) ! j"
    using assms(3) by (auto simp: e in_set_conv_nth)
  then have "map sint (runs ! i) ! k \<le> map sint (runs ! i) ! (k + j)"
    using assms(2) k(1) by (intro sorted_nth_mono) (auto simp: e)
  then show ?thesis using j k by (simp add: e)
qed

lemma pending_least:
  assumes "\<And>e. e \<in> set heap \<Longrightarrow> entry_ok runs e" "\<And>run. run \<in> set runs \<Longrightarrow> sorted (map sint run)"
    and "\<And>e. e \<in> set heap \<Longrightarrow> v \<le> fst e" "w \<in># pending runs heap"
  shows "v \<le> sint w"
proof -
  obtain e where e: "e \<in> set heap" "w \<in> set (drop (snd (snd e)) (runs ! fst (snd e)))"
    using assms(4) by (force simp: pending_member)
  have "fst (snd e) < length runs" using assms(1) [OF e(1)] by (auto simp: entry_ok_def)
  then have "fst e \<le> sint w" using entry_least [OF assms(1) [OF e(1)] _ e(2)] assms(2) by simp
  then show ?thesis using assms(3) [OF e(1)] by simp
qed

lemma merge_runs_sorts:
  assumes sorted: "\<And>run. run \<in> set runs \<Longrightarrow> sorted (map sint run)"
  shows "\<forall>e\<in>set heap. entry_ok runs e \<Longrightarrow> size (pending runs heap) \<le> n \<Longrightarrow>
    \<exists>out. merge_runs runs n heap result = Ok (result @ out) \<and> mset out = pending runs heap \<and> sorted (map sint out)"
proof (induction n arbitrary: heap result)
  case 0
  have "heap = []"
  proof (cases heap)
    case (Cons e es)
    then obtain v i k where e: "e = (v, i, k)" by (cases e) auto
    then have "k < length (runs ! i)" using 0 Cons by (auto simp: entry_ok_def)
    then show ?thesis using 0 by (simp add: Cons e pending_Cons)
  qed
  then show ?case by (simp add: pending_def)
next
  case (Suc n)
  show ?case
  proof (cases "pop_least heap")
    case None
    then show ?thesis by (simp add: pop_least_None pending_def)
  next
    case (Some p)
    then obtain v i k rest where p: "pop_least heap = Some ((v, i, k), rest)" by (cases p) auto
    then have heap: "mset heap = mset ((v, i, k) # rest)" and least: "\<And>e. e \<in> set rest \<Longrightarrow> (v, i, k) \<le> e"
      using pop_least_Some [OF p] by auto
    have ok: "entry_ok runs (v, i, k)" "\<And>e. e \<in> set rest \<Longrightarrow> entry_ok runs e"
      using Suc.prems(1) mset_eq_setD [OF heap] by auto
    then have i: "i < length runs" "k < length (runs ! i)" "v = sint (runs ! i ! k)" by (simp_all add: entry_ok_def)
    let ?run = "runs ! i"
    define next_heap where
      "next_heap = (if k + 1 < length ?run then (sint (?run ! (k + 1)), i, k + 1) # rest else rest)"
    have tail: "drop k ?run = ?run ! k # drop (k + 1) ?run" using i(2) by (simp add: Cons_nth_drop_Suc)
    have pending: "pending runs heap = add_mset (?run ! k) (pending runs next_heap)"
      using pending_mset [OF heap] by (simp add: pending_Cons tail next_heap_def)
    have ok': "e \<in> set next_heap \<Longrightarrow> entry_ok runs e" for e
      using ok(2) i by (auto simp: entry_ok_def next_heap_def split: if_splits)
    then obtain out where out: "merge_runs runs n next_heap (result @ [?run ! k]) = Ok ((result @ [?run ! k]) @ out)"
      "mset out = pending runs next_heap" "sorted (map sint out)"
      using Suc.IH [of next_heap "result @ [?run ! k]"] Suc.prems(2) pending by auto
    have "v \<le> fst e" if e: "e \<in> set next_heap" for e
    proof (cases "e \<in> set rest")
      case True
      then have "(v, i, k) \<le> e" by (rule least)
      then show ?thesis by (auto simp: less_eq_prod_def less_prod_def)
    next
      case False
      then have "fst e = sint (?run ! (k + 1))" "k + 1 < length ?run"
        using e by (auto simp: next_heap_def split: if_splits)
      moreover have "sorted (map sint ?run)" using sorted i(1) by simp
      then have "k + 1 < length ?run \<Longrightarrow> map sint ?run ! k \<le> map sint ?run ! (k + 1)"
        by (intro sorted_nth_mono) simp_all
      ultimately show ?thesis using i by simp
    qed
    from pending_least [OF ok' sorted this] have "v \<le> sint w" if "w \<in> set out" for w
      using that out(2) by (metis set_mset_mset)
    then have "sorted (map sint (?run ! k # out))" using out(3) i(3) by auto
    moreover have "merge_runs runs (Suc n) heap result = Ok (result @ (?run ! k # out))"
      using p i out(1) by (simp add: index_at_ok next_heap_def)
    ultimately show ?thesis using out(2) pending by (intro exI [of _ "?run ! k # out"]) auto
  qed
qed

section \<open>The external sort\<close>

definition sorter_ok :: "i64 list \<Rightarrow> merge_sorter \<Rightarrow> bool" where
  "sorter_ok vs s \<longleftrightarrow> mset (concat (ms_runs s)) + mset (ms_buffer s) = mset vs
     \<and> (\<forall>run\<in>set (ms_runs s). run \<noteq> [] \<and> sorted (map sint run))"

lemma sorter_ok_spill [inv_intro]: "sorter_ok vs s \<Longrightarrow> sorter_ok vs (ms_spill s) \<and> ms_buffer (ms_spill s) = []"
  by (auto simp: sorter_ok_def ms_spill_def simp flip: length_greater_0_conv)

lemma sorter_ok_push [inv_intro]: "sorter_ok vs s \<Longrightarrow> sorter_ok (vs @ [v]) (ms_push v s)"
proof -
  assume s: "sorter_ok vs s"
  then have "sorter_ok (vs @ [v]) (s\<lparr>ms_buffer := ms_buffer s @ [v]\<rparr>)" by (auto simp: sorter_ok_def)
  then show ?thesis using sorter_ok_spill by (auto simp: ms_push_def Let_def)
qed

definition ms_push_all :: "i64 list \<Rightarrow> merge_sorter \<Rightarrow> merge_sorter" where
  "ms_push_all vs s = foldl (\<lambda>s v. ms_push v s) s vs"

lemma sorter_ok_push_all: "sorter_ok ws s \<Longrightarrow> sorter_ok (ws @ vs) (ms_push_all vs s)"
proof (induction vs arbitrary: ws s)
  case (Cons v vs)
  then show ?case using Cons.IH [OF sorter_ok_push [OF Cons.prems, of v]] by (simp add: ms_push_all_def)
qed (simp add: ms_push_all_def)

lemma heap_start_ok: "\<forall>e\<in>set (heap_start runs). entry_ok runs e"
  by (auto simp: heap_start_def entry_ok_def in_set_enumerate_eq hd_conv_nth)

lemma pending_start: "pending runs (heap_start runs) = mset (concat runs)"
proof -
  have "pending runs (map (\<lambda>(i, run). (sint (hd run), i, 0)) (filter (\<lambda>(i, run). run \<noteq> []) (enumerate (length pre) post)))
      = mset (concat post)" if "runs = pre @ post" for pre post
    using that
  proof (induction post arbitrary: pre)
    case (Cons run post)
    then have "runs ! length pre = run" by simp
    moreover from Cons have "pending runs (map (\<lambda>(i, run). (sint (hd run), i, 0))
        (filter (\<lambda>(i, run). run \<noteq> []) (enumerate (Suc (length pre)) post))) = mset (concat post)"
      using Cons.IH [of "pre @ [run]"] by simp
    ultimately show ?case by (simp add: pending_Cons)
  qed (simp add: pending_def)
  from this [of "[]" runs] show ?thesis by (simp add: heap_start_def)
qed

lemma ms_finish_sorted:
  assumes "sorter_ok vs s"
  shows "ms_finish s = Ok (sort_key sint vs)"
proof -
  let ?runs = "ms_runs (ms_spill s)"
  have ok: "mset (concat ?runs) = mset vs" "\<And>run. run \<in> set ?runs \<Longrightarrow> sorted (map sint run)"
    using sorter_ok_spill [OF assms] by (auto simp: sorter_ok_def)
  have inj: "inj_on sint (set xs)" for xs :: "i64 list" by (simp add: inj_on_def sint_eq_iff)
  have unique: "mset xs = mset vs \<Longrightarrow> sorted (map sint xs) \<Longrightarrow> xs = sort_key sint vs" for xs
    using sort_key_inj_key_eq [of vs xs sint] inj by metis
  have size: "size (pending ?runs (heap_start ?runs)) = sum_list (map length ?runs)"
    by (simp add: pending_start size_mset length_concat)
  consider "?runs = []" | run where "?runs = [run]" | a b rest where "?runs = a # b # rest"
    by (metis list.exhaust)
  then show ?thesis
  proof cases
    case 3
    obtain out where "merge_runs ?runs (sum_list (map length ?runs)) (heap_start ?runs) [] = Ok ([] @ out)"
      "mset out = mset (concat ?runs)" "sorted (map sint out)"
      using merge_runs_sorts [of ?runs "heap_start ?runs" "sum_list (map length ?runs)" "[]"]
        heap_start_ok [of ?runs] ok(2) pending_start [of ?runs] size
      by auto
    then show ?thesis using unique ok(1) by (simp add: ms_finish_def 3)
  qed (use ok unique in \<open>auto simp: ms_finish_def\<close>)
qed

lemma external_sort: "ms_finish (ms_push_all vs (merge_sorter_new run_size)) = Ok (sort_key sint vs)"
proof (rule ms_finish_sorted)
  have "sorter_ok [] (merge_sorter_new run_size)" by (simp add: sorter_ok_def merge_sorter_new_def)
  from sorter_ok_push_all [OF this] show "sorter_ok vs (ms_push_all vs (merge_sorter_new run_size))" by simp
qed

section \<open>The hash join\<close>

lemma partition_table_lookup:
  "(case partition_table build k of Some vs \<Rightarrow> vs | None \<Rightarrow> []) = map snd (filter (\<lambda>p. fst p = k) build)"
proof -
  have "(case fold (\<lambda>(k, v) table. table(k \<mapsto> (case table k of Some vs \<Rightarrow> vs @ [v] | None \<Rightarrow> [v]))) build table k of
      Some vs \<Rightarrow> vs | None \<Rightarrow> [])
    = (case table k of Some vs \<Rightarrow> vs | None \<Rightarrow> []) @ map snd (filter (\<lambda>p. fst p = k) build)" for table
    by (induction build arbitrary: table) (auto split: option.splits)
  then show ?thesis by (simp add: partition_table_def)
qed

definition matches :: "key_pair list \<Rightarrow> key_pair \<Rightarrow> (i64 \<times> i64) list" where
  "matches build p = map (\<lambda>b. (snd b, snd p)) (filter (\<lambda>b. fst b = fst p) build)"

lemma probe_partition_matches: "probe_partition build probe = concat (map (matches build) probe)"
proof -
  have "(case partition_table build k of Some vs \<Rightarrow> map (\<lambda>bv. (bv, pv)) vs | None \<Rightarrow> []) = matches build (k, pv)" for k pv
    using arg_cong [OF partition_table_lookup [of build k], of "map (\<lambda>bv. (bv, pv))"]
    by (auto simp: matches_def split: option.splits)
  then show ?thesis by (simp add: probe_partition_def split_def)
qed

lemma mset_concat_upt: "mset (concat (map f [0..<n])) = (\<Sum>p<n. mset (f p))"
  by (induction n) (simp_all add: lessThan_Suc)

lemma mset_partitioned:
  fixes h :: "'a \<Rightarrow> nat" and n :: nat
  assumes "\<And>x. x \<in> set xs \<Longrightarrow> h x < n"
  shows "(\<Sum>p<n. mset (concat (map g (filter (\<lambda>x. h x = p) xs)))) = mset (concat (map g xs))"
  using assms
proof (induction xs)
  case (Cons x xs)
  have "mset (concat (map g (filter (\<lambda>x. h x = p) (x # xs))))
      = (if p = h x then mset (g x) else 0) + mset (concat (map g (filter (\<lambda>x. h x = p) xs)))" for p
    by auto
  moreover have "(\<Sum>p<n. if p = h x then mset (g x) else 0) = mset (g x)"
    by (subst sum.delta) (use Cons.prems [of x] in auto)
  ultimately show ?case using Cons by (simp add: sum.distrib)
qed simp

fun add_pairs :: "(i64 \<Rightarrow> i64 \<Rightarrow> hybrid_join \<Rightarrow> hybrid_join cen_result) \<Rightarrow> key_pair list \<Rightarrow> hybrid_join \<Rightarrow> hybrid_join cen_result" where
  "add_pairs add [] j = Ok j"
| "add_pairs add ((k, v) # ps) j = and_then (add k v j) (add_pairs add ps)"

definition key_hash :: "nat \<Rightarrow> i64 \<Rightarrow> nat" where
  "key_hash n k = unat (k * 0x9E3779B97F4A7C15) mod n"

text \<open>The pairs a join holds on each side.\<close>

definition holds_pairs :: "nat \<Rightarrow> key_pair list \<Rightarrow> key_pair list \<Rightarrow> hybrid_join \<Rightarrow> bool" where
  "holds_pairs n bs ps j \<longleftrightarrow> 0 < n \<and> hj_partition_count j = n \<and> length (hj_build j) = n \<and> length (hj_probe j) = n
     \<and> (\<forall>p<n. hj_build j ! p = filter (\<lambda>b. key_hash n (fst b) = p) bs
          \<and> hj_probe j ! p = filter (\<lambda>b. key_hash n (fst b) = p) ps)"

lemma holds_new: "0 < n \<Longrightarrow> holds_pairs n [] [] (hybrid_join_new n)"
  by (simp add: holds_pairs_def hybrid_join_new_def)

lemma add_build_holds: "holds_pairs n bs ps j \<Longrightarrow> \<exists>j'. add_build k v j = Ok j' \<and> holds_pairs n (bs @ [(k, v)]) ps j'"
  by (auto simp: holds_pairs_def add_build_def hash_partition_def key_hash_def nth_list_update)

lemma add_probe_holds: "holds_pairs n bs ps j \<Longrightarrow> \<exists>j'. add_probe k v j = Ok j' \<and> holds_pairs n bs (ps @ [(k, v)]) j'"
  by (auto simp: holds_pairs_def add_probe_def hash_partition_def key_hash_def nth_list_update)

lemma add_builds_hold: "holds_pairs n bs ps j \<Longrightarrow> \<exists>j'. add_pairs add_build xs j = Ok j' \<and> holds_pairs n (bs @ xs) ps j'"
proof (induction xs arbitrary: bs j)
  case (Cons x xs)
  obtain k v where x: "x = (k, v)" by fastforce
  obtain j' where "add_build k v j = Ok j'" "holds_pairs n (bs @ [(k, v)]) ps j'"
    using add_build_holds [OF Cons.prems] by blast
  then show ?case using Cons.IH by (fastforce simp: x)
qed simp

lemma add_probes_hold: "holds_pairs n bs ps j \<Longrightarrow> \<exists>j'. add_pairs add_probe xs j = Ok j' \<and> holds_pairs n bs (ps @ xs) j'"
proof (induction xs arbitrary: ps j)
  case (Cons x xs)
  obtain k v where x: "x = (k, v)" by fastforce
  obtain j' where "add_probe k v j = Ok j'" "holds_pairs n bs (ps @ [(k, v)]) j'"
    using add_probe_holds [OF Cons.prems] by blast
  then show ?case using Cons.IH by (fastforce simp: x)
qed simp

lemma partition_matches:
  assumes "key_hash n (fst x) = p"
  shows "matches (filter (\<lambda>b. key_hash n (fst b) = p) bs) x = matches bs x"
proof -
  have "filter (\<lambda>b. fst b = fst x) (filter (\<lambda>b. key_hash n (fst b) = p) bs) = filter (\<lambda>b. fst b = fst x) bs"
    unfolding filter_filter by (rule filter_cong) (use assms in auto)
  then show ?thesis by (simp only: matches_def)
qed

lemma execute_join_matches:
  assumes "holds_pairs n bs ps j"
  shows "mset (fst (execute_join j)) = mset (concat (map (matches bs) ps))"
proof -
  have "probe_partition (hj_build j ! p) (hj_probe j ! p)
      = concat (map (matches bs) (filter (\<lambda>x. key_hash n (fst x) = p) ps))" if "p < n" for p
  proof -
    have "map (matches (filter (\<lambda>b. key_hash n (fst b) = p) bs)) (filter (\<lambda>x. key_hash n (fst x) = p) ps)
        = map (matches bs) (filter (\<lambda>x. key_hash n (fst x) = p) ps)"
      by (rule map_cong) (auto simp: partition_matches)
    moreover have "hj_build j ! p = filter (\<lambda>b. key_hash n (fst b) = p) bs"
      "hj_probe j ! p = filter (\<lambda>b. key_hash n (fst b) = p) ps"
      using assms that by (simp_all add: holds_pairs_def)
    ultimately show ?thesis by (simp only: probe_partition_matches)
  qed
  then have "mset (fst (execute_join j))
      = (\<Sum>p<n. mset (concat (map (matches bs) (filter (\<lambda>x. key_hash n (fst x) = p) ps))))"
    using assms by (simp add: execute_join_def mset_concat_upt holds_pairs_def)
  also have "\<dots> = mset (concat (map (matches bs) ps))"
    by (rule mset_partitioned) (use assms in \<open>simp add: key_hash_def holds_pairs_def\<close>)
  finally show ?thesis .
qed

lemma hybrid_join_matches:
  assumes "0 < n"
  shows "\<exists>j k. add_pairs add_build bs (hybrid_join_new n) = Ok j \<and> add_pairs add_probe ps j = Ok k
    \<and> mset (fst (execute_join k)) = mset (concat (map (matches bs) ps))"
proof -
  obtain j where j: "add_pairs add_build bs (hybrid_join_new n) = Ok j" "holds_pairs n bs [] j"
    using add_builds_hold [OF holds_new [OF assms], of bs] by auto
  obtain k where k: "add_pairs add_probe ps j = Ok k" "holds_pairs n bs ps k"
    using add_probes_hold [OF j(2), of ps] by auto
  show ?thesis using j(1) k(1) execute_join_matches [OF k(2)] by blast
qed

section \<open>Properties\<close>

text \<open>
  The vectorised filters select by position what their scalar tests select: gathering a selection
  from its column yields the values that pass, in order, for each comparison of integers and, in
  chunks of eight with a remainder, of floats, as long as the column's positions fit in 32 bits.
\<close>

lemma vectorised_filters_select:
  assumes "length col \<le> 2 ^ 32"
  shows "gather_i64 (filter_i64_eq col x) col = Ok (filter (\<lambda>v. v = x) col)
    \<and> gather_i64 (filter_i64_ne col x) col = Ok (filter (\<lambda>v. v \<noteq> x) col)
    \<and> gather_i64 (filter_i64_gt col x) col = Ok (filter (\<lambda>v. sint x < sint v) col)
    \<and> gather_i64 (filter_i64_ge col x) col = Ok (filter (\<lambda>v. sint x \<le> sint v) col)
    \<and> gather_i64 (filter_i64_lt col x) col = Ok (filter (\<lambda>v. sint v < sint x) col)
    \<and> gather_i64 (filter_i64_le col x) col = Ok (filter (\<lambda>v. sint v \<le> sint x) col)
    \<and> gather_i64 (filter_f64_gt col x) col = Ok (filter (\<lambda>b. float_less x b) col)
    \<and> gather_i64 (filter_f64_lt col x) col = Ok (filter (\<lambda>b. float_less b x) col)
    \<and> gather_i64 (filter_f64_ge col x) col = Ok (filter (\<lambda>b. float_le x b) col)
    \<and> gather_i64 (filter_f64_le col x) col = Ok (filter (\<lambda>b. float_le b x) col)"
  by (simp add: gather_select [OF assms] chunked_select_from filter_i64_eq_def filter_i64_ne_def filter_i64_gt_def
      filter_i64_ge_def filter_i64_lt_def filter_i64_le_def filter_f64_gt_def filter_f64_lt_def filter_f64_ge_def
      filter_f64_le_def)

lemma vectorised_filters_select_witness:
  "gather_i64 (filter_i64_gt [1, 5, - 2, 7] 4) [1, 5, - 2, 7] = Ok (filter (\<lambda>v. sint (4 :: i64) < sint v) [1, 5, - 2, 7])"
proof -
  have "length [1, 5, - 2, 7 :: i64] \<le> 2 ^ 32" by simp
  from vectorised_filters_select [OF this] show ?thesis by blast
qed

text \<open>The float filter for equality compares bits: it misses the other zero and matches a NaN.\<close>

lemma filter_f64_eq_is_bitwise:
  "filter_f64_eq [0, push_bit 63 1] 0 = [0]" "float_equal 0 (push_bit 63 1)"
  "filter_f64_eq [0x7FF8000000000000] 0x7FF8000000000000 = [0]" "\<not> float_equal 0x7FF8000000000000 0x7FF8000000000000"
  by (simp add: filter_f64_eq_def) (code_simp)+

text \<open>C19:
  External sorting: for every size of the runs, also zero, and every sequence of pushed values,
  spilling sorted runs and merging them with the heap returns the sorted sequence of exactly the
  pushed values; no position of a run is out of range and the merge ends.
\<close>

theorem external_sort_sorts:
  "ms_finish (ms_push_all vs (merge_sorter_new run_size)) = Ok (sort_key sint vs)"
  by (rule external_sort)

text \<open>C20:
  The partitioned hash join returns, as often, the pairs of all build and probe values with equal
  keys, whatever the number of partitions, if there is one, and however the hash distributes the keys.
\<close>

theorem hybrid_join_is_equi_join:
  assumes "0 < n"
  shows "\<exists>j k. add_pairs add_build bs (hybrid_join_new n) = Ok j \<and> add_pairs add_probe ps j = Ok k
    \<and> mset (fst (execute_join k)) = mset (concat (map (\<lambda>p. map (\<lambda>b. (snd b, snd p)) (filter (\<lambda>b. fst b = fst p) bs)) ps))"
  using hybrid_join_matches [OF assms, of bs ps] unfolding matches_def [abs_def] .

theorem hybrid_join_is_equi_join_witness:
  "\<exists>j k. add_pairs add_build [(1, 100), (2, 200), (2, 201)] (hybrid_join_new 4) = Ok j
    \<and> add_pairs add_probe [(2, 20), (4, 40)] j = Ok k \<and> mset (fst (execute_join k)) = {#(200, 20), (201, 20)#}"
  using hybrid_join_is_equi_join [of 4 "[(1, 100), (2, 200), (2, 201)]" "[(2, 20), (4, 40)]"] by simp

lemma no_partition_panics: "add_build k v (hybrid_join_new 0) = Panic"
  by (simp add: add_build_def hash_partition_def hybrid_join_new_def)

end
