(* ===== verification/Lexer.thy ===== *)
theory Lexer
  imports CenPrelude
begin

text \<open>
  The tokenizer of the query language (\<open>cendb-cenql/src/lexer.rs\<close>). A source is the list
  of its UTF-8 bytes, each a character of HOL. The tokenizer's state, the source and a position,
  is the position and the bytes from it on. The conversions of slices to strings are kept: they
  panic on invalid UTF-8.
\<close>

section \<open>Tokens and errors\<close>

datatype token_kind =
    TkFrom | TkFilter | TkSelect | TkSort | TkAsc | TkDesc | TkTake | TkJoin | TkOn | TkInner
  | TkLeft | TkRight | TkFull | TkGroupBy | TkWindow | TkTumbling | TkHopping | TkSession
  | TkMatch | TkReturn | TkDistinct | TkLast | TkAnd | TkOr | TkNot
  | TkIdent | TkI64 | TkF64 | TkStr | TkDuration
  | TkPipe | TkLBrace | TkRBrace | TkLParen | TkRParen | TkLBracket | TkRBracket
  | TkComma | TkColon | TkDot | TkArrow | TkBackArrow | TkStar | TkQuestion
  | TkEqEq | TkAssign | TkNotEq | TkLt | TkLe | TkGt | TkGe | TkPlus | TkMinus | TkSlash
  | TkStarOp | TkEof

record token =
  tk_kind :: token_kind
  tk_text :: string
  tk_offset :: nat

definition token_new :: "token_kind \<Rightarrow> string \<Rightarrow> nat \<Rightarrow> token" where
  "token_new kind txt offset = \<lparr>tk_kind = kind, tk_text = txt, tk_offset = offset\<rparr>"

record lex_error =
  le_message :: string
  le_offset :: nat

definition lex_error_new :: "string \<Rightarrow> nat \<Rightarrow> lex_error" where
  "lex_error_new msg offset = \<lparr>le_message = msg, le_offset = offset\<rparr>"

definition lex_error_display :: "lex_error \<Rightarrow> string" where
  "lex_error_display e = ''lex error at offset '' @ show_nat (le_offset e) @ '': '' @ le_message e"

section \<open>Characters and strings of the standard library\<close>

abbreviation code :: "char \<Rightarrow> nat" where
  "code c \<equiv> of_char c"

definition is_ascii_whitespace :: "char \<Rightarrow> bool" where
  "is_ascii_whitespace c \<longleftrightarrow> code c \<in> {9, 10, 12, 13, 32}"

definition is_ascii_digit :: "char \<Rightarrow> bool" where
  "is_ascii_digit c \<longleftrightarrow> 48 \<le> code c \<and> code c \<le> 57"

definition is_ascii_alphabetic :: "char \<Rightarrow> bool" where
  "is_ascii_alphabetic c \<longleftrightarrow> (65 \<le> code c \<and> code c \<le> 90) \<or> (97 \<le> code c \<and> code c \<le> 122)"

definition is_ascii_alphanumeric :: "char \<Rightarrow> bool" where
  "is_ascii_alphanumeric c \<longleftrightarrow> is_ascii_alphabetic c \<or> is_ascii_digit c"

definition is_ident_start :: "char \<Rightarrow> bool" where
  "is_ident_start c \<longleftrightarrow> is_ascii_alphabetic c \<or> c = CHR ''_''"

definition is_ident_char :: "char \<Rightarrow> bool" where
  "is_ident_char c \<longleftrightarrow> is_ascii_alphanumeric c \<or> c = CHR ''_''"

text \<open>The byte sequences that \<open>str::from_utf8\<close> accepts.\<close>

definition is_cont :: "char \<Rightarrow> bool" where
  "is_cont c \<longleftrightarrow> 128 \<le> code c \<and> code c \<le> 191"

text \<open>The second byte of a sequence of three or four bytes excludes overlong forms, surrogates
  and values above the last code point.\<close>

definition is_second :: "char \<Rightarrow> char \<Rightarrow> bool" where
  "is_second b c \<longleftrightarrow> is_cont c
     \<and> (code b = 224 \<longrightarrow> 160 \<le> code c) \<and> (code b = 237 \<longrightarrow> code c \<le> 159)
     \<and> (code b = 240 \<longrightarrow> 144 \<le> code c) \<and> (code b = 244 \<longrightarrow> code c \<le> 143)"

fun valid_utf8 :: "string \<Rightarrow> bool" where
  "valid_utf8 [] = True"
| "valid_utf8 (b # bs) =
     (if code b < 128 then valid_utf8 bs
      else if 194 \<le> code b \<and> code b \<le> 223
      then (case bs of c1 # cs \<Rightarrow> is_cont c1 \<and> valid_utf8 cs | _ \<Rightarrow> False)
      else if 224 \<le> code b \<and> code b \<le> 239
      then (case bs of c1 # c2 # cs \<Rightarrow> is_second b c1 \<and> is_cont c2 \<and> valid_utf8 cs | _ \<Rightarrow> False)
      else if 240 \<le> code b \<and> code b \<le> 244
      then (case bs of c1 # c2 # c3 # cs \<Rightarrow> is_second b c1 \<and> is_cont c2 \<and> is_cont c3 \<and> valid_utf8 cs
            | _ \<Rightarrow> False)
      else False)"

definition from_utf8_unwrap :: "string \<Rightarrow> (string, 'e) outcome" where
  "from_utf8_unwrap bs = (if valid_utf8 bs then Ok bs else Panic)"

text \<open>A byte cast to \<open>char\<close>, in UTF-8.\<close>

definition byte_as_char :: "char \<Rightarrow> string" where
  "byte_as_char b = (if code b < 128 then [b]
     else [char_of (192 + code b div 64), char_of (128 + code b mod 64)])"

section \<open>The tokenizer\<close>

text \<open>White space and comments.\<close>

function skip_blank :: "nat \<Rightarrow> string \<Rightarrow> nat \<times> string" where
  "skip_blank pos bytes =
     (case bytes of
        [] \<Rightarrow> (pos, [])
      | b # rest \<Rightarrow>
          if is_ascii_whitespace b then skip_blank (pos + 1) rest
          else if b = CHR ''-'' \<and> (case rest of c # _ \<Rightarrow> c = CHR ''-'' | [] \<Rightarrow> False)
          then (let comment = takeWhile (\<lambda>c. c \<noteq> CHR 0x0A) bytes
                in skip_blank (pos + length comment) (dropWhile (\<lambda>c. c \<noteq> CHR 0x0A) bytes))
          else (pos, bytes))"
  by pat_completeness auto
termination
  by (relation "measure (\<lambda>(pos, bytes). length bytes)")
    (auto simp: le_imp_less_Suc length_dropWhile_le)

declare skip_blank.simps [simp del]

definition keyword_kind :: "string \<Rightarrow> token_kind" where
  "keyword_kind txt =
     (if txt = ''from'' then TkFrom else if txt = ''filter'' then TkFilter
      else if txt = ''select'' then TkSelect else if txt = ''sort'' then TkSort
      else if txt = ''asc'' then TkAsc else if txt = ''desc'' then TkDesc
      else if txt = ''take'' then TkTake else if txt = ''join'' then TkJoin
      else if txt = ''on'' then TkOn else if txt = ''inner'' then TkInner
      else if txt = ''left'' then TkLeft else if txt = ''right'' then TkRight
      else if txt = ''full'' then TkFull else if txt = ''group_by'' then TkGroupBy
      else if txt = ''window'' then TkWindow else if txt = ''tumbling'' then TkTumbling
      else if txt = ''hopping'' then TkHopping else if txt = ''session'' then TkSession
      else if txt = ''match'' then TkMatch else if txt = ''return'' then TkReturn
      else if txt = ''distinct'' then TkDistinct else if txt = ''last'' then TkLast
      else if txt = ''and'' then TkAnd else if txt = ''or'' then TkOr
      else if txt = ''not'' then TkNot else TkIdent)"

type_synonym lexed = "(token \<times> nat \<times> string, lex_error) outcome"

definition lex_ident :: "nat \<Rightarrow> string \<Rightarrow> lexed" where
  "lex_ident start bytes =
     (let word = takeWhile is_ident_char bytes
      in and_then (from_utf8_unwrap word) (\<lambda>txt.
           Ok (token_new (keyword_kind txt) txt start, start + length word, drop (length word) bytes)))"

text \<open>The digits and decimal points from a position on, and whether a decimal point is among them.\<close>

fun scan_number :: "bool \<Rightarrow> string \<Rightarrow> string \<times> bool" where
  "scan_number is_float [] = ([], is_float)"
| "scan_number is_float (b # bs) =
     (if is_ascii_digit b
      then (let (digits, f) = scan_number is_float bs in (b # digits, f))
      else if b = CHR ''.'' \<and> (case bs of c # _ \<Rightarrow> is_ascii_digit c | [] \<Rightarrow> False)
      then (let (digits, f) = scan_number True bs in (b # digits, f))
      else ([], is_float))"

definition has_duration_unit :: "string \<Rightarrow> bool" where
  "has_duration_unit rest =
     (case rest of
        next # after \<Rightarrow> next \<in> {CHR ''m'', CHR ''h'', CHR ''s'', CHR ''d''}
          \<and> (case after of c # _ \<Rightarrow> \<not> is_ascii_alphanumeric c | [] \<Rightarrow> True)
      | [] \<Rightarrow> False)"

definition lex_number :: "nat \<Rightarrow> string \<Rightarrow> lexed" where
  "lex_number start bytes =
     (let (digits, is_float) = scan_number False bytes;
          rest = drop (length digits) bytes;
          n = length digits
      in if has_duration_unit rest
         then and_then (from_utf8_unwrap (take (n + 1) bytes)) (\<lambda>txt.
                Ok (token_new TkDuration txt start, start + n + 1, drop (n + 1) bytes))
         else and_then (from_utf8_unwrap (take n bytes)) (\<lambda>txt.
                Ok (token_new (if is_float then TkF64 else TkI64) txt start, start + n, rest)))"

text \<open>The content of a string literal after its opening quote, up to the closing quote.\<close>

fun scan_string :: "string \<Rightarrow> string option" where
  "scan_string [] = None"
| "scan_string [b] = (if b = CHR 0x22 then Some [] else None)"
| "scan_string (b # c # bs) =
     (if b = CHR 0x22 then Some []
      else if b = CHR 0x5C then map_option (\<lambda>s. b # c # s) (scan_string bs)
      else map_option (\<lambda>s. b # s) (scan_string (c # bs)))"

definition lex_string :: "nat \<Rightarrow> string \<Rightarrow> lexed" where
  "lex_string start bytes =
     (case scan_string (tl bytes) of
        Some content \<Rightarrow>
          and_then (from_utf8_unwrap content) (\<lambda>txt.
            Ok (token_new TkStr txt start, start + 1 + length content + 1,
                drop (1 + length content + 1) bytes))
      | None \<Rightarrow> Err (lex_error_new ''unterminated string literal'' start))"

definition quote :: char where "quote = CHR 0x27"

text \<open>The kind and the length of the punctuation or operator at a position.\<close>

definition punctuation :: "nat \<Rightarrow> char \<Rightarrow> char option \<Rightarrow> (token_kind \<times> nat, lex_error) outcome" where
  "punctuation start b next =
     (if b = CHR ''|'' then Ok (TkPipe, 1)
      else if b = CHR 0x7B then Ok (TkLBrace, 1)
      else if b = CHR 0x7D then Ok (TkRBrace, 1)
      else if b = CHR ''('' then Ok (TkLParen, 1)
      else if b = CHR '')'' then Ok (TkRParen, 1)
      else if b = CHR ''['' then Ok (TkLBracket, 1)
      else if b = CHR '']'' then Ok (TkRBracket, 1)
      else if b = CHR '','' then Ok (TkComma, 1)
      else if b = CHR '':'' then Ok (TkColon, 1)
      else if b = CHR ''.'' then Ok (TkDot, 1)
      else if b = CHR ''*'' then Ok (TkStar, 1)
      else if b = CHR ''?'' then Ok (TkQuestion, 1)
      else if b = CHR ''+'' then Ok (TkPlus, 1)
      else if b = CHR ''-'' then (if next = Some (CHR ''>'') then Ok (TkArrow, 2) else Ok (TkMinus, 1))
      else if b = CHR ''/'' then Ok (TkSlash, 1)
      else if b = CHR ''<'' then
        (if next = Some (CHR ''='') then Ok (TkLe, 2)
         else if next = Some (CHR ''-'') then Ok (TkBackArrow, 2) else Ok (TkLt, 1))
      else if b = CHR ''>'' then (if next = Some (CHR ''='') then Ok (TkGe, 2) else Ok (TkGt, 1))
      else if b = CHR ''='' then (if next = Some (CHR ''='') then Ok (TkEqEq, 2) else Ok (TkAssign, 1))
      else if b = CHR ''!'' then
        (if next = Some (CHR ''='') then Ok (TkNotEq, 2)
         else Err (lex_error_new (''expected '' @ [quote] @ ''!='' @ [quote] @ '', got '' @ [quote] @ ''!'' @ [quote]) start))
      else Err (lex_error_new (''unexpected character '' @ [quote] @ byte_as_char b @ [quote]) start))"

definition next_token :: "nat \<Rightarrow> string \<Rightarrow> lexed" where
  "next_token pos0 bytes0 =
     (let (pos, bytes) = skip_blank pos0 bytes0
      in case bytes of
        [] \<Rightarrow> Ok (token_new TkEof [] pos, pos, [])
      | b # rest \<Rightarrow>
          if is_ident_start b then lex_ident pos bytes
          else if is_ascii_digit b then lex_number pos bytes
          else if b = CHR 0x22 then lex_string pos bytes
          else and_then (punctuation pos b (case rest of c # _ \<Rightarrow> Some c | [] \<Rightarrow> None)) (\<lambda>(kind, len).
                 and_then (from_utf8_unwrap (take len bytes)) (\<lambda>txt.
                   Ok (token_new kind txt pos, pos + len, drop len bytes))))"

section \<open>Progress of the tokenizer\<close>

lemma skip_blank_suffix:
  "skip_blank pos bytes = (p, r) \<Longrightarrow> \<exists>blank. bytes = blank @ r \<and> p = pos + length blank"
proof (induction pos bytes arbitrary: p r rule: skip_blank.induct)
  case (1 pos bytes)
  note step = "1.prems" [unfolded skip_blank.simps [of pos bytes]]
  show ?case
  proof (cases bytes)
    case Nil
    then show ?thesis using step by simp
  next
    case (Cons b rest)
    let ?nl = "\<lambda>c. c \<noteq> CHR 0x0A"
    let ?comment = "b = CHR ''-'' \<and> (case rest of c # _ \<Rightarrow> c = CHR ''-'' | [] \<Rightarrow> False)"
    consider "is_ascii_whitespace b" | "\<not> is_ascii_whitespace b" ?comment
      | "\<not> is_ascii_whitespace b" "\<not> ?comment" by blast
    then show ?thesis
    proof cases
      case 1
      then obtain blank where "rest = blank @ r" "p = pos + 1 + length blank"
        using "1.IH"(1) [of b rest p r] Cons step by auto
      then show ?thesis using Cons by (intro exI [of _ "b # blank"]) simp
    next
      case 2
      then obtain blank where "dropWhile ?nl bytes = blank @ r"
          "p = pos + length (takeWhile ?nl bytes) + length blank"
        using "1.IH"(2) [of b rest "takeWhile ?nl bytes" p r] Cons step by (auto simp: Let_def)
      moreover have "bytes = takeWhile ?nl bytes @ dropWhile ?nl bytes" by simp
      ultimately show ?thesis
        by (intro exI [of _ "takeWhile ?nl bytes @ blank"]) (simp del: takeWhile_dropWhile_id)
    next
      case 3
      then show ?thesis using Cons step by auto
    qed
  qed
qed

lemma scan_number_prefix: "scan_number f bs = (digits, g) \<Longrightarrow> \<exists>rest. bs = digits @ rest"
  by (induction f bs arbitrary: digits g rule: scan_number.induct) (auto split: if_splits prod.splits)

lemma scan_number_nonempty:
  "scan_number f (b # bs) = (digits, g) \<Longrightarrow> is_ascii_digit b \<Longrightarrow> digits \<noteq> []"
  by (auto split: prod.splits)

lemma scan_string_prefix: "scan_string bs = Some s \<Longrightarrow> \<exists>rest. bs = s @ CHR 0x22 # rest"
  by (induction bs arbitrary: s rule: scan_string.induct) (auto split: if_splits)

lemma keyword_kind_not_eof: "keyword_kind txt \<noteq> TkEof"
  by (simp add: keyword_kind_def)

lemma punctuation_len:
  "punctuation p b next = Ok (kind, len) \<Longrightarrow> kind \<noteq> TkEof \<and> 0 < len \<and> (len = 1 \<or> len = 2 \<and> next \<noteq> None)"
  by (auto simp: punctuation_def split: if_splits)

lemma from_utf8_unwrap_Ok: "from_utf8_unwrap s = Ok t \<longleftrightarrow> valid_utf8 s \<and> t = s"
  by (auto simp: from_utf8_unwrap_def)

text \<open>A token and the blank before it are a prefix of the source; only the end of the source
  consumes nothing.\<close>

lemma next_token_shorter:
  assumes "next_token pos bytes = Ok (tok, pos', rest)" "tk_kind tok \<noteq> TkEof"
  shows "length rest < length bytes"
proof -
  obtain p r where skip: "skip_blank pos bytes = (p, r)" by fastforce
  obtain blank where bytes: "bytes = blank @ r" using skip_blank_suffix [OF skip] by blast
  obtain b bs where r: "r = b # bs"
    using assms skip by (cases r) (auto simp: next_token_def token_new_def)
  have "length rest < length r"
  proof (cases "is_ident_start b")
    case True
    then have "is_ident_char b" by (auto simp: is_ident_start_def is_ident_char_def is_ascii_alphanumeric_def)
    then show ?thesis
      using assms skip True by (auto simp: r next_token_def lex_ident_def Let_def)
  next
    case False
    obtain digits f where sn: "scan_number False r = (digits, f)" by fastforce
    show ?thesis
    proof (cases "is_ascii_digit b")
      case True
      then have "digits \<noteq> []" using scan_number_nonempty sn r by blast
      then show ?thesis
        using assms skip sn True False r
        by (auto simp: next_token_def lex_number_def Let_def split: if_splits)
    next
      case nodigit: False
      show ?thesis
        using assms skip False nodigit punctuation_len [of p b]
        by (auto simp: r next_token_def lex_string_def Let_def split: if_splits option.splits)
    qed
  qed
  then show ?thesis using bytes by simp
qed

function tokenize_loop :: "nat \<Rightarrow> string \<Rightarrow> (token list, lex_error) outcome" where
  "tokenize_loop pos bytes =
     (case next_token pos bytes of
        Ok (tok, pos', rest) \<Rightarrow>
          if tk_kind tok = TkEof then Ok [tok]
          else and_then (tokenize_loop pos' rest) (\<lambda>toks. Ok (tok # toks))
      | Err e \<Rightarrow> Err e
      | Panic \<Rightarrow> Panic)"
  by pat_completeness auto
termination
  by (relation "measure (\<lambda>(pos, bytes). length bytes)") (auto dest: next_token_shorter)

declare tokenize_loop.simps [simp del]

definition tokenize :: "string \<Rightarrow> (token list, lex_error) outcome" where
  "tokenize src = tokenize_loop 0 src"

section \<open>Slices of valid UTF-8\<close>

lemma valid_utf8_ascii: "code c < 128 \<Longrightarrow> valid_utf8 (c # b) \<longleftrightarrow> valid_utf8 b"
  by simp

lemma not_cont_ascii: "code c < 128 \<Longrightarrow> \<not> is_cont c" "code c < 128 \<Longrightarrow> \<not> is_second d c"
  by (simp_all add: is_cont_def is_second_def)

text \<open>An ASCII byte is a boundary of characters.\<close>

lemma valid_utf8_split:
  "code c < 128 \<Longrightarrow> valid_utf8 (a @ c # b) \<longleftrightarrow> valid_utf8 a \<and> valid_utf8 b"
proof (induction a rule: valid_utf8.induct)
  case (2 x xs)
  note ascii = not_cont_ascii [OF "2.prems"]
  consider "code x < 128" | "194 \<le> code x" "code x \<le> 223" | "224 \<le> code x" "code x \<le> 239"
    | "240 \<le> code x" "code x \<le> 244" | "code x \<ge> 128" "code x < 194 \<or> 244 < code x"
    by linarith
  then show ?case
  proof cases
    case 1
    then show ?thesis using 2 by simp
  next
    case 2
    then show ?thesis using "2.IH"(2) "2.prems" ascii by (cases xs) auto
  next
    case 3
    then show ?thesis using "2.IH"(3) "2.prems" ascii
      by (cases xs; cases "tl xs") (auto split: list.splits)
  next
    case 4
    then show ?thesis using "2.IH"(4) "2.prems" ascii
      by (cases xs; cases "tl xs"; cases "tl (tl xs)") (auto split: list.splits)
  next
    case 5
    then show ?thesis by auto
  qed
qed simp

lemma valid_utf8_all_ascii: "(\<forall>c\<in>set a. code c < 128) \<Longrightarrow> valid_utf8 (a @ b) \<longleftrightarrow> valid_utf8 b"
  by (induction a) auto

lemma valid_utf8_ascii_word: "(\<forall>c\<in>set a. code c < 128) \<Longrightarrow> valid_utf8 a"
  using valid_utf8_all_ascii [of a "[]"] by simp

lemma ident_char_ascii: "is_ident_char c \<Longrightarrow> code c < 128"
  by (auto simp: is_ident_char_def is_ascii_alphanumeric_def is_ascii_alphabetic_def is_ascii_digit_def)

lemma scan_number_chars:
  "scan_number f bs = (digits, g) \<Longrightarrow> c \<in> set digits \<Longrightarrow> is_ascii_digit c \<or> c = CHR ''.''"
  by (induction f bs arbitrary: digits g rule: scan_number.induct) (auto split: if_splits prod.splits)

lemma skip_blank_valid:
  "valid_utf8 bytes \<Longrightarrow> valid_utf8 (snd (skip_blank pos bytes))"
proof (induction pos bytes rule: skip_blank.induct)
  case (1 pos bytes)
  let ?nl = "\<lambda>c. c \<noteq> CHR 0x0A"
  have drop: "valid_utf8 (dropWhile ?nl bytes)"
  proof (cases "dropWhile ?nl bytes")
    case (Cons c cs)
    then have "c = CHR 0x0A" by (simp add: dropWhile_eq_Cons_conv)
    moreover have "bytes = takeWhile ?nl bytes @ c # cs"
      using Cons takeWhile_dropWhile_id [of ?nl bytes] by simp
    ultimately show ?thesis
      using "1.prems" valid_utf8_split [of c "takeWhile ?nl bytes" cs] Cons by simp
  next
    case Nil
    show ?thesis unfolding Nil by simp
  qed
  show ?case
  proof (cases bytes)
    case Nil
    then show ?thesis by (simp add: skip_blank.simps)
  next
    case (Cons b bs)
    have "is_ascii_whitespace b \<Longrightarrow> valid_utf8 bs"
      using "1.prems" Cons by (auto simp: is_ascii_whitespace_def)
    then show ?thesis
      using 1 drop Cons by (subst skip_blank.simps) (auto simp: Let_def)
  qed
qed

definition lexed_ok :: "lexed \<Rightarrow> bool" where
  "lexed_ok r = (case r of Ok (tok, p, rest) \<Rightarrow> valid_utf8 rest | Err e \<Rightarrow> True | Panic \<Rightarrow> False)"

lemma lex_ident_ok:
  assumes "valid_utf8 bytes"
  shows "lexed_ok (lex_ident p bytes)"
proof -
  let ?w = "takeWhile is_ident_char bytes"
  have a: "\<forall>c\<in>set ?w. code c < 128" by (auto dest!: set_takeWhileD ident_char_ascii)
  have "valid_utf8 (dropWhile is_ident_char bytes)"
    using assms valid_utf8_all_ascii [OF a, of "dropWhile is_ident_char bytes"] by simp
  then show ?thesis
    using valid_utf8_ascii_word [OF a]
    by (simp add: lexed_ok_def lex_ident_def Let_def from_utf8_unwrap_def dropWhile_eq_drop)
qed

lemma lex_number_ok:
  assumes "valid_utf8 bytes"
  shows "lexed_ok (lex_number p bytes)"
proof -
  obtain digits f where sn: "scan_number False bytes = (digits, f)" by fastforce
  obtain rest where bytes: "bytes = digits @ rest" using scan_number_prefix [OF sn] by blast
  have a: "\<forall>c\<in>set digits. code c < 128"
    using scan_number_chars [OF sn] by (fastforce simp: is_ascii_digit_def)
  have v: "valid_utf8 digits" "valid_utf8 rest"
    using assms valid_utf8_ascii_word [OF a] valid_utf8_all_ascii [OF a] by (simp_all add: bytes)
  show ?thesis
  proof (cases "has_duration_unit rest")
    case True
    then obtain u us where rest: "rest = u # us" "code u < 128"
      by (cases rest) (auto simp: has_duration_unit_def)
    have "valid_utf8 (digits @ [u])" "valid_utf8 us"
      using v rest valid_utf8_all_ascii [OF a, of "[u]"] by simp_all
    then show ?thesis using True rest(1) sn
      by (simp add: lexed_ok_def lex_number_def bytes from_utf8_unwrap_def)
  next
    case False
    then show ?thesis using v sn
      by (simp add: lexed_ok_def lex_number_def bytes from_utf8_unwrap_def)
  qed
qed

lemma lex_string_ok:
  assumes "valid_utf8 (CHR 0x22 # bs)"
  shows "lexed_ok (lex_string p (CHR 0x22 # bs))"
proof (cases "scan_string bs")
  case None
  then show ?thesis by (simp add: lexed_ok_def lex_string_def)
next
  case (Some content)
  then obtain rest where bs: "bs = content @ CHR 0x22 # rest" using scan_string_prefix by blast
  have "valid_utf8 content" "valid_utf8 rest"
    using assms valid_utf8_split [of "CHR 0x22" content rest] by (simp_all add: bs)
  then show ?thesis using Some by (simp add: lexed_ok_def lex_string_def bs from_utf8_unwrap_def)
qed

lemma punctuation_ascii: "punctuation p b next = Ok (kind, len) \<Longrightarrow> code b < 128"
  by (auto simp: punctuation_def split: if_splits)

lemma punctuation_second:
  "punctuation p b next = Ok (kind, 2) \<Longrightarrow> \<exists>c. next = Some c \<and> code c < 128"
  by (auto simp: punctuation_def split: if_splits)

lemma punctuation_no_panic: "punctuation p b next \<noteq> Panic"
  by (simp add: punctuation_def)

lemma next_token_ok:
  assumes "valid_utf8 bytes"
  shows "lexed_ok (next_token pos bytes)"
proof -
  obtain p r where skip: "skip_blank pos bytes = (p, r)" by fastforce
  have v: "valid_utf8 r" using skip_blank_valid [OF assms, of pos] skip by simp
  show ?thesis
  proof (cases r)
    case Nil
    then show ?thesis using skip by (simp add: next_token_def lexed_ok_def)
  next
    case (Cons b bs)
    let ?next = "case bs of c # _ \<Rightarrow> Some c | [] \<Rightarrow> None"
    show ?thesis
    proof (cases "is_ident_start b \<or> is_ascii_digit b \<or> b = CHR 0x22")
      case True
      then show ?thesis
        using skip v lex_ident_ok [OF v] lex_number_ok [OF v] lex_string_ok [of bs]
        by (auto simp: next_token_def Cons)
    next
      case False
      show ?thesis
      proof (cases "punctuation p b ?next")
        case (Ok kl)
        obtain kind len where kl: "kl = (kind, len)" by fastforce
        consider "len = 1" | c cs where "len = 2" "bs = c # cs" "code c < 128"
          using punctuation_len [of p b ?next kind len] punctuation_second [of p b ?next kind] Ok kl
          by (cases bs) auto
        then show ?thesis
          using skip v False Ok kl punctuation_ascii [of p b ?next kind len]
          by cases (auto simp: next_token_def Cons lexed_ok_def from_utf8_unwrap_def)
      qed (use skip False punctuation_no_panic in \<open>auto simp: next_token_def Cons lexed_ok_def\<close>)
    qed
  qed
qed

lemma tokenize_loop_no_panic:
  "valid_utf8 bytes \<Longrightarrow> tokenize_loop pos bytes \<noteq> Panic"
proof (induction pos bytes rule: tokenize_loop.induct)
  case (1 pos bytes)
  have ok: "lexed_ok (next_token pos bytes)" by (rule next_token_ok [OF "1.prems"])
  show ?case
  proof (cases "next_token pos bytes")
    case (Ok x)
    then show ?thesis using 1 ok
      by (cases x) (subst tokenize_loop.simps, auto simp: lexed_ok_def)
  qed (use ok in \<open>simp_all add: tokenize_loop.simps lexed_ok_def\<close>)
qed

section \<open>The tokens tile the source\<close>

definition lexeme :: "token \<Rightarrow> string" where
  "lexeme t = (if tk_kind t = TkStr then CHR 0x22 # tk_text t @ [CHR 0x22] else tk_text t)"

text \<open>White space and comments only.\<close>

definition is_blank :: "string \<Rightarrow> bool" where
  "is_blank w \<longleftrightarrow> snd (skip_blank 0 w) = []"

lemma skip_blank_offset: "skip_blank (d + pos) bytes = (d + fst (skip_blank pos bytes), snd (skip_blank pos bytes))"
proof (induction pos bytes rule: skip_blank.induct)
  case (1 pos bytes)
  show ?case
  proof (cases bytes)
    case (Cons b bs)
    then show ?thesis using "1.IH" [of b bs]
      by (subst skip_blank.simps, subst (2) skip_blank.simps, subst (3) skip_blank.simps)
        (simp add: Let_def add.assoc)
  qed (simp add: skip_blank.simps)
qed

lemma is_blank_at: "is_blank w \<longleftrightarrow> snd (skip_blank pos w) = []"
  using skip_blank_offset [of pos 0 w] by (simp add: is_blank_def)

lemma is_blank_space: "is_ascii_whitespace b \<Longrightarrow> is_blank (b # w) \<longleftrightarrow> is_blank w"
  using is_blank_at [of w 1] is_blank_at [of "b # w" 0] by (simp add: skip_blank.simps [of 0 "b # w"])

lemma skip_blank_comment:
  "skip_blank pos (CHR ''-'' # CHR ''-'' # cs) =
     skip_blank (pos + (2 + length (takeWhile (\<lambda>c. c \<noteq> CHR 0x0A) cs))) (dropWhile (\<lambda>c. c \<noteq> CHR 0x0A) cs)"
proof -
  let ?nl = "\<lambda>c. c \<noteq> CHR 0x0A" and ?b = "CHR ''-'' # CHR ''-'' # cs"
  have "\<not> is_ascii_whitespace (CHR ''-'')" by (simp add: is_ascii_whitespace_def)
  then have "skip_blank pos ?b = skip_blank (pos + length (takeWhile ?nl ?b)) (dropWhile ?nl ?b)"
    unfolding skip_blank.simps [of pos ?b] Let_def by simp
  then show ?thesis by (simp add: add.commute)
qed

lemma is_blank_comment:
  assumes "dropWhile (\<lambda>c. c \<noteq> CHR 0x0A) cs = w @ r" "is_blank w"
  shows "is_blank (CHR ''-'' # CHR ''-'' # takeWhile (\<lambda>c. c \<noteq> CHR 0x0A) cs @ w)"
proof -
  let ?nl = "\<lambda>c. c \<noteq> CHR 0x0A"
  have w: "w = [] \<or> (\<exists>v. w = CHR 0x0A # v)"
    using assms(1) by (cases w) (auto simp: dropWhile_eq_Cons_conv)
  have all: "\<And>c. c \<in> set (takeWhile ?nl cs) \<Longrightarrow> ?nl c" by (auto dest: set_takeWhileD)
  have "dropWhile ?nl (takeWhile ?nl cs @ w) = dropWhile ?nl w"
    by (rule dropWhile_append2) (use all in simp)
  moreover have "dropWhile ?nl w = w" using w by auto
  ultimately have "dropWhile ?nl (takeWhile ?nl cs @ w) = w" by (simp only:)
  then have "skip_blank 0 (CHR ''-'' # CHR ''-'' # takeWhile ?nl cs @ w)
      = skip_blank (0 + (2 + length (takeWhile ?nl (takeWhile ?nl cs @ w)))) w"
    by (simp only: skip_blank_comment)
  then show ?thesis
    using assms(2) is_blank_at [of w "0 + (2 + length (takeWhile ?nl (takeWhile ?nl cs @ w)))"]
    by (simp only: is_blank_def [of "_ # _"])
qed

lemma skip_blank_blank:
  "skip_blank pos bytes = (p, r) \<Longrightarrow> \<exists>blank. bytes = blank @ r \<and> p = pos + length blank \<and> is_blank blank"
proof (induction pos bytes arbitrary: p r rule: skip_blank.induct)
  case (1 pos bytes)
  note step = "1.prems" [unfolded skip_blank.simps [of pos bytes]]
  have none: "is_blank []" by (simp add: is_blank_def skip_blank.simps)
  show ?case
  proof (cases bytes)
    case Nil
    then show ?thesis using step none by simp
  next
    case (Cons b rest)
    let ?nl = "\<lambda>c. c \<noteq> CHR 0x0A"
    let ?comment = "b = CHR ''-'' \<and> (case rest of c # _ \<Rightarrow> c = CHR ''-'' | [] \<Rightarrow> False)"
    consider "is_ascii_whitespace b" | "\<not> is_ascii_whitespace b" ?comment
      | "\<not> is_ascii_whitespace b" "\<not> ?comment" by blast
    then show ?thesis
    proof cases
      case 1
      then obtain blank where "rest = blank @ r" "p = pos + 1 + length blank" "is_blank blank"
        using "1.IH"(1) [of b rest p r] Cons step by auto
      then show ?thesis using Cons 1 by (intro exI [of _ "b # blank"]) (simp add: is_blank_space)
    next
      case 2
      then obtain blank where b: "dropWhile ?nl bytes = blank @ r"
          "p = pos + length (takeWhile ?nl bytes) + length blank" "is_blank blank"
        using "1.IH"(2) [of b rest "takeWhile ?nl bytes" p r] Cons step by (auto simp: Let_def)
      obtain cs where cs: "bytes = CHR ''-'' # CHR ''-'' # cs" using 2 Cons by (auto split: list.splits)
      have tw: "takeWhile ?nl bytes = CHR ''-'' # CHR ''-'' # takeWhile ?nl cs"
        and dw: "dropWhile ?nl bytes = dropWhile ?nl cs" by (simp_all add: cs)
      have "is_blank (takeWhile ?nl bytes @ blank)"
        using is_blank_comment [of cs blank r] b(1,3) by (simp add: tw dw)
      moreover have "bytes = takeWhile ?nl bytes @ dropWhile ?nl bytes" by simp
      ultimately show ?thesis using b
        by (intro exI [of _ "takeWhile ?nl bytes @ blank"]) (simp del: takeWhile_dropWhile_id)
    next
      case 3
      then show ?thesis using Cons step none by auto
    qed
  qed
qed

inductive tiles :: "nat \<Rightarrow> string \<Rightarrow> token list \<Rightarrow> bool" where
  tiles_eof: "is_blank blank \<Longrightarrow> tk_kind t = TkEof \<Longrightarrow> tk_text t = [] \<Longrightarrow>
    tk_offset t = pos + length blank \<Longrightarrow> tiles pos blank [t]"
| tiles_token: "is_blank blank \<Longrightarrow> tk_kind t \<noteq> TkEof \<Longrightarrow> tk_offset t = pos + length blank \<Longrightarrow>
    lexeme t \<noteq> [] \<Longrightarrow> tiles (tk_offset t + length (lexeme t)) rest ts \<Longrightarrow>
    tiles pos (blank @ lexeme t @ rest) (t # ts)"

text \<open>A token at the start of the rest of the source.\<close>

definition token_at :: "nat \<Rightarrow> string \<Rightarrow> token \<Rightarrow> nat \<Rightarrow> string \<Rightarrow> bool" where
  "token_at p r tok p' rest \<longleftrightarrow> tk_kind tok \<noteq> TkEof \<and> lexeme tok \<noteq> [] \<and> r = lexeme tok @ rest
     \<and> tk_offset tok = p \<and> p' = p + length (lexeme tok)"

lemma lex_ident_lexeme:
  assumes "lex_ident p (c # cs) = Ok (tok, p', rest)" "is_ident_start c"
  shows "token_at p (c # cs) tok p' rest"
proof -
  let ?w = "takeWhile is_ident_char (c # cs)"
  have w: "?w \<noteq> []" using assms(2) by (auto simp: is_ident_start_def is_ident_char_def is_ascii_alphanumeric_def)
  have tok: "tok = token_new (keyword_kind ?w) ?w p" "rest = drop (length ?w) (c # cs)" "p' = p + length ?w"
    using assms(1) by (auto simp: lex_ident_def from_utf8_unwrap_Ok Let_def simp del: takeWhile.simps)
  have "keyword_kind ?w \<noteq> TkStr" by (simp add: keyword_kind_def del: takeWhile.simps)
  moreover have "c # cs = ?w @ drop (length ?w) (c # cs)"
    by (metis takeWhile_dropWhile_id dropWhile_eq_drop)
  ultimately show ?thesis
    using w keyword_kind_not_eof unfolding token_at_def tok lexeme_def token_new_def
    by (simp del: takeWhile.simps)
qed

lemma lex_number_lexeme:
  assumes "lex_number p (c # cs) = Ok (tok, p', rest)" "is_ascii_digit c"
  shows "token_at p (c # cs) tok p' rest"
proof -
  obtain digits f where sn: "scan_number False (c # cs) = (digits, f)" by fastforce
  obtain r' where r: "c # cs = digits @ r'" using scan_number_prefix [OF sn] by blast
  have "digits \<noteq> []" using scan_number_nonempty [OF sn assms(2)] .
  moreover have "has_duration_unit r' \<Longrightarrow> \<exists>u us. r' = u # us" by (cases r') (auto simp: has_duration_unit_def)
  ultimately show ?thesis
    using assms(1) sn unfolding r
    by (auto simp: lex_number_def Let_def from_utf8_unwrap_Ok lexeme_def token_new_def token_at_def
        split: if_splits)
qed

lemma lex_string_lexeme:
  assumes "lex_string p (CHR 0x22 # bs) = Ok (tok, p', rest)"
  shows "token_at p (CHR 0x22 # bs) tok p' rest"
proof -
  obtain content where c: "scan_string bs = Some content"
    using assms by (auto simp: lex_string_def split: option.splits)
  obtain r' where "bs = content @ CHR 0x22 # r'" using scan_string_prefix [OF c] by blast
  then show ?thesis
    using assms c by (auto simp: lex_string_def from_utf8_unwrap_Ok lexeme_def token_new_def token_at_def)
qed

lemma punctuation_kind: "punctuation p b next = Ok (kind, len) \<Longrightarrow> kind \<noteq> TkStr"
  by (auto simp: punctuation_def split: if_splits)

lemma next_token_tile:
  assumes "next_token pos bytes = Ok (tok, pos', rest)"
  shows "tk_kind tok = TkEof \<and> is_blank bytes \<and> tk_text tok = [] \<and> tk_offset tok = pos + length bytes
    \<or> (\<exists>blank r. is_blank blank \<and> bytes = blank @ r \<and> token_at (pos + length blank) r tok pos' rest)"
proof -
  obtain p r where skip: "skip_blank pos bytes = (p, r)" by fastforce
  obtain blank where b: "bytes = blank @ r" "p = pos + length blank" "is_blank blank"
    using skip_blank_blank [OF skip] by blast
  show ?thesis
  proof (cases r)
    case Nil
    then show ?thesis using assms skip b by (auto simp: next_token_def token_new_def)
  next
    case (Cons c cs)
    let ?next = "case cs of d # _ \<Rightarrow> Some d | [] \<Rightarrow> None"
    have "token_at p r tok pos' rest"
    proof (cases "is_ident_start c \<or> is_ascii_digit c \<or> c = CHR 0x22")
      case True
      then show ?thesis
        using assms skip lex_ident_lexeme [of p c cs tok pos' rest] lex_number_lexeme [of p c cs tok pos' rest]
          lex_string_lexeme [of p cs tok pos' rest]
        by (auto simp: next_token_def Cons split: if_splits)
    next
      case False
      then obtain kind len where kl: "punctuation p c ?next = Ok (kind, len)"
        and t: "tok = token_new kind (take len r) p" "rest = drop len r" "pos' = p + len"
        using assms skip by (auto simp: next_token_def Cons from_utf8_unwrap_Ok split: prod.splits)
      have "len \<le> length r" using punctuation_len [OF kl] by (cases cs) (auto simp: Cons)
      then show ?thesis using t punctuation_kind [OF kl] punctuation_len [OF kl]
        by (auto simp: lexeme_def token_new_def token_at_def Cons)
    qed
    then show ?thesis using b by blast
  qed
qed

lemma tokenize_loop_tiles: "tokenize_loop pos bytes = Ok ts \<Longrightarrow> tiles pos bytes ts"
proof (induction pos bytes arbitrary: ts rule: tokenize_loop.induct)
  case (1 pos bytes)
  obtain tok pos' rest where n: "next_token pos bytes = Ok (tok, pos', rest)"
    using "1.prems" by (subst (asm) tokenize_loop.simps) (auto split: outcome.splits)
  show ?case
  proof (cases "tk_kind tok = TkEof")
    case True
    then have "ts = [tok]" using "1.prems" n by (subst (asm) tokenize_loop.simps) simp
    then show ?thesis using next_token_tile [OF n] True by (auto simp: token_at_def intro: tiles_eof)
  next
    case False
    then obtain ts' where ts: "ts = tok # ts'" "tokenize_loop pos' rest = Ok ts'"
      using "1.prems" n by (subst (asm) tokenize_loop.simps) auto
    obtain blank r where b: "is_blank blank" "bytes = blank @ r" and t: "token_at (pos + length blank) r tok pos' rest"
      using next_token_tile [OF n] False by auto
    have "tiles pos' rest ts'" using "1.IH" [OF n refl refl False ts(2)] .
    then show ?thesis
      using b t False unfolding ts(1) b(2) token_at_def by (auto intro!: tiles_token)
  qed
qed

section \<open>Reading rendered tokens\<close>

text \<open>The kind and the text of a token, and the text of the symbols.\<close>

type_synonym token_key = "token_kind \<times> string"

definition key :: "token \<Rightarrow> token_key" where
  "key t = (tk_kind t, tk_text t)"

fun symbol_of :: "token_kind \<Rightarrow> string option" where
  "symbol_of TkPipe = Some ''|''" | "symbol_of TkLBrace = Some [CHR 0x7B]" | "symbol_of TkRBrace = Some [CHR 0x7D]"
| "symbol_of TkLParen = Some ''(''" | "symbol_of TkRParen = Some '')''" | "symbol_of TkLBracket = Some ''[''"
| "symbol_of TkRBracket = Some '']''" | "symbol_of TkComma = Some '',''" | "symbol_of TkColon = Some '':''"
| "symbol_of TkDot = Some ''.''" | "symbol_of TkArrow = Some ''->''" | "symbol_of TkBackArrow = Some ''<-''"
| "symbol_of TkStar = Some ''*''" | "symbol_of TkQuestion = Some ''?''" | "symbol_of TkEqEq = Some ''==''"
| "symbol_of TkAssign = Some ''=''" | "symbol_of TkNotEq = Some ''!=''" | "symbol_of TkLt = Some ''<''"
| "symbol_of TkLe = Some ''<=''" | "symbol_of TkGt = Some ''>''" | "symbol_of TkGe = Some ''>=''"
| "symbol_of TkPlus = Some ''+''" | "symbol_of TkMinus = Some ''-''" | "symbol_of TkSlash = Some ''/''"
| "symbol_of _ = None"

text \<open>The keys that some source yields, each followed by a space.\<close>

definition is_word :: "string \<Rightarrow> bool" where
  "is_word w \<longleftrightarrow> w \<noteq> [] \<and> is_ident_start (hd w) \<and> (\<forall>c\<in>set w. is_ident_char c)"

definition is_number :: "string \<Rightarrow> bool \<Rightarrow> bool" where
  "is_number w f \<longleftrightarrow> w \<noteq> [] \<and> is_ascii_digit (hd w) \<and> scan_number False w = (w, f)"

definition is_string_content :: "string \<Rightarrow> bool" where
  "is_string_content w \<longleftrightarrow> valid_utf8 w \<and> scan_string (w @ [CHR 0x22]) = Some w"

definition is_duration :: "string \<Rightarrow> bool" where
  "is_duration w \<longleftrightarrow> w \<noteq> [] \<and> (\<exists>f\<in>{True, False}. is_number (butlast w) f)
     \<and> last w \<in> {CHR ''m'', CHR ''h'', CHR ''s'', CHR ''d''}"

definition wf_key :: "token_key \<Rightarrow> bool" where
  "wf_key k = (case k of (kind, w) \<Rightarrow>
     (case symbol_of kind of
        Some symbol \<Rightarrow> w = symbol
      | None \<Rightarrow>
          if kind = TkI64 then is_number w False
          else if kind = TkF64 then is_number w True
          else if kind = TkStr then is_string_content w
          else if kind = TkDuration then is_duration w
          else is_word w \<and> keyword_kind w = kind))"

definition key_text :: "token_key \<Rightarrow> string" where
  "key_text k = (if fst k = TkStr then CHR 0x22 # snd k @ [CHR 0x22] else snd k)"

definition render :: "token_key list \<Rightarrow> string" where
  "render ks = concat (map (\<lambda>k. key_text k @ '' '') ks)"

lemma scan_number_append:
  "scan_number f w = (w, g) \<Longrightarrow> w \<noteq> [] \<Longrightarrow> \<not> is_ascii_digit c \<Longrightarrow> c \<noteq> CHR ''.'' \<Longrightarrow>
     scan_number f (w @ c # r) = (w, g)"
proof (induction f w arbitrary: g rule: scan_number.induct)
  case (2 f b bs)
  then show ?case
    by (cases "bs = []") (auto split: if_splits prod.splits list.splits)
qed simp

lemma scan_string_append:
  "scan_string (w @ [CHR 0x22]) = Some w \<Longrightarrow> scan_string (w @ CHR 0x22 # r) = Some w"
proof (induction w rule: scan_string.induct)
  case (2 b)
  then show ?case by (cases r) (auto split: if_splits)
next
  case (3 b c bs)
  then show ?case by (auto split: if_splits)
qed (cases r; simp)

lemma skip_blank_none:
  assumes "\<not> is_ascii_whitespace b" "b \<noteq> CHR ''-'' \<or> r = [] \<or> hd r \<noteq> CHR ''-''"
  shows "skip_blank pos (b # r) = (pos, b # r)"
  using assms by (subst skip_blank.simps) (auto split: list.splits)

lemma char_classes:
  "is_ident_start c \<Longrightarrow> \<not> is_ascii_whitespace c \<and> c \<noteq> CHR ''-''"
  "is_ascii_digit c \<Longrightarrow> \<not> is_ascii_whitespace c \<and> c \<noteq> CHR ''-'' \<and> \<not> is_ident_start c"
  by (auto simp: is_ident_start_def is_ascii_whitespace_def is_ascii_alphabetic_def is_ascii_digit_def)

lemma space_class:
  "\<not> is_ident_char CHR '' ''" "\<not> is_ascii_digit CHR '' ''" "is_ascii_whitespace CHR '' ''"
  "\<not> is_ascii_alphanumeric CHR '' ''"
  by (simp_all add: is_ident_char_def is_ascii_alphanumeric_def is_ascii_alphabetic_def is_ascii_digit_def
      is_ascii_whitespace_def)

lemma read_word:
  assumes "is_word w" "r = [] \<or> \<not> is_ident_char (hd r)"
  shows "next_token pos (w @ r) = Ok (token_new (keyword_kind w) w pos, pos + length w, r)"
proof -
  obtain c cs where w: "w = c # cs" "is_ident_start c" using assms(1) by (cases w) (auto simp: is_word_def)
  have "takeWhile is_ident_char (w @ r) = w"
    using assms by (cases r) (auto simp: is_word_def takeWhile_append2)
  moreover have "valid_utf8 w"
    using assms(1) by (auto simp: is_word_def intro: valid_utf8_ascii_word ident_char_ascii)
  moreover have "skip_blank pos (w @ r) = (pos, w @ r)"
    using w char_classes(1) [of c] by (simp add: skip_blank_none)
  ultimately show ?thesis
    using w by (simp add: next_token_def lex_ident_def Let_def from_utf8_unwrap_def)
qed

lemma number_ascii: "is_number w f \<Longrightarrow> valid_utf8 w"
  using scan_number_chars [of False w w f] unfolding is_number_def
  by (intro valid_utf8_ascii_word) (fastforce simp: is_ascii_digit_def)

lemma next_token_number:
  assumes "is_number w f"
  shows "next_token pos (w @ r) = lex_number pos (w @ r)"
proof -
  obtain c cs where w: "w = c # cs" "is_ascii_digit c" using assms by (cases w) (auto simp: is_number_def)
  show ?thesis using w char_classes(2) [of c] by (simp add: next_token_def skip_blank_none)
qed

lemma read_number:
  assumes "is_number w f" "\<not> is_ascii_digit c" "c \<noteq> CHR ''.''" "\<not> has_duration_unit (c # r)"
  shows "next_token pos (w @ c # r) = Ok (token_new (if f then TkF64 else TkI64) w pos, pos + length w, c # r)"
proof -
  have "scan_number False (w @ c # r) = (w, f)"
    using assms(1-3) by (auto simp: is_number_def intro: scan_number_append)
  then show ?thesis
    using assms(4) number_ascii [OF assms(1)]
    by (simp add: next_token_number [OF assms(1)] lex_number_def from_utf8_unwrap_def)
qed

lemma read_duration:
  assumes "is_duration w" "r = [] \<or> \<not> is_ascii_alphanumeric (hd r)"
  shows "next_token pos (w @ r) = Ok (token_new TkDuration w pos, pos + length w, r)"
proof -
  obtain d u where w: "w = d @ [u]" using assms(1) by (cases w rule: rev_cases) (auto simp: is_duration_def)
  have u: "u \<in> {CHR ''m'', CHR ''h'', CHR ''s'', CHR ''d''}" using assms(1) by (simp add: w is_duration_def)
  obtain f where d: "is_number d f" using assms(1) by (auto simp: w is_duration_def)
  have "\<not> is_ascii_digit u" "u \<noteq> CHR ''.''" "code u < 128" using u by (auto simp: is_ascii_digit_def)
  then have "scan_number False (d @ u # r) = (d, f)" and "valid_utf8 (d @ [u])"
    using d number_ascii [OF d] valid_utf8_split [of u d "[]"] by (auto simp: is_number_def intro: scan_number_append)
  moreover have "has_duration_unit (u # r)" using u assms(2) by (auto simp: has_duration_unit_def split: list.splits)
  ultimately show ?thesis
    by (simp add: w next_token_number [OF d] lex_number_def from_utf8_unwrap_def)
qed

lemma read_string:
  assumes "is_string_content w"
  shows "next_token pos (CHR 0x22 # w @ CHR 0x22 # r) = Ok (token_new TkStr w pos, pos + length w + 2, r)"
proof -
  have "scan_string (w @ CHR 0x22 # r) = Some w" "valid_utf8 w"
    using assms scan_string_append by (auto simp: is_string_content_def)
  moreover have "\<not> is_ascii_whitespace (CHR 0x22)" "\<not> is_ident_start (CHR 0x22)" "\<not> is_ascii_digit (CHR 0x22)"
    by (simp_all add: is_ascii_whitespace_def is_ident_start_def is_ascii_alphabetic_def is_ascii_digit_def)
  ultimately show ?thesis
    by (simp add: next_token_def skip_blank_none lex_string_def from_utf8_unwrap_def)
qed

lemma read_symbol:
  assumes "symbol_of kind = Some w" "is_ascii_whitespace c"
  shows "next_token pos (w @ c # r) = Ok (token_new kind w pos, pos + length w, c # r)"
proof -
  have c: "c \<noteq> CHR ''-''" "c \<noteq> CHR ''>''" "c \<noteq> CHR ''=''" using assms(2) by (auto simp: is_ascii_whitespace_def)
  show ?thesis
    using assms c
    by (cases kind) (auto simp: next_token_def skip_blank_none is_ascii_whitespace_def is_ident_start_def
      is_ascii_alphabetic_def is_ascii_digit_def punctuation_def from_utf8_unwrap_def)
qed

lemma read_key:
  assumes "wf_key (kind, w)"
  shows "next_token pos (key_text (kind, w) @ CHR '' '' # r)
    = Ok (token_new kind w pos, pos + length (key_text (kind, w)), CHR '' '' # r)"
proof (cases "symbol_of kind")
  case (Some symbol)
  then show ?thesis using assms by (auto simp: wf_key_def key_text_def read_symbol space_class)
next
  case None
  have "\<not> has_duration_unit (CHR '' '' # r)" by (simp add: has_duration_unit_def)
  then show ?thesis
    using assms None space_class
    by (auto simp: wf_key_def key_text_def read_string read_word
        read_number [of _ False] read_number [of _ True] read_duration split: if_splits)
qed

lemma next_token_space: "next_token pos (CHR '' '' # r) = next_token (pos + 1) r"
proof -
  have "skip_blank pos (CHR '' '' # r) = skip_blank (pos + 1) r"
    by (subst skip_blank.simps) (simp add: space_class)
  then show ?thesis by (simp add: next_token_def)
qed

lemma tokenize_loop_space: "tokenize_loop pos (CHR '' '' # r) = tokenize_loop (pos + 1) r"
  by (simp add: tokenize_loop.simps [of pos] tokenize_loop.simps [of "Suc pos"] next_token_space)

lemma wf_key_not_eof: "wf_key (kind, w) \<Longrightarrow> kind \<noteq> TkEof"
  using keyword_kind_not_eof [of w] by (auto simp: wf_key_def)

lemma key_token_new: "key (token_new kind w p) = (kind, w)"
  by (simp add: key_def token_new_def)

lemma tokenize_loop_render:
  "\<forall>k\<in>set ks. wf_key k \<Longrightarrow>
     \<exists>ts. tokenize_loop pos (render ks) = Ok ts \<and> map key ts = ks @ [(TkEof, [])]"
proof (induction ks arbitrary: pos)
  case Nil
  have "next_token pos [] = Ok (token_new TkEof [] pos, pos, [])"
    by (simp add: next_token_def skip_blank.simps)
  then show ?case by (simp add: render_def tokenize_loop.simps key_def token_new_def)
next
  case (Cons k ks)
  obtain kind w where k: "k = (kind, w)" by fastforce
  let ?p = "pos + length (key_text k)"
  have wf: "wf_key (kind, w)" using Cons.prems k by simp
  obtain ts where ts: "tokenize_loop (?p + 1) (render ks) = Ok ts" "map key ts = ks @ [(TkEof, [])]"
    using Cons by fastforce
  have "render (k # ks) = key_text k @ CHR '' '' # render ks" by (simp add: render_def)
  moreover have "tk_kind (token_new kind w pos) \<noteq> TkEof"
    using wf_key_not_eof [OF wf] by (simp add: token_new_def)
  ultimately have "tokenize_loop pos (render (k # ks)) = Ok (token_new kind w pos # ts)"
    using read_key [OF wf, of pos "render ks"] ts(1)
    by (subst tokenize_loop.simps) (simp add: k tokenize_loop_space)
  then show ?case using ts(2) by (simp add: key_token_new k)
qed

lemma tokenize_render:
  "\<forall>k\<in>set ks. wf_key k \<Longrightarrow> \<exists>ts. tokenize (render ks) = Ok ts \<and> map key ts = ks @ [(TkEof, [])]"
  unfolding tokenize_def by (rule tokenize_loop_render)

text \<open>The tokens of a source end with its end of input, and only there.\<close>

definition eof_ended :: "token list \<Rightarrow> bool" where
  "eof_ended ts \<longleftrightarrow> ts \<noteq> [] \<and> tk_kind (last ts) = TkEof \<and> (\<forall>t\<in>set (butlast ts). tk_kind t \<noteq> TkEof)"

lemma tiles_eof_ended: "tiles pos bytes ts \<Longrightarrow> eof_ended ts"
  by (induction rule: tiles.induct) (auto simp: eof_ended_def)

lemma tokenize_eof_ended: "tokenize src = Ok ts \<Longrightarrow> eof_ended ts"
  unfolding tokenize_def by (blast intro: tokenize_loop_tiles tiles_eof_ended)

section \<open>Properties\<close>



text \<open>
  Tokenizing ends, and on every valid UTF-8 source it returns tokens or a lexical error and never
  panics: the slices it converts to strings begin and end at character boundaries, although the
  escape of a string literal skips a byte that may be the first of a longer character.
\<close>

lemma tokenize_never_panics:
  assumes "valid_utf8 src"
  shows "tokenize src \<noteq> Panic"
  using assms unfolding tokenize_def by (rule tokenize_loop_no_panic)

lemma tokenize_never_panics_witness:
  "valid_utf8 [CHR 0x22, CHR 0x5C, CHR 0xC3, CHR 0xA9, CHR 0x22]
    \<and> tokenize [CHR 0x22, CHR 0x5C, CHR 0xC3, CHR 0xA9, CHR 0x22] \<noteq> Panic"
proof
  show v: "valid_utf8 [CHR 0x22, CHR 0x5C, CHR 0xC3, CHR 0xA9, CHR 0x22]" by code_simp
  show "tokenize [CHR 0x22, CHR 0x5C, CHR 0xC3, CHR 0xA9, CHR 0x22] \<noteq> Panic"
    by (rule tokenize_never_panics [OF v])
qed

end
