(* ===== verification/Parser.thy ===== *)
theory Parser
  imports Lexer CenqlAst
begin

text \<open>
  The recursive-descent parser of the query language (\<open>cendb-cenql/src/parser.rs\<close>). The
  parser's state, the tokens and a position, is the list of tokens from the position on: nothing
  reads an earlier token. A parsing function returns its value and the remaining tokens, an error,
  or panics; after an error the parser is not used again.

  The parser recurses on parenthesised expressions and call arguments only; the argument \<open>d\<close>
  is the number of nested calls of \<open>parse_expr\<close> that the stack still holds, and a call beyond
  it is the overflow of the stack, which ends the process like a panic. Loops carry a bound on their
  iterations, the number of remaining tokens, which no loop reaches. The conversion of a decimal
  numeral to a float is an argument.
\<close>

section \<open>Errors and the token cursor\<close>

datatype parse_error =
    PeLex lex_error
  | PeUnexpected string token_kind nat
  | PeUnexpectedEof
  | PeOther string

type_synonym 'a parsed = "('a \<times> token list, parse_error) outcome"

definition peek_kind :: "token list \<Rightarrow> token_kind option" where
  "peek_kind ts = (case ts of t # _ \<Rightarrow> Some (tk_kind t) | [] \<Rightarrow> None)"

definition peek_token :: "token list \<Rightarrow> token option" where
  "peek_token ts = (case ts of t # _ \<Rightarrow> Some t | [] \<Rightarrow> None)"

text \<open>The current token; the cursor moves unless it is at the last token.\<close>

fun advance :: "token list \<Rightarrow> token parsed" where
  "advance [] = Panic"
| "advance [t] = Ok (t, [t])"
| "advance (t # u # ts) = Ok (t, u # ts)"

definition unexpected :: "token list \<Rightarrow> string \<Rightarrow> parse_error" where
  "unexpected ts expected =
     (case ts of t # _ \<Rightarrow> PeUnexpected expected (tk_kind t) (tk_offset t) | [] \<Rightarrow> PeUnexpectedEof)"

definition unexpected_kind :: "token list \<Rightarrow> token_kind \<Rightarrow> string \<Rightarrow> parse_error" where
  "unexpected_kind ts got expected =
     (case ts of t # _ \<Rightarrow> PeUnexpected expected got (tk_offset t) | [] \<Rightarrow> PeUnexpectedEof)"

text \<open>Consume the current token if it has a kind, or fail.\<close>

definition take_kind :: "token_kind \<Rightarrow> string \<Rightarrow> token list \<Rightarrow> string parsed" where
  "take_kind kind expected ts =
     (case peek_kind ts of
        Some k \<Rightarrow> if k = kind then and_then (advance ts) (\<lambda>(t, ts). Ok (tk_text t, ts))
                   else Err (unexpected_kind ts k expected)
      | None \<Rightarrow> Err PeUnexpectedEof)"

definition expect :: "token_kind \<Rightarrow> token list \<Rightarrow> unit parsed" where
  "expect kind ts = and_then (take_kind kind ''specific token'' ts) (\<lambda>(_, ts). Ok ((), ts))"

definition expect_ident :: "token list \<Rightarrow> string parsed" where
  "expect_ident ts = take_kind TkIdent ''identifier'' ts"

definition expect_duration :: "token list \<Rightarrow> string parsed" where
  "expect_duration ts = take_kind TkDuration ''duration (e.g. 5m, 1h, 30s)'' ts"

text \<open>A dotted path after its first name.\<close>

fun path_loop :: "nat \<Rightarrow> string \<Rightarrow> token list \<Rightarrow> string parsed" where
  "path_loop 0 full ts = Panic"
| "path_loop (Suc n) full ts =
     (if peek_kind ts = Some TkDot
      then and_then (advance ts) (\<lambda>(_, ts).
             and_then (expect_ident ts) (\<lambda>(next, ts). path_loop n (full @ ''.'' @ next) ts))
      else Ok (full, ts))"

definition expect_ident_or_path :: "token list \<Rightarrow> string parsed" where
  "expect_ident_or_path ts =
     and_then (expect_ident ts) (\<lambda>(first, ts). path_loop (Suc (length ts)) first ts)"

text \<open>Decimal numerals, as \<open>str::parse\<close> reads them; the tokenizer yields digits only.\<close>

definition parse_digits :: "string \<Rightarrow> nat option" where
  "parse_digits s =
     (if s \<noteq> [] \<and> (\<forall>c\<in>set s. is_ascii_digit c)
      then Some (fold (\<lambda>c n. 10 * n + (code c - 48)) s 0) else None)"

definition parse_u64 :: "token list \<Rightarrow> u64 parsed" where
  "parse_u64 ts = and_then (take_kind TkI64 ''integer literal'' ts) (\<lambda>(txt, ts).
     case parse_digits txt of
       Some n \<Rightarrow> if n < 2 ^ 64 then Ok (of_nat n, ts) else Err (PeOther (''invalid u64: '' @ txt))
     | None \<Rightarrow> Err (PeOther (''invalid u64: '' @ txt)))"

definition parse_u32 :: "token list \<Rightarrow> u32 parsed" where
  "parse_u32 ts = and_then (parse_u64 ts) (\<lambda>(v, ts).
     if unat v < 2 ^ 32 then Ok (ucast v, ts) else Err (PeOther (''u32 overflow: '' @ show_nat (unat v))))"

text \<open>A list of items separated by commas.\<close>

fun comma_items :: "(token list \<Rightarrow> 'a parsed) \<Rightarrow> nat \<Rightarrow> token list \<Rightarrow> 'a list parsed" where
  "comma_items item 0 ts = Panic"
| "comma_items item (Suc n) ts =
     and_then (item ts) (\<lambda>(x, ts).
       if peek_kind ts = Some TkComma
       then and_then (advance ts) (\<lambda>(_, ts).
              and_then (comma_items item n ts) (\<lambda>(xs, ts). Ok (x # xs, ts)))
       else Ok ([x], ts))"

section \<open>Expressions\<close>

text \<open>The loop of a level of left-associative operators.\<close>

fun binary_loop ::
    "(token_kind \<Rightarrow> binary_op option) \<Rightarrow> (token list \<Rightarrow> expr parsed) \<Rightarrow> nat \<Rightarrow> expr \<Rightarrow> token list \<Rightarrow> expr parsed" where
  "binary_loop op_of operand 0 lhs ts = Panic"
| "binary_loop op_of operand (Suc n) lhs ts =
     (case Option.bind (peek_kind ts) op_of of
        Some bop \<Rightarrow>
          and_then (advance ts) (\<lambda>(_, ts).
            and_then (operand ts) (\<lambda>(rhs, ts). binary_loop op_of operand n (ExBinary bop lhs rhs) ts))
      | None \<Rightarrow> Ok (lhs, ts))"

definition parse_level ::
    "(token_kind \<Rightarrow> binary_op option) \<Rightarrow> (token list \<Rightarrow> expr parsed) \<Rightarrow> token list \<Rightarrow> expr parsed" where
  "parse_level op_of operand ts =
     and_then (operand ts) (\<lambda>(lhs, ts). binary_loop op_of operand (Suc (length ts)) lhs ts)"

fun or_op :: "token_kind \<Rightarrow> binary_op option" where
  "or_op TkOr = Some OpOr" | "or_op _ = None"

fun and_op :: "token_kind \<Rightarrow> binary_op option" where
  "and_op TkAnd = Some OpAnd" | "and_op _ = None"

fun comparison_op :: "token_kind \<Rightarrow> binary_op option" where
  "comparison_op TkEqEq = Some OpEq" | "comparison_op TkNotEq = Some OpNe"
| "comparison_op TkLt = Some OpLt" | "comparison_op TkLe = Some OpLe"
| "comparison_op TkGt = Some OpGt" | "comparison_op TkGe = Some OpGe"
| "comparison_op _ = None"

fun additive_op :: "token_kind \<Rightarrow> binary_op option" where
  "additive_op TkPlus = Some OpAdd" | "additive_op TkMinus = Some OpSub" | "additive_op _ = None"

fun multiplicative_op :: "token_kind \<Rightarrow> binary_op option" where
  "multiplicative_op TkStar = Some OpMul" | "multiplicative_op TkSlash = Some OpDiv"
| "multiplicative_op _ = None"

text \<open>Arguments up to a closing parenthesis, which is not consumed.\<close>

definition parse_args_with :: "(token list \<Rightarrow> expr parsed) \<Rightarrow> token list \<Rightarrow> expr list parsed" where
  "parse_args_with expr ts =
     (if peek_kind ts = Some TkRParen then Ok ([], ts) else comma_items expr (Suc (length ts)) ts)"

definition parse_primary ::
    "(string \<Rightarrow> u64 option) \<Rightarrow> (token list \<Rightarrow> expr parsed) \<Rightarrow> token list \<Rightarrow> expr parsed" where
  "parse_primary pf expr ts =
     (case peek_kind ts of
        Some TkI64 \<Rightarrow> and_then (advance ts) (\<lambda>(t, ts).
          case parse_digits (tk_text t) of
            Some n \<Rightarrow> if n < 2 ^ 63 then Ok (ExI64 (of_nat n), ts)
                       else Err (PeOther (''invalid i64: '' @ tk_text t))
          | None \<Rightarrow> Err (PeOther (''invalid i64: '' @ tk_text t)))
      | Some TkF64 \<Rightarrow> and_then (advance ts) (\<lambda>(t, ts).
          case pf (tk_text t) of
            Some v \<Rightarrow> Ok (ExF64 v, ts)
          | None \<Rightarrow> Err (PeOther (''invalid f64: '' @ tk_text t)))
      | Some TkStr \<Rightarrow> and_then (advance ts) (\<lambda>(t, ts). Ok (ExStr (tk_text t), ts))
      | Some TkIdent \<Rightarrow> and_then (advance ts) (\<lambda>(t, ts).
          if peek_kind ts = Some TkLParen
          then and_then (advance ts) (\<lambda>(_, ts).
                 and_then (parse_args_with expr ts) (\<lambda>(args, ts).
                   and_then (expect TkRParen ts) (\<lambda>(_, ts). Ok (ExCall (tk_text t) args, ts))))
          else and_then (path_loop (Suc (length ts)) (tk_text t) ts) (\<lambda>(full, ts). Ok (ExColumn full, ts)))
      | Some TkLParen \<Rightarrow> and_then (advance ts) (\<lambda>(_, ts).
          and_then (expr ts) (\<lambda>(e, ts).
            and_then (expect TkRParen ts) (\<lambda>(_, ts). Ok (e, ts))))
      | Some k \<Rightarrow> Err (unexpected_kind ts k ''expression'')
      | None \<Rightarrow> Err PeUnexpectedEof)"

definition parse_multiplicative ::
    "(string \<Rightarrow> u64 option) \<Rightarrow> (token list \<Rightarrow> expr parsed) \<Rightarrow> token list \<Rightarrow> expr parsed" where
  "parse_multiplicative pf expr = parse_level multiplicative_op (parse_primary pf expr)"

definition parse_additive ::
    "(string \<Rightarrow> u64 option) \<Rightarrow> (token list \<Rightarrow> expr parsed) \<Rightarrow> token list \<Rightarrow> expr parsed" where
  "parse_additive pf expr = parse_level additive_op (parse_multiplicative pf expr)"

definition parse_comparison ::
    "(string \<Rightarrow> u64 option) \<Rightarrow> (token list \<Rightarrow> expr parsed) \<Rightarrow> token list \<Rightarrow> expr parsed" where
  "parse_comparison pf expr ts =
     and_then (parse_additive pf expr ts) (\<lambda>(lhs, ts).
       case Option.bind (peek_kind ts) comparison_op of
         Some bop \<Rightarrow> and_then (advance ts) (\<lambda>(_, ts).
           and_then (parse_additive pf expr ts) (\<lambda>(rhs, ts). Ok (ExBinary bop lhs rhs, ts)))
       | None \<Rightarrow> Ok (lhs, ts))"

definition parse_and ::
    "(string \<Rightarrow> u64 option) \<Rightarrow> (token list \<Rightarrow> expr parsed) \<Rightarrow> token list \<Rightarrow> expr parsed" where
  "parse_and pf expr = parse_level and_op (parse_comparison pf expr)"

definition parse_or ::
    "(string \<Rightarrow> u64 option) \<Rightarrow> (token list \<Rightarrow> expr parsed) \<Rightarrow> token list \<Rightarrow> expr parsed" where
  "parse_or pf expr = parse_level or_op (parse_and pf expr)"

fun parse_expr :: "(string \<Rightarrow> u64 option) \<Rightarrow> nat \<Rightarrow> token list \<Rightarrow> expr parsed" where
  "parse_expr pf 0 ts = Panic"
| "parse_expr pf (Suc d) ts = parse_or pf (parse_expr pf d) ts"

definition parse_args :: "(string \<Rightarrow> u64 option) \<Rightarrow> nat \<Rightarrow> token list \<Rightarrow> expr list parsed" where
  "parse_args pf d = parse_args_with (parse_expr pf d)"

section \<open>Stages of a pipeline\<close>

definition lower_char :: "char \<Rightarrow> char" where
  "lower_char c = (if 65 \<le> code c \<and> code c \<le> 90 then char_of (code c + 32) else c)"

text \<open>\<open>to_lowercase\<close> of an identifier, which is ASCII.\<close>

definition to_lowercase :: "string \<Rightarrow> string" where
  "to_lowercase = map lower_char"

definition is_set_op :: "string \<Rightarrow> bool" where
  "is_set_op w \<longleftrightarrow> to_lowercase w \<in> {''union'', ''intersect'', ''except''}"

definition parse_from :: "token list \<Rightarrow> cenql_stage parsed" where
  "parse_from ts =
     and_then (expect TkFrom ts) (\<lambda>(_, ts).
     and_then (expect_ident ts) (\<lambda>(name, ts).
       case peek_token ts of
         Some tok \<Rightarrow>
           if tk_kind tok = TkIdent \<and> \<not> is_set_op (tk_text tok)
           then and_then (advance ts) (\<lambda>(t, ts). Ok (SgFrom (name @ '' '' @ tk_text t), ts))
           else Ok (SgFrom name, ts)
       | None \<Rightarrow> Ok (SgFrom name, ts)))"

definition parse_filter :: "(string \<Rightarrow> u64 option) \<Rightarrow> nat \<Rightarrow> token list \<Rightarrow> cenql_stage parsed" where
  "parse_filter pf d ts =
     and_then (expect TkFilter ts) (\<lambda>(_, ts).
     and_then (parse_expr pf d ts) (\<lambda>(e, ts). Ok (SgFilter e, ts)))"

definition parse_columns :: "token list \<Rightarrow> string list parsed" where
  "parse_columns ts = comma_items expect_ident_or_path (Suc (length ts)) ts"

definition parse_select :: "token list \<Rightarrow> cenql_stage parsed" where
  "parse_select ts =
     and_then (expect TkSelect ts) (\<lambda>(_, ts).
     and_then (expect TkLBrace ts) (\<lambda>(_, ts).
     and_then (parse_columns ts) (\<lambda>(columns, ts).
     and_then (expect TkRBrace ts) (\<lambda>(_, ts). Ok (SgSelect columns, ts)))))"

definition parse_sort :: "token list \<Rightarrow> cenql_stage parsed" where
  "parse_sort ts =
     and_then (expect TkSort ts) (\<lambda>(_, ts).
     and_then (expect_ident_or_path ts) (\<lambda>(column, ts).
       case peek_kind ts of
         Some TkAsc \<Rightarrow> and_then (advance ts) (\<lambda>(_, ts). Ok (SgSort column DirAsc, ts))
       | Some TkDesc \<Rightarrow> and_then (advance ts) (\<lambda>(_, ts). Ok (SgSort column DirDesc, ts))
       | _ \<Rightarrow> Ok (SgSort column DirAsc, ts)))"

definition parse_take :: "token list \<Rightarrow> cenql_stage parsed" where
  "parse_take ts =
     and_then (expect TkTake ts) (\<lambda>(_, ts).
     and_then (parse_u64 ts) (\<lambda>(n, ts). Ok (SgTake n, ts)))"

fun join_kind_of :: "token_kind \<Rightarrow> join_kind option" where
  "join_kind_of TkInner = Some KindInner" | "join_kind_of TkLeft = Some KindLeft"
| "join_kind_of TkRight = Some KindRight" | "join_kind_of TkFull = Some KindFull"
| "join_kind_of _ = None"

definition parse_join :: "(string \<Rightarrow> u64 option) \<Rightarrow> nat \<Rightarrow> token list \<Rightarrow> cenql_stage parsed" where
  "parse_join pf d ts =
     and_then (expect TkJoin ts) (\<lambda>(_, ts).
     and_then (case Option.bind (peek_kind ts) join_kind_of of
         Some kind \<Rightarrow> and_then (advance ts) (\<lambda>(_, ts). Ok (kind, ts))
       | None \<Rightarrow> Ok (KindInner, ts)) (\<lambda>(kind, ts).
     and_then (expect_ident ts) (\<lambda>(source, ts).
     and_then (expect TkOn ts) (\<lambda>(_, ts).
     and_then (parse_expr pf d ts) (\<lambda>(e, ts). Ok (SgJoin source kind e, ts))))))"

definition parse_agg :: "(string \<Rightarrow> u64 option) \<Rightarrow> nat \<Rightarrow> token list \<Rightarrow> agg_expr parsed" where
  "parse_agg pf d ts =
     and_then (expect_ident ts) (\<lambda>(name, ts).
     and_then (expect TkColon ts) (\<lambda>(_, ts).
     and_then (expect_ident ts) (\<lambda>(func, ts).
     and_then (expect TkLParen ts) (\<lambda>(_, ts).
     and_then (parse_args pf d ts) (\<lambda>(args, ts).
     and_then (expect TkRParen ts) (\<lambda>(_, ts). Ok (AggExpr name func args, ts)))))))"

text \<open>The braces with the aggregates of a \<open>group_by\<close> or \<open>window\<close> stage.\<close>

definition parse_aggs :: "(string \<Rightarrow> u64 option) \<Rightarrow> nat \<Rightarrow> token list \<Rightarrow> agg_expr list parsed" where
  "parse_aggs pf d ts =
     and_then (expect TkLBrace ts) (\<lambda>(_, ts).
     and_then (comma_items (parse_agg pf d) (Suc (length ts)) ts) (\<lambda>(aggs, ts).
     and_then (expect TkRBrace ts) (\<lambda>(_, ts). Ok (aggs, ts))))"

definition parse_group_by :: "(string \<Rightarrow> u64 option) \<Rightarrow> nat \<Rightarrow> token list \<Rightarrow> cenql_stage parsed" where
  "parse_group_by pf d ts =
     and_then (expect TkGroupBy ts) (\<lambda>(_, ts).
     and_then (expect_ident_or_path ts) (\<lambda>(k, ts).
     and_then (parse_aggs pf d ts) (\<lambda>(aggs, ts). Ok (SgGroupBy k aggs, ts))))"

definition parse_window_spec :: "token list \<Rightarrow> window_spec parsed" where
  "parse_window_spec ts =
     (case peek_kind ts of
        Some TkTumbling \<Rightarrow>
          and_then (advance ts) (\<lambda>(_, ts).
          and_then (expect TkLParen ts) (\<lambda>(_, ts).
          and_then (expect_duration ts) (\<lambda>(dur, ts).
          and_then (expect TkRParen ts) (\<lambda>(_, ts). Ok (Tumbling dur, ts)))))
      | Some TkHopping \<Rightarrow>
          and_then (advance ts) (\<lambda>(_, ts).
          and_then (expect TkLParen ts) (\<lambda>(_, ts).
          and_then (expect_duration ts) (\<lambda>(sz, ts).
          and_then (expect TkComma ts) (\<lambda>(_, ts).
          and_then (expect_duration ts) (\<lambda>(slide, ts).
          and_then (expect TkRParen ts) (\<lambda>(_, ts). Ok (Hopping sz slide, ts)))))))
      | Some TkSession \<Rightarrow>
          and_then (advance ts) (\<lambda>(_, ts).
          and_then (expect TkLParen ts) (\<lambda>(_, ts).
          and_then (expect_duration ts) (\<lambda>(gap, ts).
          and_then (expect TkRParen ts) (\<lambda>(_, ts). Ok (Session gap, ts)))))
      | _ \<Rightarrow> Err (unexpected ts ''window kind (tumbling/hopping/session)''))"

definition parse_window :: "(string \<Rightarrow> u64 option) \<Rightarrow> nat \<Rightarrow> token list \<Rightarrow> cenql_stage parsed" where
  "parse_window pf d ts =
     and_then (expect TkWindow ts) (\<lambda>(_, ts).
     and_then (parse_window_spec ts) (\<lambda>(spec, ts).
     and_then (expect TkOn ts) (\<lambda>(_, ts).
     and_then (expect_ident_or_path ts) (\<lambda>(col, ts).
     and_then (parse_aggs pf d ts) (\<lambda>(aggs, ts). Ok (SgWindow spec col aggs, ts))))))"

text \<open>An optional label after a colon.\<close>

definition parse_label :: "token list \<Rightarrow> string option parsed" where
  "parse_label ts =
     (if peek_kind ts = Some TkColon
      then and_then (advance ts) (\<lambda>(_, ts). and_then (expect_ident ts) (\<lambda>(l, ts). Ok (Some l, ts)))
      else Ok (None, ts))"

definition parse_node :: "token list \<Rightarrow> (string \<times> string option) parsed" where
  "parse_node ts =
     and_then (expect TkLParen ts) (\<lambda>(_, ts).
     and_then (expect_ident ts) (\<lambda>(var, ts).
     and_then (parse_label ts) (\<lambda>(label, ts).
     and_then (expect TkRParen ts) (\<lambda>(_, ts). Ok ((var, label), ts)))))"

definition parse_hops :: "token list \<Rightarrow> (u32 \<times> u32) parsed" where
  "parse_hops ts =
     (if peek_kind ts = Some TkStar
      then and_then (advance ts) (\<lambda>(_, ts).
             if peek_kind ts = Some TkI64
             then and_then (parse_u32 ts) (\<lambda>(lo, ts).
                    if peek_kind ts = Some TkDot
                    then and_then (advance ts) (\<lambda>(_, ts).
                         and_then (if peek_kind ts = Some TkDot
                                   then and_then (advance ts) (\<lambda>(_, ts). Ok ((), ts)) else Ok ((), ts)) (\<lambda>(_, ts).
                         and_then (parse_u32 ts) (\<lambda>(hi, ts). Ok ((lo, hi), ts))))
                    else Ok ((lo, 1), ts))
             else Ok ((1, 1), ts))
      else Ok ((1, 1), ts))"

definition parse_match :: "token list \<Rightarrow> cenql_stage parsed" where
  "parse_match ts =
     and_then (expect TkMatch ts) (\<lambda>(_, ts).
     and_then (parse_node ts) (\<lambda>((svar, slabel), ts).
     and_then (case peek_kind ts of
         Some TkMinus \<Rightarrow> Ok (EdgeOut, ts)
       | Some TkBackArrow \<Rightarrow> Ok (EdgeIn, ts)
       | _ \<Rightarrow> Err (unexpected ts (''edge start ('' @ [quote] @ ''-'' @ [quote] @ '' or '' @ [quote] @ ''<-'' @ [quote] @ '')'')))
       (\<lambda>(dir, ts).
     and_then (advance ts) (\<lambda>(_, ts).
     and_then (expect TkLBracket ts) (\<lambda>(_, ts).
     and_then (parse_label ts) (\<lambda>(etype, ts).
     and_then (parse_hops ts) (\<lambda>((lo, hi), ts).
     and_then (expect TkRBracket ts) (\<lambda>(_, ts).
     and_then (expect (if dir = EdgeOut then TkArrow else TkMinus) ts) (\<lambda>(_, ts).
     and_then (parse_node ts) (\<lambda>((evar, elabel), ts).
       Ok (SgMatch \<lparr>start_var = svar, start_label = slabel, edge_type = etype, edge_min_hops = lo,
             edge_max_hops = hi, edge_dir = dir, end_var = evar, end_label = elabel\<rparr>, ts)))))))))))"

definition parse_return :: "token list \<Rightarrow> cenql_stage parsed" where
  "parse_return ts =
     and_then (expect TkReturn ts) (\<lambda>(_, ts).
     and_then (if peek_kind ts = Some TkDistinct
               then and_then (advance ts) (\<lambda>(_, ts). Ok (True, ts)) else Ok (False, ts)) (\<lambda>(dist, ts).
     and_then (parse_columns ts) (\<lambda>(columns, ts). Ok (SgReturn dist columns, ts))))"

definition parse_stage :: "(string \<Rightarrow> u64 option) \<Rightarrow> nat \<Rightarrow> token list \<Rightarrow> cenql_stage parsed" where
  "parse_stage pf d ts =
     (case peek_kind ts of
        Some TkFilter \<Rightarrow> parse_filter pf d ts
      | Some TkSelect \<Rightarrow> parse_select ts
      | Some TkSort \<Rightarrow> parse_sort ts
      | Some TkTake \<Rightarrow> parse_take ts
      | Some TkJoin \<Rightarrow> parse_join pf d ts
      | Some TkGroupBy \<Rightarrow> parse_group_by pf d ts
      | Some TkWindow \<Rightarrow> parse_window pf d ts
      | Some TkMatch \<Rightarrow> parse_match ts
      | Some TkReturn \<Rightarrow> parse_return ts
      | Some k \<Rightarrow> Err (unexpected_kind ts k ''pipeline stage'')
      | None \<Rightarrow> Err PeUnexpectedEof)"

text \<open>The stages after the first, each after a bar.\<close>

fun stage_loop :: "(string \<Rightarrow> u64 option) \<Rightarrow> nat \<Rightarrow> nat \<Rightarrow> token list \<Rightarrow> cenql_stage list parsed" where
  "stage_loop pf d 0 ts = Panic"
| "stage_loop pf d (Suc n) ts =
     (if peek_kind ts = Some TkPipe
      then and_then (advance ts) (\<lambda>(_, ts).
           and_then (parse_stage pf d ts) (\<lambda>(s, ts).
           and_then (stage_loop pf d n ts) (\<lambda>(ss, ts). Ok (s # ss, ts))))
      else Ok ([], ts))"

definition parse_pipeline :: "(string \<Rightarrow> u64 option) \<Rightarrow> nat \<Rightarrow> token list \<Rightarrow> cenql_pipeline parsed" where
  "parse_pipeline pf d ts =
     and_then (parse_from ts) (\<lambda>(s, ts).
     and_then (stage_loop pf d (Suc (length ts)) ts) (\<lambda>(ss, ts). Ok (Pipeline (s # ss), ts)))"

definition parser_new :: "string \<Rightarrow> (token list, parse_error) outcome" where
  "parser_new src = (case tokenize src of Ok ts \<Rightarrow> Ok ts | Err e \<Rightarrow> Err (PeLex e) | Panic \<Rightarrow> Panic)"

definition parse :: "(string \<Rightarrow> u64 option) \<Rightarrow> nat \<Rightarrow> string \<Rightarrow> (cenql_pipeline, parse_error) outcome" where
  "parse pf d src =
     and_then (parser_new src) (\<lambda>ts.
     and_then (parse_pipeline pf d ts) (\<lambda>(p, ts).
       if peek_kind ts \<noteq> Some TkEof then Err (unexpected ts ''end of pipeline'') else Ok p))"

section \<open>Statements\<close>

text \<open>The current token as a keyword that the tokenizer does not know: an identifier in any case.\<close>

definition peek_word :: "token list \<Rightarrow> string option" where
  "peek_word ts =
     (case peek_token ts of
        Some t \<Rightarrow> if tk_kind t = TkIdent then Some (to_lowercase (tk_text t)) else None
      | None \<Rightarrow> None)"

text \<open>A contextual keyword where an identifier is expected.\<close>

definition expect_word :: "string \<Rightarrow> string \<Rightarrow> token list \<Rightarrow> unit parsed" where
  "expect_word word msg ts =
     and_then (expect_ident ts) (\<lambda>(txt, ts).
       if to_lowercase txt \<noteq> word then Err (PeOther (msg @ txt)) else Ok ((), ts))"

definition quoted :: "string \<Rightarrow> string" where
  "quoted w = quote # w @ [quote]"

definition column_type_of :: "string \<Rightarrow> column_type" where
  "column_type_of w =
     (if w \<in> {''i64'', ''int'', ''integer''} then CtI64
      else if w \<in> {''f64'', ''float'', ''double''} then CtF64
      else if w \<in> {''str'', ''string'', ''text''} then CtStr
      else if w \<in> {''bool'', ''boolean''} then CtBool
      else if w \<in> {''bytes'', ''blob''} then CtBytes
      else if w \<in> {''timestamp'', ''time''} then CtTimestamp
      else if w = ''json'' then CtJson
      else CtStr)"

definition parse_nullable :: "token list \<Rightarrow> bool parsed" where
  "parse_nullable ts =
     (if peek_kind ts = Some TkNot
      then and_then (advance ts) (\<lambda>(_, ts).
             if peek_word ts = Some ''null''
             then and_then (advance ts) (\<lambda>(_, ts). Ok (False, ts))
             else Ok (True, ts))
      else Ok (True, ts))"

text \<open>After an item between braces: a comma continues, a closing brace ends, and any other token
  ends the list too.\<close>

definition more_items :: "token list \<Rightarrow> bool parsed" where
  "more_items ts =
     (case peek_kind ts of
        Some TkComma \<Rightarrow> and_then (advance ts) (\<lambda>(_, ts). Ok (True, ts))
      | Some TkRBrace \<Rightarrow> and_then (advance ts) (\<lambda>(_, ts). Ok (False, ts))
      | Some _ \<Rightarrow> Ok (False, ts)
      | None \<Rightarrow> Err PeUnexpectedEof)"

text \<open>One entry of a table definition: the directive of the primary key, or a column.\<close>

definition parse_column_entry :: "token list \<Rightarrow> (string + column_def) parsed" where
  "parse_column_entry ts =
     and_then (expect_ident ts) (\<lambda>(col, ts).
       if to_lowercase col = ''primary_key''
       then and_then (expect TkColon ts) (\<lambda>(_, ts).
            and_then (expect_ident ts) (\<lambda>(k, ts). Ok (Inl k, ts)))
       else and_then (expect TkColon ts) (\<lambda>(_, ts).
            and_then (expect_ident ts) (\<lambda>(ty, ts).
            and_then (parse_nullable ts) (\<lambda>(nullable, ts).
              Ok (Inr \<lparr>cd_name = col, cd_type = column_type_of (to_lowercase ty), cd_nullable = nullable\<rparr>, ts)))))"

fun table_loop ::
    "nat \<Rightarrow> column_def list \<Rightarrow> string option \<Rightarrow> token list \<Rightarrow> (column_def list \<times> string option) parsed" where
  "table_loop 0 columns primary_key ts = Panic"
| "table_loop (Suc n) columns primary_key ts =
     and_then (parse_column_entry ts) (\<lambda>(entry, ts).
     and_then (more_items ts) (\<lambda>(continue, ts).
       let (columns, primary_key) =
             (case entry of Inl k \<Rightarrow> (columns, Some k) | Inr c \<Rightarrow> (columns @ [c], primary_key))
       in if continue then table_loop n columns primary_key ts else Ok ((columns, primary_key), ts)))"

definition parse_create_table :: "token list \<Rightarrow> cenql_statement parsed" where
  "parse_create_table ts =
     and_then (advance ts) (\<lambda>(_, ts).
     and_then (expect_ident ts) (\<lambda>(name, ts).
     and_then (expect TkLBrace ts) (\<lambda>(_, ts).
     and_then (table_loop (Suc (length ts)) [] None ts) (\<lambda>((columns, pk), ts).
       Ok (StCreateTable name columns pk, ts)))))"

definition parse_create_index :: "token list \<Rightarrow> cenql_statement parsed" where
  "parse_create_index ts =
     and_then (advance ts) (\<lambda>(_, ts).
     and_then (expect_ident ts) (\<lambda>(name, ts).
     and_then (expect TkOn ts) (\<lambda>(_, ts).
     and_then (expect_ident ts) (\<lambda>(table, ts).
     and_then (expect TkLParen ts) (\<lambda>(_, ts).
     and_then (expect_ident ts) (\<lambda>(column, ts).
     and_then (expect TkRParen ts) (\<lambda>(_, ts). Ok (StCreateIndex name table column, ts))))))))"

definition parse_create_view :: "(string \<Rightarrow> u64 option) \<Rightarrow> nat \<Rightarrow> token list \<Rightarrow> cenql_statement parsed" where
  "parse_create_view pf d ts =
     and_then (advance ts) (\<lambda>(_, ts).
     and_then (expect_ident ts) (\<lambda>(name, ts).
     and_then (expect_word ''as'' (''expected '' @ quoted ''as'' @ '' after view name, got '') ts) (\<lambda>(_, ts).
     and_then (parse_pipeline pf d ts) (\<lambda>(p, ts). Ok (StCreateView name p, ts)))))"

definition parse_create :: "(string \<Rightarrow> u64 option) \<Rightarrow> nat \<Rightarrow> token list \<Rightarrow> cenql_statement parsed" where
  "parse_create pf d ts =
     and_then (advance ts) (\<lambda>(_, ts).
       case peek_token ts of
         None \<Rightarrow> Err PeUnexpectedEof
       | Some tok \<Rightarrow>
           if tk_kind tok = TkIdent
           then (let kw = to_lowercase (tk_text tok)
                 in if kw = ''table'' then parse_create_table ts
                    else if kw = ''index'' then parse_create_index ts
                    else if kw = ''view'' then parse_create_view pf d ts
                    else Err (PeOther (''expected table/index/view after create, got '' @ kw)))
           else Err (PeOther ''expected table/index/view after create''))"

definition parse_drop :: "token list \<Rightarrow> cenql_statement parsed" where
  "parse_drop ts =
     and_then (advance ts) (\<lambda>(_, ts).
       case peek_token ts of
         None \<Rightarrow> Err PeUnexpectedEof
       | Some tok \<Rightarrow>
           if tk_kind tok = TkIdent
           then (let kw = to_lowercase (tk_text tok)
                 in if kw = ''table'' then
                      and_then (advance ts) (\<lambda>(_, ts).
                      and_then (expect_ident ts) (\<lambda>(name, ts). Ok (StDropTable name, ts)))
                    else if kw = ''index'' then
                      and_then (advance ts) (\<lambda>(_, ts).
                      and_then (expect_ident ts) (\<lambda>(name, ts). Ok (StDropIndex name, ts)))
                    else if kw = ''view'' then
                      and_then (advance ts) (\<lambda>(_, ts).
                      and_then (expect_ident ts) (\<lambda>(name, ts). Ok (StDropView name, ts)))
                    else Err (PeOther (''expected table/index/view after drop, got '' @ kw)))
           else Err (PeOther ''expected table/index/view after drop''))"

definition parse_pair ::
    "(string \<Rightarrow> u64 option) \<Rightarrow> nat \<Rightarrow> token_kind \<Rightarrow> token list \<Rightarrow> (string \<times> expr) parsed" where
  "parse_pair pf d sep ts =
     and_then (expect_ident ts) (\<lambda>(col, ts).
     and_then (expect sep ts) (\<lambda>(_, ts).
     and_then (parse_expr pf d ts) (\<lambda>(v, ts). Ok ((col, v), ts))))"

text \<open>The values of an \<open>insert\<close> or \<open>upsert\<close> between braces.\<close>

fun value_loop :: "(string \<Rightarrow> u64 option) \<Rightarrow> nat \<Rightarrow> nat \<Rightarrow> token list \<Rightarrow> (string \<times> expr) list parsed" where
  "value_loop pf d 0 ts = Panic"
| "value_loop pf d (Suc n) ts =
     and_then (parse_pair pf d TkColon ts) (\<lambda>(p, ts).
     and_then (more_items ts) (\<lambda>(continue, ts).
       if continue then and_then (value_loop pf d n ts) (\<lambda>(ps, ts). Ok (p # ps, ts))
       else Ok ([p], ts)))"

definition parse_into ::
    "(string \<Rightarrow> u64 option) \<Rightarrow> nat \<Rightarrow> string \<Rightarrow> token list \<Rightarrow> (string \<times> (string \<times> expr) list) parsed" where
  "parse_into pf d verb ts =
     and_then (advance ts) (\<lambda>(_, ts).
     and_then (expect_word ''into'' (''expected '' @ quoted ''into'' @ '' after '' @ verb @ '', got '') ts) (\<lambda>(_, ts).
     and_then (expect_ident ts) (\<lambda>(table, ts).
     and_then (expect TkLBrace ts) (\<lambda>(_, ts).
     and_then (value_loop pf d (Suc (length ts)) ts) (\<lambda>(vs, ts). Ok ((table, vs), ts))))))"

definition parse_insert :: "(string \<Rightarrow> u64 option) \<Rightarrow> nat \<Rightarrow> token list \<Rightarrow> cenql_statement parsed" where
  "parse_insert pf d ts =
     and_then (parse_into pf d ''insert'' ts) (\<lambda>((table, vs), ts). Ok (StInsert table vs, ts))"

definition parse_upsert :: "(string \<Rightarrow> u64 option) \<Rightarrow> nat \<Rightarrow> token list \<Rightarrow> cenql_statement parsed" where
  "parse_upsert pf d ts =
     and_then (parse_into pf d ''upsert'' ts) (\<lambda>((table, vs), ts). Ok (StUpsert table vs, ts))"

definition parse_where :: "(string \<Rightarrow> u64 option) \<Rightarrow> nat \<Rightarrow> token list \<Rightarrow> expr option parsed" where
  "parse_where pf d ts =
     (if peek_word ts = Some ''where''
      then and_then (advance ts) (\<lambda>(_, ts). and_then (parse_expr pf d ts) (\<lambda>(e, ts). Ok (Some e, ts)))
      else Ok (None, ts))"

definition parse_update :: "(string \<Rightarrow> u64 option) \<Rightarrow> nat \<Rightarrow> token list \<Rightarrow> cenql_statement parsed" where
  "parse_update pf d ts =
     and_then (advance ts) (\<lambda>(_, ts).
     and_then (expect_ident ts) (\<lambda>(table, ts).
     and_then (expect_word ''set'' (''expected '' @ quoted ''set'' @ '' after table name, got '') ts) (\<lambda>(_, ts).
     and_then (comma_items (parse_pair pf d TkAssign) (Suc (length ts)) ts) (\<lambda>(assignments, ts).
     and_then (parse_where pf d ts) (\<lambda>(w, ts). Ok (StUpdate table assignments w, ts))))))"

definition parse_delete_stmt :: "(string \<Rightarrow> u64 option) \<Rightarrow> nat \<Rightarrow> token list \<Rightarrow> cenql_statement parsed" where
  "parse_delete_stmt pf d ts =
     and_then (advance ts) (\<lambda>(_, ts).
     and_then (expect TkFrom ts) (\<lambda>(_, ts).
     and_then (expect_ident ts) (\<lambda>(table, ts).
     and_then (parse_where pf d ts) (\<lambda>(w, ts). Ok (StDelete table w, ts)))))"

definition parse_cte :: "(string \<Rightarrow> u64 option) \<Rightarrow> nat \<Rightarrow> token list \<Rightarrow> cenql_statement parsed" where
  "parse_cte pf d ts =
     and_then (advance ts) (\<lambda>(_, ts).
     and_then (expect_ident ts) (\<lambda>(name, ts).
     and_then (expect_word ''as'' (''expected '' @ quoted ''as'' @ '' after CTE name, got '') ts) (\<lambda>(_, ts).
     and_then (expect TkLParen ts) (\<lambda>(_, ts).
     and_then (parse_pipeline pf d ts) (\<lambda>(cte, ts).
     and_then (expect TkRParen ts) (\<lambda>(_, ts).
     and_then (parse_pipeline pf d ts) (\<lambda>(main, ts). Ok (StWithCte name cte main, ts))))))))"

definition check_set_operations ::
    "(string \<Rightarrow> u64 option) \<Rightarrow> nat \<Rightarrow> cenql_pipeline \<Rightarrow> token list \<Rightarrow> cenql_statement parsed" where
  "check_set_operations pf d left ts =
     (if peek_word ts = Some ''union'' then
        and_then (advance ts) (\<lambda>(_, ts).
        and_then (if peek_word ts = Some ''all''
                  then and_then (advance ts) (\<lambda>(_, ts). Ok (True, ts)) else Ok (False, ts)) (\<lambda>(all, ts).
        and_then (parse_pipeline pf d ts) (\<lambda>(right, ts). Ok (StUnion left right all, ts))))
      else if peek_word ts = Some ''intersect'' then
        and_then (advance ts) (\<lambda>(_, ts).
        and_then (parse_pipeline pf d ts) (\<lambda>(right, ts). Ok (StIntersect left right, ts)))
      else if peek_word ts = Some ''except'' then
        and_then (advance ts) (\<lambda>(_, ts).
        and_then (parse_pipeline pf d ts) (\<lambda>(right, ts). Ok (StExcept left right, ts)))
      else Ok (StQuery left, ts))"

definition parse_query :: "(string \<Rightarrow> u64 option) \<Rightarrow> nat \<Rightarrow> token list \<Rightarrow> cenql_statement parsed" where
  "parse_query pf d ts =
     and_then (parse_pipeline pf d ts) (\<lambda>(p, ts). check_set_operations pf d p ts)"

definition parse_keyword_statement ::
    "(string \<Rightarrow> u64 option) \<Rightarrow> nat \<Rightarrow> string \<Rightarrow> token list \<Rightarrow> cenql_statement parsed" where
  "parse_keyword_statement pf d kw ts =
     (if kw = ''create'' then parse_create pf d ts
      else if kw = ''drop'' then parse_drop ts
      else if kw = ''insert'' then parse_insert pf d ts
      else if kw = ''update'' then parse_update pf d ts
      else if kw = ''delete'' then parse_delete_stmt pf d ts
      else if kw = ''upsert'' then parse_upsert pf d ts
      else if kw = ''begin'' then and_then (advance ts) (\<lambda>(_, ts). Ok (StBegin, ts))
      else if kw = ''commit'' then and_then (advance ts) (\<lambda>(_, ts). Ok (StCommit, ts))
      else if kw = ''rollback'' then and_then (advance ts) (\<lambda>(_, ts). Ok (StRollback, ts))
      else if kw = ''with'' then parse_cte pf d ts
      else parse_query pf d ts)"

definition parse_top_level :: "(string \<Rightarrow> u64 option) \<Rightarrow> nat \<Rightarrow> token list \<Rightarrow> cenql_statement parsed" where
  "parse_top_level pf d ts =
     (case peek_token ts of
        None \<Rightarrow> Err PeUnexpectedEof
      | Some tok \<Rightarrow>
          (case tk_kind tok of
             TkIdent \<Rightarrow> parse_keyword_statement pf d (to_lowercase (tk_text tok)) ts
           | TkDistinct \<Rightarrow>
               and_then (advance ts) (\<lambda>(_, ts).
               and_then (parse_pipeline pf d ts) (\<lambda>(p, ts). Ok (StDistinct p, ts)))
           | TkFrom \<Rightarrow> parse_query pf d ts
           | _ \<Rightarrow> and_then (parse_pipeline pf d ts) (\<lambda>(p, ts). Ok (StQuery p, ts))))"

definition parse_statement ::
    "(string \<Rightarrow> u64 option) \<Rightarrow> nat \<Rightarrow> string \<Rightarrow> (cenql_statement, parse_error) outcome" where
  "parse_statement pf d src =
     and_then (parser_new src) (\<lambda>ts.
     and_then (parse_top_level pf d ts) (\<lambda>(stmt, ts). Ok stmt))"

end
