(* ===== verification/ParserSound.thy ===== *)
theory ParserSound
  imports Parser
begin

text \<open>
  What the parser returns: on the tokens of a source every parsing function ends without a panic,
  leaves a suffix that still ends with the end of input, and builds well-formed trees only. One
  predicate on results carries the three facts, and its rules follow the combination of parsers.
\<close>

named_theorems parse_ok \<open>results of parsing functions\<close>

section \<open>Well-formed trees\<close>

fun split_at :: "char \<Rightarrow> string \<Rightarrow> string list" where
  "split_at s [] = [[]]"
| "split_at s (c # cs) =
     (if c = s then [] # split_at s cs
      else (case split_at s cs of w # ws \<Rightarrow> (c # w) # ws | [] \<Rightarrow> [[c]]))"

definition is_ident :: "string \<Rightarrow> bool" where
  "is_ident w \<longleftrightarrow> wf_key (TkIdent, w)"

definition is_path :: "string \<Rightarrow> bool" where
  "is_path c \<longleftrightarrow> (\<forall>w\<in>set (split_at CHR ''.'' c). is_ident w)"

text \<open>A source name: one identifier, or two with a space, the second not a set operation.\<close>

definition is_source_name :: "string \<Rightarrow> bool" where
  "is_source_name n \<longleftrightarrow>
     (case split_at CHR '' '' n of
        [w] \<Rightarrow> is_ident w
      | [w, v] \<Rightarrow> is_ident w \<and> is_ident v \<and> \<not> is_set_op v
      | _ \<Rightarrow> False)"

text \<open>A float that some numeral denotes.\<close>

definition is_float :: "(string \<Rightarrow> u64 option) \<Rightarrow> u64 \<Rightarrow> bool" where
  "is_float pf v \<longleftrightarrow> (\<exists>w. is_number w True \<and> pf w = Some v)"

fun wf_expr :: "(string \<Rightarrow> u64 option) \<Rightarrow> expr \<Rightarrow> bool" where
  "wf_expr pf (ExColumn c) = is_path c"
| "wf_expr pf (ExI64 i) = (0 \<le> sint i)"
| "wf_expr pf (ExF64 v) = is_float pf v"
| "wf_expr pf (ExStr s) = is_string_content s"
| "wf_expr pf (ExBool b) = False"
| "wf_expr pf (ExBinary bop l r) = (wf_expr pf l \<and> wf_expr pf r)"
| "wf_expr pf (ExCall name args) = (is_ident name \<and> (\<forall>a\<in>set args. wf_expr pf a))"
| "wf_expr pf (ExIn v sub) = False"

fun wf_agg :: "(string \<Rightarrow> u64 option) \<Rightarrow> agg_expr \<Rightarrow> bool" where
  "wf_agg pf (AggExpr name func args) =
     (is_ident name \<and> is_ident func \<and> (\<forall>a\<in>set args. wf_expr pf a))"

fun wf_window :: "window_spec \<Rightarrow> bool" where
  "wf_window (Tumbling w) = is_duration w"
| "wf_window (Hopping s l) = (is_duration s \<and> is_duration l)"
| "wf_window (Session g) = is_duration g"

definition wf_pattern :: "graph_match_pattern \<Rightarrow> bool" where
  "wf_pattern p \<longleftrightarrow> is_ident (start_var p) \<and> is_ident (end_var p)
     \<and> (\<forall>l\<in>set_option (start_label p) \<union> set_option (edge_type p) \<union> set_option (end_label p). is_ident l)
     \<and> edge_dir p \<noteq> EdgeBoth"

text \<open>The stages that may follow the first one.\<close>

fun wf_stage :: "(string \<Rightarrow> u64 option) \<Rightarrow> cenql_stage \<Rightarrow> bool" where
  "wf_stage pf (SgFrom name) = False"
| "wf_stage pf (SgFromSubquery p) = False"
| "wf_stage pf (SgFilter e) = wf_expr pf e"
| "wf_stage pf (SgSelect cols) = (cols \<noteq> [] \<and> (\<forall>c\<in>set cols. is_path c))"
| "wf_stage pf (SgSort c dir) = is_path c"
| "wf_stage pf (SgTake n) = True"
| "wf_stage pf (SgJoin src kind e) = (is_ident src \<and> wf_expr pf e)"
| "wf_stage pf (SgGroupBy k aggs) = (is_path k \<and> aggs \<noteq> [] \<and> (\<forall>a\<in>set aggs. wf_agg pf a))"
| "wf_stage pf (SgWindow spec c aggs) =
     (wf_window spec \<and> is_path c \<and> aggs \<noteq> [] \<and> (\<forall>a\<in>set aggs. wf_agg pf a))"
| "wf_stage pf (SgMatch p) = wf_pattern p"
| "wf_stage pf (SgReturn dist cols) = (cols \<noteq> [] \<and> (\<forall>c\<in>set cols. is_path c))"

fun wf_pipeline :: "(string \<Rightarrow> u64 option) \<Rightarrow> cenql_pipeline \<Rightarrow> bool" where
  "wf_pipeline pf (Pipeline ss) =
     (case ss of SgFrom name # rest \<Rightarrow> is_source_name name \<and> (\<forall>s\<in>set rest. wf_stage pf s) | _ \<Rightarrow> False)"

definition wf_pair :: "(string \<Rightarrow> u64 option) \<Rightarrow> string \<times> expr \<Rightarrow> bool" where
  "wf_pair pf p \<longleftrightarrow> is_ident (fst p) \<and> wf_expr pf (snd p)"

definition wf_column :: "column_def \<Rightarrow> bool" where
  "wf_column c \<longleftrightarrow> is_ident (cd_name c) \<and> to_lowercase (cd_name c) \<noteq> ''primary_key''"

fun wf_statement :: "(string \<Rightarrow> u64 option) \<Rightarrow> cenql_statement \<Rightarrow> bool" where
  "wf_statement pf (StQuery p) = wf_pipeline pf p"
| "wf_statement pf (StCreateTable name cols pk) =
     (is_ident name \<and> (\<forall>c\<in>set cols. wf_column c) \<and> (\<forall>k\<in>set_option pk. is_ident k)
      \<and> (cols \<noteq> [] \<or> pk \<noteq> None))"
| "wf_statement pf (StDropTable name) = is_ident name"
| "wf_statement pf (StCreateIndex name table col) = (is_ident name \<and> is_ident table \<and> is_ident col)"
| "wf_statement pf (StDropIndex name) = is_ident name"
| "wf_statement pf (StInsert table vs) = (is_ident table \<and> vs \<noteq> [] \<and> (\<forall>v\<in>set vs. wf_pair pf v))"
| "wf_statement pf (StUpdate table sets w) =
     (is_ident table \<and> sets \<noteq> [] \<and> (\<forall>v\<in>set sets. wf_pair pf v) \<and> (\<forall>e\<in>set_option w. wf_expr pf e))"
| "wf_statement pf (StDelete table w) = (is_ident table \<and> (\<forall>e\<in>set_option w. wf_expr pf e))"
| "wf_statement pf (StUpsert table vs) = (is_ident table \<and> vs \<noteq> [] \<and> (\<forall>v\<in>set vs. wf_pair pf v))"
| "wf_statement pf (StCreateView name p) = (is_ident name \<and> wf_pipeline pf p)"
| "wf_statement pf (StDropView name) = is_ident name"
| "wf_statement pf StBegin = True"
| "wf_statement pf StCommit = True"
| "wf_statement pf StRollback = True"
| "wf_statement pf (StWithCte name cte main) = (is_ident name \<and> wf_pipeline pf cte \<and> wf_pipeline pf main)"
| "wf_statement pf (StUnion l r all) = (wf_pipeline pf l \<and> wf_pipeline pf r)"
| "wf_statement pf (StIntersect l r) = (wf_pipeline pf l \<and> wf_pipeline pf r)"
| "wf_statement pf (StExcept l r) = (wf_pipeline pf l \<and> wf_pipeline pf r)"
| "wf_statement pf (StDistinct p) = wf_pipeline pf p"

section \<open>The rules\<close>

text \<open>The tokens of a source, few enough for the stack.\<close>

definition ready :: "nat \<Rightarrow> token list \<Rightarrow> bool" where
  "ready d ts \<longleftrightarrow> eof_ended ts \<and> (\<forall>t\<in>set (butlast ts). wf_key (key t)) \<and> length ts \<le> d"

definition parsed_ok :: "nat \<Rightarrow> nat \<Rightarrow> ('a \<Rightarrow> bool) \<Rightarrow> token list \<Rightarrow> 'a parsed \<Rightarrow> bool" where
  "parsed_ok d k Q ts r =
     (case r of
        Ok (v, ts') \<Rightarrow> Q v \<and> ready d ts' \<and> length ts' + k \<le> length ts
      | Err e \<Rightarrow> True
      | Panic \<Rightarrow> False)"

lemma ok_bind:
  assumes "parsed_ok d k Q ts m"
    and "\<And>v ts'. Q v \<Longrightarrow> ready d ts' \<Longrightarrow> length ts' + k \<le> length ts \<Longrightarrow> parsed_ok d 0 R ts' (g v ts')"
  shows "parsed_ok d k R ts (and_then m (case_prod g))"
proof (cases m)
  case (Ok x)
  obtain v ts' where x: "x = (v, ts')" by fastforce
  have m: "Q v" "ready d ts'" "length ts' + k \<le> length ts"
    using assms(1) by (simp_all add: Ok x parsed_ok_def)
  show ?thesis
    using assms(2) [OF m] m(3) by (auto simp: Ok x parsed_ok_def split: outcome.splits)
qed (use assms(1) in \<open>simp_all add: parsed_ok_def\<close>)

lemma ok_bind_pair:
  assumes "parsed_ok d k Q ts m"
    and "\<And>v w ts'. Q (v, w) \<Longrightarrow> ready d ts' \<Longrightarrow> length ts' + k \<le> length ts \<Longrightarrow> parsed_ok d 0 R ts' (g v w ts')"
  shows "parsed_ok d k R ts (and_then m (case_prod (case_prod g)))"
  using assms by (intro ok_bind [where Q = Q]) (auto split: prod.splits)

lemma ok_return [parse_ok]: "Q v \<Longrightarrow> ready d ts \<Longrightarrow> parsed_ok d 0 Q ts (Ok (v, ts))"
  by (simp add: parsed_ok_def)

lemma ok_error [parse_ok]: "parsed_ok d k Q ts (Err e)"
  by (simp add: parsed_ok_def)

lemma ok_weaken: "parsed_ok d k Q ts r \<Longrightarrow> j \<le> k \<Longrightarrow> (\<And>v. Q v \<Longrightarrow> R v) \<Longrightarrow> parsed_ok d j R ts r"
  by (auto simp: parsed_ok_def split: outcome.splits)

lemma ok_if [parse_ok]:
  "(b \<Longrightarrow> parsed_ok d k Q ts p) \<Longrightarrow> (\<not> b \<Longrightarrow> parsed_ok d k Q ts q) \<Longrightarrow> parsed_ok d k Q ts (if b then p else q)"
  by simp

lemma ready_nonempty: "ready d ts \<Longrightarrow> \<exists>t r. ts = t # r"
  by (cases ts) (auto simp: ready_def eof_ended_def)

lemma ready_tail: "ready d (t # u # ts) \<Longrightarrow> ready d (u # ts)"
  by (auto simp: ready_def eof_ended_def split: if_splits)

lemma peek_kind_eof: "ready d [t] \<Longrightarrow> peek_kind [t] = Some TkEof"
  by (simp add: ready_def eof_ended_def peek_kind_def)

lemma advance_ok:
  assumes "ready d ts" "peek_kind ts = Some kind" "kind \<noteq> TkEof" "k \<le> 1"
  shows "parsed_ok d k (\<lambda>t. tk_kind t = kind \<and> wf_key (kind, tk_text t)) ts (advance ts)"
proof -
  obtain t u r where ts: "ts = t # u # r"
    using assms(1-3) ready_nonempty peek_kind_eof by (metis advance.cases option.inject)
  have "wf_key (key t)" using assms(1) by (simp add: ready_def ts)
  then show ?thesis
    using assms ready_tail [of d t u r] by (auto simp: ts parsed_ok_def peek_kind_def key_def)
qed

lemmas bind_advance [parse_ok] = advance_ok [THEN ok_bind]

lemma take_kind_ok:
  "ready d ts \<Longrightarrow> kind \<noteq> TkEof \<Longrightarrow> k \<le> 1 \<Longrightarrow>
     parsed_ok d k (\<lambda>w. wf_key (kind, w)) ts (take_kind kind e ts)"
  unfolding take_kind_def
  by (cases "peek_kind ts") (auto intro!: advance_ok [THEN ok_bind] ok_return ok_error)

lemmas bind_take_kind [parse_ok] = take_kind_ok [THEN ok_bind]

lemma expect_ok:
  "ready d ts \<Longrightarrow> kind \<noteq> TkEof \<Longrightarrow> k \<le> 1 \<Longrightarrow> parsed_ok d k (\<lambda>_. True) ts (expect kind ts)"
  unfolding expect_def by (intro parse_ok) simp_all

lemmas bind_expect [parse_ok] = expect_ok [THEN ok_bind]

lemma expect_ident_ok:
  "ready d ts \<Longrightarrow> k \<le> 1 \<Longrightarrow> parsed_ok d k is_ident ts (expect_ident ts)"
  unfolding expect_ident_def is_ident_def [abs_def] by (rule take_kind_ok) auto

lemmas bind_expect_ident [parse_ok] = expect_ident_ok [THEN ok_bind]

section \<open>Names, numbers and lists\<close>

lemma split_at_append: "split_at s (a @ s # b) = split_at s a @ split_at s b"
proof (induction a)
  case (Cons c a)
  have "split_at s a \<noteq> []" for a by (cases a) (auto split: list.splits)
  then show ?case using Cons by (auto split: list.splits)
qed simp

lemma split_at_none: "s \<notin> set w \<Longrightarrow> split_at s w = [w]"
  by (induction w) auto

lemma ident_chars: "is_ident w \<Longrightarrow> c \<in> set w \<Longrightarrow> is_ident_char c"
  by (simp add: is_ident_def wf_key_def is_word_def)

lemma ident_no_dot: "is_ident w \<Longrightarrow> CHR ''.'' \<notin> set w"
  using ident_chars [of w "CHR ''.''"]
  by (auto simp: is_ident_char_def is_ascii_alphanumeric_def is_ascii_alphabetic_def is_ascii_digit_def)

lemma ident_no_space: "is_ident w \<Longrightarrow> CHR '' '' \<notin> set w"
  using ident_chars [of w "CHR '' ''"]
  by (auto simp: is_ident_char_def is_ascii_alphanumeric_def is_ascii_alphabetic_def is_ascii_digit_def)

lemma is_path_ident: "is_ident w \<Longrightarrow> is_path w"
  by (simp add: is_path_def split_at_none ident_no_dot)

lemma is_path_append: "is_path c \<Longrightarrow> is_ident w \<Longrightarrow> is_path (c @ ''.'' @ w)"
  by (auto simp: is_path_def split_at_append split_at_none ident_no_dot)

lemma path_loop_ok:
  "ready d ts \<Longrightarrow> is_path full \<Longrightarrow> length ts < n \<Longrightarrow> parsed_ok d 0 is_path ts (path_loop n full ts)"
proof (induction n arbitrary: full ts)
  case (Suc n)
  show ?case
  proof (cases "peek_kind ts = Some TkDot")
    case True
    have "parsed_ok d 1 is_path ts (path_loop (Suc n) full ts)"
      using True by simp
        (intro ok_bind, rule advance_ok [OF Suc.prems(1) True], simp, simp, rule expect_ident_ok, assumption, simp,
          rule Suc.IH, assumption, rule is_path_append [unfolded append.simps, OF Suc.prems(2)], use Suc.prems in simp_all)
    then show ?thesis by (rule ok_weaken) auto
  qed (use Suc.prems in \<open>auto intro!: parse_ok\<close>)
qed simp

lemma expect_ident_or_path_ok:
  "ready d ts \<Longrightarrow> k \<le> 1 \<Longrightarrow> parsed_ok d k is_path ts (expect_ident_or_path ts)"
  unfolding expect_ident_or_path_def
  by (rule ok_bind [OF expect_ident_ok], assumption, assumption, rule path_loop_ok)
    (auto intro: is_path_ident)

lemmas bind_expect_ident_or_path [parse_ok] = expect_ident_or_path_ok [THEN ok_bind]

lemma parse_u64_ok: "ready d ts \<Longrightarrow> k \<le> 1 \<Longrightarrow> parsed_ok d k (\<lambda>_. True) ts (parse_u64 ts)"
  unfolding parse_u64_def
  by (rule ok_bind [OF take_kind_ok]) (auto intro!: parse_ok split: option.splits)

lemmas bind_parse_u64 [parse_ok] = parse_u64_ok [THEN ok_bind]

lemma parse_u32_ok: "ready d ts \<Longrightarrow> k \<le> 1 \<Longrightarrow> parsed_ok d k (\<lambda>_. True) ts (parse_u32 ts)"
  unfolding parse_u32_def
  by (rule ok_bind [OF parse_u64_ok]) (auto intro!: parse_ok)

lemmas bind_parse_u32 [parse_ok] = parse_u32_ok [THEN ok_bind]

lemma comma_items_ok:
  assumes "\<And>ts'. ready d ts' \<Longrightarrow> length ts' \<le> length ts \<Longrightarrow> parsed_ok d 1 Q ts' (item ts')"
  shows "ready d ts \<Longrightarrow> length ts < n \<Longrightarrow> k \<le> 1 \<Longrightarrow>
    parsed_ok d k (\<lambda>xs. xs \<noteq> [] \<and> (\<forall>x\<in>set xs. Q x)) ts (comma_items item n ts)"
  using assms
proof (induction n arbitrary: ts k)
  case (Suc n)
  have item: "parsed_ok d 1 Q ts (item ts)" using Suc.prems by simp
  have after: "parsed_ok d 0 (\<lambda>xs. xs \<noteq> [] \<and> (\<forall>x\<in>set xs. Q x)) ts'
      (if peek_kind ts' = Some TkComma
       then and_then (advance ts') (\<lambda>(_, ts). and_then (comma_items item n ts) (\<lambda>(xs, ts). Ok (x # xs, ts)))
       else Ok ([x], ts'))"
    if "Q x" "ready d ts'" "length ts' + 1 \<le> length ts" for x ts'
  proof (cases "peek_kind ts' = Some TkComma")
    case True
    show ?thesis
      unfolding True if_P [OF refl]
    proof (rule ok_bind [OF advance_ok [OF that(2) True]])
      fix t ts2 assume "ready d ts2" "length ts2 + 0 \<le> length ts'"
      then show "parsed_ok d 0 (\<lambda>xs. xs \<noteq> [] \<and> (\<forall>x\<in>set xs. Q x)) ts2
          (and_then (comma_items item n ts2) (\<lambda>(xs, ts). Ok (x # xs, ts)))"
        using that Suc.prems
        by (intro ok_bind [OF Suc.IH [where k = 0]]) (auto intro!: ok_return)
    qed simp_all
  qed (use that in \<open>auto intro!: ok_return\<close>)
  have "parsed_ok d 1 (\<lambda>xs. xs \<noteq> [] \<and> (\<forall>x\<in>set xs. Q x)) ts (comma_items item (Suc n) ts)"
    unfolding comma_items.simps by (rule ok_bind [OF item after])
  then show ?case using Suc.prems(3) by (auto elim: ok_weaken)
qed simp

section \<open>Expressions\<close>

lemma binary_loop_ok:
  assumes "\<And>ts'. ready d ts' \<Longrightarrow> length ts' < length ts \<Longrightarrow> parsed_ok d 1 (wf_expr pf) ts' (operand ts')"
    and "op_of TkEof = None"
  shows "ready d ts \<Longrightarrow> wf_expr pf lhs \<Longrightarrow> length ts < n \<Longrightarrow>
    parsed_ok d 0 (wf_expr pf) ts (binary_loop op_of operand n lhs ts)"
  using assms(1)
proof (induction n arbitrary: ts lhs)
  case (Suc n)
  show ?case
  proof (cases "Option.bind (peek_kind ts) op_of")
    case (Some bop)
    then obtain kind where kind: "peek_kind ts = Some kind" "op_of kind = Some bop" by (auto simp: bind_eq_Some_conv)
    have "kind \<noteq> TkEof" using kind(2) assms(2) by auto
    then have adv: "parsed_ok d 1 (\<lambda>t. tk_kind t = kind \<and> wf_key (kind, tk_text t)) ts (advance ts)"
      by (intro advance_ok [OF Suc.prems(1) kind(1)]) simp_all
    have "parsed_ok d 1 (wf_expr pf) ts (binary_loop op_of operand (Suc n) lhs ts)"
      unfolding binary_loop.simps Some option.case
    proof (rule ok_bind [OF adv])
      fix t ts2 assume t: "ready d ts2" "length ts2 + 1 \<le> length ts"
      have "parsed_ok d 1 (wf_expr pf) ts2 (operand ts2)" using Suc.prems t by simp
      then have "parsed_ok d 1 (wf_expr pf) ts2 (and_then (operand ts2)
          (\<lambda>(rhs, ts). binary_loop op_of operand n (ExBinary bop lhs rhs) ts))"
        by (rule ok_bind) (rule Suc.IH; use Suc.prems t in simp)
      then show "parsed_ok d 0 (wf_expr pf) ts2 (and_then (operand ts2)
          (\<lambda>(rhs, ts). binary_loop op_of operand n (ExBinary bop lhs rhs) ts))"
        by (rule ok_weaken) auto
    qed
    then show ?thesis by (rule ok_weaken) auto
  qed (use Suc.prems in \<open>simp add: ok_return\<close>)
qed simp

lemma parse_level_ok:
  assumes "\<And>ts'. ready d ts' \<Longrightarrow> length ts' \<le> length ts \<Longrightarrow> parsed_ok d 1 (wf_expr pf) ts' (operand ts')"
    and "op_of TkEof = None" "ready d ts"
  shows "parsed_ok d 1 (wf_expr pf) ts (parse_level op_of operand ts)"
  unfolding parse_level_def
  by (rule ok_bind [OF assms(1) [OF assms(3)]], simp, rule binary_loop_ok) (use assms in auto)

lemma sint_of_nat_small: "n < 2 ^ 63 \<Longrightarrow> sint (of_nat n :: i64) = int n"
  by (simp add: signed_of_nat signed_take_bit_int_eq_self_iff)

lemma parse_args_with_ok:
  assumes "\<And>ts'. ready d ts' \<Longrightarrow> length ts' \<le> length ts \<Longrightarrow> parsed_ok d 1 (wf_expr pf) ts' (expr ts')" "ready d ts"
  shows "parsed_ok d 0 (\<lambda>xs. \<forall>x\<in>set xs. wf_expr pf x) ts (parse_args_with expr ts)"
proof (cases "peek_kind ts = Some TkRParen")
  case False
  have "parsed_ok d 1 (\<lambda>xs. xs \<noteq> [] \<and> (\<forall>x\<in>set xs. wf_expr pf x)) ts (comma_items expr (Suc (length ts)) ts)"
    by (rule comma_items_ok) (use assms in auto)
  then have "parsed_ok d 0 (\<lambda>xs. \<forall>x\<in>set xs. wf_expr pf x) ts (comma_items expr (Suc (length ts)) ts)"
    by (rule ok_weaken) auto
  then show ?thesis using False by (simp add: parse_args_with_def del: comma_items.simps)
qed (use assms in \<open>simp add: parse_args_with_def ok_return\<close>)

lemma parse_primary_ident_ok:
  assumes "\<And>ts'. ready d ts' \<Longrightarrow> length ts' < length ts \<Longrightarrow> parsed_ok d 1 (wf_expr pf) ts' (expr ts')"
    and "is_ident name" "ready d ts"
  shows "parsed_ok d 0 (wf_expr pf) ts
    (if peek_kind ts = Some TkLParen
     then and_then (advance ts) (\<lambda>(_, ts).
            and_then (parse_args_with expr ts) (\<lambda>(args, ts).
              and_then (expect TkRParen ts) (\<lambda>(_, ts). Ok (ExCall name args, ts))))
     else and_then (path_loop (Suc (length ts)) name ts) (\<lambda>(full, ts). Ok (ExColumn full, ts)))"
proof (cases "peek_kind ts = Some TkLParen")
  case True
  have "parsed_ok d 1 (wf_expr pf) ts (and_then (advance ts) (\<lambda>(_, ts).
            and_then (parse_args_with expr ts) (\<lambda>(args, ts).
              and_then (expect TkRParen ts) (\<lambda>(_, ts). Ok (ExCall name args, ts)))))"
  proof (rule ok_bind [OF advance_ok [OF assms(3) True]])
    fix t ts2 assume t: "ready d ts2" "length ts2 + 1 \<le> length ts"
    show "parsed_ok d 0 (wf_expr pf) ts2 (and_then (parse_args_with expr ts2) (\<lambda>(args, ts).
              and_then (expect TkRParen ts) (\<lambda>(_, ts). Ok (ExCall name args, ts))))"
      using assms(1) t
      by (intro ok_bind [OF parse_args_with_ok] ok_bind [OF expect_ok] ok_return)
        (auto simp: assms(2))
  qed simp_all
  then show ?thesis using True by (auto elim: ok_weaken)
next
  case False
  have "parsed_ok d 0 (wf_expr pf) ts (and_then (path_loop (Suc (length ts)) name ts) (\<lambda>(full, ts). Ok (ExColumn full, ts)))"
    by (rule ok_bind [OF path_loop_ok]) (use assms in \<open>auto intro!: ok_return is_path_ident\<close>)
  then show ?thesis using False by (simp del: path_loop.simps)
qed

lemma parse_primary_ok:
  assumes "\<And>ts'. ready d ts' \<Longrightarrow> length ts' < length ts \<Longrightarrow> parsed_ok d 1 (wf_expr pf) ts' (expr ts')"
    and "ready d ts"
  shows "parsed_ok d 1 (wf_expr pf) ts (parse_primary pf expr ts)"
proof (cases "peek_kind ts")
  case (Some kind)
  have adv: "kind \<noteq> TkEof \<Longrightarrow> parsed_ok d 1 (\<lambda>t. tk_kind t = kind \<and> wf_key (kind, tk_text t)) ts (advance ts)"
    by (rule advance_ok [OF assms(2) Some]) simp_all
  consider "kind = TkI64" | "kind = TkF64" | "kind = TkStr" | "kind = TkIdent" | "kind = TkLParen"
    | "kind \<notin> {TkI64, TkF64, TkStr, TkIdent, TkLParen}" by blast
  then show ?thesis
  proof cases
    case 1
    show ?thesis unfolding parse_primary_def Some 1 option.case token_kind.case
      by (rule ok_bind [OF adv]) (auto intro!: ok_return ok_error simp: 1 sint_of_nat_small split: option.splits)
  next
    case 2
    show ?thesis unfolding parse_primary_def Some 2 option.case token_kind.case
      by (rule ok_bind [OF adv]) (auto intro!: ok_return ok_error simp: 2 wf_key_def is_float_def split: option.splits)
  next
    case 3
    show ?thesis unfolding parse_primary_def Some 3 option.case token_kind.case
      by (rule ok_bind [OF adv]) (auto intro!: ok_return simp: 3 wf_key_def)
  next
    case 4
    have "parsed_ok d 1 (wf_expr pf) ts (parse_primary pf expr ts)"
      unfolding parse_primary_def Some 4 option.case token_kind.case
      by (rule ok_bind [OF adv], simp add: 4, rule parse_primary_ident_ok)
        (use assms 4 in \<open>auto simp: is_ident_def\<close>)
    then show ?thesis .
  next
    case 5
    show ?thesis
      unfolding parse_primary_def Some 5 option.case token_kind.case
    proof (rule ok_bind [OF adv])
      fix t ts2 assume t: "ready d ts2" "length ts2 + 1 \<le> length ts"
      have "parsed_ok d 1 (wf_expr pf) ts2 (expr ts2)" using assms(1) t by simp
      then show "parsed_ok d 0 (wf_expr pf) ts2 (and_then (expr ts2) (\<lambda>(e, ts).
            and_then (expect TkRParen ts) (\<lambda>(_, ts). Ok (e, ts))))"
        by (intro ok_bind [OF ok_weaken] ok_bind [OF expect_ok] ok_return) auto
    qed (simp add: 5)
  next
    case 6
    then show ?thesis unfolding parse_primary_def Some
      by (cases kind) (simp_all add: ok_error)
  qed
qed (simp add: parse_primary_def ok_error)

lemma parse_comparison_ok:
  assumes "\<And>ts'. ready d ts' \<Longrightarrow> length ts' \<le> length ts \<Longrightarrow> parsed_ok d 1 (wf_expr pf) ts' (parse_additive pf expr ts')"
    and "ready d ts"
  shows "parsed_ok d 1 (wf_expr pf) ts (parse_comparison pf expr ts)"
  unfolding parse_comparison_def
proof (rule ok_bind [OF assms(1) [OF assms(2) order_refl]])
  fix lhs ts' assume t: "wf_expr pf lhs" "ready d ts'" "length ts' + 1 \<le> length ts"
  show "parsed_ok d 0 (wf_expr pf) ts' (case Option.bind (peek_kind ts') comparison_op of
         Some bop \<Rightarrow> and_then (advance ts') (\<lambda>(_, ts).
           and_then (parse_additive pf expr ts) (\<lambda>(rhs, ts). Ok (ExBinary bop lhs rhs, ts)))
       | None \<Rightarrow> Ok (lhs, ts'))"
  proof (cases "Option.bind (peek_kind ts') comparison_op")
    case (Some bop)
    then obtain kind where kind: "peek_kind ts' = Some kind" "comparison_op kind = Some bop"
      by (auto simp: bind_eq_Some_conv)
    have "kind \<noteq> TkEof" using kind(2) by auto
    then show ?thesis
      unfolding Some option.case using t assms(1)
      by (intro ok_bind [OF advance_ok [OF t(2) kind(1)]] ok_bind [OF ok_weaken [OF assms(1)]] ok_return) auto
  qed (use t in \<open>simp add: ok_return\<close>)
qed

lemma parse_or_ok:
  assumes "\<And>ts'. ready d ts' \<Longrightarrow> length ts' < length ts \<Longrightarrow> parsed_ok d 1 (wf_expr pf) ts' (expr ts')"
    and "ready d ts"
  shows "parsed_ok d 1 (wf_expr pf) ts (parse_or pf expr ts)"
proof -
  have primary: "parsed_ok d 1 (wf_expr pf) ts' (parse_primary pf expr ts')"
    if "ready d ts'" "length ts' \<le> length ts" for ts'
    using that assms(1) by (intro parse_primary_ok) auto
  have mul: "parsed_ok d 1 (wf_expr pf) ts' (parse_multiplicative pf expr ts')"
    if "ready d ts'" "length ts' \<le> length ts" for ts'
    unfolding parse_multiplicative_def by (rule parse_level_ok) (use primary that in auto)
  have add: "parsed_ok d 1 (wf_expr pf) ts' (parse_additive pf expr ts')"
    if "ready d ts'" "length ts' \<le> length ts" for ts'
    unfolding parse_additive_def by (rule parse_level_ok) (use mul that in auto)
  have cmp: "parsed_ok d 1 (wf_expr pf) ts' (parse_comparison pf expr ts')"
    if "ready d ts'" "length ts' \<le> length ts" for ts'
    by (rule parse_comparison_ok) (use add that in auto)
  have conj: "parsed_ok d 1 (wf_expr pf) ts' (parse_and pf expr ts')"
    if "ready d ts'" "length ts' \<le> length ts" for ts'
    unfolding parse_and_def by (rule parse_level_ok) (use cmp that in auto)
  show ?thesis
    unfolding parse_or_def by (rule parse_level_ok) (use conj assms(2) in auto)
qed

lemma parse_expr_ok:
  "ready d ts \<Longrightarrow> length ts \<le> e \<Longrightarrow> parsed_ok d 1 (wf_expr pf) ts (parse_expr pf e ts)"
proof (induction e arbitrary: ts)
  case 0
  then show ?case using ready_nonempty by fastforce
next
  case (Suc e)
  then show ?case by (simp del: One_nat_def) (rule parse_or_ok, auto)
qed

lemma expr_ok: "ready d ts \<Longrightarrow> k \<le> 1 \<Longrightarrow> parsed_ok d k (wf_expr pf) ts (parse_expr pf d ts)"
  by (rule ok_weaken [OF parse_expr_ok]) (auto simp: ready_def)

lemmas bind_expr [parse_ok] = expr_ok [THEN ok_bind]

lemma args_ok: "ready d ts \<Longrightarrow> parsed_ok d 0 (\<lambda>xs. \<forall>x\<in>set xs. wf_expr pf x) ts (parse_args pf d ts)"
  unfolding parse_args_def by (rule parse_args_with_ok) (auto intro: expr_ok)

lemmas bind_args [parse_ok] = args_ok [THEN ok_bind]

declare path_loop.simps [simp del] comma_items.simps [simp del] binary_loop.simps [simp del]
  stage_loop.simps [simp del] table_loop.simps [simp del] value_loop.simps [simp del]

section \<open>Stages and pipelines\<close>

lemma ident_key: "wf_key (TkIdent, w) \<longleftrightarrow> is_ident w"
  by (simp add: is_ident_def)

lemma duration_ok: "ready d ts \<Longrightarrow> k \<le> 1 \<Longrightarrow> parsed_ok d k is_duration ts (expect_duration ts)"
  unfolding expect_duration_def by (rule ok_weaken [OF take_kind_ok]) (auto simp: wf_key_def)

lemmas bind_duration [parse_ok] = duration_ok [THEN ok_bind]

lemma columns_ok:
  "ready d ts \<Longrightarrow> k \<le> 1 \<Longrightarrow> parsed_ok d k (\<lambda>cs. cs \<noteq> [] \<and> (\<forall>c\<in>set cs. is_path c)) ts (parse_columns ts)"
  unfolding parse_columns_def by (rule comma_items_ok) (auto intro: expect_ident_or_path_ok)

lemmas bind_columns [parse_ok] = columns_ok [THEN ok_bind]

lemma agg_ok: "ready d ts \<Longrightarrow> k \<le> 1 \<Longrightarrow> parsed_ok d k (wf_agg pf) ts (parse_agg pf d ts)"
  unfolding parse_agg_def by (intro parse_ok) simp_all

lemmas bind_agg [parse_ok] = agg_ok [THEN ok_bind]

lemma aggs_ok:
  "ready d ts \<Longrightarrow> k \<le> 1 \<Longrightarrow>
     parsed_ok d k (\<lambda>as. as \<noteq> [] \<and> (\<forall>a\<in>set as. wf_agg pf a)) ts (parse_aggs pf d ts)"
  unfolding parse_aggs_def
  by (intro parse_ok comma_items_ok [where Q = "wf_agg pf", THEN ok_bind]) (auto intro: agg_ok)

lemmas bind_aggs [parse_ok] = aggs_ok [THEN ok_bind]

lemma filter_ok: "ready d ts \<Longrightarrow> k \<le> 1 \<Longrightarrow> parsed_ok d k (wf_stage pf) ts (parse_filter pf d ts)"
  unfolding parse_filter_def by (intro parse_ok) simp_all

lemmas bind_filter [parse_ok] = filter_ok [THEN ok_bind]

lemma select_ok: "ready d ts \<Longrightarrow> k \<le> 1 \<Longrightarrow> parsed_ok d k (wf_stage pf) ts (parse_select ts)"
  unfolding parse_select_def by (intro parse_ok) simp_all

lemmas bind_select [parse_ok] = select_ok [THEN ok_bind]

lemma take_ok: "ready d ts \<Longrightarrow> k \<le> 1 \<Longrightarrow> parsed_ok d k (wf_stage pf) ts (parse_take ts)"
  unfolding parse_take_def by (intro parse_ok) simp_all

lemmas bind_take [parse_ok] = take_ok [THEN ok_bind]

lemma group_by_ok: "ready d ts \<Longrightarrow> k \<le> 1 \<Longrightarrow> parsed_ok d k (wf_stage pf) ts (parse_group_by pf d ts)"
  unfolding parse_group_by_def by (intro parse_ok) simp_all

lemmas bind_group_by [parse_ok] = group_by_ok [THEN ok_bind]

text \<open>A case on the kind of the current token: one rule per branch.\<close>

lemma sort_ok: "ready d ts \<Longrightarrow> k \<le> 1 \<Longrightarrow> parsed_ok d k (wf_stage pf) ts (parse_sort ts)"
  unfolding parse_sort_def
  by (intro parse_ok) (auto intro!: parse_ok split: option.split token_kind.split)

lemma join_kind_ok:
  "ready d ts \<Longrightarrow> parsed_ok d 0 (\<lambda>_. True) ts
     (case Option.bind (peek_kind ts) join_kind_of of
        Some kind \<Rightarrow> and_then (advance ts) (\<lambda>(_, ts). Ok (kind, ts)) | None \<Rightarrow> Ok (KindInner, ts))"
  by (auto intro!: parse_ok split: option.split simp: bind_eq_Some_conv)

lemma join_ok: "ready d ts \<Longrightarrow> k \<le> 1 \<Longrightarrow> parsed_ok d k (wf_stage pf) ts (parse_join pf d ts)"
  unfolding parse_join_def
  by (intro parse_ok join_kind_ok [THEN ok_bind]) simp_all

lemma window_spec_ok: "ready d ts \<Longrightarrow> k \<le> 1 \<Longrightarrow> parsed_ok d k wf_window ts (parse_window_spec ts)"
  unfolding parse_window_spec_def
  by (cases "peek_kind ts"; simp add: ok_error; cases "the (peek_kind ts)")
    (auto intro!: parse_ok)

lemma window_ok: "ready d ts \<Longrightarrow> k \<le> 1 \<Longrightarrow> parsed_ok d k (wf_stage pf) ts (parse_window pf d ts)"
  unfolding parse_window_def
  by (intro parse_ok window_spec_ok [THEN ok_bind]) simp_all

lemma label_ok: "ready d ts \<Longrightarrow> parsed_ok d 0 (\<lambda>l. \<forall>w\<in>set_option l. is_ident w) ts (parse_label ts)"
  unfolding parse_label_def by (auto intro!: parse_ok)

lemma node_ok:
  "ready d ts \<Longrightarrow> k \<le> 1 \<Longrightarrow>
     parsed_ok d k (\<lambda>(v, l). is_ident v \<and> (\<forall>w\<in>set_option l. is_ident w)) ts (parse_node ts)"
  unfolding parse_node_def by (intro parse_ok label_ok [THEN ok_bind]) simp_all

lemma hops_ok: "ready d ts \<Longrightarrow> parsed_ok d 0 (\<lambda>_. True) ts (parse_hops ts)"
proof -
  have dots: "parsed_ok d 0 (\<lambda>_. True) ts
      (if peek_kind ts = Some TkDot then and_then (advance ts) (\<lambda>(_, ts). Ok ((), ts)) else Ok ((), ts))"
    if "ready d ts" for ts
    using that by (auto intro!: parse_ok)
  show "ready d ts \<Longrightarrow> ?thesis"
    unfolding parse_hops_def by (auto intro!: parse_ok dots [THEN ok_bind])
qed

text \<open>A relationship pattern after its first node and the direction its first token gives.\<close>

lemma edge_ok:
  assumes "ready d ts" "peek_kind ts = Some kind" "kind \<noteq> TkEof" "after \<noteq> TkEof" "dir \<noteq> EdgeBoth" "is_ident svar"
    and "\<forall>w\<in>set_option slabel. is_ident w"
  shows "parsed_ok d 0 (wf_stage pf) ts
        (and_then (advance ts) (\<lambda>(_, ts).
        and_then (expect TkLBracket ts) (\<lambda>(_, ts).
        and_then (parse_label ts) (\<lambda>(etype, ts).
        and_then (parse_hops ts) (\<lambda>((lo, hi), ts).
        and_then (expect TkRBracket ts) (\<lambda>(_, ts).
        and_then (expect after ts) (\<lambda>(_, ts).
        and_then (parse_node ts) (\<lambda>((evar, elabel), ts).
          Ok (SgMatch \<lparr>start_var = svar, start_label = slabel, edge_type = etype, edge_min_hops = lo,
                edge_max_hops = hi, edge_dir = dir, end_var = evar, end_label = elabel\<rparr>, ts)))))))))"
  using assms
  by (intro parse_ok label_ok [THEN ok_bind] hops_ok [THEN ok_bind_pair] node_ok [THEN ok_bind_pair])
    (auto simp: wf_pattern_def)

lemma match_ok: "ready d ts \<Longrightarrow> k \<le> 1 \<Longrightarrow> parsed_ok d k (wf_stage pf) ts (parse_match ts)"
  unfolding parse_match_def
  by (intro bind_expect node_ok [THEN ok_bind_pair])
    (auto split: option.split token_kind.split intro: ok_error edge_ok)

lemma return_ok: "ready d ts \<Longrightarrow> k \<le> 1 \<Longrightarrow> parsed_ok d k (wf_stage pf) ts (parse_return ts)"
proof -
  have "parsed_ok d 0 (\<lambda>_. True) ts
      (if peek_kind ts = Some TkDistinct then and_then (advance ts) (\<lambda>(_, ts). Ok (True, ts)) else Ok (False, ts))"
    if "ready d ts" for ts
    using that by (auto intro!: parse_ok)
  then show "ready d ts \<Longrightarrow> k \<le> 1 \<Longrightarrow> ?thesis"
    unfolding parse_return_def by (intro parse_ok ok_bind [where m = "if _ then _ else _"]) auto
qed

lemma stage_ok: "ready d ts \<Longrightarrow> k \<le> 1 \<Longrightarrow> parsed_ok d k (wf_stage pf) ts (parse_stage pf d ts)"
  unfolding parse_stage_def
  by (auto simp: ok_error intro: filter_ok select_ok sort_ok take_ok join_ok group_by_ok window_ok match_ok return_ok
      split: option.split token_kind.split)

lemma stage_loop_ok:
  "ready d ts \<Longrightarrow> length ts < n \<Longrightarrow> parsed_ok d 0 (\<lambda>ss. \<forall>s\<in>set ss. wf_stage pf s) ts (stage_loop pf d n ts)"
proof (induction n arbitrary: ts)
  case (Suc n)
  show ?case
  proof (cases "peek_kind ts = Some TkPipe")
    case True
    have "parsed_ok d 1 (\<lambda>ss. \<forall>s\<in>set ss. wf_stage pf s) ts (stage_loop pf d (Suc n) ts)"
      unfolding stage_loop.simps True if_P [OF refl]
      by (rule ok_bind [OF advance_ok [OF Suc.prems(1) True]])
        (use Suc.prems in \<open>auto intro!: stage_ok [THEN ok_bind] Suc.IH [THEN ok_bind] ok_return\<close>)
    then show ?thesis by (rule ok_weaken) auto
  qed (use Suc.prems in \<open>simp add: stage_loop.simps ok_return\<close>)
qed simp

lemma source_name_one: "is_ident w \<Longrightarrow> is_source_name w"
  by (simp add: is_source_name_def split_at_none ident_no_space)

lemma source_name_two: "is_ident w \<Longrightarrow> is_ident v \<Longrightarrow> \<not> is_set_op v \<Longrightarrow> is_source_name (w @ '' '' @ v)"
  by (simp add: is_source_name_def split_at_append split_at_none ident_no_space)

lemma from_ok:
  "ready d ts \<Longrightarrow> k \<le> 1 \<Longrightarrow>
     parsed_ok d k (\<lambda>s. \<exists>n. s = SgFrom n \<and> is_source_name n) ts (parse_from ts)"
proof -
  have second: "parsed_ok d 0 (\<lambda>s. \<exists>n. s = SgFrom n \<and> is_source_name n) ts
      (case peek_token ts of
         Some tok \<Rightarrow>
           if tk_kind tok = TkIdent \<and> \<not> is_set_op (tk_text tok)
           then and_then (advance ts) (\<lambda>(t, ts). Ok (SgFrom (name @ '' '' @ tk_text t), ts))
           else Ok (SgFrom name, ts)
       | None \<Rightarrow> Ok (SgFrom name, ts))"
    if ts: "ready d ts" and name: "is_ident name" for ts name
  proof -
    obtain t r where t: "ts = t # r" using ready_nonempty [OF ts] by blast
    show ?thesis
    proof (cases "tk_kind t = TkIdent \<and> \<not> is_set_op (tk_text t)")
      case True
      then obtain u r' where r: "r = u # r'" using ts t by (cases r) (auto simp: ready_def eof_ended_def)
      have "is_ident (tk_text t)" using ts True by (simp add: t r ready_def key_def is_ident_def)
      then show ?thesis
        using True name source_name_two ready_tail [of d t u r'] ts
        by (auto simp: t r peek_token_def parsed_ok_def)
    qed (use ts name in \<open>auto simp: t peek_token_def intro!: ok_return source_name_one\<close>)
  qed
  then show "ready d ts \<Longrightarrow> k \<le> 1 \<Longrightarrow> ?thesis"
    unfolding parse_from_def by (intro parse_ok) auto
qed

lemma pipeline_ok: "ready d ts \<Longrightarrow> k \<le> 1 \<Longrightarrow> parsed_ok d k (wf_pipeline pf) ts (parse_pipeline pf d ts)"
  unfolding parse_pipeline_def
  by (intro from_ok [THEN ok_bind] stage_loop_ok [where pf = pf, THEN ok_bind] ok_return) auto

lemmas bind_pipeline [parse_ok] = pipeline_ok [THEN ok_bind]

section \<open>Statements\<close>

lemma peek_word_kind: "peek_word ts = Some w \<Longrightarrow> peek_kind ts = Some TkIdent"
  by (auto simp: peek_word_def peek_token_def peek_kind_def split: list.splits if_splits)

lemma peek_token_kind: "peek_token ts = Some t \<Longrightarrow> peek_kind ts = Some (tk_kind t)"
  by (auto simp: peek_token_def peek_kind_def split: list.splits)

lemma advance_word_ok:
  "peek_word ts = Some w \<Longrightarrow> ready d ts \<Longrightarrow> k \<le> 1 \<Longrightarrow> parsed_ok d k (\<lambda>_. True) ts (advance ts)"
  by (rule ok_weaken [OF advance_ok [OF _ peek_word_kind]]) auto

lemma expect_word_ok: "ready d ts \<Longrightarrow> k \<le> 1 \<Longrightarrow> parsed_ok d k (\<lambda>_. True) ts (expect_word w msg ts)"
  unfolding expect_word_def by (intro parse_ok) simp_all

lemma nullable_ok: "ready d ts \<Longrightarrow> parsed_ok d 0 (\<lambda>_. True) ts (parse_nullable ts)"
  unfolding parse_nullable_def
  by (auto intro!: ok_return bind_advance dest!: peek_word_kind)

lemma more_items_ok: "ready d ts \<Longrightarrow> parsed_ok d 0 (\<lambda>_. True) ts (more_items ts)"
  unfolding more_items_def
  by (auto intro!: parse_ok split: option.split token_kind.split)

lemma pair_ok: "ready d ts \<Longrightarrow> k \<le> 1 \<Longrightarrow> sep \<noteq> TkEof \<Longrightarrow> parsed_ok d k (wf_pair pf) ts (parse_pair pf d sep ts)"
  unfolding parse_pair_def by (intro parse_ok) (simp_all add: wf_pair_def)

lemma where_ok: "ready d ts \<Longrightarrow> parsed_ok d 0 (\<lambda>w. \<forall>e\<in>set_option w. wf_expr pf e) ts (parse_where pf d ts)"
  unfolding parse_where_def
  by (auto intro!: advance_word_ok [THEN ok_bind] bind_expr ok_return)

definition wf_entry :: "string + column_def \<Rightarrow> bool" where
  "wf_entry e = (case e of Inl k \<Rightarrow> is_ident k | Inr c \<Rightarrow> wf_column c)"

lemma column_entry_ok:
  "ready d ts \<Longrightarrow> k \<le> 1 \<Longrightarrow> parsed_ok d k wf_entry ts (parse_column_entry ts)"
  unfolding parse_column_entry_def
  by (intro parse_ok nullable_ok [THEN ok_bind]) (simp_all add: wf_entry_def wf_column_def)

lemma table_loop_ok:
  assumes "ready d ts" "length ts < n" "\<forall>c\<in>set cols. wf_column c" "\<forall>k\<in>set_option pk. is_ident k"
  shows "parsed_ok d 0 (\<lambda>(cs, k). (\<forall>c\<in>set cs. wf_column c) \<and> (\<forall>k\<in>set_option k. is_ident k) \<and> (cs \<noteq> [] \<or> k \<noteq> None))
    ts (table_loop n cols pk ts)"
  using assms
proof (induction n arbitrary: cols pk ts)
  case (Suc n)
  show ?case
    unfolding table_loop.simps
    by (rule ok_weaken [OF ok_bind [OF column_entry_ok [where k = 1]]], (use Suc.prems in \<open>auto\<close>)[2],
        rule more_items_ok [THEN ok_bind])
      (use Suc in \<open>auto simp: wf_entry_def Let_def intro!: ok_return split: sum.splits\<close>)
qed simp

lemma value_loop_ok:
  "ready d ts \<Longrightarrow> length ts < n \<Longrightarrow>
     parsed_ok d 0 (\<lambda>vs. vs \<noteq> [] \<and> (\<forall>v\<in>set vs. wf_pair pf v)) ts (value_loop pf d n ts)"
proof (induction n arbitrary: ts)
  case (Suc n)
  show ?case
    unfolding value_loop.simps
    by (rule ok_weaken [OF ok_bind [OF pair_ok [where k = 1 and pf = pf]]], (use Suc.prems in \<open>auto\<close>)[3],
        rule more_items_ok [THEN ok_bind])
      (use Suc in \<open>auto intro!: ok_return Suc.IH [THEN ok_bind]\<close>)
qed simp

lemma create_table_ok:
  "ready d ts \<Longrightarrow> peek_word ts = Some w \<Longrightarrow> k \<le> 1 \<Longrightarrow> parsed_ok d k (wf_statement pf) ts (parse_create_table ts)"
  unfolding parse_create_table_def
  by (intro advance_word_ok [THEN ok_bind] bind_expect bind_expect_ident table_loop_ok [THEN ok_bind_pair] ok_return)
    auto

lemma create_index_ok:
  "ready d ts \<Longrightarrow> peek_word ts = Some w \<Longrightarrow> k \<le> 1 \<Longrightarrow> parsed_ok d k (wf_statement pf) ts (parse_create_index ts)"
  unfolding parse_create_index_def
  by (intro advance_word_ok [THEN ok_bind] bind_expect bind_expect_ident ok_return) auto

lemma create_view_ok:
  "ready d ts \<Longrightarrow> peek_word ts = Some w \<Longrightarrow> k \<le> 1 \<Longrightarrow> parsed_ok d k (wf_statement pf) ts (parse_create_view pf d ts)"
  unfolding parse_create_view_def
  by (intro advance_word_ok [THEN ok_bind] bind_expect_ident expect_word_ok [THEN ok_bind] bind_pipeline [where pf = pf]
      ok_return) auto

lemma peek_word_of: "peek_token ts = Some t \<Longrightarrow> tk_kind t = TkIdent \<Longrightarrow> peek_word ts = Some (to_lowercase (tk_text t))"
  by (simp add: peek_word_def)

lemma create_ok:
  "ready d ts \<Longrightarrow> peek_word ts = Some w \<Longrightarrow> k \<le> 1 \<Longrightarrow> parsed_ok d k (wf_statement pf) ts (parse_create pf d ts)"
  unfolding parse_create_def
  by (rule advance_word_ok [THEN ok_bind])
    (auto simp: Let_def intro: ok_error create_table_ok create_index_ok create_view_ok dest: peek_word_of split: option.split)

lemma drop_ok:
  "ready d ts \<Longrightarrow> peek_word ts = Some w \<Longrightarrow> k \<le> 1 \<Longrightarrow> parsed_ok d k (wf_statement pf) ts (parse_drop ts)"
  unfolding parse_drop_def
  by (rule advance_word_ok [THEN ok_bind])
    (auto simp: Let_def intro!: ok_error bind_advance bind_expect_ident ok_return dest: peek_token_kind split: option.split)

lemma into_ok:
  "ready d ts \<Longrightarrow> peek_word ts = Some w \<Longrightarrow> k \<le> 1 \<Longrightarrow>
     parsed_ok d k (\<lambda>(t, vs). is_ident t \<and> vs \<noteq> [] \<and> (\<forall>v\<in>set vs. wf_pair pf v)) ts (parse_into pf d verb ts)"
  unfolding parse_into_def
  by (intro advance_word_ok [THEN ok_bind] expect_word_ok [THEN ok_bind] bind_expect_ident bind_expect
      value_loop_ok [where pf = pf, THEN ok_bind] ok_return) auto

lemma update_ok:
  "ready d ts \<Longrightarrow> peek_word ts = Some w \<Longrightarrow> k \<le> 1 \<Longrightarrow> parsed_ok d k (wf_statement pf) ts (parse_update pf d ts)"
  unfolding parse_update_def
  by (intro advance_word_ok [THEN ok_bind] expect_word_ok [THEN ok_bind] bind_expect_ident
      comma_items_ok [where Q = "wf_pair pf", THEN ok_bind] where_ok [where pf = pf, THEN ok_bind] ok_return)
    (auto intro: pair_ok)

lemma delete_ok:
  "ready d ts \<Longrightarrow> peek_word ts = Some w \<Longrightarrow> k \<le> 1 \<Longrightarrow> parsed_ok d k (wf_statement pf) ts (parse_delete_stmt pf d ts)"
  unfolding parse_delete_stmt_def
  by (intro advance_word_ok [THEN ok_bind] bind_expect bind_expect_ident where_ok [where pf = pf, THEN ok_bind] ok_return)
    auto

lemma cte_ok:
  "ready d ts \<Longrightarrow> peek_word ts = Some w \<Longrightarrow> k \<le> 1 \<Longrightarrow> parsed_ok d k (wf_statement pf) ts (parse_cte pf d ts)"
  unfolding parse_cte_def
  by (intro advance_word_ok [THEN ok_bind] expect_word_ok [THEN ok_bind] bind_expect_ident bind_expect
      bind_pipeline [where pf = pf] ok_return) auto

lemma set_operations_ok:
  assumes "ready d ts" "wf_pipeline pf left"
  shows "parsed_ok d 0 (wf_statement pf) ts (check_set_operations pf d left ts)"
proof -
  have all: "parsed_ok d 0 (\<lambda>_. True) ts
      (if peek_word ts = Some ''all'' then and_then (advance ts) (\<lambda>(_, ts). Ok (True, ts)) else Ok (False, ts))"
    if "ready d ts" for ts
    using that by (auto intro!: ok_return bind_advance dest!: peek_word_kind)
  show ?thesis
    unfolding check_set_operations_def
    by (intro ok_if advance_word_ok [THEN ok_bind] all [THEN ok_bind] bind_pipeline [where pf = pf] ok_return)
      (use assms in auto)
qed

lemma query_ok: "ready d ts \<Longrightarrow> k \<le> 1 \<Longrightarrow> parsed_ok d k (wf_statement pf) ts (parse_query pf d ts)"
  unfolding parse_query_def by (intro bind_pipeline [where pf = pf] set_operations_ok) auto

lemma keyword_statement_ok:
  assumes "ready d ts" "peek_word ts = Some w"
  shows "parsed_ok d 1 (wf_statement pf) ts (parse_keyword_statement pf d kw ts)"
proof -
  have simple: "parsed_ok d 1 (wf_statement pf) ts (and_then (advance ts) (\<lambda>(_, ts). Ok (c, ts)))"
    if "wf_statement pf c" for c
    by (rule advance_word_ok [THEN ok_bind]) (use assms that in \<open>auto intro: ok_return\<close>)
  have into: "parsed_ok d 1 (wf_statement pf) ts (parse_insert pf d ts)"
    "parsed_ok d 1 (wf_statement pf) ts (parse_upsert pf d ts)"
    unfolding parse_insert_def parse_upsert_def
    by (rule into_ok [where pf = pf, THEN ok_bind_pair], (use assms in \<open>auto intro: ok_return\<close>))+
  show ?thesis
    unfolding parse_keyword_statement_def
    by (intro ok_if simple into)
      (use assms in \<open>auto intro: create_ok drop_ok update_ok delete_ok cte_ok query_ok simp del: One_nat_def\<close>)
qed

lemma top_level_ok:
  assumes "ready d ts"
  shows "parsed_ok d 1 (wf_statement pf) ts (parse_top_level pf d ts)"
proof -
  obtain t r where t: "ts = t # r" using ready_nonempty [OF assms] by blast
  have peek: "peek_token ts = Some t" "peek_kind ts = Some (tk_kind t)" by (simp_all add: t peek_token_def peek_kind_def)
  consider "tk_kind t = TkIdent" | "tk_kind t = TkDistinct" | "tk_kind t = TkFrom"
    | "tk_kind t \<notin> {TkIdent, TkDistinct, TkFrom}" by blast
  then show ?thesis
  proof cases
    case 1
    then show ?thesis
      using keyword_statement_ok [OF assms peek_word_of [OF peek(1) 1]]
      by (simp add: parse_top_level_def peek(1) del: One_nat_def)
  next
    case 2
    then show ?thesis
      unfolding parse_top_level_def peek option.case 2 token_kind.case
      by (intro advance_ok [where kind = TkDistinct, THEN ok_bind] bind_pipeline [where pf = pf] ok_return)
        (use assms peek 2 in auto)
  next
    case 3
    then show ?thesis using query_ok [OF assms, of 1 pf] by (simp add: parse_top_level_def peek(1) del: One_nat_def)
  next
    case 4
    have "parsed_ok d 1 (wf_statement pf) ts (and_then (parse_pipeline pf d ts) (\<lambda>(p, ts). Ok (StQuery p, ts)))"
      by (intro bind_pipeline [where pf = pf] ok_return) (use assms in auto)
    then show ?thesis using 4
      by (cases "tk_kind t") (simp_all add: parse_top_level_def peek(1) del: One_nat_def)
  qed
qed

section \<open>The tokens of a source\<close>

lemma scan_number_self: "scan_number f bs = (digits, g) \<Longrightarrow> scan_number f digits = (digits, g)"
proof (induction f bs arbitrary: digits g rule: scan_number.induct)
  case (2 f b bs)
  show ?case
  proof (cases "is_ascii_digit b")
    case True
    obtain ds h where sn: "scan_number f bs = (ds, h)" by fastforce
    then have "digits = b # ds" "h = g" using "2.prems" True by simp_all
    then show ?thesis using "2.IH"(1) [OF True sn] True by simp
  next
    case False
    show ?thesis
    proof (cases "b = CHR ''.'' \<and> (case bs of c # _ \<Rightarrow> is_ascii_digit c | [] \<Rightarrow> False)")
      case dot: True
      then obtain c cs where bs: "bs = c # cs" "is_ascii_digit c" by (auto split: list.splits)
      obtain ds h where sn: "scan_number True bs = (ds, h)" by fastforce
      have digits: "digits = b # ds" "h = g" using "2.prems" False dot bs sn by simp_all
      obtain e where "ds = c # e" using sn bs by (cases "scan_number True cs") auto
      then show ?thesis using "2.IH"(2) [OF False dot sn] False dot bs digits by simp
    qed (use "2.prems" False in auto)
  qed
qed simp

lemma scan_string_self: "scan_string bs = Some s \<Longrightarrow> scan_string (s @ [CHR 0x22]) = Some s"
proof (induction bs arbitrary: s rule: scan_string.induct)
  case (3 b c bs)
  then show ?case
  proof (cases "b = CHR 0x22 \<or> b = CHR 0x5C")
    case False
    then obtain s' where s': "scan_string (c # bs) = Some s'" "s = b # s'" using 3 by auto
    then have "scan_string (s' @ [CHR 0x22]) = Some s'" using 3 False by blast
    then show ?thesis using False s' by (cases s') auto
  qed auto
qed (auto split: if_splits)

lemma keyword_kind_symbol: "symbol_of (keyword_kind w) = None"
  unfolding keyword_kind_def if_distrib [of symbol_of] symbol_of.simps by (simp only: if_cancel)

lemma keyword_kind_word: "keyword_kind w \<noteq> TkI64" "keyword_kind w \<noteq> TkF64" "keyword_kind w \<noteq> TkStr"
    "keyword_kind w \<noteq> TkDuration"
  by (simp_all add: keyword_kind_def)

lemma lex_ident_key: "lex_ident p (c # cs) = Ok (tok, p', rest) \<Longrightarrow> is_ident_start c \<Longrightarrow> wf_key (key tok)"
proof -
  let ?w = "takeWhile is_ident_char (c # cs)"
  assume a: "lex_ident p (c # cs) = Ok (tok, p', rest)" and c: "is_ident_start c"
  have "tok = token_new (keyword_kind ?w) ?w p"
    using a by (auto simp: lex_ident_def from_utf8_unwrap_Ok Let_def simp del: takeWhile.simps)
  moreover have "is_ident_char c" using c by (auto simp: is_ident_start_def is_ident_char_def is_ascii_alphanumeric_def)
  then have "is_word ?w" using c by (auto simp: is_word_def dest: set_takeWhileD)
  ultimately show ?thesis 
    by (simp add: key_token_new wf_key_def keyword_kind_symbol keyword_kind_word del: takeWhile.simps)
qed

lemma lex_number_key: "lex_number p (c # cs) = Ok (tok, p', rest) \<Longrightarrow> is_ascii_digit c \<Longrightarrow> wf_key (key tok)"
proof -
  assume a: "lex_number p (c # cs) = Ok (tok, p', rest)" and c: "is_ascii_digit c"
  obtain digits f where sn: "scan_number False (c # cs) = (digits, f)" by fastforce
  obtain r where r: "c # cs = digits @ r" using scan_number_prefix [OF sn] by blast
  have "digits \<noteq> []" using scan_number_nonempty [OF sn c] .
  then have num: "is_number digits f" using c r scan_number_self [OF sn] by (cases digits) (auto simp: is_number_def)
  show ?thesis
  proof (cases "has_duration_unit r")
    case True
    then obtain u us where u: "r = u # us" "u \<in> {CHR ''m'', CHR ''h'', CHR ''s'', CHR ''d''}"
      by (cases r) (auto simp: has_duration_unit_def)
    have "tok = token_new TkDuration (digits @ [u]) p"
      using a sn True unfolding r by (auto simp: lex_number_def from_utf8_unwrap_Ok u(1))
    moreover have "is_duration (digits @ [u])" using u(2) num by (cases f) (auto simp: is_duration_def)
    ultimately show ?thesis by (simp add: key_token_new wf_key_def)
  next
    case False
    then have "tok = token_new (if f then TkF64 else TkI64) digits p"
      using a sn unfolding r by (auto simp: lex_number_def from_utf8_unwrap_Ok Let_def split: if_splits)
    then show ?thesis using num by (cases f) (simp_all add: key_token_new wf_key_def)
  qed
qed

lemma lex_string_key: "lex_string p bs = Ok (tok, p', rest) \<Longrightarrow> wf_key (key tok)"
  by (auto simp: lex_string_def from_utf8_unwrap_Ok key_token_new wf_key_def is_string_content_def scan_string_self
      split: option.splits)

lemma punctuation_symbol:
  "punctuation p b next = Ok (kind, len) \<Longrightarrow>
     symbol_of kind = Some (take len (b # (case next of Some c \<Rightarrow> [c] | None \<Rightarrow> [])))"
  by (auto simp: punctuation_def split: if_splits)

lemma next_token_key:
  assumes "next_token pos bytes = Ok (tok, pos', rest)" "tk_kind tok \<noteq> TkEof"
  shows "wf_key (key tok)"
proof -
  obtain p r where skip: "skip_blank pos bytes = (p, r)" by fastforce
  show ?thesis
  proof (cases r)
    case Nil
    then show ?thesis using assms skip by (auto simp: next_token_def token_new_def)
  next
    case (Cons c cs)
    show ?thesis
    proof (cases "is_ident_start c \<or> is_ascii_digit c \<or> c = CHR 0x22")
      case True
      then show ?thesis
        using assms(1) skip lex_ident_key [of p c cs tok pos' rest] lex_number_key [of p c cs tok pos' rest]
          lex_string_key [of p r tok pos' rest]
        by (auto simp: next_token_def Cons split: if_splits)
    next
      case False
      let ?next = "case cs of d # _ \<Rightarrow> Some d | [] \<Rightarrow> None"
      obtain kind len where kl: "punctuation p c ?next = Ok (kind, len)"
        and t: "tok = token_new kind (take len r) p"
        using assms skip False by (auto simp: next_token_def Cons from_utf8_unwrap_Ok split: prod.splits)
      have "take len r = take len (c # (case ?next of Some d \<Rightarrow> [d] | None \<Rightarrow> []))"
        using punctuation_len [OF kl] by (cases cs) (auto simp: Cons numeral_2_eq_2)
      then show ?thesis using punctuation_symbol [OF kl] by (simp add: t key_token_new wf_key_def)
    qed
  qed
qed

lemma tokenize_loop_keys:
  "tokenize_loop pos bytes = Ok ts \<Longrightarrow> \<forall>t\<in>set ts. tk_kind t \<noteq> TkEof \<longrightarrow> wf_key (key t)"
proof (induction pos bytes arbitrary: ts rule: tokenize_loop.induct)
  case (1 pos bytes)
  obtain tok pos' rest where n: "next_token pos bytes = Ok (tok, pos', rest)"
    using "1.prems" by (subst (asm) tokenize_loop.simps) (auto split: outcome.splits)
  show ?case
  proof (cases "tk_kind tok = TkEof")
    case True
    then show ?thesis using "1.prems" n by (subst (asm) tokenize_loop.simps) auto
  next
    case False
    then obtain ts' where ts: "ts = tok # ts'" "tokenize_loop pos' rest = Ok ts'"
      using "1.prems" n by (subst (asm) tokenize_loop.simps) auto
    then show ?thesis using "1.IH" [OF n refl refl False ts(2)] next_token_key [OF n] by simp
  qed
qed

lemma tiles_length: "tiles pos bytes ts \<Longrightarrow> length ts \<le> length bytes + 1"
  by (induction rule: tiles.induct) (auto simp flip: length_greater_0_conv)

lemma tokenize_ready: "tokenize src = Ok ts \<Longrightarrow> length src < d \<Longrightarrow> ready d ts"
  using tokenize_loop_keys [of 0 src ts] tokenize_eof_ended [of src ts] tiles_length [of 0 src ts]
    tokenize_loop_tiles [of 0 src ts]
  by (auto simp: ready_def tokenize_def eof_ended_def dest: in_set_butlastD)

section \<open>Sources\<close>

lemma parser_new_cases:
  assumes "valid_utf8 src"
  obtains ts where "parser_new src = Ok ts" "tokenize src = Ok ts" | e where "parser_new src = Err e"
  using tokenize_loop_no_panic [OF assms, of 0]
  by (cases "tokenize src") (auto simp: parser_new_def tokenize_def)

lemma parse_ok_outcome:
  assumes "valid_utf8 src" "length src < d"
  shows "parse pf d src \<noteq> Panic \<and> (\<forall>p. parse pf d src = Ok p \<longrightarrow> wf_pipeline pf p)"
proof (rule parser_new_cases [OF assms(1)])
  fix ts assume new: "parser_new src = Ok ts" and ts: "tokenize src = Ok ts"
  have "parsed_ok d 1 (wf_pipeline pf) ts (parse_pipeline pf d ts)"
    by (rule pipeline_ok [OF tokenize_ready [OF ts assms(2)]]) simp
  then show ?thesis
    by (cases "parse_pipeline pf d ts") (auto simp: parse_def new parsed_ok_def split: if_splits)
qed (simp add: parse_def)

lemma parse_statement_outcome:
  assumes "valid_utf8 src" "length src < d"
  shows "parse_statement pf d src \<noteq> Panic \<and> (\<forall>s. parse_statement pf d src = Ok s \<longrightarrow> wf_statement pf s)"
proof (rule parser_new_cases [OF assms(1)])
  fix ts assume new: "parser_new src = Ok ts" and ts: "tokenize src = Ok ts"
  have "parsed_ok d 1 (wf_statement pf) ts (parse_top_level pf d ts)"
    by (rule top_level_ok [OF tokenize_ready [OF ts assms(2)]])
  then show ?thesis
    by (cases "parse_top_level pf d ts") (auto simp: parse_statement_def new parsed_ok_def)
qed (simp add: parse_statement_def)

section \<open>Properties\<close>

text \<open>C25:
  Parsing ends and never panics within its stack: on every valid UTF-8 source, with a stack that holds
  more nested calls of the expression parser than the source has bytes, both entry points return a
  tree or an error; no index is out of range, no loop runs past its bound, whatever tokens the source
  has. Without the bound on the stack this is false (\<open>deep_parentheses_overflow\<close>).
\<close>

theorem parsing_never_panics:
  assumes "valid_utf8 src" and "length src < d"
  shows "parse pf d src \<noteq> Panic \<and> parse_statement pf d src \<noteq> Panic"
  using parse_ok_outcome [OF assms] parse_statement_outcome [OF assms] by blast

theorem parsing_never_panics_witness:
  "parse (\<lambda>_. None) 30 ''from a | filter ((x'' \<noteq> Panic
    \<and> parse_statement (\<lambda>_. None) 30 ''from a | filter ((x'' \<noteq> Panic"
proof (rule parsing_never_panics)
  show "valid_utf8 ''from a | filter ((x''" by code_simp
qed simp

text \<open>
  A stack of any depth is too small for some source: the parser does not limit the nesting, and a
  filter that opens as many parentheses as the stack holds calls overflows it.
\<close>

lemma parse_open_parens:
  "map tk_kind ts = replicate d TkLParen @ [TkEof] \<Longrightarrow> parse_expr pf d ts = Panic"
proof (induction d arbitrary: ts)
  case (Suc d)
  then obtain t u us where ts: "ts = t # u # us" "tk_kind t = TkLParen" "map tk_kind (u # us) = replicate d TkLParen @ [TkEof]"
    by (cases ts; cases "tl ts") auto
  then show ?case
    using Suc.IH [of "u # us"]
    by (simp add: parse_or_def parse_and_def parse_comparison_def parse_additive_def
        parse_multiplicative_def parse_level_def parse_primary_def peek_kind_def)
qed simp

lemma deep_parentheses_overflow:
  "\<exists>src. valid_utf8 src \<and> parse pf d src = Panic"
proof -
  let ?ks = "[(TkFrom, ''from''), (TkIdent, ''a''), (TkPipe, ''|''), (TkFilter, ''filter'')] @ replicate d (TkLParen, ''('')"
  have wf: "\<forall>k\<in>set ?ks. wf_key k"
    by (auto simp: wf_key_def is_word_def is_ident_start_def is_ident_char_def is_ascii_alphabetic_def is_ascii_alphanumeric_def
        keyword_kind_def)
  obtain ts where ts: "tokenize (render ?ks) = Ok ts" "map key ts = ?ks @ [(TkEof, [])]"
    using tokenize_render [OF wf] by blast
  obtain t1 t2 t3 t4 us where u: "ts = t1 # t2 # t3 # t4 # us"
    "key t1 = (TkFrom, ''from'')" "key t2 = (TkIdent, ''a'')" "key t3 = (TkPipe, ''|'')" "key t4 = (TkFilter, ''filter'')"
    "map key us = replicate d (TkLParen, ''('') @ [(TkEof, [])]"
    using ts(2) by (auto simp: map_eq_Cons_conv)
  have us: "map tk_kind us = replicate d TkLParen @ [TkEof]"
    using arg_cong [OF u(6), of "map fst"] by (simp add: key_def o_def)
  then obtain v vs where v: "us = v # vs" by (cases us) auto
  have "parse_from (t1 # t2 # t3 # t4 # us) = Ok (SgFrom ''a'', t3 # t4 # us)"
    using u(2-4) by (simp add: parse_from_def expect_def expect_ident_def take_kind_def peek_kind_def
        peek_token_def key_def)
  moreover have "stage_loop pf d (Suc n) (t3 # t4 # us) = Panic" for n
    using u(4,5) parse_open_parens [OF us, of pf]
    by (simp add: expect_def take_kind_def peek_kind_def key_def v parse_stage_def parse_filter_def stage_loop.simps)
  ultimately have "parse_pipeline pf d ts = Panic" by (simp add: parse_pipeline_def u(1))
  then have "parse pf d (render ?ks) = Panic" by (simp only: parse_def parser_new_def ts(1) outcome.case and_then.simps)
  moreover have "valid_utf8 (render ?ks)"
    by (rule valid_utf8_ascii_word) (auto simp: render_def key_text_def)
  ultimately show ?thesis by blast
qed

text \<open>C26:
  The parser builds well-formed trees only: a pipeline starts with the one source stage it has and
  no other stage is a source; names are identifiers, paths are dotted identifiers, integers are not
  negative, strings and durations are those the tokenizer reads, projections and aggregations are
  not empty, a relationship pattern has a direction. Subqueries and Boolean literals, which the
  syntax trees provide for, are never built.
\<close>

theorem parsed_trees_well_formed:
  assumes "valid_utf8 src" and "length src < d"
  shows "case parse_statement pf d src of Ok s \<Rightarrow> wf_statement pf s | _ \<Rightarrow> True"
  using parse_statement_outcome [OF assms, of pf] by (cases "parse_statement pf d src") auto

theorem parsed_trees_well_formed_witness:
  "case parse_statement (\<lambda>_. None) 30 ''from a | take 5'' of Ok s \<Rightarrow> wf_statement (\<lambda>_. None) s | _ \<Rightarrow> True"
proof (rule parsed_trees_well_formed)
  show "valid_utf8 ''from a | take 5''" by code_simp
qed simp

end
