(* ===== verification/ParserRoundtrip.thy ===== *)
theory ParserRoundtrip
  imports ParserSound
begin

text \<open>
  The inverse of the parser: every well-formed tree has a source that parses back to it. A tree is
  printed as tokens, an expression with the parentheses that the levels of its operators need, and
  the tokens as text with a space after each. The relation \<open>reads\<close> between a parsing function
  and the tokens it turns into a value follows the combination of parsing functions.
\<close>

section \<open>Printing trees as tokens\<close>

abbreviation sym :: "token_kind \<Rightarrow> token_key" where
  "sym kind \<equiv> (kind, the (symbol_of kind))"

abbreviation ident_key :: "string \<Rightarrow> token_key" where
  "ident_key w \<equiv> (TkIdent, w)"

fun dotted :: "string list \<Rightarrow> token_key list" where
  "dotted [] = []"
| "dotted [w] = [ident_key w]"
| "dotted (w # v # ws) = ident_key w # sym TkDot # dotted (v # ws)"

definition path_keys :: "string \<Rightarrow> token_key list" where
  "path_keys c = dotted (split_at CHR ''.'' c)"

fun comma_keys :: "token_key list list \<Rightarrow> token_key list" where
  "comma_keys [] = []"
| "comma_keys [ks] = ks"
| "comma_keys (ks # js # kss) = ks @ sym TkComma # comma_keys (js # kss)"

fun op_key :: "binary_op \<Rightarrow> token_key" where
  "op_key OpEq = sym TkEqEq" | "op_key OpNe = sym TkNotEq" | "op_key OpLt = sym TkLt" | "op_key OpLe = sym TkLe"
| "op_key OpGt = sym TkGt" | "op_key OpGe = sym TkGe" | "op_key OpAnd = (TkAnd, ''and'')"
| "op_key OpOr = (TkOr, ''or'')" | "op_key OpAdd = sym TkPlus" | "op_key OpSub = sym TkMinus"
| "op_key OpMul = sym TkStar" | "op_key OpDiv = sym TkSlash"

text \<open>The level of an operator, from the loosest to the tightest, and of an expression.\<close>

fun op_level :: "binary_op \<Rightarrow> nat" where
  "op_level OpOr = 0" | "op_level OpAnd = 1"
| "op_level OpEq = 2" | "op_level OpNe = 2" | "op_level OpLt = 2"
| "op_level OpLe = 2" | "op_level OpGt = 2" | "op_level OpGe = 2"
| "op_level OpAdd = 3" | "op_level OpSub = 3" | "op_level OpMul = 4" | "op_level OpDiv = 4"

fun expr_level :: "expr \<Rightarrow> nat" where
  "expr_level (ExBinary bop l r) = op_level bop"
| "expr_level _ = 5"

text \<open>The level at which the left operand is read: comparisons do not chain.\<close>

definition left_level :: "binary_op \<Rightarrow> nat" where
  "left_level bop = (if op_level bop = 2 then 3 else op_level bop)"

fun expr_keys :: "(u64 \<Rightarrow> string) \<Rightarrow> nat \<Rightarrow> expr \<Rightarrow> token_key list" where
  "expr_keys fmt l (ExColumn c) = path_keys c"
| "expr_keys fmt l (ExI64 i) = [(TkI64, show_nat (nat (sint i)))]"
| "expr_keys fmt l (ExF64 v) = [(TkF64, fmt v)]"
| "expr_keys fmt l (ExStr s) = [(TkStr, s)]"
| "expr_keys fmt l (ExBinary bop a b) =
     (let ks = expr_keys fmt (left_level bop) a @ op_key bop # expr_keys fmt (op_level bop + 1) b
      in if op_level bop < l then sym TkLParen # ks @ [sym TkRParen] else ks)"
| "expr_keys fmt l (ExCall name args) =
     ident_key name # sym TkLParen # comma_keys (map (expr_keys fmt 0) args) @ [sym TkRParen]"
| "expr_keys fmt l _ = []"

section \<open>Reading tokens\<close>

definition reads :: "(token list \<Rightarrow> 'a parsed) \<Rightarrow> token_key list \<Rightarrow> 'a \<Rightarrow> (token_key \<Rightarrow> bool) \<Rightarrow> bool" where
  "reads p ks v F \<longleftrightarrow>
     (\<forall>xs t r. map key xs = ks \<longrightarrow> F (key t) \<longrightarrow> p (xs @ t # r) = Ok (v, t # r))"

lemma readsI: "(\<And>xs t r. map key xs = ks \<Longrightarrow> F (key t) \<Longrightarrow> p (xs @ t # r) = Ok (v, t # r)) \<Longrightarrow> reads p ks v F"
  by (simp add: reads_def)

lemma readsD: "reads p ks v F \<Longrightarrow> map key xs = ks \<Longrightarrow> F (key t) \<Longrightarrow> p (xs @ t # r) = Ok (v, t # r)"
  by (simp add: reads_def)

lemma reads_weaken: "reads p ks v F \<Longrightarrow> (\<And>k. G k \<Longrightarrow> F k) \<Longrightarrow> reads p ks v G"
  by (simp add: reads_def)

lemma reads_return: "reads (\<lambda>ts. Ok (v, ts)) [] v F"
  by (simp add: reads_def)

lemma reads_bind:
  assumes p: "reads p ks v F" and q: "reads (q v) js w G"
    and next_ok: "\<And>k. G k \<Longrightarrow> F (hd (js @ [k]))"
  shows "reads (\<lambda>ts. and_then (p ts) (case_prod q)) (ks @ js) w G"
proof (rule readsI)
  fix xs t r assume xs: "map key xs = ks @ js" and t: "G (key t)"
  obtain ys zs where s: "xs = ys @ zs" "map key ys = ks" "map key zs = js"
    using xs by (auto simp: map_eq_append_conv)
  obtain u us where u: "zs @ t # r = u # us" by (cases zs) auto
  have "key u = hd (js @ [key t])" using u s(3) by (cases zs) auto
  then have "p (xs @ t # r) = Ok (v, zs @ t # r)"
    using readsD [OF p s(2), of u us] next_ok [OF t] by (simp add: s(1) u)
  then show "and_then (p (xs @ t # r)) (case_prod q) = Ok (w, t # r)"
    using readsD [OF q s(3) t] by simp
qed

text \<open>A function that depends on the kind of the next token.\<close>

lemma reads_peek:
  assumes "\<And>ts. peek_kind ts = Some kind \<Longrightarrow> p ts = q ts" "reads q ((kind, w) # ks) v F"
  shows "reads p ((kind, w) # ks) v F"
proof (rule readsI)
  fix xs t r assume xs: "map key xs = (kind, w) # ks" and t: "F (key t)"
  then have "peek_kind (xs @ t # r) = Some kind" by (cases xs) (auto simp: peek_kind_def key_def)
  then show "p (xs @ t # r) = Ok (v, t # r)"
    using assms(1) readsD [OF assms(2) xs t] by simp
qed

lemma reads_peek_nil:
  assumes "\<And>t r. F (key t) \<Longrightarrow> p (t # r) = q (t # r)" "reads q [] v F"
  shows "reads p [] v F"
  using assms by (simp add: reads_def)

lemma reads_advance:
  assumes "\<And>t. key t = (kind, w) \<Longrightarrow> reads (q t) ks v F"
  shows "reads (\<lambda>ts. and_then (advance ts) (case_prod q)) ((kind, w) # ks) v F"
proof (rule readsI)
  fix xs t r assume xs: "map key xs = (kind, w) # ks" and t: "F (key t)"
  then obtain y ys where y: "xs = y # ys" "key y = (kind, w)" "map key ys = ks" by (cases xs) auto
  have "advance (xs @ t # r) = Ok (y, ys @ t # r)" by (cases ys) (simp_all add: y(1))
  then show "and_then (advance (xs @ t # r)) (case_prod q) = Ok (v, t # r)"
    using readsD [OF assms [OF y(2)] y(3) t] by simp
qed

lemma reads_take_kind: "reads (take_kind kind e) [(kind, w)] w F"
proof (rule readsI)
  fix xs t r assume "map key xs = [(kind, w)]"
  then obtain y where y: "xs = [y]" "tk_kind y = kind" "tk_text y = w" by (auto simp: key_def)
  then show "take_kind kind e (xs @ t # r) = Ok (w, t # r)" by (simp add: take_kind_def peek_kind_def)
qed

lemma reads_expect: "reads (q ()) ks w F \<Longrightarrow>
    reads (\<lambda>ts. and_then (expect kind ts) (case_prod q)) ((kind, x) # ks) w F"
proof -
  assume q: "reads (q ()) ks w F"
  have "reads (expect kind) [(kind, x)] () (\<lambda>_. True)"
    unfolding expect_def [abs_def]
    using reads_bind [OF reads_take_kind, of "\<lambda>_ ts. Ok ((), ts)" x "[]" "()" "\<lambda>_. True" "\<lambda>_. True"]
    by (simp add: reads_return)
  then show ?thesis
    using reads_bind [of "expect kind" "[(kind, x)]" "()" "\<lambda>_. True" q ks w F] q by simp
qed

lemma reads_ident: "reads expect_ident [ident_key w] w F"
  unfolding expect_ident_def [abs_def] by (rule reads_take_kind)

lemma reads_ident_bind: "reads (q x) ks w F \<Longrightarrow>
    reads (\<lambda>ts. and_then (expect_ident ts) (case_prod q)) (ident_key x # ks) w F"
  using reads_bind [OF reads_ident [where F = "\<lambda>_. True"], of q x ks w F] by simp

lemma reads_duration_bind: "reads (q x) ks w F \<Longrightarrow>
    reads (\<lambda>ts. and_then (expect_duration ts) (case_prod q)) ((TkDuration, x) # ks) w F"
  using reads_bind [OF reads_take_kind [where F = "\<lambda>_. True"], of q x ks w F]
  by (simp add: expect_duration_def)

section \<open>Names, numbers and lists\<close>

lemma split_at_ne: "split_at s w \<noteq> []"
  by (induction w) (auto split: list.splits)

definition dot_keys :: "string list \<Rightarrow> token_key list" where
  "dot_keys ws = concat (map (\<lambda>w. [sym TkDot, ident_key w]) ws)"

definition dot_words :: "string list \<Rightarrow> string" where
  "dot_words ws = concat (map (\<lambda>w. ''.'' @ w) ws)"

lemma dotted_dot_keys: "dotted (w # ws) = ident_key w # dot_keys ws"
  by (induction ws arbitrary: w) (simp_all add: dot_keys_def)

lemma split_at_join: "split_at a c = w # ws \<Longrightarrow> c = w @ concat (map (\<lambda>w. a # w) ws)"
proof (induction c arbitrary: w ws)
  case (Cons b c)
  obtain v vs where s: "split_at a c = v # vs" using split_at_ne by (metis list.exhaust)
  have c: "c = v @ concat (map (\<lambda>w. a # w) vs)" by (rule Cons.IH [OF s])
  show ?case
  proof (cases "b = a")
    case True
    then have "w = []" "ws = v # vs" using Cons.prems s by simp_all
    then show ?thesis using c True by simp
  next
    case False
    then have "w = b # v" "ws = vs" using Cons.prems s by simp_all
    then show ?thesis using c by simp
  qed
qed simp

lemma split_dots: "split_at CHR ''.'' c = w # ws \<Longrightarrow> c = w @ dot_words ws"
  using split_at_join [of "CHR ''.''" c w ws] by (simp add: dot_words_def)

lemma path_keys_split: "\<exists>w ws. path_keys c = ident_key w # dot_keys ws \<and> c = w @ dot_words ws"
  using split_dots split_at_ne [of "CHR ''.''" c]
  by (cases "split_at CHR ''.'' c") (auto simp: path_keys_def dotted_dot_keys)

lemma reads_path_loop:
  "length ws < n \<Longrightarrow> reads (path_loop n full) (dot_keys ws) (full @ dot_words ws) (\<lambda>k. fst k \<noteq> TkDot)"
proof (induction ws arbitrary: n full)
  case Nil
  then obtain m where "n = Suc m" by (cases n) auto
  then show ?case
    by (auto simp: dot_keys_def dot_words_def path_loop.simps peek_kind_def key_def
        intro!: reads_peek_nil [where q = "\<lambda>ts. Ok (full, ts)"] reads_return)
next
  case (Cons w ws)
  then obtain m where n: "n = Suc m" "length ws < m" by (cases n) auto
  have "reads (path_loop m (full @ ''.'' @ w)) (dot_keys ws) ((full @ ''.'' @ w) @ dot_words ws) (\<lambda>k. fst k \<noteq> TkDot)"
    by (rule Cons.IH [OF n(2)])
  then have "reads (\<lambda>ts. and_then (advance ts) (\<lambda>(_, ts). and_then (expect_ident ts)
        (\<lambda>(next, ts). path_loop m (full @ ''.'' @ next) ts)))
      (sym TkDot # ident_key w # dot_keys ws) ((full @ ''.'' @ w) @ dot_words ws) (\<lambda>k. fst k \<noteq> TkDot)"
    by (intro reads_advance reads_ident_bind) simp
  moreover have "dot_keys (w # ws) = sym TkDot # ident_key w # dot_keys ws"
    "full @ dot_words (w # ws) = (full @ ''.'' @ w) @ dot_words ws"
    by (simp_all add: dot_keys_def dot_words_def)
  ultimately show ?case
    unfolding n(1) by (auto simp: path_loop.simps intro: reads_peek)
qed

lemma length_dot_keys: "length (dot_keys ws) = 2 * length ws"
  by (induction ws) (simp_all add: dot_keys_def)

lemma reads_path_rest:
  "reads (\<lambda>ts. path_loop (Suc (length ts)) full ts) (dot_keys ws) (full @ dot_words ws) (\<lambda>k. fst k \<noteq> TkDot)"
proof (rule readsI)
  fix xs t r assume xs: "map key xs = dot_keys ws" and t: "fst (key t) \<noteq> TkDot"
  have "length xs = 2 * length ws" using arg_cong [OF xs, of length] by (simp add: length_dot_keys)
  then show "path_loop (Suc (length (xs @ t # r))) full (xs @ t # r) = Ok (full @ dot_words ws, t # r)"
    by (intro readsD [OF reads_path_loop xs t]) simp
qed

lemma reads_path: "reads expect_ident_or_path (path_keys c) c (\<lambda>k. fst k \<noteq> TkDot)"
proof -
  obtain w ws where c: "path_keys c = ident_key w # dot_keys ws" "c = w @ dot_words ws"
    using path_keys_split by blast
  have "reads (\<lambda>ts. and_then (expect_ident ts) (\<lambda>(first, ts). path_loop (Suc (length ts)) first ts))
      (ident_key w # dot_keys ws) (w @ dot_words ws) (\<lambda>k. fst k \<noteq> TkDot)"
    by (rule reads_ident_bind) (rule reads_path_rest)
  then show ?thesis using c by (simp add: expect_ident_or_path_def [abs_def])
qed

lemma reads_path_bind:
  "reads (q c) ks w F \<Longrightarrow> (\<And>k. F k \<Longrightarrow> fst (hd (ks @ [k])) \<noteq> TkDot) \<Longrightarrow>
     reads (\<lambda>ts. and_then (expect_ident_or_path ts) (case_prod q)) (path_keys c @ ks) w F"
  by (rule reads_bind [OF reads_path])

text \<open>Decimal numerals.\<close>

lemma fold_digits_append:
  "fold (\<lambda>c n. 10 * n + (code c - 48)) (xs @ [c]) k = 10 * fold (\<lambda>c n. 10 * n + (code c - 48)) xs k + (code c - 48)"
  by simp

lemma show_nat_digits: "show_nat n \<noteq> [] \<and> (\<forall>c\<in>set (show_nat n). is_ascii_digit c)
    \<and> fold (\<lambda>c n. 10 * n + (code c - 48)) (show_nat n) 0 = n"
proof (induction n rule: show_nat.induct)
  case (1 n)
  have digit: "is_ascii_digit (char_of (48 + m) :: char)" "code (char_of (48 + m) :: char) - 48 = m" if "m < 10" for m :: nat
    using that by (simp_all add: is_ascii_digit_def)
  show ?case
  proof (cases "n < 10")
    case True
    then show ?thesis by (simp add: show_nat.simps [of n] digit)
  next
    case False
    then show ?thesis using 1 digit [of "n mod 10"] by (subst (1 2 3) show_nat.simps) simp
  qed
qed

lemma parse_digits_show [simp]: "parse_digits (show_nat n) = Some n"
  using show_nat_digits [of n] by (simp add: parse_digits_def)

lemma scan_number_all_digits: "\<forall>c\<in>set w. is_ascii_digit c \<Longrightarrow> scan_number f w = (w, f)"
  by (induction w) auto

lemma is_number_show: "is_number (show_nat n) False"
  using show_nat_digits [of n] by (auto simp: is_number_def scan_number_all_digits)

lemma reads_u64: "reads parse_u64 [(TkI64, show_nat (unat v))] v F"
proof -
  have "unat v < 2 ^ 64" using unat_lt2p [of v] by simp
  then show ?thesis
    unfolding parse_u64_def [abs_def]
    using reads_bind [OF reads_take_kind [where F = "\<lambda>_. True"], of _ "show_nat (unat v)" "[]" v F TkI64]
    by (simp add: reads_def)
qed

lemma reads_u32: "reads parse_u32 [(TkI64, show_nat (unat v))] v F"
proof -
  have v: "unat v < 2 ^ 32" using unat_lt2p [of v] by simp
  then have u: "unat (ucast v :: u64) = unat v" by simp
  have c: "ucast (ucast v :: u64) = v" by (rule bit_word_eqI) (simp add: bit_simps)
  have "reads parse_u64 [(TkI64, show_nat (unat v))] (ucast v) (\<lambda>_. True)"
    using reads_u64 [of "ucast v"] u by simp
  then show ?thesis
    unfolding parse_u32_def [abs_def]
    using v u c reads_bind [of parse_u64 "[(TkI64, show_nat (unat v))]" "ucast v" "\<lambda>_. True" _ "[]" v F]
    by (simp add: reads_def)
qed

text \<open>Items separated by commas.\<close>

lemma reads_comma_items:
  assumes "list_all2 (\<lambda>ks v. reads item ks v (\<lambda>k. F k \<or> fst k = TkComma)) kss vs" "kss \<noteq> []" "length kss \<le> n"
    and "\<And>k. F k \<Longrightarrow> fst k \<noteq> TkComma"
  shows "reads (comma_items item n) (comma_keys kss) vs F"
  using assms(1-3)
proof (induction kss arbitrary: vs n rule: comma_keys.induct)
  case (2 ks)
  then obtain v m where v: "vs = [v]" "reads item ks v (\<lambda>k. F k \<or> fst k = TkComma)" and n: "n = Suc m"
    by (cases n) (auto simp: list_all2_Cons1)
  have "reads (\<lambda>ts. if peek_kind ts = Some TkComma
       then and_then (advance ts) (\<lambda>(_, ts). and_then (comma_items item m ts) (\<lambda>(xs, ts). Ok (v # xs, ts)))
       else Ok ([v], ts)) [] [v] F"
    by (rule reads_peek_nil [OF _ reads_return]) (auto simp: peek_kind_def key_def dest: assms(4))
  from reads_bind [OF v(2), of "\<lambda>v ts. if peek_kind ts = Some TkComma
       then and_then (advance ts) (\<lambda>(_, ts). and_then (comma_items item m ts) (\<lambda>(xs, ts). Ok (v # xs, ts)))
       else Ok ([v], ts)", OF this]
  show ?case by (simp add: n v(1) comma_items.simps)
next
  case (3 ks js kss)
  then obtain v vs' m where v: "vs = v # vs'" "reads item ks v (\<lambda>k. F k \<or> fst k = TkComma)"
      "list_all2 (\<lambda>ks v. reads item ks v (\<lambda>k. F k \<or> fst k = TkComma)) (js # kss) vs'"
    and n: "n = Suc m" "length (js # kss) \<le> m"
    by (cases n) (auto simp: list_all2_Cons1)
  have "reads (comma_items item m) (comma_keys (js # kss)) vs' F" by (rule "3.IH") (use v n in auto)
  then have "reads (\<lambda>ts. and_then (comma_items item m ts) (\<lambda>(xs, ts). Ok (v # xs, ts)))
      (comma_keys (js # kss)) (v # vs') F"
    using reads_bind [of "comma_items item m" "comma_keys (js # kss)" vs' F "\<lambda>xs ts. Ok (v # xs, ts)" "[]"]
    by (simp add: reads_return)
  then have "reads (\<lambda>ts. and_then (advance ts) (\<lambda>(_, ts). and_then (comma_items item m ts) (\<lambda>(xs, ts). Ok (v # xs, ts))))
      (sym TkComma # comma_keys (js # kss)) (v # vs') F"
    by (intro reads_advance)
  then have "reads (\<lambda>ts. if peek_kind ts = Some TkComma
       then and_then (advance ts) (\<lambda>(_, ts). and_then (comma_items item m ts) (\<lambda>(xs, ts). Ok (v # xs, ts)))
       else Ok ([v], ts)) (sym TkComma # comma_keys (js # kss)) (v # vs') F"
    by (rule reads_peek [rotated]) simp
  from reads_bind [OF v(2), of "\<lambda>v ts. if peek_kind ts = Some TkComma
       then and_then (advance ts) (\<lambda>(_, ts). and_then (comma_items item m ts) (\<lambda>(xs, ts). Ok (v # xs, ts)))
       else Ok ([v], ts)", OF this]
  show ?case by (simp add: n(1) v(1) comma_items.simps)
qed simp

lemma length_comma_keys: "length kss \<le> Suc (length (comma_keys kss))"
  by (induction kss rule: comma_keys.induct) auto

lemma reads_commas:
  assumes "list_all2 (\<lambda>ks v. reads item ks v (\<lambda>k. F k \<or> fst k = TkComma)) kss vs" "kss \<noteq> []"
    and "\<And>k. F k \<Longrightarrow> fst k \<noteq> TkComma"
  shows "reads (\<lambda>ts. comma_items item (Suc (length ts)) ts) (comma_keys kss) vs F"
proof (rule readsI)
  fix xs t r assume xs: "map key xs = comma_keys kss" and t: "F (key t)"
  have "length kss \<le> Suc (length xs)" using arg_cong [OF xs, of length] length_comma_keys [of kss] by simp
  then show "comma_items item (Suc (length (xs @ t # r))) (xs @ t # r) = Ok (vs, t # r)"
    using readsD [OF reads_comma_items [OF assms(1,2) _ assms(3)] xs, of "Suc (length (xs @ t # r))" t r] t
    by (simp add: comma_items.simps)
qed

section \<open>Expressions\<close>

definition level_ops :: "nat \<Rightarrow> token_kind \<Rightarrow> binary_op option" where
  "level_ops l = (if l = 0 then or_op else if l = 1 then and_op else if l = 2 then comparison_op
     else if l = 3 then additive_op else if l = 4 then multiplicative_op else (\<lambda>_. None))"

definition level_parser ::
    "(string \<Rightarrow> u64 option) \<Rightarrow> (token list \<Rightarrow> expr parsed) \<Rightarrow> nat \<Rightarrow> token list \<Rightarrow> expr parsed" where
  "level_parser pf expr l =
     (if l = 0 then parse_or pf expr else if l = 1 then parse_and pf expr
      else if l = 2 then parse_comparison pf expr else if l = 3 then parse_additive pf expr
      else if l = 4 then parse_multiplicative pf expr else parse_primary pf expr)"

text \<open>The tokens that end an expression of a level.\<close>

definition ends :: "nat \<Rightarrow> token_key \<Rightarrow> bool" where
  "ends l k \<longleftrightarrow> fst k \<noteq> TkDot \<and> fst k \<noteq> TkLParen \<and> (\<forall>m\<ge>l. level_ops m (fst k) = None)"

lemma ends_mono: "ends l k \<Longrightarrow> l \<le> m \<Longrightarrow> ends m k"
  by (auto simp: ends_def)

definition loop_level :: "nat \<Rightarrow> bool" where
  "loop_level l \<longleftrightarrow> l \<in> {0, 1, 3, 4}"

lemma level_parser_loop:
  "loop_level l \<Longrightarrow> level_parser pf expr l = parse_level (level_ops l) (level_parser pf expr (l + 1))"
  by (auto simp: level_ops_def loop_level_def level_parser_def parse_or_def parse_and_def parse_additive_def parse_multiplicative_def)

text \<open>The tokens of a left operand bring a level to its loop, with bound enough for the rest.\<close>

definition spine ::
    "(string \<Rightarrow> u64 option) \<Rightarrow> (token list \<Rightarrow> expr parsed) \<Rightarrow> nat \<Rightarrow> token_key list \<Rightarrow> expr \<Rightarrow> bool" where
  "spine pf expr l ks e \<longleftrightarrow>
     (\<forall>xs t r. map key xs = ks \<longrightarrow> ends (l + 1) (key t) \<longrightarrow>
        (\<exists>n. length (t # r) < n
          \<and> level_parser pf expr l (xs @ t # r) = binary_loop (level_ops l) (level_parser pf expr (l + 1)) n e (t # r)))"

lemma spine_start:
  assumes "loop_level l" "reads (level_parser pf expr (l + 1)) ks e (ends (l + 1))"
  shows "spine pf expr l ks e"
  unfolding spine_def
proof (intro allI impI)
  fix xs t r assume "map key xs = ks" "ends (l + 1) (key t)"
  from readsD [OF assms(2) this]
  have "level_parser pf expr l (xs @ t # r)
      = binary_loop (level_ops l) (level_parser pf expr (l + 1)) (Suc (length (t # r))) e (t # r)"
    by (simp add: level_parser_loop [OF assms(1)] parse_level_def)
  then show "\<exists>n. length (t # r) < n \<and> level_parser pf expr l (xs @ t # r)
      = binary_loop (level_ops l) (level_parser pf expr (l + 1)) n e (t # r)"
    by blast
qed

lemma spine_step:
  assumes "spine pf expr l ks a" "level_ops l kind = Some bop" "ends (l + 1) (kind, w)"
    and b: "reads (level_parser pf expr (l + 1)) js b (ends (l + 1))"
  shows "spine pf expr l (ks @ (kind, w) # js) (ExBinary bop a b)"
  unfolding spine_def
proof (intro allI impI)
  fix xs t r assume xs: "map key xs = ks @ (kind, w) # js" and t: "ends (l + 1) (key t)"
  obtain ys y zs where s: "xs = ys @ y # zs" "map key ys = ks" "key y = (kind, w)" "map key zs = js"
    using xs by (auto simp: map_eq_append_conv map_eq_Cons_conv)
  obtain n where n: "length (y # zs @ t # r) < n"
      "level_parser pf expr l (ys @ y # zs @ t # r)
        = binary_loop (level_ops l) (level_parser pf expr (l + 1)) n a (y # zs @ t # r)"
    using assms(1,3) s(2,3) unfolding spine_def by metis
  obtain m where m: "n = Suc m" using n(1) by (cases n) auto
  have adv: "advance (y # zs @ t # r) = Ok (y, zs @ t # r)" by (cases zs) simp_all
  have "peek_kind (y # zs @ t # r) = Some kind" using s(3) by (simp add: peek_kind_def key_def)
  then have "binary_loop (level_ops l) (level_parser pf expr (l + 1)) n a (y # zs @ t # r)
      = binary_loop (level_ops l) (level_parser pf expr (l + 1)) m (ExBinary bop a b) (t # r)"
    using readsD [OF b s(4) t, of r]
    by (simp add: m binary_loop.simps adv assms(2))
  then show "\<exists>n. length (t # r) < n \<and> level_parser pf expr l (xs @ t # r)
      = binary_loop (level_ops l) (level_parser pf expr (l + 1)) n (ExBinary bop a b) (t # r)"
    using n m s(1) by (intro exI [of _ m]) simp
qed

lemma spine_end:
  assumes "spine pf expr l ks e"
  shows "reads (level_parser pf expr l) ks e (ends l)"
proof (rule readsI)
  fix xs t r assume xs: "map key xs = ks" and t: "ends l (key t)"
  obtain n where n: "length (t # r) < n" "level_parser pf expr l (xs @ t # r)
      = binary_loop (level_ops l) (level_parser pf expr (l + 1)) n e (t # r)"
    using assms xs ends_mono [OF t, of "l + 1"] unfolding spine_def by (metis le_add1)
  have "level_ops l (tk_kind t) = None" using t by (simp add: ends_def key_def)
  then show "level_parser pf expr l (xs @ t # r) = Ok (e, t # r)"
    using n by (cases n) (simp_all add: binary_loop.simps peek_kind_def)
qed

lemma comparison_single:
  assumes "reads (level_parser pf expr 3) ks e (ends 3)"
  shows "reads (level_parser pf expr 2) ks e (ends 2)"
proof -
  have "reads (\<lambda>ts. case Option.bind (peek_kind ts) comparison_op of
         Some bop \<Rightarrow> and_then (advance ts) (\<lambda>(_, ts).
           and_then (parse_additive pf expr ts) (\<lambda>(rhs, ts). Ok (ExBinary bop e rhs, ts)))
       | None \<Rightarrow> Ok (e, ts)) [] e (ends 2)"
    by (rule reads_peek_nil [OF _ reads_return])
      (auto simp: ends_def peek_kind_def key_def level_ops_def dest: spec [of _ 2])
  then show ?thesis
    using reads_bind [OF assms, of "\<lambda>lhs ts. case Option.bind (peek_kind ts) comparison_op of
         Some bop \<Rightarrow> and_then (advance ts) (\<lambda>(_, ts).
           and_then (parse_additive pf expr ts) (\<lambda>(rhs, ts). Ok (ExBinary bop lhs rhs, ts)))
       | None \<Rightarrow> Ok (lhs, ts)" "[]" e "ends 2"] ends_mono [of 2 _ 3]
    by (simp add: level_parser_def parse_comparison_def [abs_def])
qed

lemma comparison_pair:
  assumes a: "reads (level_parser pf expr 3) ks a (ends 3)" and b: "reads (level_parser pf expr 3) js b (ends 3)"
    and kind: "comparison_op kind = Some bop"
  shows "reads (level_parser pf expr 2) (ks @ (kind, w) # js) (ExBinary bop a b) (ends 2)"
proof -
  have after: "reads (\<lambda>ts. and_then (parse_additive pf expr ts) (\<lambda>(rhs, ts). Ok (ExBinary bop a rhs, ts)))
      js (ExBinary bop a b) (ends 2)"
    using reads_bind [OF b, of "\<lambda>rhs ts. Ok (ExBinary bop a rhs, ts)" "[]" "ExBinary bop a b" "ends 2"] ends_mono [of 2 _ 3]
    by (simp add: reads_return level_parser_def)
  have "reads (\<lambda>ts. case Option.bind (peek_kind ts) comparison_op of
         Some bop \<Rightarrow> and_then (advance ts) (\<lambda>(_, ts).
           and_then (parse_additive pf expr ts) (\<lambda>(rhs, ts). Ok (ExBinary bop a rhs, ts)))
       | None \<Rightarrow> Ok (a, ts)) ((kind, w) # js) (ExBinary bop a b) (ends 2)"
    by (rule reads_peek [OF _ reads_advance [OF after]]) (simp add: kind)
  moreover have "ends 3 (kind, w)" using kind by (cases kind) (auto simp: ends_def level_ops_def)
  ultimately show ?thesis
    using reads_bind [OF a, of "\<lambda>lhs ts. case Option.bind (peek_kind ts) comparison_op of
         Some bop \<Rightarrow> and_then (advance ts) (\<lambda>(_, ts).
           and_then (parse_additive pf expr ts) (\<lambda>(rhs, ts). Ok (ExBinary bop lhs rhs, ts)))
       | None \<Rightarrow> Ok (lhs, ts)" "(kind, w) # js" "ExBinary bop a b" "ends 2"]
    by (simp add: level_parser_def parse_comparison_def [abs_def])
qed

lemma reads_lift:
  assumes "reads (level_parser pf expr m) ks e (ends m)" "l \<le> m" "m \<le> 5"
  shows "reads (level_parser pf expr l) ks e (ends l)"
  using assms(2,1)
proof (induction l rule: inc_induct)
  case (step l)
  show ?case
  proof (cases "l = 2")
    case True
    then show ?thesis using step by (simp add: comparison_single numeral_3_eq_3)
  next
    case False
    then have "loop_level l" using step(2) assms(3) by (auto simp: loop_level_def)
    then show ?thesis using step spine_end spine_start by auto
  qed
qed

subsection \<open>Primary expressions\<close>

lemma reads_final:
  "reads p ks v F \<Longrightarrow> (\<And>k. G k \<Longrightarrow> F k) \<Longrightarrow> reads (\<lambda>ts. and_then (p ts) (\<lambda>(x, ts). Ok (f x, ts))) ks (f v) G"
  using reads_bind [of p ks v F "\<lambda>x ts. Ok (f x, ts)" "[]" "f v" G] by (simp add: reads_return)

lemma reads_column: "reads (parse_primary pf expr) (path_keys c) (ExColumn c) (ends 5)"
proof -
  obtain w ws where c: "path_keys c = ident_key w # dot_keys ws" "c = w @ dot_words ws"
    using path_keys_split by blast
  have rest: "reads (\<lambda>ts. and_then (path_loop (Suc (length ts)) w ts) (\<lambda>(full, ts). Ok (ExColumn full, ts)))
      (dot_keys ws) (ExColumn c) (ends 5)"
    unfolding c(2) by (rule reads_final [OF reads_path_rest]) (simp add: ends_def)
  have after: "reads (\<lambda>ts. if peek_kind ts = Some TkLParen then f ts
      else and_then (path_loop (Suc (length ts)) w ts) (\<lambda>(full, ts). Ok (ExColumn full, ts)))
      (dot_keys ws) (ExColumn c) (ends 5)" for f
  proof (cases ws)
    case Nil
    have d: "dot_keys ws = []" by (simp add: dot_keys_def Nil)
    show ?thesis unfolding d
      by (rule reads_peek_nil [OF _ rest [unfolded d]]) (simp add: ends_def key_def peek_kind_def)
  next
    case (Cons v vs)
    have d: "dot_keys ws = sym TkDot # ident_key v # dot_keys vs" by (simp add: dot_keys_def Cons)
    show ?thesis unfolding d by (rule reads_peek [OF _ rest [unfolded d]]) simp
  qed
  have "reads (\<lambda>ts. and_then (advance ts) (\<lambda>(t, ts).
          if peek_kind ts = Some TkLParen
          then and_then (advance ts) (\<lambda>(_, ts).
                 and_then (parse_args_with expr ts) (\<lambda>(args, ts).
                   and_then (expect TkRParen ts) (\<lambda>(_, ts). Ok (ExCall (tk_text t) args, ts))))
          else and_then (path_loop (Suc (length ts)) (tk_text t) ts) (\<lambda>(full, ts). Ok (ExColumn full, ts))))
      (ident_key w # dot_keys ws) (ExColumn c) (ends 5)"
  proof (rule reads_advance)
    fix t assume "key t = ident_key w"
    then have w: "tk_text t = w" by (simp add: key_def)
    show "reads (\<lambda>ts. if peek_kind ts = Some TkLParen
          then and_then (advance ts) (\<lambda>(_, ts).
                 and_then (parse_args_with expr ts) (\<lambda>(args, ts).
                   and_then (expect TkRParen ts) (\<lambda>(_, ts). Ok (ExCall (tk_text t) args, ts))))
          else and_then (path_loop (Suc (length ts)) (tk_text t) ts) (\<lambda>(full, ts). Ok (ExColumn full, ts)))
        (dot_keys ws) (ExColumn c) (ends 5)"
      unfolding w by (rule after)
  qed
  then show ?thesis
    unfolding c(1) by (rule reads_peek [rotated]) (simp add: parse_primary_def)
qed

lemma reads_literal:
  assumes "\<And>ts. peek_kind ts = Some kind \<Longrightarrow> parse_primary pf expr ts = and_then (advance ts) (\<lambda>(t, ts). f t ts)"
    and "\<And>t ts. key t = (kind, w) \<Longrightarrow> f t ts = Ok (e, ts)"
  shows "reads (parse_primary pf expr) [(kind, w)] e (ends 5)"
  by (rule reads_peek [OF assms(1) reads_advance]) (simp_all add: assms(2) reads_return)

lemma reads_i64:
  assumes "0 \<le> sint i"
  shows "reads (parse_primary pf expr) [(TkI64, show_nat (nat (sint i)))] (ExI64 i) (ends 5)"
proof -
  have "sint i < 2 ^ 63" using sint_lt [of i] by simp
  then have "nat (sint i) < 2 ^ 63" using assms by (simp add: nat_less_iff)
  moreover have "(of_nat (nat (sint i)) :: i64) = i" using assms by simp
  ultimately show ?thesis
    by (intro reads_literal [where f = "\<lambda>t ts. case parse_digits (tk_text t) of
            Some n \<Rightarrow> if n < 2 ^ 63 then Ok (ExI64 (of_nat n), ts) else Err (PeOther (''invalid i64: '' @ tk_text t))
          | None \<Rightarrow> Err (PeOther (''invalid i64: '' @ tk_text t))"])
      (simp_all add: parse_primary_def key_def)
qed

lemma reads_f64:
  assumes "pf w = Some v"
  shows "reads (parse_primary pf expr) [(TkF64, w)] (ExF64 v) (ends 5)"
  using assms
  by (intro reads_literal [where f = "\<lambda>t ts. case pf (tk_text t) of
            Some v \<Rightarrow> Ok (ExF64 v, ts) | None \<Rightarrow> Err (PeOther (''invalid f64: '' @ tk_text t))"])
    (simp_all add: parse_primary_def key_def)

lemma reads_str: "reads (parse_primary pf expr) [(TkStr, w)] (ExStr w) (ends 5)"
  by (intro reads_literal [where f = "\<lambda>t ts. Ok (ExStr (tk_text t), ts)"]) (simp_all add: parse_primary_def key_def)

lemma reads_parens:
  assumes "reads expr ks e (ends 0)"
  shows "reads (parse_primary pf expr) (sym TkLParen # ks @ [sym TkRParen]) e (ends 5)"
proof -
  have "reads (\<lambda>ts. and_then (expect TkRParen ts) (\<lambda>(_, ts). Ok (e, ts))) [sym TkRParen] e (ends 5)" for e :: expr
    by (intro reads_expect reads_return)
  then have "reads (\<lambda>ts. and_then (expr ts) (\<lambda>(e, ts). and_then (expect TkRParen ts) (\<lambda>(_, ts). Ok (e, ts))))
      (ks @ [sym TkRParen]) e (ends 5)"
    by (rule reads_bind [OF assms]) (simp add: ends_def level_ops_def)
  then show ?thesis
    by (intro reads_peek [OF _ reads_advance [where q = "\<lambda>_ ts. and_then (expr ts) (\<lambda>(e, ts).
            and_then (expect TkRParen ts) (\<lambda>(_, ts). Ok (e, ts)))"]])
      (simp_all add: parse_primary_def)
qed

text \<open>The first token of an expression.\<close>

lemma expr_keys_hd: "wf_expr pf e \<Longrightarrow> \<exists>k ks. expr_keys fmt l e = k # ks \<and> fst k \<noteq> TkRParen \<and> fst k \<noteq> TkDistinct"
proof (induction e arbitrary: l)
  case (ExColumn c)
  then show ?case using path_keys_split [of c] by auto
next
  case (ExBinary bop a b)
  obtain k ks where "expr_keys fmt (left_level bop) a = k # ks" "fst k \<noteq> TkRParen" "fst k \<noteq> TkDistinct"
    using ExBinary.IH(1) [of "left_level bop"] ExBinary.prems by auto
  then show ?case by (cases k) (simp add: Let_def)
qed auto

lemma reads_args:
  assumes "\<And>a. a \<in> set args \<Longrightarrow> reads expr (expr_keys fmt 0 a) a (ends 0)"
    and "\<And>a. a \<in> set args \<Longrightarrow> wf_expr pf a"
  shows "reads (parse_args_with expr) (comma_keys (map (expr_keys fmt 0) args)) args (\<lambda>k. k = sym TkRParen)"
proof (cases args)
  case Nil
  then show ?thesis
    by (auto simp: parse_args_with_def peek_kind_def key_def intro: reads_peek_nil [OF _ reads_return])
next
  case (Cons a as)
  have "\<exists>k ks. expr_keys fmt 0 a = k # ks \<and> fst k \<noteq> TkRParen"
    using expr_keys_hd [of pf a fmt 0] assms(2) [of a] Cons by auto
  then obtain k w ks where a: "expr_keys fmt 0 a = (k, w) # ks" "k \<noteq> TkRParen" by force
  have "\<exists>js. comma_keys (map (expr_keys fmt 0) args) = (k, w) # js"
    by (cases "map (expr_keys fmt 0) as") (simp_all add: Cons a(1))
  then obtain js where k: "comma_keys (map (expr_keys fmt 0) args) = (k, w) # js" by blast
  have "list_all2 (\<lambda>ks v. reads expr ks v (\<lambda>k. k = sym TkRParen \<or> fst k = TkComma)) (map (expr_keys fmt 0) args) args"
    unfolding list_all2_map1
    by (rule list.rel_refl_strong, rule reads_weaken [OF assms(1)]) (auto simp: ends_def level_ops_def)
  then have "reads (\<lambda>ts. comma_items expr (Suc (length ts)) ts) (comma_keys (map (expr_keys fmt 0) args)) args
      (\<lambda>k. k = sym TkRParen)"
    by (rule reads_commas) (simp_all add: Cons)
  then show ?thesis
    unfolding k by (rule reads_peek [rotated]) (simp add: parse_args_with_def a(2))
qed

lemma reads_call:
  assumes "reads (parse_args_with expr) ks args (\<lambda>k. k = sym TkRParen)"
  shows "reads (parse_primary pf expr) (ident_key name # sym TkLParen # ks @ [sym TkRParen]) (ExCall name args) (ends 5)"
proof -
  let ?body = "\<lambda>name ts. and_then (advance ts) (\<lambda>(_, ts).
       and_then (parse_args_with expr ts) (\<lambda>(args, ts).
         and_then (expect TkRParen ts) (\<lambda>(_, ts). Ok (ExCall name args, ts))))"
  let ?q = "\<lambda>t ts. if peek_kind ts = Some TkLParen then ?body (tk_text t) ts
      else and_then (path_loop (Suc (length ts)) (tk_text t) ts) (\<lambda>(full, ts). Ok (ExColumn full, ts))"
  have "reads (\<lambda>ts. and_then (expect TkRParen ts) (\<lambda>(_, ts). Ok (ExCall name args, ts)))
      [sym TkRParen] (ExCall name args) (ends 5)"
    by (intro reads_expect reads_return)
  then have "reads (\<lambda>ts. and_then (parse_args_with expr ts) (\<lambda>(args, ts).
         and_then (expect TkRParen ts) (\<lambda>(_, ts). Ok (ExCall name args, ts))))
      (ks @ [sym TkRParen]) (ExCall name args) (ends 5)"
    by (rule reads_bind [OF assms]) simp
  then have body: "reads (?body name) (sym TkLParen # ks @ [sym TkRParen]) (ExCall name args) (ends 5)"
    by (rule reads_advance)
  have "reads (\<lambda>ts. and_then (advance ts) (\<lambda>(t, ts). ?q t ts))
      (ident_key name # sym TkLParen # ks @ [sym TkRParen]) (ExCall name args) (ends 5)"
  proof (rule reads_advance)
    fix t assume "key t = ident_key name"
    then have w: "tk_text t = name" by (simp add: key_def)
    show "reads (?q t) (sym TkLParen # ks @ [sym TkRParen]) (ExCall name args) (ends 5)"
      unfolding w by (rule reads_peek [OF _ body]) simp
  qed
  then show ?thesis by (rule reads_peek [rotated]) (simp add: parse_primary_def)
qed

text \<open>How an operator's tokens are read at its level.\<close>

lemma op_key_level:
  "loop_level (op_level bop) \<or> op_level bop = 2"
  "level_ops (op_level bop) (fst (op_key bop)) = Some bop"
  "ends (op_level bop + 1) (op_key bop)"
  by (cases bop; auto simp: loop_level_def level_ops_def ends_def)+

definition prints_floats :: "(string \<Rightarrow> u64 option) \<Rightarrow> (u64 \<Rightarrow> string) \<Rightarrow> bool" where
  "prints_floats pf fmt \<longleftrightarrow> (\<forall>v. is_float pf v \<longrightarrow> is_number (fmt v) True \<and> pf (fmt v) = Some v)"

definition level_at :: "(string \<Rightarrow> u64 option) \<Rightarrow> nat \<Rightarrow> nat \<Rightarrow> token list \<Rightarrow> expr parsed" where
  "level_at pf d = level_parser pf (parse_expr pf d)"

lemma level_at_0: "level_at pf d 0 = parse_expr pf (Suc d)"
  by (rule ext) (simp add: level_at_def level_parser_def)

lemma own_level_spine:
  assumes "spine pf expr (op_level bop) ks a" "loop_level (op_level bop)"
    and "reads (level_parser pf expr (op_level bop + 1)) js b (ends (op_level bop + 1))"
  shows "spine pf expr (op_level bop) (ks @ op_key bop # js) (ExBinary bop a b)"
proof -
  obtain kind w where k: "op_key bop = (kind, w)" by fastforce
  then show ?thesis
    unfolding k using spine_step [OF assms(1) _ _ assms(3), of kind bop w] op_key_level(2,3) [of bop]
    by (simp add: k)
qed

lemma own_level_comparison:
  assumes "reads (level_parser pf expr 3) ks a (ends 3)" "op_level bop = 2"
    and "reads (level_parser pf expr 3) js b (ends 3)"
  shows "reads (level_parser pf expr 2) (ks @ op_key bop # js) (ExBinary bop a b) (ends 2)"
proof -
  obtain kind w where k: "op_key bop = (kind, w)" by fastforce
  then show ?thesis
    unfolding k using comparison_pair [OF assms(1,3), of kind bop w] op_key_level(2) [of bop] assms(2)
    by (simp add: level_ops_def k)
qed

text \<open>The tokens of a binary expression without parentheses.\<close>

definition bare_keys :: "(u64 \<Rightarrow> string) \<Rightarrow> binary_op \<Rightarrow> expr \<Rightarrow> expr \<Rightarrow> token_key list" where
  "bare_keys fmt bop a b = expr_keys fmt (left_level bop) a @ op_key bop # expr_keys fmt (op_level bop + 1) b"

lemma expr_keys_binary:
  "expr_keys fmt l (ExBinary bop a b) =
     (if op_level bop < l then sym TkLParen # bare_keys fmt bop a b @ [sym TkRParen] else bare_keys fmt bop a b)"
  by (simp add: bare_keys_def Let_def)

text \<open>An expression is read at every level from its tokens at that level; where the level is a
  loop, its tokens also lead to the loop as a left operand.\<close>

definition read_at :: "(string \<Rightarrow> u64 option) \<Rightarrow> (u64 \<Rightarrow> string) \<Rightarrow> nat \<Rightarrow> nat \<Rightarrow> expr \<Rightarrow> bool" where
  "read_at pf fmt d l e \<longleftrightarrow>
     reads (level_at pf d l) (expr_keys fmt l e) e (ends l)
     \<and> (loop_level l \<longrightarrow> spine pf (parse_expr pf d) l (expr_keys fmt l e) e)"

lemma read_at_primary:
  assumes "reads (level_at pf d 5) ks e (ends 5)" "\<And>l. expr_keys fmt l e = ks" "l \<le> 5"
  shows "read_at pf fmt d l e"
proof -
  have lift: "reads (level_parser pf (parse_expr pf d) m) ks e (ends m)" if "m \<le> 5" for m
    using reads_lift [OF assms(1) [unfolded level_at_def] that order_refl] .
  show ?thesis
    unfolding read_at_def level_at_def assms(2)
    using lift [of l] lift [of "l + 1"] assms(3) spine_start [of l] by (auto simp: loop_level_def)
qed

lemma comma_keys_member: "ks \<in> set kss \<Longrightarrow> length ks \<le> length (comma_keys kss)"
  by (induction kss rule: comma_keys.induct) auto

lemma bare_reads:
  assumes a: "\<And>l. l \<le> 5 \<Longrightarrow> length (expr_keys fmt l a) \<le> d \<Longrightarrow> read_at pf fmt d l a"
    and b: "\<And>l. l \<le> 5 \<Longrightarrow> length (expr_keys fmt l b) \<le> d \<Longrightarrow> read_at pf fmt d l b"
    and d: "length (bare_keys fmt bop a b) \<le> d"
  shows "reads (level_at pf d (op_level bop)) (bare_keys fmt bop a b) (ExBinary bop a b) (ends (op_level bop))
    \<and> (loop_level (op_level bop) \<longrightarrow>
        spine pf (parse_expr pf d) (op_level bop) (bare_keys fmt bop a b) (ExBinary bop a b))"
proof -
  have p: "op_level bop \<le> 4" by (cases bop) simp_all
  have ra: "read_at pf fmt d (left_level bop) a" and rb: "read_at pf fmt d (op_level bop + 1) b"
    using a [of "left_level bop"] b [of "op_level bop + 1"] d p by (simp_all add: bare_keys_def left_level_def split: if_splits)
  show ?thesis
  proof (cases "op_level bop = 2")
    case True
    then have "left_level bop = 3" "op_level bop + 1 = 3" by (simp_all add: left_level_def)
    then have "reads (level_parser pf (parse_expr pf d) 2) (bare_keys fmt bop a b) (ExBinary bop a b) (ends 2)"
      using ra rb unfolding bare_keys_def read_at_def level_at_def
      by (intro own_level_comparison) (simp_all add: True)
    then show ?thesis using True by (simp add: level_at_def loop_level_def)
  next
    case False
    then have loop: "loop_level (op_level bop)" using op_key_level(1) by blast
    have "spine pf (parse_expr pf d) (op_level bop) (bare_keys fmt bop a b) (ExBinary bop a b)"
      using ra rb loop False unfolding bare_keys_def read_at_def level_at_def
      by (intro own_level_spine) (simp_all add: left_level_def)
    then show ?thesis using spine_end by (simp add: level_at_def)
  qed
qed

lemma binary_reads:
  assumes bare: "\<And>d. length (bare_keys fmt bop a b) \<le> d \<Longrightarrow>
      reads (level_at pf d (op_level bop)) (bare_keys fmt bop a b) (ExBinary bop a b) (ends (op_level bop))
      \<and> (loop_level (op_level bop) \<longrightarrow>
          spine pf (parse_expr pf d) (op_level bop) (bare_keys fmt bop a b) (ExBinary bop a b))"
    and l: "l \<le> 5" and d: "length (expr_keys fmt l (ExBinary bop a b)) \<le> d"
  shows "read_at pf fmt d l (ExBinary bop a b)"
proof -
  let ?e = "ExBinary bop a b" and ?ks = "bare_keys fmt bop a b" and ?p = "op_level bop"
  have p: "?p \<le> 4" by (cases bop) simp_all
  note lift = reads_lift [of pf "parse_expr pf d" _ _ ?e]
  show ?thesis
  proof (cases "?p < l")
    case False
    then have keys: "expr_keys fmt l ?e = ?ks" by (simp add: expr_keys_binary del: expr_keys.simps)
    note own = bare [OF d [unfolded keys]]
    have r: "m \<le> ?p \<Longrightarrow> reads (level_parser pf (parse_expr pf d) m) ?ks ?e (ends m)" for m
      using lift [of ?p ?ks m] own p by (simp add: level_at_def)
    have "loop_level l \<Longrightarrow> spine pf (parse_expr pf d) l ?ks ?e"
      using own spine_start [of l pf "parse_expr pf d" ?ks ?e] r [of "l + 1"] False by (cases "l = ?p") auto
    then show ?thesis using r [of l] False unfolding read_at_def keys level_at_def by simp
  next
    case True
    let ?ps = "sym TkLParen # ?ks @ [sym TkRParen]"
    have keys: "expr_keys fmt l ?e = ?ps" using True by (simp add: expr_keys_binary del: expr_keys.simps)
    obtain d' where d': "d = Suc d'" "length ?ks \<le> d'" using d unfolding keys by (cases d) auto
    have "reads (level_parser pf (parse_expr pf d') 0) ?ks ?e (ends 0)"
      using reads_lift [of pf "parse_expr pf d'" ?p ?ks ?e 0] bare [OF d'(2)] p by (simp add: level_at_def)
    then have "reads (parse_expr pf d) ?ks ?e (ends 0)" using level_at_0 [of pf d'] by (simp add: d'(1) level_at_def)
    from reads_parens [OF this, of pf]
    have "reads (level_parser pf (parse_expr pf d) 5) ?ps ?e (ends 5)" by (simp add: level_parser_def)
    then have r: "m \<le> 5 \<Longrightarrow> reads (level_parser pf (parse_expr pf d) m) ?ps ?e (ends m)" for m
      using lift [of 5 ?ps m] by simp
    have "loop_level l \<Longrightarrow> spine pf (parse_expr pf d) l ?ps ?e"
      by (rule spine_start [OF _ r]) (auto simp: loop_level_def)
    then show ?thesis using r [OF l] unfolding read_at_def keys level_at_def by simp
  qed
qed

lemma exprs_read:
  assumes "prints_floats pf fmt"
  shows "wf_expr pf e \<Longrightarrow> l \<le> 5 \<Longrightarrow> length (expr_keys fmt l e) \<le> d \<Longrightarrow> read_at pf fmt d l e"
proof (induction e arbitrary: d l)
  case (ExColumn c)
  then show ?case by (intro read_at_primary) (simp_all add: level_at_def level_parser_def reads_column)
next
  case (ExI64 i)
  then show ?case by (intro read_at_primary) (simp_all add: level_at_def level_parser_def reads_i64)
next
  case (ExF64 v)
  then have "pf (fmt v) = Some v" using assms by (simp add: prints_floats_def)
  then show ?case using ExF64
    by (intro read_at_primary) (simp_all add: level_at_def level_parser_def reads_f64)
next
  case (ExStr w)
  then show ?case by (intro read_at_primary) (simp_all add: level_at_def level_parser_def reads_str)
next
  case (ExBinary bop a b)
  show ?case
    by (rule binary_reads [OF bare_reads]) (use ExBinary in auto)
next
  case (ExCall name args)
  obtain d' where d': "d = Suc d'" "length (comma_keys (map (expr_keys fmt 0) args)) \<le> d'"
    using ExCall.prems(3) by (cases d) auto
  have "reads (parse_expr pf d) (expr_keys fmt 0 a) a (ends 0)" if "a \<in> set args" for a
  proof -
    have "length (expr_keys fmt 0 a) \<le> d'" 
      using that d'(2) comma_keys_member [of "expr_keys fmt 0 a" "map (expr_keys fmt 0) args"] by simp
    then have "read_at pf fmt d' 0 a" using ExCall that by simp
    then show ?thesis by (simp add: read_at_def d'(1) level_at_0 [symmetric])
  qed
  then have "reads (parse_args_with (parse_expr pf d)) (comma_keys (map (expr_keys fmt 0) args)) args (\<lambda>k. k = sym TkRParen)"
    by (rule reads_args) (use ExCall.prems(1) in auto)
  from reads_call [OF this, of pf name] show ?case using ExCall.prems
    by (intro read_at_primary) (simp_all add: level_at_def level_parser_def)
qed simp_all

lemma reads_expr:
  assumes "prints_floats pf fmt" "wf_expr pf e" "length (expr_keys fmt 0 e) < d"
  shows "reads (parse_expr pf d) (expr_keys fmt 0 e) e (ends 0)"
proof -
  obtain d' where d: "d = Suc d'" "length (expr_keys fmt 0 e) \<le> d'" using assms(3) by (cases d) auto
  then show ?thesis
    using exprs_read [OF assms(1,2) _ d(2)] by (simp add: read_at_def level_at_0 [symmetric])
qed

section \<open>Stages and pipelines\<close>

definition ident_keys_label :: "string option \<Rightarrow> token_key list" where
  "ident_keys_label l = (case l of Some w \<Rightarrow> [sym TkColon, ident_key w] | None \<Rightarrow> [])"

definition node_keys :: "string \<Rightarrow> string option \<Rightarrow> token_key list" where
  "node_keys v l = sym TkLParen # ident_key v # ident_keys_label l @ [sym TkRParen]"

definition pattern_keys :: "graph_match_pattern \<Rightarrow> token_key list" where
  "pattern_keys p = node_keys (start_var p) (start_label p)
     @ (if edge_dir p = EdgeOut then sym TkMinus else sym TkBackArrow) # sym TkLBracket
     # ident_keys_label (edge_type p)
     @ sym TkStar # (TkI64, show_nat (unat (edge_min_hops p))) # sym TkDot # sym TkDot
     # (TkI64, show_nat (unat (edge_max_hops p))) # sym TkRBracket
     # (if edge_dir p = EdgeOut then sym TkArrow else sym TkMinus) # node_keys (end_var p) (end_label p)"

fun agg_keys :: "(u64 \<Rightarrow> string) \<Rightarrow> agg_expr \<Rightarrow> token_key list" where
  "agg_keys fmt (AggExpr name func args) =
     ident_key name # sym TkColon # ident_key func # sym TkLParen
     # comma_keys (map (expr_keys fmt 0) args) @ [sym TkRParen]"

definition aggs_keys :: "(u64 \<Rightarrow> string) \<Rightarrow> agg_expr list \<Rightarrow> token_key list" where
  "aggs_keys fmt aggs = sym TkLBrace # comma_keys (map (agg_keys fmt) aggs) @ [sym TkRBrace]"

fun window_keys :: "window_spec \<Rightarrow> token_key list" where
  "window_keys (Tumbling w) = [(TkTumbling, ''tumbling''), sym TkLParen, (TkDuration, w), sym TkRParen]"
| "window_keys (Hopping s l) =
     [(TkHopping, ''hopping''), sym TkLParen, (TkDuration, s), sym TkComma, (TkDuration, l), sym TkRParen]"
| "window_keys (Session g) = [(TkSession, ''session''), sym TkLParen, (TkDuration, g), sym TkRParen]"

fun join_kind_key :: "join_kind \<Rightarrow> token_key" where
  "join_kind_key KindInner = (TkInner, ''inner'')" | "join_kind_key KindLeft = (TkLeft, ''left'')"
| "join_kind_key KindRight = (TkRight, ''right'')" | "join_kind_key KindFull = (TkFull, ''full'')"

fun stage_keys :: "(u64 \<Rightarrow> string) \<Rightarrow> cenql_stage \<Rightarrow> token_key list" where
  "stage_keys fmt (SgFrom name) = (TkFrom, ''from'') # map ident_key (split_at CHR '' '' name)"
| "stage_keys fmt (SgFilter e) = (TkFilter, ''filter'') # expr_keys fmt 0 e"
| "stage_keys fmt (SgSelect cols) =
     (TkSelect, ''select'') # sym TkLBrace # comma_keys (map path_keys cols) @ [sym TkRBrace]"
| "stage_keys fmt (SgSort c dir) =
     (TkSort, ''sort'') # path_keys c @ [case dir of DirAsc \<Rightarrow> (TkAsc, ''asc'') | DirDesc \<Rightarrow> (TkDesc, ''desc'')]"
| "stage_keys fmt (SgTake n) = [(TkTake, ''take''), (TkI64, show_nat (unat n))]"
| "stage_keys fmt (SgJoin src kind e) =
     (TkJoin, ''join'') # join_kind_key kind # ident_key src # (TkOn, ''on'') # expr_keys fmt 0 e"
| "stage_keys fmt (SgGroupBy k aggs) = (TkGroupBy, ''group_by'') # path_keys k @ aggs_keys fmt aggs"
| "stage_keys fmt (SgWindow spec c aggs) =
     (TkWindow, ''window'') # window_keys spec @ (TkOn, ''on'') # path_keys c @ aggs_keys fmt aggs"
| "stage_keys fmt (SgMatch p) = (TkMatch, ''match'') # pattern_keys p"
| "stage_keys fmt (SgReturn dist cols) =
     (TkReturn, ''return'') # (if dist then [(TkDistinct, ''distinct'')] else []) @ comma_keys (map path_keys cols)"
| "stage_keys fmt _ = []"

definition pipeline_keys :: "(u64 \<Rightarrow> string) \<Rightarrow> cenql_pipeline \<Rightarrow> token_key list" where
  "pipeline_keys fmt p =
     (case stages p of
        s # ss \<Rightarrow> stage_keys fmt s @ concat (map (\<lambda>s. sym TkPipe # stage_keys fmt s) ss)
      | [] \<Rightarrow> [])"

text \<open>What may follow a pipeline: the end, a closing parenthesis or a set operation; after a stage
  also another stage.\<close>

definition ends_pipeline :: "token_key \<Rightarrow> bool" where
  "ends_pipeline k \<longleftrightarrow> fst k \<in> {TkEof, TkRParen} \<or> fst k = TkIdent \<and> is_set_op (snd k)"

definition ends_stage :: "token_key \<Rightarrow> bool" where
  "ends_stage k \<longleftrightarrow> ends_pipeline k \<or> fst k = TkPipe"

lemma ends_stage_expr: "ends_stage k \<Longrightarrow> ends 0 k"
  by (auto simp: ends_stage_def ends_pipeline_def ends_def level_ops_def)

lemma ends_stage_kind: "ends_stage k \<Longrightarrow> fst k \<in> {TkEof, TkRParen, TkIdent, TkPipe}"
  by (auto simp: ends_stage_def ends_pipeline_def)

lemma reads_columns:
  assumes "cols \<noteq> []" "\<And>k. F k \<Longrightarrow> fst k \<noteq> TkDot \<and> fst k \<noteq> TkComma"
  shows "reads parse_columns (comma_keys (map path_keys cols)) cols F"
  unfolding parse_columns_def [abs_def]
proof (rule reads_commas)
  show "list_all2 (\<lambda>ks v. reads expect_ident_or_path ks v (\<lambda>k. F k \<or> fst k = TkComma)) (map path_keys cols) cols"
    unfolding list_all2_map1
    by (rule list.rel_refl_strong, rule reads_weaken [OF reads_path]) (use assms(2) in auto)
qed (use assms in auto)

lemma reads_filter:
  assumes "prints_floats pf fmt" "wf_expr pf e" "length (expr_keys fmt 0 e) < d"
  shows "reads (parse_filter pf d) ((TkFilter, x) # expr_keys fmt 0 e) (SgFilter e) ends_stage"
  unfolding parse_filter_def [abs_def]
  by (intro reads_expect reads_final [OF reads_expr [OF assms]]) (rule ends_stage_expr)

lemma reads_select:
  assumes "cols \<noteq> []"
  shows "reads parse_select ((TkSelect, x) # sym TkLBrace # comma_keys (map path_keys cols) @ [sym TkRBrace]) (SgSelect cols) F"
  unfolding parse_select_def [abs_def]
  by (intro reads_expect reads_bind [OF reads_columns [where F = "\<lambda>k. fst k = TkRBrace"]] reads_return)
    (use assms in auto)

lemma reads_sort: "reads parse_sort (stage_keys fmt (SgSort c dir)) (SgSort c dir) ends_stage"
  unfolding parse_sort_def [abs_def] stage_keys.simps
  by (intro reads_expect reads_path_bind, cases dir)
    (auto intro!: reads_peek [OF _ reads_advance [OF reads_return]] split: sort_dir.split)

lemma reads_take: "reads parse_take [(TkTake, x), (TkI64, show_nat (unat n))] (SgTake n) F"
  unfolding parse_take_def [abs_def]
  by (intro reads_expect reads_final [OF reads_u64])

lemma reads_join:
  assumes "prints_floats pf fmt" "wf_expr pf e" "length (expr_keys fmt 0 e) < d"
  shows "reads (parse_join pf d) (stage_keys fmt (SgJoin src kind e)) (SgJoin src kind e) ends_stage"
proof -
  let ?kind = "\<lambda>ts. case Option.bind (peek_kind ts) join_kind_of of
      Some kind \<Rightarrow> and_then (advance ts) (\<lambda>(_, ts). Ok (kind, ts)) | None \<Rightarrow> Ok (KindInner, ts)"
  obtain k x where k: "join_kind_key kind = (k, x)" by fastforce
  then have "join_kind_of k = Some kind" by (cases kind) auto
  then have "reads ?kind [(k, x)] kind (\<lambda>_. True)"
    by (intro reads_peek [OF _ reads_advance [OF reads_return [where v = kind]]]) simp
  then have "reads (\<lambda>ts. and_then (?kind ts) (\<lambda>(kind, ts).
     and_then (expect_ident ts) (\<lambda>(source, ts).
     and_then (expect TkOn ts) (\<lambda>(_, ts).
     and_then (parse_expr pf d ts) (\<lambda>(e, ts). Ok (SgJoin source kind e, ts))))))
    ([(k, x)] @ ident_key src # (TkOn, ''on'') # expr_keys fmt 0 e) (SgJoin src kind e) ends_stage"
    by (rule reads_bind)
      (intro reads_ident_bind reads_expect reads_final [OF reads_expr [OF assms]] ends_stage_expr, assumption, simp)
  then show ?thesis
    unfolding parse_join_def [abs_def] stage_keys.simps k by (intro reads_expect) simp
qed

lemma reads_agg:
  assumes "prints_floats pf fmt" "wf_agg pf a" "length (agg_keys fmt a) \<le> d"
  shows "reads (parse_agg pf d) (agg_keys fmt a) a F"
proof (cases a)
  case (AggExpr name func args)
  have "reads (parse_expr pf d) (expr_keys fmt 0 e) e (ends 0)" if "e \<in> set args" for e
    using that assms comma_keys_member [of "expr_keys fmt 0 e" "map (expr_keys fmt 0) args"]
    by (intro reads_expr) (auto simp: AggExpr)
  then have args: "reads (parse_args pf d) (comma_keys (map (expr_keys fmt 0) args)) args (\<lambda>k. k = sym TkRParen)"
    unfolding parse_args_def by (rule reads_args) (use assms(2) in \<open>auto simp: AggExpr\<close>)
  show ?thesis
    unfolding parse_agg_def [abs_def] AggExpr agg_keys.simps
    by (intro reads_ident_bind reads_expect reads_bind [OF args] reads_return) simp
qed

lemma reads_aggs:
  assumes "prints_floats pf fmt" "aggs \<noteq> []" "\<And>a. a \<in> set aggs \<Longrightarrow> wf_agg pf a" "length (aggs_keys fmt aggs) \<le> d"
  shows "reads (parse_aggs pf d) (aggs_keys fmt aggs) aggs F"
proof -
  have "reads (parse_agg pf d) (agg_keys fmt a) a (\<lambda>k. fst k = TkRBrace \<or> fst k = TkComma)" if "a \<in> set aggs" for a
    using that assms comma_keys_member [of "agg_keys fmt a" "map (agg_keys fmt) aggs"]
    by (intro reads_agg) (auto simp: aggs_keys_def)
  then have aggs: "reads (\<lambda>ts. comma_items (parse_agg pf d) (Suc (length ts)) ts) (comma_keys (map (agg_keys fmt) aggs)) aggs
      (\<lambda>k. fst k = TkRBrace)"
    by (intro reads_commas) (auto simp: list_all2_map1 assms(2) intro: list.rel_refl_strong)
  show ?thesis
    unfolding parse_aggs_def [abs_def] aggs_keys_def
    by (intro reads_expect reads_bind [OF aggs] reads_return) simp
qed

lemma reads_group_by:
  assumes "prints_floats pf fmt" "wf_stage pf (SgGroupBy k aggs)" "length (stage_keys fmt (SgGroupBy k aggs)) \<le> d"
  shows "reads (parse_group_by pf d) (stage_keys fmt (SgGroupBy k aggs)) (SgGroupBy k aggs) F"
  unfolding parse_group_by_def [abs_def] stage_keys.simps
  by (intro reads_expect reads_path_bind reads_final [OF reads_aggs [where F = "\<lambda>_. True"]])
    (use assms in \<open>auto simp: aggs_keys_def\<close>)

lemma reads_window_spec: "reads parse_window_spec (window_keys spec) spec F"
proof (cases spec)
  case (Tumbling w)
  have "reads (\<lambda>ts. and_then (advance ts) (\<lambda>(_, ts). and_then (expect TkLParen ts) (\<lambda>(_, ts).
          and_then (expect_duration ts) (\<lambda>(dur, ts). and_then (expect TkRParen ts) (\<lambda>(_, ts). Ok (Tumbling dur, ts))))))
      (window_keys spec) spec F"
    unfolding Tumbling window_keys.simps by (intro reads_advance reads_expect reads_duration_bind reads_return)
  then show ?thesis
    unfolding Tumbling window_keys.simps by (rule reads_peek [rotated]) (simp add: parse_window_spec_def)
next
  case (Hopping s l)
  have "reads (\<lambda>ts. and_then (advance ts) (\<lambda>(_, ts). and_then (expect TkLParen ts) (\<lambda>(_, ts).
          and_then (expect_duration ts) (\<lambda>(sz, ts). and_then (expect TkComma ts) (\<lambda>(_, ts).
          and_then (expect_duration ts) (\<lambda>(slide, ts).
          and_then (expect TkRParen ts) (\<lambda>(_, ts). Ok (Hopping sz slide, ts))))))))
      (window_keys spec) spec F"
    unfolding Hopping window_keys.simps by (intro reads_advance reads_expect reads_duration_bind reads_return)
  then show ?thesis
    unfolding Hopping window_keys.simps by (rule reads_peek [rotated]) (simp add: parse_window_spec_def)
next
  case (Session g)
  have "reads (\<lambda>ts. and_then (advance ts) (\<lambda>(_, ts). and_then (expect TkLParen ts) (\<lambda>(_, ts).
          and_then (expect_duration ts) (\<lambda>(gap, ts). and_then (expect TkRParen ts) (\<lambda>(_, ts). Ok (Session gap, ts))))))
      (window_keys spec) spec F"
    unfolding Session window_keys.simps by (intro reads_advance reads_expect reads_duration_bind reads_return)
  then show ?thesis
    unfolding Session window_keys.simps by (rule reads_peek [rotated]) (simp add: parse_window_spec_def)
qed

lemma reads_window:
  assumes "prints_floats pf fmt" "wf_stage pf (SgWindow spec c aggs)" "length (stage_keys fmt (SgWindow spec c aggs)) \<le> d"
  shows "reads (parse_window pf d) (stage_keys fmt (SgWindow spec c aggs)) (SgWindow spec c aggs) F"
  unfolding parse_window_def [abs_def] stage_keys.simps
  by (intro reads_expect reads_bind [OF reads_window_spec [where F = "\<lambda>_. True"]] reads_path_bind
      reads_final [OF reads_aggs [where F = "\<lambda>_. True"]])
    (use assms in \<open>auto simp: aggs_keys_def\<close>)

lemma reads_return_stage:
  assumes "cols \<noteq> []"
  shows "reads parse_return (stage_keys fmt (SgReturn dist cols)) (SgReturn dist cols) ends_stage"
proof -
  let ?d = "\<lambda>ts. if peek_kind ts = Some TkDistinct
      then and_then (advance ts) (\<lambda>(_, ts). Ok (True, ts)) else Ok (False, ts)"
  have dist: "reads ?d (if dist then [(TkDistinct, ''distinct'')] else []) dist (\<lambda>k. fst k \<noteq> TkDistinct)"
  proof (cases dist)
    case True
    then show ?thesis
      by (auto intro!: reads_peek [OF _ reads_advance [OF reads_return [where v = True]]])
  next
    case False
    then show ?thesis by (auto simp: peek_kind_def key_def intro!: reads_peek_nil [OF _ reads_return])
  qed
  have cols: "reads (\<lambda>ts. and_then (parse_columns ts) (\<lambda>(columns, ts). Ok (SgReturn dist columns, ts)))
      (comma_keys (map path_keys cols)) (SgReturn dist cols) ends_stage"
    by (rule reads_final [OF reads_columns [where F = ends_stage]]) (use assms ends_stage_kind in \<open>fastforce+\<close>)
  obtain w js where "comma_keys (map path_keys cols) = ident_key w # js"
  proof (cases cols)
    case (Cons c cs)
    then show ?thesis using path_keys_split [of c] that by (cases "map path_keys cs") auto
  qed (use assms in simp)
  then show ?thesis
    unfolding parse_return_def [abs_def] stage_keys.simps
    by (intro reads_expect reads_bind [OF dist] cols) auto
qed

lemma reads_label: "reads parse_label (ident_keys_label l) l (\<lambda>k. fst k \<noteq> TkColon)"
proof (cases l)
  case None
  have "reads parse_label [] None (\<lambda>k. fst k \<noteq> TkColon)"
    by (rule reads_peek_nil [OF _ reads_return]) (simp add: parse_label_def peek_kind_def key_def)
  then show ?thesis by (simp add: None ident_keys_label_def)
next
  case (Some w)
  have "reads (\<lambda>ts. and_then (advance ts) (\<lambda>(_, ts). and_then (expect_ident ts) (\<lambda>(l, ts). Ok (Some l, ts))))
      [sym TkColon, ident_key w] (Some w) (\<lambda>k. fst k \<noteq> TkColon)"
    by (intro reads_advance reads_ident_bind reads_return)
  then have "reads parse_label [sym TkColon, ident_key w] (Some w) (\<lambda>k. fst k \<noteq> TkColon)"
    by (rule reads_peek [rotated]) (simp add: parse_label_def)
  then show ?thesis by (simp add: Some ident_keys_label_def)
qed

lemma reads_node: "reads parse_node (node_keys v l) (v, l) F"
  unfolding parse_node_def [abs_def] node_keys_def
  by (intro reads_expect reads_ident_bind reads_bind [OF reads_label] reads_return) simp

lemma reads_hops:
  "reads parse_hops [sym TkStar, (TkI64, show_nat (unat lo)), sym TkDot, sym TkDot, (TkI64, show_nat (unat hi))] (lo, hi) F"
proof -
  let ?dot = "\<lambda>ts. if peek_kind ts = Some TkDot then and_then (advance ts) (\<lambda>(_, ts). Ok ((), ts)) else Ok ((), ts)"
  have dot: "reads ?dot [sym TkDot] () (\<lambda>_. True)"
    by (rule reads_peek [OF _ reads_advance [OF reads_return [where v = "()"]]]) simp
  have hi: "reads (\<lambda>ts. and_then (parse_u32 ts) (\<lambda>(hi, ts). Ok ((lo, hi), ts))) [(TkI64, show_nat (unat hi))] (lo, hi) F"
    by (rule reads_final [OF reads_u32 [where F = "\<lambda>_. True"]]) simp
  have "reads (\<lambda>ts. and_then (?dot ts) (\<lambda>(_, ts). and_then (parse_u32 ts) (\<lambda>(hi, ts). Ok ((lo, hi), ts))))
      [sym TkDot, (TkI64, show_nat (unat hi))] (lo, hi) F"
    using reads_bind [OF dot, of "\<lambda>_ ts. and_then (parse_u32 ts) (\<lambda>(hi, ts). Ok ((lo, hi), ts))", OF hi] by simp
  then have "reads (\<lambda>ts. and_then (advance ts) (\<lambda>(_, ts).
       and_then (?dot ts) (\<lambda>(_, ts). and_then (parse_u32 ts) (\<lambda>(hi, ts). Ok ((lo, hi), ts)))))
      [sym TkDot, sym TkDot, (TkI64, show_nat (unat hi))] (lo, hi) F"
    by (rule reads_advance)
  then have dots: "reads (\<lambda>ts. if peek_kind ts = Some TkDot then and_then (advance ts) (\<lambda>(_, ts).
       and_then (?dot ts) (\<lambda>(_, ts). and_then (parse_u32 ts) (\<lambda>(hi, ts). Ok ((lo, hi), ts)))) else Ok ((lo, 1), ts))
      [sym TkDot, sym TkDot, (TkI64, show_nat (unat hi))] (lo, hi) F"
    by (rule reads_peek [rotated]) simp
  let ?lo = "\<lambda>ts. and_then (parse_u32 ts) (\<lambda>(lo, ts). if peek_kind ts = Some TkDot then and_then (advance ts) (\<lambda>(_, ts).
       and_then (?dot ts) (\<lambda>(_, ts). and_then (parse_u32 ts) (\<lambda>(hi, ts). Ok ((lo, hi), ts)))) else Ok ((lo, 1), ts))"
  have "reads ?lo ([(TkI64, show_nat (unat lo))] @ [sym TkDot, sym TkDot, (TkI64, show_nat (unat hi))]) (lo, hi) F"
    by (rule reads_bind [OF reads_u32 [where F = "\<lambda>_. True"]], rule dots) simp
  then have "reads (\<lambda>ts. if peek_kind ts = Some TkI64 then ?lo ts else Ok ((1, 1), ts))
      [(TkI64, show_nat (unat lo)), sym TkDot, sym TkDot, (TkI64, show_nat (unat hi))] (lo, hi) F"
    unfolding append.simps by (rule reads_peek [rotated]) simp
  then have "reads (\<lambda>ts. and_then (advance ts) (\<lambda>(_, ts). if peek_kind ts = Some TkI64 then ?lo ts else Ok ((1, 1), ts)))
      [sym TkStar, (TkI64, show_nat (unat lo)), sym TkDot, sym TkDot, (TkI64, show_nat (unat hi))] (lo, hi) F"
    by (rule reads_advance)
  then show ?thesis by (rule reads_peek [rotated]) (simp add: parse_hops_def)
qed

lemma reads_bind_pair:
  assumes "reads p ks (a, b) F" "reads (q a b) js w G" "\<And>k. G k \<Longrightarrow> F (hd (js @ [k]))"
  shows "reads (\<lambda>ts. and_then (p ts) (case_prod (case_prod q))) (ks @ js) w G"
  using reads_bind [of p ks "(a, b)" F "case_prod q" js w G] assms by simp

text \<open>The relationship after its first token.\<close>

lemma reads_edge:
  assumes "after = (if dir = EdgeOut then TkArrow else TkMinus)"
  shows "reads (\<lambda>ts. and_then (advance ts) (\<lambda>(_, ts).
        and_then (expect TkLBracket ts) (\<lambda>(_, ts).
        and_then (parse_label ts) (\<lambda>(etype, ts).
        and_then (parse_hops ts) (\<lambda>((lo, hi), ts).
        and_then (expect TkRBracket ts) (\<lambda>(_, ts).
        and_then (expect (if dir = EdgeOut then TkArrow else TkMinus) ts) (\<lambda>(_, ts).
        and_then (parse_node ts) (\<lambda>((evar, elabel), ts).
          Ok (SgMatch \<lparr>start_var = svar, start_label = slabel, edge_type = etype, edge_min_hops = lo,
                edge_max_hops = hi, edge_dir = dir, end_var = evar, end_label = elabel\<rparr>, ts)))))))))
     ((kind, x) # sym TkLBracket # ident_keys_label ety
        @ [sym TkStar, (TkI64, show_nat (unat l)), sym TkDot, sym TkDot, (TkI64, show_nat (unat h))]
        @ sym TkRBracket # sym after # node_keys ev el @ [])
     (SgMatch \<lparr>start_var = svar, start_label = slabel, edge_type = ety, edge_min_hops = l,
                edge_max_hops = h, edge_dir = dir, end_var = ev, end_label = el\<rparr>) F"
  unfolding assms
  by (intro reads_advance reads_expect reads_bind [OF reads_label] reads_bind_pair [OF reads_hops [where F = "\<lambda>_. True"]]
      reads_bind_pair [OF reads_node [where F = "\<lambda>_. True"]] reads_return) simp_all

lemma reads_match:
  assumes "edge_dir p \<noteq> EdgeBoth"
  shows "reads parse_match (stage_keys fmt (SgMatch p)) (SgMatch p) F"
proof -
  obtain sv sl ety l h dir ev el where p: "p = \<lparr>start_var = sv, start_label = sl, edge_type = ety, edge_min_hops = l,
      edge_max_hops = h, edge_dir = dir, end_var = ev, end_label = el\<rparr>"
    by (cases p)
  have dir: "dir = EdgeOut \<or> dir = EdgeIn" using assms by (cases dir) (simp_all add: p)
  let ?dir = "\<lambda>ts. case peek_kind ts of
         Some TkMinus \<Rightarrow> Ok (EdgeOut, ts)
       | Some TkBackArrow \<Rightarrow> Ok (EdgeIn, ts)
       | _ \<Rightarrow> Err (unexpected ts (''edge start ('' @ [quote] @ ''-'' @ [quote] @ '' or '' @ [quote] @ ''<-'' @ [quote] @ '')''))"
  obtain kind x where k: "(if dir = EdgeOut then sym TkMinus else sym TkBackArrow) = (kind, x)" by fastforce
  define rest where "rest = (\<lambda>(dir, ts). and_then (advance ts) (\<lambda>(_, ts).
        and_then (expect TkLBracket ts) (\<lambda>(_, ts).
        and_then (parse_label ts) (\<lambda>(etype, ts).
        and_then (parse_hops ts) (\<lambda>((lo, hi), ts).
        and_then (expect TkRBracket ts) (\<lambda>(_, ts).
        and_then (expect (if dir = EdgeOut then TkArrow else TkMinus) ts) (\<lambda>(_, ts).
        and_then (parse_node ts) (\<lambda>((evar, elabel), ts).
          Ok (SgMatch \<lparr>start_var = sv, start_label = sl, edge_type = etype, edge_min_hops = lo,
                edge_max_hops = hi, edge_dir = dir, end_var = evar, end_label = elabel\<rparr>, ts)))))))))"
  let ?keys = "(kind, x) # sym TkLBracket # ident_keys_label ety
        @ [sym TkStar, (TkI64, show_nat (unat l)), sym TkDot, sym TkDot, (TkI64, show_nat (unat h))]
        @ sym TkRBracket # sym (if dir = EdgeOut then TkArrow else TkMinus) # node_keys ev el @ []"
  have "reads (\<lambda>ts. rest (dir, ts)) ?keys (SgMatch p) F"
    unfolding rest_def p split by (rule reads_edge) (rule refl)
  then have edge: "reads (\<lambda>ts. and_then (?dir ts) rest) ?keys (SgMatch p) F"
    by (rule reads_peek [rotated]) (use dir k in auto)
  have "reads (\<lambda>ts. and_then (expect TkMatch ts) (\<lambda>(_, ts).
     and_then (parse_node ts) (\<lambda>((svar, slabel), ts).
     and_then (?dir ts) (\<lambda>(dir, ts). and_then (advance ts) (\<lambda>(_, ts).
        and_then (expect TkLBracket ts) (\<lambda>(_, ts).
        and_then (parse_label ts) (\<lambda>(etype, ts).
        and_then (parse_hops ts) (\<lambda>((lo, hi), ts).
        and_then (expect TkRBracket ts) (\<lambda>(_, ts).
        and_then (expect (if dir = EdgeOut then TkArrow else TkMinus) ts) (\<lambda>(_, ts).
        and_then (parse_node ts) (\<lambda>((evar, elabel), ts).
          Ok (SgMatch \<lparr>start_var = svar, start_label = slabel, edge_type = etype, edge_min_hops = lo,
                edge_max_hops = hi, edge_dir = dir, end_var = evar, end_label = elabel\<rparr>, ts))))))))))))
    ((TkMatch, ''match'') # node_keys sv sl @ ?keys) (SgMatch p) F"
    by (intro reads_expect reads_bind_pair [OF reads_node [where F = "\<lambda>_. True"]] edge [unfolded rest_def]) simp
  moreover have "stage_keys fmt (SgMatch p) = (TkMatch, ''match'') # node_keys sv sl @ ?keys"
    using dir k by (auto simp: p pattern_keys_def)
  ultimately show ?thesis unfolding parse_match_def [abs_def] by simp
qed

lemma reads_stage:
  assumes "prints_floats pf fmt" "wf_stage pf st" "length (stage_keys fmt st) \<le> d"
  shows "reads (parse_stage pf d) (stage_keys fmt st) st ends_stage"
proof (cases st)
  case (SgFilter e)
  have "reads (parse_filter pf d) (stage_keys fmt st) st ends_stage"
    unfolding SgFilter stage_keys.simps by (rule reads_filter) (use assms SgFilter in auto)
  then show ?thesis unfolding SgFilter stage_keys.simps by (rule reads_peek [rotated]) (simp add: parse_stage_def)
next
  case (SgSelect cols)
  have "reads parse_select (stage_keys fmt st) st ends_stage"
    unfolding SgSelect stage_keys.simps by (rule reads_select) (use assms SgSelect in auto)
  then show ?thesis unfolding SgSelect stage_keys.simps by (rule reads_peek [rotated]) (simp add: parse_stage_def)
next
  case (SgSort c dir)
  show ?thesis
    using reads_sort [of fmt c dir] unfolding SgSort stage_keys.simps
    by - (rule reads_peek [rotated], assumption, simp add: parse_stage_def)
next
  case (SgTake n)
  show ?thesis
    using reads_take [of "''take''" n ends_stage] unfolding SgTake stage_keys.simps
    by - (rule reads_peek [rotated], assumption, simp add: parse_stage_def)
next
  case (SgJoin src kind e)
  have "reads (parse_join pf d) (stage_keys fmt st) st ends_stage"
    unfolding SgJoin by (rule reads_join) (use assms SgJoin in auto)
  then show ?thesis unfolding SgJoin stage_keys.simps by (rule reads_peek [rotated]) (simp add: parse_stage_def)
next
  case (SgGroupBy k aggs)
  have "reads (parse_group_by pf d) (stage_keys fmt st) st ends_stage"
    unfolding SgGroupBy by (rule reads_group_by) (use assms SgGroupBy in auto)
  then show ?thesis unfolding SgGroupBy stage_keys.simps by (rule reads_peek [rotated]) (simp add: parse_stage_def)
next
  case (SgWindow spec c aggs)
  have "reads (parse_window pf d) (stage_keys fmt st) st ends_stage"
    unfolding SgWindow by (rule reads_window) (use assms SgWindow in auto)
  then show ?thesis unfolding SgWindow stage_keys.simps by (rule reads_peek [rotated]) (simp add: parse_stage_def)
next
  case (SgMatch p)
  have "reads parse_match (stage_keys fmt st) st ends_stage"
    unfolding SgMatch by (rule reads_match) (use assms SgMatch in \<open>auto simp: wf_pattern_def\<close>)
  then show ?thesis unfolding SgMatch stage_keys.simps by (rule reads_peek [rotated]) (simp add: parse_stage_def)
next
  case (SgReturn dist cols)
  have "reads parse_return (stage_keys fmt st) st ends_stage"
    unfolding SgReturn by (rule reads_return_stage) (use assms SgReturn in auto)
  then show ?thesis unfolding SgReturn stage_keys.simps by (rule reads_peek [rotated]) (simp add: parse_stage_def)
qed (use assms(2) in simp_all)

definition stages_keys :: "(u64 \<Rightarrow> string) \<Rightarrow> cenql_stage list \<Rightarrow> token_key list" where
  "stages_keys fmt ss = concat (map (\<lambda>s. sym TkPipe # stage_keys fmt s) ss)"

lemma stages_keys_simps [simp]:
  "stages_keys fmt [] = []" "stages_keys fmt (s # ss) = sym TkPipe # stage_keys fmt s @ stages_keys fmt ss"
  by (simp_all add: stages_keys_def)

lemma length_stages_keys: "length ss \<le> length (stages_keys fmt ss)"
  by (induction ss) simp_all

lemma stages_keys_hd: "ends_pipeline k \<Longrightarrow> ends_stage (hd (stages_keys fmt ss @ [k]))"
  by (cases ss) (simp_all add: ends_stage_def)

lemma reads_stage_loop:
  assumes "prints_floats pf fmt"
  shows "\<forall>s\<in>set ss. wf_stage pf s \<Longrightarrow> length (stages_keys fmt ss) \<le> d \<Longrightarrow> length ss < n \<Longrightarrow>
    reads (stage_loop pf d n) (stages_keys fmt ss) ss ends_pipeline"
proof (induction ss arbitrary: n)
  case Nil
  then obtain m where n: "n = Suc m" by (cases n) auto
  show ?case unfolding n stages_keys_simps
    by (rule reads_peek_nil [OF _ reads_return]) (auto simp: peek_kind_def key_def ends_pipeline_def stage_loop.simps)
next
  case (Cons s ss)
  then obtain m where n: "n = Suc m" "length ss < m" by (cases n) auto
  have "reads (\<lambda>ts. and_then (stage_loop pf d m ts) (\<lambda>(ss, ts). Ok (s # ss, ts))) (stages_keys fmt ss) (s # ss) ends_pipeline"
    by (rule reads_final [OF Cons.IH]) (use Cons.prems n(2) in auto)
  then have "reads (\<lambda>ts. and_then (advance ts) (\<lambda>(_, ts). and_then (parse_stage pf d ts) (\<lambda>(s, ts).
      and_then (stage_loop pf d m ts) (\<lambda>(ss, ts). Ok (s # ss, ts)))))
      (sym TkPipe # stage_keys fmt s @ stages_keys fmt ss) (s # ss) ends_pipeline"
    by (intro reads_advance reads_bind [OF reads_stage [OF assms(1)]] stages_keys_hd) (use Cons.prems in auto)
  then show ?case unfolding n stages_keys_simps by (rule reads_peek [rotated]) (simp add: stage_loop.simps)
qed

lemma reads_from:
  assumes "is_source_name name"
  shows "reads parse_from (stage_keys fmt (SgFrom name)) (SgFrom name) ends_stage"
proof -
  let ?rest = "\<lambda>name ts. case peek_token ts of
         Some tok \<Rightarrow>
           if tk_kind tok = TkIdent \<and> \<not> is_set_op (tk_text tok)
           then and_then (advance ts) (\<lambda>(t, ts). Ok (SgFrom (name @ '' '' @ tk_text t), ts))
           else Ok (SgFrom name, ts)
       | None \<Rightarrow> Ok (SgFrom name, ts)"
  consider (one) w where "split_at CHR '' '' name = [w]"
    | (two) w v where "split_at CHR '' '' name = [w, v]" "\<not> is_set_op v"
    using assms by (auto simp: is_source_name_def split: list.splits)
  then have "\<exists>w ks. stage_keys fmt (SgFrom name) = (TkFrom, ''from'') # ident_key w # ks
      \<and> reads (?rest w) ks (SgFrom name) ends_stage"
  proof cases
    case one
    have name: "name = w" using split_at_join [OF one] by simp
    have "reads (?rest w) [] (SgFrom name) ends_stage"
      unfolding name by (rule reads_peek_nil [OF _ reads_return])
        (auto simp: peek_token_def key_def ends_stage_def ends_pipeline_def)
    then show ?thesis by (simp add: one)
  next
    case two
    have name: "name = w @ '' '' @ v" using split_at_join [OF two(1)] by simp
    have "reads (?rest w) [ident_key v] (SgFrom name) ends_stage"
    proof (rule readsI)
      fix xs t r assume "map key xs = [ident_key v]"
      then obtain x where "xs = [x]" "tk_kind x = TkIdent" "tk_text x = v" by (auto simp: key_def)
      then show "?rest w (xs @ t # r) = Ok (SgFrom name, t # r)" using two(2) by (simp add: peek_token_def name)
    qed
    then show ?thesis by (simp add: two(1))
  qed
  then obtain w ks where w: "stage_keys fmt (SgFrom name) = (TkFrom, ''from'') # ident_key w # ks"
    "reads (?rest w) ks (SgFrom name) ends_stage" by blast
  show ?thesis
    unfolding parse_from_def [abs_def] w(1) by (intro reads_expect reads_ident_bind w(2))
qed

lemma reads_pipeline:
  assumes "prints_floats pf fmt" "wf_pipeline pf p" "length (pipeline_keys fmt p) \<le> d"
  shows "reads (parse_pipeline pf d) (pipeline_keys fmt p) p ends_pipeline"
proof -
  obtain name ss where p: "p = Pipeline (SgFrom name # ss)" and name: "is_source_name name"
    and ss: "\<forall>s\<in>set ss. wf_stage pf s"
    using assms(2) by (cases p) (auto split: list.splits cenql_stage.splits)
  have keys: "pipeline_keys fmt (Pipeline (SgFrom name # ss)) = stage_keys fmt (SgFrom name) @ stages_keys fmt ss"
    by (simp add: pipeline_keys_def stages_keys_def)
  have loop: "reads (\<lambda>ts. stage_loop pf d (Suc (length ts)) ts) (stages_keys fmt ss) ss ends_pipeline"
  proof (rule readsI)
    fix xs t r assume xs: "map key xs = stages_keys fmt ss" and t: "ends_pipeline (key t)"
    have "length xs = length (stages_keys fmt ss)" using arg_cong [OF xs, of length] by simp
    then have n: "length ss < Suc (length (xs @ t # r))" using length_stages_keys [of ss fmt] by simp
    have "length (stages_keys fmt ss) \<le> d" using assms(3) by (simp add: p keys)
    from readsD [OF reads_stage_loop [OF assms(1) ss this n] xs t]
    show "stage_loop pf d (Suc (length (xs @ t # r))) (xs @ t # r) = Ok (ss, t # r)" .
  qed
  show ?thesis
    unfolding p keys parse_pipeline_def [abs_def]
    by (intro reads_bind [OF reads_from [OF name]] reads_final [OF loop] stages_keys_hd)
qed

section \<open>The printed tokens are tokens of the language\<close>

named_theorems key_ok

lemma ident_ok [key_ok]: "wf_key (ident_key w) \<longleftrightarrow> is_ident w"
  by (simp add: is_ident_def)

lemma sym_ok [key_ok]: "symbol_of kind = Some w \<Longrightarrow> wf_key (kind, w)"
  by (auto simp: wf_key_def)

lemma word_ok: "is_word w \<Longrightarrow> keyword_kind w = kind \<Longrightarrow> kind \<notin> {TkI64, TkF64, TkStr, TkDuration} \<Longrightarrow> symbol_of kind = None \<Longrightarrow> wf_key (kind, w)"
  by (auto simp: wf_key_def)

lemma keywords_ok [key_ok]:
  "wf_key (TkAnd, ''and'')" "wf_key (TkOr, ''or'')" "wf_key (TkFrom, ''from'')" "wf_key (TkFilter, ''filter'')"
  "wf_key (TkSelect, ''select'')" "wf_key (TkSort, ''sort'')" "wf_key (TkTake, ''take'')" "wf_key (TkJoin, ''join'')"
  "wf_key (TkOn, ''on'')" "wf_key (TkGroupBy, ''group_by'')" "wf_key (TkWindow, ''window'')" "wf_key (TkMatch, ''match'')"
  "wf_key (TkReturn, ''return'')" "wf_key (TkDistinct, ''distinct'')" "wf_key (TkAsc, ''asc'')" "wf_key (TkDesc, ''desc'')"
  "wf_key (TkTumbling, ''tumbling'')" "wf_key (TkHopping, ''hopping'')" "wf_key (TkSession, ''session'')"
  "wf_key (TkInner, ''inner'')" "wf_key (TkLeft, ''left'')" "wf_key (TkRight, ''right'')" "wf_key (TkFull, ''full'')"
  by (rule word_ok; code_simp)+

lemma numeral_ok [key_ok]: "wf_key (TkI64, show_nat n)"
  using is_number_show [of n] by (simp add: wf_key_def)

lemma dotted_ok: "(\<forall>k\<in>set (dotted ws). wf_key k) \<longleftrightarrow> (\<forall>w\<in>set ws. is_ident w)"
  by (induction ws rule: dotted.induct) (auto simp: key_ok)

lemma path_keys_ok [key_ok]: "(\<forall>k\<in>set (path_keys c). wf_key k) \<longleftrightarrow> is_path c"
  by (simp add: path_keys_def is_path_def dotted_ok)

lemma comma_keys_ok [key_ok]: "(\<forall>k\<in>set (comma_keys kss). wf_key k) \<longleftrightarrow> (\<forall>ks\<in>set kss. \<forall>k\<in>set ks. wf_key k)"
  by (induction kss rule: comma_keys.induct) (auto simp: key_ok)

lemma op_key_ok [key_ok]: "wf_key (op_key bop)"
  by (cases bop) (auto simp: key_ok)

lemma expr_keys_ok:
  "prints_floats pf fmt \<Longrightarrow> wf_expr pf e \<Longrightarrow> \<forall>k\<in>set (expr_keys fmt l e). wf_key k"
proof (induction e arbitrary: l)
  case (ExF64 v)
  then show ?case by (simp add: prints_floats_def wf_key_def)
next
  case (ExStr w)
  then show ?case by (simp add: wf_key_def)
next
  case (ExBinary bop a b)
  then show ?case by (auto simp: key_ok Let_def)
qed (auto simp: key_ok)

lemma label_keys_ok [key_ok]: "(\<forall>k\<in>set (ident_keys_label l). wf_key k) \<longleftrightarrow> (\<forall>w\<in>set_option l. is_ident w)"
  by (cases l) (auto simp: ident_keys_label_def key_ok)

lemma node_keys_ok [key_ok]:
  "(\<forall>k\<in>set (node_keys v l). wf_key k) \<longleftrightarrow> is_ident v \<and> (\<forall>w\<in>set_option l. is_ident w)"
  by (simp add: node_keys_def key_ok ball_Un)

lemma agg_keys_ok: "prints_floats pf fmt \<Longrightarrow> wf_agg pf a \<Longrightarrow> \<forall>k\<in>set (agg_keys fmt a). wf_key k"
  by (cases a) (auto simp: key_ok expr_keys_ok ball_Un)

lemma aggs_keys_ok: "prints_floats pf fmt \<Longrightarrow> \<forall>a\<in>set aggs. wf_agg pf a \<Longrightarrow> \<forall>k\<in>set (aggs_keys fmt aggs). wf_key k"
  using agg_keys_ok [of pf fmt] by (auto simp: aggs_keys_def key_ok ball_Un)

lemma window_keys_ok: "wf_window spec \<Longrightarrow> \<forall>k\<in>set (window_keys spec). wf_key k"
  by (cases spec) (simp_all add: key_ok, simp_all add: wf_key_def)

lemma stage_keys_ok:
  assumes "prints_floats pf fmt" "wf_stage pf st"
  shows "\<forall>k\<in>set (stage_keys fmt st). wf_key k"
proof (cases st)
  case (SgSort c dir)
  then show ?thesis using assms by (cases dir) (simp_all add: key_ok ball_Un)
next
  case (SgJoin src kind e)
  then show ?thesis using assms expr_keys_ok [OF assms(1)] by (cases kind) (auto simp: key_ok)
next
  case (SgMatch p)
  then show ?thesis using assms by (simp add: wf_pattern_def pattern_keys_def key_ok ball_Un)
next
  case (SgWindow spec c aggs)
  then show ?thesis
    using assms aggs_keys_ok [OF assms(1)] window_keys_ok [of spec] by (auto simp: key_ok ball_Un)
qed (use assms expr_keys_ok [OF assms(1)] aggs_keys_ok [OF assms(1)] in \<open>auto simp: key_ok ball_Un\<close>)

lemma pipeline_keys_ok:
  assumes "prints_floats pf fmt" "wf_pipeline pf p"
  shows "\<forall>k\<in>set (pipeline_keys fmt p). wf_key k"
proof -
  obtain name ss where p: "p = Pipeline (SgFrom name # ss)" and name: "is_source_name name"
    and ss: "\<forall>s\<in>set ss. wf_stage pf s"
    using assms(2) by (cases p) (auto split: list.splits cenql_stage.splits)
  have "\<forall>k\<in>set (stage_keys fmt (SgFrom name)). wf_key k"
    using name by (auto simp: is_source_name_def key_ok split: list.splits)
  then show ?thesis using stage_keys_ok [OF assms(1)] ss by (auto simp: p pipeline_keys_def key_ok)
qed

section \<open>The round trip\<close>

definition unparse :: "(u64 \<Rightarrow> string) \<Rightarrow> cenql_pipeline \<Rightarrow> string" where
  "unparse fmt p = render (pipeline_keys fmt p)"

lemma parse_unparse:
  assumes "prints_floats pf fmt" "wf_pipeline pf p" "length (pipeline_keys fmt p) \<le> d"
  shows "parse pf d (unparse fmt p) = Ok p"
proof -
  obtain ts where ts: "tokenize (unparse fmt p) = Ok ts" "map key ts = pipeline_keys fmt p @ [(TkEof, [])]"
    using tokenize_render [OF pipeline_keys_ok [OF assms(1,2)]] by (auto simp: unparse_def)
  then obtain xs t where x: "ts = xs @ [t]" "map key xs = pipeline_keys fmt p" "key t = (TkEof, [])"
    by (auto simp: map_eq_append_conv)
  have "parse_pipeline pf d (xs @ [t]) = Ok (p, [t])"
    using readsD [OF reads_pipeline [OF assms] x(2)] x(3) by (simp add: ends_pipeline_def)
  then show ?thesis using ts x(3) by (simp add: parse_def parser_new_def x(1) peek_kind_def key_def)
qed

text \<open>The normal form of a source.\<close>

lemma parse_normal_form:
  assumes "prints_floats pf fmt" "valid_utf8 src" "length src < d" "parse pf d src = Ok p"
    and "length (pipeline_keys fmt p) \<le> d'"
  shows "parse pf d' (unparse fmt p) = Ok p"
  using parse_ok_outcome [OF assms(2,3), of pf] assms(4) parse_unparse [OF assms(1) _ assms(5)] by blast

text \<open>A deletion followed by anything but \<open>where\<close>.\<close>

definition delete_keys :: "string \<Rightarrow> token_key list" where
  "delete_keys table = [ident_key ''delete'', (TkFrom, ''from''), ident_key table]"

lemma parse_delete_rest:
  assumes "is_ident table" "\<forall>k\<in>set ks. wf_key k"
    and "\<forall>w. ks \<noteq> [] \<longrightarrow> hd ks = ident_key w \<longrightarrow> to_lowercase w \<noteq> ''where''"
  shows "parse_statement pf d (render (delete_keys table @ ks)) = Ok (StDelete table None)"
proof -
  have "is_ident ''delete''" unfolding is_ident_def by (rule word_ok; code_simp)
  then have "\<forall>k\<in>set (delete_keys table @ ks). wf_key k"
    using assms by (auto simp: delete_keys_def key_ok)
  from tokenize_render [OF this] obtain ts where ts: "tokenize (render (delete_keys table @ ks)) = Ok ts"
    "map key ts = delete_keys table @ ks @ [(TkEof, [])]" by auto
  then obtain a b c r where r: "ts = a # b # c # r" "key a = ident_key ''delete''" "key b = (TkFrom, ''from'')"
    "key c = ident_key table" "map key r = ks @ [(TkEof, [])]"
    by (auto simp: delete_keys_def)
  obtain t us where t: "r = t # us" using r(5) by (cases r) auto
  have k: "tk_kind a = TkIdent" "tk_text a = ''delete''" "tk_kind b = TkFrom" "tk_kind c = TkIdent" "tk_text c = table"
    using r(2-4) by (simp_all add: key_def)
  have "key t = hd (ks @ [(TkEof, [])])" using r(5) by (cases ks) (simp_all add: t)
  then have "peek_word (t # us) \<noteq> Some ''where''"
    using assms(3) by (cases ks) (auto simp: peek_word_def peek_token_def key_def)
  then have w: "parse_where pf d (t # us) = Ok (None, t # us)" by (simp add: parse_where_def)
  have l: "to_lowercase ''delete'' = ''delete''" by code_simp
  show ?thesis
    by (simp add: parse_statement_def parser_new_def ts(1) r(1) t parse_top_level_def peek_token_def k l
        parse_keyword_statement_def parse_delete_stmt_def expect_def expect_ident_def take_kind_def peek_kind_def w)
qed

section \<open>Properties\<close>

text \<open>C27:
  Printing and parsing: every well-formed pipeline, and so every pipeline the parser returns, is
  what the parser builds from its printed form, where an operand gets parentheses exactly when its
  operator binds less than its place allows. Precedence and associativity of the operators, the
  separators of every list and the order of the parts of every stage are those of the printed form.
\<close>

theorem pipeline_roundtrip:
  assumes "prints_floats pf fmt" and "wf_pipeline pf p" and "length (pipeline_keys fmt p) \<le> d"
  shows "parse pf d (unparse fmt p) = Ok p"
  by (rule parse_unparse [OF assms])

definition sample_pf :: "string \<Rightarrow> u64 option" where
  "sample_pf w = (if w = ''2.5'' then Some 0x4004000000000000 else None)"

definition sample_pipeline :: cenql_pipeline where
  "sample_pipeline = Pipeline
     [SgFrom ''users u'',
      SgFilter (ExBinary OpMul (ExBinary OpAdd (ExColumn ''u.a'') (ExI64 1)) (ExF64 0x4004000000000000)),
      SgSort ''a'' DirDesc, SgTake 5]"

theorem pipeline_roundtrip_witness:
  "parse sample_pf 40 (unparse (\<lambda>_. ''2.5'') sample_pipeline) = Ok sample_pipeline"
proof (rule pipeline_roundtrip)
  have n: "is_number ''2.5'' True" by code_simp
  then show "prints_floats sample_pf (\<lambda>_. ''2.5'')"
    by (auto simp: prints_floats_def sample_pf_def is_float_def)
  have names: "is_source_name ''users u''" "is_path ''u.a''" "is_path ''a''" by code_simp+
  have "is_float sample_pf 0x4004000000000000" using n by (auto simp: is_float_def sample_pf_def)
  then show "wf_pipeline sample_pf sample_pipeline"
    by (simp add: sample_pipeline_def names)
  show "length (pipeline_keys (\<lambda>_. ''2.5'') sample_pipeline) \<le> 40" by code_simp
qed

text \<open>C28:
  What follows a statement is not looked at: a deletion whose table name is followed by any tokens
  other than the word \<open>where\<close> parses as the deletion of the whole table, so a misspelt
  \<open>where\<close> drops the condition.
\<close>

theorem misspelt_where_deletes_all:
  assumes "is_ident table" and "\<forall>k\<in>set ks. wf_key k"
    and "\<forall>w. ks \<noteq> [] \<longrightarrow> hd ks = ident_key w \<longrightarrow> to_lowercase w \<noteq> ''where''"
  shows "parse_statement pf d (render (delete_keys table @ ks)) = Ok (StDelete table None)"
  by (rule parse_delete_rest [OF assms])

theorem misspelt_where_deletes_all_witness:
  "parse_statement (\<lambda>_. None) 9
     (render (delete_keys ''users'' @ [ident_key ''wher'', ident_key ''a'', sym TkEqEq, (TkI64, ''1'')]))
   = Ok (StDelete ''users'' None)"
proof (rule misspelt_where_deletes_all)
  show "is_ident ''users''" by code_simp
  show "\<forall>k\<in>set [ident_key ''wher'', ident_key ''a'', sym TkEqEq, (TkI64, ''1'')]. wf_key k" by code_simp
qed (simp add: to_lowercase_def lower_char_def)

end
