(* ===== verification/Stats.thy ===== *)
theory Stats
  imports Core "HOL-Library.AList"
begin

text \<open>
  Table statistics and cost formulas of the optimizer (\<open>cendb-optimizer/src/stats.rs\<close>,
  \<open>cost.rs\<close>): the catalog of tables and indexes, selectivities, equi-depth histograms and the
  registers of the HyperLogLog sketch. The arithmetic of floats is a record of operations on their bit
  patterns. The bias-corrected estimate that HyperLogLog computes from its registers is not modelled.
\<close>

section \<open>Floats\<close>

record float_ops =
  fo_add :: "u64 \<Rightarrow> u64 \<Rightarrow> u64"
  fo_sub :: "u64 \<Rightarrow> u64 \<Rightarrow> u64"
  fo_mul :: "u64 \<Rightarrow> u64 \<Rightarrow> u64"
  fo_div :: "u64 \<Rightarrow> u64 \<Rightarrow> u64"
  fo_max :: "u64 \<Rightarrow> u64 \<Rightarrow> u64"
  fo_sqrt :: "u64 \<Rightarrow> u64"
  fo_log2 :: "u64 \<Rightarrow> u64"
  fo_of_int :: "int \<Rightarrow> u64"
  fo_to_u64 :: "u64 \<Rightarrow> u64"

definition fo_of_u64 :: "float_ops \<Rightarrow> u64 \<Rightarrow> u64" where
  "fo_of_u64 fl n = fo_of_int fl (uint n)"

definition f_0 :: u64 where "f_0 = 0"
definition f_1 :: u64 where "f_1 = 0x3ff0000000000000"
definition f_4 :: u64 where "f_4 = 0x4010000000000000"
definition f_4096 :: u64 where "f_4096 = 0x40b0000000000000"
definition f_0_1 :: u64 where "f_0_1 = 0x3fb999999999999a"
definition f_0_01 :: u64 where "f_0_01 = 0x3f847ae147ae147b"
definition f_0_02 :: u64 where "f_0_02 = 0x3f947ae147ae147b"
definition f_0_001 :: u64 where "f_0_001 = 0x3f50624dd2f1a9fc"
definition f_0_005 :: u64 where "f_0_005 = 0x3f747ae147ae147b"
definition f_0_0025 :: u64 where "f_0_0025 = 0x3f647ae147ae147b"
definition f_0_333 :: u64 where "f_0_333 = 0x3fd54fdf3b645a1d"

section \<open>Costs\<close>

definition cm_seq_scan :: "float_ops \<Rightarrow> u64 \<Rightarrow> u32 \<Rightarrow> u64" where
  "cm_seq_scan fl rows avg_row_width =
     (let pages = fo_div fl (fo_mul fl (fo_of_u64 fl rows) (fo_of_int fl (uint avg_row_width))) f_4096
      in fo_add fl (fo_mul fl pages f_1) (fo_mul fl (fo_of_u64 fl rows) f_0_01))"

definition cm_index_scan :: "float_ops \<Rightarrow> u64 \<Rightarrow> u64" where
  "cm_index_scan fl rows =
     fo_add fl (fo_mul fl (fo_of_u64 fl rows) f_4) (fo_mul fl (fo_of_u64 fl rows) f_0_01)"

definition cm_nested_loop_join :: "float_ops \<Rightarrow> u64 \<Rightarrow> u64 \<Rightarrow> u64 \<Rightarrow> u64" where
  "cm_nested_loop_join fl outer_rows inner_cost_per_row inner_rows =
     fo_add fl (fo_mul fl (fo_of_u64 fl outer_rows) inner_cost_per_row)
       (fo_mul fl (fo_mul fl (fo_of_u64 fl outer_rows) (fo_of_u64 fl inner_rows)) f_0_0025)"

definition cm_hash_join :: "float_ops \<Rightarrow> u64 \<Rightarrow> u64 \<Rightarrow> u64" where
  "cm_hash_join fl build_rows probe_rows =
     fo_add fl (fo_add fl (fo_mul fl (fo_of_u64 fl build_rows) f_0_01) (fo_mul fl (fo_of_u64 fl probe_rows) f_0_005))
       (fo_mul fl (fo_of_u64 fl (build_rows + probe_rows)) f_0_01)"

definition cm_merge_join :: "float_ops \<Rightarrow> u64 \<Rightarrow> u64 \<Rightarrow> u64" where
  "cm_merge_join fl left_rows right_rows =
     fo_add fl (fo_mul fl (fo_of_u64 fl (left_rows + right_rows)) f_0_01)
       (fo_mul fl (fo_of_u64 fl (left_rows + right_rows)) f_0_0025)"

definition cm_sort :: "float_ops \<Rightarrow> u64 \<Rightarrow> u64" where
  "cm_sort fl rows =
     fo_mul fl (fo_mul fl (fo_of_u64 fl rows) f_0_01) (fo_max fl (fo_log2 fl (fo_of_u64 fl rows)) f_1)"

definition seq_scan_cost :: "float_ops \<Rightarrow> u64 \<Rightarrow> u64 \<Rightarrow> u64" where
  "seq_scan_cost fl rows cols = fo_mul fl (fo_mul fl (fo_of_u64 fl rows) (fo_of_u64 fl cols)) f_0_01"

definition index_lookup_cost :: u64 where
  "index_lookup_cost = f_1"

definition hash_join_cost :: "float_ops \<Rightarrow> u64 \<Rightarrow> u64 \<Rightarrow> u64" where
  "hash_join_cost fl left_rows right_rows = fo_add fl (fo_of_u64 fl left_rows) (fo_of_u64 fl right_rows)"

definition nested_loop_join_cost :: "float_ops \<Rightarrow> u64 \<Rightarrow> u64 \<Rightarrow> u64" where
  "nested_loop_join_cost fl left_rows right_rows =
     fo_mul fl (fo_mul fl (fo_of_u64 fl left_rows) (fo_of_u64 fl right_rows)) f_0_01"

definition merge_join_cost :: "float_ops \<Rightarrow> u64 \<Rightarrow> u64 \<Rightarrow> u64" where
  "merge_join_cost fl left_rows right_rows = fo_add fl (fo_of_u64 fl left_rows) (fo_of_u64 fl right_rows)"

definition filter_cost :: "float_ops \<Rightarrow> u64 \<Rightarrow> u64" where
  "filter_cost fl rows = fo_mul fl (fo_of_u64 fl rows) f_0_001"

definition sort_cost :: "float_ops \<Rightarrow> u64 \<Rightarrow> u64" where
  "sort_cost fl rows =
     (if rows = 0 then f_0
      else fo_mul fl (fo_mul fl (fo_of_u64 fl rows) (fo_log2 fl (fo_of_u64 fl rows))) f_0_01)"

section \<open>Statistics of columns and tables\<close>

record column_stats =
  cs_distinct_count :: u64
  cs_null_count :: u64
  cs_min_i64 :: "i64 option"
  cs_max_i64 :: "i64 option"
  cs_most_common :: "(i64 \<times> u64) list"

definition selectivity_eq :: "float_ops \<Rightarrow> column_stats \<Rightarrow> u64" where
  "selectivity_eq fl c =
     (if cs_distinct_count c = 0 then f_0 else fo_div fl f_1 (fo_of_u64 fl (cs_distinct_count c)))"

definition selectivity_range :: "float_ops \<Rightarrow> column_stats \<Rightarrow> i64 \<Rightarrow> bool \<Rightarrow> u64" where
  "selectivity_range fl c val greater_than =
     (case (cs_min_i64 c, cs_max_i64 c) of
        (Some mn, Some mx) \<Rightarrow>
          if mn = mx then f_0
          else let range = fo_of_int fl (sint (mx - mn))
               in if greater_than then fo_div fl (fo_of_int fl (max (sint (mx - val)) 0)) range
                  else fo_div fl (fo_of_int fl (max (sint (val - mn)) 0)) range
      | _ \<Rightarrow> f_0_333)"

definition selectivity_not_null :: "float_ops \<Rightarrow> column_stats \<Rightarrow> u64 \<Rightarrow> u64" where
  "selectivity_not_null fl c total_rows =
     (if total_rows = 0 then f_0
      else fo_sub fl f_1 (fo_div fl (fo_of_u64 fl (cs_null_count c)) (fo_of_u64 fl total_rows)))"

record table_stats =
  ts_name :: string
  ts_row_count :: u64
  ts_avg_row_width :: u32
  ts_columns :: "(string \<times> column_stats) list"

definition table_stats_new :: "string \<Rightarrow> u64 \<Rightarrow> table_stats" where
  "table_stats_new name row_count =
     \<lparr>ts_name = name, ts_row_count = row_count, ts_avg_row_width = 64, ts_columns = []\<rparr>"

definition with_column :: "string \<Rightarrow> column_stats \<Rightarrow> table_stats \<Rightarrow> table_stats" where
  "with_column name c t = t\<lparr>ts_columns := AList.update name c (ts_columns t)\<rparr>"

definition estimate_filtered_rows :: "float_ops \<Rightarrow> table_stats \<Rightarrow> u64 \<Rightarrow> u64" where
  "estimate_filtered_rows fl t selectivity = fo_to_u64 fl (fo_mul fl (fo_of_u64 fl (ts_row_count t)) selectivity)"

record stats_catalog =
  sc_tables :: "string \<Rightarrow> table_stats option"
  sc_indexes :: "string \<Rightarrow> (string \<times> string) list option"

definition catalog_new :: stats_catalog where
  "catalog_new = \<lparr>sc_tables = Map.empty, sc_indexes = Map.empty\<rparr>"

definition catalog_register :: "table_stats \<Rightarrow> stats_catalog \<Rightarrow> stats_catalog" where
  "catalog_register t c = c\<lparr>sc_tables := (sc_tables c)(ts_name t \<mapsto> t)\<rparr>"

definition register_index :: "string \<Rightarrow> string \<Rightarrow> string \<Rightarrow> stats_catalog \<Rightarrow> stats_catalog" where
  "register_index table column index_name c =
     c\<lparr>sc_indexes := (sc_indexes c)(table \<mapsto>
        (case sc_indexes c table of Some cols \<Rightarrow> cols | None \<Rightarrow> []) @ [(column, index_name)])\<rparr>"

definition index_for :: "stats_catalog \<Rightarrow> string \<Rightarrow> string \<Rightarrow> string option" where
  "index_for c table column =
     Option.bind (sc_indexes c table) (\<lambda>cols. map_option snd (find (\<lambda>p. fst p = column) cols))"

definition has_index :: "stats_catalog \<Rightarrow> string \<Rightarrow> string \<Rightarrow> bool" where
  "has_index c table column \<longleftrightarrow> index_for c table column \<noteq> None"

text \<open>The product of the row counts wraps.\<close>

definition estimate_join_cardinality :: "stats_catalog \<Rightarrow> string \<Rightarrow> string \<Rightarrow> string \<Rightarrow> string \<Rightarrow> u64" where
  "estimate_join_cardinality c table_a table_b col_a col_b =
     (case (sc_tables c table_a, sc_tables c table_b) of
        (Some a, Some b) \<Rightarrow>
          let distinct_a = (case map_of (ts_columns a) col_a of Some s \<Rightarrow> cs_distinct_count s | None \<Rightarrow> 100);
              distinct_b = (case map_of (ts_columns b) col_b of Some s \<Rightarrow> cs_distinct_count s | None \<Rightarrow> 100)
          in ts_row_count a * ts_row_count b div max (max distinct_a distinct_b) 1
      | _ \<Rightarrow> 1000)"

section \<open>Histograms\<close>

record histogram =
  hi_boundaries :: "i64 list"
  hi_counts :: "u64 list"
  hi_total_rows :: u64

definition build_boundaries :: "i64 list \<Rightarrow> nat \<Rightarrow> i64 list" where
  "build_boundaries sorted_values bucket_count =
     (let n = length sorted_values; bucket_size = n div max bucket_count 1
      in hd sorted_values
         # map (\<lambda>i. sorted_values ! (i * bucket_size)) (filter (\<lambda>i. i * bucket_size < n) [1..<bucket_count])
         @ [last sorted_values])"

text \<open>The counts so far, the current bucket and its count.\<close>

definition count_value :: "i64 list \<Rightarrow> i64 \<Rightarrow> u64 list \<times> nat \<times> u64 \<Rightarrow> u64 list \<times> nat \<times> u64" where
  "count_value boundaries v s =
     (case s of (counts, bucket, count) \<Rightarrow>
        if bucket + 1 < length boundaries \<and> sint (boundaries ! (bucket + 1)) \<le> sint v
        then (counts @ [count], bucket + 1, 1) else (counts, bucket, count + 1))"

definition histogram_build :: "i64 list \<Rightarrow> nat \<Rightarrow> histogram" where
  "histogram_build sorted_values bucket_count =
     (if sorted_values = [] then \<lparr>hi_boundaries = [], hi_counts = [], hi_total_rows = 0\<rparr>
      else
        let boundaries = build_boundaries sorted_values bucket_count;
            (counts, _, count) = fold (count_value boundaries) sorted_values ([], 0, 0)
        in \<lparr>hi_boundaries = boundaries, hi_counts = counts @ [count], hi_total_rows = of_nat (length sorted_values)\<rparr>)"

definition bucket_selectivity :: "float_ops \<Rightarrow> histogram \<Rightarrow> i64 \<Rightarrow> nat \<Rightarrow> u64" where
  "bucket_selectivity fl h val i =
     (let bucket_start = hi_boundaries h ! i; bucket_end = hi_boundaries h ! (i + 1);
          bucket_rows = fo_of_u64 fl (hi_counts h ! i)
      in if bucket_end = bucket_start
         then fo_div fl (fo_of_u64 fl (sum_list (drop i (hi_counts h)))) (fo_of_u64 fl (hi_total_rows h))
         else
           let fraction = fo_div fl (fo_of_int fl (sint (bucket_end - val))) (fo_of_int fl (sint (bucket_end - bucket_start)));
               rows_in_bucket = fo_mul fl bucket_rows fraction;
               rows_after = fo_of_u64 fl (sum_list (drop (i + 1) (hi_counts h)))
           in fo_div fl (fo_add fl rows_in_bucket rows_after) (fo_of_u64 fl (hi_total_rows h)))"

definition selectivity_ge :: "float_ops \<Rightarrow> histogram \<Rightarrow> i64 \<Rightarrow> u64" where
  "selectivity_ge fl h val =
     (if hi_boundaries h = [] \<or> hi_total_rows h = 0 then f_0_333
      else if sint val \<le> sint (hd (hi_boundaries h)) then f_1
      else if sint (last (hi_boundaries h)) < sint val then f_0
      else (case find (\<lambda>i. i + 1 < length (hi_boundaries h) \<and> sint val < sint (hi_boundaries h ! (i + 1)))
                   [0..<length (hi_counts h)] of
              Some i \<Rightarrow> bucket_selectivity fl h val i
            | None \<Rightarrow> f_0))"

section \<open>HyperLogLog\<close>

record hyper_log_log =
  hl_registers :: "u8 list"
  hl_precision :: nat
  hl_m :: u64

definition hll_new :: "u32 \<Rightarrow> hyper_log_log" where
  "hll_new precision =
     (let p = max 4 (min 20 (unat precision))
      in \<lparr>hl_registers = replicate (2 ^ p) 0, hl_precision = p, hl_m = 2 ^ p\<rparr>)"

definition hll_rho :: "nat \<Rightarrow> u64 \<Rightarrow> u8" where
  "hll_rho p hash =
     (let w = push_bit p hash in if w = 0 then of_nat (64 - p + 1) else of_nat (leading_zeros w + 1))"

definition hll_index :: "nat \<Rightarrow> u64 \<Rightarrow> nat" where
  "hll_index p hash = unat (drop_bit (64 - p) hash)"

definition hll_add :: "u64 \<Rightarrow> hyper_log_log \<Rightarrow> hyper_log_log cen_result" where
  "hll_add hash h =
     (let idx = hll_index (hl_precision h) hash; rho = hll_rho (hl_precision h) hash
      in and_then (index_at (hl_registers h) idx) (\<lambda>r.
           Ok (if r < rho then h\<lparr>hl_registers := (hl_registers h)[idx := rho]\<rparr> else h)))"

text \<open>The registers that the other sketch lacks stay as they are.\<close>

fun merge_registers :: "u8 list \<Rightarrow> u8 list \<Rightarrow> u8 list" where
  "merge_registers (a # as) (b # bs) = (if a < b then b else a) # merge_registers as bs"
| "merge_registers as bs = as"

definition hll_merge :: "hyper_log_log \<Rightarrow> hyper_log_log \<Rightarrow> hyper_log_log" where
  "hll_merge other h = h\<lparr>hl_registers := merge_registers (hl_registers h) (hl_registers other)\<rparr>"

definition hll_mem_usage :: "hyper_log_log \<Rightarrow> nat" where
  "hll_mem_usage h = length (hl_registers h)"

fun hll_add_all :: "u64 list \<Rightarrow> hyper_log_log \<Rightarrow> hyper_log_log cen_result" where
  "hll_add_all [] h = Ok h"
| "hll_add_all (x # xs) h = and_then (hll_add x h) (hll_add_all xs)"

section \<open>Lemmas\<close>

definition hll_ok :: "nat \<Rightarrow> hyper_log_log \<Rightarrow> bool" where
  "hll_ok p h \<longleftrightarrow> hl_precision h = p \<and> length (hl_registers h) = 2 ^ p \<and> 4 \<le> p \<and> p \<le> 20"

lemma hll_new_ok [inv_intro]: "hll_ok (max 4 (min 20 (unat k))) (hll_new k)"
  by (simp add: hll_ok_def hll_new_def Let_def)

lemma hll_index_less: "p \<le> 64 \<Longrightarrow> hll_index p x < 2 ^ p"
proof -
  assume p: "p \<le> 64"
  have "unat (drop_bit (64 - p) x) = unat x div 2 ^ (64 - p)" by (simp only: unat_drop_bit_eq) (simp only: drop_bit_eq_div)
  moreover have "unat x < 2 ^ p * 2 ^ (64 - p)" using unat_lt2p [of x] p by (simp flip: power_add)
  ultimately show ?thesis by (simp add: hll_index_def less_mult_imp_div_less)
qed

text \<open>The greatest rank a register has seen.\<close>

definition seen :: "nat \<Rightarrow> nat \<Rightarrow> u64 list \<Rightarrow> u8 set" where
  "seen p i xs = hll_rho p ` {x \<in> set xs. hll_index p x = i}"

lemma hll_add_ok:
  assumes "hll_ok p h"
  shows "\<exists>h'. hll_add x h = Ok h' \<and> hll_ok p h'
    \<and> hl_registers h' = (hl_registers h)[hll_index p x := max (hl_registers h ! hll_index p x) (hll_rho p x)]"
proof -
  have "hll_index p x < length (hl_registers h)" using assms hll_index_less [of p x] by (simp add: hll_ok_def)
  then show ?thesis using assms by (auto simp: hll_add_def Let_def hll_ok_def index_at_ok max_def)
qed

lemma hll_add_all_ok:
  assumes "hll_ok p h"
  shows "\<exists>h'. hll_add_all xs h = Ok h' \<and> hll_ok p h'
    \<and> (\<forall>i<2 ^ p. hl_registers h' ! i = Max (insert (hl_registers h ! i) (seen p i xs)))"
  using assms
proof (induction xs arbitrary: h)
  case (Cons x xs)
  obtain h1 where h1: "hll_add x h = Ok h1" "hll_ok p h1"
    "hl_registers h1 = (hl_registers h)[hll_index p x := max (hl_registers h ! hll_index p x) (hll_rho p x)]"
    using hll_add_ok [OF Cons.prems] by blast
  obtain h2 where h2: "hll_add_all xs h1 = Ok h2" "hll_ok p h2"
    "\<forall>i<2 ^ p. hl_registers h2 ! i = Max (insert (hl_registers h1 ! i) (seen p i xs))"
    using Cons.IH [OF h1(2)] by blast
  have "Max (insert (hl_registers h1 ! i) (seen p i xs)) = Max (insert (hl_registers h ! i) (seen p i (x # xs)))"
    if i: "i < 2 ^ p" for i
  proof (cases "hll_index p x = i")
    case True
    then have s: "seen p i (x # xs) = insert (hll_rho p x) (seen p i xs)" by (auto simp: seen_def)
    have "finite (seen p i xs)" by (simp add: seen_def)
    moreover have "hl_registers h1 ! i = max (hl_registers h ! i) (hll_rho p x)"
      using True i Cons.prems by (simp add: h1(3) hll_ok_def)
    ultimately show ?thesis by (cases "seen p i xs = {}") (simp_all add: s max.assoc)
  next
    case False
    then show ?thesis by (auto simp: h1(3) seen_def intro: arg_cong [of _ _ Max])
  qed
  then show ?case using h1(1) h2 by simp
qed (auto simp: seen_def)

lemma merge_registers_laws:
  "length as = length bs \<Longrightarrow> length (merge_registers as bs) = length as
    \<and> (\<forall>i<length as. merge_registers as bs ! i = max (as ! i) (bs ! i))"
  by (induction as bs rule: merge_registers.induct) (auto simp: less_Suc_eq_0_disj max_def)

lemma hll_sketch:
  "\<exists>h. hll_add_all xs (hll_new k) = Ok h \<and> hll_ok (max 4 (min 20 (unat k))) h
    \<and> (\<forall>i<2 ^ max 4 (min 20 (unat k)). hl_registers h ! i = Max (insert 0 (seen (max 4 (min 20 (unat k))) i xs)))"
  using hll_add_all_ok [OF hll_new_ok, of xs k] by (simp add: hll_new_def Let_def)

lemma hll_merge_union:
  assumes "set zs = set xs \<union> set ys"
  shows "\<exists>a b. hll_add_all xs (hll_new k) = Ok a \<and> hll_add_all ys (hll_new k) = Ok b
    \<and> hll_add_all zs (hll_new k) = Ok (hll_merge b a)"
proof -
  define p where "p = max 4 (min 20 (unat k))"
  note sketch = hll_sketch [of _ k, folded p_def]
  obtain a where a: "hll_add_all xs (hll_new k) = Ok a" "hll_ok p a"
    "\<And>i. i < 2 ^ p \<Longrightarrow> hl_registers a ! i = Max (insert 0 (seen p i xs))" using sketch by blast
  obtain b where b: "hll_add_all ys (hll_new k) = Ok b" "hll_ok p b"
    "\<And>i. i < 2 ^ p \<Longrightarrow> hl_registers b ! i = Max (insert 0 (seen p i ys))" using sketch by blast
  obtain c where c: "hll_add_all zs (hll_new k) = Ok c" "hll_ok p c"
    "\<And>i. i < 2 ^ p \<Longrightarrow> hl_registers c ! i = Max (insert 0 (seen p i zs))" using sketch by blast
  have len: "length (hl_registers a) = 2 ^ p" "length (hl_registers b) = 2 ^ p" "length (hl_registers c) = 2 ^ p"
    using a(2) b(2) c(2) by (simp_all add: hll_ok_def)
  have "Max (insert 0 (seen p i zs)) = max (Max (insert 0 (seen p i xs))) (Max (insert 0 (seen p i ys)))" for i
  proof -
    have "insert 0 (seen p i zs) = insert 0 (seen p i xs) \<union> insert 0 (seen p i ys)"
      using assms by (auto simp: seen_def)
    moreover have "finite (seen p i vs)" for vs by (simp add: seen_def)
    ultimately show ?thesis by (simp only: Max.union [of "insert 0 (seen p i xs)" "insert 0 (seen p i ys)"] finite_insert insert_not_empty simp_thms)
  qed
  then have "hl_registers c = merge_registers (hl_registers a) (hl_registers b)"
    using merge_registers_laws [of "hl_registers a" "hl_registers b"] a(3) b(3) c(3) len
    by (intro nth_equalityI) (simp_all add: len)
  moreover have "hl_m h = 2 ^ p" if "hll_add_all vs (hll_new k) = Ok h" for vs h
  proof -
    have "hll_add_all vs g = Ok h \<Longrightarrow> hl_m h = hl_m g" for g
      by (induction vs arbitrary: g) (auto simp: hll_add_def Let_def split: if_splits)
    then show ?thesis using that by (simp add: hll_new_def Let_def p_def)
  qed
  then have "hl_m a = hl_m c" using a(1) c(1) by simp
  ultimately have "hll_merge b a = c" using a(2) c(2) by (simp add: hll_merge_def hll_ok_def)
  then show ?thesis using a(1) b(1) c(1) by blast
qed

lemma fold_count_value:
  "fold (count_value boundaries) vs (counts, bucket, count) = (counts', bucket', count') \<Longrightarrow>
     sum_list counts' + count' = sum_list counts + count + of_nat (length vs)
     \<and> length counts' \<le> length counts + (bucket' - bucket) \<and> bucket \<le> bucket'
     \<and> (bucket < length boundaries \<longrightarrow> bucket' < length boundaries)"
proof (induction vs arbitrary: counts bucket count)
  case (Cons v vs)
  show ?case
  proof (cases "bucket + 1 < length boundaries \<and> sint (boundaries ! (bucket + 1)) \<le> sint v")
    case True
    then show ?thesis using Cons.IH [of "counts @ [count]" "bucket + 1" 1] Cons.prems by (auto simp: count_value_def)
  next
    case False
    then show ?thesis using Cons.IH [of counts bucket "count + 1"] Cons.prems by (auto simp: count_value_def)
  qed
qed auto

text \<open>Every row is counted once, and a bucket ends at a boundary.\<close>

lemma histogram_counts_rows:
  "sum_list (hi_counts (histogram_build vs n)) = hi_total_rows (histogram_build vs n)
    \<and> length (hi_counts (histogram_build vs n)) \<le> length (hi_boundaries (histogram_build vs n))"
proof (cases "vs = []")
  case False
  obtain counts bucket count where f: "fold (count_value (build_boundaries vs n)) vs ([], 0, 0) = (counts, bucket, count)"
    by (cases "fold (count_value (build_boundaries vs n)) vs ([], 0, 0)")
  have "0 < length (build_boundaries vs n)" by (simp add: build_boundaries_def Let_def)
  then show ?thesis using fold_count_value [OF f] False by (simp add: histogram_build_def f Let_def)
qed (simp add: histogram_build_def)

section \<open>Properties\<close>

text \<open>C23:
  A HyperLogLog sketch depends on the set of the hashes only, and merging is union: for any two
  streams and any stream with the same hashes as both together, in any order and with any
  repetitions, the merge of the first two sketches is the sketch of the third. No hash reaches a
  register out of range, for every precision asked for.
\<close>

theorem hll_merge_is_union:
  assumes "set zs = set xs \<union> set ys"
  shows "\<exists>a b. hll_add_all xs (hll_new k) = Ok a \<and> hll_add_all ys (hll_new k) = Ok b
    \<and> hll_add_all zs (hll_new k) = Ok (hll_merge b a)"
  by (rule hll_merge_union [OF assms])

theorem hll_merge_is_union_witness:
  "\<exists>a b. hll_add_all [7, 9] (hll_new 4) = Ok a \<and> hll_add_all [9, 12] (hll_new 4) = Ok b
    \<and> hll_add_all [12, 7, 9, 7] (hll_new 4) = Ok (hll_merge b a)"
  by (rule hll_merge_is_union) auto

end
