(* ===== verification/Optimizer.thy ===== *)
theory Optimizer
  imports ParserRoundtrip Stats "HOL-Library.Sublist"
begin

text \<open>
  The query optimizer (\<open>cendb-optimizer/src/plan.rs\<close>): logical plans, the conversion of parsed
  pipelines to them, the push-down of filters by the text of their predicates, and the physical plans
  with the choice of scans and joins. Predicates are strings, as in the source; a character is the
  bytes of its UTF-8 form. Whether a character outside ASCII is alphanumeric is an argument, as are
  the arithmetic and the printing of floats.
\<close>

section \<open>Words and tokens of predicates\<close>

text \<open>The characters of a UTF-8 string: an ASCII byte, or a byte with its continuation bytes.\<close>

function utf8_chars :: "string \<Rightarrow> string list" where
  "utf8_chars [] = []"
| "utf8_chars (b # bs) =
     (if code b < 192 then [b] # utf8_chars bs
      else (b # takeWhile is_cont bs) # utf8_chars (dropWhile is_cont bs))"
  by pat_completeness auto
termination
  by (relation "measure length") (auto simp: le_imp_less_Suc length_dropWhile_le)

declare utf8_chars.simps [simp del]

text \<open>The pieces of a string between the characters that satisfy a test.\<close>

fun split_chars :: "(string \<Rightarrow> bool) \<Rightarrow> string list \<Rightarrow> string list" where
  "split_chars sep [] = [[]]"
| "split_chars sep (c # cs) =
     (if sep c then [] # split_chars sep cs
      else (case split_chars sep cs of w # ws \<Rightarrow> (c @ w) # ws | [] \<Rightarrow> [c]))"

definition pieces :: "(string \<Rightarrow> bool) \<Rightarrow> string \<Rightarrow> string list" where
  "pieces sep s = filter (\<lambda>w. w \<noteq> []) (split_chars sep (utf8_chars s))"

definition is_token_char :: "(string \<Rightarrow> bool) \<Rightarrow> string \<Rightarrow> bool" where
  "is_token_char alnum c \<longleftrightarrow>
     (case c of [b] \<Rightarrow> if code b < 128 then is_ascii_alphanumeric b \<or> b = CHR ''_'' \<or> b = CHR ''.'' else alnum c
      | _ \<Rightarrow> alnum c)"

definition predicate_tokens :: "(string \<Rightarrow> bool) \<Rightarrow> string \<Rightarrow> string list" where
  "predicate_tokens alnum p = pieces (\<lambda>c. \<not> is_token_char alnum c) p"

text \<open>The white space of Unicode.\<close>

definition is_whitespace :: "string \<Rightarrow> bool" where
  "is_whitespace c \<longleftrightarrow>
     (case map code c of
        [x] \<Rightarrow> (9 \<le> x \<and> x \<le> 13) \<or> x = 32
      | [x, y] \<Rightarrow> x = 0xC2 \<and> (y = 0x85 \<or> y = 0xA0)
      | [x, y, z] \<Rightarrow> (x = 0xE1 \<and> y = 0x9A \<and> z = 0x80)
          \<or> (x = 0xE2 \<and> y = 0x80 \<and> ((0x80 \<le> z \<and> z \<le> 0x8A) \<or> z = 0xA8 \<or> z = 0xA9 \<or> z = 0xAF))
          \<or> (x = 0xE2 \<and> y = 0x81 \<and> z = 0x9F) \<or> (x = 0xE3 \<and> y = 0x80 \<and> z = 0x80)
      | _ \<Rightarrow> False)"

definition whitespace_words :: "string \<Rightarrow> string list" where
  "whitespace_words p = pieces is_whitespace p"

definition is_and_word :: "string \<Rightarrow> bool" where
  "is_and_word w \<longleftrightarrow> to_lowercase w = ''and''"

definition add_word :: "string list \<Rightarrow> string \<Rightarrow> string list" where
  "add_word acc w =
     (if is_and_word w then acc @ [[]]
      else if acc = [] then [w]
      else butlast acc @ [if last acc = [] then w else last acc @ '' '' @ w])"

definition split_and :: "string \<Rightarrow> string list" where
  "split_and p = filter (\<lambda>s. s \<noteq> []) (foldl add_word [] (whitespace_words p))"

fun join_with :: "string \<Rightarrow> string list \<Rightarrow> string" where
  "join_with sep [] = []"
| "join_with sep [s] = s"
| "join_with sep (s # t # ss) = s @ sep @ join_with sep (t # ss)"

definition join_and :: "string list \<Rightarrow> string" where
  "join_and cs = join_with '' and '' cs"

text \<open>The text with every occurrence of \<open>!=\<close> replaced by a space.\<close>

fun replace_neq :: "string \<Rightarrow> string" where
  "replace_neq (a # b # s) =
     (if a = CHR ''!'' \<and> b = CHR ''='' then CHR '' '' # replace_neq s else a # replace_neq (b # s))"
| "replace_neq s = s"

definition is_equi_join :: "string \<Rightarrow> bool" where
  "is_equi_join condition \<longleftrightarrow> sublist ''=='' (replace_neq condition)"

section \<open>Logical plans\<close>

datatype logical_plan =
    LpScan string "string option"
  | LpFilter logical_plan string
  | LpProject logical_plan "string list"
  | LpJoin logical_plan logical_plan string
  | LpSort logical_plan string
  | LpAggregate logical_plan string "string list"
  | LpLimit logical_plan u64

definition scan_rows :: "stats_catalog \<Rightarrow> string \<Rightarrow> u64" where
  "scan_rows catalog table = (case sc_tables catalog table of Some s \<Rightarrow> ts_row_count s | None \<Rightarrow> 1000)"

definition tenth :: "float_ops \<Rightarrow> u64 \<Rightarrow> u64" where
  "tenth fl n = fo_to_u64 fl (fo_mul fl (fo_of_u64 fl n) f_0_1)"

definition joined_rows :: "float_ops \<Rightarrow> u64 \<Rightarrow> u64 \<Rightarrow> u64" where
  "joined_rows fl l r = fo_to_u64 fl (fo_mul fl (fo_of_u64 fl (l * r)) f_0_01)"

definition group_rows :: "float_ops \<Rightarrow> u64 \<Rightarrow> u64" where
  "group_rows fl n = fo_to_u64 fl (fo_sqrt fl (fo_of_u64 fl n))"

fun estimate_rows :: "float_ops \<Rightarrow> stats_catalog \<Rightarrow> logical_plan \<Rightarrow> u64" where
  "estimate_rows fl catalog (LpScan table predicate) =
     (if predicate \<noteq> None then tenth fl (scan_rows catalog table) else scan_rows catalog table)"
| "estimate_rows fl catalog (LpFilter input predicate) = tenth fl (estimate_rows fl catalog input)"
| "estimate_rows fl catalog (LpProject input columns) = estimate_rows fl catalog input"
| "estimate_rows fl catalog (LpJoin l r condition) =
     joined_rows fl (estimate_rows fl catalog l) (estimate_rows fl catalog r)"
| "estimate_rows fl catalog (LpSort input column) = estimate_rows fl catalog input"
| "estimate_rows fl catalog (LpAggregate input group_key aggs) = group_rows fl (estimate_rows fl catalog input)"
| "estimate_rows fl catalog (LpLimit input count) = min (estimate_rows fl catalog input) count"

fun table_names_into :: "logical_plan \<Rightarrow> string list \<Rightarrow> string list" where
  "table_names_into (LpScan table predicate) out = (if table \<in> set out then out else out @ [table])"
| "table_names_into (LpFilter input predicate) out = table_names_into input out"
| "table_names_into (LpProject input columns) out = table_names_into input out"
| "table_names_into (LpJoin l r condition) out = table_names_into r (table_names_into l out)"
| "table_names_into (LpSort input column) out = table_names_into input out"
| "table_names_into (LpAggregate input group_key aggs) out = table_names_into input out"
| "table_names_into (LpLimit input count) out = table_names_into input out"

definition table_names :: "logical_plan \<Rightarrow> string list" where
  "table_names plan = table_names_into plan []"

fun is_sorted :: "logical_plan \<Rightarrow> bool" where
  "is_sorted (LpSort _ _) = True"
| "is_sorted _ = False"

section \<open>Pushing filters down\<close>

definition token_table :: "string \<Rightarrow> string" where
  "token_table token = hd (split_at CHR ''.'' token)"

text \<open>The side of a join that a conjunct names: left, right, or neither or both.\<close>

definition conjunct_side :: "(string \<Rightarrow> bool) \<Rightarrow> string \<Rightarrow> string list \<Rightarrow> string list \<Rightarrow> bool option" where
  "conjunct_side alnum conjunct left_tables right_tables =
     (let names = map token_table (predicate_tokens alnum conjunct);
          refs_left = (\<exists>t\<in>set names. t \<in> set left_tables);
          refs_right = (\<exists>t\<in>set names. t \<in> set right_tables)
      in case (refs_left, refs_right) of
           (True, False) \<Rightarrow> Some True
         | (False, True) \<Rightarrow> Some False
         | _ \<Rightarrow> None)"

definition side_conjuncts ::
    "(string \<Rightarrow> bool) \<Rightarrow> string \<Rightarrow> logical_plan \<Rightarrow> logical_plan \<Rightarrow> bool option \<Rightarrow> string list" where
  "side_conjuncts alnum predicate l r side =
     filter (\<lambda>c. conjunct_side alnum c (table_names l) (table_names r) = side) (split_and predicate)"

text \<open>Pushing keeps the number of joins, which falls at every join; else the plan gets smaller.\<close>

fun join_count :: "logical_plan \<Rightarrow> nat" where
  "join_count (LpScan _ _) = 0"
| "join_count (LpJoin l r _) = join_count l + join_count r + 1"
| "join_count (LpFilter p _) = join_count p"
| "join_count (LpProject p _) = join_count p"
| "join_count (LpSort p _) = join_count p"
| "join_count (LpAggregate p _ _) = join_count p"
| "join_count (LpLimit p _) = join_count p"

function (sequential) push_down_filters :: "(string \<Rightarrow> bool) \<Rightarrow> logical_plan \<Rightarrow> logical_plan"
  and push_filter_into :: "(string \<Rightarrow> bool) \<Rightarrow> logical_plan \<Rightarrow> string \<Rightarrow> logical_plan" where
  "push_down_filters alnum (LpFilter input predicate) =
     push_filter_into alnum (push_down_filters alnum input) predicate"
| "push_down_filters alnum (LpJoin l r condition) =
     LpJoin (push_down_filters alnum l) (push_down_filters alnum r) condition"
| "push_down_filters alnum (LpProject input columns) = LpProject (push_down_filters alnum input) columns"
| "push_down_filters alnum (LpSort input column) = LpSort (push_down_filters alnum input) column"
| "push_down_filters alnum (LpAggregate input group_key aggs) =
     LpAggregate (push_down_filters alnum input) group_key aggs"
| "push_down_filters alnum (LpLimit input count) = LpLimit (push_down_filters alnum input) count"
| "push_down_filters alnum (LpScan table predicate) = LpScan table predicate"
| "push_filter_into alnum (LpJoin l r condition) predicate =
     (let left_conjuncts = side_conjuncts alnum predicate l r (Some True);
          right_conjuncts = side_conjuncts alnum predicate l r (Some False);
          top_conjuncts = side_conjuncts alnum predicate l r None;
          new_left = (if left_conjuncts = [] then push_down_filters alnum l
                      else push_filter_into alnum (push_down_filters alnum l) (join_and left_conjuncts));
          new_right = (if right_conjuncts = [] then push_down_filters alnum r
                       else push_filter_into alnum (push_down_filters alnum r) (join_and right_conjuncts));
          new_join = LpJoin new_left new_right condition
      in if top_conjuncts = [] then new_join else LpFilter new_join (join_and top_conjuncts))"
| "push_filter_into alnum (LpFilter inner inner_pred) predicate =
     push_filter_into alnum inner (inner_pred @ '' and '' @ predicate)"
| "push_filter_into alnum other predicate = LpFilter other predicate"
  by pat_completeness auto

termination
proof -
  have kept: "push_down_filters_push_filter_into_dom (Inl (alnum, p)) \<Longrightarrow> join_count (push_down_filters alnum p) = join_count p"
    "push_down_filters_push_filter_into_dom (Inr (alnum, q, s)) \<Longrightarrow> join_count (push_filter_into alnum q s) = join_count q"
    for alnum p q s
    by (induction alnum p and alnum q s rule: push_down_filters_push_filter_into.pinduct)
      (simp_all add: push_down_filters.psimps push_filter_into.psimps Let_def)
  show ?thesis
    by (relation "measures
        [\<lambda>x. case x of Inl (_, p) \<Rightarrow> join_count p | Inr (_, q, _) \<Rightarrow> join_count q,
         \<lambda>x. case x of Inl _ \<Rightarrow> 1 | Inr _ \<Rightarrow> 0,
         \<lambda>x. case x of Inl (_, p) \<Rightarrow> size p | Inr (_, q, _) \<Rightarrow> size q]")
      (auto simp: kept)
qed

declare push_down_filters.simps [simp del] push_filter_into.simps [simp del]

section \<open>Physical plans\<close>

datatype plan_join_method = PjNestedLoop | PjHash | PjMerge

fun join_method_name :: "plan_join_method \<Rightarrow> string" where
  "join_method_name PjNestedLoop = ''NestedLoop''"
| "join_method_name PjHash = ''HashJoin''"
| "join_method_name PjMerge = ''MergeJoin''"

datatype physical_plan = PhysicalPlan (pp_operator: physical_operator) (pp_cost: u64) (pp_rows: u64)
and physical_operator =
    PoSeqScan string "string option"
  | PoIndexScan string string string
  | PoFilter physical_plan string
  | PoProject physical_plan "string list"
  | PoJoin plan_join_method physical_plan physical_plan string
  | PoSort physical_plan string
  | PoAggregate physical_plan string "string list"
  | PoLimit physical_plan u64

subsection \<open>The optimizer with its own cost functions\<close>

definition opt_scan_cost :: "float_ops \<Rightarrow> stats_catalog \<Rightarrow> string \<Rightarrow> u64 \<Rightarrow> u64" where
  "opt_scan_cost fl catalog table rows =
     (let row_width = fo_of_int fl (uint (case sc_tables catalog table of Some s \<Rightarrow> ts_avg_row_width s | None \<Rightarrow> 64))
      in fo_mul fl (fo_div fl (fo_mul fl (fo_of_u64 fl rows) row_width) f_4096) f_1)"

definition choose_join_method :: "physical_plan \<Rightarrow> physical_plan \<Rightarrow> plan_join_method" where
  "choose_join_method l r =
     (if pp_rows l < 100 \<or> pp_rows r < 100 then PjNestedLoop
      else if 10000 < pp_rows l \<and> 10000 < pp_rows r then PjHash
      else PjHash)"

definition opt_join_cost :: "float_ops \<Rightarrow> plan_join_method \<Rightarrow> physical_plan \<Rightarrow> physical_plan \<Rightarrow> u64 \<Rightarrow> u64" where
  "opt_join_cost fl method l r output_rows =
     (case method of
        PjNestedLoop \<Rightarrow>
          fo_add fl (pp_cost l) (fo_mul fl (fo_of_u64 fl (pp_rows l))
            (fo_div fl (pp_cost r) (fo_of_u64 fl (max (pp_rows r) 1))))
      | PjHash \<Rightarrow>
          let build_cost = fo_mul fl (fo_of_u64 fl (min (pp_rows l) (pp_rows r))) f_0_01;
              probe_cost = fo_mul fl (fo_of_u64 fl (max (pp_rows l) (pp_rows r))) f_0_005
          in fo_add fl (fo_add fl (fo_add fl (pp_cost l) (pp_cost r)) build_cost) probe_cost
      | PjMerge \<Rightarrow>
          let merge_sort_cost = fo_mul fl (fo_of_u64 fl (pp_rows l + pp_rows r)) f_0_01;
              merge_cost = fo_mul fl (fo_of_u64 fl output_rows) f_0_005
          in fo_add fl (fo_add fl (fo_add fl (pp_cost l) (pp_cost r)) merge_sort_cost) merge_cost)"

fun optimize_node :: "float_ops \<Rightarrow> stats_catalog \<Rightarrow> logical_plan \<Rightarrow> physical_plan" where
  "optimize_node fl catalog (LpScan table predicate) =
     (let rows = estimate_rows fl catalog (LpScan table predicate)
      in PhysicalPlan (PoSeqScan table predicate) (opt_scan_cost fl catalog table rows) rows)"
| "optimize_node fl catalog (LpFilter input predicate) =
     (let child = optimize_node fl catalog input; rows = tenth fl (pp_rows child)
      in PhysicalPlan (PoFilter child predicate) (fo_add fl (pp_cost child) (fo_mul fl (fo_of_u64 fl rows) f_0_01)) rows)"
| "optimize_node fl catalog (LpProject input columns) =
     (let child = optimize_node fl catalog input; rows = pp_rows child
      in PhysicalPlan (PoProject child columns) (fo_add fl (pp_cost child) (fo_mul fl (fo_of_u64 fl rows) f_0_005)) rows)"
| "optimize_node fl catalog (LpJoin l r condition) =
     (let left_plan = optimize_node fl catalog l; right_plan = optimize_node fl catalog r;
          method = choose_join_method left_plan right_plan;
          rows = joined_rows fl (pp_rows left_plan) (pp_rows right_plan)
      in PhysicalPlan (PoJoin method left_plan right_plan condition)
           (opt_join_cost fl method left_plan right_plan rows) rows)"
| "optimize_node fl catalog (LpSort input column) =
     (let child = optimize_node fl catalog input; rows = pp_rows child
      in PhysicalPlan (PoSort child column) (fo_add fl (pp_cost child) (sort_cost fl rows)) rows)"
| "optimize_node fl catalog (LpAggregate input group_key aggs) =
     (let child = optimize_node fl catalog input; rows = group_rows fl (pp_rows child)
      in PhysicalPlan (PoAggregate child group_key aggs)
           (fo_add fl (pp_cost child) (fo_mul fl (fo_of_u64 fl (pp_rows child)) f_0_02)) rows)"
| "optimize_node fl catalog (LpLimit input count) =
     (let child = optimize_node fl catalog input; rows = min (pp_rows child) count
      in PhysicalPlan (PoLimit child count) (pp_cost child) rows)"

subsection \<open>Plan selection by the specified cost model\<close>

definition choose_join_method_spec ::
    "float_ops \<Rightarrow> logical_plan \<Rightarrow> logical_plan \<Rightarrow> string \<Rightarrow> stats_catalog \<Rightarrow> plan_join_method" where
  "choose_join_method_spec fl l r condition stats =
     (if \<not> is_equi_join condition then PjNestedLoop
      else if is_sorted l \<and> is_sorted r then PjMerge
      else if estimate_rows fl stats l < 10000 \<or> estimate_rows fl stats r < 10000 then PjHash
      else PjHash)"

definition estimate_column_count :: "stats_catalog \<Rightarrow> string \<Rightarrow> nat" where
  "estimate_column_count stats table =
     (case sc_tables stats table of Some s \<Rightarrow> max (length (ts_columns s)) 1 | None \<Rightarrow> 4)"

text \<open>\<open>split_once\<close> at the first dot.\<close>

definition split_dot :: "string \<Rightarrow> (string \<times> string) option" where
  "split_dot token =
     (case dropWhile (\<lambda>b. b \<noteq> CHR ''.'') token of
        [] \<Rightarrow> None
      | _ # rest \<Rightarrow> Some (takeWhile (\<lambda>b. b \<noteq> CHR ''.'') token, rest))"

definition indexed_column :: "string \<Rightarrow> stats_catalog \<Rightarrow> string \<Rightarrow> string option" where
  "indexed_column table stats token =
     (case split_dot token of
        Some (t, c) \<Rightarrow> if t = table \<and> has_index stats table c then Some c else None
      | None \<Rightarrow> if has_index stats table token then Some token else None)"

fun first_some :: "('a \<Rightarrow> 'b option) \<Rightarrow> 'a list \<Rightarrow> 'b option" where
  "first_some f [] = None"
| "first_some f (x # xs) = (case f x of Some y \<Rightarrow> Some y | None \<Rightarrow> first_some f xs)"

definition first_indexed_column_in_predicate ::
    "(string \<Rightarrow> bool) \<Rightarrow> string \<Rightarrow> string \<Rightarrow> stats_catalog \<Rightarrow> string option" where
  "first_indexed_column_in_predicate alnum table predicate stats =
     first_some (indexed_column table stats) (predicate_tokens alnum predicate)"

definition choose_scan_op ::
    "(string \<Rightarrow> bool) \<Rightarrow> string \<Rightarrow> string option \<Rightarrow> stats_catalog \<Rightarrow> physical_operator" where
  "choose_scan_op alnum table predicate stats =
     (if predicate = None \<or> predicate = Some [] then PoSeqScan table predicate
      else (case first_indexed_column_in_predicate alnum table (the predicate) stats of
              Some col \<Rightarrow>
                PoIndexScan table
                  (case index_for stats table col of Some i \<Rightarrow> i | None \<Rightarrow> ''default_index'') col
            | None \<Rightarrow> PoSeqScan table predicate))"

fun is_index_scan :: "physical_operator \<Rightarrow> bool" where
  "is_index_scan (PoIndexScan _ _ _) = True"
| "is_index_scan _ = False"

definition spec_join_cost :: "float_ops \<Rightarrow> plan_join_method \<Rightarrow> u64 \<Rightarrow> u64 \<Rightarrow> u64" where
  "spec_join_cost fl method left_rows right_rows =
     (case method of
        PjHash \<Rightarrow> hash_join_cost fl left_rows right_rows
      | PjNestedLoop \<Rightarrow> nested_loop_join_cost fl left_rows right_rows
      | PjMerge \<Rightarrow> merge_join_cost fl left_rows right_rows)"

fun build_physical ::
    "float_ops \<Rightarrow> (string \<Rightarrow> bool) \<Rightarrow> logical_plan \<Rightarrow> stats_catalog \<Rightarrow> physical_plan" where
  "build_physical fl alnum (LpScan table predicate) stats =
     (let oper = choose_scan_op alnum table predicate stats;
          rows = scan_rows stats table; cols = estimate_column_count stats table;
          cost = (if is_index_scan oper then index_lookup_cost else seq_scan_cost fl rows (of_nat cols));
          est_rows = (if is_index_scan oper then 1 else rows)
      in PhysicalPlan oper cost est_rows)"
| "build_physical fl alnum (LpFilter input predicate) stats =
     (let child = build_physical fl alnum input stats; rows_in = pp_rows child
      in PhysicalPlan (PoFilter child predicate) (fo_add fl (pp_cost child) (filter_cost fl rows_in)) (tenth fl rows_in))"
| "build_physical fl alnum (LpProject input columns) stats =
     (let child = build_physical fl alnum input stats; rows = pp_rows child
      in PhysicalPlan (PoProject child columns)
           (fo_add fl (pp_cost child)
             (fo_mul fl (fo_mul fl (fo_of_u64 fl rows) (fo_of_int fl (int (length columns)))) f_0_001)) rows)"
| "build_physical fl alnum (LpSort input column) stats =
     (let child = build_physical fl alnum input stats; rows = pp_rows child
      in PhysicalPlan (PoSort child column) (fo_add fl (pp_cost child) (sort_cost fl rows)) rows)"
| "build_physical fl alnum (LpJoin l r condition) stats =
     (let left_plan = build_physical fl alnum l stats; right_plan = build_physical fl alnum r stats;
          method = choose_join_method_spec fl l r condition stats;
          cost = fo_add fl (fo_add fl (pp_cost left_plan) (pp_cost right_plan))
                   (spec_join_cost fl method (pp_rows left_plan) (pp_rows right_plan))
      in PhysicalPlan (PoJoin method left_plan right_plan condition) cost
           (joined_rows fl (pp_rows left_plan) (pp_rows right_plan)))"
| "build_physical fl alnum (LpAggregate input group_key aggs) stats =
     (let child = build_physical fl alnum input stats; rows_in = pp_rows child
      in PhysicalPlan (PoAggregate child group_key aggs)
           (fo_add fl (pp_cost child) (fo_mul fl (fo_of_u64 fl rows_in) f_0_02)) (group_rows fl rows_in))"
| "build_physical fl alnum (LpLimit input count) stats =
     (let child = build_physical fl alnum input stats
      in PhysicalPlan (PoLimit child count) (pp_cost child) (min (pp_rows child) count))"

definition plan_query ::
    "float_ops \<Rightarrow> (string \<Rightarrow> bool) \<Rightarrow> logical_plan \<Rightarrow> stats_catalog \<Rightarrow> physical_plan" where
  "plan_query fl alnum logical stats = build_physical fl alnum (push_down_filters alnum logical) stats"

section \<open>From the query language\<close>

fun op_symbol :: "binary_op \<Rightarrow> string" where
  "op_symbol OpEq = ''==''" | "op_symbol OpNe = ''!=''" | "op_symbol OpLt = ''<''"
| "op_symbol OpLe = ''<=''" | "op_symbol OpGt = ''>''" | "op_symbol OpGe = ''>=''"
| "op_symbol OpAnd = ''and''" | "op_symbol OpOr = ''or''" | "op_symbol OpAdd = ''+''"
| "op_symbol OpSub = ''-''" | "op_symbol OpMul = ''*''" | "op_symbol OpDiv = ''/''"

fun expr_to_predicate :: "(u64 \<Rightarrow> string) \<Rightarrow> expr \<Rightarrow> string" where
  "expr_to_predicate sf (ExColumn c) = c"
| "expr_to_predicate sf (ExI64 v) = show_int (sint v)"
| "expr_to_predicate sf (ExF64 v) = sf v"
| "expr_to_predicate sf (ExStr s) = CHR 0x22 # s @ [CHR 0x22]"
| "expr_to_predicate sf (ExBool b) = (if b then ''true'' else ''false'')"
| "expr_to_predicate sf (ExBinary bop l r) =
     expr_to_predicate sf l @ '' '' @ op_symbol bop @ '' '' @ expr_to_predicate sf r"
| "expr_to_predicate sf (ExCall name args) =
     name @ ''('' @ join_with '', '' (map (expr_to_predicate sf) args) @ '')''"
| "expr_to_predicate sf (ExIn v subquery) = expr_to_predicate sf v @ '' in ('' @ pipeline_display sf subquery @ '')''"

definition stage_to_logical :: "(u64 \<Rightarrow> string) \<Rightarrow> cenql_stage \<Rightarrow> logical_plan option \<Rightarrow> logical_plan" where
  "stage_to_logical sf stg plan =
     (case stg of
        SgFrom name \<Rightarrow> LpScan name None
      | _ \<Rightarrow>
          (case plan of
             None \<Rightarrow> LpScan ''_unknown'' None
           | Some input \<Rightarrow>
               (case stg of
                  SgFilter e \<Rightarrow> LpFilter input (expr_to_predicate sf e)
                | SgSelect columns \<Rightarrow> LpProject input columns
                | SgSort column dir \<Rightarrow> LpSort input column
                | SgTake n \<Rightarrow> LpLimit input n
                | SgJoin source jk on \<Rightarrow> LpJoin input (LpScan source None) (expr_to_predicate sf on)
                | _ \<Rightarrow> input)))"

definition cenql_to_logical :: "(u64 \<Rightarrow> string) \<Rightarrow> cenql_pipeline \<Rightarrow> logical_plan cen_result" where
  "cenql_to_logical sf p =
     (case fold (\<lambda>stg plan. Some (stage_to_logical sf stg plan)) (stages p) None of
        Some plan \<Rightarrow> Ok plan
      | None \<Rightarrow> Panic)"

section \<open>Explaining plans\<close>

text \<open>The indentation of a node and the estimate at its end; costs are printed by an argument.\<close>

definition explain_indent :: "nat \<Rightarrow> string" where
  "explain_indent depth = concat (replicate depth ''  '')"

definition explain_estimate :: "(u64 \<Rightarrow> string) \<Rightarrow> u64 \<Rightarrow> u64 \<Rightarrow> string" where
  "explain_estimate fmt2 cost rows = ''  (cost='' @ fmt2 cost @ '' rows='' @ show_nat (unat rows) @ '')'' @ [CHR 0x0A]"

fun explain_node :: "(u64 \<Rightarrow> string) \<Rightarrow> nat \<Rightarrow> physical_plan \<Rightarrow> string"
and explain_operator :: "(u64 \<Rightarrow> string) \<Rightarrow> nat \<Rightarrow> physical_operator \<Rightarrow> u64 \<Rightarrow> u64 \<Rightarrow> string" where
  "explain_node fmt2 depth (PhysicalPlan oper cost rows) =
     explain_indent depth @ explain_operator fmt2 depth oper cost rows"
| "explain_operator fmt2 depth (PoSeqScan table predicate) cost rows =
     ''SeqScan on '' @ table @ (case predicate of Some p \<Rightarrow> '' (filter: '' @ p @ '')'' | None \<Rightarrow> [])
     @ explain_estimate fmt2 cost rows"
| "explain_operator fmt2 depth (PoIndexScan table index k) cost rows =
     ''IndexScan on '' @ table @ '' using '' @ index @ explain_estimate fmt2 cost rows"
| "explain_operator fmt2 depth (PoFilter input predicate) cost rows =
     ''Filter: '' @ predicate @ explain_estimate fmt2 cost rows @ explain_node fmt2 (depth + 1) input"
| "explain_operator fmt2 depth (PoProject input columns) cost rows =
     ''Project: ['' @ join_with '', '' columns @ '']'' @ [CHR 0x0A] @ explain_node fmt2 (depth + 1) input"
| "explain_operator fmt2 depth (PoJoin method l r condition) cost rows =
     join_method_name method @ '' on '' @ condition @ explain_estimate fmt2 cost rows
     @ explain_node fmt2 (depth + 1) l @ explain_node fmt2 (depth + 1) r"
| "explain_operator fmt2 depth (PoSort input column) cost rows =
     ''Sort: '' @ column @ explain_estimate fmt2 cost rows @ explain_node fmt2 (depth + 1) input"
| "explain_operator fmt2 depth (PoAggregate input group_key aggs) cost rows =
     ''HashAggregate: group_by='' @ group_key @ '' aggs=['' @ join_with '', '' aggs @ '']'' @ [CHR 0x0A]
     @ explain_node fmt2 (depth + 1) input"
| "explain_operator fmt2 depth (PoLimit input count) cost rows =
     ''Limit: '' @ show_nat (unat count) @ [CHR 0x0A] @ explain_node fmt2 (depth + 1) input"

record explain_output =
  ex_plan_text :: string
  ex_estimated_cost :: u64
  ex_estimated_rows :: u64

definition explain :: "(u64 \<Rightarrow> string) \<Rightarrow> physical_plan \<Rightarrow> explain_output" where
  "explain fmt2 plan =
     \<lparr>ex_plan_text = explain_node fmt2 0 plan, ex_estimated_cost = pp_cost plan, ex_estimated_rows = pp_rows plan\<rparr>"

record explain_analyze_output = explain_output +
  ex_actual_rows :: u64
  ex_actual_time_us :: u64
  ex_loops :: u64

definition explain_analyze :: "(u64 \<Rightarrow> string) \<Rightarrow> physical_plan \<Rightarrow> u64 \<Rightarrow> u64 \<Rightarrow> explain_analyze_output" where
  "explain_analyze fmt2 plan actual_rows actual_time_us =
     \<lparr>ex_plan_text = explain_node fmt2 0 plan, ex_estimated_cost = pp_cost plan, ex_estimated_rows = pp_rows plan,
      ex_actual_rows = actual_rows, ex_actual_time_us = actual_time_us, ex_loops = 1\<rparr>"

section \<open>Words\<close>

fun grouped :: "string list \<Rightarrow> bool" where
  "grouped [] = True"
| "grouped (c # cs) =
     (c \<noteq> [] \<and> (if code (hd c) < 192 then tl c = []
                else (\<forall>b\<in>set (tl c). is_cont b) \<and> (cs = [] \<or> hd cs = [] \<or> \<not> is_cont (hd (hd cs)))) \<and> grouped cs)"

lemma utf8_chars_ne: "utf8_chars s = c # cs \<Longrightarrow> c \<noteq> [] \<and> s \<noteq> [] \<and> hd c = hd s"
  by (cases s) (auto simp: utf8_chars.simps split: if_splits)

lemma grouped_utf8_chars: "grouped (utf8_chars s)"
proof (induction s rule: utf8_chars.induct)
  case (2 b bs)
  have "utf8_chars (dropWhile is_cont bs) = [] \<or> \<not> is_cont (hd (hd (utf8_chars (dropWhile is_cont bs))))"
    using utf8_chars_ne [of "dropWhile is_cont bs"] hd_dropWhile [of is_cont bs]
    by (cases "utf8_chars (dropWhile is_cont bs)") auto
  then show ?case using 2 by (auto simp: utf8_chars.simps dest: set_takeWhileD)
qed (simp add: utf8_chars.simps)

lemma utf8_chars_grouped: "grouped cs \<Longrightarrow> utf8_chars (concat cs) = cs"
proof (induction cs)
  case (Cons c cs)
  obtain b bs where c: "c = b # bs" using Cons.prems by (cases c) auto
  show ?case
  proof (cases "code b < 192")
    case True
    then show ?thesis using Cons by (simp add: c utf8_chars.simps)
  next
    case False
    then have bs: "\<forall>b\<in>set bs. is_cont b" using Cons.prems by (simp add: c)
    have "takeWhile is_cont (bs @ r) = bs \<and> dropWhile is_cont (bs @ r) = r" if "r = [] \<or> \<not> is_cont (hd r)" for r
      using bs that by (cases r) (simp_all add: takeWhile_append2 dropWhile_append2)
    moreover have "concat cs = [] \<or> \<not> is_cont (hd (concat cs))"
      using Cons.prems False by (cases cs) (auto simp: c)
    ultimately show ?thesis using Cons False by (simp add: c utf8_chars.simps)
  qed
qed (simp add: utf8_chars.simps)

lemma grouped_append: "grouped (xs @ ys) \<Longrightarrow> grouped xs \<and> grouped ys"
  by (induction xs) (auto simp: hd_append split: if_splits)

lemma split_chars_ne: "split_chars sep cs \<noteq> []"
  by (induction cs) (auto split: list.splits)

lemma split_chars_first:
  "\<exists>gs ys. cs = gs @ ys \<and> hd (split_chars sep cs) = concat gs \<and> (\<forall>g\<in>set gs. \<not> sep g)"
proof (induction cs)
  case (Cons c cs)
  then obtain gs ys where gs: "cs = gs @ ys" "hd (split_chars sep cs) = concat gs" "\<forall>g\<in>set gs. \<not> sep g" by blast
  show ?case
  proof (cases "sep c")
    case True
    then show ?thesis by (intro exI [of _ "[]"] exI [of _ "c # cs"]) simp
  next
    case False
    then have "c # cs = (c # gs) @ ys" "hd (split_chars sep (c # cs)) = concat (c # gs)" "\<forall>g\<in>set (c # gs). \<not> sep g"
      using gs split_chars_ne [of sep cs] by (auto split: list.splits)
    then show ?thesis by blast
  qed
qed simp

lemma split_chars_infix:
  "w \<in> set (split_chars sep cs) \<Longrightarrow> \<exists>xs gs ys. cs = xs @ gs @ ys \<and> w = concat gs \<and> (\<forall>g\<in>set gs. \<not> sep g)"
proof (induction cs)
  case (Cons c cs)
  show ?case
  proof (cases "w \<in> set (split_chars sep cs)")
    case True
    then obtain xs gs ys where "cs = xs @ gs @ ys" "w = concat gs" "\<forall>g\<in>set gs. \<not> sep g" using Cons.IH by blast
    then have "c # cs = (c # xs) @ gs @ ys" "w = concat gs" "\<forall>g\<in>set gs. \<not> sep g" by simp_all
    then show ?thesis by blast
  next
    case False
    then have "w = hd (split_chars sep (c # cs))"
      using Cons.prems split_chars_ne [of sep cs] by (auto split: if_splits list.splits)
    then show ?thesis using split_chars_first [of "c # cs" sep] by (metis append_Nil)
  qed
qed simp

definition unbroken :: "(string \<Rightarrow> bool) \<Rightarrow> string \<Rightarrow> bool" where
  "unbroken sep w \<longleftrightarrow> w \<noteq> [] \<and> (\<forall>c\<in>set (utf8_chars w). \<not> sep c)"

lemma pieces_unbroken: "w \<in> set (pieces sep s) \<Longrightarrow> unbroken sep w"
proof -
  assume w: "w \<in> set (pieces sep s)"
  then obtain xs gs ys where g: "utf8_chars s = xs @ gs @ ys" "w = concat gs" "\<forall>g\<in>set gs. \<not> sep g"
    using split_chars_infix [of w sep "utf8_chars s"] by (auto simp: pieces_def)
  then have "grouped gs" using grouped_utf8_chars [of s] grouped_append by metis
  then show ?thesis using w g utf8_chars_grouped by (auto simp: unbroken_def pieces_def)
qed

lemma concat_utf8_chars: "concat (utf8_chars s) = s"
  by (induction s rule: utf8_chars.induct) (simp_all add: utf8_chars.simps)

lemma pieces_word: "unbroken sep w \<Longrightarrow> pieces sep w = [w]"
proof -
  assume w: "unbroken sep w"
  have "\<forall>c\<in>set cs. \<not> sep c \<Longrightarrow> split_chars sep cs = [concat cs]" for cs by (induction cs) auto
  then show ?thesis using w by (simp add: pieces_def unbroken_def concat_utf8_chars)
qed

lemma utf8_chars_sep: "code a < 128 \<Longrightarrow> utf8_chars (s @ a # t) = utf8_chars s @ [a] # utf8_chars t"
proof (induction s rule: utf8_chars.induct)
  case (2 b bs)
  have a: "\<not> is_cont a" using "2.prems" by (simp add: is_cont_def)
  then have "takeWhile is_cont (bs @ a # t) = takeWhile is_cont bs"
    "dropWhile is_cont (bs @ a # t) = dropWhile is_cont bs @ a # t"
    by (induction bs) auto
  then show ?case using 2 by (simp add: utf8_chars.simps)
qed (simp add: utf8_chars.simps)

lemma pieces_sep: "code a < 128 \<Longrightarrow> sep [a] \<Longrightarrow> pieces sep (s @ a # t) = pieces sep s @ pieces sep t"
proof -
  assume a: "code a < 128" "sep [a]"
  have "split_chars sep (cs @ [a] # ds) = split_chars sep cs @ split_chars sep ds" for cs ds
    using a(2) split_chars_ne [of sep] by (induction cs) (auto split: list.splits simp: Cons_eq_append_conv)
  then show ?thesis using a(1) by (simp add: pieces_def utf8_chars_sep)
qed

lemma pieces_nil [simp]: "pieces sep [] = []"
  by (simp add: pieces_def utf8_chars.simps)

lemma words_space: "whitespace_words (s @ '' '' @ t) = whitespace_words s @ whitespace_words t"
  using pieces_sep [of "CHR '' ''" is_whitespace s t] by (simp add: whitespace_words_def is_whitespace_def)

lemma words_join: "\<forall>w\<in>set ws. unbroken is_whitespace w \<Longrightarrow> whitespace_words (join_with '' '' ws) = ws"
proof (induction ws rule: induct_list012)
  case (2 w)
  then show ?case by (simp add: whitespace_words_def pieces_word)
next
  case (3 w v ws)
  then show ?case using words_space [of w "join_with '' '' (v # ws)"] by (simp add: whitespace_words_def pieces_word)
qed (simp add: whitespace_words_def)

section \<open>Conjuncts\<close>

text \<open>The words of the conjuncts of a sequence of words.\<close>

definition add_to_group :: "string list list \<Rightarrow> string \<Rightarrow> string list list" where
  "add_to_group acc w =
     (if is_and_word w then acc @ [[]] else if acc = [] then [[w]] else butlast acc @ [last acc @ [w]])"

definition conjunct_words :: "string list \<Rightarrow> string list list" where
  "conjunct_words ws = filter (\<lambda>g. g \<noteq> []) (foldl add_to_group [] ws)"

lemma join_with_snoc: "ws \<noteq> [] \<Longrightarrow> join_with sep (ws @ [w]) = join_with sep ws @ sep @ w"
  by (induction sep ws rule: join_with.induct) auto

lemma join_with_empty: "\<forall>w\<in>set ws. w \<noteq> [] \<Longrightarrow> join_with sep ws = [] \<longleftrightarrow> ws = []"
  by (induction sep ws rule: join_with.induct) auto

lemma foldl_add_word:
  "\<forall>w\<in>set ws. w \<noteq> [] \<Longrightarrow> \<forall>g\<in>set acc. \<forall>w\<in>set g. w \<noteq> [] \<Longrightarrow>
     foldl add_word (map (join_with '' '') acc) ws = map (join_with '' '') (foldl add_to_group acc ws)
     \<and> (\<forall>g\<in>set (foldl add_to_group acc ws). \<forall>w\<in>set g. w \<noteq> [])"
proof (induction ws arbitrary: acc)
  case (Cons w ws)
  have "add_word (map (join_with '' '') acc) w = map (join_with '' '') (add_to_group acc w)"
  proof (cases "acc = [] \<or> is_and_word w")
    case False
    then have "\<forall>v\<in>set (last acc). v \<noteq> []" using Cons.prems(2) last_in_set [of acc] by blast
    then show ?thesis using False join_with_snoc [of "last acc" "'' ''" w]
      by (auto simp: add_word_def add_to_group_def join_with_empty last_map simp flip: map_butlast)
  qed (auto simp: add_word_def add_to_group_def)
  moreover have "\<forall>g\<in>set (add_to_group acc w). \<forall>w\<in>set g. w \<noteq> []"
    using Cons.prems by (auto simp: add_to_group_def dest: in_set_butlastD)
  ultimately show ?case using Cons.IH [of "add_to_group acc w"] Cons.prems(1) by simp
qed simp

lemma words_nonempty: "w \<in> set (whitespace_words p) \<Longrightarrow> w \<noteq> []"
  by (auto simp: whitespace_words_def pieces_def)

lemma split_and_words: "split_and p = map (join_with '' '') (conjunct_words (whitespace_words p))"
proof -
  have "foldl add_word [] (whitespace_words p) = map (join_with '' '') (foldl add_to_group [] (whitespace_words p))"
    "\<forall>g\<in>set (foldl add_to_group [] (whitespace_words p)). \<forall>w\<in>set g. w \<noteq> []"
    using foldl_add_word [of "whitespace_words p" "[]"] words_nonempty by auto
  then show ?thesis
    by (simp add: split_and_def conjunct_words_def filter_map o_def) (auto simp: join_with_empty intro!: filter_cong arg_cong [of _ _ "map _"])
qed

lemma foldl_add_group: "foldl add_to_group (A @ [g]) ws = A @ foldl add_to_group [g] ws"
proof (induction ws arbitrary: A g)
  case (Cons w ws)
  show ?case
  proof (cases "is_and_word w")
    case True
    then show ?thesis using Cons [of "A @ [g]" "[]"] Cons [of "[g]" "[]"] by (simp add: add_to_group_def)
  next
    case False
    then show ?thesis using Cons [of A "g @ [w]"] by (simp add: add_to_group_def)
  qed
qed simp

lemma foldl_add_group_start:
  "filter (\<lambda>g. g \<noteq> []) (foldl add_to_group [[]] ws) = filter (\<lambda>g. g \<noteq> []) (foldl add_to_group [] ws)"
proof (cases ws)
  case (Cons w vs)
  then show ?thesis using foldl_add_group [of "[[]]" "[]" vs] by (simp add: add_to_group_def)
qed simp

lemma conjunct_words_and:
  assumes "is_and_word a"
  shows "conjunct_words (us @ a # vs) = conjunct_words us @ conjunct_words vs"
  using assms foldl_add_group [of "foldl add_to_group [] us" "[]" vs] foldl_add_group_start [of vs]
  by (simp add: conjunct_words_def add_to_group_def)

lemma and_unbroken: "unbroken is_whitespace ''and''"
  by (simp add: unbroken_def utf8_chars.simps is_whitespace_def)

lemma and_is_and_word: "is_and_word ''and''"
  by (simp add: is_and_word_def to_lowercase_def lower_char_def)

lemma split_and_and: "split_and (p @ '' and '' @ q) = split_and p @ split_and q"
proof -
  have one: "whitespace_words ''and'' = [''and'']"
    unfolding whitespace_words_def by (rule pieces_word [OF and_unbroken])
  have "whitespace_words (p @ '' and '' @ q) = whitespace_words p @ (''and'' # whitespace_words q)"
    using words_space [of p "''and'' @ '' '' @ q"] words_space [of "''and''" q] one by simp
  then show ?thesis
    by (simp only: split_and_words conjunct_words_and [OF and_is_and_word] map_append)
qed

section \<open>Index scans\<close>

fun uses_index :: "physical_plan \<Rightarrow> bool" and operator_uses_index :: "physical_operator \<Rightarrow> bool" where
  "uses_index (PhysicalPlan oper cost rows) = operator_uses_index oper"
| "operator_uses_index (PoSeqScan table predicate) = False"
| "operator_uses_index (PoIndexScan table index k) = True"
| "operator_uses_index (PoFilter input predicate) = uses_index input"
| "operator_uses_index (PoProject input columns) = uses_index input"
| "operator_uses_index (PoJoin method l r condition) = (uses_index l \<or> uses_index r)"
| "operator_uses_index (PoSort input column) = uses_index input"
| "operator_uses_index (PoAggregate input group_key aggs) = uses_index input"
| "operator_uses_index (PoLimit input count) = uses_index input"

fun plain_scans :: "logical_plan \<Rightarrow> bool" where
  "plain_scans (LpScan t p) = (p = None)"
| "plain_scans (LpJoin l r c) = (plain_scans l \<and> plain_scans r)"
| "plain_scans (LpFilter q s) = plain_scans q"
| "plain_scans (LpProject q cols) = plain_scans q"
| "plain_scans (LpSort q c) = plain_scans q"
| "plain_scans (LpAggregate q k aggs) = plain_scans q"
| "plain_scans (LpLimit q n) = plain_scans q"

lemma push_plain_scans:
  "plain_scans (push_down_filters alnum p) = plain_scans p"
  "plain_scans (push_filter_into alnum q s) = plain_scans q"
  by (induction alnum p and alnum q s rule: push_down_filters_push_filter_into.induct)
    (simp_all add: push_down_filters.simps push_filter_into.simps Let_def)

lemma build_physical_plain: "plain_scans p \<Longrightarrow> \<not> uses_index (build_physical fl alnum p stats)"
  by (induction p) (simp_all add: Let_def choose_scan_op_def)

lemma stage_plain: "(\<forall>p\<in>set_option plan. plain_scans p) \<Longrightarrow> plain_scans (stage_to_logical sf stg plan)"
  by (cases stg; cases plan) (simp_all add: stage_to_logical_def)

lemma cenql_plain: "cenql_to_logical sf p = Ok plan \<Longrightarrow> plain_scans plan"
proof -
  have "\<forall>q\<in>set_option acc. plain_scans q \<Longrightarrow>
      \<forall>q\<in>set_option (fold (\<lambda>stg plan. Some (stage_to_logical sf stg plan)) ss acc). plain_scans q" for ss acc
  proof (induction ss arbitrary: acc)
    case (Cons stg ss)
    show ?case using Cons.IH [of "Some (stage_to_logical sf stg acc)"] stage_plain [OF Cons.prems] by simp
  qed simp
  from this [of None "stages p"] show "cenql_to_logical sf p = Ok plan \<Longrightarrow> plain_scans plan"
    by (auto simp: cenql_to_logical_def split: option.splits)
qed

lemma fold_some: "ss \<noteq> [] \<Longrightarrow> \<exists>plan. fold (\<lambda>s plan. Some (f s plan)) ss acc = Some plan"
  by (induction ss rule: rev_induct) auto

lemma cenql_to_logical_total: "wf_pipeline pf p \<Longrightarrow> \<exists>plan. cenql_to_logical sf p = Ok plan"
  using fold_some [of "stages p" "stage_to_logical sf" None]
  by (cases p) (auto simp: cenql_to_logical_def split: list.splits)

section \<open>Properties\<close>

definition sample_query :: cenql_pipeline where
  "sample_query = Pipeline
     [SgFrom ''users'',
      SgJoin ''orders'' KindInner (ExBinary OpEq (ExColumn ''users.id'') (ExColumn ''orders.uid'')),
      SgFilter (ExBinary OpOr (ExBinary OpEq (ExColumn ''users.a'') (ExI64 1))
        (ExBinary OpAnd (ExBinary OpEq (ExColumn ''users.b'') (ExI64 2)) (ExBinary OpEq (ExColumn ''orders.c'') (ExI64 3))))]"

definition sample_plan :: logical_plan where
  "sample_plan = LpFilter
     (LpJoin (LpScan ''users'' None) (LpScan ''orders'' None) ''users.id == orders.uid'')
     ''users.a == 1 or users.b == 2 and orders.c == 3''"

lemma sample_logical: "cenql_to_logical sf sample_query = Ok sample_plan"
  by (simp add: cenql_to_logical_def sample_query_def sample_plan_def stage_to_logical_def show_int_def show_nat.simps)
    code_simp

definition sample_floats :: float_ops where
  "sample_floats = \<lparr>fo_add = (+), fo_sub = (-), fo_mul = (*), fo_div = (div), fo_max = max, fo_sqrt = id, fo_log2 = id,
     fo_of_int = of_int, fo_to_u64 = id\<rparr>"

text \<open>
  Indexes are never used for a parsed query: whatever indexes are registered, the plan of a pipeline
  contains sequential scans only, since neither the conversion of pipelines nor the push-down of
  filters ever gives a scan a predicate.
\<close>

lemma queries_never_use_indexes:
  assumes "cenql_to_logical sf p = Ok plan"
  shows "\<not> uses_index (plan_query fl alnum plan stats)"
  using cenql_plain [OF assms] by (simp add: plan_query_def build_physical_plain push_plain_scans)

lemma queries_never_use_indexes_witness:
  "\<not> uses_index (plan_query sample_floats (\<lambda>_. False) sample_plan (register_index ''users'' ''a'' ''idx'' catalog_new))"
  by (rule queries_never_use_indexes [OF sample_logical [of "\<lambda>_. []"]])

text \<open>C24:
  Predicates lose their parentheses on the way to the optimizer: a disjunction with a conjunction and
  the conjunction with the disjunction become the same text, and the optimizer reads that text as the
  conjunction. For the query with the condition \<open>users.a == 1 or (users.b == 2 and orders.c == 3)\<close>
  it filters the orders by \<open>orders.c == 3\<close> below the join, which drops rows that the query asks for.
\<close>

theorem disjunction_planned_as_conjunction:
  "expr_to_predicate sf (ExBinary OpOr a (ExBinary OpAnd b c)) = expr_to_predicate sf (ExBinary OpAnd (ExBinary OpOr a b) c)
   \<and> (\<exists>plan. cenql_to_logical sf sample_query = Ok plan
      \<and> push_down_filters alnum plan =
        LpJoin (LpFilter (LpScan ''users'' None) ''users.a == 1 or users.b == 2'')
          (LpFilter (LpScan ''orders'' None) ''orders.c == 3'') ''users.id == orders.uid'')"
proof -
  have parts: "split_and ''users.a == 1 or users.b == 2 and orders.c == 3'' = [''users.a == 1 or users.b == 2'', ''orders.c == 3'']"
    by code_simp
  have tokens: "predicate_tokens alnum ''users.a == 1 or users.b == 2'' = [''users.a'', ''1'', ''or'', ''users.b'', ''2'']"
    "predicate_tokens alnum ''orders.c == 3'' = [''orders.c'', ''3'']"
    by (simp_all add: predicate_tokens_def pieces_def utf8_chars.simps is_token_char_def is_ascii_alphanumeric_def
        is_ascii_alphabetic_def is_ascii_digit_def)
  have tables: "table_names (LpScan t None) = [t]" for t by (simp add: table_names_def)
  let ?side = "side_conjuncts alnum ''users.a == 1 or users.b == 2 and orders.c == 3'' (LpScan ''users'' None) (LpScan ''orders'' None)"
  have "?side (Some True) = [''users.a == 1 or users.b == 2'']" "?side (Some False) = [''orders.c == 3'']" "?side None = []"
    by (simp_all add: side_conjuncts_def parts conjunct_side_def tokens tables token_table_def)
  then have "push_down_filters alnum sample_plan =
        LpJoin (LpFilter (LpScan ''users'' None) ''users.a == 1 or users.b == 2'')
          (LpFilter (LpScan ''orders'' None) ''orders.c == 3'') ''users.id == orders.uid''"
    by (simp add: sample_plan_def push_down_filters.simps push_filter_into.simps Let_def join_and_def)
  then show ?thesis by (simp add: sample_logical)
qed

text \<open>The push-down splits string literals at the word \<open>and\<close>.\<close>

lemma literal_split_at_and:
  "split_and (''t.name == '' @ [CHR 0x22] @ ''black and white'' @ [CHR 0x22]) =
     [''t.name == '' @ [CHR 0x22] @ ''black'', ''white'' @ [CHR 0x22]]"
  by code_simp

text \<open>The kind of a join and the direction of a sort do not reach the plan.\<close>

lemma plan_forgets_kind_and_direction:
  "stage_to_logical sf (SgJoin src k1 e) plan = stage_to_logical sf (SgJoin src k2 e) plan"
  "stage_to_logical sf (SgSort c d1) plan = stage_to_logical sf (SgSort c d2) plan"
  by (cases plan; simp add: stage_to_logical_def)+

end
