(* ===== verification/PlanRows.thy ===== *)
theory PlanRows
  imports Optimizer Executor
begin

text \<open>
  What the optimizer's plans compute (\<open>cendb-optimizer/src/plan.rs\<close>). Queries get a meaning on
  the expressions of the parsed pipeline, physical plans one on their operators and the texts of their
  predicates, and the plan chosen for a query refines the query. Rows are not ordered by a join, so
  both meanings are sets of possible results.
\<close>

section \<open>Rows and conditions\<close>

text \<open>A row has a record for each table it comes from; a record has a value for each field.\<close>

type_synonym table_record = "(string \<times> cen_value) list"
type_synonym plan_row = "(string \<times> table_record) list"
type_synonym database = "string \<Rightarrow> table_record list"

definition scan_table :: "database \<Rightarrow> string \<Rightarrow> plan_row list" where
  "scan_table db t = map (\<lambda>x. [(t, x)]) (db t)"

text \<open>A qualified column is a field of its table; an unqualified one belongs to the only table of the
  row that has such a field.\<close>

definition column_ref :: "plan_row \<Rightarrow> string \<Rightarrow> cen_value" where
  "column_ref row c =
     (case split_dot c of
        Some (t, k) \<Rightarrow> (case Option.bind (map_of row t) (\<lambda>x. map_of x k) of Some v \<Rightarrow> v | None \<Rightarrow> VNull)
      | None \<Rightarrow> (case filter (\<lambda>(t, x). map_of x c \<noteq> None) row of [(t, x)] \<Rightarrow> the (map_of x c) | _ \<Rightarrow> VNull))"

fun operand_value :: "plan_row \<Rightarrow> expr \<Rightarrow> cen_value" where
  "operand_value row (ExColumn c) = column_ref row c"
| "operand_value row (ExI64 v) = VI64 v"
| "operand_value row (ExF64 v) = VF64 v"
| "operand_value row (ExStr s) = VBytes (map of_char s)"
| "operand_value row (ExBool b) = VBool b"
| "operand_value row _ = VNull"

text \<open>Conjunctions of comparisons, with the comparisons of SQL.\<close>

fun holds :: "plan_row \<Rightarrow> expr \<Rightarrow> bool" where
  "holds row (ExBinary bop a b) =
     (if bop = OpAnd then holds row a \<and> holds row b
      else sql_compare bop (operand_value row a) (operand_value row b) = Some True)"
| "holds row _ = False"

fun conjuncts :: "expr \<Rightarrow> expr list" where
  "conjuncts (ExBinary bop a b) = (if bop = OpAnd then conjuncts a @ conjuncts b else [ExBinary bop a b])"
| "conjuncts e = [e]"

section \<open>What a query asks for\<close>

definition row_pairs :: "(plan_row \<Rightarrow> bool) \<Rightarrow> plan_row list \<Rightarrow> plan_row list \<Rightarrow> plan_row list" where
  "row_pairs cond A B = concat (map (\<lambda>a. filter cond (map (\<lambda>b. a @ b) B)) A)"

text \<open>A join returns its pairs in any order.\<close>

definition join_results ::
    "(plan_row \<Rightarrow> bool) \<Rightarrow> plan_row list set \<Rightarrow> plan_row list set \<Rightarrow> plan_row list set" where
  "join_results cond S T = (\<Union>A\<in>S. \<Union>B\<in>T. {R. mset R = mset (row_pairs cond A B)})"

definition project_row :: "string list \<Rightarrow> plan_row \<Rightarrow> plan_row" where
  "project_row cols row =
     map (\<lambda>(t, x). (t, filter (\<lambda>(k, v). k \<in> set cols \<or> t @ ''.'' @ k \<in> set cols) x)) row"

definition sort_rows :: "sort_dir \<Rightarrow> string \<Rightarrow> plan_row list \<Rightarrow> plan_row list" where
  "sort_rows dir c rows = sort_by (directed dir (\<lambda>r. column_ref r c)) rows"

text \<open>The possible results after a stage, of those before it, for the stages that plans express.\<close>

fun stage_results :: "database \<Rightarrow> cenql_stage \<Rightarrow> plan_row list set \<Rightarrow> plan_row list set" where
  "stage_results db (SgFrom t) S = {scan_table db t}"
| "stage_results db (SgFilter e) S = filter (\<lambda>r. holds r e) ` S"
| "stage_results db (SgSelect cols) S = map (project_row cols) ` S"
| "stage_results db (SgSort c dir) S = sort_rows dir c ` S"
| "stage_results db (SgTake n) S = take (unat n) ` S"
| "stage_results db (SgJoin t jk e) S = join_results (\<lambda>r. holds r e) S {scan_table db t}"
| "stage_results db _ S = {}"

definition query_results :: "database \<Rightarrow> cenql_pipeline \<Rightarrow> plan_row list set" where
  "query_results db p = fold (stage_results db) (stages p) {}"

section \<open>What a plan computes\<close>

text \<open>
  Nothing in the repository reads the predicate of a plan back, so its reading is an argument. A
  nested loop yields its pairs in order, the other joins in any order. An index scan keeps a column but
  no predicate, so it computes nothing that a query could ask for.
\<close>

fun plan_results :: "database \<Rightarrow> (string \<Rightarrow> plan_row \<Rightarrow> bool) \<Rightarrow> physical_plan \<Rightarrow> plan_row list set"
and operator_results :: "database \<Rightarrow> (string \<Rightarrow> plan_row \<Rightarrow> bool) \<Rightarrow> physical_operator \<Rightarrow> plan_row list set" where
  "plan_results db rd (PhysicalPlan oper cost rows) = operator_results db rd oper"
| "operator_results db rd (PoSeqScan t p) =
     {case p of None \<Rightarrow> scan_table db t | Some s \<Rightarrow> filter (rd s) (scan_table db t)}"
| "operator_results db rd (PoIndexScan t index k) = {}"
| "operator_results db rd (PoFilter q s) = filter (rd s) ` plan_results db rd q"
| "operator_results db rd (PoProject q cols) = map (project_row cols) ` plan_results db rd q"
| "operator_results db rd (PoJoin method l r s) =
     (case method of
        PjNestedLoop \<Rightarrow> (\<Union>A\<in>plan_results db rd l. row_pairs (rd s) A ` plan_results db rd r)
      | _ \<Rightarrow> join_results (rd s) (plan_results db rd l) (plan_results db rd r))"
| "operator_results db rd (PoSort q c) = sort_rows DirAsc c ` plan_results db rd q"
| "operator_results db rd (PoAggregate q k aggs) = {}"
| "operator_results db rd (PoLimit q n) = take (unat n) ` plan_results db rd q"

text \<open>The operators fit: a hash join has a condition with an equality, and there are no merge joins,
  whose inputs a plan does not show to be ordered by the join columns, and no index scans.\<close>

definition is_equality :: "expr \<Rightarrow> bool" where
  "is_equality e \<longleftrightarrow> (case e of ExBinary bop a b \<Rightarrow> bop = OpEq | _ \<Rightarrow> False)"

definition join_fits :: "(u64 \<Rightarrow> string) \<Rightarrow> plan_join_method \<Rightarrow> string \<Rightarrow> bool" where
  "join_fits sf method s \<longleftrightarrow>
     (case method of
        PjNestedLoop \<Rightarrow> True
      | PjHash \<Rightarrow> \<exists>e. s = expr_to_predicate sf e \<and> (\<exists>c\<in>set (conjuncts e). is_equality c)
      | PjMerge \<Rightarrow> False)"

fun operators_fit :: "(u64 \<Rightarrow> string) \<Rightarrow> physical_plan \<Rightarrow> bool"
and operator_fits :: "(u64 \<Rightarrow> string) \<Rightarrow> physical_operator \<Rightarrow> bool" where
  "operators_fit sf (PhysicalPlan oper cost rows) = operator_fits sf oper"
| "operator_fits sf (PoSeqScan t p) = True"
| "operator_fits sf (PoIndexScan t index k) = False"
| "operator_fits sf (PoFilter q s) = operators_fit sf q"
| "operator_fits sf (PoProject q cols) = operators_fit sf q"
| "operator_fits sf (PoJoin method l r s) = (operators_fit sf l \<and> operators_fit sf r \<and> join_fits sf method s)"
| "operator_fits sf (PoSort q c) = operators_fit sf q"
| "operator_fits sf (PoAggregate q k aggs) = operators_fit sf q"
| "operator_fits sf (PoLimit q n) = operators_fit sf q"

section \<open>The queries whose text says what they mean\<close>

text \<open>
  Comparisons of columns and literals whose text is one word each: no white space, no equals sign and
  not the word \<open>and\<close>. The text of any other condition may be read differently.
\<close>

fun is_operand :: "expr \<Rightarrow> bool" where
  "is_operand (ExColumn _) = True" | "is_operand (ExI64 _) = True" | "is_operand (ExF64 _) = True"
| "is_operand (ExStr _) = True" | "is_operand (ExBool _) = True" | "is_operand _ = False"

definition plain_word :: "string \<Rightarrow> bool" where
  "plain_word w \<longleftrightarrow> unbroken is_whitespace w \<and> \<not> is_and_word w \<and> CHR ''='' \<notin> set w"

fun plain_comparison :: "(u64 \<Rightarrow> string) \<Rightarrow> expr \<Rightarrow> bool" where
  "plain_comparison sf (ExBinary bop a b) =
     (bop \<in> {OpEq, OpNe, OpLt, OpLe, OpGt, OpGe} \<and> is_operand a \<and> is_operand b
      \<and> plain_word (expr_to_predicate sf a) \<and> plain_word (expr_to_predicate sf b))"
| "plain_comparison sf _ = False"

text \<open>A comparison can be placed in a plan when all its columns are qualified, or it names no table.\<close>

definition is_qualified :: "string \<Rightarrow> bool" where
  "is_qualified c \<longleftrightarrow> (\<exists>t k. c = t @ CHR ''.'' # k \<and> is_word t \<and> (\<forall>b\<in>set k. is_ident_char b \<or> b = CHR ''.''))"

fun columns_in :: "expr \<Rightarrow> string list" where
  "columns_in (ExColumn c) = [c]"
| "columns_in (ExBinary bop a b) = columns_in a @ columns_in b"
| "columns_in _ = []"

definition names_table :: "(string \<Rightarrow> bool) \<Rightarrow> string \<Rightarrow> string \<Rightarrow> bool" where
  "names_table alnum s t \<longleftrightarrow> t \<in> set (map token_table (predicate_tokens alnum s))"

definition placed :: "(u64 \<Rightarrow> string) \<Rightarrow> (string \<Rightarrow> bool) \<Rightarrow> string set \<Rightarrow> expr \<Rightarrow> bool" where
  "placed sf alnum T e \<longleftrightarrow> (\<forall>c\<in>set (columns_in e). is_qualified c)
     \<or> (\<forall>t\<in>T. \<not> names_table alnum (expr_to_predicate sf e) t)"

fun stage_tables :: "cenql_stage \<Rightarrow> string set" where
  "stage_tables (SgFrom t) = {t}" | "stage_tables (SgJoin t _ _) = {t}" | "stage_tables _ = {}"

fun stage_conditions :: "cenql_stage \<Rightarrow> expr list" where
  "stage_conditions (SgFilter e) = conjuncts e" | "stage_conditions (SgJoin _ _ e) = conjuncts e"
| "stage_conditions _ = []"

text \<open>The comparisons of a query, and the queries that a plan can express.\<close>

definition query_comparisons :: "cenql_pipeline \<Rightarrow> expr set" where
  "query_comparisons p = (\<Union>s\<in>set (stages p). set (stage_conditions s))"

fun plain_stage :: "(u64 \<Rightarrow> string) \<Rightarrow> (string \<Rightarrow> bool) \<Rightarrow> string set \<Rightarrow> cenql_stage \<Rightarrow> bool" where
  "plain_stage sf alnum T (SgFilter e) = (\<forall>c\<in>set (conjuncts e). plain_comparison sf c \<and> placed sf alnum T c)"
| "plain_stage sf alnum T (SgJoin t jk e) = (jk = KindInner \<and> (\<forall>c\<in>set (conjuncts e). plain_comparison sf c))"
| "plain_stage sf alnum T (SgSelect cols) = True"
| "plain_stage sf alnum T (SgSort c dir) = (dir = DirAsc)"
| "plain_stage sf alnum T (SgTake n) = True"
| "plain_stage sf alnum T _ = False"

definition plain_query :: "(u64 \<Rightarrow> string) \<Rightarrow> (string \<Rightarrow> bool) \<Rightarrow> cenql_pipeline \<Rightarrow> bool" where
  "plain_query sf alnum p \<longleftrightarrow>
     (case stages p of
        SgFrom t # ss \<Rightarrow> \<forall>s\<in>set ss. plain_stage sf alnum (\<Union>(stage_tables ` set (stages p))) s
      | _ \<Rightarrow> False)"

text \<open>The reading of predicates agrees with the expressions on the conjunctions of some comparisons.\<close>

definition reads_conditions :: "(u64 \<Rightarrow> string) \<Rightarrow> (string \<Rightarrow> plan_row \<Rightarrow> bool) \<Rightarrow> expr set \<Rightarrow> bool" where
  "reads_conditions sf rd C \<longleftrightarrow>
     (\<forall>e r. set (conjuncts e) \<subseteq> C \<longrightarrow> rd (expr_to_predicate sf e) r = holds r e)"

section \<open>The text of conditions\<close>

definition cond_text :: "(u64 \<Rightarrow> string) \<Rightarrow> expr list \<Rightarrow> string" where
  "cond_text sf cs = join_and (map (expr_to_predicate sf) cs)"

lemma conjuncts_ne [simp]: "conjuncts e \<noteq> []"
  by (induction e rule: conjuncts.induct) auto

lemma join_and_append: "xs \<noteq> [] \<Longrightarrow> ys \<noteq> [] \<Longrightarrow> join_and (xs @ ys) = join_and xs @ '' and '' @ join_and ys"
proof (induction xs rule: induct_list012)
  case (2 x)
  then show ?case by (cases ys) (simp_all add: join_and_def)
qed (simp_all add: join_and_def)

lemma conjuncts_text: "expr_to_predicate sf e = cond_text sf (conjuncts e)"
proof (induction e rule: conjuncts.induct)
  case (1 bop a b)
  then show ?case by (auto simp: cond_text_def join_and_append) (simp add: join_and_def)
qed (simp_all add: cond_text_def join_and_def)

lemma holds_conjuncts: "holds r e \<longleftrightarrow> (\<forall>c\<in>set (conjuncts e). holds r c)"
  by (induction e rule: conjuncts.induct) auto

lemma plain_conjunct: "plain_comparison sf c \<Longrightarrow> conjuncts c = [c]"
  by (cases c) auto

text \<open>The conjunction of comparisons, as an expression.\<close>

fun and_chain :: "expr list \<Rightarrow> expr" where
  "and_chain [] = ExBool True"
| "and_chain [c] = c"
| "and_chain (c # d # cs) = ExBinary OpAnd c (and_chain (d # cs))"

lemma conjuncts_chain: "cs \<noteq> [] \<Longrightarrow> \<forall>c\<in>set cs. plain_comparison sf c \<Longrightarrow> conjuncts (and_chain cs) = cs"
  by (induction cs rule: and_chain.induct) (auto simp: plain_conjunct)

lemma reads_cond_text:
  assumes "reads_conditions sf rd C" "\<forall>c\<in>C. plain_comparison sf c" "cs \<noteq> []" "set cs \<subseteq> C"
  shows "rd (cond_text sf cs) r = (\<forall>c\<in>set cs. holds r c)"
proof -
  have c: "conjuncts (and_chain cs) = cs" using assms(2-4) by (intro conjuncts_chain) auto
  have "rd (expr_to_predicate sf (and_chain cs)) r = holds r (and_chain cs)"
    using assms(1,4) c by (simp add: reads_conditions_def)
  then show ?thesis using c holds_conjuncts [of r "and_chain cs"] conjuncts_text [of sf "and_chain cs"] by simp
qed

lemma op_symbol_plain:
  "unbroken is_whitespace (op_symbol bop)" "bop \<noteq> OpAnd \<Longrightarrow> \<not> is_and_word (op_symbol bop)"
  by (cases bop; simp add: unbroken_def utf8_chars.simps is_whitespace_def)
    (cases bop; simp add: is_and_word_def to_lowercase_def lower_char_def)

lemma plain_conjunct_words: "plain_comparison sf c \<Longrightarrow> split_and (expr_to_predicate sf c) = [expr_to_predicate sf c]"
proof (induction sf c rule: plain_comparison.induct)
  case (1 sf bop a b)
  let ?ws = "[expr_to_predicate sf a, op_symbol bop, expr_to_predicate sf b]"
  have "bop \<noteq> OpAnd" using 1 by auto
  then have plain: "\<forall>w\<in>set ?ws. unbroken is_whitespace w \<and> \<not> is_and_word w"
    using 1 op_symbol_plain [of bop] by (auto simp: plain_word_def)
  then have "whitespace_words (join_with '' '' ?ws) = ?ws" by (intro words_join) auto
  moreover have "conjunct_words ?ws = [?ws]" using plain by (simp add: conjunct_words_def add_to_group_def)
  ultimately show ?case by (simp add: split_and_words)
qed simp_all

lemma split_cond_text:
  "\<forall>c\<in>set cs. plain_comparison sf c \<Longrightarrow> split_and (cond_text sf cs) = map (expr_to_predicate sf) cs"
proof (induction cs rule: induct_list012)
  case 1
  then show ?case by (simp add: cond_text_def join_and_def split_and_def whitespace_words_def)
next
  case (2 c)
  then show ?case by (simp add: cond_text_def join_and_def plain_conjunct_words)
next
  case (3 c d cs)
  have "cond_text sf (c # d # cs) = expr_to_predicate sf c @ '' and '' @ cond_text sf (d # cs)"
    by (simp add: cond_text_def join_and_def)
  then have "split_and (cond_text sf (c # d # cs)) = split_and (expr_to_predicate sf c) @ split_and (cond_text sf (d # cs))"
    by (simp only: split_and_and)
  then show ?case using 3 by (simp add: plain_conjunct_words)
qed

lemma cond_text_append: "xs \<noteq> [] \<Longrightarrow> ys \<noteq> [] \<Longrightarrow> cond_text sf (xs @ ys) = cond_text sf xs @ '' and '' @ cond_text sf ys"
  by (simp add: cond_text_def join_and_append)

subsection \<open>Equality signs\<close>

fun eqeq :: "string \<Rightarrow> bool" where
  "eqeq (a # b # s) = (a = CHR ''='' \<and> b = CHR ''='' \<or> eqeq (b # s))"
| "eqeq _ = False"

lemma eqeq_sublist: "sublist ''=='' s \<longleftrightarrow> eqeq s"
proof (induction s rule: eqeq.induct)
  case (1 a b s)
  then show ?case by (auto simp: sublist_Cons_right)
qed (auto simp: sublist_Cons_right)

lemma eqeq_space: "eqeq (x @ CHR '' '' # y) \<longleftrightarrow> eqeq x \<or> eqeq y"
  by (induction x rule: eqeq.induct; cases y) auto

lemma replace_space: "replace_neq (x @ CHR '' '' # y) = replace_neq x @ CHR '' '' # replace_neq y"
  by (induction x rule: replace_neq.induct; cases y) auto

lemma replace_plain: "CHR ''='' \<notin> set w \<Longrightarrow> \<not> eqeq (replace_neq w)"
proof -
  assume w: "CHR ''='' \<notin> set w"
  have "\<not> eqeq v" if "CHR ''='' \<notin> set v" for v using that by (induction v rule: eqeq.induct) auto
  moreover have "replace_neq w = w" using w by (induction w rule: replace_neq.induct) auto
  ultimately show ?thesis using w by simp
qed

lemma equi_comparison:
  "plain_comparison sf c \<Longrightarrow> eqeq (replace_neq (expr_to_predicate sf c)) \<longleftrightarrow> is_equality c"
proof (induction sf c rule: plain_comparison.induct)
  case (1 sf bop a b)
  have "\<not> eqeq (replace_neq (expr_to_predicate sf a))" "\<not> eqeq (replace_neq (expr_to_predicate sf b))"
    using 1 by (auto simp: plain_word_def replace_plain)
  moreover have "eqeq (replace_neq (op_symbol bop)) \<longleftrightarrow> bop = OpEq" by (cases bop) simp_all
  ultimately show ?case by (simp add: replace_space eqeq_space is_equality_def)
qed simp_all

lemma equi_cond_text:
  "\<forall>c\<in>set cs. plain_comparison sf c \<Longrightarrow> is_equi_join (cond_text sf cs) \<longleftrightarrow> (\<exists>c\<in>set cs. is_equality c)"
  unfolding is_equi_join_def eqeq_sublist
proof (induction cs rule: induct_list012)
  case (3 c d cs)
  have "cond_text sf (c # d # cs) = expr_to_predicate sf c @ CHR '' '' # ''and'' @ CHR '' '' # cond_text sf (d # cs)"
    by (simp add: cond_text_def join_and_def)
  moreover have "\<not> eqeq (replace_neq ''and'')" by simp
  ultimately show ?case using 3 by (simp only: replace_space eqeq_space) (simp add: equi_comparison)
qed (simp_all add: cond_text_def join_and_def equi_comparison)

subsection \<open>Tables in conditions\<close>

lemma token_table_qualified: "is_word t \<Longrightarrow> token_table (t @ CHR ''.'' # k) = t"
proof -
  assume "is_word t"
  then have "CHR ''.'' \<notin> set t"
    by (auto simp: is_word_def is_ident_char_def is_ascii_alphanumeric_def is_ascii_alphabetic_def is_ascii_digit_def)
  then have "\<exists>ws. split_at CHR ''.'' (t @ CHR ''.'' # k) = t # ws" by (induction t) auto
  then show ?thesis by (auto simp: token_table_def)
qed

lemma split_dot_qualified: "is_word t \<Longrightarrow> split_dot (t @ CHR ''.'' # k) = Some (t, k)"
proof -
  assume "is_word t"
  then have "\<forall>b\<in>set t. b \<noteq> CHR ''.''"
    by (auto simp: is_word_def is_ident_char_def is_ascii_alphanumeric_def is_ascii_alphabetic_def is_ascii_digit_def)
  then show ?thesis by (simp add: split_dot_def takeWhile_append2 dropWhile_append2)
qed

lemma utf8_ascii: "\<forall>b\<in>set w. code b < 128 \<Longrightarrow> utf8_chars w = map (\<lambda>b. [b]) w"
  by (induction w) (auto simp: utf8_chars.simps)

lemma qualified_token: "is_qualified c \<Longrightarrow> predicate_tokens alnum c = [c]"
proof -
  assume "is_qualified c"
  then have "\<forall>b\<in>set c. is_ident_char b \<or> b = CHR ''.''" "c \<noteq> []"
    by (auto simp: is_qualified_def is_word_def)
  moreover have "is_ident_char b \<Longrightarrow> code b < 128 \<and> is_token_char alnum [b]" for b
    using ident_char_ascii [of b] by (auto simp: is_token_char_def is_ident_char_def)
  moreover have "is_token_char alnum ''.''" "code CHR ''.'' < 128" by (simp_all add: is_token_char_def)
  ultimately have "\<forall>b\<in>set c. code b < 128 \<and> is_token_char alnum [b]" by metis
  then have "unbroken (\<lambda>b. \<not> is_token_char alnum b) c"
    using \<open>c \<noteq> []\<close> utf8_ascii [of c] by (auto simp: unbroken_def)
  then show ?thesis unfolding predicate_tokens_def by (rule pieces_word)
qed

lemma tokens_space: "predicate_tokens alnum (x @ CHR '' '' # y) = predicate_tokens alnum x @ predicate_tokens alnum y"
  unfolding predicate_tokens_def
  by (rule pieces_sep) (simp_all add: is_token_char_def is_ascii_alphanumeric_def is_ascii_alphabetic_def is_ascii_digit_def)

lemma names_column_table:
  assumes "plain_comparison sf e" "c \<in> set (columns_in e)" "is_qualified c"
  shows "names_table alnum (expr_to_predicate sf e) (token_table c)"
proof -
  obtain bop a b where e: "e = ExBinary bop a b" "is_operand a" "is_operand b" using assms(1) by (cases e) auto
  then have "a = ExColumn c \<or> b = ExColumn c" using assms(2) by (cases a; cases b) auto
  then have "c \<in> set (predicate_tokens alnum (expr_to_predicate sf e))"
    using qualified_token [OF assms(3), of alnum] by (auto simp: e(1) tokens_space)
  then show ?thesis by (auto simp: names_table_def)
qed

section \<open>Joins and filters\<close>

lemma filter_permutations:
  "filter K ` {R. mset R = mset M} = {R. mset R = mset (filter K M)}"
proof (intro set_eqI iffI)
  fix S assume "S \<in> {R. mset R = mset (filter K M)}"
  then have S: "mset S = mset (filter K M)" by simp
  then have "set S = set (filter K M)" by (rule mset_eq_setD)
  then have "\<forall>r\<in>set S. K r" by simp
  moreover have "mset (S @ filter (\<lambda>r. \<not> K r) M) = mset M" using S by simp
  ultimately show "S \<in> filter K ` {R. mset R = mset M}"
    by (intro image_eqI [of _ _ "S @ filter (\<lambda>r. \<not> K r) M"]) (simp_all add: filter_empty_conv)
qed (auto simp: mset_filter)

lemma filter_row_pairs:
  assumes "\<And>a b. a \<in> set A \<Longrightarrow> b \<in> set B \<Longrightarrow> K (a @ b) \<longleftrightarrow> L a \<and> R b \<and> T (a @ b)"
  shows "filter K (row_pairs cond A B) = filter T (row_pairs cond (filter L A) (filter R B))"
proof -
  have row: "filter K (filter cond (map (\<lambda>b. a @ b) B')) =
      (if L a then filter T (filter cond (map (\<lambda>b. a @ b) (filter R B'))) else [])"
    if "a \<in> set A" "set B' \<subseteq> set B" for a B'
    using that(2)
  proof (induction B')
    case (Cons b B')
    then show ?case using assms [OF that(1), of b] by simp
  qed simp
  have "filter K (row_pairs cond A' B) = filter T (row_pairs cond (filter L A') (filter R B))"
    if "set A' \<subseteq> set A" for A'
    using that
  proof (induction A')
    case (Cons a A')
    then show ?case using row [of a B] by (simp add: row_pairs_def)
  qed (simp add: row_pairs_def)
  then show ?thesis by simp
qed

lemma filter_join_results:
  assumes "\<And>A B a b. A \<in> S \<Longrightarrow> B \<in> S' \<Longrightarrow> a \<in> set A \<Longrightarrow> b \<in> set B \<Longrightarrow> K (a @ b) \<longleftrightarrow> L a \<and> R b \<and> T (a @ b)"
  shows "filter K ` join_results cond S S' = filter T ` join_results cond (filter L ` S) (filter R ` S')"
proof -
  have "filter K (row_pairs cond A B) = filter T (row_pairs cond (filter L A) (filter R B))"
    if "A \<in> S" "B \<in> S'" for A B
    by (rule filter_row_pairs) (rule assms [OF that])
  then show ?thesis
    unfolding join_results_def image_UN filter_permutations by simp
qed

lemma filter_all [simp]: "filter (\<lambda>_. True) ` S = S"
  by simp

section \<open>Logical plans\<close>

fun logical_results :: "database \<Rightarrow> (string \<Rightarrow> plan_row \<Rightarrow> bool) \<Rightarrow> logical_plan \<Rightarrow> plan_row list set" where
  "logical_results db rd (LpScan t p) =
     {case p of None \<Rightarrow> scan_table db t | Some s \<Rightarrow> filter (rd s) (scan_table db t)}"
| "logical_results db rd (LpFilter q s) = filter (rd s) ` logical_results db rd q"
| "logical_results db rd (LpProject q cols) = map (project_row cols) ` logical_results db rd q"
| "logical_results db rd (LpJoin l r s) = join_results (rd s) (logical_results db rd l) (logical_results db rd r)"
| "logical_results db rd (LpSort q c) = sort_rows DirAsc c ` logical_results db rd q"
| "logical_results db rd (LpAggregate q k aggs) = {}"
| "logical_results db rd (LpLimit q n) = take (unat n) ` logical_results db rd q"

text \<open>The plans of queries: scans without a predicate, filters that can be placed, and right sides of
  joins that are not sorted.\<close>

fun plain_plan :: "(u64 \<Rightarrow> string) \<Rightarrow> (string \<Rightarrow> bool) \<Rightarrow> string set \<Rightarrow> expr set \<Rightarrow> logical_plan \<Rightarrow> bool" where
  "plain_plan sf alnum T C (LpScan t p) = (p = None \<and> t \<in> T)"
| "plain_plan sf alnum T C (LpFilter q s) =
     (plain_plan sf alnum T C q \<and> (\<exists>cs. cs \<noteq> [] \<and> s = cond_text sf cs \<and> set cs \<subseteq> {c \<in> C. placed sf alnum T c}))"
| "plain_plan sf alnum T C (LpProject q cols) = plain_plan sf alnum T C q"
| "plain_plan sf alnum T C (LpJoin l r s) =
     (plain_plan sf alnum T C l \<and> plain_plan sf alnum T C r \<and> \<not> is_sorted r
      \<and> (\<exists>cs. cs \<noteq> [] \<and> s = cond_text sf cs \<and> set cs \<subseteq> C))"
| "plain_plan sf alnum T C (LpSort q c) = plain_plan sf alnum T C q"
| "plain_plan sf alnum T C (LpAggregate q k aggs) = False"
| "plain_plan sf alnum T C (LpLimit q n) = plain_plan sf alnum T C q"

fun plan_tables :: "logical_plan \<Rightarrow> string set" where
  "plan_tables (LpScan t p) = {t}"
| "plan_tables (LpJoin l r c) = plan_tables l \<union> plan_tables r"
| "plan_tables (LpFilter q s) = plan_tables q"
| "plan_tables (LpProject q cols) = plan_tables q"
| "plan_tables (LpSort q c) = plan_tables q"
| "plan_tables (LpAggregate q k aggs) = plan_tables q"
| "plan_tables (LpLimit q n) = plan_tables q"

lemma set_table_names_into: "set (table_names_into p out) = set out \<union> plan_tables p"
  by (induction p arbitrary: out) auto

lemma set_table_names: "set (table_names p) = plan_tables p"
  by (simp add: table_names_def set_table_names_into)

lemma plain_plan_tables: "plain_plan sf alnum T C p \<Longrightarrow> set (table_names p) \<subseteq> T"
  unfolding set_table_names by (induction p) auto

lemma row_pairs_member: "r \<in> set (row_pairs cond A B) \<Longrightarrow> \<exists>a\<in>set A. \<exists>b\<in>set B. r = a @ b"
  by (auto simp: row_pairs_def)

lemma sort_rows_set: "set (sort_rows dir c R) = set R"
  unfolding sort_rows_def by (metis mset_sort_by set_mset_mset)

lemma logical_results_tables:
  "R \<in> logical_results db rd p \<Longrightarrow> row \<in> set R \<Longrightarrow> fst ` set row \<subseteq> set (table_names p)"
  unfolding set_table_names
proof (induction p arbitrary: R row)
  case (LpScan t p)
  then show ?case by (auto simp: scan_table_def split: option.splits)
next
  case (LpProject q cols)
  then obtain R' row' where r: "R' \<in> logical_results db rd q" "row' \<in> set R'" "row = project_row cols row'" by auto
  have "fst ` set (project_row cols row') = fst ` set row'" by (force simp: project_row_def)
  then show ?case using LpProject.IH [OF r(1,2)] r(3) by simp
next
  case (LpJoin l r s)
  then obtain A B where AB: "A \<in> logical_results db rd l" "B \<in> logical_results db rd r"
    "mset R = mset (row_pairs (rd s) A B)" by (auto simp: join_results_def)
  have "row \<in> set (row_pairs (rd s) A B)" using LpJoin.prems(2) mset_eq_setD [OF AB(3)] by simp
  then obtain a b where ab: "a \<in> set A" "b \<in> set B" "row = a @ b" using row_pairs_member by blast
  show ?case using LpJoin.IH(1) [OF AB(1) ab(1)] LpJoin.IH(2) [OF AB(2) ab(2)] ab(3) by auto
next
  case (LpFilter q s)
  then obtain R' where "R' \<in> logical_results db rd q" "row \<in> set R'" by auto
  then show ?case using LpFilter.IH by simp
next
  case (LpSort q c)
  then obtain R' where "R' \<in> logical_results db rd q" "row \<in> set R'" by (auto simp: sort_rows_set)
  then show ?case using LpSort.IH by simp
next
  case (LpLimit q n)
  then show ?case by (auto dest!: in_set_takeD)
qed auto

section \<open>Pushing filters\<close>

lemma conjunct_side_names:
  "conjunct_side alnum s lt rt = Some True \<Longrightarrow> names_table alnum s t \<Longrightarrow> t \<notin> set rt"
  "conjunct_side alnum s lt rt = Some False \<Longrightarrow> names_table alnum s t \<Longrightarrow> t \<notin> set lt"
  "conjunct_side alnum s lt rt \<noteq> None \<Longrightarrow> \<exists>t\<in>set lt \<union> set rt. names_table alnum s t"
  by (auto simp: conjunct_side_def names_table_def Let_def split: bool.splits)

lemma operand_value_cong:
  "is_operand e \<Longrightarrow> (\<And>c. c \<in> set (columns_in e) \<Longrightarrow> column_ref row c = column_ref row' c) \<Longrightarrow>
     operand_value row e = operand_value row' e"
  by (cases e) simp_all

lemma holds_cong:
  assumes "plain_comparison sf e" "\<And>c. c \<in> set (columns_in e) \<Longrightarrow> column_ref row c = column_ref row' c"
  shows "holds row e = holds row' e"
proof -
  obtain bop a b where e: "e = ExBinary bop a b" "bop \<noteq> OpAnd" "is_operand a" "is_operand b"
    using assms(1) by (cases e) auto
  then show ?thesis
    using assms(2) operand_value_cong [OF e(3), of row row'] operand_value_cong [OF e(4), of row row'] by simp
qed

lemma column_ref_side:
  assumes "is_qualified c"
  shows "token_table c \<notin> fst ` set b \<Longrightarrow> column_ref (a @ b) c = column_ref a c"
    and "token_table c \<notin> fst ` set a \<Longrightarrow> column_ref (a @ b) c = column_ref b c"
proof -
  obtain t k where c: "c = t @ CHR ''.'' # k" "is_word t" using assms by (auto simp: is_qualified_def)
  have none: "map_of row t = None" if "t \<notin> fst ` set row" for row :: plan_row
    using that by (simp add: map_of_eq_None_iff)
  show "token_table c \<notin> fst ` set b \<Longrightarrow> column_ref (a @ b) c = column_ref a c"
    "token_table c \<notin> fst ` set a \<Longrightarrow> column_ref (a @ b) c = column_ref b c"
    using none [of a] none [of b]
    by (auto simp: column_ref_def c split_dot_qualified token_table_qualified map_add_def split: option.split)
qed

lemma holds_side:
  assumes "plain_comparison sf c" "placed sf alnum T c" "set lt \<union> set rt \<subseteq> T"
    and "fst ` set a \<subseteq> set lt" "fst ` set b \<subseteq> set rt"
  shows "conjunct_side alnum (expr_to_predicate sf c) lt rt = Some True \<Longrightarrow> holds (a @ b) c = holds a c"
    and "conjunct_side alnum (expr_to_predicate sf c) lt rt = Some False \<Longrightarrow> holds (a @ b) c = holds b c"
proof -
  let ?s = "expr_to_predicate sf c"
  have q: "is_qualified k \<and> names_table alnum ?s (token_table k)"
    if "conjunct_side alnum ?s lt rt \<noteq> None" "k \<in> set (columns_in c)" for k
    using conjunct_side_names(3) [OF that(1)] assms(2,3) that(2) names_column_table [OF assms(1) that(2)]
    by (auto simp: placed_def)
  show "holds (a @ b) c = holds a c" if s: "conjunct_side alnum ?s lt rt = Some True"
    using q s conjunct_side_names(1) [OF s] assms(5)
    by (intro holds_cong [OF assms(1)] column_ref_side(1)) blast+
  show "holds (a @ b) c = holds b c" if s: "conjunct_side alnum ?s lt rt = Some False"
    using q s conjunct_side_names(2) [OF s] assms(4)
    by (intro holds_cong [OF assms(1)] column_ref_side(2)) blast+
qed

lemma is_sorted_push:
  "\<not> is_sorted p \<Longrightarrow> \<not> is_sorted (push_down_filters alnum p)"
  "\<not> is_sorted (push_filter_into alnum q s)"
  by (induction alnum p and alnum q s rule: push_down_filters_push_filter_into.induct)
    (simp_all add: push_down_filters.simps push_filter_into.simps Let_def)

lemma side_conjuncts_cond:
  assumes "\<forall>c\<in>set cs. plain_comparison sf c"
  shows "side_conjuncts alnum (cond_text sf cs) l r side = map (expr_to_predicate sf)
    (filter (\<lambda>c. conjunct_side alnum (expr_to_predicate sf c) (table_names l) (table_names r) = side) cs)"
  using split_cond_text [OF assms] by (simp add: side_conjuncts_def filter_map o_def)

text \<open>The comparisons of a filter above a join that go to a side of it, or stay.\<close>

abbreviation of_side ::
    "(u64 \<Rightarrow> string) \<Rightarrow> (string \<Rightarrow> bool) \<Rightarrow> logical_plan \<Rightarrow> logical_plan \<Rightarrow> bool option \<Rightarrow> expr list \<Rightarrow> expr list" where
  "of_side sf alnum l r side cs \<equiv>
     filter (\<lambda>c. conjunct_side alnum (expr_to_predicate sf c) (table_names l) (table_names r) = side) cs"

abbreviation all_hold :: "expr list \<Rightarrow> plan_row \<Rightarrow> bool" where
  "all_hold cs r \<equiv> \<forall>c\<in>set cs. holds r c"

lemma filter_join_sides:
  assumes cs: "\<forall>c\<in>set cs. plain_comparison sf c \<and> placed sf alnum T c"
    and plain: "plain_plan sf alnum T C l" "plain_plan sf alnum T C r"
  shows "filter (all_hold cs) ` join_results cond (logical_results db rd l) (logical_results db rd r) =
    filter (all_hold (of_side sf alnum l r None cs)) ` join_results cond
      (filter (all_hold (of_side sf alnum l r (Some True) cs)) ` logical_results db rd l)
      (filter (all_hold (of_side sf alnum l r (Some False) cs)) ` logical_results db rd r)"
proof (rule filter_join_results)
  fix A B a b
  assume AB: "A \<in> logical_results db rd l" "B \<in> logical_results db rd r" "a \<in> set A" "b \<in> set B"
  have T: "set (table_names l) \<union> set (table_names r) \<subseteq> T" using plain plain_plan_tables by blast
  note ab = logical_results_tables [OF AB(1,3)] logical_results_tables [OF AB(2,4)]
  let ?side = "\<lambda>c. conjunct_side alnum (expr_to_predicate sf c) (table_names l) (table_names r)"
  have "?side c = Some True \<Longrightarrow> holds (a @ b) c = holds a c" "?side c = Some False \<Longrightarrow> holds (a @ b) c = holds b c"
    if "c \<in> set cs" for c
    using holds_side [of sf c alnum T, OF _ _ T ab] cs that by blast+
  then have "all_hold cs (a @ b) \<longleftrightarrow> (\<forall>c\<in>set cs. (?side c = Some True \<longrightarrow> holds a c)
      \<and> (?side c = Some False \<longrightarrow> holds b c) \<and> (?side c = None \<longrightarrow> holds (a @ b) c))"
    by (metis option.exhaust)
  then show "all_hold cs (a @ b) \<longleftrightarrow> all_hold (of_side sf alnum l r (Some True) cs) a
      \<and> all_hold (of_side sf alnum l r (Some False) cs) b \<and> all_hold (of_side sf alnum l r None cs) (a @ b)"
    by auto
qed

definition pushes_ok where
  "pushes_ok sf alnum T C db rd p S \<longleftrightarrow> plain_plan sf alnum T C p \<and> logical_results db rd p = S"

lemma pushes_ok_if:
  assumes "pushes_ok sf alnum T C db rd p S"
    and "cs \<noteq> [] \<Longrightarrow> pushes_ok sf alnum T C db rd p' (filter (all_hold cs) ` S)"
  shows "pushes_ok sf alnum T C db rd (if cs = [] then p else p') (filter (all_hold cs) ` S)"
  using assms by (cases cs) simp_all

lemma pushes_ok_filter:
  assumes reads: "reads_conditions sf rd C" and C: "\<forall>c\<in>C. plain_comparison sf c"
    and p: "pushes_ok sf alnum T C db rd p S" and cs: "set cs \<subseteq> {c \<in> C. placed sf alnum T c}"
  shows "pushes_ok sf alnum T C db rd (if cs = [] then p else LpFilter p (cond_text sf cs)) (filter (all_hold cs) ` S)"
proof (cases "cs = []")
  case False
  then have "rd (cond_text sf cs) = all_hold cs"
    using reads_cond_text [OF reads C False] cs by (auto simp: fun_eq_iff)
  then show ?thesis using False p cs by (auto simp: pushes_ok_def)
qed (use p in simp)

lemma filter_stays:
  assumes "reads_conditions sf rd C" "\<forall>c\<in>C. plain_comparison sf c"
    and "plain_plan sf alnum T C q" "s = cond_text sf cs" "cs \<noteq> []" "set cs \<subseteq> {c \<in> C. placed sf alnum T c}"
  shows "pushes_ok sf alnum T C db rd (LpFilter q s) (filter (all_hold cs) ` logical_results db rd q)"
  using pushes_ok_filter [OF assms(1,2) _ assms(6), where p = q and db = db and S = "logical_results db rd q"] assms(3-5)
  by (simp add: pushes_ok_def)

lemma push_keeps_results:
  assumes reads: "reads_conditions sf rd C" and C: "\<forall>c\<in>C. plain_comparison sf c"
  shows "plain_plan sf alnum T C p \<Longrightarrow> pushes_ok sf alnum T C db rd (push_down_filters alnum p) (logical_results db rd p)"
    and "plain_plan sf alnum T C q \<Longrightarrow> s = cond_text sf cs \<Longrightarrow> cs \<noteq> [] \<Longrightarrow> set cs \<subseteq> {c \<in> C. placed sf alnum T c} \<Longrightarrow>
      pushes_ok sf alnum T C db rd (push_filter_into alnum q s) (filter (all_hold cs) ` logical_results db rd q)"
proof (induction alnum p and alnum q s arbitrary: and cs rule: push_down_filters_push_filter_into.induct)
  case (1 alnum q s)
  then obtain cs where cs: "cs \<noteq> []" "s = cond_text sf cs" "set cs \<subseteq> {c \<in> C. placed sf alnum T c}" by auto
  have "rd s = all_hold cs" using reads_cond_text [OF reads C cs(1)] cs(2,3) by (auto simp: fun_eq_iff)
  then show ?case using 1 cs by (auto simp: push_down_filters.simps pushes_ok_def)
next
  case (8 alnum l r condition s)
  let ?cs = "\<lambda>side. of_side sf alnum l r side cs"
  let ?ok = "pushes_ok sf alnum T C db rd"
  have pl: "plain_plan sf alnum T C l" "plain_plan sf alnum T C r" "\<not> is_sorted r" using 8(7) by auto
  have sub: "set (?cs side) \<subseteq> {c \<in> C. placed sf alnum T c}" for side using 8(10) by auto
  have plain: "\<forall>c\<in>set cs. plain_comparison sf c" using 8(10) C by auto
  have side: "side_conjuncts alnum s l r side = [] \<longleftrightarrow> ?cs side = []"
    "join_and (side_conjuncts alnum s l r side) = cond_text sf (?cs side)" for side
    using side_conjuncts_cond [OF plain, of alnum l r side] 8(8) by (simp_all add: cond_text_def)
  have l1: "?ok (push_down_filters alnum l) (logical_results db rd l)"
    using 8(1) [OF refl refl refl] 8(2) [OF refl refl refl] pl by (cases "?cs (Some True) = []") (simp_all add: side)
  have r1: "?ok (push_down_filters alnum r) (logical_results db rd r)"
    using 8(4) [OF refl refl refl refl] 8(5) [OF refl refl refl refl] pl by (cases "?cs (Some False) = []") (simp_all add: side)
  have l2: "?ok (push_filter_into alnum (push_down_filters alnum l) (cond_text sf (?cs (Some True))))
      (filter (all_hold (?cs (Some True))) ` logical_results db rd l)" if "?cs (Some True) \<noteq> []"
    using 8(3) [OF refl refl refl _ _ side(2) that sub] l1 that by (simp add: pushes_ok_def side)
  have r2: "?ok (push_filter_into alnum (push_down_filters alnum r) (cond_text sf (?cs (Some False))))
      (filter (all_hold (?cs (Some False))) ` logical_results db rd r)" if "?cs (Some False) \<noteq> []"
    using 8(6) [OF refl refl refl refl _ _ side(2) that sub] r1 that by (simp add: pushes_ok_def side)
  let ?left = "if ?cs (Some True) = [] then push_down_filters alnum l
      else push_filter_into alnum (push_down_filters alnum l) (cond_text sf (?cs (Some True)))"
  let ?right = "if ?cs (Some False) = [] then push_down_filters alnum r
      else push_filter_into alnum (push_down_filters alnum r) (cond_text sf (?cs (Some False)))"
  let ?join = "LpJoin ?left ?right condition"
  have new: "push_filter_into alnum (LpJoin l r condition) s
      = (if ?cs None = [] then ?join else LpFilter ?join (cond_text sf (?cs None)))"
    by (simp only: push_filter_into.simps Let_def side)
  have ok: "?ok ?left (filter (all_hold (?cs (Some True))) ` logical_results db rd l)"
    by (rule pushes_ok_if [OF l1]) (rule l2)
  have ok': "?ok ?right (filter (all_hold (?cs (Some False))) ` logical_results db rd r)"
    by (rule pushes_ok_if [OF r1]) (rule r2)
  have "\<not> is_sorted ?right" using is_sorted_push pl(3) by simp
  then have join: "?ok ?join (join_results (rd condition)
      (filter (all_hold (?cs (Some True))) ` logical_results db rd l)
      (filter (all_hold (?cs (Some False))) ` logical_results db rd r))"
    using ok ok' 8(7) unfolding pushes_ok_def by simp
  have eq: "filter (all_hold cs) ` logical_results db rd (LpJoin l r condition) =
      filter (all_hold (?cs None)) ` join_results (rd condition)
        (filter (all_hold (?cs (Some True))) ` logical_results db rd l)
        (filter (all_hold (?cs (Some False))) ` logical_results db rd r)"
    unfolding logical_results.simps by (rule filter_join_sides [OF _ pl(1,2)]) (use plain 8(10) in auto)
  show ?case unfolding new eq by (rule pushes_ok_filter [OF reads C join sub])
next
  case (9 alnum inner inner_pred s)
  then obtain ds where ds: "ds \<noteq> []" "inner_pred = cond_text sf ds" "set ds \<subseteq> {c \<in> C. placed sf alnum T c}" by auto
  have "rd inner_pred = all_hold ds" using reads_cond_text [OF reads C ds(1)] ds(2,3) by (auto simp: fun_eq_iff)
  then have eq: "filter (all_hold cs) ` logical_results db rd (LpFilter inner inner_pred)
      = filter (all_hold (ds @ cs)) ` logical_results db rd inner"
    by (simp add: image_image ball_Un conj_commute)
  have merged: "inner_pred @ '' and '' @ s = cond_text sf (ds @ cs)"
    using ds(1,2) 9(3,4) by (simp add: cond_text_append)
  show ?case unfolding push_filter_into.simps eq
    by (rule 9(1) [OF _ merged]) (use 9(2,5) ds in auto)
qed (simp_all only: push_filter_into.simps filter_stays [OF reads C] simp_thms, auto simp: push_down_filters.simps pushes_ok_def is_sorted_push)

section \<open>From queries to logical plans\<close>

definition plans_query where
  "plans_query sf alnum T C db rd plan S \<longleftrightarrow>
     (\<exists>q. plan = Some q \<and> plain_plan sf alnum T C q \<and> logical_results db rd q = S)"

lemma stage_plans_query:
  assumes reads: "reads_conditions sf rd C" and C: "\<forall>c\<in>C. plain_comparison sf c"
    and acc: "plans_query sf alnum T C db rd plan S"
    and stg: "plain_stage sf alnum T stg" "stage_tables stg \<subseteq> T" "set (stage_conditions stg) \<subseteq> C"
  shows "plans_query sf alnum T C db rd (Some (stage_to_logical sf stg plan)) (stage_results db stg S)"
proof -
  obtain q where q: "plan = Some q" "plain_plan sf alnum T C q" "logical_results db rd q = S"
    using acc by (auto simp: plans_query_def)
  have read: "rd (expr_to_predicate sf e) = (\<lambda>r. holds r e)" if "set (conjuncts e) \<subseteq> C" for e
    using reads that by (auto simp: reads_conditions_def)
  show ?thesis
  proof (cases stg)
    case (SgFilter e)
    then have cs: "set (conjuncts e) \<subseteq> {c \<in> C. placed sf alnum T c}" using stg by auto
    have "\<exists>cs. cs \<noteq> [] \<and> expr_to_predicate sf e = cond_text sf cs \<and> set cs \<subseteq> {c \<in> C. placed sf alnum T c}"
      using cs conjuncts_text by (intro exI [of _ "conjuncts e"]) auto
    moreover have "set (conjuncts e) \<subseteq> C" using cs by auto
    ultimately show ?thesis using q SgFilter by (simp add: plans_query_def stage_to_logical_def read)
  next
    case (SgJoin t jk e)
    then have cs: "set (conjuncts e) \<subseteq> C" using stg by auto
    have "\<exists>cs. cs \<noteq> [] \<and> expr_to_predicate sf e = cond_text sf cs \<and> set cs \<subseteq> C"
      using cs conjuncts_text by (intro exI [of _ "conjuncts e"]) auto
    then show ?thesis using q SgJoin stg cs by (simp add: plans_query_def stage_to_logical_def read)
  qed (use q stg in \<open>auto simp: plans_query_def stage_to_logical_def\<close>)
qed

lemma stages_plan_query:
  assumes reads: "reads_conditions sf rd C" and C: "\<forall>c\<in>C. plain_comparison sf c"
  shows "plans_query sf alnum T C db rd plan S \<Longrightarrow>
     \<forall>s\<in>set ss. plain_stage sf alnum T s \<and> stage_tables s \<subseteq> T \<and> set (stage_conditions s) \<subseteq> C \<Longrightarrow>
     plans_query sf alnum T C db rd (fold (\<lambda>stg plan. Some (stage_to_logical sf stg plan)) ss plan)
       (fold (stage_results db) ss S)"
proof (induction ss arbitrary: plan S)
  case (Cons s ss)
  then show ?case using stage_plans_query [OF reads C Cons.prems(1), of s] by simp
qed simp

lemma plain_query_comparisons: "plain_query sf alnum p \<Longrightarrow> \<forall>c\<in>query_comparisons p. plain_comparison sf c"
proof
  fix c assume p: "plain_query sf alnum p" and "c \<in> query_comparisons p"
  then obtain stg where s: "stg \<in> set (stages p)" "c \<in> set (stage_conditions stg)" by (auto simp: query_comparisons_def)
  obtain t ss where ss: "stages p = SgFrom t # ss" using p
    by (auto simp: plain_query_def split: list.splits cenql_stage.splits)
  then have "stg \<in> set ss" using s by auto
  then have "plain_stage sf alnum (\<Union>(stage_tables ` set (stages p))) stg" using p by (simp add: plain_query_def ss)
  then show "plain_comparison sf c" using s(2) by (cases stg) auto
qed

lemma cenql_to_logical_results:
  assumes p: "plain_query sf alnum p" and reads: "reads_conditions sf rd (query_comparisons p)"
  defines "T \<equiv> \<Union>(stage_tables ` set (stages p))"
  shows "\<exists>plan. cenql_to_logical sf p = Ok plan \<and> plain_plan sf alnum T (query_comparisons p) plan
    \<and> logical_results db rd plan = query_results db p"
proof -
  obtain t ss where ss: "stages p = SgFrom t # ss" "\<forall>s\<in>set ss. plain_stage sf alnum T s"
    using p unfolding plain_query_def T_def by (auto split: list.splits cenql_stage.splits)
  have "plans_query sf alnum T (query_comparisons p) db rd (Some (LpScan t None)) {scan_table db t}"
    using ss(1) by (auto simp: plans_query_def T_def)
  moreover have "\<forall>s\<in>set ss. plain_stage sf alnum T s \<and> stage_tables s \<subseteq> T \<and> set (stage_conditions s) \<subseteq> query_comparisons p"
    using ss by (auto simp: T_def query_comparisons_def)
  ultimately have "plans_query sf alnum T (query_comparisons p) db rd
      (fold (\<lambda>stg plan. Some (stage_to_logical sf stg plan)) ss (Some (LpScan t None)))
      (fold (stage_results db) ss {scan_table db t})"
    by (rule stages_plan_query [OF reads plain_query_comparisons [OF p]])
  then show ?thesis
    by (auto simp: plans_query_def cenql_to_logical_def query_results_def ss(1) stage_to_logical_def)
qed

section \<open>Physical plans\<close>

lemma nested_loop_results: "(\<Union>A\<in>S. row_pairs cond A ` S') \<subseteq> join_results cond S S'"
  by (auto simp: join_results_def)

lemma join_results_mono: "S \<subseteq> S1 \<Longrightarrow> S' \<subseteq> S2 \<Longrightarrow> join_results cond S S' \<subseteq> join_results cond S1 S2"
  by (fastforce simp: join_results_def)

lemma join_results_nonempty: "S \<noteq> {} \<Longrightarrow> S' \<noteq> {} \<Longrightarrow> join_results cond S S' \<noteq> {}"
  by (auto simp: join_results_def)

lemma join_results_of:
  assumes "X = (\<Union>A\<in>S. row_pairs cond A ` S') \<or> X = join_results cond S S'" "S \<noteq> {}" "S' \<noteq> {}"
  shows "X \<noteq> {} \<and> X \<subseteq> join_results cond S S'"
  using assms(1)
proof
  assume "X = (\<Union>A\<in>S. row_pairs cond A ` S')"
  then show ?thesis using nested_loop_results [where S = S and S' = S' and cond = cond] assms(2,3) by auto
qed (simp add: join_results_nonempty [OF assms(2,3)])

definition refines where
  "refines sf db rd pp p \<longleftrightarrow> plan_results db rd pp \<subseteq> logical_results db rd p
     \<and> plan_results db rd pp \<noteq> {} \<and> operators_fit sf pp"

lemma join_method_fits:
  assumes "\<forall>c\<in>C. plain_comparison sf c" "set cs \<subseteq> C" "s = cond_text sf cs" "cs \<noteq> []" "\<not> is_sorted r"
  shows "join_fits sf (choose_join_method_spec fl l r s stats) s"
proof (cases "is_equi_join s")
  case True
  have plain: "\<forall>c\<in>set cs. plain_comparison sf c" using assms(1,2) by auto
  then have "expr_to_predicate sf (and_chain cs) = s" "conjuncts (and_chain cs) = cs"
    using conjuncts_chain [OF assms(4) plain] conjuncts_text [of sf "and_chain cs"] assms(3) by simp_all
  moreover have "\<exists>c\<in>set cs. is_equality c" using True equi_cond_text [OF plain] assms(3) by simp
  ultimately have "join_fits sf PjHash s" unfolding join_fits_def plan_join_method.case by metis
  then show ?thesis using True assms(5) by (simp add: choose_join_method_spec_def)
qed (simp add: choose_join_method_spec_def join_fits_def)

lemma build_physical_refines:
  assumes C: "\<forall>c\<in>C. plain_comparison sf c"
  shows "plain_plan sf alnum T C p \<Longrightarrow> refines sf db rd (build_physical fl alnum p stats) p"
proof (induction p)
  case (LpJoin l r s)
  then obtain cs where cs: "set cs \<subseteq> C" "s = cond_text sf cs" "cs \<noteq> []" "\<not> is_sorted r" by auto
  have "join_fits sf (choose_join_method_spec fl l r s stats) s" by (rule join_method_fits [OF C cs])
  moreover have lr: "refines sf db rd (build_physical fl alnum l stats) l" "refines sf db rd (build_physical fl alnum r stats) r"
    using LpJoin by auto
  ultimately have fit: "operators_fit sf (build_physical fl alnum (LpJoin l r s) stats)"
    by (simp add: refines_def Let_def)
  let ?L = "plan_results db rd (build_physical fl alnum l stats)" and ?R = "plan_results db rd (build_physical fl alnum r stats)"
  have sub: "?L \<subseteq> logical_results db rd l" "?R \<subseteq> logical_results db rd r" and ne: "?L \<noteq> {}" "?R \<noteq> {}"
    using lr by (simp_all add: refines_def)
  define S where "S = plan_results db rd (build_physical fl alnum (LpJoin l r s) stats)"
  have "S = (\<Union>A\<in>?L. row_pairs (rd s) A ` ?R) \<or> S = join_results (rd s) ?L ?R"
    by (cases "choose_join_method_spec fl l r s stats") (simp_all add: S_def Let_def)
  then have "S \<noteq> {} \<and> S \<subseteq> join_results (rd s) ?L ?R" by (rule join_results_of [OF _ ne])
  then have "S \<noteq> {} \<and> S \<subseteq> logical_results db rd (LpJoin l r s)"
    using join_results_mono [OF sub, of "rd s"] unfolding logical_results.simps by blast
  then show ?case using fit unfolding refines_def S_def by blast
qed (auto simp: refines_def Let_def choose_scan_op_def)

section \<open>A reading of predicates\<close>

text \<open>Comparisons with different texts can be read back: this is one way to do it.\<close>

definition text_reader :: "(u64 \<Rightarrow> string) \<Rightarrow> expr list \<Rightarrow> string \<Rightarrow> plan_row \<Rightarrow> bool" where
  "text_reader sf cs s r \<longleftrightarrow>
     list_all (\<lambda>w. list_all (\<lambda>c. expr_to_predicate sf c = w \<longrightarrow> holds r c) cs) (split_and s)"

lemma text_reader_reads:
  assumes "\<forall>c\<in>set cs. plain_comparison sf c" "inj_on (expr_to_predicate sf) (set cs)"
  shows "reads_conditions sf (text_reader sf cs) (set cs)"
  unfolding reads_conditions_def
proof (intro allI impI)
  fix e r assume e: "set (conjuncts e) \<subseteq> set cs"
  have "split_and (expr_to_predicate sf e) = map (expr_to_predicate sf) (conjuncts e)"
    unfolding conjuncts_text [of sf e] by (rule split_cond_text) (use assms(1) e in auto)
  moreover have "list_all (\<lambda>c. expr_to_predicate sf c = expr_to_predicate sf d \<longrightarrow> holds r c) cs \<longleftrightarrow> holds r d"
    if "d \<in> set (conjuncts e)" for d
    using assms(2) e that by (auto simp: list_all_iff inj_on_def)
  ultimately show "text_reader sf cs (expr_to_predicate sf e) r = holds r e"
    by (simp add: text_reader_def list_all_iff holds_conjuncts [of r e])
qed

section \<open>Properties\<close>

text \<open>C18:
  The plan chosen for a query refines the query. Take a pipeline of the stages that plans express
  faithfully: a source, filters by conjunctions of comparisons of columns and literals whose text is
  one word each (\<open>plain_comparison\<close>), inner joins on such conditions,
  projections, ascending sorts and limits, where each comparison of a filter has qualified columns only
  or names none of the tables (\<open>plain_query\<close>); and read the text of a conjunction of the query's
  comparisons as that conjunction. Then for every statistics catalog and every database the physical
  plan computes something, and whatever it may compute, with its hash joins in any order, is a possible
  result of the query as its expressions say, with its joins in any order: splitting and merging the
  texts of filters, pushing conjuncts below joins and choosing operators neither lose nor add a row.
  Every hash join of the plan has a condition with an equality; there are no merge joins and no index
  scans. Disjunctions, outer joins, descending sorts and comparisons that mix a table with an
  unqualified column are excluded because the optimizer gets them wrong
  (\<open>disjunction_planned_as_conjunction\<close>, \<open>plan_forgets_kind_and_direction\<close>,
  \<open>unqualified_column_pushed\<close>).
\<close>

theorem optimizer_preserves_rows:
  assumes "plain_query sf alnum p" and "reads_conditions sf rd (query_comparisons p)"
  shows "\<exists>plan. cenql_to_logical sf p = Ok plan
    \<and> plan_results db rd (plan_query fl alnum plan stats) \<noteq> {}
    \<and> plan_results db rd (plan_query fl alnum plan stats) \<subseteq> query_results db p
    \<and> operators_fit sf (plan_query fl alnum plan stats)"
proof -
  let ?T = "\<Union>(stage_tables ` set (stages p))" and ?C = "query_comparisons p"
  note C = plain_query_comparisons [OF assms(1)]
  obtain plan where plan: "cenql_to_logical sf p = Ok plan" "plain_plan sf alnum ?T ?C plan"
    "logical_results db rd plan = query_results db p"
    using cenql_to_logical_results [OF assms] by blast
  have "pushes_ok sf alnum ?T ?C db rd (push_down_filters alnum plan) (query_results db p)"
    unfolding plan(3) [symmetric] by (rule push_keeps_results(1) [OF assms(2) C plan(2)])
  then have "refines sf db rd (plan_query fl alnum plan stats) (push_down_filters alnum plan)"
    "logical_results db rd (push_down_filters alnum plan) = query_results db p"
    using build_physical_refines [OF C] by (auto simp: pushes_ok_def plan_query_def)
  then show ?thesis using plan(1) by (auto simp: refines_def)
qed

definition orders_query :: cenql_pipeline where
  "orders_query = Pipeline
     [SgFrom ''users'',
      SgJoin ''orders'' KindInner (ExBinary OpEq (ExColumn ''users.id'') (ExColumn ''orders.uid'')),
      SgFilter (ExBinary OpAnd (ExBinary OpGt (ExColumn ''users.age'') (ExI64 30))
        (ExBinary OpLt (ExColumn ''orders.total'') (ExColumn ''users.limit''))),
      SgTake 5]"

definition orders_comparisons :: "expr list" where
  "orders_comparisons = concat (map stage_conditions (stages orders_query))"

definition orders_database :: database where
  "orders_database t =
     (if t = ''users'' then [[(''id'', VI64 1), (''age'', VI64 40), (''limit'', VI64 9)], [(''id'', VI64 2), (''age'', VI64 20)]]
      else [[(''uid'', VI64 1), (''total'', VI64 7)], [(''uid'', VI64 2), (''total'', VI64 3)]])"

lemma orders_query_plain: "plain_query sf alnum orders_query"
proof -
  have w: "is_word ''users''" "is_word ''orders''"
    by (simp_all add: is_word_def is_ident_start_def is_ident_char_def is_ascii_alphanumeric_def is_ascii_alphabetic_def)
  have q: "is_qualified (t @ CHR ''.'' # k)" if "is_word t" "\<forall>b\<in>set k. is_ident_char b" for t k
    using that by (auto simp: is_qualified_def)
  have "is_qualified ''users.age''" "is_qualified ''orders.total''" "is_qualified ''users.limit''"
    using q [OF w(1), of "''age''"] q [OF w(2), of "''total''"] q [OF w(1), of "''limit''"]
    by (simp_all add: is_ident_char_def is_ascii_alphanumeric_def is_ascii_alphabetic_def)
  moreover have "plain_word ''users.age''" "plain_word ''orders.total''" "plain_word ''users.limit''"
    "plain_word ''users.id''" "plain_word ''orders.uid''" "plain_word ''30''"
    by (simp_all add: plain_word_def unbroken_def utf8_chars.simps is_whitespace_def is_and_word_def
        to_lowercase_def lower_char_def)
  moreover have "show_int 30 = ''30''" by code_simp
  ultimately show ?thesis by (simp add: plain_query_def orders_query_def placed_def)
qed

theorem optimizer_preserves_rows_witness:
  "\<exists>plan. cenql_to_logical (\<lambda>_. []) orders_query = Ok plan
    \<and> plan_results orders_database (text_reader (\<lambda>_. []) orders_comparisons)
        (plan_query sample_floats (\<lambda>_. False) plan catalog_new) \<noteq> {}
    \<and> plan_results orders_database (text_reader (\<lambda>_. []) orders_comparisons)
        (plan_query sample_floats (\<lambda>_. False) plan catalog_new) \<subseteq> query_results orders_database orders_query"
proof -
  let ?sf = "\<lambda>_ :: u64. [] :: string"
  have set: "set orders_comparisons = query_comparisons orders_query"
    by (auto simp: orders_comparisons_def query_comparisons_def)
  have "inj_on (expr_to_predicate ?sf) (set orders_comparisons)"
    by (simp add: orders_comparisons_def orders_query_def show_int_def show_nat.simps)
  then have "reads_conditions ?sf (text_reader ?sf orders_comparisons) (query_comparisons orders_query)"
    using text_reader_reads [of orders_comparisons ?sf] plain_query_comparisons [OF orders_query_plain] set by simp
  from optimizer_preserves_rows [OF orders_query_plain this, of orders_database sample_floats "\<lambda>_. False" catalog_new]
  show ?thesis by blast
qed

text \<open>
  A conjunct that names one table and an unqualified column of the other goes below the join to the
  side that it names, where that column does not exist.
\<close>

lemma unqualified_column_pushed:
  "push_down_filters alnum (LpFilter (LpJoin (LpScan ''users'' None) (LpScan ''orders'' None) s) ''users.id < total'') =
     LpJoin (LpFilter (LpScan ''users'' None) ''users.id < total'') (LpScan ''orders'' None) s"
proof -
  have "split_and ''users.id < total'' = [''users.id < total'']" by code_simp
  moreover have "predicate_tokens alnum ''users.id < total'' = [''users.id'', ''total'']"
    by (simp add: predicate_tokens_def pieces_def utf8_chars.simps is_token_char_def is_ascii_alphanumeric_def
        is_ascii_alphabetic_def is_ascii_digit_def)
  moreover have "table_names (LpScan t None) = [t]" for t by (simp add: table_names_def)
  ultimately have "side_conjuncts alnum ''users.id < total'' (LpScan ''users'' None) (LpScan ''orders'' None) side
      = (if side = Some True then [''users.id < total''] else [])" for side
    by (simp add: side_conjuncts_def conjunct_side_def token_table_def)
  then show ?thesis by (simp add: push_down_filters.simps push_filter_into.simps Let_def join_and_def)
qed

end
