(* ===== verification/Spec2Isabelle.thy ===== *)
theory Spec2Isabelle
  imports Segment Recovery Interleaving PoolCoherence ArtIter Join Executor Vectorized PlanRows
begin

text \<open>
  A verification library of CenDB, the multi-model storage engine under \<open>source/crates\<close>.

  The program. Values reach the engine as rows. A row is appended to a PAX block builder, which
  keeps one staging buffer per column; a finished block stores each column as an encoded minipage
  (\<open>cendb-storage\<close>: \<open>pax.rs\<close>, \<open>header.rs\<close>, \<open>encoding.rs\<close>).
  Blocks live in pages that the buffer pool caches in frames and evicts by LRU-K
  (\<open>cendb-buffer\<close>: \<open>pool.rs\<close>, \<open>frame.rs\<close>, \<open>lru.rs\<close>). Changes are
  logged before they are applied; after a crash the log is scanned, committed work is redone and
  unfinished work undone (\<open>cendb-tx/src/wal.rs\<close>). Transactions see snapshots by
  multi-version concurrency control (\<open>mvcc.rs\<close>), also through a manager shared by threads
  (\<open>concurrent_tm.rs\<close>). Identifiers, errors, configuration and the kinds of values come
  from \<open>cendb-core\<close>.

  The theories, in the order of their imports, with the source each models.
  \<^item> \<open>CenPrelude\<close>: widths of machine integers, the outcome of a fallible function
    (\<open>Ok\<close>, \<open>Err\<close>, \<open>Panic\<close>), little-endian bytes, Rust's shifts, slices
    and positions, and the shared lemmas; the collections \<open>codec_rt\<close> (round trips),
    \<open>inv_intro\<close> (invariants kept) and \<open>len_simps\<close> (lengths).
  \<^item> \<open>Core\<close> (\<open>cendb-core/src/lib.rs\<close>): page identifiers and when packing is
    injective, errors, configuration and exactly what its validation accepts.
  \<^item> \<open>PackedInts\<close>, \<open>Encoding\<close>, \<open>Codecs\<close>, \<open>Bitstream\<close>,
    \<open>DictCodec\<close>, \<open>GorillaCodec\<close>, \<open>Minipage\<close>
    (\<open>encoding.rs\<close>): the codecs, each an interpretation of the locale
    \<open>minipage_codec\<close> on the columns it supports; the heuristic that picks one; the round
    trip of minipages and the inputs on which a codec loses data.
  \<^item> \<open>Header\<close> (\<open>header.rs\<close>, \<open>zerocopy.rs\<close>): the \<open>repr(C)\<close>
    structs as records with their bytes; zone-map tests; alignment.
  \<^item> \<open>Pax\<close> (definitions of \<open>pax.rs\<close>), \<open>PaxLayout\<close> (positions of all
    parts of a finished block), \<open>PaxBlocks\<close> (what the staged columns hold and how a cell is
    read back), \<open>PaxSpec\<close> (when a block is built, zone maps, bounds), \<open>PaxProps\<close>
    (the properties and a sample block), \<open>PaxReader\<close> (the borrowing reader).
  \<^item> \<open>Segment\<close> (\<open>segment.rs\<close>): the directory of blocks, the writer and the reader of
    segment files over the bytes of a file, their round trip, and what opening an unsealed or
    truncated file does.
  \<^item> \<open>WalRecord\<close>, \<open>Wal\<close>, \<open>Recovery\<close> (\<open>wal.rs\<close>): record format
    and checksum, and what damage to a byte it detects; append, commit, checkpoint, truncation and reopening over a file whose synced
    prefix survives a crash; analysis, redo and undo.
  \<^item> \<open>Mvcc\<close> (\<open>mvcc.rs\<close>): version visibility, the transaction manager as a state
    machine of calls (an inductive reachability relation), garbage collection, savepoints.
  \<^item> \<open>ConcurrentTm\<close> (\<open>concurrent_tm.rs\<close>): the shared manager, each call as one
    atomic step, with the garbage collection callback; its refinement to \<open>Mvcc\<close>.
  \<^item> \<open>Interleaving\<close> (\<open>concurrent_tm.rs\<close>): the same calls as sequences of steps
    between lock acquisitions, taken by any number of threads in any order: mutual exclusion,
    progress, snapshot isolation while nothing is collected, atomicity of uninterrupted calls,
    and the races of begin, commit and collection.
  \<^item> \<open>LruK\<close>, \<open>BufferPool\<close>, \<open>PoolCoherence\<close> (\<open>cendb-buffer\<close>):
    the replacement policy, the pool over a page source, and the refinement of the pool to a map
    of page contents. The contract of a page source is the locale \<open>page_source\<close>,
    interpreted on the engine's in-memory source.

  \<^item> \<open>ArtNode\<close>, \<open>Art\<close>, \<open>ArtIter\<close> (\<open>cendb-index/src/art.rs\<close>): the four node
    layouts with the laws of a table of children (the locale \<open>child_table\<close>, interpreted
    on the layouts), the radix tree as a map from keys to values, and its iterator.
  \<^item> \<open>Join\<close> (\<open>cendb-executor/src/join.rs\<close>): the order of values as an instance of the
    library's linear orders, the hash, nested-loop and sort-merge joins over rows, and their
    agreement; the hash function of values is an argument.
  \<^item> \<open>Lexer\<close>, \<open>CenqlAst\<close> (\<open>cendb-cenql\<close>: \<open>lexer.rs\<close>,
    \<open>ast.rs\<close>): the tokenizer over UTF-8 bytes, the syntax trees and their printed form.
  \<^item> \<open>Parser\<close>, \<open>ParserSound\<close>, \<open>ParserRoundtrip\<close>
    (\<open>parser.rs\<close>): the recursive descent parser as
    functions on the remaining tokens. The list ends with the end-of-file token, as the code's
    vector does. The argument \<open>d\<close> counts the nested calls of \<open>parse_expr\<close> the
    stack still holds; without any left the outcome is \<open>Panic\<close>. The loops are bounded by the
    number of remaining tokens plus one, which is enough since every turn consumes a token. The
    parser never panics with a stack as deep as the input is long (for every stack there is a
    source that overflows it), what it returns is a well-formed tree, and every well-formed pipeline is what it reads from its printed form.
  \<^item> \<open>Executor\<close> (\<open>cendb-executor/src/subquery.rs\<close>): table providers, expressions
    with nulls, and the stages of a pipeline over materialised rows. A filter is SQL's \<open>where\<close>
    in three-valued logic, a filter by \<open>in\<close> a semi-join, \<open>sort\<close> stable; the only
    panic is that of a division. The columns of SQL's \<open>where\<close> are resolved by
    \<open>column_value\<close>, which asks for exactly one column of the name.
  \<^item> \<open>Vectorized\<close> (\<open>vector.rs\<close>, \<open>morsel.rs\<close>): selection vectors, batches
    of rows, the external merge sort and the partitioned hash join. The heap of the merge is the
    list of its entries with the least one popped; the loop of the merge carries as its bound the
    number of values in all runs, which it never exceeds.
  \<^item> \<open>Stats\<close>, \<open>Optimizer\<close> (\<open>cendb-optimizer\<close>: \<open>stats.rs\<close>,
    \<open>cost.rs\<close>, \<open>plan.rs\<close>): statistics, histograms and HyperLogLog registers, cost
    formulas, logical and physical plans, the push-down of filters over predicate texts, the choice
    of operators, the conversion of pipelines and \<open>explain\<close>. The push-down ends because every
    nested call has fewer joins or a smaller plan.
  \<^item> \<open>PlanRows\<close>: the specification of the optimizer. \<open>query_results\<close> is the set of
    possible results of a pipeline, defined on its expressions; \<open>plan_results\<close> that of a
    physical plan, defined on its operators and on a reading of its predicate texts, which is an
    argument because nothing in the repository reads them back. On the pipelines whose text says
    what they mean the plan's results are results of the query.

  Conventions. The release build is modelled: arithmetic on fixed-width integers wraps and shift
  amounts are reduced modulo the width. \<open>usize\<close> lengths and indices are natural numbers,
  floats are their bit patterns, \<open>i64\<close> is a word read through \<open>sint\<close>. An operation
  that changes its state also when it fails returns the result and the state. Hash maps that are
  iterated are association lists in insertion order, the others functions to options. Messages of
  errors are those of the source. Panics (indexing out of range, failed assertions) are the
  outcome \<open>Panic\<close>, so that a lemma that returns \<open>Ok\<close> or \<open>Err\<close> also says
  that the code does not panic.

  Bounds. Loops are structural recursions, or recursions with a proved measure. The mutual
  recursion of log append and checkpoint does not end once the checkpoint interval is reached; it
  carries the remaining stack depth as an argument and reports the overflow, and
  \<open>auto_checkpoint_overflows_stack\<close> holds for every depth, while the properties of append
  and commit hold below the interval at any depth of at least one. Histories of transactions are
  shorter than \<open>2 ^ 64 - 2\<close> calls, so that the 64-bit counters do not wrap; columns have
  fewer than \<open>2 ^ 32\<close> rows, which the block format requires; a block's minipages end below
  4 GiB, because their offsets are 32-bit fields.

  Parameters. Storage behind the buffer pool is the record of functions of the trait
  \<open>PageSource\<close>; the closure that applies a log record to a page is a function on an
  arbitrary state; the decimal forms of floats and the lossy decoding of UTF-8, which enter
  var-heap text and messages only, are a record of functions. The arithmetic of floats is an argument
  too (a function of the executor's environment, the record \<open>float_ops\<close> of the optimizer), and
  so is the Unicode class of alphanumeric characters beyond ASCII.

  Not modelled. File operations are taken to succeed, and the temporary file of log truncation is
  its effect on the content of the log. A step of an interleaved call holds the lock of the cell it
  accesses; weak memory orderings of the atomics are not modelled. The crates that are not named above are listed
  in the manifest with the reason: facades, transports and test drivers, code whose core is
  floating-point arithmetic (the estimate of HyperLogLog included) or calls an external library, and
  parts not modelled yet (the projections over the storage core, replication, access control,
  the inverted index).
\<close>

end
